(* ===== verification/Prelude.thy ===== *)
theory Prelude imports Complex_Main "HOL-Library.AList" begin

text \<open>
  Shared vocabulary of the development: the types that stand for the Python values the code
  computes with, the few Python operations whose corner cases matter (the \<^verbatim>\<open>or\<close>
  operator on optional integers, floor division by a bucket, indexing that can raise, bounded
  deques, ordered dictionaries), and the generic machine interfaces that the components
  instantiate.

  Times are Python integers (milliseconds), modelled by \<^typ>\<open>int\<close>. Prices, sizes and the
  floats computed from them are modelled by \<^typ>\<open>rat\<close>: comparisons are exact, and the
  rounding of binary floats and of 28-digit decimals is abstracted away.
\<close>

type_synonym ms = int
type_synonym dec = rat

text \<open>The exceptions that the modelled code raises itself.\<close>

datatype py_error =
    ValueError string
  | IndexError
  | KeyError
  | BookGap string
  | ZeroDivision
  | BlockingIO string
  | RuntimeErr string
  | TypeErr
  | AttributeErr

named_theorems machine_simps "unfolding rules of the step functions"

subsection \<open>Python operators\<close>

text \<open>\<^verbatim>\<open>a or b\<close> on an optional integer: both None and 0 are falsy.\<close>

definition or_ms :: "ms option \<Rightarrow> ms \<Rightarrow> ms" where
  "or_ms v d = (case v of None \<Rightarrow> d | Some x \<Rightarrow> if x = 0 then d else x)"

lemma or_ms_simps [simp]:
  "or_ms None d = d"
  "or_ms (Some 0) d = d"
  "x \<noteq> 0 \<Longrightarrow> or_ms (Some x) d = x"
  by (auto simp: or_ms_def)

text \<open>\<^verbatim>\<open>x // m * m\<close>: the start of the bucket of width m that holds x.\<close>

definition bucket_start :: "int \<Rightarrow> int \<Rightarrow> int" where
  "bucket_start m x = x div m * m"

lemma bucket_start_le: "0 < m \<Longrightarrow> bucket_start m x \<le> x"
  unfolding bucket_start_def using div_mult_mod_eq [of x m] pos_mod_sign [of m x] by linarith

lemma bucket_start_gt: "0 < m \<Longrightarrow> x < bucket_start m x + m"
  unfolding bucket_start_def using div_mult_mod_eq [of x m] pos_mod_bound [of m x] by linarith

lemma bucket_start_mono: "0 < m \<Longrightarrow> x \<le> y \<Longrightarrow> bucket_start m x \<le> bucket_start m y"
  by (simp add: bucket_start_def zdiv_mono1 mult_right_mono)

text \<open>\<^verbatim>\<open>int(x)\<close> of a float truncates towards zero.\<close>

definition py_trunc :: "dec \<Rightarrow> int" where
  "py_trunc x = (if 0 \<le> x then \<lfloor>x\<rfloor> else \<lceil>x\<rceil>)"

text \<open>\<^verbatim>\<open>xs[i]\<close>: negative indices count from the end, others raise.\<close>

definition py_nth :: "'a list \<Rightarrow> int \<Rightarrow> py_error + 'a" where
  "py_nth items i =
     (if 0 \<le> i \<and> nat i < length items then Inr (items ! nat i)
      else if i < 0 \<and> nat (- i) \<le> length items then Inr (items ! (length items - nat (- i)))
      else Inl IndexError)"

lemma py_nth_in_range: "0 \<le> i \<Longrightarrow> i < int (length xs) \<Longrightarrow> py_nth xs i = Inr (xs ! nat i)"
  by (auto simp: py_nth_def nat_less_iff)

subsection \<open>Bounded deques\<close>

text \<open>\<^verbatim>\<open>collections.deque(maxlen=n).append(x)\<close>: the oldest items fall out.\<close>

definition deque_append :: "nat \<Rightarrow> 'a \<Rightarrow> 'a list \<Rightarrow> 'a list" where
  "deque_append n x xs = (let ys = xs @ [x] in drop (length ys - n) ys)"

lemma length_deque_append: "length (deque_append n x xs) \<le> n"
  by (simp add: deque_append_def Let_def)

lemma set_deque_append: "set (deque_append n x xs) \<subseteq> insert x (set xs)"
  by (auto simp: deque_append_def Let_def dest: in_set_dropD)

lemma deque_append_below: "length xs < n \<Longrightarrow> deque_append n x xs = xs @ [x]"
  by (simp add: deque_append_def Let_def)

lemma deque_append_full:
  "length xs = n \<Longrightarrow> 0 < n \<Longrightarrow> deque_append n x xs = tl xs @ [x]"
  by (cases xs) (auto simp: deque_append_def Let_def)

subsection \<open>Machines: invariants and absorbing states over runs\<close>

text \<open>
  The stateful classes of the program are folded over the messages they receive. These two
  interfaces state once what a component has to show for a single step, and carry it to
  every run; the components interpret them on their own step functions.
\<close>

locale step_invariant =
  fixes step :: "'e \<Rightarrow> 's \<Rightarrow> 's"
    and inv :: "'s \<Rightarrow> bool"
  assumes step_inv: "inv s \<Longrightarrow> inv (step e s)"
begin

lemma run_inv: "inv s \<Longrightarrow> inv (fold step es s)"
  by (induction es arbitrary: s) (auto intro: step_inv)

lemma run_inv_prefix: "inv s \<Longrightarrow> inv (fold step (take n es) s)"
  by (rule run_inv)

end

text \<open>The same for runs whose events all satisfy a condition.\<close>

locale guarded_invariant =
  fixes step :: "'e \<Rightarrow> 's \<Rightarrow> 's"
    and inv :: "'s \<Rightarrow> bool"
    and allowed :: "'e \<Rightarrow> bool"
  assumes allowed_step: "inv s \<Longrightarrow> allowed e \<Longrightarrow> inv (step e s)"
begin

lemma run_allowed: "inv s \<Longrightarrow> \<forall>e \<in> set es. allowed e \<Longrightarrow> inv (fold step es s)"
  by (induction es arbitrary: s) (auto intro: allowed_step)

end

sublocale step_invariant \<subseteq> unguarded: guarded_invariant step inv "\<lambda>_. True"
  by unfold_locales (rule step_inv)

locale absorbing_machine =
  fixes step :: "'e \<Rightarrow> 's \<Rightarrow> 's"
    and final :: "'s \<Rightarrow> bool"
  assumes final_step: "final s \<Longrightarrow> step e s = s"
begin

lemma run_final: "final s \<Longrightarrow> fold step es s = s"
  by (induction es arbitrary: s) (auto simp: final_step)

lemma run_final_append: "final (fold step es s) \<Longrightarrow> fold step (es @ fs) s = fold step es s"
  by (simp add: run_final)

end

locale monotone_machine =
  fixes step :: "'e \<Rightarrow> 's \<Rightarrow> 's"
    and reading :: "'s \<Rightarrow> int"
    and inv :: "'s \<Rightarrow> bool"
  assumes mono_inv: "inv s \<Longrightarrow> inv (step e s)"
    and step_mono: "inv s \<Longrightarrow> reading s \<le> reading (step e s)"

sublocale monotone_machine \<subseteq> keeps: step_invariant step inv
  by unfold_locales (rule mono_inv)

context monotone_machine
begin

lemma run_mono: "inv s \<Longrightarrow> reading s \<le> reading (fold step es s)"
proof (induction es arbitrary: s)
  case Nil
  then show ?case by simp
next
  case (Cons e es)
  have "reading s \<le> reading (step e s)" by (rule step_mono [OF Cons.prems])
  also have "\<dots> \<le> reading (fold step es (step e s))"
    by (rule Cons.IH [OF mono_inv [OF Cons.prems]])
  finally show ?case by simp
qed

end

subsection \<open>Lists\<close>

lemma takeWhile_append_stop: "takeWhile P ys = [] \<Longrightarrow> takeWhile P (xs @ ys) = takeWhile P xs"
  by (induction xs) simp_all

lemma takeWhile_rev_append:
  assumes "\<And>x. x \<in> set ys \<Longrightarrow> P x" and "xs \<noteq> [] \<Longrightarrow> \<not> P (last xs)"
  shows "takeWhile P (rev (xs @ ys)) = rev ys"
proof (cases "xs = []")
  case True
  have "takeWhile P (rev ys) = rev ys" using assms(1) by (simp add: takeWhile_eq_all_conv)
  with True show ?thesis by simp
next
  case False
  then obtain zs z where z: "xs = zs @ [z]" by (metis append_butlast_last_id)
  with assms(2) False have "\<not> P z" by simp
  moreover have "takeWhile P (rev ys @ z # rev zs) = rev ys @ takeWhile P (z # rev zs)"
    by (rule takeWhile_append2) (use assms(1) in simp)
  ultimately show ?thesis using z by simp
qed

lemma sorted_wrt_append_le:
  "sorted (map f (xs @ ys)) \<Longrightarrow> x \<in> set xs \<Longrightarrow> y \<in> set ys \<Longrightarrow> f x \<le> f y"
  by (auto simp: sorted_append)

end
