(* ===== verification/Values.thy ===== *)
theory Values imports Prelude begin

text \<open>
  The dynamic values of the program: the JSON dictionaries in which evidence travels
  (\<^verbatim>\<open>signal.evidence\<close>, \<^verbatim>\<open>signal.coverage\<close>), Python's truth values and
  numeric equality on them, and the causality helpers of
  \<^verbatim>\<open>src/bybit_flow/setup_common.py\<close> that every policy calls before it trusts a row.
\<close>

datatype pyfloat = Fin dec | PosInf | NegInf | NaN

datatype json =
    JNull
  | JBool bool
  | JInt int
  | JFlt pyfloat
  | JStr string
  | JList "json list"
  | JObj "(string \<times> json) list"

subsection \<open>Reading dictionaries\<close>

text \<open>
  \<^verbatim>\<open>d.get(k)\<close>: the value under a key, None when the key is missing. The
  \<^verbatim>\<open>or {}\<close> that follows such a read in the code is \<open>or_obj\<close>.
\<close>

fun jget :: "json \<Rightarrow> string \<Rightarrow> json" where
  "jget (JObj kvs) k = (case map_of kvs k of None \<Rightarrow> JNull | Some v \<Rightarrow> v)"
| "jget _ k = JNull"

text \<open>\<^verbatim>\<open>d.get(k, v)\<close>: the default replaces a missing key only, not a stored None.\<close>

fun jget_default :: "json \<Rightarrow> string \<Rightarrow> json \<Rightarrow> json" where
  "jget_default (JObj kvs) k v = (case map_of kvs k of None \<Rightarrow> v | Some w \<Rightarrow> w)"
| "jget_default _ k v = v"

fun is_obj :: "json \<Rightarrow> bool" where
  "is_obj (JObj _) = True"
| "is_obj _ = False"

fun truthy :: "json \<Rightarrow> bool" where
  "truthy JNull = False"
| "truthy (JBool b) = b"
| "truthy (JInt i) = (i \<noteq> 0)"
| "truthy (JFlt (Fin r)) = (r \<noteq> 0)"
| "truthy (JFlt _) = True"
| "truthy (JStr s) = (s \<noteq> [])"
| "truthy (JList xs) = (xs \<noteq> [])"
| "truthy (JObj kvs) = (kvs \<noteq> [])"

definition or_obj :: "json \<Rightarrow> json" where
  "or_obj v = (if truthy v then v else JObj [])"

text \<open>
  The number a value compares as. Python's booleans compare as 0 and 1; infinities and
  not-a-number have no finite reading.
\<close>

fun num_of :: "json \<Rightarrow> dec option" where
  "num_of (JBool b) = Some (if b then 1 else 0)"
| "num_of (JInt i) = Some (of_int i)"
| "num_of (JFlt (Fin r)) = Some r"
| "num_of _ = None"

text \<open>
  \<^verbatim>\<open>a == b\<close> on scalars: numbers compare by value across int, float and bool, NaN
  equals nothing. Lists and dictionaries are compared as they stand.
\<close>

definition py_eq :: "json \<Rightarrow> json \<Rightarrow> bool" where
  "py_eq a b =
     (case (num_of a, num_of b) of
        (Some x, Some y) \<Rightarrow> x = y
      | (None, None) \<Rightarrow> a = b \<and> a \<noteq> JFlt NaN
      | _ \<Rightarrow> False)"

lemma py_eq_sym: "py_eq a b = py_eq b a"
  by (auto simp: py_eq_def split: option.splits)

lemma py_eq_strings [simp]: "py_eq (JStr s) (JStr t) = (s = t)"
  by (simp add: py_eq_def)

lemma py_eq_refl: "a \<noteq> JFlt NaN \<Longrightarrow> py_eq a a"
  by (auto simp: py_eq_def split: option.splits)

subsection \<open>setup_common.py\<close>

text \<open>\<^verbatim>\<open>number\<close>: an int or a float, not a bool, and finite.\<close>

fun number :: "json \<Rightarrow> bool" where
  "number (JInt i) = True"
| "number (JFlt (Fin r)) = True"
| "number _ = False"

text \<open>The value of a \<^verbatim>\<open>number\<close>; 0 is never read where the code has checked first.\<close>

fun num_val :: "json \<Rightarrow> dec" where
  "num_val (JInt i) = of_int i"
| "num_val (JFlt (Fin r)) = r"
| "num_val _ = 0"

definition positive :: "json \<Rightarrow> bool" where
  "positive v \<longleftrightarrow> number v \<and> num_val v > 0"

lemma number_num_of: "number v \<Longrightarrow> num_of v = Some (num_val v)"
  by (cases v rule: number.cases) auto

definition clamp :: "dec \<Rightarrow> dec \<Rightarrow> dec \<Rightarrow> dec" where
  "clamp v low high = min high (max low v)"

definition envelope ::
    "json \<Rightarrow> json \<Rightarrow> string \<Rightarrow> ms \<Rightarrow> (string \<times> json) list \<Rightarrow> json" where
  "envelope source symbol policy now values =
     JObj ([(''policy'', JStr policy), (''source'', source), (''symbol'', symbol),
            (''available_ms'', JInt now)] @ values)"

text \<open>
  \<^verbatim>\<open>causal(row, signal, now, ttl)\<close>: the row is a dictionary of this source and symbol,
  was available at or before now and not longer than ttl ago, and no timestamp it carries
  lies in the future. The enclosing signal supplies a missing source or symbol.
\<close>

definition causal :: "json \<Rightarrow> json \<Rightarrow> json \<Rightarrow> ms \<Rightarrow> ms option \<Rightarrow> bool" where
  "causal row source symbol now ttl =
     (let avail = jget row ''available_ms'' in
      is_obj row
      \<and> py_eq (jget_default row ''source'' source) source
      \<and> py_eq (jget_default row ''symbol'' symbol) symbol
      \<and> number avail
      \<and> 0 \<le> of_int now - num_val avail
      \<and> (case ttl of None \<Rightarrow> True | Some t \<Rightarrow> of_int now - num_val avail \<le> of_int t)
      \<and> list_all (\<lambda>k. \<not> number (jget row k) \<or> num_val (jget row k) \<le> of_int now)
          [''source_ms'', ''window_end_ms'', ''end_ms''])"

text \<open>\<^verbatim>\<open>quantile\<close>: linear interpolation in the sorted values.\<close>

definition quantile :: "dec list \<Rightarrow> dec \<Rightarrow> py_error + dec option" where
  "quantile values q =
     (let ordered = sort values; n = int (length ordered) in
      if ordered = [] then Inr None
      else
        let index = of_int (n - 1) * q; left = py_trunc index in
        case py_nth ordered left of
          Inl e \<Rightarrow> Inl e
        | Inr a \<Rightarrow>
            (case py_nth ordered (min (left + 1) (n - 1)) of
               Inl e \<Rightarrow> Inl e
             | Inr b \<Rightarrow> Inr (Some (a + (b - a) * (index - of_int left)))))"

subsection \<open>Facts about the helpers\<close>

lemma clamp_in_range: "low \<le> high \<Longrightarrow> low \<le> clamp v low high \<and> clamp v low high \<le> high"
  by (auto simp: clamp_def)

lemma clamp_id: "low \<le> v \<Longrightarrow> v \<le> high \<Longrightarrow> clamp v low high = v"
  by (simp add: clamp_def)

text \<open>Evidence that was not available yet is refused, whatever else the row says.\<close>

lemma causal_past: "causal row src sy now ttl \<Longrightarrow> num_val (jget row ''available_ms'') \<le> of_int now"
  by (simp add: causal_def Let_def)

lemma causal_ttl:
  "causal row src sy now (Some t) \<Longrightarrow> of_int (now - t) \<le> num_val (jget row ''available_ms'')"
  by (simp add: causal_def Let_def)

text \<open>A row that is causal under a ttl is causal under a longer one, and without one.\<close>

lemma causal_ttl_mono: "causal row src sy now (Some t) \<Longrightarrow> t \<le> t' \<Longrightarrow> causal row src sy now (Some t')"
  by (auto simp: causal_def Let_def elim: order_trans)

lemma causal_ttl_drop: "causal row src sy now (Some t) \<Longrightarrow> causal row src sy now None"
  by (auto simp: causal_def Let_def)

lemma quantile_index:
  fixes q :: dec
  assumes n: "0 < n" and q: "0 \<le> q" "q \<le> 1"
  defines "index \<equiv> of_int (n - 1) * q"
  shows "0 \<le> py_trunc index" "py_trunc index \<le> n - 1"
    "0 \<le> index - of_int (py_trunc index)" "index - of_int (py_trunc index) \<le> 1"
proof -
  have ge: "0 \<le> index" using n q by (simp add: index_def)
  have le: "index \<le> of_int (n - 1)"
    using mult_left_mono [OF q(2), of "of_int (n - 1)"] n by (simp add: index_def)
  have fl: "py_trunc index = \<lfloor>index\<rfloor>" using ge by (simp add: py_trunc_def)
  show "0 \<le> py_trunc index" using fl ge by simp
  show "py_trunc index \<le> n - 1"
    unfolding fl using floor_mono [OF le] by simp
  show "0 \<le> index - of_int (py_trunc index)" using fl by simp
  show "index - of_int (py_trunc index) \<le> 1" unfolding fl by linarith
qed

lemma between_convex:
  fixes a b x :: dec
  assumes "a \<le> b" "0 \<le> x" "x \<le> 1"
  shows "a \<le> a + (b - a) * x" "a + (b - a) * x \<le> b"
proof -
  show "a \<le> a + (b - a) * x" using assms by simp
  have "(b - a) * x \<le> (b - a) * 1" using assms by (intro mult_left_mono) auto
  then show "a + (b - a) * x \<le> b" by simp
qed

text \<open>
  On a probability level the function never raises and interpolates between two order
  statistics, so the result lies between the smallest and the largest value.
\<close>

lemma quantile_between:
  assumes ne: "values \<noteq> []" and q: "0 \<le> q" "q \<le> 1"
  shows "\<exists>r. quantile values q = Inr (Some r) \<and> Min (set values) \<le> r \<and> r \<le> Max (set values)"
proof -
  define xs where "xs = sort values"
  define n where "n = int (length xs)"
  define index where "index = of_int (n - 1) * q"
  define left where "left = py_trunc index"
  define right where "right = min (left + 1) (n - 1)"
  have "0 < n" using ne by (simp add: n_def xs_def)
  note idx = quantile_index [OF this q, folded index_def, folded left_def]
  have rng: "0 \<le> left" "left < int (length xs)" "0 \<le> right" "right < int (length xs)"
    and lr: "nat left \<le> nat right"
    using idx \<open>0 < n\<close> by (auto simp: right_def n_def)
  have "sorted xs" by (simp add: xs_def)
  then have ab: "xs ! nat left \<le> xs ! nat right"
    using lr rng by (intro sorted_nth_mono) auto
  have mem: "xs ! nat left \<in> set values" "xs ! nat right \<in> set values"
    using rng nth_mem [of "nat left" xs] nth_mem [of "nat right" xs] by (auto simp: xs_def)
  have ne': "sort values \<noteq> []" using ne by (metis set_empty set_sort)
  have eq: "quantile values q =
      Inr (Some (xs ! nat left + (xs ! nat right - xs ! nat left) * (index - of_int left)))"
    using ne' rng
    by (simp add: quantile_def Let_def py_nth_in_range xs_def [symmetric] n_def [symmetric]
        index_def [symmetric] left_def [symmetric] right_def [symmetric])
      (auto simp: xs_def n_def index_def left_def right_def py_nth_in_range)
  have "Min (set values) \<le> xs ! nat left" "xs ! nat right \<le> Max (set values)"
    using mem by simp_all
  then show ?thesis
    using eq between_convex [OF ab idx(3,4)] by (meson order_trans)
qed

end
