(* ===== verification/Model.thy ===== *)
theory Model imports Values begin

text \<open>
  The data model of \<^verbatim>\<open>src/bybit_flow/models.py\<close>: executed trades, candles,
  research signals and the dictionaries attached to them, and the partial order in which a
  signal's state may move.

  A signal's \<^verbatim>\<open>evidence\<close> and \<^verbatim>\<open>coverage\<close> are Python dictionaries. The
  keys that the modelled operations read or write are fields here, with None for a missing
  key; sub-dictionaries that are only inspected stay JSON values. Fields of
  \<^verbatim>\<open>Signal\<close> that no modelled operation touches are left out.
\<close>

subsection \<open>Enumerations\<close>

datatype direction = LONG | SHORT
datatype source = Bybit | Binance | Okx | Tradingview
datatype side = Buy | Sell
datatype profile = SHORT_INTRADAY | CORE_INTRADAY | SWING | EXTENDED_SWING | LEGACY

datatype sig_state =
    WATCHLIST
  | PENDING_CONFIRMATION
  | CONFIRMED
  | ALERTED
  | INVALIDATED
  | EXPIRED
  | RESOLVED

definition TERMINAL :: "sig_state set" where
  "TERMINAL = {INVALIDATED, EXPIRED, RESOLVED}"

lemma TERMINAL_iff [simp]:
  "s \<in> TERMINAL \<longleftrightarrow> s = INVALIDATED \<or> s = EXPIRED \<or> s = RESOLVED"
  by (auto simp: TERMINAL_def)

lemma sig_state_all: "(\<forall>s. P s) \<longleftrightarrow>
    P WATCHLIST \<and> P PENDING_CONFIRMATION \<and> P CONFIRMED \<and> P ALERTED
    \<and> P INVALIDATED \<and> P EXPIRED \<and> P RESOLVED"
  by (metis sig_state.exhaust)

text \<open>
  The order of progress: a live state may move to any other state, a terminal state only to
  itself. It is the order in which monotonicity of the life cycle is stated.
\<close>

instantiation sig_state :: order
begin

definition less_eq_sig_state :: "sig_state \<Rightarrow> sig_state \<Rightarrow> bool" where
  "less_eq_sig_state s t \<longleftrightarrow> s = t \<or> (s \<notin> TERMINAL \<and> t \<in> TERMINAL)"

definition less_sig_state :: "sig_state \<Rightarrow> sig_state \<Rightarrow> bool" where
  "less_sig_state s t \<longleftrightarrow> s \<noteq> t \<and> s \<notin> TERMINAL \<and> t \<in> TERMINAL"

instance
  by standard (auto simp: less_eq_sig_state_def less_sig_state_def)

end

lemma state_le_iff: "(s :: sig_state) \<le> t \<longleftrightarrow> s = t \<or> (s \<notin> TERMINAL \<and> t \<in> TERMINAL)"
  by (simp add: less_eq_sig_state_def)

lemma state_le_terminal: "(s :: sig_state) \<le> t \<Longrightarrow> s \<in> TERMINAL \<Longrightarrow> t = s"
  by (auto simp: state_le_iff)

text \<open>\<^verbatim>\<open>1 if signal.direction == "LONG" else -1\<close>\<close>

definition sign_of :: "direction \<Rightarrow> dec" where
  "sign_of d = (if d = LONG then 1 else -1)"

lemma sign_of_simps [simp]: "sign_of LONG = 1" "sign_of SHORT = -1"
  by (simp_all add: sign_of_def)

lemma sign_of_sq [simp]: "sign_of d * (sign_of d * x) = x"
  by (cases d) simp_all

subsection \<open>Trades and candles\<close>

record trade =
  tr_symbol :: string
  tr_event_ms :: ms
  tr_receipt_ms :: ms
  tr_trade_id :: string
  tr_side :: side
  tr_price :: dec
  tr_size :: dec
  tr_exchange :: source

text \<open>\<^verbatim>\<open>Trade.__post_init__\<close>: the side is one of the two enumerated values by typing.\<close>

definition trade_post_init :: "trade \<Rightarrow> py_error + trade" where
  "trade_post_init t =
     (if tr_price t \<le> 0 \<or> tr_size t \<le> 0 then Inl (ValueError ''Invalid executed trade'')
      else Inr t)"

record candle =
  cd_start :: ms
  cd_interval :: ms
  cd_open :: dec
  cd_high :: dec
  cd_low :: dec
  cd_close :: dec

definition cd_end :: "candle \<Rightarrow> ms" where
  "cd_end c = cd_start c + cd_interval c"

subsection \<open>Signals\<close>

record terminal_event =
  te_effective_ms :: "ms option"
  te_detected_ms :: ms
  te_event_price :: "dec option"
  te_reference_price :: "dec option"
  te_stop_price :: "dec option"
  te_source :: source
  te_method :: string
  te_trigger_basis :: "string option"
  te_ambiguous :: "bool option"

record mark =
  mk_method :: string
  mk_mark_price :: dec
  mk_mark_ms :: ms
  mk_deadline_ms :: ms
  mk_observed_entry_ms :: ms
  mk_gross_pct :: dec
  mk_gross_r :: dec
  mk_estimated_net_r :: "dec option"
  mk_estimated_net_pct :: "dec option"
  mk_classification :: string

record evidence =
  ev_observed_entry_ms :: "ms option"
  ev_observed_entry_price :: "dec option"
  ev_observed_entry_method :: "string option"
  ev_observed_entry_source :: "source option"
  ev_observed_entry_trade_id :: "string option"
  ev_latest_observed_price :: "dec option"
  ev_tp1_touch_ms :: "ms option"
  ev_tp2_touch_ms :: "ms option"
  ev_primary_outcome :: "string option"
  ev_terminal_event :: "terminal_event option"
  ev_expiry_mark :: "mark option"
  ev_trigger_bar_end :: "ms option"
  ev_trade_quality :: "string option"
  ev_score_profile :: "string option"
  ev_price_tick :: "dec option"
  ev_frozen_structure :: json
  ev_delivery_confirmation :: json
  ev_flow_quality :: json
  ev_impact_efficiency :: json
  ev_entry_quality :: json
  ev_delivery_policy :: "string option"
  ev_tp2_method :: "string option"

record coverage =
  cv_monitor_cursor_event_ms :: "ms option"
  cv_monitor_cursor_receipt_ms :: "ms option"
  cv_last_checked_trade_id :: "string option"
  cv_last_monitor_ms :: "ms option"
  cv_last_trustworthy_ms :: "ms option"
  cv_pause_since_ms :: "ms option"
  cv_checked_ms :: "ms option"
  cv_monitoring :: "string option"
  cv_monitor_status :: "string option"
  cv_monitoring_event :: "string option"
  cv_reason_codes :: "string list"
  cv_terminal_reason :: "string option"
  cv_tracking_end :: "bool option"
  cv_v22_current :: json

record signal =
  sg_id :: string
  sg_symbol :: string
  sg_direction :: direction
  sg_family :: string
  sg_version :: string
  sg_created_ms :: ms
  sg_expires_ms :: ms
  sg_source :: source
  sg_horizon_profile :: profile
  sg_context_timeframe :: string
  sg_setup_timeframe :: string
  sg_execution_timeframe :: string
  sg_expected_hold_min :: int
  sg_expected_hold_max :: int
  sg_primary_tracking_deadline :: "ms option"
  sg_lifecycle_version :: string
  sg_setup_thesis_id :: "string option"
  sg_synthetic :: bool
  sg_trigger_expires_ms :: "ms option"
  sg_holding_deadline_ms :: "ms option"
  sg_state :: sig_state
  sg_entry :: dec
  sg_zone :: "dec \<times> dec"
  sg_stop :: dec
  sg_tp1 :: dec
  sg_tp2 :: dec
  sg_invalidation :: string
  sg_quality :: dec
  sg_final_tier :: string
  sg_validation_status :: string
  sg_gates :: "string list"
  sg_cost_per_base :: "pyfloat option"
  sg_evidence :: evidence
  sg_coverage :: coverage

abbreviation set_evidence :: "(evidence \<Rightarrow> evidence) \<Rightarrow> signal \<Rightarrow> signal" where
  "set_evidence f s \<equiv> s\<lparr>sg_evidence := f (sg_evidence s)\<rparr>"

abbreviation set_coverage :: "(coverage \<Rightarrow> coverage) \<Rightarrow> signal \<Rightarrow> signal" where
  "set_coverage f s \<equiv> s\<lparr>sg_coverage := f (sg_coverage s)\<rparr>"

text \<open>The deadlines the code derives from a plan's optional timestamps.\<close>

definition holding_deadline :: "signal \<Rightarrow> ms" where
  "holding_deadline s = or_ms (sg_holding_deadline_ms s) (sg_expires_ms s)"

definition trigger_deadline :: "signal \<Rightarrow> ms" where
  "trigger_deadline s = or_ms (sg_trigger_expires_ms s) (sg_expires_ms s)"

definition monitor_deadline :: "signal \<Rightarrow> ms" where
  "monitor_deadline s = (if sg_state s = ALERTED then holding_deadline s else trigger_deadline s)"

text \<open>The frozen plan: what no monitoring step may change.\<close>

definition plan_of :: "signal \<Rightarrow> string \<times> string \<times> direction \<times> (dec \<times> dec) \<times> dec list \<times> profile \<times> ms \<times> ms option \<times> ms option" where
  "plan_of s =
     (sg_id s, sg_symbol s, sg_direction s, sg_zone s,
      [sg_entry s, sg_stop s, sg_tp1 s, sg_tp2 s], sg_horizon_profile s,
      sg_expires_ms s, sg_trigger_expires_ms s, sg_holding_deadline_ms s)"

subsection \<open>Initial values of the dictionaries\<close>

definition empty_evidence :: evidence where
  "empty_evidence =
     \<lparr>ev_observed_entry_ms = None, ev_observed_entry_price = None,
      ev_observed_entry_method = None, ev_observed_entry_source = None,
      ev_observed_entry_trade_id = None, ev_latest_observed_price = None,
      ev_tp1_touch_ms = None, ev_tp2_touch_ms = None, ev_primary_outcome = None,
      ev_terminal_event = None, ev_expiry_mark = None, ev_trigger_bar_end = None,
      ev_trade_quality = None, ev_score_profile = None, ev_price_tick = None,
      ev_frozen_structure = JNull, ev_delivery_confirmation = JNull, ev_flow_quality = JNull,
      ev_impact_efficiency = JNull, ev_entry_quality = JNull, ev_delivery_policy = None,
      ev_tp2_method = None\<rparr>"

definition empty_coverage :: coverage where
  "empty_coverage =
     \<lparr>cv_monitor_cursor_event_ms = None, cv_monitor_cursor_receipt_ms = None,
      cv_last_checked_trade_id = None, cv_last_monitor_ms = None,
      cv_last_trustworthy_ms = None, cv_pause_since_ms = None, cv_checked_ms = None,
      cv_monitoring = None, cv_monitor_status = None, cv_monitoring_event = None,
      cv_reason_codes = [], cv_terminal_reason = None, cv_tracking_end = None,
      cv_v22_current = JNull\<rparr>"

text \<open>A small confirmed long plan, used by the concrete evaluations of the development.\<close>

definition sample_signal :: signal where
  "sample_signal =
     \<lparr>sg_id = ''s1'', sg_symbol = ''BTCUSDT'', sg_direction = LONG, sg_family = ''sweep'',
      sg_version = ''rules'', sg_created_ms = 60000, sg_expires_ms = 600000,
      sg_source = Bybit, sg_horizon_profile = CORE_INTRADAY, sg_context_timeframe = ''240'',
      sg_setup_timeframe = ''60'', sg_execution_timeframe = ''15'', sg_expected_hold_min = 60,
      sg_expected_hold_max = 240, sg_primary_tracking_deadline = None,
      sg_lifecycle_version = ''horizon-v1'', sg_setup_thesis_id = None, sg_synthetic = False,
      sg_trigger_expires_ms = Some 300000, sg_holding_deadline_ms = Some 900000,
      sg_state = ALERTED, sg_entry = 100, sg_zone = (99, 101), sg_stop = 95, sg_tp1 = 110,
      sg_tp2 = 120, sg_invalidation = [], sg_quality = 70, sg_final_tier = ''RESEARCH'',
      sg_validation_status = ''unvalidated'', sg_gates = [], sg_cost_per_base = Some (Fin 1),
      sg_evidence = empty_evidence, sg_coverage = empty_coverage\<rparr>"

definition sample_trade :: "string \<Rightarrow> ms \<Rightarrow> dec \<Rightarrow> trade" where
  "sample_trade i at_ms price =
     \<lparr>tr_symbol = ''BTCUSDT'', tr_event_ms = at_ms, tr_receipt_ms = at_ms, tr_trade_id = i,
      tr_side = Buy, tr_price = price, tr_size = 1000, tr_exchange = Bybit\<rparr>"

end
