(* ===== verification/Ofi.thy ===== *)
theory Ofi imports Model begin

text \<open>
  The state of an order book and its second-bucket order-flow-imbalance aggregates:
  \<^verbatim>\<open>Book.__init__\<close> and \<^verbatim>\<open>Book.reset\<close> of
  \<^verbatim>\<open>src/bybit_flow/orderflow.py\<close>, and \<^verbatim>\<open>l1_event\<close>,
  \<^verbatim>\<open>update_bucket\<close> and \<^verbatim>\<open>event_assess\<close> of
  \<^verbatim>\<open>src/bybit_flow/ofi.py\<close>. The price levels of a side are an ordered
  dictionary, an association list with distinct keys.
\<close>

datatype bside = Bid | Ask

type_synonym levels = "(dec \<times> dec) list"
type_synonym change = "bside \<times> dec \<times> dec"

record ofi_bucket =
  ob_second_ms :: ms
  ob_source_ms :: ms
  ob_epoch :: int
  ob_l1_sum :: dec
  ob_5bps_sum :: dec
  ob_10bps_sum :: dec
  ob_25bps_sum :: dec
  ob_event_count :: int
  ob_mid_open :: dec
  ob_mid_close :: dec
  ob_microprice_open :: dec
  ob_microprice_close :: dec
  ob_touch_depth :: dec
  ob_5bps_depth :: dec
  ob_10bps_depth :: dec
  ob_25bps_depth :: dec
  ob_event_epoch :: "int option"
  ob_continuity_start_ms :: ms
  ob_last_receipt_ms :: ms

record book =
  bk_bids :: levels
  bk_asks :: levels
  bk_valid :: bool
  bk_update :: int
  bk_seq :: int
  bk_event_ms :: ms
  bk_receipt_ms :: ms
  bk_changes :: "(ms \<times> change) list"
  bk_pressure :: "(ms \<times> dec) list"
  bk_ofi_epoch :: int
  bk_ofi_buckets :: "ofi_bucket list"
  bk_event_ofi_epoch :: int
  bk_event_ofi_start_ms :: ms
  bk_event_ofi_last_ms :: ms

text \<open>A reset forgets every level and opens new continuity epochs.\<close>

definition book_reset :: "book \<Rightarrow> book" where
  "book_reset bk =
     \<lparr>bk_bids = [], bk_asks = [], bk_valid = False, bk_update = 0, bk_seq = 0,
      bk_event_ms = 0, bk_receipt_ms = 0, bk_changes = [], bk_pressure = [],
      bk_ofi_epoch = bk_ofi_epoch bk + 1, bk_ofi_buckets = [],
      bk_event_ofi_epoch = bk_event_ofi_epoch bk + 1,
      bk_event_ofi_start_ms = 0, bk_event_ofi_last_ms = 0\<rparr>"

definition book_new :: book where
  "book_new =
     \<lparr>bk_bids = [], bk_asks = [], bk_valid = False, bk_update = 0, bk_seq = 0,
      bk_event_ms = 0, bk_receipt_ms = 0, bk_changes = [], bk_pressure = [],
      bk_ofi_epoch = 1, bk_ofi_buckets = [], bk_event_ofi_epoch = 1,
      bk_event_ofi_start_ms = 0, bk_event_ofi_last_ms = 0\<rparr>"

definition best_bid :: "book \<Rightarrow> dec" where
  "best_bid bk = Max (set (map fst (bk_bids bk)))"

definition best_ask :: "book \<Rightarrow> dec" where
  "best_ask bk = Min (set (map fst (bk_asks bk)))"

text \<open>\<^verbatim>\<open>self.bids[p]\<close> at a price that is a key.\<close>

definition level_qty :: "levels \<Rightarrow> dec \<Rightarrow> dec" where
  "level_qty ls p = (case map_of ls p of None \<Rightarrow> 0 | Some q \<Rightarrow> q)"

definition book_fresh :: "book \<Rightarrow> ms \<Rightarrow> ms \<Rightarrow> bool" where
  "book_fresh bk now max_age \<longleftrightarrow>
     bk_valid bk \<and> 0 \<le> now - bk_receipt_ms bk \<and> now - bk_receipt_ms bk \<le> max_age
     \<and> -2000 \<le> now - bk_event_ms bk \<and> now - bk_event_ms bk \<le> max_age"

subsection \<open>Queue events at the touch\<close>

text \<open>
  \<^verbatim>\<open>l1_event\<close>: the signed change of the best queues. None stands for a missing or
  falsy touch.
\<close>

definition l1_event ::
    "(dec \<times> dec) option \<Rightarrow> (dec \<times> dec) option \<Rightarrow> (dec \<times> dec) option \<Rightarrow> (dec \<times> dec) option \<Rightarrow> dec" where
  "l1_event before_bid before_ask after_bid after_ask =
     (case (before_bid, before_ask, after_bid, after_ask) of
        (Some (bp, bq), Some (ap, aq), Some (nbp, nbq), Some (nap, naq)) \<Rightarrow>
          (if nbp > bp then nbq else if nbp = bp then nbq - bq else - bq)
          + (if nap < ap then - naq else if nap = ap then aq - naq else aq)
      | _ \<Rightarrow> 0)"

definition within_band :: "dec \<Rightarrow> dec \<Rightarrow> dec \<Rightarrow> bool" where
  "within_band mid bps p \<longleftrightarrow> \<bar>p / mid - 1\<bar> \<le> bps / 10000"

definition band_depth :: "book \<Rightarrow> dec \<Rightarrow> dec \<Rightarrow> dec" where
  "band_depth bk mid bps =
     sum_list (map (\<lambda>(p, q). p * q) (filter (\<lambda>(p, q). within_band mid bps p) (bk_bids bk)))
     + sum_list (map (\<lambda>(p, q). p * q) (filter (\<lambda>(p, q). within_band mid bps p) (bk_asks bk)))"

definition band_flow :: "change list \<Rightarrow> dec \<Rightarrow> dec \<Rightarrow> dec" where
  "band_flow changes mid bps =
     sum_list (map (\<lambda>(sd, p, q). p * q * (if sd = Bid then 1 else -1))
       (filter (\<lambda>(sd, p, q). within_band mid bps p) changes))"

text \<open>The continuity bookkeeping at the head of \<^verbatim>\<open>update_bucket\<close>.\<close>

definition ofi_continuity :: "ms \<Rightarrow> book \<Rightarrow> book" where
  "ofi_continuity receipt bk =
     (let bk1 = (if bk_event_ofi_start_ms bk = 0
                    \<or> \<not> (0 \<le> receipt - bk_event_ofi_last_ms bk
                          \<and> receipt - bk_event_ofi_last_ms bk \<le> 5000)
                 then bk\<lparr>bk_event_ofi_epoch := bk_event_ofi_epoch bk + 1,
                         bk_event_ofi_start_ms := receipt\<rparr>
                 else bk);
          bk2 = bk1\<lparr>bk_event_ofi_last_ms := receipt\<rparr>
      in if bk_ofi_buckets bk2 \<noteq> []
            \<and> bucket_start 1000 receipt < ob_second_ms (last (bk_ofi_buckets bk2))
         then bk2\<lparr>bk_ofi_buckets := [], bk_ofi_epoch := bk_ofi_epoch bk2 + 1\<rparr>
         else bk2)"

definition ofi_open_bucket :: "ms \<Rightarrow> dec \<Rightarrow> dec \<Rightarrow> dec \<Rightarrow> dec \<Rightarrow> book \<Rightarrow> book" where
  "ofi_open_bucket receipt old_mid mid old_micro micro bk =
     (let second = bucket_start 1000 receipt in
      if bk_ofi_buckets bk = [] \<or> second \<noteq> ob_second_ms (last (bk_ofi_buckets bk))
      then bk\<lparr>bk_ofi_buckets := deque_append 120
             \<lparr>ob_second_ms = second, ob_source_ms = bk_event_ms bk, ob_epoch = bk_ofi_epoch bk,
              ob_l1_sum = 0, ob_5bps_sum = 0, ob_10bps_sum = 0, ob_25bps_sum = 0,
              ob_event_count = 0, ob_mid_open = old_mid, ob_mid_close = mid,
              ob_microprice_open = old_micro, ob_microprice_close = micro,
              ob_touch_depth = level_qty (bk_bids bk) (best_bid bk)
                               + level_qty (bk_asks bk) (best_ask bk),
              ob_5bps_depth = band_depth bk mid 5, ob_10bps_depth = band_depth bk mid 10,
              ob_25bps_depth = band_depth bk mid 25,
              ob_event_epoch = Some (bk_event_ofi_epoch bk),
              ob_continuity_start_ms = bk_event_ofi_start_ms bk,
              ob_last_receipt_ms = receipt\<rparr> (bk_ofi_buckets bk)\<rparr>
      else bk)"

definition ofi_fold_event ::
    "ms \<Rightarrow> dec \<Rightarrow> dec \<Rightarrow> dec \<Rightarrow> change list \<Rightarrow> book \<Rightarrow> ofi_bucket \<Rightarrow> ofi_bucket" where
  "ofi_fold_event receipt l1 mid micro changes bk row =
     row\<lparr>ob_event_epoch := (if ob_event_epoch row \<noteq> Some (bk_event_ofi_epoch bk) then None
                            else ob_event_epoch row),
         ob_last_receipt_ms := receipt,
         ob_source_ms := max (ob_source_ms row) (bk_event_ms bk),
         ob_l1_sum := ob_l1_sum row + l1,
         ob_event_count := ob_event_count row + 1,
         ob_mid_close := mid,
         ob_microprice_close := micro,
         ob_5bps_sum := ob_5bps_sum row + band_flow changes mid 5,
         ob_10bps_sum := ob_10bps_sum row + band_flow changes mid 10,
         ob_25bps_sum := ob_25bps_sum row + band_flow changes mid 25\<rparr>"

definition update_bucket ::
    "book \<Rightarrow> ms \<Rightarrow> dec \<Rightarrow> dec \<Rightarrow> dec \<Rightarrow> dec \<Rightarrow> dec \<Rightarrow> change list \<Rightarrow> book" where
  "update_bucket bk receipt l1 old_mid mid old_micro micro changes =
     (let bk1 = ofi_open_bucket receipt old_mid mid old_micro micro (ofi_continuity receipt bk)
      in bk1\<lparr>bk_ofi_buckets := butlast (bk_ofi_buckets bk1)
               @ [ofi_fold_event receipt l1 mid micro changes bk1 (last (bk_ofi_buckets bk1))]\<rparr>)"

subsection \<open>Invariant of the aggregates\<close>

text \<open>
  Buckets are second-aligned and strictly increasing, at most 120 of them, and every one
  carries the current \<^verbatim>\<open>ofi-v3\<close> epoch.
\<close>

definition ofi_inv :: "book \<Rightarrow> bool" where
  "ofi_inv bk \<longleftrightarrow>
     length (bk_ofi_buckets bk) \<le> 120
     \<and> sorted_wrt (<) (map ob_second_ms (bk_ofi_buckets bk))
     \<and> (\<forall>b \<in> set (bk_ofi_buckets bk). ob_epoch b = bk_ofi_epoch bk
           \<and> ob_second_ms b = bucket_start 1000 (ob_second_ms b)
           \<and> 0 \<le> ob_event_count b)"

lemma ofi_inv_reset [simp]: "ofi_inv (book_reset bk)" "ofi_inv book_new"
  by (simp_all add: ofi_inv_def book_reset_def book_new_def)

lemma bucket_start_idem [simp]: "bucket_start 1000 (bucket_start 1000 x) = bucket_start 1000 x"
  by (simp add: bucket_start_def)

lemma ofi_continuity_inv: "ofi_inv bk \<Longrightarrow> ofi_inv (ofi_continuity receipt bk)"
  by (auto simp: ofi_inv_def ofi_continuity_def Let_def)

lemma ofi_continuity_last:
  "bk_ofi_buckets (ofi_continuity receipt bk) \<noteq> [] \<Longrightarrow>
   ob_second_ms (last (bk_ofi_buckets (ofi_continuity receipt bk))) \<le> bucket_start 1000 receipt"
  by (auto simp: ofi_continuity_def Let_def split: if_splits)

lemma sorted_wrt_last: "sorted_wrt (<) (xs :: int list) \<Longrightarrow> x \<in> set xs \<Longrightarrow> x \<le> last xs"
  by (induction xs) (auto simp: less_imp_le)

lemma sorted_wrt_deque:
  assumes "sorted_wrt (<) (map f xs)" and "xs \<noteq> [] \<Longrightarrow> f (last xs) < (f x :: int)"
  shows "sorted_wrt (<) (map f (deque_append n x xs))"
proof -
  have "\<And>y. y \<in> set xs \<Longrightarrow> f y < f x"
    using assms sorted_wrt_last [OF assms(1)] by (cases "xs = []") (force simp: last_map)+
  then have "sorted_wrt (<) (map f (xs @ [x]))" using assms(1) by (simp add: sorted_wrt_append)
  then show ?thesis
    by (simp only: deque_append_def Let_def drop_map [symmetric] sorted_wrt_drop)
qed

lemma ofi_open_bucket_inv:
  assumes inv: "ofi_inv bk"
    and ord: "bk_ofi_buckets bk \<noteq> [] \<Longrightarrow>
      ob_second_ms (last (bk_ofi_buckets bk)) \<le> bucket_start 1000 receipt"
  shows "ofi_inv (ofi_open_bucket receipt old_mid mid old_micro micro bk)"
proof (cases "bk_ofi_buckets bk = [] \<or> bucket_start 1000 receipt \<noteq> ob_second_ms (last (bk_ofi_buckets bk))")
  case False
  then show ?thesis using inv by (auto simp: ofi_open_bucket_def Let_def)
next
  case True
  then show ?thesis
    using inv ord length_deque_append set_deque_append
    by (auto simp: ofi_inv_def ofi_open_bucket_def Let_def subset_eq intro!: sorted_wrt_deque)
      fastforce+
qed

lemma ofi_open_bucket_nonempty:
  "bk_ofi_buckets (ofi_open_bucket receipt old_mid mid old_micro micro bk) \<noteq> []"
  by (auto simp: ofi_open_bucket_def Let_def deque_append_def)

lemma map_butlast_last:
  "xs \<noteq> [] \<Longrightarrow> f y = f (last xs) \<Longrightarrow> map f (butlast xs @ [y]) = map f xs"
  by (metis append_butlast_last_id list.simps(8,9) map_append)

lemma update_bucket_inv:
  assumes "ofi_inv bk"
  shows "ofi_inv (update_bucket bk receipt l1 old_mid mid old_micro micro changes)"
proof -
  define b1 where "b1 = ofi_open_bucket receipt old_mid mid old_micro micro (ofi_continuity receipt bk)"
  define row where "row = ofi_fold_event receipt l1 mid micro changes b1 (last (bk_ofi_buckets b1))"
  have inv: "ofi_inv b1" unfolding b1_def
    using assms by (intro ofi_open_bucket_inv ofi_continuity_inv ofi_continuity_last)
  have ne: "bk_ofi_buckets b1 \<noteq> []" unfolding b1_def by (rule ofi_open_bucket_nonempty)
  have same: "map ob_second_ms (butlast (bk_ofi_buckets b1) @ [row]) = map ob_second_ms (bk_ofi_buckets b1)"
    by (rule map_butlast_last [OF ne]) (simp add: row_def ofi_fold_event_def)
  have "last (bk_ofi_buckets b1) \<in> set (bk_ofi_buckets b1)" using ne by simp
  then show ?thesis
    using inv ne same
    by (auto simp: update_bucket_def Let_def b1_def [symmetric] row_def [symmetric] ofi_inv_def
        dest: in_set_butlastD) (auto simp: row_def ofi_fold_event_def)
qed

lemma update_bucket_frame [simp]:
  "bk_bids (update_bucket bk r l1 om m omi mi ch) = bk_bids bk"
  "bk_asks (update_bucket bk r l1 om m omi mi ch) = bk_asks bk"
  "bk_valid (update_bucket bk r l1 om m omi mi ch) = bk_valid bk"
  "bk_update (update_bucket bk r l1 om m omi mi ch) = bk_update bk"
  "bk_seq (update_bucket bk r l1 om m omi mi ch) = bk_seq bk"
  "bk_event_ms (update_bucket bk r l1 om m omi mi ch) = bk_event_ms bk"
  "bk_receipt_ms (update_bucket bk r l1 om m omi mi ch) = bk_receipt_ms bk"
  "bk_changes (update_bucket bk r l1 om m omi mi ch) = bk_changes bk"
  "bk_pressure (update_bucket bk r l1 om m omi mi ch) = bk_pressure bk"
  by (simp_all add: update_bucket_def ofi_open_bucket_def ofi_continuity_def Let_def)

end
