(* ===== verification/OrderBook.thy ===== *)
theory OrderBook imports Ofi begin

text \<open>
  The order book: \<^verbatim>\<open>Book.apply\<close> and \<^verbatim>\<open>Book.impact\<close> of
  \<^verbatim>\<open>src/bybit_flow/orderflow.py\<close>, and the sequence adapter
  \<^verbatim>\<open>SequencedBook\<close> of \<^verbatim>\<open>src/bybit_flow/native_streams.py\<close>. An
  exception leaves its mutations behind, so every operation returns the book it left next to
  its value or error.
\<close>

subsection \<open>Price levels: the interface a book side offers\<close>

text \<open>
  What the book relies on in the dictionary of a side. The client lemma says that a batch of
  level messages is the corresponding batch of map updates, in order.
\<close>

locale level_map =
  fixes set_lv :: "'k \<Rightarrow> 'v \<Rightarrow> 'm \<Rightarrow> 'm"
    and del_lv :: "'k \<Rightarrow> 'm \<Rightarrow> 'm"
    and view :: "'m \<Rightarrow> 'k \<Rightarrow> 'v option"
    and wf_lv :: "'m \<Rightarrow> bool"
  assumes view_set: "view (set_lv k v m) = (view m)(k \<mapsto> v)"
    and view_del: "wf_lv m \<Longrightarrow> view (del_lv k m) = (view m)(k := None)"
    and wf_set: "wf_lv m \<Longrightarrow> wf_lv (set_lv k v m)"
    and wf_del: "wf_lv m \<Longrightarrow> wf_lv (del_lv k m)"
begin

lemma wf_batch:
  "wf_lv m \<Longrightarrow> wf_lv (fold (\<lambda>(k, v). if is_gone v then del_lv k else set_lv k v) ls m)"
  by (induction ls arbitrary: m) (auto simp: wf_set wf_del)

lemma view_batch:
  "wf_lv m \<Longrightarrow>
   view (fold (\<lambda>(k, v). if is_gone v then del_lv k else set_lv k v) ls m)
   = fold (\<lambda>(k, v) f. f(k := if is_gone v then None else Some v)) ls (view m)"
  by (induction ls arbitrary: m) (auto simp: view_set view_del wf_set wf_del)

end

definition levels_ok :: "levels \<Rightarrow> bool" where
  "levels_ok ls \<longleftrightarrow> distinct (map fst ls) \<and> (\<forall>(p, q) \<in> set ls. 0 < p \<and> 0 < q)"

interpretation side: level_map AList.update AList.delete map_of
    "\<lambda>ls :: levels. distinct (map fst ls)"
  by unfold_locales
    (auto simp: update_conv delete_conv distinct_update distinct_delete fun_eq_iff)

definition put_level :: "dec \<Rightarrow> dec \<Rightarrow> levels \<Rightarrow> levels" where
  "put_level p q ls = (if q = 0 then AList.delete p ls else AList.update p q ls)"

lemma set_update_subset: "set (AList.update k v ls) \<subseteq> insert (k, v) (set ls)"
  by (induction ls) auto

lemma put_level_ok: "levels_ok ls \<Longrightarrow> 0 < p \<Longrightarrow> 0 \<le> q \<Longrightarrow> levels_ok (put_level p q ls)"
  using set_update_subset [of p q ls]
  by (auto simp: levels_ok_def put_level_def side.wf_set side.wf_del)
    (auto simp: AList.delete_eq)

subsection \<open>Applying a message\<close>

record book_msg =
  bm_snapshot :: bool
  bm_u :: int
  bm_seq :: int
  bm_bids :: levels
  bm_asks :: levels
  bm_ts :: ms
  bm_cts :: "ms option"

text \<open>
  The loop over one side's levels. It stops at the first invalid level, which resets the
  book and raises. \<^verbatim>\<open>changed\<close> collects the deltas for the imbalance aggregates.
\<close>

definition side_levels :: "bside \<Rightarrow> book \<Rightarrow> levels" where
  "side_levels sd bk = (if sd = Bid then bk_bids bk else bk_asks bk)"

definition set_side :: "bside \<Rightarrow> levels \<Rightarrow> book \<Rightarrow> book" where
  "set_side sd ls bk = (if sd = Bid then bk\<lparr>bk_bids := ls\<rparr> else bk\<lparr>bk_asks := ls\<rparr>)"

fun level_loop ::
    "bool \<Rightarrow> ms \<Rightarrow> bside \<Rightarrow> levels \<Rightarrow> book \<times> change list \<Rightarrow> (book + book \<times> change list)" where
  "level_loop snapshot receipt sd [] (bk, changed) = Inr (bk, changed)"
| "level_loop snapshot receipt sd ((p, q) # ls) (bk, changed) =
     (if p \<le> 0 \<or> q < 0 then Inl (book_reset bk)
      else
        let old = level_qty (side_levels sd bk) p;
            bk1 = set_side sd (put_level p q (side_levels sd bk)) bk
        in if snapshot then level_loop snapshot receipt sd ls (bk1, changed)
           else level_loop snapshot receipt sd ls
                  (bk1\<lparr>bk_changes := deque_append 5000 (receipt, sd, p, q - old) (bk_changes bk1)\<rparr>,
                   changed @ [(sd, p, q - old)]))"

definition both_sides ::
    "bool \<Rightarrow> ms \<Rightarrow> levels \<Rightarrow> levels \<Rightarrow> book \<Rightarrow> (book + book \<times> change list)" where
  "both_sides snapshot receipt b a bk =
     (case level_loop snapshot receipt Bid b (bk, []) of
        Inl bk' \<Rightarrow> Inl bk'
      | Inr s \<Rightarrow> level_loop snapshot receipt Ask a s)"

definition micro_price :: "dec \<Rightarrow> dec \<Rightarrow> dec \<Rightarrow> dec \<Rightarrow> dec" where
  "micro_price bid bq ask aq = (ask * bq + bid * aq) / (bq + aq)"

definition touch :: "book \<Rightarrow> (dec \<times> dec) option \<times> (dec \<times> dec) option" where
  "touch bk =
     (if bk_valid bk
      then (Some (best_bid bk, level_qty (bk_bids bk) (best_bid bk)),
            Some (best_ask bk, level_qty (bk_asks bk) (best_ask bk)))
      else (None, None))"

definition record_ofi ::
    "ms \<Rightarrow> (dec \<times> dec) option \<times> (dec \<times> dec) option \<Rightarrow> change list \<Rightarrow> book \<Rightarrow> book" where
  "record_ofi receipt before changed bk =
     (case before of
        (Some (bp, bq), Some (ap, aq)) \<Rightarrow>
          (let bid = best_bid bk; ask = best_ask bk;
               nbq = level_qty (bk_bids bk) bid; naq = level_qty (bk_asks bk) ask
           in update_bucket bk receipt
                (l1_event (Some (bp, bq)) (Some (ap, aq)) (Some (bid, nbq)) (Some (ask, naq)))
                ((bp + ap) / 2) ((bid + ask) / 2)
                (micro_price bp bq ap aq) (micro_price bid nbq ask naq) changed)
      | _ \<Rightarrow> bk)"

definition sample_pressure :: "ms \<Rightarrow> book \<Rightarrow> book" where
  "sample_pressure receipt bk =
     (if bk_pressure bk = [] \<or> 1000 \<le> receipt - fst (last (bk_pressure bk))
      then let bq = level_qty (bk_bids bk) (best_bid bk); aq = level_qty (bk_asks bk) (best_ask bk)
           in bk\<lparr>bk_pressure := deque_append 120 (receipt, (bq - aq) / (bq + aq)) (bk_pressure bk)\<rparr>
      else bk)"

definition crossed_or_empty :: "book \<Rightarrow> bool" where
  "crossed_or_empty bk \<longleftrightarrow> bk_bids bk = [] \<or> bk_asks bk = [] \<or> best_ask bk \<le> best_bid bk"

definition is_snapshot :: "book_msg \<Rightarrow> bool" where
  "is_snapshot m \<longleftrightarrow> bm_snapshot m \<or> bm_u m = 1"

definition stamp_msg :: "book_msg \<Rightarrow> ms \<Rightarrow> book \<Rightarrow> book" where
  "stamp_msg m receipt bk =
     bk\<lparr>bk_update := bm_u m, bk_seq := bm_seq m,
        bk_event_ms := (case bm_cts m of None \<Rightarrow> bm_ts m | Some c \<Rightarrow> c),
        bk_receipt_ms := receipt, bk_valid := \<not> crossed_or_empty bk\<rparr>"

text \<open>The continuity guard at the head of \<^verbatim>\<open>apply\<close>.\<close>

definition apply_guard :: "book_msg \<Rightarrow> book \<Rightarrow> book \<times> py_error option" where
  "apply_guard m bk =
     (if is_snapshot m then (book_reset bk, None)
      else if \<not> bk_valid bk then (bk, Some (BookGap ''Delta before snapshot''))
      else if bm_u m \<le> bk_update bk \<or> bm_seq m < bk_seq bk
      then (book_reset bk, Some (BookGap ''Non-monotonic book update; resubscribe''))
      else (bk, None))"

definition book_apply :: "book_msg \<Rightarrow> ms \<Rightarrow> book \<Rightarrow> book \<times> (py_error + unit)" where
  "book_apply m receipt bk =
     (case apply_guard m bk of
        (bk0, Some e) \<Rightarrow> (bk0, Inl e)
      | (bk0, None) \<Rightarrow>
          (let before = touch bk0 in
           case both_sides (is_snapshot m) receipt (bm_bids m) (bm_asks m) bk0 of
             Inl bk1 \<Rightarrow> (bk1, Inl (BookGap ''Invalid book price/quantity''))
           | Inr (bk1, changed) \<Rightarrow>
               (let bk2 = stamp_msg m receipt bk1
                in if \<not> bk_valid bk2
                   then (book_reset bk2, Inl (BookGap ''Empty or crossed book''))
                   else
                     let bk3 = (if is_snapshot m then bk2 else record_ofi receipt before changed bk2)
                     in (sample_pressure receipt bk3, Inr ()))))"

definition book_step :: "book_msg \<times> ms \<Rightarrow> book \<Rightarrow> book" where
  "book_step e bk = fst (book_apply (fst e) (snd e) bk)"

subsection \<open>Invariant\<close>

text \<open>
  In every state the levels are positive and keyed once. While the book is valid both sides
  are quoted and the best bid is below the best ask.
\<close>

definition book_inv :: "book \<Rightarrow> bool" where
  "book_inv bk \<longleftrightarrow>
     levels_ok (bk_bids bk) \<and> levels_ok (bk_asks bk)
     \<and> length (bk_changes bk) \<le> 5000 \<and> length (bk_pressure bk) \<le> 120
     \<and> ofi_inv bk
     \<and> (bk_valid bk \<longrightarrow> \<not> crossed_or_empty bk)"

lemma book_inv_reset [simp]: "book_inv (book_reset bk)"
  by (simp add: book_inv_def levels_ok_def) (simp add: book_reset_def)

lemma book_inv_new: "book_inv book_new"
  by (simp add: book_inv_def levels_ok_def) (simp add: book_new_def)

definition loop_inv :: "book \<Rightarrow> bool" where
  "loop_inv bk \<longleftrightarrow>
     levels_ok (bk_bids bk) \<and> levels_ok (bk_asks bk)
     \<and> length (bk_changes bk) \<le> 5000 \<and> length (bk_pressure bk) \<le> 120 \<and> ofi_inv bk"

lemma book_loop_inv: "book_inv bk \<Longrightarrow> loop_inv bk"
  by (simp add: book_inv_def loop_inv_def)

lemma set_side_fields [simp]:
  "bk_changes (set_side sd ls bk) = bk_changes bk" "bk_pressure (set_side sd ls bk) = bk_pressure bk"
  "bk_ofi_buckets (set_side sd ls bk) = bk_ofi_buckets bk" "bk_ofi_epoch (set_side sd ls bk) = bk_ofi_epoch bk"
  "side_levels sd (set_side sd ls bk) = ls"
  by (simp_all add: set_side_def side_levels_def)

lemma loop_inv_level:
  assumes "loop_inv bk" "0 < p" "0 \<le> q"
  shows "loop_inv (set_side sd (put_level p q (side_levels sd bk)) bk)"
  using assms put_level_ok
  by (cases sd) (auto simp: loop_inv_def set_side_def side_levels_def ofi_inv_def)

lemma loop_inv_changes:
  "loop_inv bk \<Longrightarrow> loop_inv (bk\<lparr>bk_changes := deque_append 5000 c (bk_changes bk)\<rparr>)"
  by (simp add: loop_inv_def ofi_inv_def length_deque_append)

lemma level_loop_inv:
  "loop_inv bk \<Longrightarrow> level_loop snapshot receipt sd ls (bk, ch) = Inr (bk', ch') \<Longrightarrow> loop_inv bk'"
proof (induction ls arbitrary: bk ch)
  case Nil
  then show ?case by simp
next
  case (Cons pq ls)
  obtain p q where pq: "pq = (p, q)" by (cases pq)
  with Cons.prems(2) have pos: "0 < p" "0 \<le> q" by (auto split: if_splits)
  note lv = loop_inv_level [OF Cons.prems(1) pos, of sd]
  show ?case
  proof (cases snapshot)
    case True
    then show ?thesis using Cons.prems(2) pos pq Cons.IH [OF lv] by (simp add: Let_def)
  next
    case False
    then show ?thesis
      using Cons.prems(2) pos pq Cons.IH [OF loop_inv_changes [OF lv]] by (simp add: Let_def)
  qed
qed

lemma level_loop_fail: "level_loop snapshot receipt sd ls s = Inl bk' \<Longrightarrow> \<exists>bk0. bk' = book_reset bk0"
  by (induction ls arbitrary: s) (auto simp: Let_def split: if_splits)

lemma both_sides_inv:
  "loop_inv bk \<Longrightarrow> both_sides snapshot receipt b a bk = Inr (bk', ch) \<Longrightarrow> loop_inv bk'"
  by (auto simp: both_sides_def split: sum.splits dest: level_loop_inv)

lemma both_sides_fail: "both_sides snapshot receipt b a bk = Inl bk' \<Longrightarrow> \<exists>bk0. bk' = book_reset bk0"
  by (auto simp: both_sides_def split: sum.splits dest: level_loop_fail)

lemma record_ofi_inv: "ofi_inv bk \<Longrightarrow> ofi_inv (record_ofi receipt before changed bk)"
  by (auto simp: record_ofi_def Let_def update_bucket_inv split: prod.splits option.splits)

lemma record_ofi_frame [simp]:
  "bk_bids (record_ofi r b c bk) = bk_bids bk" "bk_asks (record_ofi r b c bk) = bk_asks bk"
  "bk_valid (record_ofi r b c bk) = bk_valid bk" "bk_changes (record_ofi r b c bk) = bk_changes bk"
  "bk_pressure (record_ofi r b c bk) = bk_pressure bk"
  "bk_update (record_ofi r b c bk) = bk_update bk" "bk_seq (record_ofi r b c bk) = bk_seq bk"
  "bk_receipt_ms (record_ofi r b c bk) = bk_receipt_ms bk"
  by (auto simp: record_ofi_def Let_def split: prod.splits option.splits)

lemma sample_pressure_frame [simp]:
  "bk_bids (sample_pressure r bk) = bk_bids bk" "bk_asks (sample_pressure r bk) = bk_asks bk"
  "bk_valid (sample_pressure r bk) = bk_valid bk" "bk_changes (sample_pressure r bk) = bk_changes bk"
  "bk_ofi_buckets (sample_pressure r bk) = bk_ofi_buckets bk"
  "bk_ofi_epoch (sample_pressure r bk) = bk_ofi_epoch bk"
  "bk_update (sample_pressure r bk) = bk_update bk" "bk_seq (sample_pressure r bk) = bk_seq bk"
  "bk_receipt_ms (sample_pressure r bk) = bk_receipt_ms bk"
  by (simp_all add: sample_pressure_def Let_def)

lemma sample_pressure_length:
  "length (bk_pressure bk) \<le> 120 \<Longrightarrow> length (bk_pressure (sample_pressure r bk)) \<le> 120"
  by (simp add: sample_pressure_def Let_def length_deque_append)

lemma crossed_frame:
  "bk_bids bk = bk_bids bk' \<Longrightarrow> bk_asks bk = bk_asks bk' \<Longrightarrow> crossed_or_empty bk = crossed_or_empty bk'"
  by (simp add: crossed_or_empty_def best_bid_def best_ask_def)

lemma stamp_frame [simp]:
  "bk_bids (stamp_msg m r bk) = bk_bids bk" "bk_asks (stamp_msg m r bk) = bk_asks bk"
  "bk_valid (stamp_msg m r bk) = (\<not> crossed_or_empty bk)"
  "bk_update (stamp_msg m r bk) = bm_u m" "bk_seq (stamp_msg m r bk) = bm_seq m"
  "bk_receipt_ms (stamp_msg m r bk) = r"
  by (simp_all add: stamp_msg_def)

lemma loop_inv_stamp: "loop_inv bk \<Longrightarrow> loop_inv (stamp_msg m r bk)"
  by (simp add: loop_inv_def ofi_inv_def stamp_msg_def)

lemma loop_inv_record: "loop_inv bk \<Longrightarrow> loop_inv (record_ofi r b c bk)"
  by (simp add: loop_inv_def record_ofi_inv)

lemma loop_inv_sample: "loop_inv bk \<Longrightarrow> loop_inv (sample_pressure r bk)"
  by (simp add: loop_inv_def ofi_inv_def sample_pressure_length)

lemmas loop_inv_intros = loop_inv_stamp loop_inv_record loop_inv_sample

text \<open>A successful call, taken apart.\<close>

lemma book_apply_ok:
  assumes "book_apply m receipt bk = (bk', Inr ())"
  obtains bk0 bk1 changed where
    "apply_guard m bk = (bk0, None)"
    "both_sides (is_snapshot m) receipt (bm_bids m) (bm_asks m) bk0 = Inr (bk1, changed)"
    "\<not> crossed_or_empty bk1"
    "bk' = sample_pressure receipt (if is_snapshot m then stamp_msg m receipt bk1
             else record_ofi receipt (touch bk0) changed (stamp_msg m receipt bk1))"
  using assms
  by (auto simp: book_apply_def Let_def split: prod.splits option.splits sum.splits if_splits)

lemma book_apply_fail:
  assumes "book_apply m receipt bk = (bk', Inl e)"
  shows "bk' = bk \<and> \<not> bk_valid bk \<or> (\<exists>bk0. bk' = book_reset bk0)"
  using assms
  by (auto simp: book_apply_def apply_guard_def Let_def
      split: prod.splits option.splits sum.splits if_splits dest: both_sides_fail)

lemma guard_loop_inv: "book_inv bk \<Longrightarrow> apply_guard m bk = (bk0, None) \<Longrightarrow> loop_inv bk0"
  by (auto simp: apply_guard_def split: if_splits intro: book_loop_inv)

lemma book_apply_inv:
  assumes "book_inv bk"
  shows "book_inv (fst (book_apply m receipt bk))"
proof (cases "book_apply m receipt bk")
  case (Pair bk' res)
  show ?thesis
  proof (cases res)
    case (Inl e)
    then show ?thesis using book_apply_fail [of m receipt bk bk' e] Pair assms by auto
  next
    case (Inr u)
    with Pair have "book_apply m receipt bk = (bk', Inr ())" by simp
    then obtain bk0 bk1 ch where
      ok: "apply_guard m bk = (bk0, None)"
        "both_sides (is_snapshot m) receipt (bm_bids m) (bm_asks m) bk0 = Inr (bk1, ch)"
        "\<not> crossed_or_empty bk1"
      and bk': "bk' = sample_pressure receipt (if is_snapshot m then stamp_msg m receipt bk1
             else record_ofi receipt (touch bk0) ch (stamp_msg m receipt bk1))"
      by (rule book_apply_ok)
    have "loop_inv bk1" by (rule both_sides_inv [OF guard_loop_inv [OF assms ok(1)] ok(2)])
    then have "loop_inv bk'" unfolding bk' by (auto intro: loop_inv_intros)
    moreover have "bk_bids bk' = bk_bids bk1" "bk_asks bk' = bk_asks bk1" by (simp_all add: bk')
    ultimately show ?thesis
      using ok(3) Pair crossed_frame [of bk' bk1] by (simp add: book_inv_def loop_inv_def)
  qed
qed


interpretation book_machine: step_invariant book_step book_inv
  by unfold_locales (simp add: book_step_def book_apply_inv)

subsection \<open>Refinement of the two price maps\<close>

text \<open>The abstract effect of a batch of levels on a price map; quantity 0 removes the key.\<close>

definition apply_batch :: "levels \<Rightarrow> (dec \<Rightarrow> dec option) \<Rightarrow> (dec \<Rightarrow> dec option)" where
  "apply_batch ls f = fold (\<lambda>(p, q) f. f(p := if q = 0 then None else Some q)) ls f"

definition book_view :: "bside \<Rightarrow> book \<Rightarrow> dec \<Rightarrow> dec option" where
  "book_view sd bk = map_of (side_levels sd bk)"

lemma level_loop_sides:
  "level_loop snapshot receipt sd ls (bk, ch) = Inr (bk', ch') \<Longrightarrow>
   side_levels sd bk' = fold (\<lambda>(p, q). put_level p q) ls (side_levels sd bk)
   \<and> (sd' \<noteq> sd \<longrightarrow> side_levels sd' bk' = side_levels sd' bk)"
proof (induction ls arbitrary: bk ch)
  case Nil
  then show ?case by simp
next
  case (Cons pq ls)
  obtain p q where pq: "pq = (p, q)" by (cases pq)
  have [simp]: "\<And>bk f. side_levels sd (bk\<lparr>bk_changes := f\<rparr>) = side_levels sd bk"
    "\<And>bk f. side_levels sd' (bk\<lparr>bk_changes := f\<rparr>) = side_levels sd' bk"
    "sd' \<noteq> sd \<Longrightarrow> side_levels sd' (set_side sd l bk) = side_levels sd' bk" for l
    by (cases sd; cases sd'; simp add: side_levels_def set_side_def)+
  show ?case
    using Cons.prems Cons.IH pq by (cases snapshot) (fastforce simp: Let_def split: if_splits)+
qed

lemma both_sides_view:
  assumes "loop_inv bk" "both_sides snapshot receipt b a bk = Inr (bk', ch)"
  shows "book_view Bid bk' = apply_batch b (book_view Bid bk)"
    "book_view Ask bk' = apply_batch a (book_view Ask bk)"
proof -
  obtain bk1 ch1 where
    l1: "level_loop snapshot receipt Bid b (bk, []) = Inr (bk1, ch1)" and
    l2: "level_loop snapshot receipt Ask a (bk1, ch1) = Inr (bk', ch)"
    using assms(2) by (auto simp: both_sides_def split: sum.splits)
  have eq: "(\<lambda>(p, q). put_level p q) = (\<lambda>(k, v). if v = 0 then AList.delete k else AList.update k v)"
    by (auto simp: put_level_def fun_eq_iff)
  note view = side.view_batch [where is_gone = "\<lambda>v. v = 0", folded apply_batch_def eq]
  have dist: "distinct (map fst (side_levels sd bk))" for sd
    using assms(1) by (cases sd) (auto simp: loop_inv_def levels_ok_def side_levels_def)
  have "book_view Bid bk' = map_of (fold (\<lambda>(p, q). put_level p q) b (side_levels Bid bk))"
    using level_loop_sides [OF l1, of Ask] level_loop_sides [OF l2, of Bid] by (simp add: book_view_def)
  then show "book_view Bid bk' = apply_batch b (book_view Bid bk)"
    using view [OF dist [of Bid], of b] by (simp add: book_view_def)
  have "book_view Ask bk' = map_of (fold (\<lambda>(p, q). put_level p q) a (side_levels Ask bk))"
    using level_loop_sides [OF l1, of Ask] level_loop_sides [OF l2, of Bid] by (simp add: book_view_def)
  then show "book_view Ask bk' = apply_batch a (book_view Ask bk)"
    using view [OF dist [of Ask], of a] by (simp add: book_view_def)
qed

lemma book_view_frame:
  "bk_bids bk = bk_bids bk' \<Longrightarrow> bk_asks bk = bk_asks bk' \<Longrightarrow> book_view sd bk = book_view sd bk'"
  by (simp add: book_view_def side_levels_def)

lemma book_apply_view:
  assumes "book_inv bk" and ok: "book_apply m receipt bk = (bk', Inr ())"
  shows "book_view Bid bk' = apply_batch (bm_bids m) (if is_snapshot m then Map.empty else book_view Bid bk)"
    "book_view Ask bk' = apply_batch (bm_asks m) (if is_snapshot m then Map.empty else book_view Ask bk)"
proof -
  obtain bk0 bk1 ch where
    g: "apply_guard m bk = (bk0, None)"
    and bs: "both_sides (is_snapshot m) receipt (bm_bids m) (bm_asks m) bk0 = Inr (bk1, ch)"
    and bk': "bk' = sample_pressure receipt (if is_snapshot m then stamp_msg m receipt bk1
             else record_ofi receipt (touch bk0) ch (stamp_msg m receipt bk1))"
    using ok by (rule book_apply_ok)
  have start: "book_view sd bk0 = (if is_snapshot m then Map.empty else book_view sd bk)" for sd
    using g by (auto simp: apply_guard_def book_view_def side_levels_def book_reset_def split: if_splits)
  have "book_view sd bk' = book_view sd bk1" for sd
    by (rule book_view_frame) (simp_all add: bk')
  then show "book_view Bid bk' = apply_batch (bm_bids m) (if is_snapshot m then Map.empty else book_view Bid bk)"
    "book_view Ask bk' = apply_batch (bm_asks m) (if is_snapshot m then Map.empty else book_view Ask bk)"
    using both_sides_view [OF guard_loop_inv [OF assms(1) g] bs] start by simp_all
qed

lemma book_apply_sequence:
  assumes "book_apply m receipt bk = (bk', Inr ())"
  shows "bk_update bk' = bm_u m" "bk_seq bk' = bm_seq m" "bk_valid bk'" "bk_receipt_ms bk' = receipt"
    "\<not> is_snapshot m \<Longrightarrow> bk_valid bk \<and> bk_update bk < bm_u m \<and> bk_seq bk \<le> bm_seq m"
proof -
  obtain bk0 bk1 ch where
    g: "apply_guard m bk = (bk0, None)" and "\<not> crossed_or_empty bk1"
    and bk': "bk' = sample_pressure receipt (if is_snapshot m then stamp_msg m receipt bk1
             else record_ofi receipt (touch bk0) ch (stamp_msg m receipt bk1))"
    using assms by (rule book_apply_ok)
  then show "bk_update bk' = bm_u m" "bk_seq bk' = bm_seq m" "bk_valid bk'" "bk_receipt_ms bk' = receipt"
    by simp_all
  show "\<not> is_snapshot m \<Longrightarrow> bk_valid bk \<and> bk_update bk < bm_u m \<and> bk_seq bk \<le> bm_seq m"
    using g by (auto simp: apply_guard_def split: if_splits)
qed

text \<open>
  The validity flag says exactly whether the last message was
  accepted, so a book that raised is never served; and after any messages a valid book is quoted
  on both sides, uncrossed, with positive prices and quantities and one entry per price.
\<close>

theorem book_valid_means_accepted:
  "(bk_valid (fst (book_apply m receipt (fold book_step ms book_new)))
      \<longleftrightarrow> snd (book_apply m receipt (fold book_step ms book_new)) = Inr ())
   \<and> \<not> (bk_valid (fold book_step ms book_new) \<and> crossed_or_empty (fold book_step ms book_new))
   \<and> levels_ok (bk_bids (fold book_step ms book_new)) \<and> levels_ok (bk_asks (fold book_step ms book_new))"
proof -
  let ?bk = "fold book_step ms book_new"
  have inv: "book_inv ?bk" by (rule book_machine.run_inv [OF book_inv_new])
  have "bk_valid (fst (book_apply m receipt ?bk)) \<longleftrightarrow> snd (book_apply m receipt ?bk) = Inr ()"
  proof (cases "book_apply m receipt ?bk")
    case (Pair bk' res)
    show ?thesis
    proof (cases res)
      case (Inl e)
      with Pair book_apply_fail [of m receipt ?bk bk' e] have "\<not> bk_valid bk'"
        by (auto simp: book_reset_def)
      with Pair Inl show ?thesis by simp
    next
      case (Inr u)
      with Pair book_apply_sequence(3) [of m receipt ?bk bk'] show ?thesis by simp
    qed
  qed
  with inv show ?thesis by (simp add: book_inv_def)
qed

text \<open>
  C17: an accepted message leaves on each side exactly the exchange's price map:
  the old map (none after a snapshot) with the message's levels written over it in order, quantity
  zero removing a level; the sequence fields are the message's and advanced for a delta.
\<close>

theorem book_mirrors_feed:
  assumes "book_inv bk" and "book_apply m receipt bk = (bk', Inr ())"
  shows "book_view Bid bk' = apply_batch (bm_bids m) (if is_snapshot m then Map.empty else book_view Bid bk)
    \<and> book_view Ask bk' = apply_batch (bm_asks m) (if is_snapshot m then Map.empty else book_view Ask bk)
    \<and> bk_update bk' = bm_u m \<and> bk_seq bk' = bm_seq m \<and> bk_receipt_ms bk' = receipt
    \<and> (is_snapshot m \<or> bk_valid bk \<and> bk_update bk < bm_u m \<and> bk_seq bk \<le> bm_seq m)"
  using book_apply_view [OF assms] book_apply_sequence [OF assms(2)] by blast

definition sample_snapshot :: book_msg where
  "sample_snapshot =
     \<lparr>bm_snapshot = True, bm_u = 7, bm_seq = 7, bm_bids = [(99, 2), (98, 3)], bm_asks = [(101, 1), (102, 4)],
      bm_ts = 1000, bm_cts = None\<rparr>"

definition sample_delta :: book_msg where
  "sample_delta =
     \<lparr>bm_snapshot = False, bm_u = 8, bm_seq = 8, bm_bids = [(99, 0)], bm_asks = [(101, 5)],
      bm_ts = 1200, bm_cts = Some 1100\<rparr>"

definition sample_book :: book where
  "sample_book = book_step (sample_snapshot, 1000) book_new"

lemma sample_book_sound: "book_inv sample_book \<and> bk_valid sample_book"
  using book_apply_inv [OF book_inv_new] by (simp add: sample_book_def book_step_def) code_simp

lemma book_mirrors_feed_witness:
  "book_view Bid (fst (book_apply sample_delta 1250 sample_book)) = apply_batch [(99, 0)] (book_view Bid sample_book)
    \<and> bk_update (fst (book_apply sample_delta 1250 sample_book)) = 8"
proof -
  have inv: "book_inv sample_book" using sample_book_sound by simp
  have ok: "book_apply sample_delta 1250 sample_book = (fst (book_apply sample_delta 1250 sample_book), Inr ())"
    by code_simp
  have m: "is_snapshot sample_delta = False" "bm_bids sample_delta = [(99, 0)]" "bm_u sample_delta = 8"
    by (simp_all add: sample_delta_def is_snapshot_def)
  show ?thesis using book_mirrors_feed [OF inv ok] unfolding m by simp
qed

end
