(* ===== verification/SequencedBook.thy ===== *)
theory SequencedBook imports OrderBook begin

text \<open>
  Exchange sequence numbers in front of the book: \<^verbatim>\<open>SequencedBook.apply\<close> and the
  per-message body of \<^verbatim>\<open>NativeStreams.binance_depth\<close> with its recovery handler in
  \<^verbatim>\<open>src/bybit_flow/native_streams.py\<close>. Binance deltas must bridge the REST snapshot
  and then chain by their previous update id; OKX deltas must chain by previous sequence id.
  The book itself is fed a local counter.
\<close>

datatype venue = VBinance | VOkx

text \<open>
  The sequence fields of a message: \<^verbatim>\<open>lastUpdateId\<close> / \<^verbatim>\<open>u\<close> / \<^verbatim>\<open>seqId\<close>
  as current, \<^verbatim>\<open>U\<close> as first, \<^verbatim>\<open>pu\<close> / \<^verbatim>\<open>prevSeqId\<close> as previous.
\<close>

record seq_msg =
  sm_current :: int
  sm_first :: int
  sm_prev :: int
  sm_bids :: levels
  sm_asks :: levels
  sm_event :: ms

record seq_book =
  sq_venue :: venue
  sq_book :: book
  sq_multiplier :: dec
  sq_last :: "int option"
  sq_bridged :: bool
  sq_local :: int

definition seq_new :: "venue \<Rightarrow> book \<Rightarrow> dec \<Rightarrow> seq_book" where
  "seq_new v bk m =
     \<lparr>sq_venue = v, sq_book = bk, sq_multiplier = m, sq_last = None,
      sq_bridged = False, sq_local = 1\<rparr>"

definition reset_book_of :: "seq_book \<Rightarrow> seq_book" where
  "reset_book_of sq = sq\<lparr>sq_book := book_reset (sq_book sq)\<rparr>"

text \<open>
  The guards in front of the delegated \<^verbatim>\<open>Book.apply\<close>. Inr True means go on,
  Inr False is the early return for a stale delta before the bridge.
\<close>

definition binance_guard :: "seq_msg \<Rightarrow> bool \<Rightarrow> seq_book \<Rightarrow> seq_book \<times> (py_error + bool)" where
  "binance_guard m snapshot sq =
     (if snapshot then (sq, Inr True)
      else case sq_last sq of
        None \<Rightarrow> (sq, Inl (BookGap ''Binance delta before REST snapshot''))
      | Some l \<Rightarrow>
          if \<not> sq_bridged sq then
            (if sm_current m < l then (sq, Inr False)
             else if \<not> (sm_first m \<le> l \<and> l \<le> sm_current m)
             then (reset_book_of sq, Inl (BookGap ''Binance snapshot bridge missing''))
             else (sq\<lparr>sq_bridged := True\<rparr>, Inr True))
          else if sm_prev m \<noteq> l \<or> sm_current m \<le> l
          then (reset_book_of sq, Inl (BookGap ''Binance pu continuity failure''))
          else (sq, Inr True))"

definition okx_guard :: "seq_msg \<Rightarrow> bool \<Rightarrow> seq_book \<Rightarrow> seq_book \<times> (py_error + bool)" where
  "okx_guard m snapshot sq =
     (if snapshot then (sq, Inr True)
      else if sq_last sq = None \<or> Some (sm_prev m) \<noteq> sq_last sq \<or> sm_current m < the (sq_last sq)
      then (reset_book_of sq, Inl (BookGap ''OKX sequence gap/reset; new snapshot required''))
      else if sm_current m = the (sq_last sq) \<and> (sm_bids m \<noteq> [] \<or> sm_asks m \<noteq> [])
      then (reset_book_of sq, Inl (BookGap ''OKX changed levels without advancing sequence''))
      else (sq, Inr True))"

definition local_msg :: "seq_msg \<Rightarrow> bool \<Rightarrow> seq_book \<Rightarrow> book_msg" where
  "local_msg m snapshot sq =
     \<lparr>bm_snapshot = snapshot, bm_u = sq_local sq, bm_seq = sq_local sq,
      bm_bids = map (\<lambda>(p, q). (p, q * sq_multiplier sq)) (sm_bids m),
      bm_asks = map (\<lambda>(p, q). (p, q * sq_multiplier sq)) (sm_asks m),
      bm_ts = sm_event m, bm_cts = None\<rparr>"

definition seq_apply :: "seq_msg \<Rightarrow> ms \<Rightarrow> bool \<Rightarrow> seq_book \<Rightarrow> seq_book \<times> (py_error + bool)" where
  "seq_apply m receipt snapshot sq =
     (case (if sq_venue sq = VBinance then binance_guard else okx_guard) m snapshot sq of
        (sq1, Inl e) \<Rightarrow> (sq1, Inl e)
      | (sq1, Inr False) \<Rightarrow> (sq1, Inr False)
      | (sq1, Inr True) \<Rightarrow>
          (let sq2 = sq1\<lparr>sq_local := sq_local sq1 + 1\<rparr> in
           case book_apply (local_msg m snapshot sq2) receipt (sq_book sq2) of
             (bk, Inl e) \<Rightarrow> (sq2\<lparr>sq_book := bk\<rparr>, Inl e)
           | (bk, Inr _) \<Rightarrow>
               (let sq3 = sq2\<lparr>sq_book := bk, sq_last := Some (sm_current m)\<rparr> in
                if length (bk_bids bk) + length (bk_asks bk) > 6000
                then (reset_book_of sq3,
                      Inl (BookGap ''Retained depth budget exceeded; resnapshot required''))
                else (if snapshot \<and> sq_venue sq = VBinance
                      then sq3\<lparr>sq_bridged := False\<rparr> else sq3, Inr True))))"

subsection \<open>The Binance depth connection\<close>

text \<open>
  One connection of \<^verbatim>\<open>binance_depth\<close>: the REST snapshot is applied and then hidden,
  each delta is skipped while it is older than the snapshot, otherwise the book is shown and
  the delta applied. Any exception reaches \<^verbatim>\<open>binance_depth_recovery\<close>, which resets
  the book and starts over with a new \<^verbatim>\<open>SequencedBook\<close> on the same book.
\<close>

datatype depth_event = DepthSnapshot seq_msg ms | DepthDelta seq_msg ms | DepthFailure

definition depth_recover :: "seq_book \<Rightarrow> seq_book" where
  "depth_recover sq = seq_new VBinance (book_reset (sq_book sq)) (sq_multiplier sq)"

fun depth_step :: "depth_event \<Rightarrow> seq_book \<Rightarrow> seq_book" where
  "depth_step (DepthSnapshot m receipt) sq =
     (case seq_apply m receipt True sq of
        (sq', Inl e) \<Rightarrow> depth_recover sq'
      | (sq', Inr _) \<Rightarrow> sq'\<lparr>sq_book := (sq_book sq')\<lparr>bk_valid := False\<rparr>\<rparr>)"
| "depth_step (DepthDelta m receipt) sq =
     (if sq_last sq = None then depth_recover sq
      else if \<not> sq_bridged sq \<and> sm_current m < the (sq_last sq) then sq
      else
        let sq1 = sq\<lparr>sq_book := (sq_book sq)\<lparr>bk_valid := True\<rparr>\<rparr> in
        case seq_apply m receipt False sq1 of
          (sq', Inl e) \<Rightarrow> depth_recover sq'
        | (sq', Inr _) \<Rightarrow> sq')"
| "depth_step DepthFailure sq = depth_recover sq"

text \<open>
  The connection invariant: the book is shown only after a delta has bridged the snapshot,
  and even while the snapshot is hidden its levels are those of an uncrossed book, so that
  showing it again is safe.
\<close>

definition depth_inv :: "seq_book \<Rightarrow> bool" where
  "depth_inv sq \<longleftrightarrow>
     sq_venue sq = VBinance
     \<and> book_inv (sq_book sq)
     \<and> (bk_valid (sq_book sq) \<longrightarrow> sq_bridged sq \<and> sq_last sq \<noteq> None)
     \<and> (sq_last sq \<noteq> None \<longrightarrow> \<not> crossed_or_empty (sq_book sq))"

lemma reset_book_fields [simp]:
  "sq_venue (reset_book_of sq) = sq_venue sq" "sq_book (reset_book_of sq) = book_reset (sq_book sq)"
  "sq_last (reset_book_of sq) = sq_last sq" "sq_multiplier (reset_book_of sq) = sq_multiplier sq"
  by (simp_all add: reset_book_of_def)

lemma depth_recover_inv [simp]: "depth_inv (depth_recover sq)"
  by (simp add: depth_inv_def depth_recover_def seq_new_def) (simp add: book_reset_def)

lemma book_apply_shown: "book_apply m r bk = (bk', Inr ()) \<Longrightarrow> bk_valid bk'"
  by (rule book_apply_sequence(3))

text \<open>What a successful sequenced application implies.\<close>

lemma seq_apply_ok:
  assumes "seq_apply m receipt snapshot sq = (sq', Inr True)"
  obtains sq1 bk where
    "(if sq_venue sq = VBinance then binance_guard else okx_guard) m snapshot sq = (sq1, Inr True)"
    "book_apply (local_msg m snapshot (sq1\<lparr>sq_local := sq_local sq1 + 1\<rparr>)) receipt (sq_book sq1) = (bk, Inr ())"
    "sq_book sq' = bk" "sq_last sq' = Some (sm_current m)" "sq_venue sq' = sq_venue sq1"
    "sq_bridged sq' = (if snapshot \<and> sq_venue sq = VBinance then False else sq_bridged sq1)"
    "length (bk_bids bk) + length (bk_asks bk) \<le> 6000"
    "sq_local sq' = sq_local sq1 + 1" "sq_multiplier sq' = sq_multiplier sq1"
  using assms
  by (auto simp: seq_apply_def Let_def split: prod.splits sum.splits bool.splits if_splits)

lemma binance_guard_ok:
  assumes "binance_guard m snapshot sq = (sq1, Inr True)"
  shows "sq_book sq1 = sq_book sq" "sq_venue sq1 = sq_venue sq" "sq_local sq1 = sq_local sq"
    "\<not> snapshot \<Longrightarrow> sq_bridged sq1"
    "\<not> snapshot \<Longrightarrow> \<exists>l. sq_last sq = Some l \<and> l \<le> sm_current m
       \<and> (if sq_bridged sq then sm_prev m = l \<and> l < sm_current m else sm_first m \<le> l)"
  using assms by (auto simp: binance_guard_def split: if_splits option.splits)

lemma shown_inv: "book_inv bk \<Longrightarrow> \<not> crossed_or_empty bk \<Longrightarrow> book_inv (bk\<lparr>bk_valid := True\<rparr>)"
  by (simp add: book_inv_def ofi_inv_def crossed_or_empty_def best_bid_def best_ask_def)

lemma hidden_inv: "book_inv bk \<Longrightarrow> book_inv (bk\<lparr>bk_valid := False\<rparr>)"
  by (simp add: book_inv_def ofi_inv_def crossed_or_empty_def best_bid_def best_ask_def)

lemma hidden_crossed [simp]: "crossed_or_empty (bk\<lparr>bk_valid := b\<rparr>) = crossed_or_empty bk"
  by (simp add: crossed_or_empty_def best_bid_def best_ask_def)

lemma applied_inv:
  assumes "book_apply m r bk = (bk', Inr ())" "book_inv bk"
  shows "book_inv bk' \<and> bk_valid bk' \<and> \<not> crossed_or_empty bk'"
  using book_apply_inv [OF assms(2), of m r] book_apply_shown [OF assms(1)] assms(1)
  by (simp add: book_inv_def)

lemma depth_step_inv: "depth_inv sq \<Longrightarrow> depth_inv (depth_step e sq)"
proof (cases e)
  case (DepthSnapshot m receipt)
  assume inv: "depth_inv sq"
  show ?thesis
  proof (cases "seq_apply m receipt True sq")
    case (Pair sq' res)
    show ?thesis
    proof (cases res)
      case (Inr b)
      have "binance_guard m True sq = (sq, Inr True)" by (simp add: binance_guard_def)
      with Pair Inr inv have "b = True"
        by (auto simp: seq_apply_def depth_inv_def Let_def split: prod.splits sum.splits if_splits)
      with Pair Inr have "seq_apply m receipt True sq = (sq', Inr True)" by simp
      have step: "depth_step e sq = sq'\<lparr>sq_book := (sq_book sq')\<lparr>bk_valid := False\<rparr>\<rparr>"
        using DepthSnapshot Pair Inr by simp
      show ?thesis unfolding step
        using \<open>seq_apply m receipt True sq = (sq', Inr True)\<close>
      proof (rule seq_apply_ok)
        fix sq1 bk
        assume g: "(if sq_venue sq = VBinance then binance_guard else okx_guard) m True sq = (sq1, Inr True)"
          and ap: "book_apply (local_msg m True (sq1\<lparr>sq_local := sq_local sq1 + 1\<rparr>)) receipt (sq_book sq1) = (bk, Inr ())"
          and res: "sq_book sq' = bk" "sq_last sq' = Some (sm_current m)" "sq_venue sq' = sq_venue sq1"
        from g inv have "sq1 = sq" by (simp add: depth_inv_def binance_guard_def)
        with applied_inv [OF ap] inv res
        show "depth_inv (sq'\<lparr>sq_book := (sq_book sq')\<lparr>bk_valid := False\<rparr>\<rparr>)"
          by (simp add: depth_inv_def hidden_inv)
      qed
    qed (use DepthSnapshot Pair in simp)
  qed
next
  case (DepthDelta m receipt)
  assume inv: "depth_inv sq"
  define sq1 where "sq1 = sq\<lparr>sq_book := (sq_book sq)\<lparr>bk_valid := True\<rparr>\<rparr>"
  show ?thesis
  proof (cases "sq_last sq = None \<or> (\<not> sq_bridged sq \<and> sm_current m < the (sq_last sq))")
    case True
    then show ?thesis using inv DepthDelta by auto
  next
    case False
    then have b1: "book_inv (sq_book sq1)" using inv by (simp add: sq1_def depth_inv_def shown_inv)
    show ?thesis
    proof (cases "seq_apply m receipt False sq1")
      case (Pair sq' res)
      show ?thesis
      proof (cases res)
        case (Inl err)
        then show ?thesis using DepthDelta Pair False by (auto simp: sq1_def [symmetric])
      next
        case (Inr b)
        have "b = True"
          using Pair Inr inv False
          by (auto simp: seq_apply_def binance_guard_def sq1_def depth_inv_def Let_def
              split: prod.splits sum.splits if_splits option.splits)
        with Pair Inr have ok: "seq_apply m receipt False sq1 = (sq', Inr True)" by simp
        have v: "sq_venue sq1 = VBinance" using inv by (simp add: sq1_def depth_inv_def)
        have step: "depth_step e sq = sq'" using DepthDelta Pair Inr False by (auto simp: sq1_def [symmetric])
        show ?thesis unfolding step
          using ok
        proof (rule seq_apply_ok)
          fix sq2 bk
          assume g: "(if sq_venue sq1 = VBinance then binance_guard else okx_guard) m False sq1 = (sq2, Inr True)"
            and ap: "book_apply (local_msg m False (sq2\<lparr>sq_local := sq_local sq2 + 1\<rparr>)) receipt (sq_book sq2) = (bk, Inr ())"
            and res: "sq_book sq' = bk" "sq_last sq' = Some (sm_current m)" "sq_venue sq' = sq_venue sq2"
              "sq_bridged sq' = (if False \<and> sq_venue sq1 = VBinance then False else sq_bridged sq2)"
          from g v have g': "binance_guard m False sq1 = (sq2, Inr True)" by simp
          from applied_inv [OF ap] binance_guard_ok [OF g'] b1 res v
          show "depth_inv sq'" by (simp add: depth_inv_def)
        qed
      qed
    qed
  qed
next
  case DepthFailure
  then show ?thesis by simp
qed

interpretation depth_machine: step_invariant depth_step depth_inv
  by unfold_locales (rule depth_step_inv)

text \<open>
  C18: whatever snapshots, deltas and failures a Binance depth connection
  sees, in any order, its book is never shown before a delta has bridged the snapshot, and never
  shown empty or crossed.
\<close>

theorem depth_shown_only_bridged:
  "\<not> (bk_valid (sq_book (fold depth_step es (seq_new VBinance book_new k)))
      \<and> \<not> sq_bridged (fold depth_step es (seq_new VBinance book_new k)))
   \<and> \<not> (bk_valid (sq_book (fold depth_step es (seq_new VBinance book_new k)))
      \<and> crossed_or_empty (sq_book (fold depth_step es (seq_new VBinance book_new k))))"
proof -
  have "depth_inv (seq_new VBinance book_new k)"
    by (simp add: depth_inv_def seq_new_def book_inv_new) (simp add: book_new_def)
  from depth_machine.run_inv [OF this, of es] show ?thesis by (auto simp: depth_inv_def book_inv_def)
qed

end
