(* ===== verification/Impact.thy ===== *)
theory Impact imports OrderBook begin

text \<open>
  Walking the visible book: \<^verbatim>\<open>Book.impact\<close> of
  \<^verbatim>\<open>src/bybit_flow/orderflow.py\<close>. The lemmas bound the result by the prices that
  were consumed, account for every unit of notional, and characterise exactly when the
  visible depth is not enough.
\<close>

definition impact_eps :: dec where
  "impact_eps = 1 / 1000000"

text \<open>The loop over sorted levels: remaining notional, filled quantity, spent notional.\<close>

fun impact_loop :: "levels \<Rightarrow> dec \<Rightarrow> dec \<Rightarrow> dec \<Rightarrow> dec \<times> dec \<times> dec" where
  "impact_loop [] remaining qty spent = (remaining, qty, spent)"
| "impact_loop ((price, size') # ls) remaining qty spent =
     (let take' = min size' (remaining / price);
          remaining' = remaining - take' * price
      in if remaining' \<le> impact_eps then (remaining', qty + take', spent + take' * price)
         else impact_loop ls remaining' (qty + take') (spent + take' * price))"

record impact_quote =
  iq_vwap :: dec
  iq_impact_bps :: dec
  iq_quantity :: dec

definition walk_levels :: "direction \<Rightarrow> book \<Rightarrow> levels" where
  "walk_levels d bk =
     (if d = LONG then sort_key fst (bk_asks bk) else rev (sort_key fst (bk_bids bk)))"

text \<open>
  \<^verbatim>\<open>max(self.bids)\<close> and \<^verbatim>\<open>min(self.asks)\<close> raise on an empty side; they
  are only evaluated once the walk has succeeded.
\<close>

definition impact :: "direction \<Rightarrow> dec \<Rightarrow> book \<Rightarrow> py_error + impact_quote option" where
  "impact d notional bk =
     (case impact_loop (walk_levels d bk) notional 0 0 of (remaining, qty, spent) \<Rightarrow>
        if qty = 0 \<or> impact_eps < remaining then Inr None
        else if bk_bids bk = [] \<or> bk_asks bk = [] then Inl (ValueError ''empty iterable'')
        else
          let mid = (best_bid bk + best_ask bk) / 2
          in Inr (Some \<lparr>iq_vwap = spent / qty,
                        iq_impact_bps = \<bar>spent / qty - mid\<bar> / mid * 10000,
                        iq_quantity = qty\<rparr>))"

definition depth_notional :: "levels \<Rightarrow> dec" where
  "depth_notional ls = sum_list (map (\<lambda>(p, q). p * q) ls)"

subsection \<open>The walk\<close>

definition pos_levels :: "levels \<Rightarrow> bool" where
  "pos_levels ls \<longleftrightarrow> (\<forall>(p, q) \<in> set ls. 0 < p \<and> 0 < q)"

lemma pos_levels_Cons [simp]: "pos_levels ((p, q) # ls) \<longleftrightarrow> 0 < p \<and> 0 < q \<and> pos_levels ls"
  by (simp add: pos_levels_def)

lemma depth_notional_Cons [simp]: "depth_notional ((p, q) # ls) = p * q + depth_notional ls"
  by (simp add: depth_notional_def)

lemma depth_notional_nonneg: "pos_levels ls \<Longrightarrow> 0 \<le> depth_notional ls"
  by (induction ls) (auto simp: depth_notional_def pos_levels_def)

lemma take_bounds:
  fixes p q r :: dec
  assumes "0 < p" "0 < q" "0 < r"
  shows "0 < min q (r / p)" "min q (r / p) \<le> q" "min q (r / p) * p \<le> r"
proof -
  show "0 < min q (r / p)" "min q (r / p) \<le> q" using assms by auto
  have "min q (r / p) * p \<le> r / p * p" using assms by (intro mult_right_mono) auto
  then show "min q (r / p) * p \<le> r" using assms by simp
qed

text \<open>Either the level is exhausted or nothing remains.\<close>

lemma take_exhausts:
  fixes p q r :: dec
  assumes "0 < p" "min q (r / p) * p \<noteq> r"
  shows "min q (r / p) = q"
  using assms by (cases "q \<le> r / p") auto

lemma impact_loop_spec:
  assumes "pos_levels ls" "0 < r" "impact_loop ls r q s = (r', q', s')"
    and "\<forall>(p, x) \<in> set ls. lo \<le> p \<and> p \<le> hi"
  shows "s' + r' = s + r \<and> 0 \<le> r' \<and> q \<le> q' \<and> (ls \<noteq> [] \<longrightarrow> q < q')
    \<and> lo * (q' - q) \<le> s' - s \<and> s' - s \<le> hi * (q' - q)
    \<and> (impact_eps < r' \<longrightarrow> r' = r - depth_notional ls)
    \<and> (r - depth_notional ls \<le> r')"
  using assms
proof (induction ls arbitrary: r q s)
  case Nil
  then show ?case by (simp add: depth_notional_def)
next
  case (Cons lv ls)
  obtain p x where lv: "lv = (p, x)" by (cases lv)
  define t where "t = min x (r / p)"
  have px: "0 < p" "0 < x" and pl: "pos_levels ls" using Cons.prems(1) lv by auto
  note tb = take_bounds [OF px Cons.prems(2), folded t_def]
  have bounds: "lo * t \<le> t * p" "t * p \<le> hi * t"
    using Cons.prems(4) lv tb(1) by (simp_all add: mult.commute)
  have tpx: "t * p \<le> p * x" using tb(2) px by (simp add: mult.commute)
  note dn = depth_notional_nonneg [OF pl]
  show ?case
  proof (cases "r - t * p \<le> impact_eps")
    case True
    then have res: "r' = r - t * p" "q' = q + t" "s' = s + t * p"
      using Cons.prems(3) lv by (simp_all add: t_def Let_def)
    show ?thesis using True tb bounds tpx dn lv unfolding res by (simp add: algebra_simps)
  next
    case False
    then have rec: "impact_loop ls (r - t * p) (q + t) (s + t * p) = (r', q', s')"
      using Cons.prems(3) lv by (simp add: t_def Let_def)
    have pos: "0 < r - t * p" using False by (simp add: impact_eps_def)
    then have full: "t = x" using take_exhausts [of p x r] px by (simp add: t_def)
    note IH = Cons.IH [OF pl pos rec]
    have "s' + r' = (s + t * p) + (r - t * p) \<and> 0 \<le> r' \<and> q + t \<le> q'
        \<and> lo * (q' - (q + t)) \<le> s' - (s + t * p) \<and> s' - (s + t * p) \<le> hi * (q' - (q + t))
        \<and> (impact_eps < r' \<longrightarrow> r' = r - t * p - depth_notional ls)
        \<and> r - t * p - depth_notional ls \<le> r'"
      using IH Cons.prems(4) lv by auto
    moreover have "lo * (q' - q) = lo * (q' - (q + t)) + lo * t"
      "hi * (q' - q) = hi * (q' - (q + t)) + hi * t"
      by (simp_all add: algebra_simps)
    moreover have "depth_notional (lv # ls) = t * p + depth_notional ls"
      using full lv by (simp add: mult.commute)
    ultimately show ?thesis
      using bounds tb(1) by (intro conjI impI) linarith+
  qed
qed

lemma set_walk_levels: "set (walk_levels d bk) = set (if d = LONG then bk_asks bk else bk_bids bk)"
  by (simp add: walk_levels_def)

lemma walk_pos: "book_inv bk \<Longrightarrow> pos_levels (walk_levels d bk)"
  by (simp add: pos_levels_def book_inv_def levels_ok_def set_walk_levels)

lemma walk_nonempty: "book_inv bk \<Longrightarrow> bk_valid bk \<Longrightarrow> walk_levels d bk \<noteq> []"
  using set_walk_levels [of d bk]
  by (metis book_inv_def crossed_or_empty_def set_empty)

lemma fst_bounds:
  "\<forall>(p, x) \<in> set (ls :: levels). Min (fst ` set ls) \<le> p \<and> p \<le> Max (fst ` set ls)"
  by (auto intro!: Min_le Max_ge rev_image_eqI)

lemma best_bounds:
  "(p, q) \<in> set (bk_asks bk) \<Longrightarrow> best_ask bk \<le> p"
  "(p, q) \<in> set (bk_bids bk) \<Longrightarrow> p \<le> best_bid bk"
  by (auto simp: best_ask_def best_bid_def intro!: Min_le Max_ge rev_image_eqI)

lemma best_pos: "book_inv bk \<Longrightarrow> bk_valid bk \<Longrightarrow> 0 < best_bid bk \<and> best_bid bk < best_ask bk"
proof -
  assume inv: "book_inv bk" and v: "bk_valid bk"
  then have ne: "bk_bids bk \<noteq> []" and lt: "best_bid bk < best_ask bk"
    by (auto simp: book_inv_def crossed_or_empty_def)
  have "best_bid bk \<in> set (map fst (bk_bids bk))" unfolding best_bid_def using ne by (intro Max_in) auto
  then have "0 < best_bid bk" using inv by (auto simp: book_inv_def levels_ok_def)
  with lt show ?thesis by simp
qed

text \<open>On a valid book the walk answers None exactly when the visible depth is short.\<close>

lemma impact_none_iff:
  assumes "book_inv bk" "bk_valid bk" "0 < notional"
  shows "impact d notional bk = Inr None \<longleftrightarrow>
    depth_notional (walk_levels d bk) + impact_eps < notional"
proof -
  obtain r q s where walk: "impact_loop (walk_levels d bk) notional 0 0 = (r, q, s)"
    by (metis prod_cases3)
  note spec = impact_loop_spec [OF walk_pos [OF assms(1)] assms(3) walk fst_bounds]
  have "0 < q" "impact_eps < r \<longrightarrow> r = notional - depth_notional (walk_levels d bk)"
    "notional - depth_notional (walk_levels d bk) \<le> r"
    using spec walk_nonempty [OF assms(1,2)] by simp_all
  moreover have "bk_bids bk \<noteq> []" "bk_asks bk \<noteq> []"
    using assms(1,2) by (auto simp: book_inv_def crossed_or_empty_def)
  ultimately show ?thesis by (auto simp: impact_def walk Let_def)
qed

lemma impact_some:
  assumes inv: "book_inv bk" "bk_valid bk" and n: "0 < notional"
    and res: "impact d notional bk = Inr (Some iq)"
    and lv: "\<forall>(p, x) \<in> set (walk_levels d bk). lo \<le> p \<and> p \<le> hi"
  shows "0 < iq_quantity iq" "lo \<le> iq_vwap iq" "iq_vwap iq \<le> hi"
    "notional - impact_eps \<le> iq_vwap iq * iq_quantity iq" "iq_vwap iq * iq_quantity iq \<le> notional"
    "iq_impact_bps iq = \<bar>iq_vwap iq - (best_bid bk + best_ask bk) / 2\<bar>
       / ((best_bid bk + best_ask bk) / 2) * 10000"
proof -
  obtain r q s where walk: "impact_loop (walk_levels d bk) notional 0 0 = (r, q, s)"
    by (metis prod_cases3)
  note spec = impact_loop_spec [OF walk_pos [OF inv(1)] n walk lv]
  have q: "0 < q" using spec walk_nonempty [OF inv] by simp
  from res q have r: "r \<le> impact_eps" and iq: "iq_vwap iq = s / q" "iq_quantity iq = q"
    and bps: "iq_impact_bps iq = \<bar>s / q - (best_bid bk + best_ask bk) / 2\<bar>
       / ((best_bid bk + best_ask bk) / 2) * 10000"
    by (auto simp: impact_def walk Let_def split: if_splits)
  show "0 < iq_quantity iq" using iq q by simp
  show "lo \<le> iq_vwap iq" using spec q iq by (simp add: pos_le_divide_eq)
  show "iq_vwap iq \<le> hi" using spec q iq by (simp add: pos_divide_le_eq)
  show "notional - impact_eps \<le> iq_vwap iq * iq_quantity iq"
    "iq_vwap iq * iq_quantity iq \<le> notional"
    using spec q r iq by simp_all
  show "iq_impact_bps iq = \<bar>iq_vwap iq - (best_bid bk + best_ask bk) / 2\<bar>
       / ((best_bid bk + best_ask bk) / 2) * 10000"
    using bps iq by simp
qed

lemma half_spread_bound:
  fixes b a v :: dec
  assumes "0 < b" "b < a" "a \<le> v \<or> v \<le> b"
  shows "(a - b) / (a + b) * 10000 \<le> \<bar>v - (b + a) / 2\<bar> / ((b + a) / 2) * 10000"
proof -
  have "(a - b) / 2 \<le> \<bar>v - (b + a) / 2\<bar>" using assms by (auto simp: abs_if field_simps)
  then have "(a - b) / 2 / ((b + a) / 2) \<le> \<bar>v - (b + a) / 2\<bar> / ((b + a) / 2)"
    using assms by (intro divide_right_mono) auto
  moreover have "(a - b) / 2 / ((b + a) / 2) = (a - b) / (a + b)"
    using assms by (simp add: divide_simps algebra_simps)
  ultimately show ?thesis by (intro mult_right_mono) simp_all
qed

text \<open>
  The estimated impact is never below the half spread: a taker cannot do better than the
  touch.
\<close>

lemma impact_at_least_half_spread:
  assumes inv: "book_inv bk" "bk_valid bk" and n: "0 < notional"
    and res: "impact d notional bk = Inr (Some iq)"
  shows "(best_ask bk - best_bid bk) / (best_ask bk + best_bid bk) * 10000 \<le> iq_impact_bps iq"
proof -
  let ?ls = "walk_levels d bk"
  note fb = fst_bounds [of ?ls]
  have "best_ask bk \<le> iq_vwap iq \<or> iq_vwap iq \<le> best_bid bk"
  proof (cases d)
    case LONG
    then have "\<forall>(p, x) \<in> set ?ls. best_ask bk \<le> p \<and> p \<le> Max (fst ` set ?ls)"
      using best_bounds(1) fb by (auto simp: set_walk_levels)
    from impact_some(2) [OF inv n res this] show ?thesis by simp
  next
    case SHORT
    then have "\<forall>(p, x) \<in> set ?ls. Min (fst ` set ?ls) \<le> p \<and> p \<le> best_bid bk"
      using best_bounds(2) fb by (auto simp: set_walk_levels)
    from impact_some(3) [OF inv n res this] show ?thesis by simp
  qed
  then show ?thesis
    using half_spread_bound [of "best_bid bk" "best_ask bk" "iq_vwap iq"] best_pos [OF inv]
    by (simp add: impact_some(6) [OF inv n res fb])
qed

text \<open>
  On a valid book the estimate is withheld exactly when the visible depth
  does not carry the notional; otherwise the spent notional is met up to the code's tolerance, the
  average price stays within the walked levels, and the impact is never below the half spread.
\<close>

theorem impact_prices_the_walk:
  assumes "book_inv bk" and "bk_valid bk" and "0 < notional"
  shows "(impact d notional bk = Inr None \<longleftrightarrow> depth_notional (walk_levels d bk) + impact_eps < notional)
    \<and> (\<forall>iq. impact d notional bk = Inr (Some iq) \<longrightarrow>
        0 < iq_quantity iq
        \<and> Min (fst ` set (walk_levels d bk)) \<le> iq_vwap iq \<and> iq_vwap iq \<le> Max (fst ` set (walk_levels d bk))
        \<and> notional - impact_eps \<le> iq_vwap iq * iq_quantity iq \<and> iq_vwap iq * iq_quantity iq \<le> notional
        \<and> (best_ask bk - best_bid bk) / (best_ask bk + best_bid bk) * 10000 \<le> iq_impact_bps iq)"
  using impact_none_iff [OF assms] impact_some(1-5) [OF assms _ fst_bounds]
    impact_at_least_half_spread [OF assms] by blast

lemma impact_prices_the_walk_witness:
  "\<exists>iq. impact LONG 200 sample_book = Inr (Some iq) \<and> 101 \<le> iq_vwap iq \<and> iq_vwap iq \<le> 102
    \<and> 100 \<le> iq_impact_bps iq"
proof -
  have b: "book_inv sample_book" "bk_valid sample_book" using sample_book_sound by auto
  have "case impact LONG 200 sample_book of Inr (Some _) \<Rightarrow> True | _ \<Rightarrow> False" by code_simp
  then obtain iq where iq: "impact LONG 200 sample_book = Inr (Some iq)"
    by (auto split: sum.splits option.splits)
  have "Min (fst ` set (walk_levels LONG sample_book)) = 101" "Max (fst ` set (walk_levels LONG sample_book)) = 102"
    "(best_ask sample_book - best_bid sample_book) / (best_ask sample_book + best_bid sample_book) * 10000 = 100"
    by code_simp+
  with iq impact_prices_the_walk [OF b, of 200 LONG] show ?thesis by auto
qed

end
