(* ===== verification/Features.thy ===== *)
theory Features imports Impact begin

text \<open>
  What the strategy reads from a book: \<^verbatim>\<open>Book.features\<close> of
  \<^verbatim>\<open>src/bybit_flow/orderflow.py\<close>, and \<^verbatim>\<open>assess\<close> and
  \<^verbatim>\<open>event_assess\<close> of \<^verbatim>\<open>src/bybit_flow/ofi.py\<close>, the windows
  over the second buckets. Besides the bounds of the readings the proofs show that an assessment
  as of a time never depends on what was written after it.
\<close>

definition mean :: "dec list \<Rightarrow> dec" where
  "mean xs = sum_list xs / of_nat (length xs)"

definition in_minute :: "ms \<Rightarrow> ms \<Rightarrow> bool" where
  "in_minute now t \<longleftrightarrow> now - 60000 \<le> t \<and> t \<le> now"

subsection \<open>\<^verbatim>\<open>Book.features\<close>\<close>

record band_reading =
  br_bid :: dec
  br_ask :: dec
  br_imbalance :: dec

definition band_reading :: "book \<Rightarrow> dec \<Rightarrow> dec \<Rightarrow> band_reading" where
  "band_reading bk mid bps =
     (let b = depth_notional (filter (\<lambda>(p, q). p \<ge> mid * (1 - bps / 10000)) (bk_bids bk));
          a = depth_notional (filter (\<lambda>(p, q). p \<le> mid * (1 + bps / 10000)) (bk_asks bk))
      in \<lparr>br_bid = b, br_ask = a, br_imbalance = (if b + a \<noteq> 0 then (b - a) / (b + a) else 0)\<rparr>)"

definition flow_notional :: "bool \<Rightarrow> bside \<Rightarrow> (ms \<times> change) list \<Rightarrow> dec" where
  "flow_notional added sd changes =
     sum_list (map (\<lambda>(_, _, p, q). p * q)
       (filter (\<lambda>(_, s, p, q). s = sd \<and> (if added then q > 0 else q < 0)) changes))"

definition concentration :: "levels \<Rightarrow> dec option" where
  "concentration ls =
     (if ls = [] then None
      else let ns = map (\<lambda>(p, q). p * q) ls in Some (Max (set ns) / sum_list ns))"

record book_features =
  bf_event_ms :: ms
  bf_receipt_ms :: ms
  bf_spread_bps :: dec
  bf_mid :: dec
  bf_obi_touch :: dec
  bf_5 :: band_reading
  bf_10 :: band_reading
  bf_25 :: band_reading
  bf_obi_persistence :: dec
  bf_obi_samples :: nat
  bf_microprice :: dec
  bf_microprice_minus_mid :: dec
  bf_concentration :: "dec option \<times> dec option"
  bf_slope :: "dec \<times> dec"
  bf_replenishment :: "dec \<times> dec"
  bf_depletion :: "dec \<times> dec"
  bf_visible_flow :: dec
  bf_bids :: levels
  bf_asks :: levels

definition features :: "ms \<Rightarrow> book \<Rightarrow> book_features option" where
  "features now bk =
     (if \<not> bk_valid bk then None
      else
        let bid = best_bid bk; ask = best_ask bk; mid = (bid + ask) / 2;
            bq = level_qty (bk_bids bk) bid; aq = level_qty (bk_asks bk) ask;
            d5 = band_reading bk mid 5; d10 = band_reading bk mid 10; d25 = band_reading bk mid 25;
            changes = filter (\<lambda>(t, _). in_minute now t) (bk_changes bk);
            samples = filter (\<lambda>(t, v). in_minute now t) (bk_pressure bk)
        in Some
          \<lparr>bf_event_ms = bk_event_ms bk, bf_receipt_ms = bk_receipt_ms bk,
           bf_spread_bps = (ask - bid) / mid * 10000, bf_mid = mid,
           bf_obi_touch = (bq - aq) / (bq + aq), bf_5 = d5, bf_10 = d10, bf_25 = d25,
           bf_obi_persistence = sum_list (map snd samples) / max 1 (of_nat (length samples)),
           bf_obi_samples = length samples, bf_microprice = micro_price bid bq ask aq,
           bf_microprice_minus_mid = micro_price bid bq ask aq - mid,
           bf_concentration = (concentration (bk_bids bk), concentration (bk_asks bk)),
           bf_slope = ((br_bid d25 - br_bid d5) / 20, (br_ask d25 - br_ask d5) / 20),
           bf_replenishment = (flow_notional True Bid changes, flow_notional True Ask changes),
           bf_depletion = (- flow_notional False Bid changes, - flow_notional False Ask changes),
           bf_visible_flow = sum_list (map (\<lambda>(_, s, p, q). (if s = Bid then 1 else -1) * (p * q)) changes),
           bf_bids = take 50 (rev (sort_key fst (bk_bids bk))),
           bf_asks = take 50 (sort_key fst (bk_asks bk))\<rparr>)"

subsection \<open>Minute windows of second buckets\<close>

record ofi_reading =
  or_available :: bool
  or_source_ms :: "ms option"
  or_seconds :: nat
  or_events :: int
  or_epoch_contradiction :: bool
  or_l1 :: "dec option"
  or_norm_l1 :: "dec option"
  or_5bps :: "dec option"
  or_norm_5bps :: "dec option"
  or_10bps :: "dec option"
  or_norm_10bps :: "dec option"
  or_persistence :: "dec option"
  or_acceleration :: "dec option"
  or_mid_response :: "dec option"
  or_micro_response :: "dec option"
  or_strength :: "dec option"

definition ofi_base :: "ms option \<Rightarrow> ofi_reading" where
  "ofi_base source_ms =
     \<lparr>or_available = False, or_source_ms = source_ms, or_seconds = 0, or_events = 0,
      or_epoch_contradiction = False, or_l1 = None, or_norm_l1 = None, or_5bps = None,
      or_norm_5bps = None, or_10bps = None, or_norm_10bps = None, or_persistence = None,
      or_acceleration = None, or_mid_response = None, or_micro_response = None, or_strength = None\<rparr>"

definition sign_dec :: "dec \<Rightarrow> dec" where
  "sign_dec x = (if x > 0 then 1 else if x < 0 then -1 else 0)"

definition norm_by :: "dec \<Rightarrow> dec \<Rightarrow> dec option" where
  "norm_by amount depth = (if depth > 0 then Some (amount / depth) else None)"

definition rank_in :: "dec list \<Rightarrow> dec \<Rightarrow> dec" where
  "rank_in prior v = of_nat (length (filter (\<lambda>x. \<bar>x\<bar> \<le> \<bar>v\<bar>) prior)) / of_nat (length prior)"

definition minute_rows :: "ms \<Rightarrow> book \<Rightarrow> ofi_bucket list" where
  "minute_rows asof bk =
     filter (\<lambda>r. asof - 60000 < ob_second_ms r \<and> ob_second_ms r \<le> asof \<and> ob_source_ms r \<le> asof)
       (bk_ofi_buckets bk)"

text \<open>\<^verbatim>\<open>assess\<close>; the baseline holds earlier readings of both normalisations.\<close>

definition ofi_assess :: "book option \<Rightarrow> ms \<Rightarrow> (dec \<times> dec) list \<Rightarrow> ofi_reading" where
  "ofi_assess book asof prior =
     (case book of None \<Rightarrow> ofi_base None
      | Some bk \<Rightarrow>
          if \<not> book_fresh bk asof 5000 then ofi_base (Some (bk_event_ms bk))
          else
            let rows = minute_rows asof bk;
                base = (ofi_base (Some (bk_event_ms bk)))
                  \<lparr>or_seconds := length rows, or_events := sum_list (map ob_event_count rows)\<rparr>
            in if rows = [] then base
               else if list_ex (\<lambda>r. ob_epoch r \<noteq> bk_ofi_epoch bk) rows
               then base\<lparr>or_epoch_contradiction := True\<rparr>
               else
                 let ready = (length rows \<ge> 45 \<and> asof - ob_second_ms (last rows) \<le> 5000);
                     l1 = sum_list (map ob_l1_sum rows);
                     norm = (if list_all (\<lambda>r. ob_touch_depth r > 0) rows
                             then Some (l1 / mean (map ob_touch_depth rows)) else None);
                     a5 = sum_list (map ob_5bps_sum rows); d5 = mean (map ob_5bps_depth rows);
                     a10 = sum_list (map ob_10bps_sum rows); d10 = mean (map ob_10bps_depth rows);
                     early = map ob_l1_sum (filter (\<lambda>r. ob_second_ms r < asof - 30000) rows);
                     late = map ob_l1_sum (filter (\<lambda>r. ob_second_ms r \<ge> asof - 30000) rows)
                 in base\<lparr>or_available := ready, or_source_ms := Some (ob_source_ms (last rows)),
                      or_l1 := Some l1, or_norm_l1 := norm,
                      or_5bps := Some a5, or_norm_5bps := norm_by a5 d5,
                      or_10bps := Some a10, or_norm_10bps := norm_by a10 d10,
                      or_persistence := Some (\<bar>sum_list (map (sign_dec \<circ> ob_l1_sum) rows)\<bar> / of_nat (length rows)),
                      or_acceleration := (if early \<noteq> [] \<and> late \<noteq> [] then Some (mean late - mean early) else None),
                      or_mid_response := Some ((ob_mid_close (last rows) / ob_mid_open (hd rows) - 1) * 10000),
                      or_micro_response :=
                        Some ((ob_microprice_close (last rows) / ob_microprice_open (hd rows) - 1) * 10000),
                      or_strength :=
                        (case (norm, norm_by a5 d5) of
                           (Some n1, Some n5) \<Rightarrow>
                             if ready \<and> length prior \<ge> 20
                             then Some (min (rank_in (map fst prior) n1) (rank_in (map snd prior) n5)) else None
                         | _ \<Rightarrow> None)\<rparr>)"

subsection \<open>Event windows\<close>

record event_band =
  eb_raw :: dec
  eb_norm :: "dec option"
  eb_directional :: "dec option"
  eb_persistence :: "dec option"
  eb_acceleration :: "dec option"
  eb_depth :: "dec option"

record event_window =
  ew_ready :: bool
  ew_seconds :: nat
  ew_start :: ms
  ew_end :: ms
  ew_events :: int
  ew_touch :: event_band
  ew_5bps :: event_band
  ew_10bps :: event_band
  ew_25bps :: event_band

datatype event_state = Unavailable | Gapped | Stale | Warming | Ready

record event_reading =
  er_state :: event_state
  er_reason :: "string option"
  er_complete :: bool
  er_source_ms :: "ms option"
  er_windows :: "(int \<times> event_window) list"

definition event_rows :: "ms \<Rightarrow> book \<Rightarrow> ofi_bucket list" where
  "event_rows asof bk =
     filter (\<lambda>r. ob_event_epoch r = Some (bk_event_ofi_epoch bk)
        \<and> ob_second_ms r > bucket_start 1000 (bk_event_ofi_start_ms bk)
        \<and> ob_last_receipt_ms r \<le> asof \<and> ob_source_ms r \<le> asof) (bk_ofi_buckets bk)"

definition event_band ::
    "direction \<Rightarrow> ms \<Rightarrow> int \<Rightarrow> (ofi_bucket \<Rightarrow> dec) \<Rightarrow> (ofi_bucket \<Rightarrow> dec) \<Rightarrow> ofi_bucket list \<Rightarrow> event_band" where
  "event_band dir asof seconds val dep selected =
     (let raw = sum_list (map val selected);
          depths = filter (\<lambda>d. d > 0) (map dep selected);
          depth = (if length depths = length selected \<and> depths \<noteq> [] then Some (mean depths) else None);
          norm = (case depth of None \<Rightarrow> None | Some d \<Rightarrow> if d \<noteq> 0 then Some (raw / d) else None);
          half = (\<lambda>late. map (\<lambda>r. val r / dep r)
            (filter (\<lambda>r. (ob_second_ms r \<ge> asof - seconds * 500) = late \<and> dep r > 0) selected))
      in \<lparr>eb_raw = raw, eb_norm = norm,
          eb_directional = map_option (\<lambda>n. sign_of dir * n) norm,
          eb_persistence = (if selected \<noteq> []
            then Some (\<bar>sum_list (map (sign_dec \<circ> val) selected)\<bar> / of_nat (length selected)) else None),
          eb_acceleration = (if half False \<noteq> [] \<and> half True \<noteq> []
            then Some (mean (half True) - mean (half False)) else None),
          eb_depth = depth\<rparr>)"

definition event_window :: "direction \<Rightarrow> ms \<Rightarrow> book \<Rightarrow> ofi_bucket list \<Rightarrow> int \<Rightarrow> event_window" where
  "event_window dir asof bk rows seconds =
     (let stop = bucket_start 1000 asof; start = stop - seconds * 1000;
          selected = filter (\<lambda>r. start \<le> ob_second_ms r \<and> ob_second_ms r < stop) rows;
          events = sum_list (map ob_event_count selected);
          ready = (of_nat (length selected) \<ge> \<lceil>of_int seconds * (75 / 100 :: dec)\<rceil>
            \<and> bk_event_ofi_start_ms bk \<le> start
            \<and> events \<ge> (if seconds \<ge> 15 then 5 else 1)
            \<and> selected \<noteq> [] \<and> asof - ob_last_receipt_ms (last selected) \<le> min 5000 (seconds * 1000));
          band = (\<lambda>v d. event_band dir asof seconds v d selected)
      in \<lparr>ew_ready = ready, ew_seconds = length selected, ew_start = start, ew_end = stop, ew_events = events,
          ew_touch = band ob_l1_sum ob_touch_depth, ew_5bps = band ob_5bps_sum ob_5bps_depth,
          ew_10bps = band ob_10bps_sum ob_10bps_depth, ew_25bps = band ob_25bps_sum ob_25bps_depth\<rparr>)"

definition event_assess :: "book option \<Rightarrow> ms \<Rightarrow> direction \<Rightarrow> event_reading" where
  "event_assess book asof dir =
     (let nothing = (\<lambda>st why. \<lparr>er_state = st, er_reason = why, er_complete = False, er_source_ms = None, er_windows = []\<rparr>) in
      case book of None \<Rightarrow> nothing Unavailable None
      | Some bk \<Rightarrow>
          if \<not> bk_valid bk then nothing Gapped None
          else if \<not> book_fresh bk asof 5000 then nothing Stale None
          else if bk_event_ms bk > asof \<or> bk_receipt_ms bk > asof then nothing Unavailable (Some ''FUTURE_TIMESTAMP'')
          else
            let rows = event_rows asof bk; sixty = event_window dir asof bk rows 60 in
            \<lparr>er_state = (if ew_ready sixty then Ready else Warming),
             er_reason = Some (if ew_ready sixty then ''Observed continuous quote events''
                               else ''Insufficient continuous observed quote seconds''),
             er_complete = ew_ready sixty,
             er_source_ms = (if rows \<noteq> [] then Some (ob_source_ms (last rows)) else None),
             er_windows = map (\<lambda>s. (s, event_window dir asof bk rows s)) [1, 5, 15, 30, 60]\<rparr>)"

subsection \<open>Bounds of the readings\<close>

lemma depth_filter_mono:
  "pos_levels ls \<Longrightarrow> (\<And>p q. P (p, q) \<Longrightarrow> Q (p, q)) \<Longrightarrow>
   depth_notional (filter P ls) \<le> depth_notional (filter Q ls)"
proof (induction ls)
  case (Cons l ls)
  obtain p q where l: "l = (p, q)" by fastforce
  have "pos_levels ls" and pq: "0 < p * q" using Cons.prems(1) l by simp_all
  then have rest: "depth_notional (filter P ls) \<le> depth_notional (filter Q ls)"
    using Cons.IH Cons.prems(2) by blast
  have imp: "P l \<Longrightarrow> Q l" using Cons.prems(2) l by blast
  show ?case
  proof (cases "P l = Q l")
    case True with rest l show ?thesis by (cases "Q l") simp_all
  next
    case False
    then have "\<not> P l" "Q l" using imp by blast+
    with rest pq l show ?thesis by simp
  qed
qed simp

lemma pos_levels_filter: "pos_levels ls \<Longrightarrow> pos_levels (filter P ls)"
  by (auto simp: pos_levels_def)

lemma imbalance_bound: "0 \<le> b \<Longrightarrow> 0 \<le> a \<Longrightarrow> \<bar>(if b + a \<noteq> 0 then (b - a) / (b + a) else 0 :: dec)\<bar> \<le> 1"
  by (auto simp: abs_le_iff divide_simps add_nonneg_eq_0_iff)

lemma band_reading_bounds:
  assumes "pos_levels (bk_bids bk)" "pos_levels (bk_asks bk)"
  shows "\<bar>br_imbalance (band_reading bk mid bps)\<bar> \<le> 1 \<and> 0 \<le> br_bid (band_reading bk mid bps)
    \<and> 0 \<le> br_ask (band_reading bk mid bps)"
  using imbalance_bound depth_notional_nonneg pos_levels_filter assms
  by (simp add: band_reading_def Let_def)

lemma band_reading_mono:
  assumes "pos_levels (bk_bids bk)" "pos_levels (bk_asks bk)" "x \<le> y" "0 < mid"
  shows "br_bid (band_reading bk mid x) \<le> br_bid (band_reading bk mid y)
    \<and> br_ask (band_reading bk mid x) \<le> br_ask (band_reading bk mid y)"
proof -
  have lo: "mid * (1 - y / 10000) \<le> mid * (1 - x / 10000)" and hi: "mid * (1 + x / 10000) \<le> mid * (1 + y / 10000)"
    using assms(3,4) by (auto intro!: mult_left_mono)
  show ?thesis
    unfolding band_reading_def Let_def
    by (auto intro!: depth_filter_mono assms(1,2) intro: order_trans [OF lo] order_trans [OF _ hi])
qed

lemma micro_price_between:
  assumes "0 < bq" "0 < aq" "bid < ask"
  shows "bid < micro_price bid bq ask aq \<and> micro_price bid bq ask aq < ask"
proof -
  have "bid * (bq + aq) < ask * bq + bid * aq" "ask * bq + bid * aq < ask * (bq + aq)"
    using mult_strict_right_mono [OF assms(3,1)] mult_strict_right_mono [OF assms(3,2)]
    by (simp_all add: distrib_left)
  moreover have "0 < bq + aq" using assms by simp
  ultimately show ?thesis by (simp add: micro_price_def pos_less_divide_eq pos_divide_less_eq)
qed

lemma best_qty_pos:
  assumes "book_inv bk" "bk_valid bk"
  shows "0 < level_qty (bk_bids bk) (best_bid bk) \<and> 0 < level_qty (bk_asks bk) (best_ask bk)"
proof -
  have qty: "0 < level_qty ls p" if ok: "levels_ok ls" and mem: "p \<in> set (map fst ls)" for ls p
  proof -
    obtain q where q: "map_of ls p = Some q" using mem by (metis list.set_map map_of_eq_None_iff not_None_eq)
    have "0 < q" using ok map_of_SomeD [OF q] by (auto simp: levels_ok_def)
    with q show ?thesis by (simp add: level_qty_def)
  qed
  have "bk_bids bk \<noteq> []" "bk_asks bk \<noteq> []" using assms by (auto simp: book_inv_def crossed_or_empty_def)
  then have "best_bid bk \<in> set (map fst (bk_bids bk))" "best_ask bk \<in> set (map fst (bk_asks bk))"
    unfolding best_bid_def best_ask_def by (auto intro!: Max_in Min_in)
  with qty assms(1) show ?thesis by (simp add: book_inv_def)
qed

text \<open>
  The readings of a valid, well-formed book are meaningful: the spread is
  positive, the microprice lies strictly inside it, every imbalance stays within one, and the
  depth of a wider band contains the depth of a narrower one, so both slopes are non-negative.
\<close>

theorem features_bounded:
  assumes "book_inv bk" and "features now bk = Some f"
  shows "0 < bf_spread_bps f \<and> best_bid bk < bf_microprice f \<and> bf_microprice f < best_ask bk
    \<and> \<bar>bf_obi_touch f\<bar> \<le> 1 \<and> \<bar>br_imbalance (bf_5 f)\<bar> \<le> 1 \<and> \<bar>br_imbalance (bf_25 f)\<bar> \<le> 1
    \<and> br_bid (bf_5 f) \<le> br_bid (bf_10 f) \<and> br_bid (bf_10 f) \<le> br_bid (bf_25 f)
    \<and> br_ask (bf_5 f) \<le> br_ask (bf_10 f) \<and> br_ask (bf_10 f) \<le> br_ask (bf_25 f)
    \<and> 0 \<le> fst (bf_slope f) \<and> 0 \<le> snd (bf_slope f)"
proof -
  let ?mid = "(best_bid bk + best_ask bk) / 2"
  have v: "bk_valid bk" using assms(2) by (auto simp: features_def split: if_splits)
  have p: "0 < best_bid bk" "best_bid bk < best_ask bk" using best_pos [OF assms(1) v] by auto
  then have mid: "0 < ?mid" by simp
  have q: "0 < level_qty (bk_bids bk) (best_bid bk)" "0 < level_qty (bk_asks bk) (best_ask bk)"
    using best_qty_pos [OF assms(1) v] by auto
  have pos: "pos_levels (bk_bids bk)" "pos_levels (bk_asks bk)"
    using assms(1) by (auto simp: book_inv_def levels_ok_def pos_levels_def)
  have f: "bf_spread_bps f = (best_ask bk - best_bid bk) / ?mid * 10000"
    "bf_microprice f = micro_price (best_bid bk) (level_qty (bk_bids bk) (best_bid bk)) (best_ask bk)
       (level_qty (bk_asks bk) (best_ask bk))"
    "bf_obi_touch f = (level_qty (bk_bids bk) (best_bid bk) - level_qty (bk_asks bk) (best_ask bk))
       / (level_qty (bk_bids bk) (best_bid bk) + level_qty (bk_asks bk) (best_ask bk))"
    "bf_5 f = band_reading bk ?mid 5" "bf_10 f = band_reading bk ?mid 10" "bf_25 f = band_reading bk ?mid 25"
    "bf_slope f = ((br_bid (bf_25 f) - br_bid (bf_5 f)) / 20, (br_ask (bf_25 f) - br_ask (bf_5 f)) / 20)"
    using assms(2) by (auto simp: features_def Let_def split: if_splits)
  have mono: "br_bid (bf_5 f) \<le> br_bid (bf_10 f)" "br_bid (bf_10 f) \<le> br_bid (bf_25 f)"
    "br_ask (bf_5 f) \<le> br_ask (bf_10 f)" "br_ask (bf_10 f) \<le> br_ask (bf_25 f)"
    using band_reading_mono [OF pos, of 5 10 ?mid] band_reading_mono [OF pos, of 10 25 ?mid] mid f by auto
  have "0 < bf_spread_bps f" using p mid by (simp add: f)
  moreover have "\<bar>bf_obi_touch f\<bar> \<le> 1"
    using q imbalance_bound [of "level_qty (bk_bids bk) (best_bid bk)" "level_qty (bk_asks bk) (best_ask bk)"]
    by (simp add: f)
  ultimately show ?thesis
    using micro_price_between [OF q p(2)] band_reading_bounds [OF pos] mono f by auto
qed

lemma features_bounded_witness:
  "\<exists>f. features 1000 sample_book = Some f \<and> best_bid sample_book < bf_microprice f
    \<and> bf_microprice f < best_ask sample_book \<and> \<bar>bf_obi_touch f\<bar> \<le> 1 \<and> 0 \<le> fst (bf_slope f)"
proof -
  have b: "book_inv sample_book" "bk_valid sample_book" using sample_book_sound by auto
  then obtain f where f: "features 1000 sample_book = Some f" by (auto simp: features_def Let_def)
  from features_bounded [OF b(1) f] f show ?thesis by blast
qed

definition known_by :: "ms \<Rightarrow> book \<Rightarrow> book" where
  "known_by asof bk =
     bk\<lparr>bk_ofi_buckets := filter (\<lambda>r. ob_source_ms r \<le> asof \<and> ob_last_receipt_ms r \<le> asof) (bk_ofi_buckets bk)\<rparr>"

definition past_sources :: "ms \<Rightarrow> book \<Rightarrow> book" where
  "past_sources asof bk = bk\<lparr>bk_ofi_buckets := filter (\<lambda>r. ob_source_ms r \<le> asof) (bk_ofi_buckets bk)\<rparr>"

text \<open>
  Both order-flow assessments as of a time read only buckets that were
  complete by then: removing every bucket whose events or receipts lie later changes nothing.
\<close>

theorem ofi_no_lookahead:
  "event_assess (Some (known_by asof bk)) asof dir = event_assess (Some bk) asof dir
   \<and> ofi_assess (Some (past_sources asof bk)) asof prior = ofi_assess (Some bk) asof prior"
proof -
  have rows: "event_rows asof (known_by asof bk) = event_rows asof bk"
    "minute_rows asof (past_sources asof bk) = minute_rows asof bk"
    by (auto simp: event_rows_def minute_rows_def known_by_def past_sources_def intro!: filter_cong)
  have win: "event_window dir asof (known_by asof bk) = event_window dir asof bk"
    by (simp add: fun_eq_iff event_window_def known_by_def)
  have same: "bk_valid (known_by asof bk) = bk_valid bk" "book_fresh (known_by asof bk) asof 5000 = book_fresh bk asof 5000"
    "bk_event_ms (known_by asof bk) = bk_event_ms bk" "bk_receipt_ms (known_by asof bk) = bk_receipt_ms bk"
    "book_fresh (past_sources asof bk) asof 5000 = book_fresh bk asof 5000"
    "bk_event_ms (past_sources asof bk) = bk_event_ms bk" "bk_ofi_epoch (past_sources asof bk) = bk_ofi_epoch bk"
    by (simp_all add: known_by_def past_sources_def book_fresh_def)
  have "event_assess (Some (known_by asof bk)) asof dir = event_assess (Some bk) asof dir"
    unfolding event_assess_def option.case same rows win ..
  moreover have "ofi_assess (Some (past_sources asof bk)) asof prior = ofi_assess (Some bk) asof prior"
    unfolding ofi_assess_def option.case same rows ..
  ultimately show ?thesis by (rule conjI)
qed

end
