(* ===== verification/Footprint.thy ===== *)
theory Footprint imports Ofi "HOL-Library.Product_Lexorder" "HOL-Library.Multiset" begin

text \<open>
  Executed-flow analysis of a window of trades: \<^verbatim>\<open>value_area\<close> and
  \<^verbatim>\<open>footprint\<close> of \<^verbatim>\<open>src/bybit_flow/orderflow.py\<close>. Price
  levels are numbered by their multiple of the bucket; the two sums of a level are the base
  sizes bought and sold there.
\<close>

subsection \<open>Value area\<close>

record value_area =
  va_poc :: dec
  va_val :: dec
  va_vah :: dec

text \<open>
  \<^verbatim>\<open>max(range(n), key=(volume, -price))\<close>: the first index with the largest key;
  prices ascend, so on equal volume the lower price wins.
\<close>

function poc_scan :: "dec list \<Rightarrow> nat \<Rightarrow> nat \<Rightarrow> nat" where
  "poc_scan vols best i =
     (if i \<ge> length vols then best
      else poc_scan vols (if vols ! i > vols ! best then i else best) (Suc i))"

  by pat_completeness auto

termination
  by (relation "measure (\<lambda>(vols, best, i). length vols - i)") auto

declare poc_scan.simps [simp del]

text \<open>
  Volumes are sums of trade sizes; the branches that would need a volume below zero stop the loop.
\<close>

function va_loop :: "dec list \<Rightarrow> dec \<Rightarrow> nat \<Rightarrow> nat \<Rightarrow> dec \<Rightarrow> nat \<times> nat \<times> dec" where
  "va_loop vols target lo hi covered =
     (if covered < target \<and> (lo > 0 \<or> hi < length vols - 1) then
        (let lv = (if lo > 0 then vols ! (lo - 1) else -1);
             hv = (if hi < length vols - 1 then vols ! (hi + 1) else -1)
         in if lv \<ge> hv then
              (if lo > 0 then va_loop vols target (lo - 1) hi (covered + vols ! (lo - 1))
               else (lo, hi, covered))
            else if hi < length vols - 1
            then va_loop vols target lo (hi + 1) (covered + vols ! (hi + 1))
            else (lo, hi, covered))
      else (lo, hi, covered))"
  by pat_completeness auto

termination
  by (relation "measure (\<lambda>(vols, target, lo, hi, covered). lo + (length vols - hi))")
    (auto simp: Let_def split: if_splits)

declare va_loop.simps [simp del]

definition value_area :: "(dec \<times> dec) list \<Rightarrow> dec \<Rightarrow> py_error + value_area option" where
  "value_area levels fraction =
     (if \<not> (0 < fraction \<and> fraction \<le> 1) then Inl (ValueError ''Invalid value area fraction'')
      else if levels = [] then Inr None
      else
        let rows = sort_key fst levels; prices = map fst rows; vols = map snd rows;
            poc = poc_scan vols 0 1;
            (lo, hi, _) = va_loop vols (sum_list vols * fraction) poc poc (vols ! poc)
        in Inr (Some \<lparr>va_poc = prices ! poc, va_val = prices ! lo, va_vah = prices ! hi\<rparr>))"

text \<open>Volume held by a range of levels.\<close>

definition range_volume :: "dec list \<Rightarrow> nat \<Rightarrow> nat \<Rightarrow> dec" where
  "range_volume vols lo hi = sum_list (take (Suc hi - lo) (drop lo vols))"

lemma range_volume_single: "i < length vols \<Longrightarrow> range_volume vols i i = vols ! i"
  by (simp add: range_volume_def take_Suc_conv_app_nth)

lemma range_volume_left:
  assumes "0 < lo" "lo \<le> hi" "hi < length vols"
  shows "range_volume vols (lo - 1) hi = vols ! (lo - 1) + range_volume vols lo hi"
proof -
  have "drop (lo - 1) vols = vols ! (lo - 1) # drop lo vols"
    using assms by (metis Cons_nth_drop_Suc Suc_diff_1 less_imp_diff_less order_le_less_trans)
  moreover have "Suc hi - (lo - 1) = Suc (Suc hi - lo)" using assms by simp
  ultimately show ?thesis by (simp add: range_volume_def)
qed

lemma range_volume_right:
  assumes "lo \<le> hi" "Suc hi < length vols"
  shows "range_volume vols lo (Suc hi) = range_volume vols lo hi + vols ! Suc hi"
proof -
  have "Suc (Suc hi) - lo = Suc (Suc hi - lo)" using assms by simp
  then have "take (Suc (Suc hi) - lo) (drop lo vols)
      = take (Suc hi - lo) (drop lo vols) @ [drop lo vols ! (Suc hi - lo)]"
    using assms by (simp add: take_Suc_conv_app_nth)
  then show ?thesis using assms by (simp add: range_volume_def)
qed

lemma range_volume_all: "vols \<noteq> [] \<Longrightarrow> range_volume vols 0 (length vols - 1) = sum_list vols"
  by (simp add: range_volume_def)

lemma va_loop_spec:
  assumes "lo \<le> poc" "poc \<le> hi" "hi < length vols" "covered = range_volume vols lo hi"
    and "\<forall>v \<in> set vols. 0 \<le> v"
  shows "case va_loop vols target lo hi covered of (lo', hi', c) \<Rightarrow>
     lo' \<le> poc \<and> poc \<le> hi' \<and> hi' < length vols \<and> c = range_volume vols lo' hi'
     \<and> (c \<ge> target \<or> (lo' = 0 \<and> hi' = length vols - 1))"
  using assms
proof (induction vols target lo hi covered rule: va_loop.induct)
  case (1 vols target lo hi covered)
  let ?lv = "if lo > 0 then vols ! (lo - 1) else -1"
  let ?hv = "if hi < length vols - 1 then vols ! (hi + 1) else -1"
  show ?case
  proof (cases "covered < target \<and> (lo > 0 \<or> hi < length vols - 1)")
    case False
    with "1.prems" show ?thesis by (subst va_loop.simps) auto
  next
    case go: True
    show ?thesis
    proof (cases "?lv \<ge> ?hv")
      case True
      have lo: "lo > 0"
      proof (rule ccontr)
        assume "\<not> lo > 0"
        with go True have "vols ! (hi + 1) \<le> -1" by auto
        moreover have "0 \<le> vols ! (hi + 1)" using "1.prems" go \<open>\<not> lo > 0\<close> by auto
        ultimately show False by simp
      qed
      have step: "va_loop vols target lo hi covered
          = va_loop vols target (lo - 1) hi (covered + vols ! (lo - 1))"
        using go True lo by (subst va_loop.simps) (simp add: Let_def)
      have "covered + vols ! (lo - 1) = range_volume vols (lo - 1) hi"
        using "1.prems" lo range_volume_left [of lo hi vols] by (simp add: add.commute)
      then show ?thesis
        unfolding step using "1.IH"(1) [OF go refl refl True lo] "1.prems" lo by auto
    next
      case False
      have hi: "hi < length vols - 1"
      proof (rule ccontr)
        assume nh: "\<not> hi < length vols - 1"
        with go have "lo > 0" by simp
        then have "0 \<le> vols ! (lo - 1)" using "1.prems" by auto
        with False nh \<open>lo > 0\<close> show False by simp
      qed
      have step: "va_loop vols target lo hi covered
          = va_loop vols target lo (hi + 1) (covered + vols ! (hi + 1))"
        using go False hi by (subst va_loop.simps) (simp add: Let_def)
      have "covered + vols ! (hi + 1) = range_volume vols lo (hi + 1)"
        using "1.prems" hi range_volume_right [of lo hi vols] by simp
      then show ?thesis
        unfolding step using "1.IH"(2) [OF go refl refl False hi] "1.prems" hi by auto
    qed
  qed
qed

lemma poc_scan_spec:
  assumes "best < length vols" "best < i" "\<forall>j < i. j < length vols \<longrightarrow> vols ! j \<le> vols ! best"
  shows "poc_scan vols best i < length vols \<and> (\<forall>j < length vols. vols ! j \<le> vols ! poc_scan vols best i)"
  using assms
proof (induction vols best i rule: poc_scan.induct)
  case (1 vols best i)
  show ?case
  proof (cases "i \<ge> length vols")
    case True
    with "1.prems" show ?thesis by (subst (1 2) poc_scan.simps) auto
  next
    case False
    let ?b = "if vols ! i > vols ! best then i else best"
    have "\<forall>j < Suc i. j < length vols \<longrightarrow> vols ! j \<le> vols ! ?b"
      using "1.prems"(3) by (force simp: less_Suc_eq)
    then have "poc_scan vols ?b (Suc i) < length vols
        \<and> (\<forall>j < length vols. vols ! j \<le> vols ! poc_scan vols ?b (Suc i))"
      using "1.IH" [OF False] "1.prems" False by auto
    then show ?thesis using False by (subst (1 2) poc_scan.simps) simp
  qed
qed

text \<open>
  On non-negative volumes the value area is a contiguous range of levels
  around a level of largest volume, and it holds at least the requested fraction of the whole
  volume.
\<close>

theorem value_area_covers:
  assumes "0 < fraction" and "fraction \<le> 1" and "levels \<noteq> []" and "\<forall>(p, v) \<in> set levels. 0 \<le> v"
  shows "\<exists>va lo poc hi. value_area levels fraction = Inr (Some va)
    \<and> lo \<le> poc \<and> poc \<le> hi \<and> hi < length levels
    \<and> va_val va = map fst (sort_key fst levels) ! lo \<and> va_vah va = map fst (sort_key fst levels) ! hi
    \<and> va_poc va = map fst (sort_key fst levels) ! poc
    \<and> (\<forall>(p, v) \<in> set levels. v \<le> map snd (sort_key fst levels) ! poc)
    \<and> sum_list (map snd levels) * fraction \<le> range_volume (map snd (sort_key fst levels)) lo hi"
proof -
  let ?rows = "sort_key fst levels"
  let ?vols = "map snd ?rows"
  let ?poc = "poc_scan ?vols 0 1"
  have len: "length ?vols = length levels" "?vols \<noteq> []" using assms(3) by (auto dest: arg_cong [where f = length])
  have nonneg: "\<forall>v \<in> set ?vols. 0 \<le> v" using assms(4) by auto
  have poc: "?poc < length ?vols" "\<forall>j < length ?vols. ?vols ! j \<le> ?vols ! ?poc"
    using poc_scan_spec [of 0 ?vols 1] len assms(3) by auto
  obtain lo hi c where loop: "va_loop ?vols (sum_list ?vols * fraction) ?poc ?poc (?vols ! ?poc) = (lo, hi, c)"
    by (metis prod_cases3)
  have spec: "lo \<le> ?poc" "?poc \<le> hi" "hi < length ?vols" "c = range_volume ?vols lo hi"
    "c \<ge> sum_list ?vols * fraction \<or> (lo = 0 \<and> hi = length ?vols - 1)"
    using va_loop_spec [of ?poc ?poc ?poc ?vols "?vols ! ?poc" "sum_list ?vols * fraction"] poc nonneg loop
    by (auto simp: range_volume_single)
  have total: "sum_list ?vols = sum_list (map snd levels)"
    by (metis mset_map mset_sort sum_mset_sum_list)
  have "0 \<le> sum_list ?vols" by (rule sum_list_nonneg) (use nonneg in blast)
  then have "sum_list ?vols * fraction \<le> sum_list ?vols" using assms(2) by (simp add: mult_left_le)
  then have "sum_list ?vols * fraction \<le> range_volume ?vols lo hi"
    using spec(4,5) range_volume_all [OF len(2)] by auto
  moreover have "\<forall>(p, v) \<in> set levels. v \<le> ?vols ! ?poc"
  proof (clarify)
    fix p v assume "(p, v) \<in> set levels"
    then have "v \<in> set ?vols" by force
    then obtain j where "j < length ?vols" "?vols ! j = v" by (metis in_set_conv_nth)
    with poc(2) show "v \<le> ?vols ! ?poc" by auto
  qed
  moreover have "value_area levels fraction = Inr (Some \<lparr>va_poc = map fst ?rows ! ?poc,
      va_val = map fst ?rows ! lo, va_vah = map fst ?rows ! hi\<rparr>)"
    using assms loop by (simp add: value_area_def Let_def)
  ultimately show ?thesis using spec(1-3) total len
    by (intro exI [of _ "\<lparr>va_poc = map fst ?rows ! ?poc, va_val = map fst ?rows ! lo,
        va_vah = map fst ?rows ! hi\<rparr>"] exI [of _ lo] exI [of _ ?poc] exI [of _ hi]) simp
qed

definition sample_profile :: "(dec \<times> dec) list" where
  "sample_profile = [(10, 5), (11, 9), (12, 2)]"

lemma value_area_covers_witness:
  "\<exists>va lo poc hi. value_area sample_profile (7 / 10) = Inr (Some va)
    \<and> lo \<le> poc \<and> poc \<le> hi \<and> hi < length sample_profile
    \<and> va_val va = map fst (sort_key fst sample_profile) ! lo
    \<and> va_vah va = map fst (sort_key fst sample_profile) ! hi
    \<and> va_poc va = map fst (sort_key fst sample_profile) ! poc
    \<and> (\<forall>(p, v) \<in> set sample_profile. v \<le> map snd (sort_key fst sample_profile) ! poc)
    \<and> sum_list (map snd sample_profile) * (7 / 10)
        \<le> range_volume (map snd (sort_key fst sample_profile)) lo hi"
  by (rule value_area_covers) (auto simp: sample_profile_def)

subsection \<open>Footprint\<close>

definition median :: "dec list \<Rightarrow> dec" where
  "median xs =
     (let ys = sort xs; n = length ys in
      if n mod 2 = 1 then ys ! (n div 2) else (ys ! (n div 2 - 1) + ys ! (n div 2)) / 2)"

definition floor_index :: "dec \<Rightarrow> dec \<Rightarrow> int" where
  "floor_index bucket x = \<lfloor>x / bucket\<rfloor>"

definition fp_bucket :: "dec \<Rightarrow> dec \<Rightarrow> dec" where
  "fp_bucket tick atr = max tick (of_int \<lfloor>atr / 100 / tick\<rfloor> * tick)"

type_synonym fp_levels = "(int \<times> dec \<times> dec) list"

definition add_size :: "dec \<Rightarrow> trade \<Rightarrow> fp_levels \<Rightarrow> fp_levels" where
  "add_size bucket t levels =
     (let k = floor_index bucket (tr_price t); size = tr_size t;
          (b, s) = (case map_of levels k of None \<Rightarrow> (0, 0) | Some v \<Rightarrow> v)
      in AList.update k (if tr_side t = Buy then (b + size, s) else (b, s + size)) levels)"

record fp_flow =
  ff_levels :: fp_levels
  ff_buy :: dec
  ff_sell :: dec
  ff_buy_n :: dec
  ff_sell_n :: dec
  ff_cvd :: dec
  ff_path :: "(ms \<times> dec) list"

definition flow_step :: "dec \<Rightarrow> trade \<Rightarrow> fp_flow \<Rightarrow> fp_flow" where
  "flow_step bucket t f =
     (let size = tr_size t; notional = tr_size t * tr_price t; buys = (tr_side t = Buy);
          cvd = ff_cvd f + (if buys then size else - size)
      in \<lparr>ff_levels = add_size bucket t (ff_levels f),
          ff_buy = ff_buy f + (if buys then size else 0),
          ff_sell = ff_sell f + (if buys then 0 else size),
          ff_buy_n = ff_buy_n f + (if buys then notional else 0),
          ff_sell_n = ff_sell_n f + (if buys then 0 else notional),
          ff_cvd = cvd, ff_path = ff_path f @ [(tr_event_ms t, cvd)]\<rparr>)"

definition flow_of :: "dec \<Rightarrow> trade list \<Rightarrow> fp_flow" where
  "flow_of bucket ts = fold (flow_step bucket) ts
     \<lparr>ff_levels = [], ff_buy = 0, ff_sell = 0, ff_buy_n = 0, ff_sell_n = 0, ff_cvd = 0, ff_path = []\<rparr>"

text \<open>The scan for stacked imbalances over ascending price levels.\<close>

record fp_stack =
  fs_previous :: "int option"
  fs_buy :: nat
  fs_sell :: nat
  fs_max_buy :: nat
  fs_max_sell :: nat
  fs_imbalances :: "(int \<times> bool \<times> bool) list"

definition level_of :: "fp_levels \<Rightarrow> int \<Rightarrow> dec \<times> dec" where
  "level_of levels k = (case map_of levels k of None \<Rightarrow> (0, 0) | Some v \<Rightarrow> v)"

definition stack_step :: "fp_levels \<Rightarrow> dec \<Rightarrow> dec \<Rightarrow> int \<Rightarrow> fp_stack \<Rightarrow> fp_stack" where
  "stack_step levels floor_size ratio k st =
     (let adjacent = (fs_previous st = Some (k - 1));
          (b, s) = level_of levels k;
          below = snd (level_of levels (k - 1)); above = fst (level_of levels (k + 1));
          ib = (below \<ge> floor_size \<and> b \<ge> ratio * below);
          iss = (above \<ge> floor_size \<and> s \<ge> ratio * above);
          nb = (if ib then (if adjacent then fs_buy st else 0) + 1 else 0);
          ns = (if iss then (if adjacent then fs_sell st else 0) + 1 else 0)
      in \<lparr>fs_previous = Some k, fs_buy = nb, fs_sell = ns,
          fs_max_buy = max (fs_max_buy st) nb, fs_max_sell = max (fs_max_sell st) ns,
          fs_imbalances = (if ib \<or> iss then fs_imbalances st @ [(k, ib, iss)] else fs_imbalances st)\<rparr>)"

definition stacks :: "fp_levels \<Rightarrow> dec \<Rightarrow> dec \<Rightarrow> fp_stack" where
  "stacks levels floor_size ratio =
     fold (stack_step levels floor_size ratio) (sort (map fst levels))
       \<lparr>fs_previous = None, fs_buy = 0, fs_sell = 0, fs_max_buy = 0, fs_max_sell = 0, fs_imbalances = []\<rparr>"

text \<open>
  Defended additions: a visible addition that aggressive opposite trades met within two seconds
  and one bucket. The code bisects a receipt-sorted index; here is the same walk.
\<close>

definition receipt_series :: "dec \<Rightarrow> trade list \<Rightarrow> side \<Rightarrow> int \<Rightarrow> (ms \<times> dec) list" where
  "receipt_series bucket ts sd k =
     sort (map (\<lambda>t. (tr_receipt_ms t, tr_price t))
       (filter (\<lambda>t. tr_side t = sd \<and> py_trunc (tr_price t / bucket) = k) ts))"

definition bisect_left :: "(ms \<times> dec) list \<Rightarrow> ms \<times> dec \<Rightarrow> (ms \<times> dec) list" where
  "bisect_left xs x = dropWhile (\<lambda>y. y < x) xs"

definition addition_met :: "dec \<Rightarrow> trade list \<Rightarrow> ms \<Rightarrow> bside \<Rightarrow> dec \<Rightarrow> bool" where
  "addition_met bucket ts at_ms sd p =
     (let centre = py_trunc (p / bucket); aggressor = (if sd = Bid then Sell else Buy) in
      list_ex (\<lambda>k. list_ex (\<lambda>(r, price). \<bar>price - p\<bar> \<le> bucket)
          (takeWhile (\<lambda>(r, price). r \<le> at_ms)
             (bisect_left (receipt_series bucket ts aggressor k) (at_ms - 2000, 0))))
        [centre - 1, centre, centre + 1])"

definition defended :: "dec \<Rightarrow> trade list \<Rightarrow> (ms \<times> change) list \<Rightarrow> bside \<Rightarrow> dec" where
  "defended bucket ts changes sd =
     sum_list (map (\<lambda>(_, _, p, q). q * p)
       (filter (\<lambda>(at_ms, s, p, q). s = sd \<and> q > 0 \<and> addition_met bucket ts at_ms s p) changes))"

record footprint =
  fo_buy :: dec
  fo_sell :: dec
  fo_buy_n :: dec
  fo_sell_n :: dec
  fo_delta_base :: dec
  fo_delta_notional :: dec
  fo_delta_pct :: dec
  fo_cvd :: dec
  fo_vwap :: dec
  fo_average_size :: dec
  fo_large_count :: nat
  fo_trapped_buyers :: bool
  fo_trapped_sellers :: bool
  fo_unfinished_high :: bool
  fo_unfinished_low :: bool
  fo_hvn :: "dec list"
  fo_lvn :: "dec list"
  fo_bucket :: dec
  fo_ratio :: dec
  fo_floor :: dec
  fo_stacked_buy :: nat
  fo_stacked_sell :: nat
  fo_imbalances :: "(int \<times> bool \<times> bool) list"
  fo_profile :: fp_levels
  fo_value_area :: "value_area option"
  fo_defended_long :: dec
  fo_defended_short :: dec
  fo_absorption_long :: bool
  fo_absorption_short :: bool
  fo_initiative_long :: bool
  fo_initiative_short :: bool
  fo_divergence :: bool
  fo_trades :: nat
  fo_duration_ms :: ms
  fo_rate :: dec

definition level_total :: "fp_levels \<Rightarrow> (dec \<times> dec) list" where
  "level_total levels = map (\<lambda>(k, b, s). (of_int k, b + s)) levels"

definition footprint :: "trade list \<Rightarrow> dec \<Rightarrow> dec \<Rightarrow> book option \<Rightarrow> footprint option" where
  "footprint unsorted tick atr bk =
     (if unsorted = [] then None
      else
        let bucket = fp_bucket tick atr; ts = sort_key tr_event_ms unsorted;
            f = flow_of bucket ts; levels = ff_levels f;
            buy = ff_buy f; sell = ff_sell f; buy_n = ff_buy_n f; sell_n = ff_sell_n f;
            typical = median (map (\<lambda>(k, b, s). b + s) levels);
            floor_size = max (typical / 10) (1 / 1000000000000);
            first = hd ts; final = last ts;
            ratio = min 6 (max 3 (3 + atr / tr_price final * 100));
            st = stacks levels floor_size ratio;
            displacement = tr_price final - tr_price first;
            delta_pct = 100 * (buy - sell) / (buy + sell);
            changes = (case bk of None \<Rightarrow> [] | Some b \<Rightarrow> if bk_valid b then bk_changes b else []);
            dl = defended bucket ts changes Bid; ds = defended bucket ts changes Ask;
            vwap = (buy_n + sell_n) / (buy + sell);
            high = Max (tr_price ` set ts); low = Min (tr_price ` set ts);
            mean_size = (buy + sell) / of_nat (length ts);
            top = level_of levels (Max (fst ` set levels)); bottom = level_of levels (Min (fst ` set levels));
            area = (case value_area (level_total levels) (7 / 10) of
                      Inr (Some va) \<Rightarrow> Some \<lparr>va_poc = va_poc va * bucket, va_val = va_val va * bucket,
                                            va_vah = va_vah va * bucket\<rparr>
                    | _ \<Rightarrow> None);
            seconds = of_int (tr_event_ms final - tr_event_ms first) / 1000
        in Some
          \<lparr>fo_buy = buy, fo_sell = sell, fo_buy_n = buy_n, fo_sell_n = sell_n,
           fo_delta_base = buy - sell, fo_delta_notional = buy_n - sell_n, fo_delta_pct = delta_pct,
           fo_cvd = ff_cvd f, fo_vwap = vwap, fo_average_size = mean_size,
           fo_large_count = length (filter (\<lambda>t. tr_size t \<ge> 5 * mean_size) ts),
           fo_trapped_buyers = (delta_pct \<ge> 20 \<and> high - tr_price first \<ge> 3 / 10 * atr
             \<and> tr_price final < min (tr_price first) vwap),
           fo_trapped_sellers = (delta_pct \<le> -20 \<and> tr_price first - low \<ge> 3 / 10 * atr
             \<and> tr_price final > max (tr_price first) vwap),
           fo_unfinished_high = (fst top \<ge> floor_size \<and> snd top \<ge> floor_size),
           fo_unfinished_low = (fst bottom \<ge> floor_size \<and> snd bottom \<ge> floor_size),
           fo_hvn = map (\<lambda>(k, b, s). of_int k * bucket) (filter (\<lambda>(k, b, s). b + s \<ge> 15 / 10 * typical) levels),
           fo_lvn = map (\<lambda>(k, b, s). of_int k * bucket)
             (filter (\<lambda>(k, b, s). 0 < b + s \<and> b + s \<le> 5 / 10 * typical) levels),
           fo_bucket = bucket, fo_ratio = ratio, fo_floor = floor_size,
           fo_stacked_buy = fs_max_buy st, fo_stacked_sell = fs_max_sell st,
           fo_imbalances = fs_imbalances st, fo_profile = sort_key fst levels, fo_value_area = area,
           fo_defended_long = dl, fo_defended_short = ds,
           fo_absorption_long = (sell_n > 2 * buy_n \<and> \<bar>displacement\<bar> < 15 / 100 * atr \<and> dl > sell_n / 10),
           fo_absorption_short = (buy_n > 2 * sell_n \<and> \<bar>displacement\<bar> < 15 / 100 * atr \<and> ds > buy_n / 10),
           fo_initiative_long = (delta_pct \<ge> 20 \<and> displacement > 15 / 100 * atr),
           fo_initiative_short = (delta_pct \<le> -20 \<and> displacement < - (15 / 100 * atr)),
           fo_divergence = (displacement * (buy - sell) < 0), fo_trades = length ts,
           fo_duration_ms = tr_event_ms final - tr_event_ms first,
           fo_rate = of_nat (length ts) / max 1 seconds\<rparr>)"

subsection \<open>What the footprint sums up\<close>

definition sizes_at :: "dec \<Rightarrow> side \<Rightarrow> int \<Rightarrow> trade list \<Rightarrow> dec" where
  "sizes_at bucket sd k ts =
     sum_list (map tr_size (filter (\<lambda>t. tr_side t = sd \<and> floor_index bucket (tr_price t) = k) ts))"

definition sizes_of :: "side \<Rightarrow> trade list \<Rightarrow> dec" where
  "sizes_of sd ts = sum_list (map tr_size (filter (\<lambda>t. tr_side t = sd) ts))"

definition value_traded :: "side \<Rightarrow> trade list \<Rightarrow> dec" where
  "value_traded sd ts = sum_list (map (\<lambda>t. tr_size t * tr_price t) (filter (\<lambda>t. tr_side t = sd) ts))"

lemma flow_of_snoc: "flow_of bucket (ts @ [t]) = flow_step bucket t (flow_of bucket ts)"
  by (simp add: flow_of_def)

lemma level_of_add:
  "level_of (add_size bucket t levels) k =
     (if k = floor_index bucket (tr_price t)
      then (fst (level_of levels k) + (if tr_side t = Buy then tr_size t else 0),
            snd (level_of levels k) + (if tr_side t = Buy then 0 else tr_size t))
      else level_of levels k)"
  by (auto simp: level_of_def add_size_def Let_def update_conv' split: option.splits)

lemma flow_levels: "level_of (ff_levels (flow_of bucket ts)) k = (sizes_at bucket Buy k ts, sizes_at bucket Sell k ts)"
proof (induction ts rule: rev_induct)
  case Nil
  then show ?case by (simp add: flow_of_def level_of_def sizes_at_def)
next
  case (snoc t ts)
  then show ?case
    by (cases "tr_side t"; cases "k = floor_index bucket (tr_price t)")
      (auto simp: flow_of_snoc flow_step_def Let_def level_of_add sizes_at_def)
qed

lemma flow_sums:
  "ff_buy (flow_of bucket ts) = sizes_of Buy ts \<and> ff_sell (flow_of bucket ts) = sizes_of Sell ts
   \<and> ff_buy_n (flow_of bucket ts) = value_traded Buy ts \<and> ff_sell_n (flow_of bucket ts) = value_traded Sell ts
   \<and> ff_cvd (flow_of bucket ts) = sizes_of Buy ts - sizes_of Sell ts"
proof (induction ts rule: rev_induct)
  case Nil
  then show ?case by (simp add: flow_of_def sizes_of_def value_traded_def)
next
  case (snoc t ts)
  then show ?case
    by (cases "tr_side t") (simp_all add: flow_of_snoc flow_step_def Let_def sizes_of_def value_traded_def)
qed

lemma sizes_nonneg: "\<forall>t \<in> set ts. 0 < tr_size t \<Longrightarrow> 0 \<le> sizes_of sd ts"
  by (auto simp: sizes_of_def less_imp_le intro!: sum_list_nonneg)

lemma sizes_total: "sizes_of Buy ts + sizes_of Sell ts = sum_list (map tr_size ts)"
proof (induction ts)
  case (Cons t ts)
  then show ?case by (cases "tr_side t") (simp_all add: sizes_of_def)
qed (simp add: sizes_of_def)

lemma value_total:
  "value_traded Buy ts + value_traded Sell ts = sum_list (map (\<lambda>t. tr_size t * tr_price t) ts)"
proof (induction ts)
  case (Cons t ts)
  then show ?case by (cases "tr_side t") (simp_all add: value_traded_def)
qed (simp add: value_traded_def)

lemma sizes_total_pos: "ts \<noteq> [] \<Longrightarrow> \<forall>t \<in> set ts. 0 < tr_size t \<Longrightarrow> 0 < sum_list (map tr_size ts)"
proof (induction ts)
  case (Cons t ts)
  then show ?case by (cases "ts = []") (auto simp: add_pos_pos)
qed simp

lemma weighted_bounds:
  assumes "\<forall>t \<in> set ts. 0 < tr_size t \<and> low \<le> tr_price t \<and> tr_price t \<le> high"
  shows "low * sum_list (map tr_size ts) \<le> sum_list (map (\<lambda>t. tr_size t * tr_price t) ts)
    \<and> sum_list (map (\<lambda>t. tr_size t * tr_price t) ts) \<le> high * sum_list (map tr_size ts)"
  using assms
proof (induction ts)
  case (Cons t ts)
  then have "low * tr_size t \<le> tr_size t * tr_price t" "tr_size t * tr_price t \<le> high * tr_size t"
    by (auto simp: mult.commute mult_left_mono)
  with Cons show ?case by (simp add: distrib_left add_mono)
qed simp

lemma abs_ratio_le: "0 \<le> a \<Longrightarrow> 0 \<le> b \<Longrightarrow> 0 < a + b \<Longrightarrow> \<bar>100 * (a - b) / (a + b)\<bar> \<le> (100 :: dec)"
  by (simp add: divide_simps abs_le_iff)

text \<open>
  On well-formed trades the footprint neither loses nor invents volume: its
  base totals are the sizes bought and sold, cumulative delta is their difference, every price
  level holds exactly the sizes traded in its bucket, the percentage delta stays within one hundred
  and the volume-weighted price lies between the lowest and the highest trade.
\<close>

theorem footprint_conserves:
  assumes "footprint ts tick atr bk = Some fo" and "\<forall>t \<in> set ts. 0 < tr_size t \<and> 0 < tr_price t"
  shows "fo_buy fo + fo_sell fo = sum_list (map tr_size ts) \<and> fo_cvd fo = fo_buy fo - fo_sell fo
    \<and> (\<forall>k. level_of (fo_profile fo) k = (sizes_at (fo_bucket fo) Buy k ts, sizes_at (fo_bucket fo) Sell k ts))
    \<and> \<bar>fo_delta_pct fo\<bar> \<le> 100
    \<and> Min (tr_price ` set ts) \<le> fo_vwap fo \<and> fo_vwap fo \<le> Max (tr_price ` set ts)"
proof -
  define us where "us = sort_key tr_event_ms ts"
  let ?b = "fp_bucket tick atr"
  let ?f = "flow_of ?b us"
  have ne: "ts \<noteq> []" "us \<noteq> []" using assms(1) by (auto simp: footprint_def us_def dest: arg_cong [where f = length])
  have fo: "fo_buy fo = ff_buy ?f" "fo_sell fo = ff_sell ?f" "fo_cvd fo = ff_cvd ?f" "fo_bucket fo = ?b"
    "fo_profile fo = sort_key fst (ff_levels ?f)"
    "fo_delta_pct fo = 100 * (ff_buy ?f - ff_sell ?f) / (ff_buy ?f + ff_sell ?f)"
    "fo_vwap fo = (ff_buy_n ?f + ff_sell_n ?f) / (ff_buy ?f + ff_sell ?f)"
    using assms(1) by (auto simp: footprint_def Let_def us_def split: if_splits)
  have mset: "mset us = mset ts" and set: "set us = set ts" by (simp_all add: us_def)
  have perm: "sum_list (map g us) = sum_list (map g ts)" for g :: "trade \<Rightarrow> dec"
    using mset by (metis mset_map sum_mset_sum_list)
  have at: "sizes_at ?b sd k us = sizes_at ?b sd k ts" for sd k
    using mset by (metis (no_types, lifting) sizes_at_def mset_filter mset_map sum_mset_sum_list)
  have pos: "\<forall>t \<in> set us. 0 < tr_size t" using assms(2) set by simp
  have total: "ff_buy ?f + ff_sell ?f = sum_list (map tr_size ts)"
    using flow_sums [of ?b us] sizes_total [of us] perm by simp
  have tpos: "0 < sum_list (map tr_size ts)" using sizes_total_pos [OF ne(1)] assms(2) by simp
  have dist: "distinct (map fst (ff_levels ?f))"
  proof -
    have "distinct (map fst (ff_levels (flow_of ?b vs)))" for vs
    proof (induction vs rule: rev_induct)
      case (snoc t vs)
      then show ?case
        by (simp add: flow_of_snoc flow_step_def Let_def add_size_def distinct_update split: prod.split)
    qed (simp add: flow_of_def)
    then show ?thesis .
  qed
  have "map_of (sort_key fst (ff_levels ?f)) = map_of (ff_levels ?f)"
  proof (rule map_of_eqI)
    show "set (map fst (sort_key fst (ff_levels ?f))) = set (map fst (ff_levels ?f))" by simp
    have d: "distinct (map fst (sort_key fst (ff_levels ?f)))"
      using dist by (metis mset_map mset_sort mset_eq_imp_distinct_iff)
    show "\<forall>k \<in> set (map fst (sort_key fst (ff_levels ?f))).
        map_of (sort_key fst (ff_levels ?f)) k = map_of (ff_levels ?f) k"
      using d dist by (auto simp: map_of_eq_Some_iff)
  qed
  then have "level_of (fo_profile fo) k = (sizes_at ?b Buy k ts, sizes_at ?b Sell k ts)" for k
    using flow_levels [of ?b us k] by (simp add: fo level_of_def at)
  moreover have "\<bar>fo_delta_pct fo\<bar> \<le> 100"
    using abs_ratio_le [of "ff_buy ?f" "ff_sell ?f"] flow_sums [of ?b us] sizes_nonneg [OF pos] total tpos fo
    by simp
  moreover have "Min (tr_price ` set ts) \<le> fo_vwap fo \<and> fo_vwap fo \<le> Max (tr_price ` set ts)"
  proof -
    have "fo_vwap fo = sum_list (map (\<lambda>t. tr_size t * tr_price t) ts) / sum_list (map tr_size ts)"
      using fo total flow_sums [of ?b us] value_total [of us] perm by simp
    moreover have "\<forall>t \<in> set ts. 0 < tr_size t \<and> Min (tr_price ` set ts) \<le> tr_price t
        \<and> tr_price t \<le> Max (tr_price ` set ts)"
      using assms(2) by simp
    note weighted_bounds [OF this]
    ultimately show ?thesis using tpos by (simp add: pos_le_divide_eq pos_divide_le_eq)
  qed
  ultimately show ?thesis using fo total flow_sums [of ?b us] by simp
qed

definition sample_print :: "ms \<Rightarrow> side \<Rightarrow> dec \<Rightarrow> dec \<Rightarrow> trade" where
  "sample_print at_ms sd price qty =
     \<lparr>tr_symbol = ''BTCUSDT'', tr_event_ms = at_ms, tr_receipt_ms = at_ms, tr_trade_id = [],
      tr_side = sd, tr_price = price, tr_size = qty, tr_exchange = Bybit\<rparr>"

lemma footprint_conserves_witness:
  "let ts = [sample_print 1 Buy 100 2, sample_print 2 Sell 99 1]; fo = the (footprint ts 1 50 None) in
   fo_buy fo + fo_sell fo = sum_list (map tr_size ts) \<and> fo_cvd fo = fo_buy fo - fo_sell fo
    \<and> (\<forall>k. level_of (fo_profile fo) k = (sizes_at (fo_bucket fo) Buy k ts, sizes_at (fo_bucket fo) Sell k ts))
    \<and> \<bar>fo_delta_pct fo\<bar> \<le> 100
    \<and> Min (tr_price ` set ts) \<le> fo_vwap fo \<and> fo_vwap fo \<le> Max (tr_price ` set ts)"
proof -
  let ?ts = "[sample_print 1 Buy 100 2, sample_print 2 Sell 99 1]"
  have "footprint ?ts 1 50 None = Some (the (footprint ?ts 1 50 None))"
    by (simp add: footprint_def Let_def)
  from footprint_conserves [OF this] show ?thesis by (simp only: Let_def) (simp add: sample_print_def)
qed

text \<open>
  The bisected walk over the receipt-sorted index finds an aggressive
  trade exactly when one exists on the other side within one bucket index, at most one bucket away
  in price and within the two seconds before the addition.
\<close>

theorem addition_walk_is_search:
  assumes "\<forall>t \<in> set ts. 0 < tr_price t"
  shows "addition_met bucket ts at_ms sd p \<longleftrightarrow>
    (\<exists>t \<in> set ts. tr_side t = (if sd = Bid then Sell else Buy)
       \<and> \<bar>py_trunc (tr_price t / bucket) - py_trunc (p / bucket)\<bar> \<le> 1
       \<and> at_ms - 2000 \<le> tr_receipt_ms t \<and> tr_receipt_ms t \<le> at_ms \<and> \<bar>tr_price t - p\<bar> \<le> bucket)"
proof -
  let ?agg = "if sd = Bid then Sell else Buy"
  have walk: "(\<exists>y \<in> set (takeWhile (\<lambda>(r, price). r \<le> at_ms) (bisect_left xs (at_ms - 2000, 0))). Q y)
      \<longleftrightarrow> (\<exists>(r, price) \<in> set xs. at_ms - 2000 \<le> r \<and> r \<le> at_ms \<and> Q (r, price))"
    if "sorted xs" "\<forall>(r, price) \<in> set xs. 0 < price" for xs :: "(ms \<times> dec) list" and Q
    using that
  proof (induction xs)
    case (Cons y ys)
    obtain r price where y: "y = (r, price)" by fastforce
    consider "r < at_ms - 2000" | "at_ms - 2000 \<le> r" "r \<le> at_ms" | "at_ms < r" by linarith
    then show ?case
    proof cases
      case 1
      then have "bisect_left (y # ys) (at_ms - 2000, 0) = bisect_left ys (at_ms - 2000, 0)"
        by (simp add: bisect_left_def y less_prod_def)
      with 1 Cons show ?thesis by (auto simp: y)
    next
      case 2
      then have keep: "bisect_left (y # ys) (at_ms - 2000, 0) = y # ys"
        using Cons.prems by (auto simp: bisect_left_def y less_prod_def)
      have "bisect_left ys (at_ms - 2000, 0) = ys"
        using Cons.prems 2 by (cases ys) (auto simp: bisect_left_def y less_prod_def less_eq_prod_def)
      with keep 2 Cons show ?thesis by (auto simp: y)
    next
      case 3
      then have "takeWhile (\<lambda>(r, price). r \<le> at_ms) (bisect_left (y # ys) (at_ms - 2000, 0)) = []"
        by (simp add: bisect_left_def y less_prod_def)
      moreover have "\<forall>(r', price') \<in> set (y # ys). at_ms < r'"
        using Cons.prems(1) 3 by (fastforce simp: y less_eq_prod_def)
      ultimately show ?thesis by fastforce
    qed
  qed (simp add: bisect_left_def)
  have series: "sorted (receipt_series bucket ts ?agg k)"
    "\<forall>(r, price) \<in> set (receipt_series bucket ts ?agg k). 0 < price" for k
    using assms by (auto simp: receipt_series_def)
  have three: "(\<exists>k \<in> set [c - 1, c, c + 1]. P k) \<longleftrightarrow> (\<exists>k. \<bar>k - c\<bar> \<le> 1 \<and> P k)" for c :: int and P
  proof -
    have "\<bar>k - c\<bar> \<le> 1 \<longleftrightarrow> k \<in> set [c - 1, c, c + 1]" for k by auto
    then show ?thesis by blast
  qed
  have "addition_met bucket ts at_ms sd p \<longleftrightarrow>
      (\<exists>k. \<bar>k - py_trunc (p / bucket)\<bar> \<le> 1 \<and> (\<exists>(r, price) \<in> set (receipt_series bucket ts ?agg k).
          at_ms - 2000 \<le> r \<and> r \<le> at_ms \<and> \<bar>price - p\<bar> \<le> bucket))"
    unfolding addition_met_def Let_def list_ex_iff three
    using walk [OF series, where Q = "\<lambda>(r, price). \<bar>price - p\<bar> \<le> bucket"] by simp
  also have "\<dots> \<longleftrightarrow> (\<exists>t \<in> set ts. tr_side t = ?agg
       \<and> \<bar>py_trunc (tr_price t / bucket) - py_trunc (p / bucket)\<bar> \<le> 1
       \<and> at_ms - 2000 \<le> tr_receipt_ms t \<and> tr_receipt_ms t \<le> at_ms \<and> \<bar>tr_price t - p\<bar> \<le> bucket)"
    by (fastforce simp: receipt_series_def)
  finally show ?thesis .
qed

lemma addition_walk_is_search_witness:
  "addition_met 1 [sample_print 5000 Sell 100 2] 6000 Bid 101 \<longleftrightarrow>
    (\<exists>t \<in> set [sample_print 5000 Sell 100 2]. tr_side t = (if Bid = Bid then Sell else Buy)
       \<and> \<bar>py_trunc (tr_price t / 1) - py_trunc (101 / 1)\<bar> \<le> 1
       \<and> 6000 - 2000 \<le> tr_receipt_ms t \<and> tr_receipt_ms t \<le> 6000 \<and> \<bar>tr_price t - 101\<bar> \<le> 1)"
  by (rule addition_walk_is_search) (simp add: sample_print_def)

end
