(* ===== verification/Tape.thy ===== *)
theory Tape imports Model begin

text \<open>
  The executed-trade tape: class \<^verbatim>\<open>Tape\<close> of
  \<^verbatim>\<open>src/bybit_flow/orderflow.py\<close>. A tape keeps the newest trades of one market in a
  bounded deque, the ids of exactly those trades in a dictionary, and the time from which its
  coverage is complete. Operations return the new tape next to the value or the exception,
  because an out-of-order trade both resets the tape and raises. The activity observer
  \<^verbatim>\<open>EventFeatures\<close> is represented by the market it is bound to.
\<close>

record tape =
  tp_maxlen :: nat
  tp_trades :: "trade list"
  tp_ids :: "string list"
  tp_coverage_start :: ms
  tp_last_event :: ms
  tp_last_receipt :: ms
  tp_market :: "(source \<times> string) option"

subsection \<open>Operations\<close>

definition tape_new :: "nat \<Rightarrow> (source \<times> string) option \<Rightarrow> tape" where
  "tape_new n m =
     \<lparr>tp_maxlen = n, tp_trades = [], tp_ids = [], tp_coverage_start = 0,
      tp_last_event = 0, tp_last_receipt = 0, tp_market = m\<rparr>"

definition tape_reset :: "ms \<Rightarrow> tape \<Rightarrow> tape" where
  "tape_reset at_ms tp =
     tp\<lparr>tp_trades := [], tp_ids := [], tp_coverage_start := at_ms,
        tp_last_event := 0, tp_last_receipt := 0\<rparr>"

definition other_market :: "tape \<Rightarrow> trade \<Rightarrow> bool" where
  "other_market tp t \<longleftrightarrow>
     (case tp_market tp of None \<Rightarrow> False
      | Some (src, sy) \<Rightarrow> tr_symbol t \<noteq> sy \<or> tr_exchange t \<noteq> src)"

text \<open>
  The tail of \<^verbatim>\<open>add\<close>, from the point where the trade is known to be new and in
  order: the coverage start moves past the trade that is about to fall out, the id of that
  trade is forgotten, and the trade is appended.
\<close>

definition tape_store :: "trade \<Rightarrow> tape \<Rightarrow> tape \<times> (py_error + bool)" where
  "tape_store t tp =
     (if length (tp_trades tp) = tp_maxlen tp \<and> tp_trades tp = [] then (tp, Inl IndexError)
      else
        let tp1 = (if length (tp_trades tp) = tp_maxlen tp
                   then tp\<lparr>tp_coverage_start :=
                          max (tp_coverage_start tp) (tr_event_ms (hd (tp_trades tp)) + 1)\<rparr>
                   else tp);
            tp2 = tp1\<lparr>tp_ids := tp_ids tp1 @ [tr_trade_id t]\<rparr>
        in if length (tp_ids tp2) > tp_maxlen tp2 \<and> tp_trades tp2 = [] then (tp2, Inl IndexError)
           else if length (tp_ids tp2) > tp_maxlen tp2
                   \<and> tr_trade_id (hd (tp_trades tp2)) \<notin> set (tp_ids tp2)
           then (tp2, Inl KeyError)
           else
             let tp3 = (if length (tp_ids tp2) > tp_maxlen tp2
                        then tp2\<lparr>tp_ids := remove1 (tr_trade_id (hd (tp_trades tp2))) (tp_ids tp2)\<rparr>
                        else tp2)
             in (tp3\<lparr>tp_trades := deque_append (tp_maxlen tp3) t (tp_trades tp3),
                     tp_last_event := tr_event_ms t, tp_last_receipt := tr_receipt_ms t\<rparr>,
                 Inr True))"

definition out_of_order :: py_error where
  "out_of_order = BookGap ''Out-of-order trade: continuity unknown''"

definition tape_add :: "trade \<Rightarrow> tape \<Rightarrow> tape \<times> (py_error + bool)" where
  "tape_add t tp =
     (if tr_price t \<le> 0 \<or> tr_size t \<le> 0
      then (tp, Inl (BookGap ''Invalid trade price/quantity; continuity unknown''))
      else if other_market tp t
      then (tp, Inl (ValueError ''Event features require a chronological, symbol-specific tape''))
      else if tr_trade_id t \<in> set (tp_ids tp) then (tp, Inr False)
      else if tr_event_ms t < tp_last_event tp
      then (tape_reset (tr_receipt_ms t) tp, Inl out_of_order)
      else tape_store t tp)"

definition tape_window :: "ms \<Rightarrow> ms \<Rightarrow> tape \<Rightarrow> trade list" where
  "tape_window start stop tp =
     filter (\<lambda>t. start \<le> tr_event_ms t \<and> tr_event_ms t < stop) (tp_trades tp)"

text \<open>What a stream does with a tape: every message is offered, exceptions are caught outside.\<close>

definition tape_step :: "trade \<Rightarrow> tape \<Rightarrow> tape" where
  "tape_step t tp = fst (tape_add t tp)"

subsection \<open>Invariant\<close>

definition tape_inv :: "tape \<Rightarrow> bool" where
  "tape_inv tp \<longleftrightarrow>
     0 < tp_maxlen tp
     \<and> length (tp_trades tp) \<le> tp_maxlen tp
     \<and> tp_ids tp = map tr_trade_id (tp_trades tp)
     \<and> distinct (tp_ids tp)
     \<and> sorted (map tr_event_ms (tp_trades tp))
     \<and> (\<forall>t \<in> set (tp_trades tp). tr_event_ms t \<le> tp_last_event tp)
     \<and> (\<forall>t \<in> set (tp_trades tp). 0 < tr_price t \<and> 0 < tr_size t)
     \<and> (\<forall>t \<in> set (tp_trades tp). \<not> other_market tp t)"

lemma tape_inv_new: "0 < n \<Longrightarrow> tape_inv (tape_new n m)"
  by (simp add: tape_inv_def tape_new_def)

lemma tape_inv_reset: "tape_inv tp \<Longrightarrow> tape_inv (tape_reset ms tp)"
  by (simp add: tape_inv_def tape_reset_def)

text \<open>
  On a well-formed tape the tail of \<^verbatim>\<open>add\<close> neither indexes an empty deque nor pops a
  missing id: the dictionary holds exactly the ids of the deque, in its order.
\<close>

lemma tape_store_room:
  assumes "tape_inv tp" "length (tp_trades tp) < tp_maxlen tp"
  shows "tape_store t tp =
    (tp\<lparr>tp_ids := tp_ids tp @ [tr_trade_id t], tp_trades := tp_trades tp @ [t],
        tp_last_event := tr_event_ms t, tp_last_receipt := tr_receipt_ms t\<rparr>, Inr True)"
  using assms by (simp add: tape_inv_def tape_store_def Let_def deque_append_below)

lemma tape_store_full:
  assumes inv: "tape_inv tp" and full: "length (tp_trades tp) = tp_maxlen tp"
  shows "tape_store t tp =
    (tp\<lparr>tp_coverage_start := max (tp_coverage_start tp) (tr_event_ms (hd (tp_trades tp)) + 1),
        tp_ids := tl (tp_ids tp) @ [tr_trade_id t], tp_trades := tl (tp_trades tp) @ [t],
        tp_last_event := tr_event_ms t, tp_last_receipt := tr_receipt_ms t\<rparr>, Inr True)"
proof -
  obtain h ts where ts: "tp_trades tp = h # ts"
    using inv full by (cases "tp_trades tp") (auto simp: tape_inv_def)
  have "tp_ids tp = tr_trade_id h # map tr_trade_id ts" using inv ts by (simp add: tape_inv_def)
  then show ?thesis
    using inv full ts by (simp add: tape_inv_def tape_store_def Let_def deque_append_full)
qed

lemmas tape_store_cases = tape_store_room tape_store_full

lemma tape_store_inv:
  assumes inv: "tape_inv tp" and new: "tr_trade_id t \<notin> set (tp_ids tp)"
    and ord: "tp_last_event tp \<le> tr_event_ms t" and pos: "0 < tr_price t" "0 < tr_size t"
    and mkt: "\<not> other_market tp t"
  shows "tape_inv (fst (tape_store t tp))"
proof (cases "length (tp_trades tp) < tp_maxlen tp")
  case True
  then show ?thesis
    using assms unfolding tape_store_room [OF inv True]
    by (auto simp: tape_inv_def sorted_append other_market_def)
next
  case False
  with inv have full: "length (tp_trades tp) = tp_maxlen tp" by (simp add: tape_inv_def)
  obtain h ts where ts: "tp_trades tp = h # ts"
    using inv full by (cases "tp_trades tp") (auto simp: tape_inv_def)
  show ?thesis
    using assms ts unfolding tape_store_full [OF inv full]
    by (auto simp: tape_inv_def sorted_append other_market_def)
qed

lemma tape_step_inv: "tape_inv tp \<Longrightarrow> tape_inv (tape_step t tp)"
  unfolding tape_step_def tape_add_def
  by (auto intro!: tape_store_inv tape_inv_reset)

interpretation tape_machine: step_invariant tape_step tape_inv
  by unfold_locales (rule tape_step_inv)

text \<open>The only errors of \<^verbatim>\<open>add\<close> on a well-formed tape are the ones it raises itself.\<close>

lemma tape_add_errors:
  assumes "tape_inv tp"
  shows "snd (tape_add t tp) \<noteq> Inl KeyError \<and> snd (tape_add t tp) \<noteq> Inl IndexError"
proof (cases "length (tp_trades tp) < tp_maxlen tp")
  case True
  then show ?thesis by (simp add: tape_add_def out_of_order_def tape_store_room assms)
next
  case False
  with assms have "length (tp_trades tp) = tp_maxlen tp" by (simp add: tape_inv_def)
  then show ?thesis by (simp add: tape_add_def out_of_order_def tape_store_full assms)
qed

subsection \<open>Coverage: the abstract history of a tape\<close>

text \<open>
  The abstract view of a tape is the list of all trades accepted since its last reset. The
  concrete tape forgets a prefix of it, and its coverage start tells which windows are not
  affected.
\<close>

definition abs_step :: "trade \<Rightarrow> tape \<times> trade list \<Rightarrow> tape \<times> trade list" where
  "abs_step t = (\<lambda>(tp, hist).
     case tape_add t tp of
       (tp', Inr True) \<Rightarrow> (tp', hist @ [t])
     | (tp', Inr False) \<Rightarrow> (tp', hist)
     | (tp', Inl e) \<Rightarrow> (tp', if e = out_of_order then [] else hist))"

definition covers :: "tape \<times> trade list \<Rightarrow> bool" where
  "covers = (\<lambda>(tp, hist). tape_inv tp \<and>
     (\<exists>gone. hist = gone @ tp_trades tp \<and> (\<forall>t \<in> set gone. tr_event_ms t < tp_coverage_start tp)))"

lemma covers_start: "tape_inv tp \<Longrightarrow> covers (tape_reset ms tp, [])"
  by (simp add: covers_def tape_inv_reset) (simp add: tape_reset_def)

lemma covers_store:
  assumes cov: "covers (tp, hist)" and inv: "tape_inv (fst (tape_store t tp))"
  shows "snd (tape_store t tp) = Inr True \<and> covers (fst (tape_store t tp), hist @ [t])"
proof -
  from cov obtain gone where tpi: "tape_inv tp" and hist: "hist = gone @ tp_trades tp"
    and old: "\<forall>u \<in> set gone. tr_event_ms u < tp_coverage_start tp"
    by (auto simp: covers_def)
  show ?thesis
  proof (cases "length (tp_trades tp) < tp_maxlen tp")
    case True
    then show ?thesis using inv hist old by (simp add: covers_def tape_store_room [OF tpi])
  next
    case False
    with tpi have full: "length (tp_trades tp) = tp_maxlen tp" by (simp add: tape_inv_def)
    obtain h ts where ts: "tp_trades tp = h # ts"
      using tpi full by (cases "tp_trades tp") (auto simp: tape_inv_def)
    have "hist @ [t] = (gone @ [h]) @ ts @ [t]" using hist ts by simp
    moreover have "\<forall>u \<in> set (gone @ [h]).
        tr_event_ms u < max (tp_coverage_start tp) (tr_event_ms h + 1)"
      using old by auto
    ultimately show ?thesis
      using inv ts unfolding tape_store_full [OF tpi full] covers_def by auto
  qed
qed

lemma tape_store_changes: "snd (tape_store t tp) = Inl e \<Longrightarrow> tape_inv tp \<Longrightarrow> False"
  using tape_store_room [of tp t] tape_store_full [of tp t]
  by (cases "length (tp_trades tp) < tp_maxlen tp") (auto simp: tape_inv_def)

lemma abs_step_covers: "covers s \<Longrightarrow> covers (abs_step t s)"
proof -
  assume cov: "covers s"
  obtain tp hist where s: "s = (tp, hist)" by (cases s)
  with cov have inv: "tape_inv tp" by (simp add: covers_def)
  note acc = covers_store [OF cov [unfolded s]]
  show "covers (abs_step t s)"
  proof (cases "tr_price t \<le> 0 \<or> tr_size t \<le> 0 \<or> other_market tp t \<or> tr_trade_id t \<in> set (tp_ids tp)")
    case True
    then show ?thesis using cov s by (auto simp: abs_step_def tape_add_def out_of_order_def)
  next
    case new: False
    show ?thesis
    proof (cases "tr_event_ms t < tp_last_event tp")
      case True
      with new have "tape_add t tp = (tape_reset (tr_receipt_ms t) tp, Inl out_of_order)"
        by (simp add: tape_add_def)
      then show ?thesis using s covers_start [OF inv] by (simp add: abs_step_def)
    next
      case False
      with new have add: "tape_add t tp = tape_store t tp" by (simp add: tape_add_def)
      have "tape_inv (fst (tape_store t tp))"
        using new False inv by (intro tape_store_inv) auto
      from acc [OF this] add s show ?thesis
        by (cases "tape_store t tp") (auto simp: abs_step_def)
    qed
  qed
qed

interpretation tape_history: step_invariant abs_step covers
  by unfold_locales (rule abs_step_covers)

lemma abs_step_fst: "fst (abs_step t s) = tape_step t (fst s)"
  by (cases s) (auto simp: abs_step_def tape_step_def split: prod.splits sum.splits bool.splits)

lemma abs_run_fst: "fst (fold abs_step ts s) = fold tape_step ts (fst s)"
  by (induction ts arbitrary: s) (simp_all add: abs_step_fst)

lemma covers_window:
  assumes "covers (tp, hist)" and "tp_coverage_start tp \<le> start"
  shows "tape_window start stop tp =
    filter (\<lambda>t. start \<le> tr_event_ms t \<and> tr_event_ms t < stop) hist"
proof -
  from assms obtain gone where hist: "hist = gone @ tp_trades tp"
    and old: "\<forall>t \<in> set gone. tr_event_ms t < start"
    by (fastforce simp: covers_def)
  have "filter (\<lambda>t. start \<le> tr_event_ms t \<and> tr_event_ms t < stop) gone = []"
    using old by (fastforce simp: filter_empty_conv)
  then show ?thesis using hist by (simp add: tape_window_def)
qed

text \<open>
  Over any sequence of offered trades a tape of positive capacity keeps its
  invariant (bounded, chronological, distinct ids in deque order, one market) and the next
  \<^verbatim>\<open>add\<close> raises neither KeyError nor IndexError.
\<close>

theorem tape_stays_usable:
  assumes "0 < n"
  shows "tape_inv (fold tape_step ts (tape_new n m))
    \<and> snd (tape_add t (fold tape_step ts (tape_new n m))) \<noteq> Inl KeyError
    \<and> snd (tape_add t (fold tape_step ts (tape_new n m))) \<noteq> Inl IndexError"
  using tape_machine.run_inv [OF tape_inv_new [OF assms]] tape_add_errors by blast

lemma tape_stays_usable_witness:
  "tape_inv (fold tape_step [sample_trade ''a'' 1 100, sample_trade ''b'' 2 101] (tape_new 1 None))
    \<and> snd (tape_add (sample_trade ''c'' 3 99)
        (fold tape_step [sample_trade ''a'' 1 100, sample_trade ''b'' 2 101] (tape_new 1 None))) \<noteq> Inl KeyError
    \<and> snd (tape_add (sample_trade ''c'' 3 99)
        (fold tape_step [sample_trade ''a'' 1 100, sample_trade ''b'' 2 101] (tape_new 1 None))) \<noteq> Inl IndexError"
  by (rule tape_stays_usable) simp

text \<open>
  C19: a bounded tape forgets trades, but a window that starts at or after its
  coverage start holds every trade accepted since the last reset with a time in the window, in
  their order of acceptance, whatever was dropped meanwhile.
\<close>

theorem tape_window_complete:
  assumes "0 < n" and "fold abs_step ts (tape_new n m, []) = (tp, hist)" and "tp_coverage_start tp \<le> start"
  shows "tp = fold tape_step ts (tape_new n m)
    \<and> tape_window start stop tp = filter (\<lambda>t. start \<le> tr_event_ms t \<and> tr_event_ms t < stop) hist"
proof -
  have "covers (tape_new n m, [])" using tape_inv_new [OF assms(1)] by (simp add: covers_def tape_new_def)
  from tape_history.run_inv [OF this, of ts] have cov: "covers (tp, hist)" by (simp add: assms(2))
  have "tp = fold tape_step ts (tape_new n m)" using abs_run_fst [of ts "(tape_new n m, [])"] assms(2) by simp
  then show ?thesis using covers_window [OF cov assms(3)] by blast
qed

lemma tape_window_complete_witness:
  "let run = fold abs_step [sample_trade ''a'' 1 100, sample_trade ''b'' 2 101, sample_trade ''c'' 3 99]
      (tape_new 2 None, []) in
   fst run = fold tape_step [sample_trade ''a'' 1 100, sample_trade ''b'' 2 101, sample_trade ''c'' 3 99] (tape_new 2 None)
   \<and> tape_window 2 9 (fst run) = filter (\<lambda>t. 2 \<le> tr_event_ms t \<and> tr_event_ms t < 9) (snd run)"
  unfolding Let_def
  by (rule tape_window_complete [where start = 2]) (simp, simp, code_simp)

subsection \<open>Freshness\<close>

text \<open>
  The receipt and event checks that the lifecycle, the feed health report and the native
  streams apply to a tape before they call it fresh.
\<close>

definition tape_fresh :: "ms \<Rightarrow> ms \<Rightarrow> tape \<Rightarrow> bool" where
  "tape_fresh stale now tp \<longleftrightarrow>
     0 \<le> now - tp_last_receipt tp \<and> now - tp_last_receipt tp \<le> stale
     \<and> -2000 \<le> now - tp_last_event tp \<and> now - tp_last_event tp \<le> stale"

end
