(* ===== verification/Lifecycle.thy ===== *)
theory Lifecycle imports Tape begin

text \<open>
  Executed-path monitoring of an immutable plan: \<^verbatim>\<open>expiry_mark\<close> and
  \<^verbatim>\<open>advance_trades\<close> of \<^verbatim>\<open>src/bybit_flow/lifecycle.py\<close>. A poll reads
  the trades after the stored cursor, newest first until it meets the last checked trade,
  and replays them in order; the first trade through the stop or the target ends the plan.
  The abstract view is the first exit on the path; polling at different times sees the same
  exit as one poll at the end.
\<close>

subsection \<open>The mark at expiry\<close>

definition expiry_mark ::
    "signal \<Rightarrow> dec option \<Rightarrow> ms option \<Rightarrow> ms \<Rightarrow> ms \<Rightarrow> string \<Rightarrow> ms option \<Rightarrow> mark option" where
  "expiry_mark s price price_ms deadline_ms max_age_ms method entered_ms =
     (let entered = (case entered_ms of Some e \<Rightarrow> Some e
                     | None \<Rightarrow> ev_observed_entry_ms (sg_evidence s)) in
      case (entered, price_ms) of
        (Some e, Some pm) \<Rightarrow>
          if \<not> (e < pm \<and> pm \<le> deadline_ms) then None
          else if deadline_ms - pm > max_age_ms then None
          else
            (case price of None \<Rightarrow> None | Some p \<Rightarrow>
               let entry = sg_entry s; distance = \<bar>entry - sg_stop s\<bar> in
               if \<not> (p > 0 \<and> entry > 0 \<and> distance > 0) then None
               else
                 let gross_move = sign_of (sg_direction s) * (p - entry);
                     result = \<lparr>mk_method = method, mk_mark_price = p, mk_mark_ms = pm,
                       mk_deadline_ms = deadline_ms, mk_observed_entry_ms = e,
                       mk_gross_pct = 100 * gross_move / entry, mk_gross_r = gross_move / distance,
                       mk_estimated_net_r = None, mk_estimated_net_pct = None,
                       mk_classification =
                         (if gross_move > 0 then ''FAVORABLE_GROSS_COSTS_UNKNOWN''
                          else if gross_move < 0 then ''UNFAVORABLE_GROSS_COSTS_UNKNOWN''
                          else ''FLAT_GROSS_COSTS_UNKNOWN'')\<rparr>
                 in (case sg_cost_per_base s of
                       Some (Fin cost) \<Rightarrow>
                         if cost \<ge> 0 then
                           (let net_move = gross_move - cost in
                            Some (result\<lparr>mk_estimated_net_r := Some (net_move / distance),
                              mk_estimated_net_pct := Some (100 * net_move / entry),
                              mk_classification :=
                                (if net_move > 0 then ''ESTIMATED_PROFIT''
                                 else if net_move < 0 then ''ESTIMATED_LOSS''
                                 else ''ESTIMATED_FLAT'')\<rparr>))
                         else Some result
                     | _ \<Rightarrow> Some result))
      | _ \<Rightarrow> None)"

subsection \<open>One observed trade\<close>

definition in_zone :: "signal \<Rightarrow> dec \<Rightarrow> bool" where
  "in_zone s price \<longleftrightarrow> fst (sg_zone s) \<le> price \<and> price \<le> snd (sg_zone s)"

definition stop_crossed :: "signal \<Rightarrow> dec \<Rightarrow> bool" where
  "stop_crossed s price \<longleftrightarrow>
     (if sg_direction s = LONG then price \<le> sg_stop s else price \<ge> sg_stop s)"

definition level_reached :: "signal \<Rightarrow> dec \<Rightarrow> dec \<Rightarrow> bool" where
  "level_reached s level price \<longleftrightarrow>
     (if sg_direction s = LONG then price \<ge> level else price \<le> level)"

definition note_entry :: "trade \<Rightarrow> signal \<Rightarrow> signal" where
  "note_entry t s =
     (if in_zone s (tr_price t) \<and> tr_event_ms t \<le> trigger_deadline s
         \<and> ev_observed_entry_ms (sg_evidence s) = None
      then set_evidence (\<lambda>e. e\<lparr>ev_observed_entry_ms := Some (tr_event_ms t),
             ev_observed_entry_price := Some (tr_price t),
             ev_observed_entry_method := Some ''LIVE_EXECUTED_TRADE'',
             ev_observed_entry_source := Some (tr_exchange t),
             ev_observed_entry_trade_id := Some (tr_trade_id t)\<rparr>) s
      else s)"

definition entered :: "signal \<Rightarrow> bool" where
  "entered s \<longleftrightarrow> ev_observed_entry_ms (sg_evidence s) \<noteq> None"

definition note_touches :: "trade \<Rightarrow> signal \<Rightarrow> signal" where
  "note_touches t s =
     set_evidence (\<lambda>e. e\<lparr>
       ev_tp1_touch_ms := (if entered s \<and> level_reached s (sg_tp1 s) (tr_price t)
                              \<and> ev_tp1_touch_ms e = None
                           then Some (tr_event_ms t) else ev_tp1_touch_ms e),
       ev_tp2_touch_ms := (if entered s \<and> level_reached s (sg_tp2 s) (tr_price t)
                              \<and> ev_tp2_touch_ms e = None
                           then Some (tr_event_ms t) else ev_tp2_touch_ms e)\<rparr>) s"

definition note_cursor :: "trade \<Rightarrow> signal \<Rightarrow> signal" where
  "note_cursor t s =
     set_evidence (\<lambda>e. e\<lparr>ev_latest_observed_price := Some (tr_price t)\<rparr>)
       (set_coverage (\<lambda>c. c\<lparr>cv_monitor_cursor_event_ms := Some (tr_event_ms t),
          cv_monitor_cursor_receipt_ms := Some (tr_receipt_ms t),
          cv_last_checked_trade_id := Some (tr_trade_id t)\<rparr>) s)"

definition observe :: "trade \<Rightarrow> signal \<Rightarrow> signal" where
  "observe t s = note_touches t (note_entry t (note_cursor t s))"

definition target_ends :: "signal \<Rightarrow> dec \<Rightarrow> bool" where
  "target_ends s price \<longleftrightarrow>
     entered s \<and> level_reached s (sg_tp1 s) price \<and> sg_state s = ALERTED
     \<and> sg_horizon_profile s \<noteq> LEGACY"

text \<open>The terminal branch; the stop is reported when both levels are crossed.\<close>

definition terminate :: "bool \<Rightarrow> ms \<Rightarrow> trade \<Rightarrow> signal \<Rightarrow> signal" where
  "terminate stop now t s =
     (let reason = (if stop then ''PLANNED_STOP_CROSSED'' else ''PLANNED_TARGET_CROSSED'') in
      s\<lparr>sg_state := (if stop then INVALIDATED else RESOLVED),
        sg_invalidation := reason,
        sg_coverage := (sg_coverage s)\<lparr>cv_terminal_reason := Some reason\<rparr>,
        sg_evidence := (sg_evidence s)\<lparr>
          ev_primary_outcome := Some (if stop then ''STOP'' else ''TARGET''),
          ev_terminal_event := Some \<lparr>te_effective_ms = Some (tr_event_ms t), te_detected_ms = now,
            te_event_price = Some (tr_price t),
            te_reference_price = Some (if stop then sg_stop s else sg_tp1 s),
            te_stop_price = Some (sg_stop s), te_source = sg_source s,
            te_method = ''LIVE_EXECUTED_TRADE'', te_trigger_basis = Some ''LAST_EXECUTED_TRADE'',
            te_ambiguous = None\<rparr>\<rparr>\<rparr>)"

subsection \<open>A poll\<close>

definition skipped :: "ms \<Rightarrow> ms \<Rightarrow> trade \<Rightarrow> bool" where
  "skipped now deadline t \<longleftrightarrow>
     tr_receipt_ms t > now \<or> tr_event_ms t > now \<or> tr_event_ms t > deadline"

fun advance_path :: "ms \<Rightarrow> ms \<Rightarrow> trade list \<Rightarrow> signal \<Rightarrow> signal" where
  "advance_path now deadline [] s = s"
| "advance_path now deadline (t # ts) s =
     (if skipped now deadline t then advance_path now deadline ts s
      else
        let s1 = observe t s; stop = stop_crossed s1 (tr_price t) in
        if stop \<or> target_ends s1 (tr_price t) then terminate stop now t s1
        else advance_path now deadline ts s1)"

definition monitor_cursor :: "signal \<Rightarrow> ms" where
  "monitor_cursor s =
     (case cv_monitor_cursor_event_ms (sg_coverage s) of None \<Rightarrow> sg_created_ms s | Some c \<Rightarrow> c)"

definition not_checked :: "signal \<Rightarrow> trade \<Rightarrow> bool" where
  "not_checked s t \<longleftrightarrow>
     \<not> (Some (tr_trade_id t) = cv_last_checked_trade_id (sg_coverage s)
        \<or> tr_event_ms t < monitor_cursor s)"

definition new_path :: "signal \<Rightarrow> trade list \<Rightarrow> trade list" where
  "new_path s trades = rev (takeWhile (not_checked s) (rev trades))"

definition advance_trades :: "signal \<Rightarrow> trade list \<Rightarrow> ms \<Rightarrow> signal" where
  "advance_trades s trades now =
     set_coverage (\<lambda>c. c\<lparr>cv_last_monitor_ms := Some now\<rparr>)
       (advance_path now (monitor_deadline s) (new_path s trades) s)"

subsection \<open>What monitoring leaves alone\<close>

lemma observe_frame [simp]:
  "sg_state (observe t s) = sg_state s" "sg_direction (observe t s) = sg_direction s"
  "sg_zone (observe t s) = sg_zone s" "sg_entry (observe t s) = sg_entry s"
  "sg_stop (observe t s) = sg_stop s" "sg_tp1 (observe t s) = sg_tp1 s"
  "sg_tp2 (observe t s) = sg_tp2 s" "sg_id (observe t s) = sg_id s"
  "sg_symbol (observe t s) = sg_symbol s" "sg_source (observe t s) = sg_source s"
  "sg_horizon_profile (observe t s) = sg_horizon_profile s"
  "sg_created_ms (observe t s) = sg_created_ms s" "sg_expires_ms (observe t s) = sg_expires_ms s"
  "sg_trigger_expires_ms (observe t s) = sg_trigger_expires_ms s"
  "sg_holding_deadline_ms (observe t s) = sg_holding_deadline_ms s"
  "cv_monitor_cursor_event_ms (sg_coverage (observe t s)) = Some (tr_event_ms t)"
  "cv_last_checked_trade_id (sg_coverage (observe t s)) = Some (tr_trade_id t)"
  "ev_terminal_event (sg_evidence (observe t s)) = ev_terminal_event (sg_evidence s)"
  "ev_primary_outcome (sg_evidence (observe t s)) = ev_primary_outcome (sg_evidence s)"
  by (simp_all add: observe_def note_touches_def note_entry_def note_cursor_def)

lemma terminate_frame [simp]:
  "sg_state (terminate stop now t s) = (if stop then INVALIDATED else RESOLVED)"
  "sg_direction (terminate stop now t s) = sg_direction s"
  "plan_of (terminate stop now t s) = plan_of s"
  "sg_created_ms (terminate stop now t s) = sg_created_ms s"
  "cv_monitor_cursor_event_ms (sg_coverage (terminate stop now t s))
     = cv_monitor_cursor_event_ms (sg_coverage s)"
  "ev_observed_entry_ms (sg_evidence (terminate stop now t s)) = ev_observed_entry_ms (sg_evidence s)"
  by (simp_all add: terminate_def Let_def plan_of_def)

lemma plan_of_observe [simp]: "plan_of (observe t s) = plan_of s"
  by (simp add: plan_of_def)

lemma crossing_frame [simp]:
  "stop_crossed (observe t s) = stop_crossed s" "level_reached (observe t s) = level_reached s"
  "in_zone (observe t s) = in_zone s" "trigger_deadline (observe t s) = trigger_deadline s"
  "monitor_deadline (observe t s) = monitor_deadline s"
  by (simp_all add: fun_eq_iff stop_crossed_def level_reached_def in_zone_def trigger_deadline_def
      monitor_deadline_def holding_deadline_def)

lemma entered_observe:
  "entered (observe t s) \<longleftrightarrow>
     entered s \<or> (in_zone s (tr_price t) \<and> tr_event_ms t \<le> trigger_deadline s)"
  by (auto simp: entered_def observe_def note_touches_def note_entry_def note_cursor_def
      in_zone_def trigger_deadline_def)

lemma plan_of_advance_path: "plan_of (advance_path now dl ts s) = plan_of s"
  by (induction ts arbitrary: s) (simp_all add: Let_def)

lemma plan_of_advance: "plan_of (advance_trades s ts now) = plan_of s"
  using plan_of_advance_path [of now "monitor_deadline s" "new_path s ts" s]
  by (simp add: advance_trades_def plan_of_def)

subsection \<open>The abstract path: the first exit\<close>

datatype exit_kind = StopExit | TargetExit

definition can_resolve :: "signal \<Rightarrow> bool" where
  "can_resolve s \<longleftrightarrow> sg_state s = ALERTED \<and> sg_horizon_profile s \<noteq> LEGACY"

fun first_exit :: "signal \<Rightarrow> bool \<Rightarrow> trade list \<Rightarrow> (trade \<times> exit_kind) option" where
  "first_exit s ent [] = None"
| "first_exit s ent (t # ts) =
     (let ent' = (ent \<or> (in_zone s (tr_price t) \<and> tr_event_ms t \<le> trigger_deadline s)) in
      if stop_crossed s (tr_price t) then Some (t, StopExit)
      else if ent' \<and> can_resolve s \<and> level_reached s (sg_tp1 s) (tr_price t) then Some (t, TargetExit)
      else first_exit s ent' ts)"

definition exit_state :: "sig_state \<Rightarrow> (trade \<times> exit_kind) option \<Rightarrow> sig_state" where
  "exit_state st x =
     (case x of None \<Rightarrow> st | Some (_, StopExit) \<Rightarrow> INVALIDATED | Some (_, TargetExit) \<Rightarrow> RESOLVED)"

definition exit_event :: "signal \<Rightarrow> ms \<Rightarrow> (trade \<times> exit_kind) option \<Rightarrow> terminal_event option" where
  "exit_event s now x =
     (case x of None \<Rightarrow> ev_terminal_event (sg_evidence s)
      | Some (t, k) \<Rightarrow> Some \<lparr>te_effective_ms = Some (tr_event_ms t), te_detected_ms = now,
            te_event_price = Some (tr_price t),
            te_reference_price = Some (if k = StopExit then sg_stop s else sg_tp1 s),
            te_stop_price = Some (sg_stop s), te_source = sg_source s,
            te_method = ''LIVE_EXECUTED_TRADE'', te_trigger_basis = Some ''LAST_EXECUTED_TRADE'',
            te_ambiguous = None\<rparr>)"

lemma first_exit_cong:
  assumes "sg_direction s' = sg_direction s" "sg_zone s' = sg_zone s" "sg_stop s' = sg_stop s"
    "sg_tp1 s' = sg_tp1 s" "trigger_deadline s' = trigger_deadline s" "can_resolve s' = can_resolve s"
  shows "first_exit s' ent ts = first_exit s ent ts"
proof -
  have "in_zone s' = in_zone s" "stop_crossed s' = stop_crossed s" "level_reached s' = level_reached s"
    using assms by (simp_all add: fun_eq_iff in_zone_def stop_crossed_def level_reached_def)
  with assms show ?thesis by (induction ts arbitrary: ent) (auto simp: Let_def)
qed

lemma first_exit_observe [simp]: "first_exit (observe t s) = first_exit s"
  by (intro ext first_exit_cong) (simp_all add: can_resolve_def)

lemma exit_event_observe [simp]: "exit_event (observe t s) = exit_event s"
  by (simp add: exit_event_def fun_eq_iff split: option.split)

lemma advance_path_filter:
  "advance_path now dl ts s = advance_path now dl (filter (\<lambda>t. \<not> skipped now dl t) ts) s"
  by (induction ts arbitrary: s) (simp_all add: Let_def)

lemma advance_path_refines:
  "sg_state (advance_path now dl ts s)
     = exit_state (sg_state s) (first_exit s (entered s) (filter (\<lambda>t. \<not> skipped now dl t) ts))
   \<and> ev_terminal_event (sg_evidence (advance_path now dl ts s))
     = exit_event s now (first_exit s (entered s) (filter (\<lambda>t. \<not> skipped now dl t) ts))"
proof (induction ts arbitrary: s)
  case Nil
  then show ?case by (simp add: exit_state_def exit_event_def)
next
  case (Cons t ts)
  let ?s1 = "observe t s"
  let ?stop = "stop_crossed s (tr_price t)"
  have tgt: "target_ends ?s1 (tr_price t) \<longleftrightarrow>
      entered ?s1 \<and> can_resolve s \<and> level_reached s (sg_tp1 s) (tr_price t)"
    by (auto simp: target_ends_def can_resolve_def)
  show ?case
  proof (cases "skipped now dl t")
    case True
    then show ?thesis using Cons.IH [of s] by simp
  next
    case False
    show ?thesis
    proof (cases "?stop \<or> target_ends ?s1 (tr_price t)")
      case True
      then show ?thesis using False tgt
        by (auto simp: Let_def entered_observe exit_state_def exit_event_def terminate_def)
    next
      case go: False
      have "advance_path now dl (t # ts) s = advance_path now dl ts ?s1"
        using go False by (simp add: Let_def)
      moreover have "first_exit s (entered s) (filter (\<lambda>t. \<not> skipped now dl t) (t # ts))
          = first_exit s (entered ?s1) (filter (\<lambda>t. \<not> skipped now dl t) ts)"
        using go False tgt by (auto simp: Let_def entered_observe)
      ultimately show ?thesis using Cons.IH [of ?s1] by simp
    qed
  qed
qed

text \<open>What an exit of the abstract path means.\<close>

lemma first_exit_some:
  "first_exit s ent ts = Some (t, k) \<Longrightarrow>
   \<exists>before after. ts = before @ t # after
     \<and> (\<forall>u \<in> set before. \<not> stop_crossed s (tr_price u))
     \<and> (k = StopExit \<longleftrightarrow> stop_crossed s (tr_price t))
     \<and> (k = TargetExit \<longrightarrow> can_resolve s \<and> level_reached s (sg_tp1 s) (tr_price t)
          \<and> (ent \<or> (\<exists>u \<in> set (before @ [t]).
               in_zone s (tr_price u) \<and> tr_event_ms u \<le> trigger_deadline s)))"
proof (induction ts arbitrary: ent)
  case Nil
  then show ?case by simp
next
  case (Cons u ts)
  let ?in = "in_zone s (tr_price u) \<and> tr_event_ms u \<le> trigger_deadline s"
  consider (stop) "stop_crossed s (tr_price u)"
    | (target) "\<not> stop_crossed s (tr_price u)" "ent \<or> ?in" "can_resolve s" "level_reached s (sg_tp1 s) (tr_price u)"
    | (later) "\<not> stop_crossed s (tr_price u)" "first_exit s (ent \<or> ?in) ts = Some (t, k)"
    using Cons.prems by (auto simp: Let_def split: if_splits)
  then show ?case
  proof cases
    case stop
    with Cons.prems show ?thesis by (intro exI [of _ "[]"] exI [of _ ts]) (auto simp: Let_def)
  next
    case target
    with Cons.prems show ?thesis by (intro exI [of _ "[]"] exI [of _ ts]) (auto simp: Let_def)
  next
    case later
    from Cons.IH [OF later(2)] obtain before after where
      ih: "ts = before @ t # after" "\<forall>v \<in> set before. \<not> stop_crossed s (tr_price v)"
        "k = StopExit \<longleftrightarrow> stop_crossed s (tr_price t)"
        "k = TargetExit \<longrightarrow> can_resolve s \<and> level_reached s (sg_tp1 s) (tr_price t)
          \<and> ((ent \<or> ?in) \<or> (\<exists>v \<in> set (before @ [t]).
               in_zone s (tr_price v) \<and> tr_event_ms v \<le> trigger_deadline s))"
      by blast
    show ?thesis
      using ih later(1) by (intro exI [of _ "u # before"] exI [of _ after]) auto
  qed
qed

lemma first_exit_none:
  "first_exit s ent ts = None \<Longrightarrow> t \<in> set ts \<Longrightarrow> \<not> stop_crossed s (tr_price t)"
  by (induction ts arbitrary: ent) (auto simp: Let_def split: if_splits)

text \<open>
  C3: when a poll of the executed path ends a plan, one received trade of the
  tape, inside the poll's time and the plan's deadline, is the recorded terminal event; it crosses
  the stop, or it reaches the first target of an alerted plan; no earlier new trade crossed the
  stop; and the frozen plan is untouched.
\<close>

theorem live_exit_is_evidenced:
  assumes "sg_state (advance_trades s ts now) \<noteq> sg_state s"
  shows "\<exists>before t after. filter (\<lambda>t. \<not> skipped now (monitor_deadline s) t) (new_path s ts) = before @ t # after
    \<and> tr_event_ms t \<le> min now (monitor_deadline s) \<and> tr_receipt_ms t \<le> now
    \<and> (\<forall>u \<in> set before. \<not> stop_crossed s (tr_price u))
    \<and> map_option te_effective_ms (ev_terminal_event (sg_evidence (advance_trades s ts now))) = Some (Some (tr_event_ms t))
    \<and> (if stop_crossed s (tr_price t) then sg_state (advance_trades s ts now) = INVALIDATED
       else sg_state (advance_trades s ts now) = RESOLVED \<and> can_resolve s \<and> level_reached s (sg_tp1 s) (tr_price t))
    \<and> plan_of (advance_trades s ts now) = plan_of s"
proof -
  let ?path = "filter (\<lambda>t. \<not> skipped now (monitor_deadline s) t) (new_path s ts)"
  have st: "sg_state (advance_trades s ts now) = exit_state (sg_state s) (first_exit s (entered s) ?path)"
    and ev: "ev_terminal_event (sg_evidence (advance_trades s ts now)) = exit_event s now (first_exit s (entered s) ?path)"
    using advance_path_refines [of now "monitor_deadline s" "new_path s ts" s]
    by (simp_all add: advance_trades_def)
  obtain t k where x: "first_exit s (entered s) ?path = Some (t, k)"
    using assms st by (cases "first_exit s (entered s) ?path") (auto simp: exit_state_def)
  from first_exit_some [OF x] obtain before after where
    path: "?path = before @ t # after" and none: "\<forall>u \<in> set before. \<not> stop_crossed s (tr_price u)"
    and k: "k = StopExit \<longleftrightarrow> stop_crossed s (tr_price t)"
    and target: "k = TargetExit \<longrightarrow> can_resolve s \<and> level_reached s (sg_tp1 s) (tr_price t)"
    by blast
  have "t \<in> set ?path" unfolding path by simp
  then have "tr_event_ms t \<le> min now (monitor_deadline s)" "tr_receipt_ms t \<le> now" by (auto simp: skipped_def)
  moreover have "map_option te_effective_ms (ev_terminal_event (sg_evidence (advance_trades s ts now))) = Some (Some (tr_event_ms t))"
    unfolding ev x by (simp add: exit_event_def)
  moreover have "if stop_crossed s (tr_price t) then sg_state (advance_trades s ts now) = INVALIDATED
      else sg_state (advance_trades s ts now) = RESOLVED \<and> can_resolve s \<and> level_reached s (sg_tp1 s) (tr_price t)"
    unfolding st x using k target by (cases k) (auto simp: exit_state_def)
  ultimately show ?thesis using path none plan_of_advance by blast
qed

lemma live_exit_is_evidenced_witness:
  "(\<exists>t :: trade. tr_event_ms t \<le> 100000 \<and> level_reached sample_signal 110 (tr_price t))
    \<and> sg_state (advance_trades sample_signal [sample_trade ''a'' 61000 100, sample_trade ''b'' 62000 111] 100000) = RESOLVED"
proof -
  have st: "sg_state (advance_trades sample_signal [sample_trade ''a'' 61000 100, sample_trade ''b'' 62000 111] 100000) = RESOLVED"
    by code_simp
  then have "sg_state (advance_trades sample_signal [sample_trade ''a'' 61000 100, sample_trade ''b'' 62000 111] 100000)
      \<noteq> sg_state sample_signal" by (simp add: sample_signal_def)
  from live_exit_is_evidenced [OF this] obtain t :: trade where
    "tr_event_ms t \<le> min 100000 (monitor_deadline sample_signal)"
    "if stop_crossed sample_signal (tr_price t) then RESOLVED = INVALIDATED
     else RESOLVED = RESOLVED \<and> can_resolve sample_signal \<and> level_reached sample_signal (sg_tp1 sample_signal) (tr_price t)"
    unfolding st by blast
  moreover have "sg_tp1 sample_signal = 110" by (simp add: sample_signal_def)
  ultimately show ?thesis using st by (auto split: if_splits)
qed

end
