(* ===== verification/Polling.thy ===== *)
theory Polling imports Lifecycle begin

text \<open>
  Polling the executed path. A signal is monitored by repeated calls of
  \<^verbatim>\<open>advance_trades\<close> on a growing tape; the stored cursor makes the calls resume where the
  previous one stopped. Shown here: an untruncated tape gives the same path as the whole
  history of the market, and two successive polls give the same signal as one.
\<close>

subsection \<open>Folding the observations\<close>

lemma advance_path_no_exit:
  "first_exit s (entered s) (filter (\<lambda>t. \<not> skipped now dl t) ts) = None \<Longrightarrow>
   advance_path now dl ts s = fold observe (filter (\<lambda>t. \<not> skipped now dl t) ts) s"
proof (induction ts arbitrary: s)
  case Nil
  then show ?case by simp
next
  case (Cons t ts)
  show ?case
  proof (cases "skipped now dl t")
    case True
    then show ?thesis using Cons by simp
  next
    case False
    with Cons.prems have "\<not> stop_crossed s (tr_price t)" "\<not> target_ends (observe t s) (tr_price t)"
      and "first_exit s (entered (observe t s)) (filter (\<lambda>t. \<not> skipped now dl t) ts) = None"
      by (auto simp: Let_def target_ends_def can_resolve_def entered_observe split: if_splits)
    with False Cons.IH [of "observe t s"] show ?thesis by (simp add: Let_def)
  qed
qed

lemma advance_path_append_no_exit:
  "first_exit s (entered s) (filter (\<lambda>t. \<not> skipped now dl t) xs) = None \<Longrightarrow>
   advance_path now dl (xs @ ys) s
     = advance_path now dl ys (fold observe (filter (\<lambda>t. \<not> skipped now dl t) xs) s)"
proof (induction xs arbitrary: s)
  case Nil
  then show ?case by simp
next
  case (Cons t ts)
  show ?case
  proof (cases "skipped now dl t")
    case True
    then show ?thesis using Cons by simp
  next
    case False
    with Cons.prems have "\<not> stop_crossed s (tr_price t)" "\<not> target_ends (observe t s) (tr_price t)"
      and "first_exit s (entered (observe t s)) (filter (\<lambda>t. \<not> skipped now dl t) ts) = None"
      by (auto simp: Let_def target_ends_def can_resolve_def entered_observe split: if_splits)
    with False Cons.IH [of "observe t s"] show ?thesis by (simp add: Let_def)
  qed
qed

lemma first_exit_append_some:
  "first_exit s ent xs = Some x \<Longrightarrow> first_exit s ent (xs @ ys) = Some x"
  by (induction xs arbitrary: ent) (auto simp: Let_def split: if_splits)

lemma fold_observe_frame [simp]:
  "sg_state (fold observe ts s) = sg_state s"
  "monitor_deadline (fold observe ts s) = monitor_deadline s"
  "sg_created_ms (fold observe ts s) = sg_created_ms s"
  by (induction ts arbitrary: s) auto

lemma fold_observe_cursor:
  "ts \<noteq> [] \<Longrightarrow>
   cv_monitor_cursor_event_ms (sg_coverage (fold observe ts s)) = Some (tr_event_ms (last ts))
   \<and> cv_last_checked_trade_id (sg_coverage (fold observe ts s)) = Some (tr_trade_id (last ts))"
proof (induction ts arbitrary: s)
  case Nil
  then show ?case by simp
next
  case (Cons t ts)
  then show ?case by (cases "ts = []") simp_all
qed

subsection \<open>The time of the poll\<close>

abbreviation stamp_monitor :: "ms \<Rightarrow> signal \<Rightarrow> signal" where
  "stamp_monitor now s \<equiv> set_coverage (\<lambda>c. c\<lparr>cv_last_monitor_ms := Some now\<rparr>) s"

lemma monitor_deadline_stamp [simp]: "monitor_deadline (stamp_monitor v s) = monitor_deadline s"
  by (simp add: monitor_deadline_def holding_deadline_def trigger_deadline_def)

lemma observe_stamp: "observe t (stamp_monitor v s) = stamp_monitor v (observe t s)"
  by (simp add: observe_def note_touches_def note_entry_def note_cursor_def entered_def in_zone_def
      level_reached_def trigger_deadline_def)

lemma terminate_stamp: "terminate k now t (stamp_monitor v s) = stamp_monitor v (terminate k now t s)"
  by (simp add: terminate_def Let_def)

lemma advance_path_stamp:
  "advance_path now dl ts (stamp_monitor v s) = stamp_monitor v (advance_path now dl ts s)"
proof (induction ts arbitrary: s)
  case Nil
  then show ?case by simp
next
  case (Cons t ts)
  have "stop_crossed (stamp_monitor v s) = stop_crossed s" for s
    by (simp add: fun_eq_iff stop_crossed_def)
  moreover have "target_ends (stamp_monitor v s) = target_ends s" for s
    by (simp add: fun_eq_iff target_ends_def entered_def level_reached_def)
  ultimately show ?case
    using Cons.IH by (simp add: Let_def observe_stamp terminate_stamp del: crossing_frame)
qed

subsection \<open>Resuming after the cursor\<close>

lemma new_path_append:
  assumes "\<forall>y \<in> set ys. not_checked s y"
  shows "new_path s (xs @ ys) = new_path s xs @ ys"
  using assms takeWhile_append2 [of "rev ys" "not_checked s" "rev xs"] by (simp add: new_path_def)

lemma new_path_suffix: "\<exists>pre. xs = pre @ new_path s xs"
proof -
  have "rev xs = takeWhile (not_checked s) (rev xs) @ dropWhile (not_checked s) (rev xs)" by simp
  then have "xs = rev (dropWhile (not_checked s) (rev xs)) @ new_path s xs"
    unfolding new_path_def by (metis rev_append rev_rev_ident)
  then show ?thesis by blast
qed

lemma new_path_after:
  assumes "xs = pre @ [c] @ post"
    and "cv_last_checked_trade_id (sg_coverage s) = Some (tr_trade_id c)"
    and "monitor_cursor s = tr_event_ms c"
    and "sorted (map tr_event_ms xs)" "distinct (map tr_trade_id xs)"
  shows "new_path s xs = post"
proof -
  have "not_checked s y" if "y \<in> set post" for y
  proof -
    have "tr_event_ms c \<le> tr_event_ms y"
      using assms(1,4) that by (auto simp: sorted_append)
    moreover have "tr_trade_id y \<noteq> tr_trade_id c"
      using assms(1,5) that by (auto simp: image_iff)
    ultimately show ?thesis using assms(2,3) by (simp add: not_checked_def)
  qed
  moreover have "\<not> not_checked s c" using assms(2) by (simp add: not_checked_def)
  ultimately have "takeWhile (not_checked s) (rev ((pre @ [c]) @ post)) = rev post"
    by (intro takeWhile_rev_append) auto
  with assms(1) show ?thesis by (simp add: new_path_def)
qed

lemma sorted_skip_split:
  assumes "sorted (map tr_event_ms ts)" "\<forall>t \<in> set ts. tr_receipt_ms t \<le> now"
  shows "ts = filter (\<lambda>t. \<not> skipped now dl t) ts @ filter (skipped now dl) ts"
  using assms
proof (induction ts)
  case Nil
  then show ?case by simp
next
  case (Cons t ts)
  then have ih: "ts = filter (\<lambda>t. \<not> skipped now dl t) ts @ filter (skipped now dl) ts" by simp
  show ?case
  proof (cases "skipped now dl t")
    case True
    with Cons.prems have "\<forall>u \<in> set ts. skipped now dl u" by (fastforce simp: skipped_def)
    with True show ?thesis by simp
  next
    case False
    with ih show ?thesis by simp
  qed
qed

text \<open>The two polls, on lists of trades.\<close>

lemma poll_twice:
  assumes sorted: "sorted (map tr_event_ms (xs @ ys))"
    and distinct: "distinct (map tr_trade_id (xs @ ys))"
    and received: "\<forall>t \<in> set xs. tr_receipt_ms t \<le> now1"
    and later: "\<forall>y \<in> set ys. not_checked s y"
    and order: "now1 \<le> now2"
    and live: "sg_state (advance_trades s xs now1) = sg_state s" "sg_state s \<notin> TERMINAL"
  shows "advance_trades (advance_trades s xs now1) (xs @ ys) now2 = advance_trades s (xs @ ys) now2"
proof -
  let ?dl = "monitor_deadline s"
  define q where "q = new_path s xs"
  define p where "p = filter (\<lambda>t. \<not> skipped now1 ?dl t) q"
  define r where "r = filter (skipped now1 ?dl) q"
  obtain pre where pre: "xs = pre @ q" using new_path_suffix [of xs s] q_def by auto
  have "sorted (map tr_event_ms q)" "\<forall>t \<in> set q. tr_receipt_ms t \<le> now1"
    using sorted received pre by (auto simp: sorted_append)
  then have q: "q = p @ r" unfolding p_def r_def by (rule sorted_skip_split)
  have none: "first_exit s (entered s) p = None"
  proof (cases "first_exit s (entered s) p")
    case (Some x)
    then show ?thesis
      using live advance_path_refines [of now1 ?dl q s]
      by (cases x; cases "snd x") (auto simp: advance_trades_def q_def p_def exit_state_def)
  qed
  let ?f = "fold observe p s"
  have s1: "advance_trades s xs now1 = stamp_monitor now1 ?f"
    using none advance_path_no_exit [of s now1 ?dl q] by (simp add: advance_trades_def q_def p_def)
  have path: "new_path (stamp_monitor now1 ?f) (xs @ ys) = r @ ys"
  proof (cases "p = []")
    case True
    moreover have "not_checked (stamp_monitor now1 s) = not_checked s"
      by (auto simp: fun_eq_iff not_checked_def monitor_cursor_def split: option.splits)
    ultimately have "new_path (stamp_monitor now1 ?f) = new_path s"
      by (intro ext) (simp add: new_path_def)
    then show ?thesis using True q later by (simp add: new_path_append q_def [symmetric])
  next
    case False
    then have "xs @ ys = (pre @ butlast p) @ [last p] @ (r @ ys)" using pre q by simp
    then show ?thesis
      using sorted distinct fold_observe_cursor [OF False, of s]
      by (intro new_path_after) (auto simp: monitor_cursor_def)
  qed
  have keep: "filter (\<lambda>t. \<not> skipped now2 ?dl t) p = p"
    by (rule filter_True) (use order in \<open>auto simp: p_def skipped_def\<close>)
  have "advance_path now2 ?dl (p @ (r @ ys)) s = advance_path now2 ?dl (r @ ys) ?f"
    using advance_path_append_no_exit [of s now2 ?dl p "r @ ys"] none keep by simp
  moreover have "new_path s (xs @ ys) = p @ (r @ ys)"
    using new_path_append [OF later, of xs] q by (simp add: q_def [symmetric])
  moreover have "monitor_deadline (stamp_monitor now1 ?f) = ?dl" by simp
  ultimately show ?thesis
    unfolding s1 by (simp add: advance_trades_def path advance_path_stamp)
qed

text \<open>An exit seen by a poll is the exit a later poll of the longer path would have seen.\<close>

lemma poll_exit_stable:
  assumes later: "\<forall>y \<in> set ys. not_checked s y"
    and sorted: "sorted (map tr_event_ms xs)" and received: "\<forall>t \<in> set xs. tr_receipt_ms t \<le> now1"
    and order: "now1 \<le> now2"
    and gone: "sg_state (advance_trades s xs now1) \<noteq> sg_state s"
  shows "sg_state (advance_trades s (xs @ ys) now2) = sg_state (advance_trades s xs now1)
     \<and> map_option te_effective_ms (ev_terminal_event (sg_evidence (advance_trades s (xs @ ys) now2)))
       = map_option te_effective_ms (ev_terminal_event (sg_evidence (advance_trades s xs now1)))"
proof -
  let ?dl = "monitor_deadline s"
  define q where "q = new_path s xs"
  define p where "p = filter (\<lambda>t. \<not> skipped now1 ?dl t) q"
  obtain pre where pre: "xs = pre @ q" using new_path_suffix [of xs s] q_def by auto
  have "sorted (map tr_event_ms q)" "\<forall>t \<in> set q. tr_receipt_ms t \<le> now1"
    using sorted received pre by (auto simp: sorted_append)
  then have q: "q = p @ filter (skipped now1 ?dl) q" unfolding p_def by (rule sorted_skip_split)
  note one = advance_path_refines [of now1 ?dl q s, folded p_def]
  obtain x where x: "first_exit s (entered s) p = Some x"
    using gone one
    by (cases "first_exit s (entered s) p") (auto simp: advance_trades_def q_def exit_state_def)
  have keep: "filter (\<lambda>t. \<not> skipped now2 ?dl t) p = p"
    by (rule filter_True) (use order in \<open>auto simp: p_def skipped_def\<close>)
  obtain z where "filter (\<lambda>t. \<not> skipped now2 ?dl t) (new_path s (xs @ ys)) = p @ z"
    using new_path_append [OF later, of xs] keep by (metis q q_def append_assoc filter_append)
  then have "first_exit s (entered s) (filter (\<lambda>t. \<not> skipped now2 ?dl t) (new_path s (xs @ ys))) = Some x"
    using first_exit_append_some [OF x] by simp
  with x show ?thesis
    using one advance_path_refines [of now2 ?dl "new_path s (xs @ ys)" s]
    by (cases x) (simp add: advance_trades_def q_def [symmetric] exit_event_def)
qed

subsection \<open>Tapes and histories\<close>

text \<open>
  The gap test of \<^verbatim>\<open>tick\<close>: the tape's coverage must reach back to the cursor. Then the
  trades the poll reads are those it would read from the complete history of the market.
\<close>

lemma new_path_history:
  assumes "covers (tp, hist)" and "tp_coverage_start tp \<le> monitor_cursor s"
  shows "new_path s (tp_trades tp) = new_path s hist"
proof -
  from assms obtain old where hist: "hist = old @ tp_trades tp"
    and before: "\<forall>t \<in> set old. tr_event_ms t < monitor_cursor s"
    by (fastforce simp: covers_def)
  have "takeWhile (not_checked s) (rev old) = []"
    using before by (cases old rule: rev_cases) (auto simp: not_checked_def)
  then show ?thesis by (simp add: new_path_def hist takeWhile_append_stop)
qed

lemma advance_trades_history:
  assumes "covers (tp, hist)" and "tp_coverage_start tp \<le> monitor_cursor s"
  shows "advance_trades s (tp_trades tp) now = advance_trades s hist now"
  by (simp add: advance_trades_def new_path_history [OF assms])

text \<open>
  C5: polling an executed path in two rounds on a bounded tape that evicts
  old trades gives the very signal one poll over the complete history would have given, as long as
  each round's tape reaches back to the cursor.
\<close>

theorem polling_equals_history:
  assumes "covers (tp1, xs)" and "covers (tp2, xs @ ys)"
    and "tp_coverage_start tp1 \<le> monitor_cursor s"
    and "tp_coverage_start tp2 \<le> monitor_cursor (advance_trades s (tp_trades tp1) now1)"
    and "sorted (map tr_event_ms (xs @ ys))" and "distinct (map tr_trade_id (xs @ ys))"
    and "\<forall>t \<in> set xs. tr_receipt_ms t \<le> now1" and "\<forall>y \<in> set ys. not_checked s y" and "now1 \<le> now2"
    and "sg_state (advance_trades s (tp_trades tp1) now1) = sg_state s" and "sg_state s \<notin> TERMINAL"
  shows "advance_trades (advance_trades s (tp_trades tp1) now1) (tp_trades tp2) now2 = advance_trades s (xs @ ys) now2"
proof -
  have one: "advance_trades s (tp_trades tp1) now1 = advance_trades s xs now1"
    by (rule advance_trades_history [OF assms(1,3)])
  have "advance_trades (advance_trades s xs now1) (tp_trades tp2) now2
      = advance_trades (advance_trades s xs now1) (xs @ ys) now2"
    by (rule advance_trades_history [OF assms(2)]) (use assms(4) one in simp)
  also have "\<dots> = advance_trades s (xs @ ys) now2"
    by (rule poll_twice [OF assms(5-9)]) (use assms(10,11) one in simp_all)
  finally show ?thesis using one by simp
qed

definition sample_tape :: "trade list \<Rightarrow> tape" where
  "sample_tape ts = fold tape_step ts (tape_new 2 None)"

lemma sample_tape_covers:
  assumes "snd (fold abs_step ts (tape_new 2 None, [])) = ts"
  shows "covers (sample_tape ts, ts)"
proof -
  have "covers (tape_new 2 None, [])" using tape_inv_new [of 2 None] by (simp add: covers_def tape_new_def)
  from tape_history.run_inv [OF this, of ts] show ?thesis
    using assms abs_run_fst [of ts "(tape_new 2 None, [])"] unfolding sample_tape_def
    by (metis fst_conv prod.collapse)
qed

lemma polling_equals_history_witness:
  "advance_trades (advance_trades sample_signal (tp_trades (sample_tape [sample_trade ''a'' 61000 100, sample_trade ''b'' 62000 102])) 62500)
      (tp_trades (sample_tape [sample_trade ''a'' 61000 100, sample_trade ''b'' 62000 102, sample_trade ''c'' 63000 111])) 70000
    = advance_trades sample_signal ([sample_trade ''a'' 61000 100, sample_trade ''b'' 62000 102] @ [sample_trade ''c'' 63000 111]) 70000"
proof (rule polling_equals_history)
  show "covers (sample_tape [sample_trade ''a'' 61000 100, sample_trade ''b'' 62000 102], [sample_trade ''a'' 61000 100, sample_trade ''b'' 62000 102])"
    by (rule sample_tape_covers) code_simp
  show "covers (sample_tape [sample_trade ''a'' 61000 100, sample_trade ''b'' 62000 102, sample_trade ''c'' 63000 111],
      [sample_trade ''a'' 61000 100, sample_trade ''b'' 62000 102] @ [sample_trade ''c'' 63000 111])"
    unfolding append_Cons append_Nil by (rule sample_tape_covers) code_simp
qed (code_simp+)

end
