(* ===== verification/Monitor.thy ===== *)
theory Monitor imports Polling OrderBook begin

text \<open>
  The monitoring round of \<^verbatim>\<open>src/bybit_flow/lifecycle.py\<close>: \<^verbatim>\<open>tick\<close>
  walks over the active signals, decides from the tape and the book of each signal's own
  venue whether the path is complete, advances it, expires it at its original deadline and
  writes the result. The writes to the store are an explicit log. Whether a store call raises
  is an argument, so the handler's \<^verbatim>\<open>except\<close> branch is part of the model.
\<close>

datatype store_write =
    StoreSignal signal string
  | StoreMonitor signal
  | PutHardFailure string ms
  | PutLifecycleError string ms

record monitor_ctx =
  mc_feed :: "source \<Rightarrow> string \<Rightarrow> tape option \<times> book option"
  mc_trade_stale :: ms
  mc_book_stale :: ms
  mc_recorder_healthy :: bool
  mc_store_raises :: "signal \<Rightarrow> bool"

record monitor_run =
  mr_pending_ids :: "string set"
  mr_ready :: int
  mr_pending :: int
  mr_unavailable :: int
  mr_stale :: int
  mr_writes :: "store_write list"

subsection \<open>What a signal's own venue offers\<close>

definition path_gap :: "tape option \<Rightarrow> signal \<Rightarrow> bool" where
  "path_gap tape s \<longleftrightarrow>
     (case tape of None \<Rightarrow> True | Some tp \<Rightarrow> tp_coverage_start tp > monitor_cursor s)"

definition tape_is_fresh :: "monitor_ctx \<Rightarrow> ms \<Rightarrow> tape option \<Rightarrow> bool" where
  "tape_is_fresh mc now tape \<longleftrightarrow>
     (case tape of None \<Rightarrow> False | Some tp \<Rightarrow> tape_fresh (mc_trade_stale mc) now tp)"

definition book_is_fresh :: "monitor_ctx \<Rightarrow> ms \<Rightarrow> book option \<Rightarrow> bool" where
  "book_is_fresh mc now book \<longleftrightarrow>
     (case book of None \<Rightarrow> False | Some bk \<Rightarrow> book_fresh bk now (mc_book_stale mc))"

definition feed_fresh :: "monitor_ctx \<Rightarrow> ms \<Rightarrow> signal \<Rightarrow> bool" where
  "feed_fresh mc now s \<longleftrightarrow>
     (let (tape, book) = mc_feed mc (sg_source s) (sg_symbol s) in
      tape_is_fresh mc now tape \<and> book_is_fresh mc now book \<and> mc_recorder_healthy mc)"

subsection \<open>The two branches of a round\<close>

definition pause_pending :: "bool \<Rightarrow> signal \<Rightarrow> signal" where
  "pause_pending gap s =
     set_coverage (\<lambda>c. c\<lparr>cv_monitoring := Some ''paused'',
       cv_monitor_status := Some ''RECONCILIATION_PENDING'',
       cv_reason_codes := [if gap then ''COVERAGE_SOURCE_RECONNECT_GAP''
                           else ''COVERAGE_RECONCILIATION_PENDING'']\<rparr>) s"

definition expire :: "bool \<Rightarrow> ms \<Rightarrow> ms \<Rightarrow> ms \<Rightarrow> signal \<Rightarrow> signal" where
  "expire marked trade_stale now deadline s =
     (let s1 = set_coverage (\<lambda>c. c\<lparr>cv_tracking_end := Some (sg_state s = ALERTED)\<rparr>) s;
          s2 = (if sg_state s = ALERTED \<and> marked then
                  (case expiry_mark s1 (ev_latest_observed_price (sg_evidence s1))
                      (cv_monitor_cursor_event_ms (sg_coverage s1)) deadline trade_stale
                      ''LIVE_EXECUTED_TRADE'' None of
                     Some m \<Rightarrow> set_evidence (\<lambda>e. e\<lparr>ev_expiry_mark := Some m\<rparr>) s1
                   | None \<Rightarrow> s1)
                else s1);
          reason = ''Original lifecycle deadline elapsed''
      in s2\<lparr>sg_state := EXPIRED, sg_invalidation := reason,
            sg_coverage := (sg_coverage s2)\<lparr>cv_terminal_reason := Some reason\<rparr>,
            sg_evidence := (sg_evidence s2)\<lparr>
              ev_terminal_event := Some \<lparr>te_effective_ms = Some deadline, te_detected_ms = now,
                te_event_price = None, te_reference_price = Some (sg_entry s),
                te_stop_price = None, te_source = sg_source s,
                te_method = ''LIFECYCLE_DEADLINE'', te_trigger_basis = None,
                te_ambiguous = None\<rparr>\<rparr>\<rparr>)"

definition source_missing :: "tape option \<Rightarrow> book option \<Rightarrow> bool" where
  "source_missing tape book \<longleftrightarrow> tape = None \<and> book = None"

definition follow :: "monitor_ctx \<Rightarrow> ms \<Rightarrow> signal \<Rightarrow> signal" where
  "follow mc now s =
     (let (tape, book) = mc_feed mc (sg_source s) (sg_symbol s);
          fresh = feed_fresh mc now s; gap = path_gap tape s;
          s1 = (case tape of
                  Some tp \<Rightarrow> if tape_is_fresh mc now tape then advance_trades s (tp_trades tp) now else s
                | None \<Rightarrow> s);
          status = (if fresh then ''MONITOR_READY''
                    else if source_missing tape book then ''SOURCE_UNAVAILABLE'' else ''FEED_STALE'');
          s2 = set_coverage (\<lambda>c. c\<lparr>
                 cv_monitoring := Some (if fresh then ''active'' else ''paused''),
                 cv_monitor_status := Some status\<rparr>) s1
      in if sg_state s2 \<notin> TERMINAL \<and> now \<ge> monitor_deadline s2
         then expire (fresh \<and> \<not> gap) (mc_trade_stale mc) now (monitor_deadline s2) s2
         else s2)"

definition is_pending :: "monitor_ctx \<Rightarrow> string set \<Rightarrow> signal \<Rightarrow> bool" where
  "is_pending mc ids s \<longleftrightarrow>
     path_gap (fst (mc_feed mc (sg_source s) (sg_symbol s))) s \<or> sg_id s \<in> ids"

definition monitored :: "monitor_ctx \<Rightarrow> ms \<Rightarrow> string set \<Rightarrow> signal \<Rightarrow> signal" where
  "monitored mc now ids s =
     (if is_pending mc ids s
      then pause_pending (path_gap (fst (mc_feed mc (sg_source s) (sg_symbol s))) s) s
      else follow mc now s)"

definition persist :: "monitor_ctx \<Rightarrow> ms \<Rightarrow> signal \<Rightarrow> monitor_run \<Rightarrow> monitor_run" where
  "persist mc now s run =
     (let run1 = (if sg_state s \<in> TERMINAL
                     \<and> cv_terminal_reason (sg_coverage s) = Some ''PLANNED_STOP_CROSSED''
                  then run\<lparr>mr_writes := mr_writes run @ [PutHardFailure (sg_id s) now]\<rparr> else run)
      in if mc_store_raises mc s
         then run1\<lparr>mr_unavailable := mr_unavailable run1 + 1,
                   mr_writes := mr_writes run1 @ [PutLifecycleError (sg_id s) now]\<rparr>
         else run1\<lparr>mr_writes := mr_writes run1 @
                [if sg_state s \<in> TERMINAL then StoreSignal s (sg_invalidation s)
                 else StoreMonitor s]\<rparr>)"

definition tick_signal :: "monitor_ctx \<Rightarrow> ms \<Rightarrow> signal \<Rightarrow> monitor_run \<Rightarrow> monitor_run" where
  "tick_signal mc now s run =
     (let (tape, book) = mc_feed mc (sg_source s) (sg_symbol s);
          fresh = feed_fresh mc now s;
          missing = source_missing tape book;
          run1 = (if path_gap tape s
                  then run\<lparr>mr_pending_ids := insert (sg_id s) (mr_pending_ids run)\<rparr> else run);
          run2 = (if is_pending mc (mr_pending_ids run1) s
                  then run1\<lparr>mr_pending := mr_pending run1 + 1\<rparr>
                  else run1\<lparr>mr_ready := mr_ready run1 + (if fresh then 1 else 0),
                            mr_unavailable := mr_unavailable run1 + (if missing then 1 else 0),
                            mr_stale := mr_stale run1 + (if \<not> fresh \<and> \<not> missing then 1 else 0)\<rparr>)
      in persist mc now (monitored mc now (mr_pending_ids run) s) run2)"

definition tick :: "monitor_ctx \<Rightarrow> ms \<Rightarrow> string set \<Rightarrow> signal list \<Rightarrow> monitor_run" where
  "tick mc now ids stored =
     fold (tick_signal mc now) (filter (\<lambda>s. sg_source s \<noteq> Tradingview) stored)
       \<lparr>mr_pending_ids = ids, mr_ready = 0, mr_pending = 0, mr_unavailable = 0, mr_stale = 0,
        mr_writes = []\<rparr>"

definition tick_status :: "monitor_run \<Rightarrow> string" where
  "tick_status run =
     (if mr_pending run \<noteq> 0 then ''RECONCILIATION_PENDING''
      else if mr_unavailable run \<noteq> 0 then ''SOURCE_UNAVAILABLE''
      else if mr_stale run \<noteq> 0 then ''FEED_STALE'' else ''MONITOR_READY'')"

text \<open>\<^verbatim>\<open>retire_tradingview\<close>: the chart setups of the removed subsystem are closed.\<close>

definition retire_signal :: "ms \<Rightarrow> signal \<Rightarrow> signal" where
  "retire_signal now s =
     (let reason = ''TRADINGVIEW_SUBSYSTEM_RETIRED'' in
      s\<lparr>sg_state := INVALIDATED, sg_invalidation := reason,
        sg_coverage := (sg_coverage s)\<lparr>cv_terminal_reason := Some reason\<rparr>,
        sg_evidence := (sg_evidence s)\<lparr>
          ev_terminal_event := Some \<lparr>te_effective_ms = None, te_detected_ms = now,
            te_event_price = None, te_reference_price = None, te_stop_price = None,
            te_source = Tradingview, te_method = ''SUBSYSTEM_RETIREMENT'',
            te_trigger_basis = None, te_ambiguous = None\<rparr>\<rparr>\<rparr>)"

definition retire_tradingview :: "ms \<Rightarrow> signal list \<Rightarrow> store_write list" where
  "retire_tradingview now stored =
     map (\<lambda>s. let r = retire_signal now s in StoreSignal r (sg_invalidation r))
       (filter (\<lambda>s. sg_source s = Tradingview) stored)"

subsection \<open>Facts about one round\<close>

lemma monitor_status_frame:
  "sg_state (set_coverage f s) = sg_state s" "plan_of (set_coverage f s) = plan_of s"
  "plan_of (set_evidence g s) = plan_of s"
  by (simp_all add: plan_of_def)

lemma expire_frame [simp]:
  "sg_state (expire b m now dl s) = EXPIRED" "plan_of (expire b m now dl s) = plan_of s"
  "sg_source (expire b m now dl s) = sg_source s" "sg_id (expire b m now dl s) = sg_id s"
  by (auto simp: expire_def Let_def plan_of_def split: option.split)

lemma plan_of_follow: "plan_of (follow mc now s) = plan_of s"
proof -
  have "plan_of (set_coverage f (advance_trades s ts now)) = plan_of s" for f ts
    using plan_of_advance [of s ts now] by (simp add: plan_of_def)
  moreover have "plan_of (set_coverage f s) = plan_of s" for f by (simp add: plan_of_def)
  ultimately show ?thesis
    by (auto simp: follow_def Let_def split: prod.split option.split)
qed

lemma plan_of_monitored: "plan_of (monitored mc now ids s) = plan_of s"
  by (simp add: monitored_def plan_of_follow) (simp add: pause_pending_def plan_of_def)

lemma monitored_id [simp]: "sg_id (monitored mc now ids s) = sg_id s"
  using plan_of_monitored [of mc now ids s] by (simp add: plan_of_def)

text \<open>Monitoring moves the state only along the order of progress.\<close>

lemma advance_trades_state:
  "sg_state (advance_trades s ts now) = sg_state s \<or> sg_state (advance_trades s ts now) \<in> TERMINAL"
  by (simp add: advance_trades_def advance_path_refines [THEN conjunct1] exit_state_def
      split: option.split prod.split exit_kind.split)

lemma follow_state:
  "sg_state (follow mc now s) = sg_state s \<or> sg_state (follow mc now s) \<in> TERMINAL"
  using advance_trades_state
  by (auto simp: follow_def Let_def split: prod.split option.split)

lemma monitored_progress: "sg_state s \<notin> TERMINAL \<Longrightarrow> sg_state s \<le> sg_state (monitored mc now ids s)"
  using follow_state [of mc now s]
  by (auto simp: monitored_def pause_pending_def state_le_iff)

text \<open>Over a gap nothing of the plan, the evidence or the state moves.\<close>

lemma monitored_gap:
  "is_pending mc ids s \<Longrightarrow>
   sg_state (monitored mc now ids s) = sg_state s
   \<and> sg_evidence (monitored mc now ids s) = sg_evidence s
   \<and> cv_monitoring (sg_coverage (monitored mc now ids s)) = Some ''paused''
   \<and> monitor_cursor (monitored mc now ids s) = monitor_cursor s"
  by (simp add: monitored_def pause_pending_def monitor_cursor_def split: option.split)

text \<open>The branch that reports a missing source is never reached: no tape is already a gap.\<close>

lemma not_pending_tape:
  "\<not> is_pending mc ids s \<Longrightarrow> \<exists>tp. fst (mc_feed mc (sg_source s) (sg_symbol s)) = Some tp"
  by (cases "fst (mc_feed mc (sg_source s) (sg_symbol s))") (auto simp: is_pending_def path_gap_def)

lemma not_pending_not_missing:
  "\<not> is_pending mc ids s \<Longrightarrow> mc_feed mc (sg_source s) (sg_symbol s) = (tape, book)
   \<Longrightarrow> \<not> source_missing tape book"
  using not_pending_tape [of mc ids s] by (auto simp: source_missing_def)

lemma persist_counts [simp]:
  "mr_pending (persist mc now s run) = mr_pending run"
  "mr_ready (persist mc now s run) = mr_ready run"
  "mr_stale (persist mc now s run) = mr_stale run"
  "mr_pending_ids (persist mc now s run) = mr_pending_ids run"
  "mr_unavailable (persist mc now s run) = mr_unavailable run + (if mc_store_raises mc s then 1 else 0)"
  by (auto simp: persist_def Let_def)

text \<open>Every signal is counted in exactly one column, and a raising store call adds one.\<close>

definition total_count :: "monitor_run \<Rightarrow> int" where
  "total_count run = mr_ready run + mr_pending run + mr_unavailable run + mr_stale run"

lemma pending_after_gap:
  "is_pending mc (if path_gap (fst (mc_feed mc (sg_source s) (sg_symbol s))) s
                  then insert (sg_id s) ids else ids) s = is_pending mc ids s"
  by (simp add: is_pending_def)

lemma tick_signal_count:
  "total_count (tick_signal mc now s run) = total_count run + 1
     + (if mc_store_raises mc (monitored mc now (mr_pending_ids run) s) then 1 else 0)"
proof -
  obtain tape book where feed: "mc_feed mc (sg_source s) (sg_symbol s) = (tape, book)" by fastforce
  have pend: "is_pending mc (if path_gap tape s then insert (sg_id s) (mr_pending_ids run)
        else mr_pending_ids run) s = is_pending mc (mr_pending_ids run) s"
    using pending_after_gap [of mc s "mr_pending_ids run"] feed by simp
  show ?thesis
  proof (cases "is_pending mc (mr_pending_ids run) s")
    case True
    then show ?thesis using feed pend
      by (simp add: tick_signal_def total_count_def Let_def split: if_split_asm)
  next
    case False
    then have "\<not> path_gap tape s" using feed by (simp add: is_pending_def)
    with False show ?thesis using feed not_pending_not_missing [OF False feed]
      by (simp add: tick_signal_def total_count_def Let_def)
  qed
qed

lemma tick_count:
  "\<forall>s. \<not> mc_store_raises mc s \<Longrightarrow>
   total_count (fold (tick_signal mc now) ss run) = total_count run + int (length ss)"
  by (induction ss arbitrary: run) (simp_all add: tick_signal_count)

lemma tick_unavailable:
  "\<forall>s. \<not> mc_store_raises mc s \<Longrightarrow>
   mr_unavailable (fold (tick_signal mc now) ss run) = mr_unavailable run"
proof (induction ss arbitrary: run)
  case Nil
  then show ?case by simp
next
  case (Cons s ss)
  obtain tape book where feed: "mc_feed mc (sg_source s) (sg_symbol s) = (tape, book)" by fastforce
  have "mr_unavailable (tick_signal mc now s run) = mr_unavailable run"
  proof (cases "is_pending mc (mr_pending_ids run) s")
    case True
    then have "is_pending mc (if path_gap tape s then insert (sg_id s) (mr_pending_ids run)
        else mr_pending_ids run) s"
      using pending_after_gap [of mc s "mr_pending_ids run"] feed by simp
    then show ?thesis using Cons.prems feed
      by (simp add: tick_signal_def Let_def split: if_split_asm)
  next
    case False
    then have "\<not> path_gap tape s" using feed by (simp add: is_pending_def)
    with False show ?thesis using Cons.prems feed not_pending_not_missing [OF False feed]
      by (simp add: tick_signal_def Let_def)
  qed
  with Cons show ?case by simp
qed

text \<open>
  C23: one monitoring round of a live signal leaves its frozen plan alone and only
  keeps its state or ends it; while its path has a gap or reconciliation is pending, state, evidence
  and cursor are frozen and the monitoring is reported as paused.
\<close>

theorem monitoring_is_safe:
  assumes "sg_state s \<notin> TERMINAL"
  shows "plan_of (monitored mc now ids s) = plan_of s \<and> sg_state s \<le> sg_state (monitored mc now ids s)
    \<and> (is_pending mc ids s \<longrightarrow>
        sg_state (monitored mc now ids s) = sg_state s
        \<and> sg_evidence (monitored mc now ids s) = sg_evidence s
        \<and> monitor_cursor (monitored mc now ids s) = monitor_cursor s
        \<and> cv_monitoring (sg_coverage (monitored mc now ids s)) = Some ''paused'')"
  using plan_of_monitored monitored_progress [OF assms] monitored_gap by blast

definition sample_monitor :: "tape option \<Rightarrow> monitor_ctx" where
  "sample_monitor tp =
     \<lparr>mc_feed = (\<lambda>_ _. (tp, None)), mc_trade_stale = 5000, mc_book_stale = 5000,
      mc_recorder_healthy = True, mc_store_raises = (\<lambda>_. False)\<rparr>"

lemma monitoring_is_safe_witness:
  "plan_of (monitored (sample_monitor None) 70000 {} sample_signal) = plan_of sample_signal
    \<and> sg_evidence (monitored (sample_monitor None) 70000 {} sample_signal) = sg_evidence sample_signal"
proof -
  have live: "sg_state sample_signal \<notin> TERMINAL" by (simp add: sample_signal_def TERMINAL_def)
  have "is_pending (sample_monitor None) {} sample_signal"
    by (simp add: is_pending_def path_gap_def sample_monitor_def)
  with monitoring_is_safe [OF live] show ?thesis by blast
qed

text \<open>
  In a round whose store calls succeed every followed signal is counted as ready,
  pending or stale, and the source-unavailable counter and status, which the code provides for a
  signal without tape and book, are never produced: such a signal has already been counted as a
  gap.
\<close>

theorem tick_accounts:
  assumes "\<forall>s. \<not> mc_store_raises mc s"
  shows "mr_ready (tick mc now ids stored) + mr_pending (tick mc now ids stored) + mr_stale (tick mc now ids stored)
      = int (length (filter (\<lambda>s. sg_source s \<noteq> Tradingview) stored))
    \<and> mr_unavailable (tick mc now ids stored) = 0
    \<and> tick_status (tick mc now ids stored) \<noteq> ''SOURCE_UNAVAILABLE''"
proof -
  have "mr_unavailable (tick mc now ids stored) = 0" by (simp add: tick_def tick_unavailable [OF assms])
  moreover have "total_count (tick mc now ids stored) = int (length (filter (\<lambda>s. sg_source s \<noteq> Tradingview) stored))"
    unfolding tick_def tick_count [OF assms] by (simp add: total_count_def)
  ultimately show ?thesis by (simp add: total_count_def tick_status_def)
qed

lemma tick_accounts_witness:
  "mr_unavailable (tick (sample_monitor None) 70000 {} [sample_signal]) = 0
    \<and> mr_ready (tick (sample_monitor None) 70000 {} [sample_signal])
      + mr_pending (tick (sample_monitor None) 70000 {} [sample_signal])
      + mr_stale (tick (sample_monitor None) 70000 {} [sample_signal]) = 1"
  using tick_accounts [of "sample_monitor None" 70000 "{}" "[sample_signal]"]
  by (simp add: sample_monitor_def) (simp add: sample_signal_def)

end
