(* ===== verification/Reconciliation.thy ===== *)
theory Reconciliation imports Monitor begin

text \<open>
  Downtime reconciliation, \<^verbatim>\<open>src/bybit_flow/reconciliation.py\<close>: \<^verbatim>\<open>advance\<close>
  rebuilds a plan's path from closed one-minute candles, \<^verbatim>\<open>reconcile\<close> runs it one
  page at a time and persists the progress. Candle values are finite by the number model.
  The copy of the result under \<^verbatim>\<open>coverage["reconciliation"]\<close> duplicates the stored
  progress and is left out.
\<close>

abbreviation minute :: ms where "minute \<equiv> 60000"

record recon =
  rc_cursor :: ms
  rc_complete :: bool
  rc_reason :: "string option"
  rc_entered :: "ms option"
  rc_state :: "sig_state option"
  rc_outcome :: "string option"
  rc_effective :: "ms option"
  rc_ambiguous :: "bool option"
  rc_mark :: "mark option"
  rc_error :: "py_error option"

definition recon_start :: "ms \<Rightarrow> recon" where
  "recon_start cursor =
     \<lparr>rc_cursor = cursor, rc_complete = False, rc_reason = None, rc_entered = None,
      rc_state = None, rc_outcome = None, rc_effective = None, rc_ambiguous = None,
      rc_mark = None, rc_error = None\<rparr>"

subsection \<open>One candle\<close>

definition bar_valid :: "candle \<Rightarrow> bool" where
  "bar_valid b \<longleftrightarrow>
     cd_open b > 0 \<and> cd_high b > 0 \<and> cd_low b > 0 \<and> cd_close b > 0
     \<and> cd_low b \<le> min (cd_open b) (cd_close b)
     \<and> min (cd_open b) (cd_close b) \<le> max (cd_open b) (cd_close b)
     \<and> max (cd_open b) (cd_close b) \<le> cd_high b"

definition bar_stop :: "signal \<Rightarrow> candle \<Rightarrow> bool" where
  "bar_stop s b \<longleftrightarrow>
     (if sg_direction s = LONG then cd_low b \<le> sg_stop s else cd_high b \<ge> sg_stop s)"

definition bar_target :: "signal \<Rightarrow> candle \<Rightarrow> bool" where
  "bar_target s b \<longleftrightarrow>
     (if sg_direction s = LONG then cd_high b \<ge> sg_tp1 s else cd_low b \<le> sg_tp1 s)"

definition bar_enters :: "signal \<Rightarrow> candle \<Rightarrow> bool" where
  "bar_enters s b \<longleftrightarrow>
     cd_start b \<le> trigger_deadline s \<and> cd_low b \<le> snd (sg_zone s) \<and> cd_high b \<ge> fst (sg_zone s)"

definition bar_exits :: "signal \<Rightarrow> ms option \<Rightarrow> candle \<Rightarrow> bool" where
  "bar_exits s ent b \<longleftrightarrow>
     bar_stop s b \<or> (bar_target s b \<and> ent \<noteq> None \<and> sg_horizon_profile s \<noteq> LEGACY)"

subsection \<open>The loop over candles\<close>

record recon_acc =
  ra_expected :: ms
  ra_entered :: "ms option"
  ra_last :: "(dec \<times> ms) option"
  ra_result :: recon

definition recon_exit :: "signal \<Rightarrow> ms \<Rightarrow> candle \<Rightarrow> recon \<Rightarrow> recon" where
  "recon_exit s cursor b r =
     (let stop = bar_stop s b in
      r\<lparr>rc_state := Some (if stop then INVALIDATED else RESOLVED),
        rc_outcome := Some (if stop then ''STOP'' else ''TARGET''),
        rc_effective := Some (cd_end b), rc_complete := True,
        rc_ambiguous := Some ((stop \<and> bar_target s b) \<or> cd_start b < cursor),
        rc_reason := Some (if stop then ''Stop observed during downtime''
                           else ''Target observed during downtime'')\<rparr>)"

text \<open>Inl is an early return, Inr the values at the end of the loop.\<close>

fun recon_loop :: "signal \<Rightarrow> ms \<Rightarrow> ms \<Rightarrow> candle list \<Rightarrow> recon_acc \<Rightarrow> recon + recon_acc" where
  "recon_loop s cursor limit [] a = Inr a"
| "recon_loop s cursor limit (b # bs) a =
     (if cd_end b \<le> cursor \<or> cd_end b > limit then recon_loop s cursor limit bs a
      else if cd_start b \<noteq> ra_expected a \<or> cd_interval b \<noteq> minute
      then Inl ((ra_result a)\<lparr>rc_reason := Some ''Missing historical candle; reconciliation pending''\<rparr>)
      else if \<not> bar_valid b
      then Inl ((ra_result a)\<lparr>rc_reason := Some ''Invalid historical OHLC; reconciliation pending''\<rparr>)
      else
        let ent = (if ra_entered a = None \<and> bar_enters s b then Some (cd_end b) else ra_entered a);
            r = (ra_result a)\<lparr>rc_cursor := cd_end b, rc_entered := ent\<rparr>
        in if bar_exits s (ra_entered a) b then Inl (recon_exit s cursor b r)
           else recon_loop s cursor limit bs
             \<lparr>ra_expected = cd_end b, ra_entered = ent,
              ra_last = Some (cd_close b, cd_end b), ra_result = r\<rparr>)"

definition recon_deadline :: "signal \<Rightarrow> ms" where
  "recon_deadline s =
     (if sg_state s = ALERTED then holding_deadline s
      else min (holding_deadline s) (trigger_deadline s))"

definition recon_finish :: "signal \<Rightarrow> ms \<Rightarrow> recon_acc \<Rightarrow> recon" where
  "recon_finish s until a =
     (let deadline = recon_deadline s;
          r = ra_result a;
          complete = (rc_cursor r \<ge> bucket_start minute (min until deadline));
          r1 = r\<lparr>rc_complete := complete\<rparr>
      in if complete \<and> until \<ge> deadline then
           (let r2 = (case (ra_entered a, ra_last a) of
                        (Some e, Some (close, at_end)) \<Rightarrow>
                          if sg_state s = ALERTED \<and> e < at_end then
                            (case expiry_mark s (Some close) (Some at_end) deadline minute
                                ''CLOSED_1M_OHLC'' (Some e) of
                               Some m \<Rightarrow> r1\<lparr>rc_mark := Some m\<rparr> | None \<Rightarrow> r1)
                          else r1
                      | _ \<Rightarrow> r1)
            in r2\<lparr>rc_state := Some EXPIRED, rc_outcome := Some ''EXPIRED'',
                  rc_effective := Some deadline,
                  rc_reason := Some ''Original tracking deadline elapsed during downtime''\<rparr>)
         else r1)"

definition advance :: "signal \<Rightarrow> candle list \<Rightarrow> ms \<Rightarrow> ms \<Rightarrow> recon" where
  "advance s bars cursor until =
     (case recon_loop s cursor (min until (recon_deadline s)) (sort_key cd_start bars)
         \<lparr>ra_expected = bucket_start minute cursor,
          ra_entered = ev_observed_entry_ms (sg_evidence s), ra_last = None,
          ra_result = recon_start cursor\<rparr> of
        Inl r \<Rightarrow> r
      | Inr a \<Rightarrow> recon_finish s until a)"

subsection \<open>One evaluation of \<^verbatim>\<open>reconcile\<close>\<close>

record saved_recon =
  sv_cursor :: "ms option"
  sv_last_attempt :: "ms option"
  sv_status :: "string option"

datatype recon_write =
    RSignal signal string
  | RProgress recon
  | RReconciled ms ms
  | ROhlc ms "candle list"
  | RResearchUpdate signal

record recon_run =
  rr_signal :: signal
  rr_pending :: "string set"
  rr_writes :: "recon_write list"
  rr_live :: bool

definition initial_cursor :: "signal \<Rightarrow> ms" where
  "initial_cursor s =
     (let c = sg_coverage s in
      or_ms (cv_monitor_cursor_event_ms c) (or_ms (cv_last_trustworthy_ms c)
        (or_ms (cv_pause_since_ms c) (or_ms (cv_checked_ms c) (sg_created_ms s)))))"

definition recon_cursor :: "signal \<Rightarrow> saved_recon \<Rightarrow> ms" where
  "recon_cursor s sv = max (initial_cursor s) (case sv_cursor sv of None \<Rightarrow> 0 | Some c \<Rightarrow> c)"

definition live_covers_tail :: "monitor_ctx \<Rightarrow> ms \<Rightarrow> ms \<Rightarrow> signal \<Rightarrow> bool" where
  "live_covers_tail mc now cursor s \<longleftrightarrow>
     (let (tape, book) = mc_feed mc (sg_source s) (sg_symbol s) in
      mc_recorder_healthy mc \<and> book_is_fresh mc now book
      \<and> (case tape of None \<Rightarrow> False
         | Some tp \<Rightarrow> 0 \<le> now - tp_last_receipt tp \<and> now - tp_last_receipt tp \<le> mc_trade_stale mc
             \<and> tp_coverage_start tp \<le> cursor))"

definition resume_live :: "ms \<Rightarrow> ms \<Rightarrow> signal \<Rightarrow> signal" where
  "resume_live now cursor s =
     set_coverage (\<lambda>c. c\<lparr>cv_monitor_cursor_event_ms := Some cursor, cv_last_monitor_ms := Some now,
       cv_monitoring := Some ''active'', cv_monitor_status := Some ''RECONCILED_PENDING_PATH'',
       cv_last_checked_trade_id := None\<rparr>) s"

definition recon_result :: "signal \<Rightarrow> (py_error + candle list) \<Rightarrow> ms \<Rightarrow> ms \<Rightarrow> recon" where
  "recon_result s fetched cursor now =
     (case fetched of
        Inl e \<Rightarrow> (recon_start cursor)\<lparr>rc_error := Some e\<rparr>
      | Inr bars \<Rightarrow> advance s bars cursor now)"

definition note_downtime :: "signal \<Rightarrow> recon \<Rightarrow> signal" where
  "note_downtime s r =
     set_evidence (\<lambda>e.
         if rc_entered r \<noteq> None \<and> rc_entered r \<noteq> Some 0 \<and> ev_observed_entry_ms e = None
         then e\<lparr>ev_observed_entry_ms := rc_entered r\<rparr> else e)
       (set_coverage (\<lambda>c. c\<lparr>cv_monitoring := Some ''paused'',
          cv_pause_since_ms := (case cv_pause_since_ms c of None \<Rightarrow> Some (initial_cursor s) | p \<Rightarrow> p),
          cv_monitoring_event := None\<rparr>) s)"

definition close_downtime :: "ms \<Rightarrow> recon \<Rightarrow> sig_state \<Rightarrow> signal \<Rightarrow> signal" where
  "close_downtime now r st s =
     s\<lparr>sg_state := st,
       sg_coverage := (sg_coverage s)\<lparr>
         cv_tracking_end := (if st = EXPIRED then Some (sg_state s = ALERTED)
                             else cv_tracking_end (sg_coverage s)),
         cv_terminal_reason := (if rc_outcome r = Some ''STOP'' then Some ''PLANNED_STOP_CROSSED''
                                else rc_reason r)\<rparr>,
       sg_evidence := (sg_evidence s)\<lparr>
         ev_terminal_event := Some \<lparr>te_effective_ms = rc_effective r, te_detected_ms = now,
           te_event_price = None,
           te_reference_price = Some (if rc_outcome r = Some ''STOP'' then sg_stop s
             else if rc_outcome r = Some ''TARGET'' then sg_tp1 s else sg_entry s),
           te_stop_price = None, te_source = sg_source s, te_method = ''CLOSED_1M_OHLC'',
           te_trigger_basis = None,
           te_ambiguous = Some (rc_ambiguous r = Some True)\<rparr>,
         ev_primary_outcome := (if rc_ambiguous r = Some True then Some ''UNCLEAR'' else rc_outcome r),
         ev_expiry_mark := (case rc_mark r of None \<Rightarrow> ev_expiry_mark (sg_evidence s)
                            | Some m \<Rightarrow> Some m)\<rparr>\<rparr>"

definition reconcile ::
    "monitor_ctx \<Rightarrow> (signal \<Rightarrow> bool) \<Rightarrow> (py_error + candle list) \<Rightarrow> ms \<Rightarrow> string set \<Rightarrow>
     saved_recon \<Rightarrow> signal \<Rightarrow> recon_run" where
  "reconcile mc recording_blocked fetched now pending sv s =
     (let cursor = recon_cursor s sv in
      if live_covers_tail mc now cursor s then
        (let s1 = resume_live now cursor s in
         \<lparr>rr_signal = s1, rr_pending = pending - {sg_id s},
          rr_writes = [RSignal s1 ''Historical gap covered; live path resumes'', RReconciled cursor now],
          rr_live = True\<rparr>)
      else if now - (case sv_last_attempt sv of None \<Rightarrow> 0 | Some t \<Rightarrow> t) < 15000 then
        \<lparr>rr_signal = s, rr_pending = pending, rr_writes = [], rr_live = False\<rparr>
      else
        (let r = recon_result s fetched cursor now;
             ohlc = (case fetched of Inr bars \<Rightarrow> if recording_blocked s then [ROhlc cursor bars] else []
                     | Inl _ \<Rightarrow> []);
             s1 = note_downtime s r
         in case rc_state r of
              Some st \<Rightarrow>
                (let s2 = close_downtime now r st s1;
                     reason = (case rc_reason r of None \<Rightarrow> [] | Some x \<Rightarrow> x)
                 in \<lparr>rr_signal = s2, rr_pending = pending - {sg_id s},
                     rr_writes = ohlc @ [RProgress r, RSignal s2 reason]
                       @ (if sg_state s = ALERTED then [RResearchUpdate s2] else []),
                     rr_live = False\<rparr>)
            | None \<Rightarrow>
                \<lparr>rr_signal = s1, rr_pending = pending,
                 rr_writes = ohlc @ [RProgress r, RSignal s1 ''Downtime reconciliation pending''],
                 rr_live = False\<rparr>))"


subsection \<open>What the loop has established\<close>

text \<open>
  A minute is cleared when a valid candle for it shows neither the stop nor, for a plan whose
  entry was already observed, the target.
\<close>

definition cleared :: "signal \<Rightarrow> bool \<Rightarrow> candle \<Rightarrow> bool" where
  "cleared s ent b \<longleftrightarrow>
     bar_valid b \<and> cd_interval b = minute \<and> \<not> bar_stop s b
     \<and> (ent \<and> sg_horizon_profile s \<noteq> LEGACY \<longrightarrow> \<not> bar_target s b)"

definition cleared_until :: "signal \<Rightarrow> bool \<Rightarrow> candle set \<Rightarrow> ms \<Rightarrow> ms \<Rightarrow> bool" where
  "cleared_until s ent bars from till \<longleftrightarrow>
     (\<forall>k. 0 \<le> k \<and> from + k * minute < till \<longrightarrow>
        (\<exists>b \<in> bars. cd_start b = from + k * minute \<and> cleared s ent b))"

definition recon_inv :: "signal \<Rightarrow> candle set \<Rightarrow> ms \<Rightarrow> ms \<Rightarrow> recon_acc \<Rightarrow> bool" where
  "recon_inv s bars cursor limit a \<longleftrightarrow>
     (\<exists>n \<ge> 0. ra_expected a = bucket_start minute cursor + n * minute)
     \<and> cleared_until s (ev_observed_entry_ms (sg_evidence s) \<noteq> None) bars
         (bucket_start minute cursor) (ra_expected a)
     \<and> rc_cursor (ra_result a) = (if ra_last a = None then cursor else ra_expected a)
     \<and> (ra_last a = None \<longrightarrow> ra_expected a = bucket_start minute cursor)
     \<and> (ra_last a \<noteq> None \<longrightarrow> cursor < ra_expected a \<and> ra_expected a \<le> limit)
     \<and> (ev_observed_entry_ms (sg_evidence s) \<noteq> None \<longrightarrow> ra_entered a \<noteq> None)
     \<and> rc_state (ra_result a) = None \<and> \<not> rc_complete (ra_result a)
     \<and> rc_ambiguous (ra_result a) = None"

lemma cleared_until_step:
  assumes "cleared_until s ent bars from till" "b \<in> bars" "cleared s ent b"
    "cd_start b = till" "till = from + n * minute" "0 \<le> n"
  shows "cleared_until s ent bars from (till + minute)"
  unfolding cleared_until_def
proof (intro allI impI)
  fix k :: int assume k: "0 \<le> k \<and> from + k * minute < till + minute"
  show "\<exists>b \<in> bars. cd_start b = from + k * minute \<and> cleared s ent b"
  proof (cases "k = n")
    case True
    with assms show ?thesis by auto
  next
    case False
    with k assms(5) have "from + k * minute < till" by auto
    with k assms(1) show ?thesis by (auto simp: cleared_until_def)
  qed
qed

text \<open>The exit the loop reports: its candle follows a cleared prefix.\<close>

definition recon_exit_at :: "signal \<Rightarrow> candle set \<Rightarrow> ms \<Rightarrow> ms \<Rightarrow> candle \<Rightarrow> recon \<Rightarrow> bool" where
  "recon_exit_at s bars cursor limit b r \<longleftrightarrow>
     b \<in> bars \<and> bar_valid b \<and> cd_interval b = minute
     \<and> cursor < cd_end b \<and> cd_end b \<le> limit
     \<and> cleared_until s (ev_observed_entry_ms (sg_evidence s) \<noteq> None) bars
         (bucket_start minute cursor) (cd_start b)
     \<and> (\<exists>n \<ge> 0. cd_start b = bucket_start minute cursor + n * minute)
     \<and> rc_cursor r = cd_end b \<and> rc_effective r = Some (cd_end b) \<and> rc_complete r
     \<and> rc_ambiguous r = Some ((bar_stop s b \<and> bar_target s b) \<or> cd_start b < cursor)
     \<and> rc_state r = Some (if bar_stop s b then INVALIDATED else RESOLVED)
     \<and> rc_outcome r = Some (if bar_stop s b then ''STOP'' else ''TARGET'')
     \<and> (\<not> bar_stop s b \<longrightarrow> bar_target s b \<and> sg_horizon_profile s \<noteq> LEGACY)"

lemma recon_loop_spec:
  assumes "recon_inv s bars cursor limit a" "set bs \<subseteq> bars"
  shows "case recon_loop s cursor limit bs a of
      Inl r \<Rightarrow> (rc_state r = None \<and> \<not> rc_complete r \<and> rc_ambiguous r = None \<and> cursor \<le> rc_cursor r
          \<and> rc_cursor r \<le> max cursor limit)
        \<or> (\<exists>b. recon_exit_at s bars cursor limit b r)
    | Inr a' \<Rightarrow> recon_inv s bars cursor limit a'"
  using assms
proof (induction bs arbitrary: a)
  case Nil
  then show ?case by simp
next
  case (Cons b bs)
  show ?case
  proof (cases "cd_end b \<le> cursor \<or> cd_end b > limit")
    case True
    with Cons show ?thesis by simp
  next
    case rng: False
    show ?thesis
    proof (cases "cd_start b \<noteq> ra_expected a \<or> cd_interval b \<noteq> minute \<or> \<not> bar_valid b")
      case True
      with rng Cons.prems show ?thesis by (auto simp: recon_inv_def)
    next
      case ok: False
      let ?ent = "if ra_entered a = None \<and> bar_enters s b then Some (cd_end b) else ra_entered a"
      let ?r = "(ra_result a)\<lparr>rc_cursor := cd_end b, rc_entered := ?ent\<rparr>"
      show ?thesis
      proof (cases "bar_exits s (ra_entered a) b")
        case True
        then have "recon_exit_at s bars cursor limit b (recon_exit s cursor b ?r)"
          using rng ok Cons.prems
          by (auto simp: recon_exit_at_def recon_exit_def recon_inv_def bar_exits_def Let_def)
        with True rng ok show ?thesis by (auto simp: Let_def)
      next
        case False
        let ?a = "\<lparr>ra_expected = cd_end b, ra_entered = ?ent, ra_last = Some (cd_close b, cd_end b),
                   ra_result = ?r\<rparr>"
        obtain n where n: "0 \<le> n" "ra_expected a = bucket_start minute cursor + n * minute"
          using Cons.prems(1) by (auto simp: recon_inv_def)
        have endb: "cd_end b = ra_expected a + minute" using ok by (simp add: cd_end_def)
        have "cleared s (ev_observed_entry_ms (sg_evidence s) \<noteq> None) b"
          using False ok Cons.prems(1) by (auto simp: cleared_def bar_exits_def recon_inv_def)
        then have "cleared_until s (ev_observed_entry_ms (sg_evidence s) \<noteq> None) bars
            (bucket_start minute cursor) (cd_end b)"
          unfolding endb
          using cleared_until_step [of s _ bars "bucket_start minute cursor" "ra_expected a" b n]
            ok n Cons.prems by (auto simp: recon_inv_def)
        moreover have "\<exists>m \<ge> 0. cd_end b = bucket_start minute cursor + m * minute"
          using n endb by (intro exI [of _ "n + 1"]) (simp add: algebra_simps)
        ultimately have "recon_inv s bars cursor limit ?a"
          using rng Cons.prems(1) by (auto simp: recon_inv_def)
        from Cons.IH [OF this] False rng ok Cons.prems(2) show ?thesis by (auto simp: Let_def)
      qed
    qed
  qed
qed

lemma recon_inv_start:
  "recon_inv s bars cursor limit
     \<lparr>ra_expected = bucket_start minute cursor, ra_entered = ev_observed_entry_ms (sg_evidence s),
      ra_last = None, ra_result = recon_start cursor\<rparr>"
  by (auto simp: recon_inv_def recon_start_def cleared_until_def intro!: exI [of _ 0])

lemma recon_finish_frame:
  "rc_cursor (recon_finish s until a) = rc_cursor (ra_result a)"
  "rc_complete (recon_finish s until a)
     = (rc_cursor (ra_result a) \<ge> bucket_start minute (min until (recon_deadline s)))"
  "rc_ambiguous (recon_finish s until a) = rc_ambiguous (ra_result a)"
  "rc_state (recon_finish s until a) =
     (if rc_complete (recon_finish s until a) \<and> until \<ge> recon_deadline s then Some EXPIRED
      else rc_state (ra_result a))"
  by (auto simp: recon_finish_def Let_def split: option.split prod.split)

text \<open>The three possible answers of \<^verbatim>\<open>advance\<close>.\<close>

definition gap_result :: "signal \<Rightarrow> ms \<Rightarrow> ms \<Rightarrow> recon \<Rightarrow> bool" where
  "gap_result s cursor limit r \<longleftrightarrow>
     rc_state r = None \<and> \<not> rc_complete r \<and> rc_ambiguous r = None \<and> cursor \<le> rc_cursor r
     \<and> rc_cursor r \<le> max cursor limit"

definition quiet_result :: "signal \<Rightarrow> candle set \<Rightarrow> ms \<Rightarrow> ms \<Rightarrow> recon \<Rightarrow> bool" where
  "quiet_result s bars cursor until r \<longleftrightarrow>
     (let limit = min until (recon_deadline s) in
      rc_state r = (if rc_complete r \<and> until \<ge> recon_deadline s then Some EXPIRED else None)
      \<and> cursor \<le> rc_cursor r \<and> rc_cursor r \<le> max cursor limit \<and> rc_ambiguous r = None
      \<and> (rc_complete r \<longleftrightarrow> rc_cursor r \<ge> bucket_start minute limit)
      \<and> cleared_until s (ev_observed_entry_ms (sg_evidence s) \<noteq> None) bars
          (bucket_start minute cursor)
          (if rc_cursor r = cursor then bucket_start minute cursor else rc_cursor r)
      \<and> (rc_cursor r \<noteq> cursor \<longrightarrow> (\<exists>n \<ge> 0. rc_cursor r = bucket_start minute cursor + n * minute)))"

lemma quiet_finish:
  assumes "recon_inv s bars cursor (min until (recon_deadline s)) a"
  shows "quiet_result s bars cursor until (recon_finish s until a)"
proof -
  have c: "rc_cursor (ra_result a) = (if ra_last a = None then cursor else ra_expected a)"
    and e: "ra_last a = None \<Longrightarrow> ra_expected a = bucket_start minute cursor"
    and l: "ra_last a \<noteq> None \<Longrightarrow> cursor < ra_expected a \<and> ra_expected a \<le> min until (recon_deadline s)"
    and n: "\<exists>n \<ge> 0. ra_expected a = bucket_start minute cursor + n * minute"
    and cl: "cleared_until s (ev_observed_entry_ms (sg_evidence s) \<noteq> None) bars
         (bucket_start minute cursor) (ra_expected a)"
    and st: "rc_state (ra_result a) = None" "rc_ambiguous (ra_result a) = None"
    using assms unfolding recon_inv_def by blast+
  let ?r = "recon_finish s until a"
  have cur: "rc_cursor ?r = rc_cursor (ra_result a)" by (rule recon_finish_frame)
  have "rc_state ?r = (if rc_complete ?r \<and> until \<ge> recon_deadline s then Some EXPIRED else None)"
    using recon_finish_frame(4) [of s until a] st by simp
  moreover have "rc_complete ?r \<longleftrightarrow> rc_cursor ?r \<ge> bucket_start minute (min until (recon_deadline s))"
    unfolding cur by (rule recon_finish_frame)
  moreover have "rc_ambiguous ?r = None" using st by (simp add: recon_finish_frame)
  moreover have "cursor \<le> rc_cursor ?r \<and> rc_cursor ?r \<le> max cursor (min until (recon_deadline s))"
    unfolding cur c using l by (cases "ra_last a = None") auto
  moreover have "cleared_until s (ev_observed_entry_ms (sg_evidence s) \<noteq> None) bars
      (bucket_start minute cursor) (if rc_cursor ?r = cursor then bucket_start minute cursor else rc_cursor ?r)"
  proof (cases "ra_last a = None")
    case True
    with cl e show ?thesis by (simp add: cur c)
  next
    case False
    with l have "ra_expected a \<noteq> cursor" by blast
    with cl False show ?thesis by (simp add: cur c del: not_None_eq)
  qed
  moreover have "rc_cursor ?r \<noteq> cursor \<longrightarrow> (\<exists>n \<ge> 0. rc_cursor ?r = bucket_start minute cursor + n * minute)"
    using n by (cases "ra_last a = None") (simp_all add: cur c)
  ultimately show ?thesis unfolding quiet_result_def Let_def by blast
qed

lemma advance_cases:
  fixes s bars cursor until
  defines "limit \<equiv> min until (recon_deadline s)"
  shows "gap_result s cursor limit (advance s bars cursor until)
    \<or> (\<exists>b. recon_exit_at s (set bars) cursor limit b (advance s bars cursor until))
    \<or> quiet_result s (set bars) cursor until (advance s bars cursor until)"
proof -
  let ?a0 = "\<lparr>ra_expected = bucket_start minute cursor, ra_entered = ev_observed_entry_ms (sg_evidence s),
      ra_last = None, ra_result = recon_start cursor\<rparr>"
  have spec: "case recon_loop s cursor limit (sort_key cd_start bars) ?a0 of
      Inl r \<Rightarrow> (rc_state r = None \<and> \<not> rc_complete r \<and> rc_ambiguous r = None \<and> cursor \<le> rc_cursor r
          \<and> rc_cursor r \<le> max cursor limit)
        \<or> (\<exists>b. recon_exit_at s (set bars) cursor limit b r)
    | Inr a' \<Rightarrow> recon_inv s (set bars) cursor limit a'"
    by (rule recon_loop_spec [OF recon_inv_start]) simp
  show ?thesis
  proof (cases "recon_loop s cursor limit (sort_key cd_start bars) ?a0")
    case (Inl x)
    then have "advance s bars cursor until = x" by (simp add: advance_def limit_def)
    with spec Inl show ?thesis by (simp add: gap_result_def) blast
  next
    case (Inr a)
    then have r: "advance s bars cursor until = recon_finish s until a" by (simp add: advance_def limit_def)
    from spec Inr have "recon_inv s (set bars) cursor limit a" by simp
    with r show ?thesis by (simp add: quiet_finish limit_def)
  qed
qed

subsection \<open>Agreement with the executed path\<close>

text \<open>A candle that summarises the trades of its interval, with extremes that were traded.\<close>

definition inside :: "candle \<Rightarrow> trade \<Rightarrow> bool" where
  "inside b t \<longleftrightarrow> cd_start b \<le> tr_event_ms t \<and> tr_event_ms t < cd_end b"

definition aggregates :: "trade list \<Rightarrow> candle \<Rightarrow> bool" where
  "aggregates ts b \<longleftrightarrow>
     (\<forall>t \<in> set ts. inside b t \<longrightarrow> cd_low b \<le> tr_price t \<and> tr_price t \<le> cd_high b)
     \<and> (\<exists>t \<in> set ts. inside b t \<and> tr_price t = cd_low b)
     \<and> (\<exists>t \<in> set ts. inside b t \<and> tr_price t = cd_high b)"

lemma bar_stop_trades:
  "aggregates ts b \<Longrightarrow> bar_stop s b \<longleftrightarrow> (\<exists>t \<in> set ts. inside b t \<and> stop_crossed s (tr_price t))"
  unfolding aggregates_def bar_stop_def stop_crossed_def by (cases "sg_direction s") (auto intro: order_trans)

lemma bar_target_trades:
  "aggregates ts b \<Longrightarrow>
   bar_target s b \<longleftrightarrow> (\<exists>t \<in> set ts. inside b t \<and> level_reached s (sg_tp1 s) (tr_price t))"
  unfolding aggregates_def bar_target_def level_reached_def by (cases "sg_direction s") (auto intro: order_trans)

definition quiet_trade :: "signal \<Rightarrow> trade \<Rightarrow> bool" where
  "quiet_trade s t \<longleftrightarrow>
     \<not> stop_crossed s (tr_price t) \<and> \<not> (can_resolve s \<and> level_reached s (sg_tp1 s) (tr_price t))"

lemma first_exit_quiet:
  "\<forall>t \<in> set ts. quiet_trade s t \<Longrightarrow> first_exit s True (ts @ us) = first_exit s True us"
  by (induction ts) (auto simp: Let_def quiet_trade_def)

lemma cleared_trade:
  assumes cl: "cleared_until s True bars from till" and till: "till = from + n * minute"
    and agg: "\<forall>b \<in> bars. aggregates ts b" and t: "t \<in> set ts" "from \<le> tr_event_ms t" "tr_event_ms t < till"
  shows "quiet_trade s t"
proof -
  define k where "k = (tr_event_ms t - from) div minute"
  have k: "0 \<le> k" "from + k * minute \<le> tr_event_ms t" "tr_event_ms t < from + k * minute + minute"
    using t(2) bucket_start_le [of minute "tr_event_ms t - from"]
      bucket_start_gt [of minute "tr_event_ms t - from"]
    by (auto simp: k_def bucket_start_def pos_imp_zdiv_nonneg_iff)
  with t(3) cl obtain b where b: "b \<in> bars" "cd_start b = from + k * minute" "cleared s True b"
    by (fastforce simp: cleared_until_def)
  have "inside b t" using k b by (simp add: inside_def cd_end_def cleared_def)
  with b agg t(1) show ?thesis
    using bar_stop_trades [of ts b s] bar_target_trades [of ts b s]
    by (auto simp: cleared_def quiet_trade_def can_resolve_def)
qed

lemma sorted_filter_split:
  assumes "sorted (map f ts)" "(lo :: int) \<le> hi"
  shows "ts = filter (\<lambda>t. f t < lo) ts @ filter (\<lambda>t. lo \<le> f t \<and> f t < hi) ts @ filter (\<lambda>t. hi \<le> f t) ts"
  using assms
proof (induction ts)
  case Nil
  then show ?case by simp
next
  case (Cons t ts)
  then have ih: "ts = filter (\<lambda>t. f t < lo) ts @ filter (\<lambda>t. lo \<le> f t \<and> f t < hi) ts
      @ filter (\<lambda>t. hi \<le> f t) ts" by simp
  consider "f t < lo" | "lo \<le> f t" "f t < hi" | "hi \<le> f t" by linarith
  then show ?case
  proof cases
    case 1
    with ih Cons.prems show ?thesis by simp
  next
    case 2
    then have "filter (\<lambda>t. f t < lo) ts = []" using Cons.prems by (fastforce simp: filter_empty_conv)
    with 2 ih show ?thesis by simp
  next
    case 3
    then have "filter (\<lambda>t. f t < lo) ts = []" "filter (\<lambda>t. lo \<le> f t \<and> f t < hi) ts = []"
      using Cons.prems by (fastforce simp: filter_empty_conv)+
    with 3 ih Cons.prems(2) show ?thesis by simp
  qed
qed

lemma first_exit_stop_only:
  "\<forall>t \<in> set ts. \<not> (can_resolve s \<and> level_reached s (sg_tp1 s) (tr_price t)) \<Longrightarrow>
   \<exists>t \<in> set ts. stop_crossed s (tr_price t) \<Longrightarrow>
   \<exists>t \<in> set ts. first_exit s True (ts @ us) = Some (t, StopExit)"
  by (induction ts) (auto simp: Let_def)

lemma first_exit_target_only:
  "\<forall>t \<in> set ts. \<not> stop_crossed s (tr_price t) \<Longrightarrow>
   \<exists>t \<in> set ts. can_resolve s \<and> level_reached s (sg_tp1 s) (tr_price t) \<Longrightarrow>
   \<exists>t \<in> set ts. first_exit s True (ts @ us) = Some (t, TargetExit)"
  by (induction ts) (auto simp: Let_def)

lemma exit_agrees:
  assumes ent: "ev_observed_entry_ms (sg_evidence s) \<noteq> None" and res: "can_resolve s"
    and agg: "\<forall>b \<in> bars. aggregates ts b" and sorted: "sorted (map tr_event_ms ts)"
    and x: "recon_exit_at s bars cursor limit b r" and unamb: "rc_ambiguous r = Some False"
  shows "\<exists>t \<in> set ts. inside b t \<and>
     first_exit s True (filter (\<lambda>t. cursor \<le> tr_event_ms t) ts)
       = Some (t, if bar_stop s b then StopExit else TargetExit)"
proof -
  let ?path = "filter (\<lambda>t. cursor \<le> tr_event_ms t) ts"
  let ?in = "filter (\<lambda>t. cd_start b \<le> tr_event_ms t \<and> tr_event_ms t < cd_end b) ?path"
  let ?before = "filter (\<lambda>t. tr_event_ms t < cd_start b) ?path"
  let ?after = "filter (\<lambda>t. cd_end b \<le> tr_event_ms t) ?path"
  from x obtain n where b: "b \<in> bars" "cd_interval b = minute"
      "cd_start b = bucket_start minute cursor + n * minute"
      "cleared_until s True bars (bucket_start minute cursor) (cd_start b)"
    using ent by (auto simp: recon_exit_at_def)
  have starts: "cursor \<le> cd_start b" and one: "\<not> (bar_stop s b \<and> bar_target s b)"
    using x unamb by (auto simp: recon_exit_at_def)
  have split: "?path = ?before @ ?in @ ?after"
    using sorted b(2) by (intro sorted_filter_split) (auto simp: cd_end_def sorted_filter)
  have "\<forall>t \<in> set ?before. quiet_trade s t"
  proof
    fix t assume t: "t \<in> set ?before"
    then have "bucket_start minute cursor \<le> tr_event_ms t"
      using bucket_start_le [of minute cursor] by simp
    with t cleared_trade [OF b(4,3) agg] show "quiet_trade s t" by simp
  qed
  then have skip: "first_exit s True ?path = first_exit s True (?in @ ?after)"
    by (subst split) (rule first_exit_quiet)
  have in_set: "set ?in = {t \<in> set ts. inside b t}" using starts by (auto simp: inside_def)
  have stop: "bar_stop s b \<longleftrightarrow> (\<exists>t \<in> set ?in. stop_crossed s (tr_price t))"
    and target: "bar_target s b \<longleftrightarrow> (\<exists>t \<in> set ?in. level_reached s (sg_tp1 s) (tr_price t))"
    using bar_stop_trades [of ts b s] bar_target_trades [of ts b s] agg b(1) unfolding in_set by auto
  have "\<exists>t \<in> set ?in. first_exit s True (?in @ ?after) = Some (t, if bar_stop s b then StopExit else TargetExit)"
  proof (cases "bar_stop s b")
    case True
    then have "\<forall>t \<in> set ?in. \<not> (can_resolve s \<and> level_reached s (sg_tp1 s) (tr_price t))"
      and "\<exists>t \<in> set ?in. stop_crossed s (tr_price t)"
      using one stop target by blast+
    from first_exit_stop_only [OF this, of ?after] True show ?thesis by (simp only: if_True)
  next
    case False
    then have "bar_target s b" using x by (simp add: recon_exit_at_def)
    then have "\<exists>t \<in> set ?in. can_resolve s \<and> level_reached s (sg_tp1 s) (tr_price t)"
      and "\<forall>t \<in> set ?in. \<not> stop_crossed s (tr_price t)"
      using False stop target res by blast+
    from first_exit_target_only [OF this(2,1), of ?after] False show ?thesis by (simp only: if_False)
  qed
  then show ?thesis unfolding skip using in_set by blast
qed

lemma quiet_agrees:
  assumes ent: "ev_observed_entry_ms (sg_evidence s) \<noteq> None"
    and agg: "\<forall>b \<in> bars. aggregates ts b" and q: "quiet_result s bars cursor until r"
  shows "first_exit s True (filter (\<lambda>t. cursor \<le> tr_event_ms t \<and> tr_event_ms t < rc_cursor r) ts) = None"
proof -
  let ?seen = "filter (\<lambda>t. cursor \<le> tr_event_ms t \<and> tr_event_ms t < rc_cursor r) ts"
  have "\<forall>t \<in> set ?seen. quiet_trade s t"
  proof
    fix t assume t: "t \<in> set ?seen"
    then have ne: "rc_cursor r \<noteq> cursor" by auto
    with q ent obtain n where cl: "cleared_until s True bars (bucket_start minute cursor) (rc_cursor r)"
      and n: "rc_cursor r = bucket_start minute cursor + n * minute"
      by (auto simp: quiet_result_def Let_def)
    have "bucket_start minute cursor \<le> tr_event_ms t"
      using t bucket_start_le [of minute cursor] by simp
    with t cleared_trade [OF cl n agg] show "quiet_trade s t" by simp
  qed
  from first_exit_quiet [OF this, of "[]"] show ?thesis by simp
qed

subsection \<open>Progress\<close>

lemma advance_cursor: "cursor \<le> rc_cursor (advance s bars cursor until)"
  using advance_cases [of s cursor until bars]
  by (auto simp: gap_result_def quiet_result_def recon_exit_at_def Let_def)

lemma recon_result_cursor: "cursor \<le> rc_cursor (recon_result s fetched cursor now)"
  by (cases fetched) (simp_all add: recon_result_def advance_cursor recon_start_def)

text \<open>One page moves the stored cursor; pages may fail, overlap or leave holes.\<close>

definition page_step :: "signal \<Rightarrow> (py_error + candle list) \<times> ms \<Rightarrow> ms \<Rightarrow> ms" where
  "page_step s = (\<lambda>(fetched, now) cursor. rc_cursor (recon_result s fetched cursor now))"

interpretation page_machine: monotone_machine "page_step s" "\<lambda>c. c" "\<lambda>_. True" for s
  by unfold_locales (auto simp: page_step_def recon_result_cursor)

text \<open>
  Over any series of pages, failing or incomplete ones included, the
  persisted reconciliation cursor never moves backwards.
\<close>

theorem downtime_progress: "cursor \<le> fold (page_step s) pages cursor"
  using page_machine.run_mono [of cursor s pages] by simp

lemma minute_of_cleared:
  assumes "cleared_until s ent bars from till" "0 \<le> k" "from + k * minute < till"
  shows "\<exists>b \<in> bars. cd_start b = from + k * minute \<and> cd_interval b = minute \<and> bar_valid b"
  using assms by (fastforce simp: cleared_until_def cleared_def)

text \<open>
  When a page closes the plan, every minute from the one holding
  the cursor to the reported position is backed by a valid one-minute candle of that page.
\<close>

theorem downtime_never_over_gap:
  assumes "rc_state (advance s bars cursor until) \<noteq> None" and "0 \<le> k"
    and "cursor < rc_cursor (advance s bars cursor until)"
    and "bucket_start minute cursor + k * minute < rc_cursor (advance s bars cursor until)"
  shows "\<exists>b \<in> set bars. cd_start b = bucket_start minute cursor + k * minute
    \<and> cd_interval b = minute \<and> bar_valid b"
proof -
  let ?r = "advance s bars cursor until" and ?from = "bucket_start minute cursor"
  consider (x) b where "recon_exit_at s (set bars) cursor (min until (recon_deadline s)) b ?r"
    | (q) "quiet_result s (set bars) cursor until ?r"
    using advance_cases [of s cursor until bars] assms(1) by (auto simp: gap_result_def)
  then show ?thesis
  proof cases
    case x
    then obtain n where b: "b \<in> set bars" "bar_valid b" "cd_interval b = minute" "rc_cursor ?r = cd_end b"
      and n: "cd_start b = ?from + n * minute"
      and cl: "cleared_until s (ev_observed_entry_ms (sg_evidence s) \<noteq> None) (set bars) ?from (cd_start b)"
      by (auto simp: recon_exit_at_def)
    show ?thesis
    proof (cases "k = n")
      case True
      with b n show ?thesis by auto
    next
      case False
      with assms(4) b n have "?from + k * minute < cd_start b" by (simp add: cd_end_def)
      with minute_of_cleared [OF cl assms(2)] show ?thesis by blast
    qed
  next
    case q
    with assms(3) have "cleared_until s (ev_observed_entry_ms (sg_evidence s) \<noteq> None) (set bars)
        ?from (rc_cursor ?r)"
      by (auto simp: quiet_result_def Let_def)
    from minute_of_cleared [OF this assms(2,4)] show ?thesis .
  qed
qed

text \<open>
  C15: for an alerted plan whose entry was observed, and candles
  that summarise the executed trades, an unambiguous outcome rebuilt from candles is the exit
  the live monitor would have found on those trades, in the minute the result names; and where
  the rebuilt path is complete without an exit, the trades hold none.
\<close>

theorem downtime_agrees_with_trades:
  assumes "ev_observed_entry_ms (sg_evidence s) \<noteq> None" and "can_resolve s"
    and "\<forall>b \<in> set bars. aggregates ts b" and "sorted (map tr_event_ms ts)"
  shows "(rc_ambiguous (advance s bars cursor until) = Some False \<longrightarrow>
      (\<exists>t k. first_exit s True (filter (\<lambda>t. cursor \<le> tr_event_ms t) ts) = Some (t, k)
        \<and> rc_state (advance s bars cursor until) = Some (exit_state (sg_state s) (Some (t, k)))
        \<and> (\<exists>e. rc_effective (advance s bars cursor until) = Some e
             \<and> e - minute \<le> tr_event_ms t \<and> tr_event_ms t < e)))
    \<and> (rc_complete (advance s bars cursor until) \<and> rc_ambiguous (advance s bars cursor until) = None \<longrightarrow>
      first_exit s True (filter (\<lambda>t. cursor \<le> tr_event_ms t
        \<and> tr_event_ms t < rc_cursor (advance s bars cursor until)) ts) = None)"
proof -
  let ?r = "advance s bars cursor until"
  consider (g) "\<not> rc_complete ?r" "rc_state ?r = None"
    | (x) b where "recon_exit_at s (set bars) cursor (min until (recon_deadline s)) b ?r"
    | (q) "quiet_result s (set bars) cursor until ?r"
    using advance_cases [of s cursor until bars] by (auto simp: gap_result_def)
  then show ?thesis
  proof cases
    case g
    have "rc_ambiguous ?r \<noteq> Some False"
      using advance_cases [of s cursor until bars] g
      by (auto simp: gap_result_def recon_exit_at_def quiet_result_def Let_def)
    with g show ?thesis by simp
  next
    case x
    then have eff: "rc_effective ?r = Some (cd_end b)" "cd_end b = cd_start b + minute"
      and st: "rc_state ?r = Some (if bar_stop s b then INVALIDATED else RESOLVED)"
      by (auto simp: recon_exit_at_def cd_end_def)
    have "rc_ambiguous ?r \<noteq> None" using x by (simp add: recon_exit_at_def)
    moreover have "\<exists>t k. first_exit s True (filter (\<lambda>t. cursor \<le> tr_event_ms t) ts) = Some (t, k)
        \<and> rc_state ?r = Some (exit_state (sg_state s) (Some (t, k)))
        \<and> (\<exists>e. rc_effective ?r = Some e \<and> e - minute \<le> tr_event_ms t \<and> tr_event_ms t < e)"
      if "rc_ambiguous ?r = Some False"
    proof -
      from exit_agrees [OF assms x that] obtain t where t: "inside b t"
        "first_exit s True (filter (\<lambda>t. cursor \<le> tr_event_ms t) ts)
           = Some (t, if bar_stop s b then StopExit else TargetExit)" by blast
      with eff st show ?thesis
        by (intro exI [of _ t] exI [of _ "if bar_stop s b then StopExit else TargetExit"])
          (auto simp: exit_state_def inside_def)
    qed
    ultimately show ?thesis by blast
  next
    case q
    then have "rc_ambiguous ?r = None" by (simp add: quiet_result_def Let_def)
    with quiet_agrees [OF assms(1,3) q] show ?thesis by simp
  qed
qed

definition sample_entered :: signal where
  "sample_entered = sample_signal\<lparr>sg_evidence := empty_evidence\<lparr>ev_observed_entry_ms := Some 60000\<rparr>\<rparr>"

definition sample_bar :: "ms \<Rightarrow> dec \<Rightarrow> dec \<Rightarrow> candle" where
  "sample_bar start low high =
     \<lparr>cd_start = start, cd_interval = 60000, cd_open = low, cd_high = high, cd_low = low, cd_close = high\<rparr>"

abbreviation sample_bars :: "candle list" where
  "sample_bars \<equiv> [sample_bar 60000 99 101, sample_bar 120000 100 111]"

abbreviation sample_path :: "trade list" where
  "sample_path \<equiv> [sample_trade ''a'' 60500 101, sample_trade ''b'' 61000 99,
     sample_trade ''c'' 120500 100, sample_trade ''d'' 121000 111]"

lemma sample_bar_fields [simp]:
  "cd_start (sample_bar a l h) = a" "cd_interval (sample_bar a l h) = 60000" "cd_end (sample_bar a l h) = a + 60000"
  "cd_low (sample_bar a l h) = l" "cd_high (sample_bar a l h) = h"
  "bar_valid (sample_bar a l h) \<longleftrightarrow> 0 < l \<and> l \<le> h"
  by (auto simp: sample_bar_def cd_end_def bar_valid_def)

lemma sample_entered_fields [simp]:
  "recon_deadline sample_entered = 900000" "ev_observed_entry_ms (sg_evidence sample_entered) = Some 60000"
  "bar_stop sample_entered b \<longleftrightarrow> cd_low b \<le> 95" "bar_target sample_entered b \<longleftrightarrow> 110 \<le> cd_high b"
  "sg_horizon_profile sample_entered = CORE_INTRADAY" "sg_state sample_entered = ALERTED"
  by (simp_all add: sample_entered_def sample_signal_def empty_evidence_def recon_deadline_def
      holding_deadline_def or_ms_def bar_stop_def bar_target_def)

lemma sample_advance:
  "rc_state (advance sample_entered sample_bars 60000 400000) = Some RESOLVED"
  "rc_cursor (advance sample_entered sample_bars 60000 400000) = 180000"
  "rc_ambiguous (advance sample_entered sample_bars 60000 400000) = Some False"
  by (simp_all add: advance_def recon_start_def bar_exits_def recon_exit_def bucket_start_def Let_def)

lemma downtime_never_over_gap_witness:
  "\<exists>b \<in> set sample_bars. cd_start b = bucket_start minute 60000 + 1 * minute \<and> cd_interval b = minute \<and> bar_valid b"
proof -
  show ?thesis
    by (rule downtime_never_over_gap [where s = sample_entered and until = 400000])
      (simp_all add: sample_advance bucket_start_def)
qed

lemma downtime_agrees_with_trades_witness:
  "\<exists>t k. first_exit sample_entered True (filter (\<lambda>t. 60000 \<le> tr_event_ms t) sample_path) = Some (t, k)
    \<and> rc_state (advance sample_entered sample_bars 60000 400000) = Some (exit_state ALERTED (Some (t, k)))"
proof -
  have e: "ev_observed_entry_ms (sg_evidence sample_entered) \<noteq> None" "can_resolve sample_entered"
    "\<forall>b \<in> set sample_bars. aggregates sample_path b" "sorted (map tr_event_ms sample_path)"
    by code_simp+
  from downtime_agrees_with_trades [OF e, THEN conjunct1, THEN mp, OF sample_advance(3)]
  show ?thesis unfolding sample_entered_fields by blast
qed

end
