(* ===== verification/Paper.thy ===== *)
theory Paper imports Model begin

text \<open>
  Event-level paper execution, class \<^verbatim>\<open>PaperPosition\<close> and the drawdown part of
  \<^verbatim>\<open>performance\<close> in \<^verbatim>\<open>src/bybit_flow/backtest.py\<close>. A position is a
  state machine driven by trades, funding settlements and marks; the proofs show that its
  books balance: every quantity, value and fee is the sum over the recorded fills.
\<close>

datatype fill_kind = EntryFill | ExitFill

record fill =
  fl_at_ms :: ms
  fl_kind :: fill_kind
  fl_quantity :: dec
  fl_price :: dec

record paper =
  pp_signal :: signal
  pp_requested :: dec
  pp_latency_ms :: ms
  pp_participation :: dec
  pp_fill_window_ms :: ms
  pp_horizon_ms :: ms
  pp_fee_bps :: dec
  pp_slippage_bps :: dec
  pp_quantity :: dec
  pp_entry_value :: dec
  pp_fees :: dec
  pp_funding :: dec
  pp_exit_value :: dec
  pp_exited :: dec
  pp_exit_reason :: "string option"
  pp_exit_ms :: "ms option"
  pp_fills :: "fill list"
  pp_data_gaps :: "string list"
  pp_mfe_r :: dec
  pp_mae_r :: dec
  pp_funding_ts :: "ms list"

subsection \<open>Construction and derived values\<close>

definition paper_new :: "signal \<Rightarrow> dec \<Rightarrow> paper" where
  "paper_new s qty =
     \<lparr>pp_signal = s, pp_requested = qty, pp_latency_ms = 500, pp_participation = 1 / 100,
      pp_fill_window_ms = 60000, pp_horizon_ms = 14400000, pp_fee_bps = 11 / 2, pp_slippage_bps = 2,
      pp_quantity = 0, pp_entry_value = 0, pp_fees = 0, pp_funding = 0, pp_exit_value = 0,
      pp_exited = 0, pp_exit_reason = None, pp_exit_ms = None, pp_fills = [], pp_data_gaps = [],
      pp_mfe_r = 0, pp_mae_r = 0, pp_funding_ts = []\<rparr>"

definition paper_post_init :: "paper \<Rightarrow> py_error + paper" where
  "paper_post_init p =
     (let maximum = (if sg_horizon_profile (pp_signal p) = LEGACY then 14400000
                     else sg_expected_hold_max (pp_signal p) * 60000)
      in if pp_requested p \<le> 0 \<or> \<not> (0 < pp_horizon_ms p \<and> pp_horizon_ms p \<le> maximum)
         then Inl (ValueError ''Positive quantity and horizon within frozen profile required'')
         else Inr p)"

abbreviation pp_sign :: "paper \<Rightarrow> dec" where
  "pp_sign p \<equiv> sign_of (sg_direction (pp_signal p))"

definition pp_entry :: "paper \<Rightarrow> dec" where
  "pp_entry p = (if pp_quantity p \<noteq> 0 then pp_entry_value p / pp_quantity p else sg_entry (pp_signal p))"

definition pp_remaining :: "paper \<Rightarrow> dec" where
  "pp_remaining p = max 0 (pp_quantity p - pp_exited p)"

definition dust :: dec where "dust = 1 / 10000000000"

subsection \<open>One trade\<close>

definition note_excursion :: "dec \<Rightarrow> paper \<Rightarrow> paper" where
  "note_excursion price p =
     (if pp_quantity p \<noteq> 0 then
        (let distance = \<bar>sg_entry (pp_signal p) - sg_stop (pp_signal p)\<bar>;
             excursion = (if distance \<noteq> 0 then pp_sign p * (price - pp_entry p) / distance else 0)
         in p\<lparr>pp_mfe_r := max (pp_mfe_r p) excursion, pp_mae_r := min (pp_mae_r p) excursion\<rparr>)
      else p)"

definition ready_ms :: "paper \<Rightarrow> ms" where
  "ready_ms p = sg_created_ms (pp_signal p) + pp_latency_ms p"

definition can_enter :: "ms \<Rightarrow> paper \<Rightarrow> bool" where
  "can_enter t p \<longleftrightarrow>
     t \<le> min (ready_ms p + pp_fill_window_ms p) (sg_expires_ms (pp_signal p)) \<and> pp_exit_reason p = None"

definition enter_fill :: "trade \<Rightarrow> paper \<Rightarrow> paper" where
  "enter_fill t p =
     (let price = tr_price t;
          q = min (pp_requested p - pp_quantity p) (tr_size t * pp_participation p);
          fp = price * (1 + pp_sign p * pp_slippage_bps p / 10000)
      in p\<lparr>pp_quantity := pp_quantity p + q, pp_entry_value := pp_entry_value p + q * fp,
           pp_fees := pp_fees p + q * fp * pp_fee_bps p / 10000,
           pp_fills := pp_fills p @ [\<lparr>fl_at_ms = tr_event_ms t, fl_kind = EntryFill,
                                     fl_quantity = q, fl_price = fp\<rparr>]\<rparr>)"

definition decide_exit :: "trade \<Rightarrow> paper \<Rightarrow> paper" where
  "decide_exit t p =
     (if pp_exit_reason p \<noteq> None then p
      else if pp_sign p * (tr_price t - sg_stop (pp_signal p)) \<le> 0
      then p\<lparr>pp_exit_reason := Some ''stop''\<rparr>
      else if pp_sign p * (tr_price t - sg_tp1 (pp_signal p)) \<ge> 0
      then p\<lparr>pp_exit_reason := Some ''tp1''\<rparr>
      else if tr_event_ms t \<ge> sg_created_ms (pp_signal p) + pp_horizon_ms p
      then p\<lparr>pp_exit_reason := Some ''time_stop''\<rparr>
      else p)"

definition exit_fill :: "trade \<Rightarrow> paper \<Rightarrow> paper" where
  "exit_fill t p =
     (if pp_exit_reason p = None then p
      else
        let q = min (pp_remaining p) (tr_size t * pp_participation p);
            fp = tr_price t * (1 - pp_sign p * pp_slippage_bps p / 10000);
            p1 = p\<lparr>pp_exit_value := pp_exit_value p + q * fp, pp_exited := pp_exited p + q,
                   pp_fees := pp_fees p + q * fp * pp_fee_bps p / 10000,
                   pp_fills := pp_fills p @ [\<lparr>fl_at_ms = tr_event_ms t, fl_kind = ExitFill,
                                             fl_quantity = q, fl_price = fp\<rparr>]\<rparr>
        in if pp_remaining p1 < dust then p1\<lparr>pp_exit_ms := Some (tr_event_ms t)\<rparr> else p1)"

definition on_trade :: "trade \<Rightarrow> paper \<Rightarrow> paper" where
  "on_trade t p =
     (if tr_symbol t \<noteq> sg_symbol (pp_signal p) \<or> pp_exit_ms p \<noteq> None then p
      else if tr_event_ms t < ready_ms p then p
      else
        let p1 = note_excursion (tr_price t) p; price = tr_price t; zone = sg_zone (pp_signal p) in
        if can_enter (tr_event_ms t) p1 \<and> pp_quantity p1 < pp_requested p1
           \<and> fst zone \<le> price \<and> price \<le> snd zone
        then enter_fill t p1
        else if pp_quantity p1 = 0 then
          (if tr_event_ms t > ready_ms p1 + pp_fill_window_ms p1
           then p1\<lparr>pp_exit_reason := Some ''missed_fill'', pp_exit_ms := Some (tr_event_ms t)\<rparr>
           else p1)
        else exit_fill t (decide_exit t p1))"

subsection \<open>Funding, marks and the outcome\<close>

definition on_funding :: "ms \<Rightarrow> dec \<Rightarrow> dec \<Rightarrow> paper \<Rightarrow> py_error + paper" where
  "on_funding timestamp rate mark p =
     (if pp_quantity p = 0 \<or> pp_remaining p = 0 then Inr p
      else
        case pp_fills p of
          [] \<Rightarrow> Inl IndexError
        | f # _ \<Rightarrow>
            if timestamp \<ge> fl_at_ms f \<and> timestamp \<notin> set (pp_funding_ts p)
            then Inr (p\<lparr>pp_funding := pp_funding p + pp_sign p * pp_remaining p * mark * rate,
                        pp_funding_ts := timestamp # pp_funding_ts p\<rparr>)
            else Inr p)"

definition on_mark :: "dec \<Rightarrow> dec \<Rightarrow> dec \<Rightarrow> paper \<Rightarrow> py_error + paper" where
  "on_mark mark leverage maintenance p =
     (if pp_remaining p = 0 then Inr p
      else if pp_entry p = 0 \<or> leverage = 0 then Inl ZeroDivision
      else if pp_sign p * (mark - pp_entry p) / pp_entry p \<le> - (1 / leverage - maintenance)
      then Inr (p\<lparr>pp_exit_reason := Some ''mark_margin_stress''\<rparr>)
      else Inr p)"

record paper_outcome =
  po_actual_entry_ms :: "ms option"
  po_simulated_entry :: "dec option"
  po_classification :: string
  po_complete :: bool
  po_net_pnl :: "dec option"
  po_net_r :: "dec option"
  po_filled_fraction :: dec
  po_cluster :: int

definition paper_complete :: "paper \<Rightarrow> bool" where
  "paper_complete p \<longleftrightarrow>
     pp_exit_ms p \<noteq> None \<and> pp_quantity p > 0 \<and> pp_remaining p < dust \<and> pp_data_gaps p = []"

definition paper_net :: "paper \<Rightarrow> dec option" where
  "paper_net p =
     (if paper_complete p
      then Some (pp_sign p * (pp_exit_value p - pp_entry_value p) - pp_fees p - pp_funding p)
      else None)"

definition outcome :: "paper \<Rightarrow> py_error + paper_outcome" where
  "outcome p =
     (let net = paper_net p;
          planned_risk = pp_quantity p * \<bar>sg_entry (pp_signal p) - sg_stop (pp_signal p)\<bar>
      in if pp_quantity p \<noteq> 0 \<and> pp_fills p = [] then Inl IndexError
         else if pp_requested p = 0 then Inl ZeroDivision
         else Inr
           \<lparr>po_actual_entry_ms = (if pp_quantity p \<noteq> 0 then Some (fl_at_ms (hd (pp_fills p))) else None),
            po_simulated_entry = (if pp_quantity p \<noteq> 0 then Some (pp_entry p) else None),
            po_classification =
              (case net of None \<Rightarrow> ''incomplete''
               | Some n \<Rightarrow> if n > dust then ''win'' else if n < - dust then ''loss'' else ''breakeven''),
            po_complete = paper_complete p, po_net_pnl = net,
            po_net_r = (case net of None \<Rightarrow> None
                        | Some n \<Rightarrow> if planned_risk \<noteq> 0 then Some (n / planned_risk) else None),
            po_filled_fraction = pp_quantity p / pp_requested p,
            po_cluster = sg_created_ms (pp_signal p) div 604800000\<rparr>)"

subsection \<open>The books balance\<close>

definition filled :: "fill_kind \<Rightarrow> fill list \<Rightarrow> dec" where
  "filled k fs = sum_list (map fl_quantity (filter (\<lambda>f. fl_kind f = k) fs))"

definition value_of :: "fill_kind \<Rightarrow> fill list \<Rightarrow> dec" where
  "value_of k fs = sum_list (map (\<lambda>f. fl_quantity f * fl_price f) (filter (\<lambda>f. fl_kind f = k) fs))"

lemma filled_simps [simp]:
  "filled k [] = 0" "value_of k [] = 0"
  "filled k (fs @ [f]) = filled k fs + (if fl_kind f = k then fl_quantity f else 0)"
  "value_of k (fs @ [f]) = value_of k fs + (if fl_kind f = k then fl_quantity f * fl_price f else 0)"
  by (simp_all add: filled_def value_of_def)

definition balanced :: "paper \<Rightarrow> bool" where
  "balanced p \<longleftrightarrow>
     pp_quantity p = filled EntryFill (pp_fills p)
     \<and> pp_exited p = filled ExitFill (pp_fills p)
     \<and> pp_entry_value p = value_of EntryFill (pp_fills p)
     \<and> pp_exit_value p = value_of ExitFill (pp_fills p)
     \<and> pp_fees p = pp_fee_bps p / 10000
         * (value_of EntryFill (pp_fills p) + value_of ExitFill (pp_fills p))"

definition bounded :: "paper \<Rightarrow> bool" where
  "bounded p \<longleftrightarrow>
     0 < pp_participation p \<and> 0 \<le> pp_exited p \<and> pp_exited p \<le> pp_quantity p
     \<and> pp_quantity p \<le> pp_requested p \<and> (\<forall>f \<in> set (pp_fills p). 0 \<le> fl_quantity f)
     \<and> (pp_quantity p \<noteq> 0 \<longrightarrow> pp_fills p \<noteq> [])
     \<and> (pp_exit_reason p = None \<longrightarrow> pp_exited p = 0)
     \<and> pp_mae_r p \<le> 0 \<and> 0 \<le> pp_mfe_r p"

definition paper_inv :: "paper \<Rightarrow> bool" where
  "paper_inv p \<longleftrightarrow> balanced p \<and> bounded p"

lemma paper_inv_new: "0 \<le> qty \<Longrightarrow> paper_inv (paper_new s qty)"
  by (simp add: paper_inv_def balanced_def bounded_def paper_new_def)

lemma note_excursion_frame [simp]:
  "pp_signal (note_excursion x p) = pp_signal p" "pp_requested (note_excursion x p) = pp_requested p"
  "pp_participation (note_excursion x p) = pp_participation p"
  "pp_quantity (note_excursion x p) = pp_quantity p" "pp_exited (note_excursion x p) = pp_exited p"
  "pp_exit_reason (note_excursion x p) = pp_exit_reason p" "pp_fills (note_excursion x p) = pp_fills p"
  "pp_exit_ms (note_excursion x p) = pp_exit_ms p" "pp_funding (note_excursion x p) = pp_funding p"
  "pp_remaining (note_excursion x p) = pp_remaining p"
  by (simp_all add: note_excursion_def Let_def pp_remaining_def)

lemma note_excursion_inv: "paper_inv p \<Longrightarrow> paper_inv (note_excursion x p)"
  by (auto simp: paper_inv_def balanced_def bounded_def note_excursion_def Let_def
      min_le_iff_disj le_max_iff_disj)

lemma paper_inv_close:
  "paper_inv p \<Longrightarrow> paper_inv (p\<lparr>pp_exit_reason := Some r, pp_exit_ms := m\<rparr>)"
  by (simp add: paper_inv_def balanced_def bounded_def)

lemma enter_fill_inv:
  assumes "paper_inv p" "pp_quantity p < pp_requested p" "pp_exit_reason p = None" "0 < tr_size t"
  shows "paper_inv (enter_fill t p)"
proof -
  have "0 < tr_size t * pp_participation p" using assms by (simp add: paper_inv_def bounded_def)
  then have q: "0 < min (pp_requested p - pp_quantity p) (tr_size t * pp_participation p)"
    "min (pp_requested p - pp_quantity p) (tr_size t * pp_participation p) \<le> pp_requested p - pp_quantity p"
    using assms(2) by auto
  have "balanced (enter_fill t p)"
    using assms(1) unfolding enter_fill_def Let_def paper_inv_def balanced_def
    by simp (simp only: ring_distribs ac_simps)
  moreover have "bounded (enter_fill t p)"
    using assms(1,3) q unfolding enter_fill_def Let_def paper_inv_def bounded_def
    by (auto simp: add_nonneg_nonneg)
  ultimately show ?thesis by (simp add: paper_inv_def)
qed

lemma decide_exit_inv: "paper_inv p \<Longrightarrow> paper_inv (decide_exit t p)"
  by (auto simp: decide_exit_def paper_inv_def balanced_def bounded_def)

lemma exit_fill_inv:
  assumes "paper_inv p" "0 < tr_size t"
  shows "paper_inv (exit_fill t p)"
proof (cases "pp_exit_reason p = None")
  case True
  with assms show ?thesis by (simp add: exit_fill_def)
next
  case False
  let ?q = "min (pp_remaining p) (tr_size t * pp_participation p)"
  have rem: "pp_remaining p = pp_quantity p - pp_exited p"
    using assms(1) by (simp add: pp_remaining_def paper_inv_def bounded_def)
  have "0 < tr_size t * pp_participation p" using assms by (simp add: paper_inv_def bounded_def)
  then have q: "0 \<le> ?q" "?q \<le> pp_quantity p - pp_exited p"
    using assms(1) by (auto simp: rem paper_inv_def bounded_def)
  have "balanced (exit_fill t p)"
    using assms(1) False unfolding exit_fill_def Let_def paper_inv_def balanced_def
    by simp (simp only: ring_distribs ac_simps)
  moreover have "bounded (exit_fill t p)"
    using assms(1) False q unfolding exit_fill_def Let_def paper_inv_def bounded_def
    by (auto simp: add_nonneg_nonneg)
  ultimately show ?thesis by (simp add: paper_inv_def)
qed

lemma on_trade_inv: "paper_inv p \<Longrightarrow> 0 < tr_size t \<Longrightarrow> paper_inv (on_trade t p)"
  unfolding on_trade_def Let_def
  by (auto intro!: enter_fill_inv exit_fill_inv decide_exit_inv note_excursion_inv paper_inv_close
      simp: can_enter_def)

text \<open>Trades are well formed once \<^verbatim>\<open>Trade.__post_init__\<close> has accepted them.\<close>

definition paper_step :: "trade \<Rightarrow> paper \<Rightarrow> paper" where
  "paper_step t p = (case trade_post_init t of Inl _ \<Rightarrow> p | Inr u \<Rightarrow> on_trade u p)"

lemma paper_step_inv: "paper_inv p \<Longrightarrow> paper_inv (paper_step t p)"
  by (auto simp: paper_step_def trade_post_init_def on_trade_inv)

interpretation paper_machine: step_invariant paper_step paper_inv
  by unfold_locales (rule paper_step_inv)

interpretation paper_closed: absorbing_machine paper_step "\<lambda>p. pp_exit_ms p \<noteq> None"
  by unfold_locales (auto simp: paper_step_def trade_post_init_def on_trade_def)

lemma on_funding_ok: "paper_inv p \<Longrightarrow> \<exists>p'. on_funding ts rate mark p = Inr p' \<and> paper_inv p'"
  by (cases "pp_fills p") (auto simp: on_funding_def paper_inv_def bounded_def balanced_def)

lemma paper_inv_mark: "paper_inv p \<Longrightarrow> on_mark mark lev mnt p = Inr p' \<Longrightarrow> paper_inv p'"
  by (auto simp: on_mark_def paper_inv_def balanced_def bounded_def split: if_splits)

subsection \<open>Drawdown\<close>

text \<open>The loop of \<^verbatim>\<open>performance\<close> over the results in exit order.\<close>

definition drawdown_step :: "dec \<Rightarrow> dec \<times> dec \<times> dec \<Rightarrow> dec \<times> dec \<times> dec" where
  "drawdown_step r = (\<lambda>(curve, peak, dd).
     (let curve' = curve + r; peak' = max peak curve' in (curve', peak', max dd (peak' - curve'))))"

definition max_drawdown :: "dec list \<Rightarrow> dec" where
  "max_drawdown rs = snd (snd (fold drawdown_step rs (0, 0, 0)))"

record perf_row =
  pf_complete :: bool
  pf_exit_ms :: ms
  pf_net_r :: dec

definition performance :: "perf_row list \<Rightarrow> dec \<times> nat" where
  "performance rows =
     (let completed = filter pf_complete rows in
      (max_drawdown (map pf_net_r (sort_key pf_exit_ms completed)), length rows - length completed))"

text \<open>The reference: the largest fall of the cumulative curve from an earlier point.\<close>

definition curve_at :: "dec list \<Rightarrow> nat \<Rightarrow> dec" where
  "curve_at rs n = sum_list (take n rs)"

definition falls :: "dec list \<Rightarrow> dec set" where
  "falls rs = {curve_at rs i - curve_at rs j | i j. i \<le> j \<and> j \<le> length rs}"

lemma curve_at_snoc [simp]:
  "n \<le> length rs \<Longrightarrow> curve_at (rs @ [r]) n = curve_at rs n"
  "curve_at (rs @ [r]) (Suc (length rs)) = curve_at rs (length rs) + r"
  by (simp_all add: curve_at_def)

lemma drawdown_fold:
  "case fold drawdown_step rs (0, 0, 0) of (curve, peak, dd) \<Rightarrow>
     curve = curve_at rs (length rs)
     \<and> (\<forall>i \<le> length rs. curve_at rs i \<le> peak) \<and> (\<exists>i \<le> length rs. peak = curve_at rs i)
     \<and> (\<forall>x \<in> falls rs. x \<le> dd) \<and> dd \<in> falls rs"
proof (induction rs rule: rev_induct)
  case Nil
  then show ?case by (auto simp: curve_at_def falls_def)
next
  case (snoc r rs)
  obtain curve peak dd where f: "fold drawdown_step rs (0, 0, 0) = (curve, peak, dd)"
    by (metis prod_cases3)
  let ?n = "length rs" and ?rs = "rs @ [r]"
  let ?curve = "curve + r" let ?peak = "max peak ?curve" let ?dd = "max dd (?peak - ?curve)"
  from snoc f have ih: "curve = curve_at rs ?n" "\<forall>i \<le> ?n. curve_at rs i \<le> peak"
      "\<exists>i \<le> ?n. peak = curve_at rs i" "\<forall>x \<in> falls rs. x \<le> dd" "dd \<in> falls rs" by auto
  have c: "curve_at ?rs (Suc ?n) = ?curve" using ih(1) by simp
  have bound: "\<forall>i \<le> Suc ?n. curve_at ?rs i \<le> ?peak"
    using ih(2) c by (auto simp: le_Suc_eq le_max_iff_disj)
  have reach: "\<exists>i \<le> Suc ?n. ?peak = curve_at ?rs i"
  proof (cases "?curve \<le> peak")
    case True
    with ih(3) show ?thesis by (metis curve_at_snoc(1) le_SucI max.absorb1)
  next
    case False
    then have "?peak = curve_at ?rs (Suc ?n)" using c by (simp add: max_def)
    then show ?thesis by blast
  qed
  have le: "\<forall>x \<in> falls ?rs. x \<le> ?dd"
  proof
    fix x assume "x \<in> falls ?rs"
    then obtain i j where ij: "x = curve_at ?rs i - curve_at ?rs j" "i \<le> j" "j \<le> Suc ?n"
      by (auto simp: falls_def)
    show "x \<le> ?dd"
    proof (cases "j = Suc ?n")
      case True
      have "curve_at ?rs i \<le> ?peak" using bound ij by simp
      with True ij c show ?thesis by (simp add: le_max_iff_disj)
    next
      case False
      with ij have "i \<le> j" "j \<le> ?n" "x = curve_at rs i - curve_at rs j" by simp_all
      then have "x \<in> falls rs" unfolding falls_def by blast
      with ih(4) show ?thesis by (simp add: le_max_iff_disj)
    qed
  qed
  have mem: "?dd \<in> falls ?rs"
  proof (cases "?peak - ?curve \<le> dd")
    case True
    from ih(5) obtain i j where "dd = curve_at rs i - curve_at rs j" "i \<le> j" "j \<le> ?n"
      by (auto simp: falls_def)
    then have "dd = curve_at ?rs i - curve_at ?rs j \<and> i \<le> j \<and> j \<le> length ?rs" by simp
    then have "dd \<in> falls ?rs" unfolding falls_def by blast
    with True show ?thesis by (simp add: max_absorb1)
  next
    case False
    from reach obtain i where i: "i \<le> Suc ?n" "?peak = curve_at ?rs i" by blast
    have "?peak - ?curve = curve_at ?rs i - curve_at ?rs (Suc ?n)" using i c by simp
    then have "?peak - ?curve \<in> falls ?rs" unfolding falls_def using i by fastforce
    with False show ?thesis by (simp add: max_def)
  qed
  have "fold drawdown_step ?rs (0, 0, 0) = (?curve, ?peak, ?dd)"
    by (simp only: fold_append comp_apply f) (simp add: drawdown_step_def Let_def)
  then show ?case using c bound reach le mem by simp
qed

subsection \<open>Properties\<close>



text \<open>
  The net result of a completed position is what left and entered
  through its fills: the value sold less the value bought in the position's direction, less the
  fees on both and the funding paid, and it leaves less than the dust amount open.
\<close>

theorem paper_net_is_cash_flow:
  assumes "0 \<le> qty" and "p = fold paper_step ts (paper_new s qty)" and "paper_net p = Some net"
  shows "net = pp_sign p * (value_of ExitFill (pp_fills p) - value_of EntryFill (pp_fills p))
      - pp_fee_bps p / 10000 * (value_of EntryFill (pp_fills p) + value_of ExitFill (pp_fills p))
      - pp_funding p
    \<and> filled EntryFill (pp_fills p) - filled ExitFill (pp_fills p) < dust"
proof -
  have inv: "balanced p" "bounded p"
    using paper_machine.run_inv [OF paper_inv_new [OF assms(1), of s], of ts] assms(2) by (auto simp: paper_inv_def)
  from assms(3) have c: "paper_complete p"
    and net: "net = pp_sign p * (pp_exit_value p - pp_entry_value p) - pp_fees p - pp_funding p"
    by (auto simp: paper_net_def split: if_splits)
  from c have "pp_quantity p - pp_exited p < dust" by (simp add: paper_complete_def pp_remaining_def)
  with inv(1) net show ?thesis by (simp add: balanced_def)
qed

lemma paper_net_is_cash_flow_witness:
  "let p = fold paper_step [sample_trade ''a'' 61000 100, sample_trade ''b'' 62000 111]
             (paper_new sample_signal 1) in
    \<exists>net. paper_net p = Some net
      \<and> net = pp_sign p * (value_of ExitFill (pp_fills p) - value_of EntryFill (pp_fills p))
          - pp_fee_bps p / 10000 * (value_of EntryFill (pp_fills p) + value_of ExitFill (pp_fills p))
          - pp_funding p
      \<and> filled EntryFill (pp_fills p) - filled ExitFill (pp_fills p) < dust"
proof -
  let ?p = "fold paper_step [sample_trade ''a'' 61000 100, sample_trade ''b'' 62000 111]
             (paper_new sample_signal 1)"
  have "paper_net ?p \<noteq> None" by code_simp
  then obtain net where "paper_net ?p = Some net" by blast
  from paper_net_is_cash_flow [OF _ refl this] this show ?thesis by (simp only: Let_def) auto
qed

text \<open>
  A trade adds at most one fill, at its own time and never for more than
  the allowed share of its size; an entry needs a price in the planned zone, inside the fill
  window and before expiry, and a trade on a closed position changes nothing.
\<close>

theorem paper_fill_causes:
  "pp_fills (on_trade t p) = pp_fills p
   \<or> (\<exists>f. pp_fills (on_trade t p) = pp_fills p @ [f] \<and> pp_exit_ms p = None
        \<and> fl_at_ms f = tr_event_ms t \<and> ready_ms p \<le> tr_event_ms t
        \<and> fl_quantity f \<le> tr_size t * pp_participation p
        \<and> (case fl_kind f of
             EntryFill \<Rightarrow>
               fst (sg_zone (pp_signal p)) \<le> tr_price t \<and> tr_price t \<le> snd (sg_zone (pp_signal p))
               \<and> tr_event_ms t \<le> sg_expires_ms (pp_signal p)
               \<and> tr_event_ms t \<le> ready_ms p + pp_fill_window_ms p
           | ExitFill \<Rightarrow> pp_exit_reason (on_trade t p) \<noteq> None))"
proof -
  have fr: "ready_ms (note_excursion x p) = ready_ms p"
    "pp_fill_window_ms (note_excursion x p) = pp_fill_window_ms p" for x
    by (simp_all add: ready_ms_def note_excursion_def Let_def)
  have dec: "pp_fills (decide_exit t q) = pp_fills q" "pp_participation (decide_exit t q) = pp_participation q"
    for q by (simp_all add: decide_exit_def)
  show ?thesis
    unfolding on_trade_def Let_def
    by (auto simp: can_enter_def enter_fill_def exit_fill_def Let_def fr dec)
qed

text \<open>
  The drawdown the performance report computes in one pass is
  exactly the largest fall of the cumulative result from any earlier point to a later one.
\<close>

theorem drawdown_is_largest_fall:
  "max_drawdown rs \<in> falls rs \<and> falls rs \<subseteq> {..max_drawdown rs} \<and> 0 \<le> max_drawdown rs"
proof -
  obtain curve peak dd where f: "fold drawdown_step rs (0, 0, 0) = (curve, peak, dd)"
    by (metis prod_cases3)
  have "0 \<in> falls rs" by (force simp: falls_def)
  then show ?thesis using drawdown_fold [of rs] f by (auto simp: max_drawdown_def)
qed

end
