(* ===== verification/Horizons.thy ===== *)
theory Horizons imports Model begin

text \<open>
  Horizon profiles, \<^verbatim>\<open>src/bybit_flow/horizons.py\<close>, and the notification guard
  for opposing published plans, \<^verbatim>\<open>src/bybit_flow/notification_conflicts.py\<close>. The
  local hours of the three sessions come from the time-zone database and are an argument.
  \<^verbatim>\<open>assign\<close> is modelled on the fields of the signal record; the identity it derives
  by SHA-256 is computed by a hash function given as an argument.
\<close>

record horizon =
  hz_context :: string
  hz_setup :: string
  hz_execution :: string
  hz_hold_min :: int
  hz_hold_max :: int
  hz_checkpoints :: "int list"
  hz_research_only :: bool

fun PROFILES :: "profile \<Rightarrow> horizon" where
  "PROFILES SHORT_INTRADAY = \<lparr>hz_context = ''60'', hz_setup = ''15'', hz_execution = ''5'',
     hz_hold_min = 15, hz_hold_max = 120, hz_checkpoints = [240, 480, 1440], hz_research_only = False\<rparr>"
| "PROFILES CORE_INTRADAY = \<lparr>hz_context = ''240'', hz_setup = ''60'', hz_execution = ''15'',
     hz_hold_min = 60, hz_hold_max = 240, hz_checkpoints = [480, 720, 1440, 2880],
     hz_research_only = False\<rparr>"
| "PROFILES SWING = \<lparr>hz_context = ''D'', hz_setup = ''240'', hz_execution = ''60'',
     hz_hold_min = 240, hz_hold_max = 2880, hz_checkpoints = [4320, 7200, 10080],
     hz_research_only = False\<rparr>"
| "PROFILES EXTENDED_SWING = \<lparr>hz_context = ''D'', hz_setup = ''240'', hz_execution = ''60'',
     hz_hold_min = 2880, hz_hold_max = 10080, hz_checkpoints = [14400, 20160],
     hz_research_only = True\<rparr>"
| "PROFILES LEGACY = \<lparr>hz_context = ''240'', hz_setup = ''60'', hz_execution = ''15'',
     hz_hold_min = 60, hz_hold_max = 240, hz_checkpoints = [480, 720, 1440, 2880],
     hz_research_only = False\<rparr>"

definition DURATIONS :: "(string \<times> ms) list" where
  "DURATIONS = [(''5'', 300000), (''15'', 900000), (''60'', 3600000), (''240'', 14400000),
                (''D'', 86400000)]"

definition duration :: "string \<Rightarrow> ms" where
  "duration tf = (case map_of DURATIONS tf of None \<Rightarrow> 0 | Some d \<Rightarrow> d)"

subsection \<open>Sessions\<close>

datatype session = EU_NY_OVERLAP | ASIA_EU_OVERLAP | NEW_YORK | EUROPE | ASIA | OFF_SESSION

record session_hours =
  sh_singapore :: int
  sh_london :: int
  sh_new_york :: int

definition session_context :: "session_hours \<Rightarrow> bool \<times> bool \<times> bool \<times> session" where
  "session_context h =
     (let a = (8 \<le> sh_singapore h \<and> sh_singapore h < 16);
          e = (8 \<le> sh_london h \<and> sh_london h < 16);
          n = (8 \<le> sh_new_york h \<and> sh_new_york h < 17)
      in (a, e, n,
          if e \<and> n then EU_NY_OVERLAP else if a \<and> e then ASIA_EU_OVERLAP else if n then NEW_YORK
          else if e then EUROPE else if a then ASIA else OFF_SESSION))"

subsection \<open>Assignment of a horizon\<close>

definition assign :: "(string \<Rightarrow> string) \<Rightarrow> profile \<Rightarrow> signal \<Rightarrow> signal" where
  "assign hash24 name s =
     (let p = PROFILES name; sgn = sign_of (sg_direction s);
          s1 = (if sgn * (sg_tp2 s - sg_tp1 s) \<le> 0
                then s\<lparr>sg_tp2 := sg_tp1 s + sgn * \<bar>sg_entry s - sg_stop s\<bar>,
                       sg_evidence := (sg_evidence s)\<lparr>
                         ev_tp2_method := Some ''one additional risk unit beyond the first target''\<rparr>\<rparr>
                else s);
          deadline = sg_created_ms s1 + hz_hold_max p * 60000
      in s1\<lparr>sg_horizon_profile := name, sg_context_timeframe := hz_context p,
            sg_setup_timeframe := hz_setup p, sg_execution_timeframe := hz_execution p,
            sg_expected_hold_min := hz_hold_min p, sg_expected_hold_max := hz_hold_max p,
            sg_holding_deadline_ms := Some deadline, sg_primary_tracking_deadline := Some deadline,
            sg_lifecycle_version := ''horizon-v1'', sg_id := hash24 (sg_id s1)\<rparr>)"

definition same_thesis :: "signal \<Rightarrow> signal \<Rightarrow> ms \<Rightarrow> bool" where
  "same_thesis a b max_age =
     (if sg_source a \<noteq> sg_source b \<or> sg_symbol a \<noteq> sg_symbol b
         \<or> sg_direction a \<noteq> sg_direction b \<or> sg_family a \<noteq> sg_family b then False
      else
        let risk = max (max \<bar>sg_entry a - sg_stop a\<bar> \<bar>sg_entry b - sg_stop b\<bar>) (1 / 1000000000000)
        in \<bar>sg_created_ms a - sg_created_ms b\<bar> \<le> max_age
           \<and> \<bar>sg_entry a - sg_entry b\<bar> \<le> 2 / 10 * risk
           \<and> \<bar>sg_stop a - sg_stop b\<bar> \<le> 2 / 10 * risk
           \<and> \<bar>sg_tp1 a - sg_tp1 b\<bar> \<le> 3 / 10 * risk)"

lemma same_thesis_sym: "same_thesis a b m = same_thesis b a m"
  by (auto simp: same_thesis_def Let_def abs_minus_commute max.commute)

text \<open>
  Whatever targets a plan arrives with, after assignment the second
  target lies strictly beyond the first in the plan's direction, the entry, stop and first target
  are untouched, and the holding deadline is the profile's maximum after creation.
\<close>

theorem assign_orders_targets:
  assumes "sg_entry s \<noteq> sg_stop s"
  shows "sign_of (sg_direction s) * (sg_tp2 (assign h p s) - sg_tp1 (assign h p s)) > 0
    \<and> sg_entry (assign h p s) = sg_entry s \<and> sg_stop (assign h p s) = sg_stop s
    \<and> sg_tp1 (assign h p s) = sg_tp1 s \<and> sg_direction (assign h p s) = sg_direction s
    \<and> holding_deadline (assign h p s)
        = or_ms (Some (sg_created_ms s + hz_hold_max (PROFILES p) * 60000)) (sg_expires_ms s)"
  using assms by (cases "sg_direction s") (auto simp: assign_def Let_def holding_deadline_def)

lemma assign_orders_targets_witness:
  "let s = sample_signal\<lparr>sg_tp2 := 105\<rparr> in
   sign_of (sg_direction s) * (sg_tp2 (assign id SWING s) - sg_tp1 (assign id SWING s)) > 0
    \<and> sg_entry (assign id SWING s) = sg_entry s \<and> sg_stop (assign id SWING s) = sg_stop s
    \<and> sg_tp1 (assign id SWING s) = sg_tp1 s \<and> sg_direction (assign id SWING s) = sg_direction s
    \<and> holding_deadline (assign id SWING s)
        = or_ms (Some (sg_created_ms s + hz_hold_max (PROFILES SWING) * 60000)) (sg_expires_ms s)"
  unfolding Let_def by (rule assign_orders_targets) (simp add: sample_signal_def)

end
