(* ===== verification/Conflicts.thy ===== *)
theory Conflicts imports Horizons begin

text \<open>
  The justification an opposing plan needs before it may be published next to a visible one:
  \<^verbatim>\<open>assess\<close> of \<^verbatim>\<open>src/bybit_flow/notification_conflicts.py\<close>. Plan and
  original are the stored signals; the enrichment dictionaries they carry stay JSON values and
  are read as the code reads them. The prices of a plan are numbers by typing.
\<close>

record conflict_settings =
  cs_trade_stale :: ms
  cs_book_stale :: ms

definition source_json :: "source \<Rightarrow> json" where
  "source_json s = JStr (case s of Bybit \<Rightarrow> ''bybit'' | Binance \<Rightarrow> ''binance'' | Okx \<Rightarrow> ''okx''
     | Tradingview \<Rightarrow> ''tradingview'')"

definition is_true :: "json \<Rightarrow> bool" where "is_true v \<longleftrightarrow> v = JBool True"
definition is_false :: "json \<Rightarrow> bool" where "is_false v \<longleftrightarrow> v = JBool False"

definition str_is :: "json \<Rightarrow> string \<Rightarrow> bool" where "str_is v s \<longleftrightarrow> v = JStr s"

definition row_causal :: "signal \<Rightarrow> json \<Rightarrow> ms \<Rightarrow> ms option \<Rightarrow> bool" where
  "row_causal s row now ttl = causal row (source_json (sg_source s)) (JStr (sg_symbol s)) now ttl"

subsection \<open>The five conditions\<close>

definition not_nested :: "signal \<Rightarrow> signal \<Rightarrow> bool" where
  "not_nested plan original \<longleftrightarrow>
     (let new_h = PROFILES (sg_horizon_profile plan); old_h = PROFILES (sg_horizon_profile original) in
      sg_horizon_profile plan = LEGACY \<or> sg_horizon_profile original = LEGACY
      \<or> hz_hold_max new_h \<ge> hz_hold_max old_h
      \<or> sg_setup_timeframe plan \<noteq> hz_setup new_h \<or> sg_setup_timeframe original \<noteq> hz_setup old_h
      \<or> duration (hz_setup new_h) \<ge> duration (hz_setup old_h)
      \<or> holding_deadline plan > holding_deadline original)"

definition original_unhealthy :: "conflict_settings \<Rightarrow> ms \<Rightarrow> signal \<Rightarrow> bool" where
  "original_unhealthy cs now original \<longleftrightarrow>
     (let c = sg_coverage original; health = or_obj (cv_v22_current c); avail = jget health ''available_ms'' in
      cv_monitoring c \<noteq> Some ''active'' \<or> cv_monitor_status c \<noteq> Some ''MONITOR_READY''
      \<or> (case cv_last_monitor_ms c of None \<Rightarrow> True
         | Some m \<Rightarrow> \<not> (0 \<le> now - m \<and> now - m \<le> cs_trade_stale cs))
      \<or> \<not> str_is (jget health ''state'') ''STABLE''
      \<or> \<not> number avail
      \<or> \<not> (0 \<le> of_int now - num_val avail \<and> of_int now - num_val avail \<le> (120000 :: dec)))"

definition structure_not_distinct :: "ms \<Rightarrow> signal \<Rightarrow> signal \<Rightarrow> bool" where
  "structure_not_distinct now plan original \<longleftrightarrow>
     (let a = or_obj (ev_frozen_structure (sg_evidence plan));
          b = or_obj (ev_frozen_structure (sg_evidence original)) in
      \<not> row_causal plan a now None \<or> \<not> row_causal original b now None
      \<or> \<not> truthy (jget a ''structure_event_id'') \<or> \<not> truthy (jget b ''structure_event_id'')
      \<or> py_eq (jget a ''structure_event_id'') (jget b ''structure_event_id'')
      \<or> \<not> positive (jget a ''frozen_reference'') \<or> \<not> positive (jget b ''frozen_reference'')
      \<or> py_eq (jget a ''frozen_reference'') (jget b ''frozen_reference''))"

definition plan_levels :: "signal \<Rightarrow> dec list" where
  "plan_levels s = [sg_entry s, sg_stop s, sg_tp1 s, sg_tp2 s, fst (sg_zone s), snd (sg_zone s)]"

definition crosses_original :: "signal \<Rightarrow> signal \<Rightarrow> bool" where
  "crosses_original plan original \<longleftrightarrow>
     (let bounds = [sg_stop original, sg_tp1 original];
          low = min (sg_stop original) (sg_tp1 original); high = max (sg_stop original) (sg_tp1 original) in
      \<not> list_all (\<lambda>x. x > 0) (plan_levels plan @ bounds)
      \<or> \<not> list_all (\<lambda>x. low < x \<and> x < high) (plan_levels plan))"

definition no_strong_move :: "conflict_settings \<Rightarrow> ms \<Rightarrow> signal \<Rightarrow> bool" where
  "no_strong_move cs now plan \<longleftrightarrow>
     (let e = sg_evidence plan; ttl = Some (cs_book_stale cs);
          confirmation = or_obj (ev_delivery_confirmation e); quality = or_obj (ev_flow_quality e);
          response = or_obj (ev_impact_efficiency e); entry = or_obj (ev_entry_quality e);
          trust = jget quality ''flow_trust_score'' in
      \<not> row_causal plan confirmation now ttl
      \<or> \<not> is_true (jget confirmation ''passed'')
      \<or> \<not> is_true (jget confirmation ''structure_support'')
      \<or> \<not> is_true (jget confirmation ''participation_support'')
      \<or> \<not> is_true (jget (jget_default (jget_default confirmation ''metrics'' (JObj [])) ''flow'' (JObj []))
              ''strong'')
      \<or> \<not> row_causal plan quality now ttl
      \<or> \<not> number trust \<or> num_val trust < 6 / 10
      \<or> \<not> row_causal plan response now ttl
      \<or> \<not> is_true (jget response ''coverage_complete'')
      \<or> \<not> is_false (jget response ''contradicted'')
      \<or> \<not> (str_is (jget response ''state'') ''EFFICIENT_DIRECTIONAL_IMPACT''
           \<or> str_is (jget response ''state'') ''DEFENDED_ABSORPTION_RESPONSE'')
      \<or> \<not> row_causal plan entry now ttl
      \<or> \<not> is_true (jget entry ''acceptable'')
      \<or> \<not> str_is (jget entry ''quote_state'') ''QUOTE_FRESH''
      \<or> sg_gates plan \<noteq> [])"

definition assess :: "conflict_settings \<Rightarrow> ms \<Rightarrow> signal \<Rightarrow> signal \<Rightarrow> bool \<times> string list" where
  "assess cs now plan original =
     (let failures =
            (if not_nested plan original then [''NO_NESTED_SHORTER_HORIZON''] else [])
            @ (if sg_source plan \<noteq> sg_source original then [''VENUE_PRICE_BASIS_MISMATCH''] else [])
            @ (if original_unhealthy cs now original then [''ORIGINAL_PLAN_NOT_FRESH_AND_STABLE''] else [])
            @ (if structure_not_distinct now plan original then [''NO_DISTINCT_FROZEN_STRUCTURE''] else [])
            @ (if crosses_original plan original
               then [''COUNTER_PLAN_CROSSES_ORIGINAL_TERMINAL_LEVEL''] else [])
            @ (if no_strong_move cs now plan then [''NO_FRESH_STRONG_CONFIRMED_COUNTER_MOVE''] else [])
      in (failures = [], failures))"

subsection \<open>What an allowed counter-plan guarantees\<close>

lemma hold_max_setup:
  "\<lbrakk>p \<noteq> LEGACY; q \<noteq> LEGACY; hz_hold_max (PROFILES p) < hz_hold_max (PROFILES q);
    duration (hz_setup (PROFILES p)) < duration (hz_setup (PROFILES q))\<rbrakk>
   \<Longrightarrow> p \<in> {SHORT_INTRADAY, CORE_INTRADAY} \<and> q \<noteq> SHORT_INTRADAY"
  by (cases p; cases q) (auto simp: duration_def DURATIONS_def)

text \<open>
  An opposing plan that is allowed is on the same venue, has a shorter
  horizon that ends no later, keeps every price strictly between the stop and the target of the
  visible plan, and that plan was monitored live within the staleness bound. In particular no
  SWING or EXTENDED_SWING plan is ever allowed against a visible one.
\<close>

theorem allowed_counter_plan:
  assumes "fst (assess cs now plan original)"
  shows "sg_source plan = sg_source original
    \<and> holding_deadline plan \<le> holding_deadline original
    \<and> sg_horizon_profile plan \<in> {SHORT_INTRADAY, CORE_INTRADAY}
    \<and> sg_horizon_profile original \<noteq> SHORT_INTRADAY
    \<and> (\<forall>x \<in> set (plan_levels plan). min (sg_stop original) (sg_tp1 original) < x
         \<and> x < max (sg_stop original) (sg_tp1 original))
    \<and> cv_monitoring (sg_coverage original) = Some ''active''
    \<and> (\<exists>m. cv_last_monitor_ms (sg_coverage original) = Some m \<and> m \<le> now \<and> now - m \<le> cs_trade_stale cs)
    \<and> sg_gates plan = []"
proof -
  have ok: "\<not> not_nested plan original" "sg_source plan = sg_source original"
    "\<not> original_unhealthy cs now original" "\<not> crosses_original plan original" "\<not> no_strong_move cs now plan"
    using assms by (auto simp: assess_def Let_def split: if_splits)
  have "sg_horizon_profile plan \<in> {SHORT_INTRADAY, CORE_INTRADAY}
      \<and> sg_horizon_profile original \<noteq> SHORT_INTRADAY"
    by (rule hold_max_setup) (use ok(1) in \<open>auto simp: not_nested_def Let_def\<close>)
  moreover have "holding_deadline plan \<le> holding_deadline original"
    using ok(1) by (simp add: not_nested_def Let_def)
  moreover have "\<forall>x \<in> set (plan_levels plan). min (sg_stop original) (sg_tp1 original) < x
      \<and> x < max (sg_stop original) (sg_tp1 original)"
    using ok(4) by (simp only: crosses_original_def Let_def list_all_iff) blast
  moreover have "cv_monitoring (sg_coverage original) = Some ''active''
      \<and> (\<exists>m. cv_last_monitor_ms (sg_coverage original) = Some m \<and> m \<le> now \<and> now - m \<le> cs_trade_stale cs)"
    using ok(3) by (auto simp: original_unhealthy_def Let_def split: option.splits)
  moreover have "sg_gates plan = []" using ok(5) by (simp add: no_strong_move_def Let_def)
  ultimately show ?thesis using ok(2) by simp
qed

text \<open>A counter-plan that is allowed, and the visible plan it runs against.\<close>

definition sample_row :: "(string \<times> json) list \<Rightarrow> json" where
  "sample_row kvs = JObj ((''available_ms'', JInt 100000) # kvs)"

definition sample_visible :: signal where
  "sample_visible = sample_signal\<lparr>sg_coverage := empty_coverage\<lparr>cv_monitoring := Some ''active'',
     cv_monitor_status := Some ''MONITOR_READY'', cv_last_monitor_ms := Some 99000,
     cv_v22_current := sample_row [(''state'', JStr ''STABLE'')]\<rparr>,
     sg_evidence := empty_evidence\<lparr>ev_frozen_structure :=
       sample_row [(''structure_event_id'', JStr ''a''), (''frozen_reference'', JInt 98)]\<rparr>\<rparr>"

definition sample_counter :: signal where
  "sample_counter = sample_signal\<lparr>sg_id := ''s2'', sg_direction := SHORT, sg_horizon_profile := SHORT_INTRADAY,
     sg_setup_timeframe := ''15'', sg_stop := 104, sg_tp1 := 98, sg_tp2 := 97,
     sg_evidence := empty_evidence\<lparr>
       ev_frozen_structure := sample_row [(''structure_event_id'', JStr ''b''), (''frozen_reference'', JInt 103)],
       ev_delivery_confirmation := sample_row [(''passed'', JBool True), (''structure_support'', JBool True),
         (''participation_support'', JBool True),
         (''metrics'', JObj [(''flow'', JObj [(''strong'', JBool True)])])],
       ev_flow_quality := sample_row [(''flow_trust_score'', JFlt (Fin (7 / 10)))],
       ev_impact_efficiency := sample_row [(''coverage_complete'', JBool True), (''contradicted'', JBool False),
         (''state'', JStr ''EFFICIENT_DIRECTIONAL_IMPACT'')],
       ev_entry_quality := sample_row [(''acceptable'', JBool True), (''quote_state'', JStr ''QUOTE_FRESH'')]\<rparr>\<rparr>"

lemma allowed_assess:
  "fst (assess \<lparr>cs_trade_stale = 15000, cs_book_stale = 5000\<rparr> 101000 sample_counter sample_visible)"
  by code_simp

lemma allowed_counter_plan_witness:
  "sg_source sample_counter = sg_source sample_visible
    \<and> holding_deadline sample_counter \<le> holding_deadline sample_visible
    \<and> sg_horizon_profile sample_counter \<in> {SHORT_INTRADAY, CORE_INTRADAY}
    \<and> sg_horizon_profile sample_visible \<noteq> SHORT_INTRADAY
    \<and> set (plan_levels sample_counter)
        \<subseteq> {min (sg_stop sample_visible) (sg_tp1 sample_visible)<..<max (sg_stop sample_visible) (sg_tp1 sample_visible)}
    \<and> cv_monitoring (sg_coverage sample_visible) = Some ''active''
    \<and> (\<exists>m. cv_last_monitor_ms (sg_coverage sample_visible) = Some m \<and> m \<le> 101000 \<and> 101000 - m \<le> 15000)
    \<and> sg_gates sample_counter = []"
  using allowed_counter_plan [of "\<lparr>cs_trade_stale = 15000, cs_book_stale = 5000\<rparr>" 101000
      sample_counter sample_visible]
  by (simp only: conflict_settings.simps subset_iff greaterThanLessThan_iff) (use allowed_assess in blast)

end
