(* ===== verification/Outbox.thy ===== *)
theory Outbox imports Model "HOL-Library.Sublist" begin

text \<open>
  The durable outbox: \<^verbatim>\<open>Notifier.deliver\<close> of
  \<^verbatim>\<open>src/bybit_flow/notifications.py\<close> as a small-step machine. Several attempts
  for the same or different keys may run in one or in several processes, and a process may die
  between any two steps; what survives is the SQLite state. The guards that run between the
  claim and the request (lifecycle state, macro pause, live quote checks) may answer anything at
  any time, and so may Discord. The HTTP requests that left the process are a ghost log.
\<close>

record outbox_row =
  ox_signal :: "string option"
  ox_status :: string
  ox_message :: "string option"

record durable =
  du_outbox :: "string \<Rightarrow> outbox_row option"
  du_dispatched :: "string \<Rightarrow> bool option"
  du_delivery :: "string \<times> string \<Rightarrow> string option"
  du_webhook :: "string \<Rightarrow> string option"
  du_posts :: "string list"

definition is_blocked :: "string \<Rightarrow> bool" where
  "is_blocked st \<longleftrightarrow> prefix ''blocked:'' st"

definition channel_of :: "string \<Rightarrow> string" where
  "channel_of key = takeWhile (\<lambda>c. c \<noteq> CHR '':'') key"

text \<open>What the request came back with: a response, or a transport failure or timeout.\<close>

datatype http_answer = Response int "string option" | NoAnswer

definition answer_status :: "http_answer \<Rightarrow> string \<times> string option" where
  "answer_status a =
     (case a of
        NoAnswer \<Rightarrow> (''uncertain'', None)
      | Response code ident \<Rightarrow>
          if code = 429 then (''rate-limited'', None)
          else if 200 \<le> code \<and> code < 300 then (''sent'', ident)
          else (''rejected'', None))"

subsection \<open>The steps of one attempt\<close>

datatype phase =
    Started
  | Checked bool
  | Claimed
  | Armed
  | Passed
  | Flagged
  | Waiting
  | Finishing string "string option" bool
  | Returned string

record attempt =
  at_key :: string
  at_signal :: "string option"
  at_factory :: bool
  at_webhook :: string
  at_phase :: phase

definition real_initial :: "attempt \<Rightarrow> bool" where
  "real_initial a \<longleftrightarrow> at_signal a \<noteq> None \<and> suffix '':initial'' (at_key a)"

definition dispatched_flag :: "durable \<Rightarrow> attempt \<Rightarrow> bool option" where
  "dispatched_flag d a = (case at_signal a of None \<Rightarrow> None | Some i \<Rightarrow> du_dispatched d i)"

definition set_dispatched :: "bool \<Rightarrow> attempt \<Rightarrow> durable \<Rightarrow> durable" where
  "set_dispatched v a d =
     (case at_signal a of None \<Rightarrow> d
      | Some i \<Rightarrow> d\<lparr>du_dispatched := (du_dispatched d)(i := Some v)\<rparr>)"

text \<open>Reading the existing row; only a blocked row whose request never left may be retried.\<close>

definition look_up :: "durable \<Rightarrow> attempt \<Rightarrow> phase" where
  "look_up d a =
     (let existing = du_outbox d (at_key a);
          safe_retry = (at_factory a \<and> (case existing of None \<Rightarrow> False | Some r \<Rightarrow> is_blocked (ox_status r))
                        \<and> dispatched_flag d a = Some False)
      in if existing \<noteq> None \<and> \<not> safe_retry then Returned ''already-attempted'' else Checked safe_retry)"

text \<open>The claim is one transaction: a conditional update, or an insert that ignores conflicts.\<close>

definition take_claim :: "durable \<Rightarrow> attempt \<Rightarrow> bool \<Rightarrow> durable \<times> phase" where
  "take_claim d a safe_retry =
     (case du_outbox d (at_key a) of
        Some r \<Rightarrow>
          if safe_retry \<and> is_blocked (ox_status r)
          then (d\<lparr>du_outbox := (du_outbox d)(at_key a \<mapsto> r\<lparr>ox_status := ''sending''\<rparr>)\<rparr>, Claimed)
          else (d, Returned ''already-attempted'')
      | None \<Rightarrow>
          if safe_retry then (d, Returned ''already-attempted'')
          else (d\<lparr>du_outbox := (du_outbox d)(at_key a \<mapsto>
                   \<lparr>ox_signal = at_signal a, ox_status = ''sending'', ox_message = None\<rparr>)\<rparr>, Claimed))"

definition arm :: "durable \<Rightarrow> attempt \<Rightarrow> durable" where
  "arm d a = (if at_factory a then set_dispatched False a d else d)"

definition raise_flag :: "durable \<Rightarrow> attempt \<Rightarrow> durable" where
  "raise_flag d a = (if at_factory a then set_dispatched True a d else d)"

definition post :: "durable \<Rightarrow> attempt \<Rightarrow> durable" where
  "post d a = d\<lparr>du_posts := du_posts d @ [at_key a]\<rparr>"

text \<open>The final transaction: outcome, and for a visible initial its destination.\<close>

definition record_outcome :: "durable \<Rightarrow> attempt \<Rightarrow> string \<Rightarrow> string option \<Rightarrow> durable" where
  "record_outcome d a status message =
     (let d1 = d\<lparr>du_outbox := (du_outbox d)(at_key a := (case du_outbox d (at_key a) of None \<Rightarrow> None
                 | Some r \<Rightarrow> Some (r\<lparr>ox_status := status, ox_message := message\<rparr>)))\<rparr>
      in case (at_signal a, message) of
           (Some i, Some m) \<Rightarrow>
             if real_initial a \<and> status = ''sent'' \<and> m \<noteq> []
             then d1\<lparr>du_delivery := (du_delivery d1)((channel_of (at_key a), i) \<mapsto> at_webhook a),
                     du_webhook := (du_webhook d1)(i \<mapsto> at_webhook a)\<rparr> else d1
         | _ \<Rightarrow> d1)"

subsection \<open>Interleaved attempts\<close>

type_synonym system = "durable \<times> (nat \<Rightarrow> attempt option)"

abbreviation goto :: "attempt \<Rightarrow> phase \<Rightarrow> attempt" where
  "goto a p \<equiv> a\<lparr>at_phase := p\<rparr>"

inductive attempt_step :: "durable \<times> attempt \<Rightarrow> durable \<times> attempt \<Rightarrow> bool" where
  refuse: "at_phase a = Started \<Longrightarrow> attempt_step (d, a) (d, goto a (Returned reason))"
| check: "at_phase a = Started \<Longrightarrow> attempt_step (d, a) (d, goto a (look_up d a))"
| block_early: "\<lbrakk>at_phase a = Checked safe; real_initial a\<rbrakk>
    \<Longrightarrow> attempt_step (d, a) (d, goto a (Returned reason))"
| claim: "\<lbrakk>at_phase a = Checked safe; take_claim d a safe = (d', p)\<rbrakk>
    \<Longrightarrow> attempt_step (d, a) (d', goto a p)"
| arms: "at_phase a = Claimed \<Longrightarrow> attempt_step (d, a) (arm d a, goto a Armed)"
| gate_block: "\<lbrakk>at_phase a = Armed; real_initial a \<or> at_factory a\<rbrakk>
    \<Longrightarrow> attempt_step (d, a) (d, goto a (Finishing reason None False))"
| gate_pass: "at_phase a = Armed \<Longrightarrow> attempt_step (d, a) (d, goto a Passed)"
| flags: "at_phase a = Passed \<Longrightarrow> attempt_step (d, a) (raise_flag d a, goto a Flagged)"
| last_block: "\<lbrakk>at_phase a = Flagged; at_factory a\<rbrakk>
    \<Longrightarrow> attempt_step (d, a) (set_dispatched False a d, goto a (Finishing reason None False))"
| posts: "at_phase a = Flagged \<Longrightarrow> attempt_step (d, a) (post d a, goto a Waiting)"
| answers: "\<lbrakk>at_phase a = Waiting; answer_status ans = (st, m)\<rbrakk>
    \<Longrightarrow> attempt_step (d, a) (d, goto a (Finishing st m True))"
| finish: "at_phase a = Finishing st m sent
    \<Longrightarrow> attempt_step (d, a) (record_outcome d a st m, goto a (Returned st))"

inductive deliver_step :: "system \<Rightarrow> system \<Rightarrow> bool" where
  spawn: "\<lbrakk>run n = None; at_phase a = Started\<rbrakk> \<Longrightarrow> deliver_step (d, run) (d, run(n \<mapsto> a))"
| moves: "\<lbrakk>run n = Some a; attempt_step (d, a) (d', a')\<rbrakk> \<Longrightarrow> deliver_step (d, run) (d', run(n \<mapsto> a'))"
| crash: "run n = Some a \<Longrightarrow> deliver_step (d, run) (d, run(n := None))"

definition fresh_durable :: durable where
  "fresh_durable = \<lparr>du_outbox = \<lambda>_. None, du_dispatched = \<lambda>_. None, du_delivery = \<lambda>_. None,
     du_webhook = \<lambda>_. None, du_posts = []\<rparr>"

definition reachable :: "system \<Rightarrow> bool" where
  "reachable s \<longleftrightarrow> deliver_step\<^sup>*\<^sup>* (fresh_durable, \<lambda>_. None) s"

subsection \<open>The invariant\<close>

definition holds_claim :: "phase \<Rightarrow> bool" where
  "holds_claim p \<longleftrightarrow> p \<in> {Claimed, Armed, Passed, Flagged, Waiting} \<or> (\<exists>st m b. p = Finishing st m b)"

definition has_posted :: "phase \<Rightarrow> bool" where
  "has_posted p \<longleftrightarrow> p = Waiting \<or> (\<exists>st m. p = Finishing st m True)"

definition holder :: "(nat \<Rightarrow> attempt option) \<Rightarrow> string \<Rightarrow> nat \<Rightarrow> bool" where
  "holder run k n \<longleftrightarrow> (\<exists>a. run n = Some a \<and> at_key a = k \<and> holds_claim (at_phase a))"

definition posts_of :: "durable \<Rightarrow> string \<Rightarrow> nat" where
  "posts_of d k = count_list (du_posts d) k"

definition final_statuses :: "string set" where
  "final_statuses = {''uncertain'', ''rate-limited'', ''sent'', ''rejected''}"

lemma phase_flags [simp]:
  "holds_claim Claimed" "holds_claim Armed" "holds_claim Passed" "holds_claim Flagged"
  "holds_claim Waiting" "holds_claim (Finishing st m b)" "\<not> holds_claim Started"
  "\<not> holds_claim (Checked b)" "\<not> holds_claim (Returned st)"
  "has_posted Waiting" "has_posted (Finishing st m b) = b" "\<not> has_posted Claimed"
  "\<not> has_posted Armed" "\<not> has_posted Passed" "\<not> has_posted Flagged"
  by (auto simp: holds_claim_def has_posted_def)

lemma status_strings [simp]:
  "\<not> is_blocked ''sending''" "\<not> is_blocked ''sent''" "\<not> is_blocked ''uncertain''"
  "\<not> is_blocked ''rate-limited''" "\<not> is_blocked ''rejected''"
  by (simp_all add: is_blocked_def)

lemma answer_final: "answer_status ans = (st, m) \<Longrightarrow> st \<in> final_statuses"
  by (auto simp: answer_status_def final_statuses_def split: http_answer.splits if_splits)

lemma final_not_blocked: "st \<in> final_statuses \<Longrightarrow> \<not> is_blocked st"
  by (auto simp: final_statuses_def)

text \<open>
  Per key: at most one attempt holds the claim, and it does so on a row marked as sending; before
  it posts, nothing was posted for the key; a key with a request has a row that is not blocked.
\<close>

definition one_holder :: "(nat \<Rightarrow> attempt option) \<Rightarrow> string \<Rightarrow> bool" where
  "one_holder run k \<longleftrightarrow> (\<forall>n m. holder run k n \<longrightarrow> holder run k m \<longrightarrow> n = m)"

definition holder_row :: "durable \<Rightarrow> (nat \<Rightarrow> attempt option) \<Rightarrow> string \<Rightarrow> bool" where
  "holder_row d run k \<longleftrightarrow>
     (\<forall>n. holder run k n \<longrightarrow> (\<exists>r. du_outbox d k = Some r \<and> ox_status r = ''sending''))"

definition silent_before :: "durable \<Rightarrow> (nat \<Rightarrow> attempt option) \<Rightarrow> string \<Rightarrow> bool" where
  "silent_before d run k \<longleftrightarrow>
     (\<forall>n a. run n = Some a \<longrightarrow> at_key a = k \<longrightarrow> holds_claim (at_phase a) \<longrightarrow> \<not> has_posted (at_phase a)
        \<longrightarrow> posts_of d k = 0)"

definition honest_outcome :: "(nat \<Rightarrow> attempt option) \<Rightarrow> string \<Rightarrow> bool" where
  "honest_outcome run k \<longleftrightarrow>
     (\<forall>n a st m. run n = Some a \<longrightarrow> at_key a = k \<longrightarrow> at_phase a = Finishing st m True
        \<longrightarrow> st \<in> final_statuses)"

definition posted_row :: "durable \<Rightarrow> string \<Rightarrow> bool" where
  "posted_row d k \<longleftrightarrow>
     posts_of d k \<le> 1
     \<and> (posts_of d k = 1 \<longrightarrow> (\<exists>r. du_outbox d k = Some r \<and> \<not> is_blocked (ox_status r)))"

definition key_inv :: "durable \<Rightarrow> (nat \<Rightarrow> attempt option) \<Rightarrow> string \<Rightarrow> bool" where
  "key_inv d run k \<longleftrightarrow>
     one_holder run k \<and> holder_row d run k \<and> silent_before d run k \<and> honest_outcome run k
     \<and> posted_row d k"

definition outbox_inv :: "system \<Rightarrow> bool" where
  "outbox_inv s \<longleftrightarrow> (\<forall>k. key_inv (fst s) (snd s) k)"

lemma key_invD:
  assumes "key_inv d run k"
  shows "holder run k n \<Longrightarrow> holder run k m \<Longrightarrow> n = m"
    and "holder run k n \<Longrightarrow> \<exists>r. du_outbox d k = Some r \<and> ox_status r = ''sending''"
    and "run n = Some a \<Longrightarrow> at_key a = k \<Longrightarrow> holds_claim (at_phase a) \<Longrightarrow> \<not> has_posted (at_phase a)
      \<Longrightarrow> posts_of d k = 0"
    and "run n = Some a \<Longrightarrow> at_key a = k \<Longrightarrow> at_phase a = Finishing st mm True \<Longrightarrow> st \<in> final_statuses"
    and "posts_of d k \<le> 1"
    and "posts_of d k = 1 \<Longrightarrow> \<exists>r. du_outbox d k = Some r \<and> \<not> is_blocked (ox_status r)"
proof -
  from assms have parts: "one_holder run k" "holder_row d run k" "silent_before d run k"
    "honest_outcome run k" "posted_row d k" by (simp_all only: key_inv_def)
  show "holder run k n \<Longrightarrow> holder run k m \<Longrightarrow> n = m" using parts(1) unfolding one_holder_def by blast
  show "holder run k n \<Longrightarrow> \<exists>r. du_outbox d k = Some r \<and> ox_status r = ''sending''"
    using parts(2) unfolding holder_row_def by blast
  show "run n = Some a \<Longrightarrow> at_key a = k \<Longrightarrow> holds_claim (at_phase a) \<Longrightarrow> \<not> has_posted (at_phase a)
      \<Longrightarrow> posts_of d k = 0" using parts(3) unfolding silent_before_def by (elim allE impE) assumption+
  show "run n = Some a \<Longrightarrow> at_key a = k \<Longrightarrow> at_phase a = Finishing st mm True \<Longrightarrow> st \<in> final_statuses"
    using parts(4) unfolding honest_outcome_def by (elim allE impE) assumption+
  show "posts_of d k \<le> 1" "posts_of d k = 1 \<Longrightarrow> \<exists>r. du_outbox d k = Some r \<and> \<not> is_blocked (ox_status r)"
    using parts(5) unfolding posted_row_def by blast+
qed

lemma key_invI:
  assumes "\<And>n m. holder run k n \<Longrightarrow> holder run k m \<Longrightarrow> n = m"
    and "\<And>n. holder run k n \<Longrightarrow> \<exists>r. du_outbox d k = Some r \<and> ox_status r = ''sending''"
    and "\<And>n a. run n = Some a \<Longrightarrow> at_key a = k \<Longrightarrow> holds_claim (at_phase a) \<Longrightarrow> \<not> has_posted (at_phase a)
      \<Longrightarrow> posts_of d k = 0"
    and "\<And>n a st mm. run n = Some a \<Longrightarrow> at_key a = k \<Longrightarrow> at_phase a = Finishing st mm True
      \<Longrightarrow> st \<in> final_statuses"
    and "posts_of d k \<le> 1"
    and "posts_of d k = 1 \<Longrightarrow> \<exists>r. du_outbox d k = Some r \<and> \<not> is_blocked (ox_status r)"
  shows "key_inv d run k"
proof -
  have "one_holder run k" unfolding one_holder_def using assms(1) by blast
  moreover have "holder_row d run k" unfolding holder_row_def using assms(2) by blast
  moreover have "silent_before d run k" unfolding silent_before_def by (intro allI impI) (rule assms(3))
  moreover have "honest_outcome run k" unfolding honest_outcome_def by (intro allI impI) (rule assms(4))
  moreover have "posted_row d k" unfolding posted_row_def using assms(5,6) by blast
  ultimately show ?thesis by (simp only: key_inv_def)
qed

text \<open>A step that neither takes nor drops durable rows and posts nothing.\<close>

lemma key_inv_move:
  assumes inv: "key_inv d run k" and run: "run n = Some a"
    and same: "du_outbox d' = du_outbox d" "du_posts d' = du_posts d"
    and keeps: "holds_claim p \<Longrightarrow> holds_claim (at_phase a)"
    and posted: "holds_claim p \<Longrightarrow> \<not> has_posted p \<Longrightarrow> \<not> has_posted (at_phase a)"
    and final: "\<And>st m. p = Finishing st m True \<Longrightarrow> st \<in> final_statuses"
  shows "key_inv d' (run(n \<mapsto> goto a p)) k"
proof -
  have hold: "holder (run(n \<mapsto> goto a p)) k i \<Longrightarrow> holder run k i" for i
    using run keeps by (auto simp: holder_def split: if_splits)
  have posts: "posts_of d' k = posts_of d k" by (simp add: posts_of_def same)
  show ?thesis
  proof (rule key_invI)
    fix i b
    assume "(run(n \<mapsto> goto a p)) i = Some b" "at_key b = k" "holds_claim (at_phase b)" "\<not> has_posted (at_phase b)"
    then show "posts_of d' k = 0"
      using key_invD(3) [OF inv] run keeps posted unfolding posts by (auto split: if_splits)
  next
    fix i b st mm
    assume "(run(n \<mapsto> goto a p)) i = Some b" "at_key b = k" "at_phase b = Finishing st mm True"
    then show "st \<in> final_statuses" using key_invD(4) [OF inv] final by (auto split: if_splits)
  qed ((unfold posts same)?, use key_invD(1,2,5,6) [OF inv] hold in blast)+
qed

lemma key_inv_spawn:
  assumes inv: "key_inv d run k" and "run n = None" "at_phase a = Started"
  shows "key_inv d (run(n \<mapsto> a)) k"
proof -
  have hold: "holder (run(n \<mapsto> a)) k i \<Longrightarrow> holder run k i" for i
    using assms by (auto simp: holder_def split: if_splits)
  show ?thesis
  proof (rule key_invI)
    fix i b
    assume "(run(n \<mapsto> a)) i = Some b" "at_key b = k" "holds_claim (at_phase b)" "\<not> has_posted (at_phase b)"
    then show "posts_of d k = 0" using key_invD(3) [OF inv] assms(3) by (auto split: if_splits)
  next
    fix i b st mm
    assume "(run(n \<mapsto> a)) i = Some b" "at_key b = k" "at_phase b = Finishing st mm True"
    then show "st \<in> final_statuses" using key_invD(4) [OF inv] assms(3) by (auto split: if_splits)
  qed (use key_invD(1,2,5,6) [OF inv] hold in blast)+
qed

lemma key_inv_crash:
  assumes inv: "key_inv d run k"
  shows "key_inv d (run(n := None)) k"
proof -
  have hold: "holder (run(n := None)) k i \<Longrightarrow> holder run k i" for i
    by (auto simp: holder_def split: if_splits)
  show ?thesis
  proof (rule key_invI)
    fix i b
    assume "(run(n := None)) i = Some b" "at_key b = k" "holds_claim (at_phase b)" "\<not> has_posted (at_phase b)"
    then show "posts_of d k = 0" using key_invD(3) [OF inv] by (auto split: if_splits)
  next
    fix i b st mm
    assume "(run(n := None)) i = Some b" "at_key b = k" "at_phase b = Finishing st mm True"
    then show "st \<in> final_statuses" using key_invD(4) [OF inv] by (auto split: if_splits)
  qed (use key_invD(1,2,5,6) [OF inv] hold in blast)+
qed

text \<open>An attempt for another key does not matter.\<close>

lemma key_inv_other:
  assumes inv: "key_inv d run k" and run: "run n = Some a" and other: "at_key a \<noteq> k"
    and same: "du_outbox d' k = du_outbox d k" "posts_of d' k = posts_of d k"
  shows "key_inv d' (run(n \<mapsto> goto a p)) k"
proof -
  have hold: "holder (run(n \<mapsto> goto a p)) k i \<Longrightarrow> holder run k i" for i
    using other by (auto simp: holder_def split: if_splits)
  show ?thesis
  proof (rule key_invI)
    fix i b
    assume "(run(n \<mapsto> goto a p)) i = Some b" "at_key b = k" "holds_claim (at_phase b)" "\<not> has_posted (at_phase b)"
    then show "posts_of d' k = 0"
      using key_invD(3) [OF inv] other unfolding same(2) by (auto split: if_splits)
  next
    fix i b st mm
    assume "(run(n \<mapsto> goto a p)) i = Some b" "at_key b = k" "at_phase b = Finishing st mm True"
    then show "st \<in> final_statuses" using key_invD(4) [OF inv] other by (auto split: if_splits)
  qed ((unfold same)?, use key_invD(1,2,5,6) [OF inv] hold in blast)+
qed

text \<open>When the acting attempt holds the claim, every other attempt for the key does not.\<close>

lemma alone:
  assumes "key_inv d run k" "run n = Some a" "at_key a = k" "holds_claim (at_phase a)"
    and "run i = Some b" "at_key b = k" "i \<noteq> n"
  shows "\<not> holds_claim (at_phase b)"
  using key_invD(1) [OF assms(1), of n i] assms by (auto simp: holder_def)

lemma key_inv_claimed:
  assumes inv: "key_inv d run k" and run: "run n = Some a" and key: "at_key a = k"
    and free: "du_outbox d k = None \<or> (\<exists>r. du_outbox d k = Some r \<and> is_blocked (ox_status r))"
    and row: "du_outbox d' k = Some r'" "ox_status r' = ''sending''" and posts: "posts_of d' k = posts_of d k"
  shows "key_inv d' (run(n \<mapsto> goto a Claimed)) k"
proof -
  have none: "\<not> holder run k i" for i using key_invD(2) [OF inv, of i] free by auto
  then have idle: "run i = Some b \<Longrightarrow> at_key b = k \<Longrightarrow> \<not> holds_claim (at_phase b)" for i b
    by (auto simp: holder_def)
  have zero: "posts_of d k = 0"
    using key_invD(5,6) [OF inv] free by (cases "posts_of d k = 1") auto
  have only: "holder (run(n \<mapsto> goto a Claimed)) k i \<Longrightarrow> i = n" for i
    using idle by (auto simp: holder_def split: if_splits)
  show ?thesis
  proof (rule key_invI)
    fix i m assume "holder (run(n \<mapsto> goto a Claimed)) k i" "holder (run(n \<mapsto> goto a Claimed)) k m"
    then show "i = m" using only by blast
  next
    fix i b st mm
    assume "(run(n \<mapsto> goto a Claimed)) i = Some b" "at_key b = k" "at_phase b = Finishing st mm True"
    then show "st \<in> final_statuses" using key_invD(4) [OF inv] by (auto split: if_splits)
  qed (use row zero posts in auto)
qed

lemma key_inv_posted:
  assumes inv: "key_inv d run k" and run: "run n = Some a" and key: "at_key a = k"
    and ph: "at_phase a = Flagged"
  shows "key_inv (post d a) (run(n \<mapsto> goto a Waiting)) k"
proof -
  have me: "holder run k n" using run key ph by (auto simp: holder_def)
  obtain r where r: "du_outbox d k = Some r" "ox_status r = ''sending''"
    using key_invD(2) [OF inv me] by blast
  have zero: "posts_of d k = 0" using key_invD(3) [OF inv run key] ph by simp
  have one: "posts_of (post d a) k = 1" using zero key by (simp add: posts_of_def post_def)
  have idle: "run i = Some b \<Longrightarrow> at_key b = k \<Longrightarrow> i \<noteq> n \<Longrightarrow> \<not> holds_claim (at_phase b)" for i b
    using alone [OF inv run key] ph by simp
  show ?thesis
  proof (rule key_invI)
    fix i m assume "holder (run(n \<mapsto> goto a Waiting)) k i" "holder (run(n \<mapsto> goto a Waiting)) k m"
    then show "i = m" using idle by (auto simp: holder_def split: if_splits)
  next
    fix i b
    assume "(run(n \<mapsto> goto a Waiting)) i = Some b" "at_key b = k" "holds_claim (at_phase b)"
      "\<not> has_posted (at_phase b)"
    then show "posts_of (post d a) k = 0" using idle by (auto split: if_splits)
  next
    fix i b st mm
    assume "(run(n \<mapsto> goto a Waiting)) i = Some b" "at_key b = k" "at_phase b = Finishing st mm True"
    then show "st \<in> final_statuses" using key_invD(4) [OF inv] by (auto split: if_splits)
  qed (use r one in \<open>simp_all add: post_def\<close>)
qed

lemma record_outcome_frame:
  "du_posts (record_outcome d a st m) = du_posts d"
  "du_outbox (record_outcome d a st m) k = (if k = at_key a then
     (case du_outbox d k of None \<Rightarrow> None | Some r \<Rightarrow> Some (r\<lparr>ox_status := st, ox_message := m\<rparr>))
     else du_outbox d k)"
  by (auto simp: record_outcome_def Let_def split: option.splits)

lemma key_inv_finished:
  assumes inv: "key_inv d run k" and run: "run n = Some a" and key: "at_key a = k"
    and ph: "at_phase a = Finishing st m sent"
  shows "key_inv (record_outcome d a st m) (run(n \<mapsto> goto a (Returned st))) k"
proof -
  have me: "holder run k n" using run key ph by (auto simp: holder_def)
  obtain r where r: "du_outbox d k = Some r" using key_invD(2) [OF inv me] by blast
  have posts: "posts_of (record_outcome d a st m) k = posts_of d k"
    by (simp add: posts_of_def record_outcome_frame)
  have idle: "run i = Some b \<Longrightarrow> at_key b = k \<Longrightarrow> i \<noteq> n \<Longrightarrow> \<not> holds_claim (at_phase b)" for i b
    using alone [OF inv run key] ph by simp
  show ?thesis
  proof (rule key_invI)
    assume "posts_of (record_outcome d a st m) k = 1"
    then have "sent" using key_invD(3) [OF inv run key] ph posts by (cases sent) auto
    then have "\<not> is_blocked st" using key_invD(4) [OF inv run key] ph final_not_blocked by simp
    then show "\<exists>r. du_outbox (record_outcome d a st m) k = Some r \<and> \<not> is_blocked (ox_status r)"
      using r key by (simp add: record_outcome_frame)
  next
    show "posts_of (record_outcome d a st m) k \<le> 1" using key_invD(5) [OF inv] posts by simp
  next
    fix i b s mm
    assume "(run(n \<mapsto> goto a (Returned st))) i = Some b" "at_key b = k" "at_phase b = Finishing s mm True"
    then show "s \<in> final_statuses" using key_invD(4) [OF inv] by (auto split: if_splits)
  qed (use idle in \<open>auto simp: holder_def split: if_splits\<close>)
qed

lemma set_dispatched_frame [simp]:
  "du_outbox (set_dispatched v a d) = du_outbox d" "du_posts (set_dispatched v a d) = du_posts d"
  by (simp_all add: set_dispatched_def split: option.split)

lemma outbox_inv_attempt:
  "attempt_step x y \<Longrightarrow> run n = Some (snd x) \<Longrightarrow> outbox_inv (fst x, run) \<Longrightarrow> outbox_inv (fst y, run(n \<mapsto> snd y))"
proof (induction rule: attempt_step.induct)
  case (claim a safe d d' p)
  then have run: "run n = Some a" and invs: "\<And>k. key_inv d run k" by (simp_all add: outbox_inv_def)
  show ?case unfolding outbox_inv_def fst_conv snd_conv
  proof
    fix k
    note inv = invs [of k]
    consider (no) "d' = d" "p = Returned ''already-attempted''"
      | (yes) r' where "p = Claimed" "du_posts d' = du_posts d"
          "du_outbox d' = (du_outbox d)(at_key a \<mapsto> r')" "ox_status r' = ''sending''"
          "du_outbox d (at_key a) = None \<or> (\<exists>r. du_outbox d (at_key a) = Some r \<and> is_blocked (ox_status r))"
      using claim.hyps(2) by (auto simp: take_claim_def split: option.splits if_splits)
    then show "key_inv d' (run(n \<mapsto> goto a p)) k"
    proof cases
      case no
      with key_inv_move [OF inv run, of d p] show ?thesis by simp
    next
      case yes
      show ?thesis
      proof (cases "at_key a = k")
        case True
        with yes key_inv_claimed [OF inv run True, of d' r'] show ?thesis
          by (simp add: posts_of_def)
      next
        case False
        with yes key_inv_other [OF inv run False, of d' p] show ?thesis
          by (simp add: posts_of_def)
      qed
    qed
  qed
next
  case (posts a d)
  then have run: "run n = Some a" and inv: "\<And>k. key_inv d run k" by (simp_all add: outbox_inv_def)
  have "key_inv (post d a) (run(n \<mapsto> goto a Waiting)) k" for k
    using key_inv_posted [OF inv run _ posts.hyps] key_inv_other [OF inv run, of k "post d a" Waiting]
    by (cases "at_key a = k") (simp_all add: post_def posts_of_def)
  then show ?case unfolding outbox_inv_def fst_conv snd_conv by blast
next
  case (finish a st m sent d)
  then have run: "run n = Some a" and inv: "\<And>k. key_inv d run k" by (simp_all add: outbox_inv_def)
  have "key_inv (record_outcome d a st m) (run(n \<mapsto> goto a (Returned st))) k" for k
    using key_inv_finished [OF inv run _ finish.hyps] key_inv_other [OF inv run, of k "record_outcome d a st m"]
    by (cases "at_key a = k") (simp_all add: record_outcome_frame posts_of_def)
  then show ?case unfolding outbox_inv_def fst_conv snd_conv by blast
qed (auto simp: outbox_inv_def look_up_def arm_def raise_flag_def Let_def intro!: key_inv_move dest: answer_final)

lemma outbox_inv_step: "deliver_step s s' \<Longrightarrow> outbox_inv s \<Longrightarrow> outbox_inv s'"
proof (induction rule: deliver_step.induct)
  case (moves run n a d d' a')
  then show ?case using outbox_inv_attempt [OF moves.hyps(2), of run n] by simp
qed (auto simp: outbox_inv_def intro!: key_inv_spawn key_inv_crash)

lemma outbox_inv_fresh: "outbox_inv (fresh_durable, \<lambda>_. None)"
  by (simp add: outbox_inv_def key_inv_def one_holder_def holder_row_def silent_before_def
      honest_outcome_def posted_row_def holder_def fresh_durable_def posts_of_def)

lemma reachable_inv: "reachable s \<Longrightarrow> outbox_inv s"
  unfolding reachable_def
  by (induction rule: rtranclp_induct) (auto intro: outbox_inv_fresh outbox_inv_step)

subsection \<open>One call, run to its end\<close>

text \<open>
  \<^verbatim>\<open>was_initially_delivered\<close>: a setup is visible when its initial card was sent,
  Discord named the message, and the destination is the configured one.
\<close>

definition initial_key :: "string \<Rightarrow> string \<Rightarrow> string" where
  "initial_key channel i = channel @ '':'' @ i @ '':initial''"

definition was_initially_delivered :: "string option \<Rightarrow> durable \<Rightarrow> string \<Rightarrow> string \<Rightarrow> bool" where
  "was_initially_delivered current_webhook d i channel \<longleftrightarrow>
     (case du_outbox d (initial_key channel i) of
        None \<Rightarrow> False
      | Some r \<Rightarrow>
          ox_signal r = Some i \<and> ox_status r = ''sent''
          \<and> (case ox_message r of None \<Rightarrow> False | Some m \<Rightarrow> m \<noteq> [])
          \<and> (case (case du_delivery d (channel, i) of Some w \<Rightarrow> if w = [] then du_webhook d i else Some w
                      | None \<Rightarrow> du_webhook d i) of
               None \<Rightarrow> True
             | Some w \<Rightarrow> w = [] \<or> Some w = current_webhook))"

record delivery_env =
  de_official :: bool
  de_webhook :: "string option"
  de_early :: "string option"
  de_first :: "string option"
  de_last :: "string option"
  de_answer :: http_answer

definition send_claimed :: "delivery_env \<Rightarrow> attempt \<Rightarrow> durable \<Rightarrow> durable \<times> string" where
  "send_claimed env a d =
     (let d1 = arm d a in
      case (if real_initial a \<or> at_factory a then de_first env else None) of
        Some b \<Rightarrow> (record_outcome d1 a b None, b)
      | None \<Rightarrow>
          let d2 = raise_flag d1 a in
          (case (if at_factory a then de_last env else None) of
             Some b \<Rightarrow> (record_outcome (set_dispatched False a d2) a b None, b)
           | None \<Rightarrow>
               let (st, m) = answer_status (de_answer env)
               in (record_outcome (post d2 a) a st m, st)))"

definition deliver :: "delivery_env \<Rightarrow> attempt \<Rightarrow> durable \<Rightarrow> durable \<times> (py_error + string)" where
  "deliver env a d =
     (let channel = channel_of (at_key a) in
      if (case at_signal a of None \<Rightarrow> False
          | Some i \<Rightarrow> channel \<in> {''research'', ''validated''} \<and> \<not> suffix '':initial'' (at_key a)
              \<and> \<not> was_initially_delivered (de_webhook env) d i channel)
      then (d, Inr ''blocked:no-visible-initial'')
      else if \<not> de_official env then (d, Inl (ValueError ''Expected official Discord HTTPS webhook''))
      else
        case look_up d a of
          Checked safe \<Rightarrow>
            (case (if real_initial a then de_early env else None) of
               Some b \<Rightarrow> (d, Inr b)
             | None \<Rightarrow>
                 (let (d1, p) = take_claim d a safe in
                  if p = Claimed then (let (d2, st) = send_claimed env a d1 in (d2, Inr st))
                  else (d1, Inr ''already-attempted'')))
        | _ \<Rightarrow> (d, Inr ''already-attempted''))"

text \<open>A finished call is a run of its attempt: its phases one after the other.\<close>

lemma step_then: "attempt_step x y \<Longrightarrow> attempt_step\<^sup>*\<^sup>* y z \<Longrightarrow> attempt_step\<^sup>*\<^sup>* x z"
  by (rule converse_rtranclp_into_rtranclp)

lemma goto_frame [simp]:
  "arm d (goto a q) = arm d a" "raise_flag d (goto a q) = raise_flag d a"
  "set_dispatched v (goto a q) d = set_dispatched v a d" "post d (goto a q) = post d a"
  "record_outcome d (goto a q) st m = record_outcome d a st m" "real_initial (goto a q) = real_initial a"
  "look_up d (goto a q) = look_up d a" "take_claim d (goto a q) s = take_claim d a s"
  by (auto simp: arm_def raise_flag_def set_dispatched_def post_def record_outcome_def real_initial_def
      look_up_def take_claim_def dispatched_flag_def Let_def split: option.splits)

lemma finish_run: "attempt_step\<^sup>*\<^sup>* (d, goto a (Finishing st m b)) (record_outcome d a st m, goto a (Returned st))"
  using attempt_step.finish [of "goto a (Finishing st m b)" st m b d] by (intro r_into_rtranclp) simp

lemma send_claimed_runs:
  "attempt_step\<^sup>*\<^sup>* (d, goto a Claimed) (fst (send_claimed env a d), goto a (Returned (snd (send_claimed env a d))))"
proof -
  have arms: "attempt_step (d, goto a Claimed) (arm d a, goto a Armed)"
    using attempt_step.arms [of "goto a Claimed" d] by simp
  show ?thesis
  proof (cases "if real_initial a \<or> at_factory a then de_first env else None")
    case (Some b)
    then have "real_initial a \<or> at_factory a" by (auto split: if_splits)
    then have g: "attempt_step (arm d a, goto a Armed) (arm d a, goto a (Finishing b None False))"
      using attempt_step.gate_block [of "goto a Armed" "arm d a" b] by simp
    have "send_claimed env a d = (record_outcome (arm d a) a b None, b)"
      using Some by (simp add: send_claimed_def Let_def)
    then show ?thesis using step_then [OF arms step_then [OF g finish_run]] by simp
  next
    case None
    let ?d2 = "raise_flag (arm d a) a"
    have pass: "attempt_step (arm d a, goto a Armed) (arm d a, goto a Passed)"
      using attempt_step.gate_pass [of "goto a Armed" "arm d a"] by simp
    have flag: "attempt_step (arm d a, goto a Passed) (?d2, goto a Flagged)"
      using attempt_step.flags [of "goto a Passed" "arm d a"] by simp
    show ?thesis
    proof (cases "if at_factory a then de_last env else None")
      case (Some b)
      then have "at_factory a" by (auto split: if_splits)
      then have g: "attempt_step (?d2, goto a Flagged) (set_dispatched False a ?d2, goto a (Finishing b None False))"
        using attempt_step.last_block [of "goto a Flagged" "?d2" b] by simp
      have "send_claimed env a d = (record_outcome (set_dispatched False a ?d2) a b None, b)"
        using None Some by (simp only: send_claimed_def Let_def option.case)
      then show ?thesis
        using step_then [OF arms step_then [OF pass step_then [OF flag step_then [OF g finish_run]]]] by simp
    next
      case none: None
      obtain st m where ans: "answer_status (de_answer env) = (st, m)" by fastforce
      have p: "attempt_step (?d2, goto a Flagged) (post ?d2 a, goto a Waiting)"
        using attempt_step.posts [of "goto a Flagged" "?d2"] by simp
      have w: "attempt_step (post ?d2 a, goto a Waiting) (post ?d2 a, goto a (Finishing st m True))"
        using attempt_step.answers [of "goto a Waiting" "de_answer env" st m] ans by simp
      have "send_claimed env a d = (record_outcome (post ?d2 a) a st m, st)"
        using None none ans by (simp only: send_claimed_def Let_def option.case prod.case)
      then show ?thesis
        using step_then [OF arms step_then [OF pass step_then [OF flag step_then [OF p step_then [OF w finish_run]]]]]
        by simp
    qed
  qed
qed

text \<open>
  Every answer of \<^verbatim>\<open>deliver\<close> is the end of a run of its attempt; when it raises,
  nothing has changed.
\<close>

lemma deliver_attempt:
  assumes "at_phase a = Started" and "snd (deliver env a d) = Inr st"
  shows "attempt_step\<^sup>*\<^sup>* (d, a) (fst (deliver env a d), goto a (Returned st))"
proof -
  have refused: ?thesis if "fst (deliver env a d) = d"
    using attempt_step.refuse [OF assms(1), of d st] that by auto
  have check: "attempt_step (d, a) (d, goto a (look_up d a))" using attempt_step.check [OF assms(1)] by blast
  show ?thesis
  proof (cases "fst (deliver env a d) = d")
    case False
    then obtain safe d1 where c: "look_up d a = Checked safe" "take_claim d a safe = (d1, Claimed)"
      "deliver env a d = (fst (send_claimed env a d1), Inr (snd (send_claimed env a d1)))"
      by (auto simp: deliver_def take_claim_def Let_def split: if_splits phase.splits option.splits prod.splits)
    have claim: "attempt_step (d, goto a (Checked safe)) (d1, goto a Claimed)"
      using attempt_step.claim [of "goto a (Checked safe)" safe d d1 Claimed] c(2) by simp
    show ?thesis
      using step_then [OF check [unfolded c(1)] step_then [OF claim send_claimed_runs [of d1 a env]]] c(3) assms(2)
      by simp
  qed (rule refused)
qed

lemma deliver_raised: "snd (deliver env a d) = Inl e \<Longrightarrow> fst (deliver env a d) = d"
  by (auto simp: deliver_def Let_def split: if_splits phase.splits option.splits prod.splits)

lemma attempt_in_system:
  "attempt_step\<^sup>*\<^sup>* x y \<Longrightarrow> deliver_step\<^sup>*\<^sup>* (fst x, run(n \<mapsto> snd x)) (fst y, run(n \<mapsto> snd y))"
proof (induction rule: rtranclp_induct)
  case (step y z)
  have "deliver_step (fst y, run(n \<mapsto> snd y)) (fst z, run(n \<mapsto> snd z))"
    using deliver_step.moves [of "run(n \<mapsto> snd y)" n "snd y" "fst y" "fst z" "snd z"] step.hyps(2) by simp
  with step.IH show ?case by (rule rtranclp.rtrancl_into_rtrancl)
qed simp

text \<open>Every call of \<^verbatim>\<open>deliver\<close> is a run of the machine from its own start.\<close>

lemma deliver_runs:
  assumes start: "at_phase a = Started" and idle: "run n = None"
  shows "\<exists>run'. deliver_step\<^sup>*\<^sup>* (d, run) (fst (deliver env a d), run')"
proof (cases "snd (deliver env a d)")
  case (Inl e)
  then show ?thesis using deliver_raised by auto
next
  case (Inr st)
  have "deliver_step (d, run) (d, run(n \<mapsto> a))" by (rule deliver_step.spawn [of run n a d, OF idle start])
  with attempt_in_system [OF deliver_attempt [OF start Inr], of run n] show ?thesis
    by (metis converse_rtranclp_into_rtranclp fst_conv snd_conv)
qed

subsection \<open>A settled key\<close>

definition settled :: "string \<Rightarrow> outbox_row \<Rightarrow> nat \<Rightarrow> system \<Rightarrow> bool" where
  "settled k r c s \<longleftrightarrow>
     du_outbox (fst s) k = Some r \<and> \<not> is_blocked (ox_status r) \<and> posts_of (fst s) k = c
     \<and> (\<forall>n. \<not> holder (snd s) k n)"

lemma not_holder_move:
  "\<forall>i. \<not> holder run k i \<Longrightarrow> run n = Some a \<Longrightarrow> (at_key a = k \<Longrightarrow> \<not> holds_claim p)
   \<Longrightarrow> \<not> holder (run(n \<mapsto> goto a p)) k i"
  by (auto simp: holder_def split: if_splits)

lemma not_holder_phase:
  "\<forall>i. \<not> holder run k i \<Longrightarrow> run n = Some a \<Longrightarrow> holds_claim (at_phase a) \<Longrightarrow> at_key a \<noteq> k"
  by (auto simp: holder_def)

lemma settled_attempt:
  "attempt_step x y \<Longrightarrow> run n = Some (snd x) \<Longrightarrow> settled k r c (fst x, run) \<Longrightarrow> settled k r c (fst y, run(n \<mapsto> snd y))"
proof (induction rule: attempt_step.induct)
  case (claim a safe d d' p)
  have old: "du_outbox d k = Some r" "\<not> is_blocked (ox_status r)" using claim.prems by (auto simp: settled_def)
  have new: "du_outbox d' k = du_outbox d k" "du_posts d' = du_posts d" "at_key a = k \<Longrightarrow> \<not> holds_claim p"
    using claim.hyps(2) old by (auto simp: take_claim_def split: option.splits if_splits)
  show ?case
    using claim.prems not_holder_move [of run k n a p] new
    by (simp add: settled_def posts_of_def del: fun_upd_apply)
qed (use not_holder_move [of run k n] not_holder_phase [of run k n] in
     \<open>simp_all add: settled_def look_up_def arm_def raise_flag_def post_def record_outcome_frame posts_of_def Let_def\<close>)

lemma settled_step: "deliver_step s s' \<Longrightarrow> settled k r c s \<Longrightarrow> settled k r c s'"
proof (induction rule: deliver_step.induct)
  case (moves run n a d d' a')
  then show ?case using settled_attempt [OF moves.hyps(2), of run n] by simp
qed (auto simp: settled_def holder_def split: if_splits)

lemma settled_run: "deliver_step\<^sup>*\<^sup>* s s' \<Longrightarrow> settled k r c s \<Longrightarrow> settled k r c s'"
  by (induction rule: rtranclp_induct) (auto intro: settled_step)

subsection \<open>Properties\<close>

definition sample_attempt :: attempt where
  "sample_attempt = \<lparr>at_key = ''research:s1:initial'', at_signal = Some ''s1'', at_factory = True,
     at_webhook = ''w'', at_phase = Started\<rparr>"

definition sample_env :: delivery_env where
  "sample_env = \<lparr>de_official = True, de_webhook = Some ''w'', de_early = None, de_first = None,
     de_last = None, de_answer = NoAnswer\<rparr>"

text \<open>
  C2: in every state the interleaved and crashing delivery attempts can reach,
  at most one request has left for a delivery key.
\<close>

theorem post_at_most_once:
  assumes "reachable (d, run)"
  shows "posts_of d k \<le> 1"
  using reachable_inv [OF assms] key_invD(5) [of d run k] by (simp add: outbox_inv_def)

lemma post_at_most_once_witness:
  "let d = fst (deliver sample_env sample_attempt fresh_durable) in
   posts_of d ''research:s1:initial'' = 1 \<and> posts_of d ''research:s1:initial'' \<le> 1"
proof -
  let ?d = "fst (deliver sample_env sample_attempt fresh_durable)"
  obtain run' where run': "deliver_step\<^sup>*\<^sup>* (fresh_durable, \<lambda>_. None) (?d, run')"
    using deliver_runs [of sample_attempt "\<lambda>_. None" 0 fresh_durable sample_env]
    by (auto simp: sample_attempt_def)
  then have "reachable (?d, run')" by (simp add: reachable_def)
  moreover have "posts_of ?d ''research:s1:initial'' = 1" by code_simp
  ultimately show ?thesis using post_at_most_once [of ?d run' "''research:s1:initial''"] by (simp only: Let_def)
qed

text \<open>
  C38: once no attempt is working on a key and its row is not blocked,
  in particular when the outcome was uncertain or a crash left it sending, no later attempt
  changes the row or sends again.
\<close>

theorem settled_delivery_is_final:
  assumes "du_outbox d k = Some r" and "\<not> is_blocked (ox_status r)" and "\<forall>n. \<not> holder run k n"
    and "deliver_step\<^sup>*\<^sup>* (d, run) (d', run')"
  shows "du_outbox d' k = Some r \<and> posts_of d' k = posts_of d k"
  using settled_run [OF assms(4), of k r "posts_of d k"] assms(1,2,3) by (simp add: settled_def)

lemma settled_delivery_is_final_witness:
  "let d = fst (deliver sample_env sample_attempt fresh_durable);
       d' = fst (deliver sample_env sample_attempt d); k = ''research:s1:initial'' in
   du_outbox d' k = Some \<lparr>ox_signal = Some ''s1'', ox_status = ''uncertain'', ox_message = None\<rparr>
   \<and> posts_of d' k = posts_of d k"
proof -
  let ?d = "fst (deliver sample_env sample_attempt fresh_durable)"
  let ?d' = "fst (deliver sample_env sample_attempt ?d)"
  let ?k = "''research:s1:initial''"
  have row: "du_outbox ?d ?k = Some \<lparr>ox_signal = Some ''s1'', ox_status = ''uncertain'', ox_message = None\<rparr>"
    by code_simp
  obtain run' where run': "deliver_step\<^sup>*\<^sup>* (?d, \<lambda>_. None) (?d', run')"
    using deliver_runs [of sample_attempt "\<lambda>_. None" 0 ?d sample_env] by (auto simp: sample_attempt_def)
  have "\<forall>n. \<not> holder (\<lambda>_. None) ?k n" by (simp add: holder_def)
  from settled_delivery_is_final [OF row _ this run'] show ?thesis by (simp only: Let_def) simp
qed

text \<open>
  A call of \<^verbatim>\<open>deliver\<close>, whatever its guards and Discord answer, is
  a run of the step machine started by a fresh attempt, so what holds of every run holds of it.
\<close>

theorem deliver_is_a_run:
  assumes "at_phase a = Started" and "run n = None"
  shows "\<exists>run'. deliver_step\<^sup>*\<^sup>* (d, run) (fst (deliver env a d), run')"
  by (rule deliver_runs [where run = run and n = n, OF assms])

lemma deliver_is_a_run_witness:
  "\<exists>run'. deliver_step\<^sup>*\<^sup>* (fresh_durable, \<lambda>_. None)
     (fst (deliver sample_env sample_attempt fresh_durable), run')"
  by (rule deliver_is_a_run [where run = "\<lambda>_. None" and n = 0]) (simp_all add: sample_attempt_def)

end
