(* ===== verification/Notifier.thy ===== *)
theory Notifier imports Outbox Conflicts begin

text \<open>
  The decisions of class \<^verbatim>\<open>Notifier\<close> in
  \<^verbatim>\<open>src/bybit_flow/notifications.py\<close>: which card is sent to which key, what
  blocks an initial card, and how a terminal result is edited into the original card. The text of
  the cards is not modelled. A webhook is the part of its URL the code inspects.
\<close>

record webhook =
  wh_official :: bool
  wh_id :: "string option"

record notify_settings =
  ns_research_alerts :: bool
  ns_sss_research :: bool
  ns_research :: "webhook option"
  ns_monitoring :: "webhook option"
  ns_conflicts :: conflict_settings

subsection \<open>Names\<close>

fun state_name :: "sig_state \<Rightarrow> string" where
  "state_name WATCHLIST = ''WATCHLIST''"
| "state_name PENDING_CONFIRMATION = ''PENDING CONFIRMATION''"
| "state_name CONFIRMED = ''CONFIRMED''"
| "state_name ALERTED = ''ALERTED''"
| "state_name INVALIDATED = ''INVALIDATED''"
| "state_name EXPIRED = ''EXPIRED''"
| "state_name RESOLVED = ''RESOLVED''"

fun show_nat :: "nat \<Rightarrow> string" where
  "show_nat n = (if n < 10 then [char_of (48 + n)] else show_nat (n div 10) @ [char_of (48 + n mod 10)])"

declare show_nat.simps [simp del]

definition show_int :: "int \<Rightarrow> string" where
  "show_int i = (if i < 0 then ''-'' @ show_nat (nat (- i)) else show_nat (nat i))"

subsection \<open>Evidenced price results\<close>

definition price_result :: "signal \<Rightarrow> string option" where
  "price_result s =
     (let event = ev_terminal_event (sg_evidence s); result = ev_primary_outcome (sg_evidence s) in
      case event of
        None \<Rightarrow> None
      | Some e \<Rightarrow>
          if te_ambiguous e = Some True \<or> te_method e \<notin> {''LIVE_EXECUTED_TRADE'', ''CLOSED_1M_OHLC''}
          then None
          else if result = Some ''TARGET'' \<and> sg_state s = RESOLVED then Some ''TARGET''
          else if result = Some ''STOP'' \<and> sg_state s = INVALIDATED then Some ''STOP''
          else None)"

subsection \<open>What blocks an initial card\<close>

definition INITIAL_REQUEST_TIMEOUT :: int where "INITIAL_REQUEST_TIMEOUT = 15"

definition current_webhook :: "notify_settings \<Rightarrow> string option" where
  "current_webhook ns = (case ns_research ns of None \<Rightarrow> None | Some w \<Rightarrow> wh_id w)"

definition visible_anywhere :: "notify_settings \<Rightarrow> durable \<Rightarrow> string \<Rightarrow> bool" where
  "visible_anywhere ns d i \<longleftrightarrow>
     was_initially_delivered (current_webhook ns) d i ''research''
     \<or> was_initially_delivered (current_webhook ns) d i ''validated''"

fun opposing_loop :: "notify_settings \<Rightarrow> durable \<Rightarrow> ms \<Rightarrow> signal \<Rightarrow> signal list \<Rightarrow> string option" where
  "opposing_loop ns d now plan [] = None"
| "opposing_loop ns d now plan (other # rest) =
     (if sg_direction other = sg_direction plan \<or> holding_deadline other \<le> now
      then opposing_loop ns d now plan rest
      else if visible_anywhere ns d (sg_id other)
              \<and> \<not> fst (assess (ns_conflicts ns) now plan other)
      then Some (sg_id other)
      else opposing_loop ns d now plan rest)"

text \<open>The stored live plans of the same symbol, as the query selects them.\<close>

definition opposing_visible_setup ::
    "notify_settings \<Rightarrow> durable \<Rightarrow> ms \<Rightarrow> signal list \<Rightarrow> signal \<Rightarrow> string option" where
  "opposing_visible_setup ns d now stored plan =
     opposing_loop ns d now plan
       (filter (\<lambda>s. sg_symbol s = sg_symbol plan \<and> sg_state s \<notin> TERMINAL \<and> sg_id s \<noteq> sg_id plan) stored)"

definition entry_deadline :: "signal \<Rightarrow> ms" where
  "entry_deadline s = min (sg_expires_ms s) (trigger_deadline s)"

text \<open>
  The durable plan decides about state, prices and deadlines; the caller's signal contributes the
  refreshed evidence.
\<close>

definition initial_delivery_block ::
    "notify_settings \<Rightarrow> durable \<Rightarrow> ms \<Rightarrow> signal list \<Rightarrow> string \<Rightarrow> signal option \<Rightarrow> string option" where
  "initial_delivery_block ns d now stored i live =
     (let current = find (\<lambda>s. sg_id s = i) stored in
      if (case current of None \<Rightarrow> False | Some c \<Rightarrow> sg_state c \<in> TERMINAL) then Some ''terminal-setup''
      else
        case (case current of Some c \<Rightarrow> Some c | None \<Rightarrow> live) of
          None \<Rightarrow> Some ''blocked:no-active-setup''
        | Some plan \<Rightarrow>
            let remaining = entry_deadline plan - now in
            if remaining \<le> 0 then Some ''blocked:entry-window-expired''
            else if remaining < INITIAL_REQUEST_TIMEOUT * 1000 then Some ''blocked:entry-window-too-short''
            else
              let plan1 = (case live of None \<Rightarrow> plan | Some l \<Rightarrow> plan\<lparr>sg_evidence := sg_evidence l\<rparr>) in
              if opposing_visible_setup ns d now stored plan1 \<noteq> None
              then Some ''blocked:opposing-visible-active-setup'' else None)"

subsection \<open>Choosing the delivery\<close>

datatype decision =
    Answer string
  | RejectWebhook
  | SendInitial string webhook
  | SendUpdate string webhook
  | PublicPath

definition monitoring_event :: "bool \<Rightarrow> signal \<Rightarrow> string option" where
  "monitoring_event update s =
     (if update \<and> sg_state s \<notin> TERMINAL then cv_monitoring_event (sg_coverage s) else None)"

definition chosen_webhook :: "notify_settings \<Rightarrow> string option \<Rightarrow> webhook option" where
  "chosen_webhook ns event =
     (if event = Some ''paused'' \<or> event = Some ''resumed'' then ns_monitoring ns else ns_research ns)"

definition monitoring_key :: "string \<Rightarrow> signal \<Rightarrow> string \<Rightarrow> string" where
  "monitoring_key channel s event =
     channel @ '':'' @ sg_id s @ '':monitoring:'' @ event @ '':''
       @ show_int (case cv_pause_since_ms (sg_coverage s) of None \<Rightarrow> 0 | Some p \<Rightarrow> p)"

definition truthy_text :: "string option \<Rightarrow> string option" where
  "truthy_text v = (case v of None \<Rightarrow> None | Some t \<Rightarrow> if t = [] then None else Some t)"

definition send_research :: "notify_settings \<Rightarrow> durable \<Rightarrow> signal \<Rightarrow> bool \<Rightarrow> decision" where
  "send_research ns d s update =
     (let validated = (sg_validation_status s = ''validated'' \<and> \<not> ns_research_alerts ns);
          channel = (if validated then ''validated'' else ''research'') in
      if \<not> update \<and> ev_delivery_policy (sg_evidence s) = Some ''REDUNDANT_OPPORTUNITY''
      then Answer ''blocked:REDUNDANT_OPPORTUNITY''
      else if update \<and> \<not> was_initially_delivered (current_webhook ns) d (sg_id s) channel
      then Answer ''blocked:no-visible-initial''
      else if update \<and> sg_state s \<in> TERMINAL then Answer ''terminal-persisted''
      else if sg_synthetic s then Answer ''blocked: use explicitly labeled test-signal delivery''
      else if \<not> update \<and> sg_horizon_profile s = EXTENDED_SWING then Answer ''shadow-only horizon''
      else if validated then PublicPath
      else if \<not> (ns_research_alerts ns \<or> (ns_sss_research ns \<and> prefix ''SSS RESEARCH'' (sg_final_tier s)))
      then Answer ''disabled''
      else
        case chosen_webhook ns (monitoring_event update s) of
          None \<Rightarrow> Answer ''dry-run''
        | Some w \<Rightarrow>
            if \<not> wh_official w then RejectWebhook
            else
              let key = (case (if update then truthy_text (cv_monitoring_event (sg_coverage s)) else None) of
                           Some ev \<Rightarrow> monitoring_key ''research'' s ev
                         | None \<Rightarrow> ''research:'' @ sg_id s @ '':''
                             @ (if update then state_name (sg_state s) else ''initial''))
              in if update \<and> du_outbox d key \<noteq> None then Answer ''already-attempted''
                 else if update then SendUpdate key w else SendInitial key w)"

text \<open>
  \<^verbatim>\<open>send_public\<close>. Whether a model is deployed for the signal, whether it is a v22 plan
  and whether the symbol is cooling down are arguments.
\<close>

definition send_public ::
    "notify_settings \<Rightarrow> durable \<Rightarrow> bool \<Rightarrow> bool \<Rightarrow> bool \<Rightarrow> signal \<Rightarrow> bool \<Rightarrow> decision" where
  "send_public ns d eligible is_v22 recent s update =
     (let event = monitoring_event update s;
          sent = (case du_outbox d (initial_key ''validated'' (sg_id s)) of None \<Rightarrow> False
                  | Some r \<Rightarrow> ox_status r = ''sent'') in
      if \<not> update \<and> ev_delivery_policy (sg_evidence s) = Some ''REDUNDANT_OPPORTUNITY''
      then Answer ''blocked:REDUNDANT_OPPORTUNITY''
      else if update \<and> \<not> was_initially_delivered (current_webhook ns) d (sg_id s) ''validated''
      then Answer ''blocked:no-visible-initial''
      else if update \<and> (\<not> sent \<or> (sg_state s \<notin> TERMINAL
              \<and> event \<notin> {Some ''paused'', Some ''resumed'', Some ''ended''}))
      then Answer ''blocked: no prior validated delivery or terminal update''
      else if \<not> update \<and> \<not> eligible then Answer ''blocked: no validated deployment model''
      else if \<not> update \<and> \<not> is_v22 \<and> recent then Answer ''cooldown''
      else
        case chosen_webhook ns event of
          None \<Rightarrow> Answer ''dry-run''
        | Some w \<Rightarrow>
            let key = (case truthy_text event of
                         Some ev \<Rightarrow> monitoring_key ''validated'' s ev
                       | None \<Rightarrow> ''validated:'' @ sg_id s @ '':''
                           @ (if update then state_name (sg_state s) else ''initial''))
            in if update then SendUpdate key w else SendInitial key w)"

definition visible_channel :: "notify_settings \<Rightarrow> durable \<Rightarrow> string \<Rightarrow> string option" where
  "visible_channel ns d i =
     find (was_initially_delivered (current_webhook ns) d i) [''research'', ''validated'']"

definition original_webhook :: "durable \<Rightarrow> string \<Rightarrow> string \<Rightarrow> string option" where
  "original_webhook d channel i =
     (case du_delivery d (channel, i) of
        Some w \<Rightarrow> if w = [] then du_webhook d i else Some w
      | None \<Rightarrow> du_webhook d i)"

definition send_price_result :: "notify_settings \<Rightarrow> durable \<Rightarrow> signal option \<Rightarrow> decision" where
  "send_price_result ns d saved =
     (case saved of
        None \<Rightarrow> Answer ''blocked:no-price-result''
      | Some s \<Rightarrow>
          if price_result s = None then Answer ''blocked:no-price-result''
          else
            case visible_channel ns d (sg_id s) of
              None \<Rightarrow> Answer ''blocked:no-visible-initial''
            | Some channel \<Rightarrow>
                (case ns_research ns of
                   None \<Rightarrow> Answer ''dry-run''
                 | Some w \<Rightarrow>
                     if truthy_text (original_webhook d channel (sg_id s)) = None \<or> wh_id w = None
                        \<or> original_webhook d channel (sg_id s) \<noteq> wh_id w
                     then Answer ''blocked:no-visible-initial''
                     else SendUpdate (channel @ '':'' @ sg_id s @ '':price-result'') w))"

definition send_deterioration ::
    "notify_settings \<Rightarrow> durable \<Rightarrow> sig_state option \<Rightarrow> signal \<Rightarrow> ms \<Rightarrow> decision" where
  "send_deterioration ns d stored_state s episode_ms =
     (if sg_state s \<noteq> ALERTED \<or> stored_state \<noteq> Some ALERTED
      then Answer ''blocked:terminal-or-unpublished''
      else
        case visible_channel ns d (sg_id s) of
          None \<Rightarrow> Answer ''blocked:no-visible-initial''
        | Some channel \<Rightarrow>
            (case ns_research ns of
               None \<Rightarrow> Answer ''dry-run''
             | Some w \<Rightarrow> SendUpdate (channel @ '':'' @ sg_id s @ '':deteriorating:'' @ show_int episode_ms) w))"

subsection \<open>Editing the terminal result into the original card\<close>

record terminal_row =
  tm_signal_id :: string
  tm_status :: string
  tm_attempts :: nat
  tm_next_ms :: ms

datatype patch_answer = PatchResponse int "dec option" | PatchNoAnswer

definition base_delay :: "nat \<Rightarrow> dec" where
  "base_delay attempts = of_nat (min 300 (2 ^ min (attempts + 1) 8))"

definition patch_result :: "nat \<Rightarrow> patch_answer \<Rightarrow> string \<times> dec" where
  "patch_result attempts a =
     (let delay = base_delay attempts in
      case a of
        PatchNoAnswer \<Rightarrow> (''pending'', delay)
      | PatchResponse code retry_after \<Rightarrow>
          if 200 \<le> code \<and> code < 300 then (''sent'', delay)
          else if code = 429 then
            (''pending'', max delay (min 3600 (case retry_after of None \<Rightarrow> delay | Some r \<Rightarrow> r)))
          else if code < 500 then (''failed'', delay)
          else (''pending'', delay))"

text \<open>The oldest sent initial of the signal: its key and the message Discord named.\<close>

definition retry_terminal ::
    "notify_settings \<Rightarrow> durable \<Rightarrow> (string \<times> string option) option \<Rightarrow> patch_answer \<Rightarrow> ms \<Rightarrow>
     terminal_row \<Rightarrow> terminal_row \<times> bool" where
  "retry_terminal ns d initial ans now row =
     (if tm_status row \<noteq> ''pending'' \<or> tm_next_ms row > now then (row, False)
      else
        case initial of
          None \<Rightarrow> (row\<lparr>tm_status := ''failed''\<rparr>, False)
        | Some (key, message) \<Rightarrow>
            if truthy_text message = None then (row\<lparr>tm_status := ''failed''\<rparr>, False)
            else if \<not> was_initially_delivered (current_webhook ns) d (tm_signal_id row) (channel_of key)
            then (row\<lparr>tm_status := ''blocked:no-visible-initial''\<rparr>, False)
            else
              case ns_research ns of
                None \<Rightarrow> (row, False)
              | Some w \<Rightarrow>
                  if \<not> wh_official w then (row, False)
                  else
                    let (status, delay) =
                      (if original_webhook d (channel_of key) (tm_signal_id row) = wh_id w
                       then patch_result (tm_attempts row) ans
                       else (''blocked:no-visible-initial'', base_delay (tm_attempts row)))
                    in (row\<lparr>tm_status := status, tm_attempts := tm_attempts row + 1,
                            tm_next_ms := now + py_trunc (delay * 1000)\<rparr>, status = ''sent''))"

subsection \<open>Facts about the guards\<close>

lemma opposing_loop_none:
  "opposing_loop ns d now plan others = None \<Longrightarrow> o' \<in> set others \<Longrightarrow>
   sg_direction o' \<noteq> sg_direction plan \<Longrightarrow> now < holding_deadline o' \<Longrightarrow>
   visible_anywhere ns d (sg_id o') \<Longrightarrow> fst (assess (ns_conflicts ns) now plan o')"
  by (induction others) (auto split: if_splits)

lemma assess_evidence_only:
  "sg_symbol (plan\<lparr>sg_evidence := e\<rparr>) = sg_symbol plan" "sg_id (plan\<lparr>sg_evidence := e\<rparr>) = sg_id plan"
  "sg_direction (plan\<lparr>sg_evidence := e\<rparr>) = sg_direction plan"
  by simp_all

lemma base_delay_bounds: "2 \<le> base_delay n \<and> base_delay n \<le> 300"
proof -
  have "(2::nat) ^ 1 \<le> 2 ^ min (n + 1) 8" by (rule power_increasing) auto
  then have "2 \<le> min 300 ((2::nat) ^ min (n + 1) 8)" by simp
  then show ?thesis unfolding base_delay_def by (metis min.cobounded1 of_nat_le_iff of_nat_numeral)
qed

text \<open>
  When nothing blocks an initial card, the durable plan is not terminal, its
  entry window stays open at least the length of the request timeout, and every live opposing plan
  of the symbol that users can see either has ended or justifies the counter-plan.
\<close>

theorem initial_card_guard:
  assumes "initial_delivery_block ns d now stored i live = None" and "find (\<lambda>s. sg_id s = i) stored = Some c"
    and "e = (case live of None \<Rightarrow> sg_evidence c | Some l \<Rightarrow> sg_evidence l)"
  shows "sg_state c \<notin> TERMINAL \<and> now + 15000 \<le> entry_deadline c
    \<and> (\<forall>other \<in> set stored. sg_symbol other = sg_symbol c \<and> sg_state other \<notin> TERMINAL
         \<and> sg_id other \<noteq> sg_id c \<and> sg_direction other \<noteq> sg_direction c \<and> now < holding_deadline other
         \<and> visible_anywhere ns d (sg_id other)
         \<longrightarrow> fst (assess (ns_conflicts ns) now (c\<lparr>sg_evidence := e\<rparr>) other))"
proof -
  have plan: "(case live of None \<Rightarrow> c | Some l \<Rightarrow> c\<lparr>sg_evidence := sg_evidence l\<rparr>) = c\<lparr>sg_evidence := e\<rparr>"
    using assms(3) by (cases live) simp_all
  have "sg_state c \<notin> TERMINAL" "now + 15000 \<le> entry_deadline c"
    and "opposing_visible_setup ns d now stored (c\<lparr>sg_evidence := e\<rparr>) = None"
    using assms(1,2) plan by (auto simp: initial_delivery_block_def INITIAL_REQUEST_TIMEOUT_def Let_def split: if_splits)
  then show ?thesis
    by (auto simp: opposing_visible_setup_def intro!: opposing_loop_none)
qed

definition sample_settings :: notify_settings where
  "sample_settings = \<lparr>ns_research_alerts = True, ns_sss_research = False,
     ns_research = Some \<lparr>wh_official = True, wh_id = Some ''w''\<rparr>, ns_monitoring = None,
     ns_conflicts = \<lparr>cs_trade_stale = 15000, cs_book_stale = 5000\<rparr>\<rparr>"

text \<open>
  A price-result card is sent only for a stored plan whose terminal
  event came from an executed trade or a closed candle without ambiguity and whose state says the
  same, when its initial card is visible, and into the destination of that initial card.
\<close>

theorem result_card_is_evidenced:
  assumes "send_price_result ns d saved = SendUpdate key w"
  shows "\<exists>s e channel. saved = Some s \<and> ev_terminal_event (sg_evidence s) = Some e
    \<and> te_ambiguous e \<noteq> Some True \<and> te_method e \<in> {''LIVE_EXECUTED_TRADE'', ''CLOSED_1M_OHLC''}
    \<and> (ev_primary_outcome (sg_evidence s), sg_state s) \<in> {(Some ''TARGET'', RESOLVED), (Some ''STOP'', INVALIDATED)}
    \<and> was_initially_delivered (current_webhook ns) d (sg_id s) channel
    \<and> key = channel @ '':'' @ sg_id s @ '':price-result''
    \<and> wh_id w = original_webhook d channel (sg_id s)"
proof -
  obtain s channel where s: "saved = Some s" "price_result s \<noteq> None"
    "visible_channel ns d (sg_id s) = Some channel" "key = channel @ '':'' @ sg_id s @ '':price-result''"
    "wh_id w = original_webhook d channel (sg_id s)"
    using assms by (auto simp: send_price_result_def split: option.splits if_splits)
  have "was_initially_delivered (current_webhook ns) d (sg_id s) channel"
    using s(3) by (auto simp: visible_channel_def split: if_splits)
  moreover obtain e where "ev_terminal_event (sg_evidence s) = Some e" "te_ambiguous e \<noteq> Some True"
    "te_method e \<in> {''LIVE_EXECUTED_TRADE'', ''CLOSED_1M_OHLC''}"
    "(ev_primary_outcome (sg_evidence s), sg_state s) \<in> {(Some ''TARGET'', RESOLVED), (Some ''STOP'', INVALIDATED)}"
    using s(2) by (auto simp: price_result_def Let_def split: option.splits if_splits)
  ultimately show ?thesis using s by blast
qed

definition sample_resolved :: signal where
  "sample_resolved = sample_signal\<lparr>sg_state := RESOLVED, sg_evidence := empty_evidence\<lparr>
     ev_primary_outcome := Some ''TARGET'',
     ev_terminal_event := Some \<lparr>te_effective_ms = Some 200000, te_detected_ms = 200500,
       te_event_price = Some 110, te_reference_price = Some 110, te_stop_price = Some 95,
       te_source = Bybit, te_method = ''LIVE_EXECUTED_TRADE'', te_trigger_basis = None,
       te_ambiguous = None\<rparr>\<rparr>\<rparr>"

definition sample_delivered :: durable where
  "sample_delivered = fst (deliver
     (sample_env\<lparr>de_answer := Response 200 (Some ''m1'')\<rparr>) sample_attempt fresh_durable)"

lemma sample_result_sent:
  "send_price_result sample_settings sample_delivered (Some sample_resolved)
     = SendUpdate ''research:s1:price-result'' \<lparr>wh_official = True, wh_id = Some ''w''\<rparr>"
  by code_simp

lemma result_card_is_evidenced_witness:
  "\<exists>s e channel. Some sample_resolved = Some s \<and> ev_terminal_event (sg_evidence s) = Some e
    \<and> te_ambiguous e \<noteq> Some True \<and> te_method e \<in> {''LIVE_EXECUTED_TRADE'', ''CLOSED_1M_OHLC''}
    \<and> (ev_primary_outcome (sg_evidence s), sg_state s) \<in> {(Some ''TARGET'', RESOLVED), (Some ''STOP'', INVALIDATED)}
    \<and> was_initially_delivered (current_webhook sample_settings) sample_delivered (sg_id s) channel
    \<and> ''research:s1:price-result'' = channel @ '':'' @ sg_id s @ '':price-result''
    \<and> wh_id \<lparr>wh_official = True, wh_id = Some ''w''\<rparr> = original_webhook sample_delivered channel (sg_id s)"
  by (rule result_card_is_evidenced [OF sample_result_sent])

text \<open>The opposing plan of the sample has been delivered, and the guard lets the reviewed counter-plan through.\<close>

lemma initial_card_guard_witness:
  "visible_anywhere sample_settings sample_delivered (sg_id sample_visible)
    \<and> sg_direction sample_visible \<noteq> sg_direction sample_counter
    \<and> sg_state sample_counter \<notin> TERMINAL \<and> 101000 + 15000 \<le> entry_deadline sample_counter
    \<and> fst (assess (ns_conflicts sample_settings) 101000 sample_counter sample_visible)"
proof -
  have none: "initial_delivery_block sample_settings sample_delivered 101000 [sample_visible, sample_counter]
      ''s2'' None = None"
    by code_simp
  have found: "find (\<lambda>s. sg_id s = ''s2'') [sample_visible, sample_counter] = Some sample_counter"
    by (simp add: sample_counter_def sample_visible_def sample_signal_def)
  note guard = initial_card_guard [OF none found refl]
  have plan: "sample_counter\<lparr>sg_evidence := case None of None \<Rightarrow> sg_evidence sample_counter
      | Some l \<Rightarrow> sg_evidence l\<rparr> = sample_counter"
    by simp
  have opp: "sg_symbol sample_visible = sg_symbol sample_counter" "sg_state sample_visible \<notin> TERMINAL"
    "sg_id sample_visible \<noteq> sg_id sample_counter" "sg_direction sample_visible \<noteq> sg_direction sample_counter"
    "101000 < holding_deadline sample_visible" "visible_anywhere sample_settings sample_delivered (sg_id sample_visible)"
    by code_simp+
  have "sample_visible \<in> set [sample_visible, sample_counter]" by simp
  with guard opp show ?thesis unfolding plan by blast
qed

text \<open>
  Editing a terminal result is tried again only while the answer leaves
  hope, and then after at least two seconds and at most an hour; a sent result ends it.
\<close>

theorem terminal_retry_backoff:
  "case patch_result n a of (status, delay) \<Rightarrow>
     status \<in> {''pending'', ''sent'', ''failed''} \<and> 2 \<le> delay \<and> delay \<le> 3600
     \<and> (status = ''pending'' \<longleftrightarrow>
          (case a of PatchNoAnswer \<Rightarrow> True | PatchResponse code _ \<Rightarrow> code = 429 \<or> code \<ge> 500))"
  using base_delay_bounds [of n]
  by (auto simp: patch_result_def Let_def split: patch_answer.splits option.splits)

end
