(* ===== verification/Identity.thy ===== *)
theory Identity imports Outbox "HOL-Library.Product_Lexorder" begin

text \<open>
  Economic identities and the claim that precedes an initial card,
  \<^verbatim>\<open>src/bybit_flow/identity.py\<close>. The tables are lists of rows; the SHA-256 of
  the canonical plan is a function given as an argument. Each call of \<^verbatim>\<open>claim\<close> is
  one immediate transaction.
\<close>

subsection \<open>Fingerprints\<close>

definition round_half_up :: "dec \<Rightarrow> int" where
  "round_half_up x = (if 0 \<le> x then \<lfloor>x + 1 / 2\<rfloor> else - \<lfloor>- x + 1 / 2\<rfloor>)"

definition price_tick :: "signal \<Rightarrow> dec" where
  "price_tick s =
     (case ev_price_tick (sg_evidence s) of None \<Rightarrow> 1 / 100000000
      | Some t \<Rightarrow> if t = 0 then 1 / 100000000 else t)"

definition tick_price :: "dec \<Rightarrow> dec \<Rightarrow> dec" where
  "tick_price tick v = of_int (round_half_up (v / tick)) * tick"

datatype fp_plan =
    PlanV1 source string direction profile string "ms option" "string option" "dec list"
  | PlanV22 source string direction profile json "dec list"

definition v22_rubric :: "signal \<Rightarrow> bool" where
  "v22_rubric s \<longleftrightarrow> ev_trade_quality (sg_evidence s) = Some ''trade-validity-v22''"

definition ms_json :: "ms option \<Rightarrow> json" where
  "ms_json v = (case v of None \<Rightarrow> JNull | Some t \<Rightarrow> JInt t)"

definition fingerprint_plan :: "signal \<Rightarrow> fp_plan" where
  "fingerprint_plan s =
     (let e = sg_evidence s; p = tick_price (price_tick s) in
      if v22_rubric s then
        PlanV22 (sg_source s) (sg_symbol s) (sg_direction s) (sg_horizon_profile s)
          (jget_default (ev_frozen_structure e) ''event_start_ms'' (ms_json (ev_trigger_bar_end e)))
          [p (sg_entry s), p (sg_stop s), p (sg_tp1 s)]
      else
        PlanV1 (sg_source s) (sg_symbol s) (sg_direction s) (sg_horizon_profile s) (sg_family s)
          (ev_trigger_bar_end e) (sg_setup_thesis_id s)
          [p (sg_entry s), p (fst (sg_zone s)), p (snd (sg_zone s)), p (sg_stop s), p (sg_tp1 s),
           p (sg_tp2 s)])"

subsection \<open>How two plans relate\<close>

datatype relation =
    MATERIALLY_DIFFERENT_PLAN | CONFLICTING_HORIZON | STRONGER_REPLACEMENT | CONFIRMING_HORIZON

definition far_apart :: "signal \<Rightarrow> signal \<Rightarrow> bool" where
  "far_apart a b \<longleftrightarrow>
     (let risk = max (max \<bar>sg_entry a - sg_stop a\<bar> \<bar>sg_entry b - sg_stop b\<bar>) (1 / 1000000000000);
          overlap = (max (fst (sg_zone a)) (fst (sg_zone b)) \<le> min (snd (sg_zone a)) (snd (sg_zone b)))
      in \<not> (overlap \<or> \<bar>sg_entry a - sg_entry b\<bar> \<le> 25 / 100 * risk)
         \<or> \<bar>sg_stop a - sg_stop b\<bar> > 25 / 100 * risk)"

definition relationship :: "signal \<Rightarrow> signal \<Rightarrow> relation" where
  "relationship a b =
     (if sg_source a \<noteq> sg_source b \<or> sg_symbol a \<noteq> sg_symbol b then MATERIALLY_DIFFERENT_PLAN
      else if min (holding_deadline a) (holding_deadline b) < max (sg_created_ms a) (sg_created_ms b)
      then MATERIALLY_DIFFERENT_PLAN
      else if sg_direction a \<noteq> sg_direction b then CONFLICTING_HORIZON
      else if far_apart a b then MATERIALLY_DIFFERENT_PLAN
      else
        let new_rubric = (v22_rubric a \<or> v22_rubric b);
            same_rubric = (\<not> new_rubric
              \<or> ev_score_profile (sg_evidence a) = ev_score_profile (sg_evidence b))
        in if same_rubric \<and> sg_quality a \<ge> sg_quality b + 5 then STRONGER_REPLACEMENT
           else CONFIRMING_HORIZON)"

definition event_start :: "signal \<Rightarrow> json" where
  "event_start s = jget (ev_frozen_structure (sg_evidence s)) ''event_start_ms''"

definition same_v22_execution_event :: "signal \<Rightarrow> signal \<Rightarrow> bool" where
  "same_v22_execution_event a b \<longleftrightarrow>
     v22_rubric a
     \<and> sg_source a = sg_source b \<and> sg_symbol a = sg_symbol b \<and> sg_direction a = sg_direction b
     \<and> sg_horizon_profile a = sg_horizon_profile b
     \<and> ((event_start a \<noteq> JNull \<and> py_eq (event_start a) (event_start b))
        \<or> (ev_trigger_bar_end (sg_evidence a) \<noteq> None
           \<and> ev_trigger_bar_end (sg_evidence a) = ev_trigger_bar_end (sg_evidence b)))
     \<and> list_all (\<lambda>f. round_half_up (f a / price_tick a) = round_half_up (f b / price_tick a))
         [sg_entry, sg_stop, sg_tp1]"

subsection \<open>Candidates\<close>

record candidate_row =
  ca_signal :: string
  ca_fingerprint :: string
  ca_identity :: string
  ca_canonical :: string
  ca_evaluated :: ms

text \<open>The most recently evaluated row of a fingerprint whose canonical signal is stored.\<close>

definition prior_candidate :: "string \<Rightarrow> signal list \<Rightarrow> candidate_row list \<Rightarrow> (candidate_row \<times> signal) option" where
  "prior_candidate fp stored rows =
     (case sort_key (\<lambda>(r, s). - ca_evaluated r)
         [(r, s). r \<leftarrow> rows, ca_fingerprint r = fp, s \<leftarrow> stored, sg_id s = ca_canonical r] of
        [] \<Rightarrow> None | x # _ \<Rightarrow> Some x)"

definition register_candidate ::
    "(fp_plan \<Rightarrow> string) \<Rightarrow> signal list \<Rightarrow> signal \<Rightarrow> candidate_row list \<Rightarrow> candidate_row list \<times> string" where
  "register_candidate h stored s rows =
     (let fp = h (fingerprint_plan s) in
      case find (\<lambda>r. ca_signal r = sg_id s) rows of
        Some old \<Rightarrow> (rows, ca_identity old)
      | None \<Rightarrow>
          let (ident, canonical) =
            (case prior_candidate fp stored rows of
               Some (r, p) \<Rightarrow> if sg_created_ms s \<le> holding_deadline p then (ca_identity r, ca_canonical r)
                              else (fp @ '':'' @ sg_id s, sg_id s)
             | None \<Rightarrow> (fp @ '':'' @ sg_id s, sg_id s))
          in (rows @ [\<lparr>ca_signal = sg_id s, ca_fingerprint = fp, ca_identity = ident,
                        ca_canonical = canonical, ca_evaluated = sg_created_ms s\<rparr>], ident))"

subsection \<open>Claims\<close>

record claim_row =
  cl_signal :: string
  cl_cluster :: string
  cl_claimed_ms :: ms
  cl_status :: string

record member_row =
  am_signal :: string
  am_fingerprint :: string
  am_cluster :: string
  am_relation :: relation
  am_created :: ms

record claim_db =
  db_claims :: "(string \<times> claim_row) list"
  db_members :: "member_row list"
  db_attempts :: "(ms \<times> string \<times> string \<times> string \<times> relation) list"

record claim_result =
  cm_claimed :: bool
  cm_fingerprint :: string
  cm_cluster :: string
  cm_relation :: relation
  cm_primary :: "signal option"

definition live_members :: "signal \<Rightarrow> signal list \<Rightarrow> member_row list \<Rightarrow> (member_row \<times> signal) list" where
  "live_members s stored rows =
     sort_key (\<lambda>(m, p). (- sg_quality p, - am_created m))
       [(m, p). m \<leftarrow> rows, p \<leftarrow> stored,
          sg_id p = am_signal m \<and> sg_symbol p = sg_symbol s \<and> sg_state p \<notin> TERMINAL]"

definition claimed_before :: "(string \<times> claim_row) list \<Rightarrow> string \<Rightarrow> bool" where
  "claimed_before claims i \<longleftrightarrow>
     list_ex (\<lambda>(_, r). cl_signal r = i \<and> cl_status r \<in> {''sent'', ''uncertain'', ''sending''}) claims"

text \<open>The loop over members; the flag in front tells that it has broken off.\<close>

definition member_step ::
    "(string \<times> claim_row) list \<Rightarrow> signal \<Rightarrow> member_row \<times> signal \<Rightarrow>
     bool \<times> bool \<times> (string \<times> relation \<times> signal) option \<Rightarrow>
     bool \<times> bool \<times> (string \<times> relation \<times> signal) option" where
  "member_step claims s = (\<lambda>(m, other) (stop, dup, primary).
     if stop \<or> sg_id other = sg_id s then (stop, dup, primary)
     else
       let dup' = (dup \<or> (same_v22_execution_event s other \<and> claimed_before claims (sg_id other)));
           rel = relationship s other
       in if rel \<noteq> MATERIALLY_DIFFERENT_PLAN \<and> primary = None
          then (\<not> v22_rubric s, dup', Some (am_cluster m, rel, other))
          else (stop, dup', primary))"

definition claim ::
    "(fp_plan \<Rightarrow> string) \<Rightarrow> signal list \<Rightarrow> bool option \<Rightarrow> signal \<Rightarrow> ms \<Rightarrow> bool \<Rightarrow>
     claim_db \<Rightarrow> claim_db \<times> claim_result" where
  "claim h stored dispatched s at_ms retry_unattempted db =
     (let fp = h (fingerprint_plan s);
          (_, dup, primary) = fold (member_step (db_claims db) s)
             (live_members s stored (db_members db)) (False, False, None);
          cluster = (case primary of None \<Rightarrow> ''cluster:'' @ sg_id s | Some (c, _, _) \<Rightarrow> c);
          rel = (case primary of None \<Rightarrow> MATERIALLY_DIFFERENT_PLAN | Some (_, r, _) \<Rightarrow> r);
          row = map_of (db_claims db) fp;
          fresh = (row = None \<and> \<not> dup);
          again = (\<not> fresh \<and> retry_unattempted \<and> dispatched = Some False
            \<and> (case row of None \<Rightarrow> False | Some r \<Rightarrow> cl_signal r = sg_id s \<and> is_blocked (cl_status r)));
          inserted = (fresh \<or> again);
          claims = (if fresh then db_claims db @ [(fp, \<lparr>cl_signal = sg_id s, cl_cluster = cluster,
                       cl_claimed_ms = at_ms, cl_status = ''sending''\<rparr>)]
                    else if again then map (\<lambda>(k, r). (k, if k = fp then r\<lparr>cl_status := ''sending''\<rparr> else r))
                       (db_claims db)
                    else db_claims db);
          status = (if inserted then ''sending'' else ''duplicate-plan-suppressed'');
          known = (sg_id s \<in> am_signal ` set (db_members db))
      in (db\<lparr>db_claims := claims,
             db_attempts := db_attempts db @ [(at_ms, sg_id s, fp, status, rel)],
             db_members := (if inserted \<and> \<not> known
               then db_members db @ [\<lparr>am_signal = sg_id s, am_fingerprint = fp, am_cluster = cluster,
                                      am_relation = rel, am_created = at_ms\<rparr>]
               else db_members db)\<rparr>,
          \<lparr>cm_claimed = inserted, cm_fingerprint = fp, cm_cluster = cluster, cm_relation = rel,
           cm_primary = map_option (\<lambda>(_, _, p). p) primary\<rparr>))"

subsection \<open>Prices on the tick grid\<close>

lemma round_half_up_near: "\<bar>of_int (round_half_up x) - x\<bar> \<le> 1 / 2"
proof (cases "0 \<le> x")
  case True
  then show ?thesis
    using of_int_floor_le [of "x + 1 / 2"] floor_correct [of "x + 1 / 2"] unfolding round_half_up_def
    by (simp only: if_True abs_le_iff) linarith
next
  case False
  then show ?thesis
    using of_int_floor_le [of "- x + 1 / 2"] floor_correct [of "- x + 1 / 2"] unfolding round_half_up_def
    by (simp only: if_False abs_le_iff of_int_minus) linarith
qed

lemma tick_price_near: "0 < tick \<Longrightarrow> \<bar>tick_price tick v - v\<bar> \<le> tick / 2"
proof -
  assume t: "0 < tick"
  have "tick_price tick v - v = (of_int (round_half_up (v / tick)) - v / tick) * tick"
    using t by (simp add: tick_price_def algebra_simps)
  then have "\<bar>tick_price tick v - v\<bar> = \<bar>of_int (round_half_up (v / tick)) - v / tick\<bar> * tick"
    using t by (simp add: abs_mult)
  also have "\<dots> \<le> 1 / 2 * tick"
    using t round_half_up_near [of "v / tick"] by (intro mult_right_mono) auto
  finally show ?thesis by simp
qed

text \<open>
  Two plans with the same canonical identity agree on venue, symbol,
  direction and horizon, and, on the same price grid, their entries, stops and first targets
  differ by at most one tick.
\<close>

theorem fingerprint_is_economic:
  assumes "fingerprint_plan a = fingerprint_plan b" and "price_tick a = price_tick b" and "0 < price_tick a"
  shows "sg_source a = sg_source b \<and> sg_symbol a = sg_symbol b \<and> sg_direction a = sg_direction b
    \<and> sg_horizon_profile a = sg_horizon_profile b
    \<and> \<bar>sg_entry a - sg_entry b\<bar> \<le> price_tick a \<and> \<bar>sg_stop a - sg_stop b\<bar> \<le> price_tick a
    \<and> \<bar>sg_tp1 a - sg_tp1 b\<bar> \<le> price_tick a"
proof -
  have near: "tick_price (price_tick a) x = tick_price (price_tick a) y \<Longrightarrow> \<bar>x - y\<bar> \<le> price_tick a" for x y
    using tick_price_near [OF assms(3), of x] tick_price_near [OF assms(3), of y]
    unfolding abs_le_iff by linarith
  show ?thesis
    using assms(1,2) near by (auto simp: fingerprint_plan_def Let_def split: if_splits)
qed

lemma fingerprint_is_economic_witness:
  "let a = sample_signal; b = sample_signal\<lparr>sg_entry := 100 + 1 / 1000000000\<rparr> in
   sg_source a = sg_source b \<and> sg_symbol a = sg_symbol b \<and> sg_direction a = sg_direction b
    \<and> sg_horizon_profile a = sg_horizon_profile b
    \<and> \<bar>sg_entry a - sg_entry b\<bar> \<le> price_tick a \<and> \<bar>sg_stop a - sg_stop b\<bar> \<le> price_tick a
    \<and> \<bar>sg_tp1 a - sg_tp1 b\<bar> \<le> price_tick a"
  unfolding Let_def by (rule fingerprint_is_economic) code_simp+

subsection \<open>Relations between plans\<close>

text \<open>
  Whether two plans are materially different or in conflict does not
  depend on which one is asked about, and neither of two related plans can be the stronger
  replacement of the other in both directions.
\<close>

theorem relationship_symmetry:
  "(relationship a b = MATERIALLY_DIFFERENT_PLAN) = (relationship b a = MATERIALLY_DIFFERENT_PLAN)
   \<and> (relationship a b = CONFLICTING_HORIZON) = (relationship b a = CONFLICTING_HORIZON)
   \<and> \<not> (relationship a b = STRONGER_REPLACEMENT \<and> relationship b a = STRONGER_REPLACEMENT)"
proof -
  have "far_apart a b = far_apart b a"
    by (simp add: far_apart_def Let_def max.commute min.commute abs_minus_commute)
  then show ?thesis
    by (auto simp: relationship_def Let_def max.commute min.commute split: if_splits)
qed

subsection \<open>The claim is exclusive\<close>

text \<open>
  A fingerprint is held while its row exists with a status that is not blocked. Deliveries settle
  the row of the fingerprint they claimed with their own outcome.
\<close>

definition held :: "claim_db \<Rightarrow> string \<Rightarrow> bool" where
  "held db fp \<longleftrightarrow>
     (case map_of (db_claims db) fp of None \<Rightarrow> False | Some r \<Rightarrow> \<not> is_blocked (cl_status r))"

definition settle_claim :: "string \<Rightarrow> string \<Rightarrow> claim_db \<Rightarrow> claim_db" where
  "settle_claim fp status db =
     db\<lparr>db_claims := map (\<lambda>(k, r). (k, if k = fp then r\<lparr>cl_status := status\<rparr> else r)) (db_claims db)\<rparr>"

datatype claim_event =
    TryClaim "signal list" "bool option" signal ms bool
  | Settle string string

fun claim_step :: "(fp_plan \<Rightarrow> string) \<Rightarrow> claim_event \<Rightarrow> claim_db \<Rightarrow> claim_db" where
  "claim_step h (TryClaim stored dispatched s at_ms retry) db = fst (claim h stored dispatched s at_ms retry db)"
| "claim_step h (Settle fp status) db = settle_claim fp status db"

definition grants :: "string \<Rightarrow> claim_db \<Rightarrow> nat" where
  "grants fp db = length (filter (\<lambda>(_, _, f, st, _). f = fp \<and> st = ''sending'') (db_attempts db))"

fun blocks :: "string \<Rightarrow> claim_event \<Rightarrow> bool" where
  "blocks fp (Settle f status) = (f = fp \<and> is_blocked status)"
| "blocks fp _ = False"

definition empty_claims :: claim_db where
  "empty_claims = \<lparr>db_claims = [], db_members = [], db_attempts = []\<rparr>"

lemma map_of_settle:
  "map_of (map (\<lambda>(k, r). (k, if k = fp then f r else r)) rows) k
     = (if k = fp then map_option f (map_of rows k) else map_of rows k)"
  by (induction rows) auto

lemma claim_outcome:
  fixes h stored dispatched s at_ms retry db
  defines "fp \<equiv> h (fingerprint_plan s)"
  shows "\<exists>granted rel. db_attempts (fst (claim h stored dispatched s at_ms retry db))
      = db_attempts db @ [(at_ms, sg_id s, fp, if granted then ''sending'' else ''duplicate-plan-suppressed'', rel)]
    \<and> cm_claimed (snd (claim h stored dispatched s at_ms retry db)) = granted
    \<and> (granted \<longrightarrow> \<not> held db fp \<and> held (fst (claim h stored dispatched s at_ms retry db)) fp)
    \<and> (\<forall>k. k \<noteq> fp \<or> \<not> granted \<longrightarrow>
         map_of (db_claims (fst (claim h stored dispatched s at_ms retry db))) k = map_of (db_claims db) k)"
proof -
  obtain stop dup primary where f: "fold (member_step (db_claims db) s)
      (live_members s stored (db_members db)) (False, False, None) = (stop, dup, primary)"
    by (metis prod_cases3)
  show ?thesis
    unfolding claim_def fp_def [symmetric] Let_def f
    by (auto simp: held_def map_add_def map_of_settle split: option.splits)
qed

lemma grants_step:
  "grants fp (claim_step h e db) + (if held db fp then 1 else 0) + 0
     \<le> grants fp db + (if blocks fp e then 1 else 0) + (if held (claim_step h e db) fp then 1 else 0)"
proof (cases e)
  case (Settle f status)
  then show ?thesis
    by (auto simp: grants_def settle_claim_def held_def map_of_settle split: option.splits)
next
  case (TryClaim stored dispatched s at_ms retry)
  let ?db' = "fst (claim h stored dispatched s at_ms retry db)"
  let ?fp = "h (fingerprint_plan s)"
  obtain granted rel where c: "db_attempts ?db' = db_attempts db
        @ [(at_ms, sg_id s, ?fp, if granted then ''sending'' else ''duplicate-plan-suppressed'', rel)]"
      "granted \<longrightarrow> \<not> held db ?fp \<and> held ?db' ?fp"
      "\<forall>k. k \<noteq> ?fp \<or> \<not> granted \<longrightarrow> map_of (db_claims ?db') k = map_of (db_claims db) k"
    using claim_outcome [of h stored dispatched s at_ms retry db] by blast
  have g: "grants fp ?db' = grants fp db + (if fp = ?fp \<and> granted then 1 else 0)"
    using c(1) by (simp add: grants_def)
  have "held ?db' fp = held db fp" if "fp \<noteq> ?fp \<or> \<not> granted"
    using c(3) that by (simp add: held_def)
  with g c(2) TryClaim show ?thesis by auto
qed

text \<open>
  C33: in any sequence of claims and settlements a fingerprint is granted at most
  once more often than a delivery of it was settled as blocked, so a plan whose delivery was sent,
  is under way, was rejected or is uncertain is never granted to anyone again.
\<close>

theorem claim_exclusive:
  "grants fp (fold (claim_step h) es empty_claims)
     \<le> length (filter (blocks fp) es) + (if held (fold (claim_step h) es empty_claims) fp then 1 else 0)"
proof (induction es rule: rev_induct)
  case Nil
  then show ?case by (simp add: grants_def empty_claims_def)
next
  case (snoc e es)
  then show ?case using grants_step [of fp h e "fold (claim_step h) es empty_claims"]
    by (auto split: if_splits)
qed

subsection \<open>Economic duplicates\<close>

lemma member_fold_dup:
  assumes "v22_rubric s"
  shows "fst (fold (member_step claims s) ms (False, dup, primary)) = False
    \<and> fst (snd (fold (member_step claims s) ms (False, dup, primary)))
      = (dup \<or> (\<exists>(m, p) \<in> set ms. sg_id p \<noteq> sg_id s \<and> same_v22_execution_event s p \<and> claimed_before claims (sg_id p)))"
proof (induction ms arbitrary: dup primary)
  case Nil
  then show ?case by simp
next
  case (Cons mp ms)
  obtain m p where mp: "mp = (m, p)" by fastforce
  let ?dup = "dup \<or> (sg_id p \<noteq> sg_id s \<and> same_v22_execution_event s p \<and> claimed_before claims (sg_id p))"
  have "fst (member_step claims s mp (False, dup, primary)) = False
      \<and> fst (snd (member_step claims s mp (False, dup, primary))) = ?dup"
    using assms by (simp add: member_step_def Let_def mp)
  then obtain primary' where st: "member_step claims s mp (False, dup, primary) = (False, ?dup, primary')"
    by (cases "member_step claims s mp (False, dup, primary)") auto
  let ?hit = "\<lambda>(m, p). sg_id p \<noteq> sg_id s \<and> same_v22_execution_event s p \<and> claimed_before claims (sg_id p)"
  have eq: "fold (member_step claims s) (mp # ms) (False, dup, primary)
      = fold (member_step claims s) ms (False, ?dup, primary')" by (simp add: st)
  have "(?dup \<or> (\<exists>x \<in> set ms. ?hit x)) = (dup \<or> (\<exists>x \<in> set (mp # ms). ?hit x))" by (auto simp: mp)
  with Cons.IH [of ?dup primary'] show ?case unfolding eq by blast
qed

text \<open>
  A v22 plan that describes the same execution event as a live,
  already delivered (or possibly delivered) plan of the symbol is not granted a first claim,
  whatever recogniser produced it.
\<close>

theorem economic_duplicate_suppressed:
  assumes "v22_rubric s" and "m \<in> set (db_members db)" and "p \<in> set stored"
    and "sg_id p = am_signal m" and "sg_state p \<notin> TERMINAL" and "sg_id p \<noteq> sg_id s"
    and "same_v22_execution_event s p" and "claimed_before (db_claims db) (sg_id p)"
    and "map_of (db_claims db) (h (fingerprint_plan s)) = None"
  shows "\<not> cm_claimed (snd (claim h stored dispatched s at_ms retry db))
    \<and> db_claims (fst (claim h stored dispatched s at_ms retry db)) = db_claims db"
proof -
  have "sg_symbol p = sg_symbol s" using assms(7) by (simp add: same_v22_execution_event_def)
  then have mem: "(m, p) \<in> set (live_members s stored (db_members db))"
    using assms by (force simp: live_members_def)
  obtain stop dup primary where f: "fold (member_step (db_claims db) s)
      (live_members s stored (db_members db)) (False, False, None) = (stop, dup, primary)"
    by (metis prod_cases3)
  have "dup" using member_fold_dup [OF assms(1), of "db_claims db" "live_members s stored (db_members db)"
      False None] mem assms(6-8) by (auto simp: f)
  with assms(9) show ?thesis by (simp add: claim_def Let_def f)
qed

definition sample_v22 :: "string \<Rightarrow> signal" where
  "sample_v22 i = sample_signal\<lparr>sg_id := i, sg_family := i, sg_evidence := empty_evidence\<lparr>
     ev_trade_quality := Some ''trade-validity-v22'', ev_trigger_bar_end := Some 50000\<rparr>\<rparr>"

definition sample_hash :: "fp_plan \<Rightarrow> string" where
  "sample_hash p = (case p of PlanV1 _ _ _ _ _ _ _ _ \<Rightarrow> ''v1'' | PlanV22 _ _ _ _ _ _ \<Rightarrow> ''v22'')"

lemma economic_duplicate_suppressed_witness:
  "let db = \<lparr>db_claims = [(''x'', \<lparr>cl_signal = ''a'', cl_cluster = ''cluster:a'', cl_claimed_ms = 1,
        cl_status = ''sent''\<rparr>)],
      db_members = [\<lparr>am_signal = ''a'', am_fingerprint = ''x'', am_cluster = ''cluster:a'',
        am_relation = MATERIALLY_DIFFERENT_PLAN, am_created = 1\<rparr>], db_attempts = []\<rparr>;
      r = claim sample_hash [sample_v22 ''a'', sample_v22 ''b''] None (sample_v22 ''b'') 2 False db in
   \<not> cm_claimed (snd r) \<and> db_claims (fst r) = db_claims db"
  unfolding Let_def
  by (rule economic_duplicate_suppressed [where p = "sample_v22 ''a''" and
        m = "\<lparr>am_signal = ''a'', am_fingerprint = ''x'', am_cluster = ''cluster:a'',
        am_relation = MATERIALLY_DIFFERENT_PLAN, am_created = 1\<rparr>"]) code_simp+

subsection \<open>Candidate identities\<close>

lemma find_append_none: "find P xs = None \<Longrightarrow> find P (xs @ ys) = find P ys"
  by (induction xs) (auto split: if_splits)

text \<open>
  Registering a candidate gives it one identity for good; a second
  registration, with whatever stored signals, returns the same identity and adds no row.
\<close>

theorem candidate_identity_stable:
  "let (rows', ident) = register_candidate h stored s rows in
   register_candidate h stored' s rows' = (rows', ident)"
proof (cases "find (\<lambda>r. ca_signal r = sg_id s) rows")
  case None
  then show ?thesis
    by (auto simp: register_candidate_def Let_def find_append_none split: option.splits prod.splits)
next
  case (Some r)
  then show ?thesis by (simp add: register_candidate_def Let_def)
qed

end
