(* ===== verification/Leases.thy ===== *)
theory Leases imports Prelude begin

text \<open>
  Range leases between replay readers and destructive storage maintenance,
  \<^verbatim>\<open>src/bybit_flow/leases.py\<close>. The lease table is a list of rows; a heartbeat is
  one immediate transaction, so processes interleave at whole heartbeats. The invariant: at no
  time do two unexpired leases overlap of which one is exclusive.
\<close>

definition TTL_MS :: ms where "TTL_MS = 180000"

record lease_row =
  lr_id :: string
  lr_start :: ms
  lr_end :: ms
  lr_expires :: ms
  lr_exclusive :: bool

record lease =
  ls_id :: string
  ls_start :: ms
  ls_end :: ms
  ls_exclusive :: bool
  ls_last_beat :: ms

definition row_overlaps :: "ms \<Rightarrow> ms \<Rightarrow> ms \<Rightarrow> lease_row \<Rightarrow> bool" where
  "row_overlaps now start stop r \<longleftrightarrow> lr_expires r > now \<and> lr_start r \<le> stop \<and> lr_end r \<ge> start"

definition overlaps :: "lease_row list \<Rightarrow> ms \<Rightarrow> ms \<Rightarrow> ms \<Rightarrow> string option \<Rightarrow> bool" where
  "overlaps rows start stop now exclude \<longleftrightarrow>
     list_ex (\<lambda>r. row_overlaps now start stop r
       \<and> lr_id r \<noteq> (case exclude of None \<Rightarrow> [] | Some i \<Rightarrow> i)) rows"

definition busy :: py_error where
  "busy = BlockingIO ''Overlapping storage operation in progress''"

definition heartbeat ::
    "ms \<Rightarrow> ms option \<Rightarrow> bool \<Rightarrow> lease \<Rightarrow> lease_row list \<Rightarrow> py_error + (lease \<times> lease_row list)" where
  "heartbeat now start force l rows =
     (if \<not> force \<and> now - ls_last_beat l < 30000 then Inr (l, rows)
      else
        let proposed = (case start of None \<Rightarrow> ls_start l | Some s \<Rightarrow> max (ls_start l) s);
            others = filter (\<lambda>r. row_overlaps now proposed (ls_end l) r \<and> lr_id r \<noteq> ls_id l) rows
        in if list_ex (\<lambda>r. ls_exclusive l \<or> lr_exclusive r) others then Inl busy
           else Inr (l\<lparr>ls_start := proposed, ls_last_beat := now\<rparr>,
                     \<lparr>lr_id = ls_id l, lr_start = proposed, lr_end = ls_end l,
                      lr_expires = now + TTL_MS, lr_exclusive = ls_exclusive l\<rparr>
                     # filter (\<lambda>r. lr_id r \<noteq> ls_id l) rows))"

definition release :: "lease \<Rightarrow> lease_row list \<Rightarrow> lease_row list" where
  "release l rows = filter (\<lambda>r. lr_id r \<noteq> ls_id l) rows"

definition lease_status :: "ms \<Rightarrow> lease_row list \<Rightarrow> lease_row list \<times> lease_row list" where
  "lease_status now rows = (filter (\<lambda>r. lr_expires r > now) rows, filter (\<lambda>r. lr_expires r \<le> now) rows)"

text \<open>\<^verbatim>\<open>reap\<close>: expired rows move to the archive, which keeps the first of an id.\<close>

definition reap :: "ms \<Rightarrow> (string \<times> lease_row) list \<times> lease_row list \<Rightarrow> (string \<times> lease_row) list \<times> lease_row list" where
  "reap now = (\<lambda>(archive, rows).
     (fold (\<lambda>r a. if lr_id r \<in> fst ` set a then a else a @ [(lr_id r, r)])
        (filter (\<lambda>r. lr_expires r \<le> now) rows) archive,
      filter (\<lambda>r. \<not> lr_expires r \<le> now) rows))"

subsection \<open>Exclusion\<close>

definition conflict :: "ms \<Rightarrow> lease_row \<Rightarrow> lease_row \<Rightarrow> bool" where
  "conflict now a b \<longleftrightarrow>
     lr_expires a > now \<and> lr_expires b > now \<and> lr_start a \<le> lr_end b \<and> lr_start b \<le> lr_end a
     \<and> (lr_exclusive a \<or> lr_exclusive b)"

definition lease_inv :: "ms \<Rightarrow> lease_row list \<Rightarrow> bool" where
  "lease_inv now rows \<longleftrightarrow>
     distinct (map lr_id rows)
     \<and> (\<forall>a \<in> set rows. \<forall>b \<in> set rows. lr_id a \<noteq> lr_id b \<longrightarrow> \<not> conflict now a b)"

lemma lease_inv_later: "lease_inv now rows \<Longrightarrow> now \<le> later \<Longrightarrow> lease_inv later rows"
  by (fastforce simp: lease_inv_def conflict_def)

lemma lease_inv_filter: "lease_inv now rows \<Longrightarrow> lease_inv now (filter P rows)"
  by (auto simp: lease_inv_def distinct_map_filter)

lemma conflict_sym: "conflict now a b = conflict now b a"
  by (auto simp: conflict_def)

lemma lease_inv_heartbeat:
  assumes inv: "lease_inv now rows" and ok: "heartbeat now start force l rows = Inr (l', rows')"
  shows "lease_inv now rows'"
proof (cases "\<not> force \<and> now - ls_last_beat l < 30000")
  case True
  with assms show ?thesis by (simp add: heartbeat_def)
next
  case False
  let ?p = "case start of None \<Rightarrow> ls_start l | Some s \<Rightarrow> max (ls_start l) s"
  let ?new = "\<lparr>lr_id = ls_id l, lr_start = ?p, lr_end = ls_end l, lr_expires = now + TTL_MS,
      lr_exclusive = ls_exclusive l\<rparr>"
  let ?rest = "filter (\<lambda>r. lr_id r \<noteq> ls_id l) rows"
  have rows': "rows' = ?new # ?rest"
    and free: "\<forall>r \<in> set rows. row_overlaps now ?p (ls_end l) r \<and> lr_id r \<noteq> ls_id l
        \<longrightarrow> \<not> (ls_exclusive l \<or> lr_exclusive r)"
    using ok False by (auto simp: heartbeat_def Let_def list_ex_iff split: if_splits)
  have rest: "lease_inv now ?rest" using inv by (rule lease_inv_filter)
  have new: "\<not> conflict now ?new b" if "b \<in> set ?rest" for b
    using free that by (auto simp: conflict_def row_overlaps_def)
  show ?thesis
    using rest new conflict_sym unfolding rows' lease_inv_def by (auto simp: image_iff)
qed

lemma lease_inv_reap: "lease_inv now rows \<Longrightarrow> lease_inv now (snd (reap t (archive, rows)))"
  by (simp add: reap_def lease_inv_filter)

subsection \<open>Runs of heartbeats, releases and reaping\<close>

datatype lease_event =
    Beat "ms option" bool lease
  | Leave lease
  | Reap

definition lease_step :: "ms \<times> lease_event \<Rightarrow> ms \<times> lease_row list \<Rightarrow> ms \<times> lease_row list" where
  "lease_step = (\<lambda>(dt, e) (now, rows).
     (let t = now + \<bar>dt\<bar> in
      (t, case e of
            Beat start force l \<Rightarrow> (case heartbeat t start force l rows of Inl _ \<Rightarrow> rows | Inr (_, rs) \<Rightarrow> rs)
          | Leave l \<Rightarrow> release l rows
          | Reap \<Rightarrow> snd (reap t ([], rows)))))"

lemma lease_step_inv: "(\<lambda>(now, rows). lease_inv now rows) s \<Longrightarrow> (\<lambda>(now, rows). lease_inv now rows) (lease_step e s)"
proof -
  obtain dt ev now rows where es: "e = (dt, ev)" "s = (now, rows)" by (cases e; cases s) auto
  assume "(\<lambda>(now, rows). lease_inv now rows) s"
  then have inv: "lease_inv (now + \<bar>dt\<bar>) rows" using lease_inv_later [of now rows "now + \<bar>dt\<bar>"] es by simp
  show ?thesis
  proof (cases ev)
    case (Beat start force l)
    then show ?thesis
      using es inv lease_inv_heartbeat [OF inv]
      by (auto simp: lease_step_def Let_def split: sum.splits prod.splits)
  next
    case (Leave l)
    then show ?thesis using es inv by (simp add: lease_step_def Let_def release_def lease_inv_filter)
  next
    case Reap
    then show ?thesis using es inv by (simp add: lease_step_def Let_def lease_inv_reap)
  qed
qed

interpretation lease_machine: step_invariant lease_step "\<lambda>(now, rows). lease_inv now rows"
  by unfold_locales (rule lease_step_inv)

interpretation lease_clock: monotone_machine lease_step "\<lambda>(now, rows). now" "\<lambda>_. True"
  by unfold_locales (auto simp: lease_step_def Let_def)

subsection \<open>Properties\<close>

text \<open>
  C34: in any interleaving of heartbeats, releases and reaping over an advancing
  clock, no two unexpired leases with overlapping ranges exist of which one is exclusive, so
  destructive maintenance never runs over a range that a live reader has leased.
\<close>

theorem leases_exclude:
  "let (now, rows) = fold lease_step es (0, []) in
   \<not> (\<exists>a b. a \<in> set rows \<and> b \<in> set rows \<and> lr_id a \<noteq> lr_id b \<and> conflict now a b)"
  using lease_machine.run_inv [of "(0, [])" es]
  by (auto simp: lease_inv_def split: prod.splits)

text \<open>
  A heartbeat that is due either renews exactly this lease until the
  time to live has passed, never moving its start backwards and leaving other rows alone, or it
  raises the blocking error because an overlapping lease excludes it, and then changes nothing.
\<close>

theorem lease_heartbeat_outcome:
  assumes "force \<or> now - ls_last_beat l \<ge> 30000"
  shows "case heartbeat now start force l rows of
      Inl e \<Rightarrow> e = busy \<and> (\<exists>r \<in> set rows. lr_id r \<noteq> ls_id l \<and> lr_expires r > now
          \<and> lr_start r \<le> ls_end l \<and> (ls_exclusive l \<or> lr_exclusive r))
    | Inr (l', rows') \<Rightarrow>
        ls_start l \<le> ls_start l' \<and> ls_last_beat l' = now
        \<and> (\<exists>r \<in> set rows'. lr_id r = ls_id l \<and> lr_expires r = now + TTL_MS \<and> lr_start r = ls_start l')
        \<and> filter (\<lambda>r. lr_id r \<noteq> ls_id l) rows' = filter (\<lambda>r. lr_id r \<noteq> ls_id l) rows"
  using assms
  by (auto simp: heartbeat_def Let_def list_ex_iff row_overlaps_def split: option.split)

definition sample_lease :: "string \<Rightarrow> bool \<Rightarrow> lease" where
  "sample_lease i excl = \<lparr>ls_id = i, ls_start = 10, ls_end = 20, ls_exclusive = excl, ls_last_beat = 0\<rparr>"

lemma lease_heartbeat_outcome_witness:
  "let rows = [\<lparr>lr_id = ''r'', lr_start = 15, lr_end = 30, lr_expires = 90000, lr_exclusive = False\<rparr>] in
   case heartbeat 40000 None True (sample_lease ''m'' True) rows of
      Inl e \<Rightarrow> e = busy \<and> (\<exists>r \<in> set rows. lr_id r \<noteq> ls_id (sample_lease ''m'' True) \<and> lr_expires r > 40000
          \<and> lr_start r \<le> ls_end (sample_lease ''m'' True)
          \<and> (ls_exclusive (sample_lease ''m'' True) \<or> lr_exclusive r))
    | Inr (l', rows') \<Rightarrow>
        ls_start (sample_lease ''m'' True) \<le> ls_start l' \<and> ls_last_beat l' = 40000
        \<and> (\<exists>r \<in> set rows'. lr_id r = ls_id (sample_lease ''m'' True) \<and> lr_expires r = 40000 + TTL_MS
             \<and> lr_start r = ls_start l')
        \<and> filter (\<lambda>r. lr_id r \<noteq> ls_id (sample_lease ''m'' True)) rows'
          = filter (\<lambda>r. lr_id r \<noteq> ls_id (sample_lease ''m'' True)) rows"
  unfolding Let_def by (rule lease_heartbeat_outcome) simp

text \<open>Reaping removes no live lease and loses no expired one.\<close>

theorem reap_keeps_live:
  "let (archive', rows') = reap now (archive, rows) in
   rows' = fst (lease_status now rows)
   \<and> (\<forall>r \<in> set (snd (lease_status now rows)). lr_id r \<in> fst ` set archive')
   \<and> (\<exists>new. archive' = archive @ new)"
proof -
  let ?add = "\<lambda>r a. if lr_id r \<in> fst ` set a then a else a @ [(lr_id r, r)]"
  have ext: "\<exists>new. fold ?add rs a = a @ new" for rs :: "lease_row list" and a
  proof (induction rs arbitrary: a)
    case (Cons r rs)
    then obtain new where "fold ?add rs (?add r a) = ?add r a @ new" by blast
    then show ?case by (cases "lr_id r \<in> fst ` set a") auto
  qed simp
  have mem: "\<forall>r \<in> set rs. lr_id r \<in> fst ` set (fold ?add rs a)" for rs :: "lease_row list" and a
  proof (induction rs arbitrary: a)
    case (Cons r rs)
    obtain new where new: "fold ?add rs (?add r a) = ?add r a @ new" using ext by blast
    have "lr_id r \<in> fst ` set (?add r a)" by auto
    then have "lr_id r \<in> fst ` set (fold ?add rs (?add r a))" unfolding new by auto
    with Cons.IH [of "?add r a"] show ?case by (simp del: set_append)
  qed simp
  show ?thesis
    using ext [of "filter (\<lambda>r. lr_expires r \<le> now) rows" archive]
      mem [of "filter (\<lambda>r. lr_expires r \<le> now) rows" archive]
    by (simp add: reap_def lease_status_def not_le)
qed

end
