(* ===== verification/Recorder.thy ===== *)
theory Recorder imports Prelude begin

text \<open>
  The raw recorder: \<^verbatim>\<open>Recorder\<close> of \<^verbatim>\<open>src/bybit_flow/storage.py\<close>, the
  acknowledgement protocol of \<^verbatim>\<open>ProcessWriter\<close> in
  \<^verbatim>\<open>src/bybit_flow/recorder_worker.py\<close>, and \<^verbatim>\<open>market_source\<close> of
  \<^verbatim>\<open>src/bybit_flow/ml/coverage.py\<close>. Producers offer envelopes; the writer loop
  collects them into a batch, publishes the batch as a segment under a batch identifier, and
  retains the batch when the write fails.

  The segment identifiers (a clock reading and a UUID) are taken to be unique and are modelled by
  a counter; JSON texts are strings whose length is their size in bytes. Files, Parquet
  normalisation and the disk accounting are not modelled.
\<close>

subsection \<open>Sources\<close>

fun contains :: "string \<Rightarrow> string \<Rightarrow> bool" where
  "contains sub [] \<longleftrightarrow> sub = []"
| "contains sub (c # cs) \<longleftrightarrow> take (length sub) (c # cs) = sub \<or> contains sub cs"

text \<open>\<^verbatim>\<open>source.split("/", 2)\<close> of a native source; fewer than three parts do not unpack.\<close>

definition market_source :: "string \<Rightarrow> py_error + string \<times> string" where
  "market_source source =
     (if take 7 source \<noteq> ''native/'' then Inr (''bybit'', source)
      else
        let rest = drop 7 source; venue = takeWhile (\<lambda>c. c \<noteq> CHR ''/'') rest;
            tail = dropWhile (\<lambda>c. c \<noteq> CHR ''/'') rest
        in if tail = [] then Inl (ValueError ''not enough values to unpack (expected 3, got 2)'')
           else Inr (venue, tl tail))"

subsection \<open>State\<close>

record gap =
  gp_start :: ms
  gp_end :: ms
  gp_reason :: string
  gp_source :: string
  gp_dropped :: nat

datatype payload = Text string | GapNote gap

record row =
  rw_source :: string
  rw_symbol :: string
  rw_event :: ms
  rw_receipt :: ms
  rw_complete :: bool
  rw_payload :: payload
  rw_observed :: "ms option"

definition row_size :: "row \<Rightarrow> int" where
  "row_size r = (case rw_payload r of Text t \<Rightarrow> int (length t) | GapNote _ \<Rightarrow> 0) + 256"

datatype rec_state = NORMAL | RECORDER_PRESSURE | RECORDER_BACKPRESSURE | STORAGE_BACKPRESSURE | RECORDER_RECOVERY

record recorder =
  rc_queue :: "row list"
  rc_maxsize :: nat
  rc_byte_limit :: int
  rc_segment_rows :: nat
  rc_critical :: "string list"
  rc_pending :: int
  rc_healthy :: bool
  rc_status :: rec_state
  rc_gaps :: "((string \<times> string) \<times> gap) list"
  rc_dropped :: nat
  rc_overflow :: nat
  rc_last_error :: ms
  rc_last_offered :: "ms option"
  rc_adjustments :: nat
  rc_high_watermark :: nat
  rc_enqueued :: "(int \<times> nat) list"
  rc_batch :: "row list"
  rc_batch_bytes :: int
  rc_batch_id :: "nat option"
  rc_next_id :: nat
  rc_writing :: bool
  rc_running :: bool
  rc_stopped :: bool
  rc_retries :: nat
  rc_segments :: "(nat \<times> row list) list"
  rc_written :: nat

definition recorder_new :: "nat \<Rightarrow> int \<Rightarrow> nat \<Rightarrow> recorder" where
  "recorder_new maxsize limit rows =
     \<lparr>rc_queue = [], rc_maxsize = maxsize, rc_byte_limit = limit, rc_segment_rows = rows,
      rc_critical = [''BTCUSDT'', ''ETHUSDT''], rc_pending = 0, rc_healthy = True, rc_status = NORMAL,
      rc_gaps = [], rc_dropped = 0, rc_overflow = 0, rc_last_error = 0, rc_last_offered = None,
      rc_adjustments = 0, rc_high_watermark = 0, rc_enqueued = [], rc_batch = [], rc_batch_bytes = 0,
      rc_batch_id = None, rc_next_id = 0, rc_writing = False, rc_running = True, rc_stopped = False,
      rc_retries = 0, rc_segments = [], rc_written = 0\<rparr>"

subsection \<open>Producers\<close>

definition count_rate :: "ms \<Rightarrow> nat \<Rightarrow> (int \<times> nat) list \<Rightarrow> (int \<times> nat) list" where
  "count_rate now n samples =
     (let second = now div 1000 in
      if samples \<noteq> [] \<and> fst (last samples) = second
      then butlast samples @ [(second, snd (last samples) + n)]
      else deque_append 120 (second, n) samples)"

definition pressure :: "recorder \<Rightarrow> dec" where
  "pressure r = max (of_nat (length (rc_queue r)) / of_nat (rc_maxsize r))
     (of_int (rc_pending r) / of_int (rc_byte_limit r))"

definition note_gap :: "string \<Rightarrow> string \<Rightarrow> ms \<Rightarrow> string \<Rightarrow> recorder \<Rightarrow> recorder \<times> py_error option" where
  "note_gap source symbol at_ms reason r =
     (let r1 = r\<lparr>rc_dropped := rc_dropped r + 1\<rparr> in
      case market_source source of
        Inl e \<Rightarrow> (r1, Some e)
      | Inr (venue, _) \<Rightarrow>
          let g = (case map_of (rc_gaps r) (venue, symbol) of
                     Some g \<Rightarrow> g
                   | None \<Rightarrow> \<lparr>gp_start = at_ms, gp_end = at_ms, gp_reason = reason, gp_source = venue,
                               gp_dropped = 0\<rparr>)
          in (r1\<lparr>rc_gaps := AList.update (venue, symbol)
                   (g\<lparr>gp_end := at_ms, gp_dropped := gp_dropped g + 1\<rparr>) (rc_gaps r)\<rparr>, None))"

text \<open>The admission time: a reversal of the clock by one quantum is levelled, a larger one is kept.\<close>

definition admission_ms :: "ms option \<Rightarrow> ms \<Rightarrow> ms" where
  "admission_ms last_offered observed =
     (case last_offered of
        Some l \<Rightarrow> if 0 < l - observed \<and> l - observed \<le> 1 then l else observed
      | None \<Rightarrow> observed)"

record market_envelope =
  en_source :: string
  en_symbol :: string
  en_event :: ms
  en_text :: string
  en_receipt :: ms
  en_complete :: bool

definition row_of :: "ms \<Rightarrow> market_envelope \<Rightarrow> row" where
  "row_of receipt e =
     \<lparr>rw_source = en_source e, rw_symbol = en_symbol e, rw_event = en_event e, rw_receipt = receipt,
      rw_complete = en_complete e, rw_payload = Text (en_text e),
      rw_observed = (if receipt \<noteq> en_receipt e then Some (en_receipt e) else None)\<rparr>"

definition admit :: "ms \<Rightarrow> row \<Rightarrow> bool \<Rightarrow> recorder \<Rightarrow> recorder" where
  "admit now w adjusted r =
     r\<lparr>rc_queue := rc_queue r @ [w], rc_last_offered := Some (rw_receipt w),
       rc_adjustments := rc_adjustments r + (if adjusted then 1 else 0),
       rc_pending := rc_pending r + row_size w,
       rc_high_watermark := max (rc_high_watermark r) (length (rc_queue r) + 1),
       rc_enqueued := count_rate now 1 (rc_enqueued r)\<rparr>"

definition overflow_reason :: string where
  "overflow_reason = ''recording queue overflow; collection continuity lost''"

definition offer :: "ms \<Rightarrow> market_envelope \<Rightarrow> recorder \<Rightarrow> recorder \<times> (py_error + bool)" where
  "offer now e r =
     (let receipt = admission_ms (rc_last_offered r) (en_receipt e);
          optional = (en_symbol e \<notin> set (rc_critical r) \<and> \<not> contains ''control/'' (en_source e));
          w = row_of receipt e
      in if pressure r \<ge> 7 / 10 \<and> optional then
           (case note_gap (en_source e) (en_symbol e) receipt ''RECORDER_BACKPRESSURE''
                   (r\<lparr>rc_status := RECORDER_BACKPRESSURE\<rparr>) of
              (r1, Some x) \<Rightarrow> (r1, Inl x)
            | (r1, None) \<Rightarrow> (r1, Inr False))
         else if rc_pending r + row_size w > rc_byte_limit r
                 \<or> (rc_maxsize r > 0 \<and> length (rc_queue r) \<ge> rc_maxsize r) then
           (case note_gap (en_source e) (en_symbol e) receipt ''RECORDER_BACKPRESSURE''
                   (r\<lparr>rc_overflow := rc_overflow r + 1, rc_last_error := receipt, rc_healthy := False,
                      rc_status := RECORDER_BACKPRESSURE\<rparr>) of
              (r1, Some x) \<Rightarrow> (r1, Inl x)
            | (r1, None) \<Rightarrow> (r1, Inl (RuntimeErr overflow_reason)))
         else (admit now w (receipt \<noteq> en_receipt e) r, Inr True))"

text \<open>
  \<^verbatim>\<open>wait_for_capacity\<close>: the polls it makes, each with the elapsed time and the recorder
  it then sees. None means that it is still waiting after the polls given.
\<close>

fun capacity_polls :: "dec \<Rightarrow> (dec \<times> recorder) list \<Rightarrow> (py_error + unit) option" where
  "capacity_polls timeout [] = None"
| "capacity_polls timeout ((elapsed, r) # polls) =
     (if pressure r < 1 / 2 then Some (Inr ())
      else if \<not> rc_healthy r then Some (Inl (RuntimeErr ''Recording unavailable''))
      else if elapsed \<ge> timeout
      then Some (Inl (RuntimeErr ''Recorder capacity did not recover within the feed buffer budget''))
      else capacity_polls timeout polls)"

definition wait_for_capacity :: "dec \<Rightarrow> recorder \<Rightarrow> (dec \<times> recorder) list \<Rightarrow> (py_error + unit) option" where
  "wait_for_capacity timeout r polls =
     (if \<not> rc_healthy r then Some (Inl (RuntimeErr ''Recording unavailable''))
      else if pressure r < 1 / 2 then Some (Inr ())
      else capacity_polls timeout polls)"

subsection \<open>The writer loop\<close>

text \<open>Filling the batch from the queue, up to the rows of a segment.\<close>

definition collect :: "recorder \<Rightarrow> recorder" where
  "collect r =
     (let n = rc_segment_rows r - length (rc_batch r); got = take n (rc_queue r) in
      r\<lparr>rc_queue := drop n (rc_queue r), rc_batch := rc_batch r @ got,
        rc_batch_bytes := rc_batch_bytes r + sum_list (map row_size got)\<rparr>)"

definition flush_due :: "bool \<Rightarrow> recorder \<Rightarrow> bool" where
  "flush_due elapsed r \<longleftrightarrow>
     length (rc_batch r) \<ge> rc_segment_rows r \<or> 2 * rc_pending r \<ge> rc_byte_limit r \<or> elapsed \<or> \<not> rc_running r"

definition gap_row :: "row \<Rightarrow> (string \<times> string) \<times> gap \<Rightarrow> row" where
  "gap_row w = (\<lambda>((venue, symbol), g).
     \<lparr>rw_source = ''native/'' @ venue @ ''/control/gap'', rw_symbol = symbol, rw_event = rw_event w,
      rw_receipt = rw_receipt w, rw_complete = False, rw_payload = GapNote g, rw_observed = None\<rparr>)"

text \<open>Each control row copies the times of the row before it, so all copy those of the last envelope.\<close>

definition start_write :: "recorder \<Rightarrow> recorder" where
  "start_write r =
     (case rc_batch_id r of
        Some _ \<Rightarrow> r\<lparr>rc_writing := True\<rparr>
      | None \<Rightarrow> r\<lparr>rc_batch := rc_batch r @ map (gap_row (last (rc_batch r))) (rc_gaps r), rc_gaps := [],
                 rc_batch_id := Some (rc_next_id r), rc_next_id := rc_next_id r + 1, rc_writing := True\<rparr>)"

definition writer_pass :: "bool \<Rightarrow> recorder \<Rightarrow> recorder" where
  "writer_pass elapsed r =
     (if rc_writing r \<or> rc_stopped r \<or> \<not> (rc_running r \<or> rc_queue r \<noteq> [] \<or> rc_batch r \<noteq> []) then r
      else
        let r1 = collect r in
        if rc_batch r1 \<noteq> [] \<and> flush_due elapsed r1 then start_write r1 else r1)"

text \<open>
  What becomes of a write: acknowledged; committed by the worker, but the acknowledgement is lost
  (the worker stalls or dies after its commit); or failed without a commit. The worker's
  \<^verbatim>\<open>_flush\<close> returns at once when the identifier is already published.
\<close>

datatype write_answer = Acknowledged | CommittedUnacknowledged | Failed bool

definition commit :: "nat \<Rightarrow> row list \<Rightarrow> (nat \<times> row list) list \<Rightarrow> (nat \<times> row list) list" where
  "commit i batch segments = (if i \<in> fst ` set segments then segments else segments @ [(i, batch)])"

definition publish :: "recorder \<Rightarrow> recorder" where
  "publish r =
     (case rc_batch_id r of None \<Rightarrow> r
      | Some i \<Rightarrow> r\<lparr>rc_segments := commit i (rc_batch r) (rc_segments r)\<rparr>)"

definition write_acknowledged :: "recorder \<Rightarrow> recorder" where
  "write_acknowledged r =
     r\<lparr>rc_written := rc_written r + length (rc_batch r), rc_batch_id := None,
       rc_pending := max 0 (rc_pending r - rc_batch_bytes r), rc_batch := [], rc_batch_bytes := 0,
       rc_healthy := True, rc_writing := False,
       rc_status := (if 10 * length (rc_queue r) < 3 * rc_maxsize r then NORMAL else RECORDER_PRESSURE)\<rparr>"

definition write_failed :: "bool \<Rightarrow> ms \<Rightarrow> recorder \<Rightarrow> recorder" where
  "write_failed budget now r =
     r\<lparr>rc_healthy := False, rc_last_error := now, rc_retries := rc_retries r + 1, rc_writing := False,
       rc_status := (if budget then STORAGE_BACKPRESSURE else RECORDER_RECOVERY),
       rc_stopped := \<not> rc_running r\<rparr>"

definition retry_delay :: "nat \<Rightarrow> nat" where
  "retry_delay retries = min 30 (2 ^ min retries 5)"

definition write_result :: "write_answer \<Rightarrow> ms \<Rightarrow> recorder \<Rightarrow> recorder" where
  "write_result a now r =
     (if \<not> rc_writing r then r
      else case a of
        Acknowledged \<Rightarrow> write_acknowledged (publish r)
      | CommittedUnacknowledged \<Rightarrow> write_failed False now (publish r)
      | Failed budget \<Rightarrow> write_failed budget now r)"

datatype rec_event = Offer ms market_envelope | Pass bool | WriteAnswer write_answer ms | Shutdown

fun rec_step :: "rec_event \<Rightarrow> recorder \<Rightarrow> recorder" where
  "rec_step (Offer now e) r = fst (offer now e r)"
| "rec_step (Pass elapsed) r = writer_pass elapsed r"
| "rec_step (WriteAnswer a now) r = write_result a now r"
| "rec_step Shutdown r = r\<lparr>rc_running := False\<rparr>"

subsection \<open>The history of a recorder\<close>

text \<open>
  The abstract view adds the envelopes admitted so far, in order, and the number of drops whose
  source text could not be taken apart.
\<close>

definition is_text :: "row \<Rightarrow> bool" where
  "is_text w \<longleftrightarrow> (case rw_payload w of Text _ \<Rightarrow> True | GapNote _ \<Rightarrow> False)"

definition noted :: "row list \<Rightarrow> nat" where
  "noted ws = sum_list (map (\<lambda>w. case rw_payload w of Text _ \<Rightarrow> 0 | GapNote g \<Rightarrow> gp_dropped g) ws)"

definition gaps_total :: "('k \<times> gap) list \<Rightarrow> nat" where
  "gaps_total gs = sum_list (map (gp_dropped \<circ> snd) gs)"

definition published :: "recorder \<Rightarrow> row list" where
  "published r = concat (map snd (rc_segments r))"

definition unreadable :: "string \<Rightarrow> nat" where
  "unreadable source = (case market_source source of Inl _ \<Rightarrow> 1 | Inr _ \<Rightarrow> 0)"

fun abs_rec :: "rec_event \<Rightarrow> recorder \<times> row list \<times> nat \<Rightarrow> recorder \<times> row list \<times> nat" where
  "abs_rec (Offer now e) (r, hist, bad) =
     (case offer now e r of
        (r', Inr True) \<Rightarrow> (r', hist @ [last (rc_queue r')], bad)
      | (r', _) \<Rightarrow> (r', hist, bad + unreadable (en_source e)))"
| "abs_rec ev (r, hist, bad) = (rec_step ev r, hist, bad)"

definition rec_inv :: "recorder \<times> row list \<times> nat \<Rightarrow> bool" where
  "rec_inv = (\<lambda>(r, hist, bad).
     filter is_text (published r) @ filter is_text (rc_batch r) @ rc_queue r = hist
     \<and> (\<forall>w \<in> set (rc_queue r). is_text w)
     \<and> rc_batch_bytes r = sum_list (map row_size (filter is_text (rc_batch r)))
     \<and> rc_pending r = rc_batch_bytes r + sum_list (map row_size (rc_queue r))
     \<and> rc_pending r \<le> rc_byte_limit r \<and> 0 < rc_maxsize r \<and> length (rc_queue r) \<le> rc_maxsize r
     \<and> (\<forall>i \<in> fst ` set (rc_segments r). i < rc_next_id r)
     \<and> (\<forall>i. rc_batch_id r = Some i \<longrightarrow> i < rc_next_id r \<and> i \<notin> fst ` set (rc_segments r))
     \<and> (rc_writing r \<longrightarrow> rc_batch_id r \<noteq> None)
     \<and> rc_dropped r = gaps_total (rc_gaps r) + noted (rc_batch r) + noted (published r) + bad)"

definition reliable :: "rec_event \<Rightarrow> bool" where
  "reliable ev \<longleftrightarrow> (case ev of WriteAnswer a _ \<Rightarrow> a \<noteq> CommittedUnacknowledged | _ \<Rightarrow> True)"

lemma row_size_pos: "0 < row_size w"
  by (auto simp: row_size_def split: payload.split)

lemma noted_simps [simp]: "noted [] = 0" "noted (xs @ ys) = noted xs + noted ys"
  by (simp_all add: noted_def)

lemma noted_text: "\<forall>w \<in> set ws. is_text w \<Longrightarrow> noted ws = 0"
  by (induction ws) (auto simp: noted_def is_text_def split: payload.splits)

lemma noted_gap_rows: "noted (map (gap_row w) gs) = gaps_total gs"
  by (induction gs) (auto simp: noted_def gaps_total_def gap_row_def)

lemma gap_rows_no_text: "filter is_text (map (gap_row w) gs) = []"
  by (induction gs) (auto simp: is_text_def gap_row_def)

lemma gaps_total_update:
  "gaps_total (AList.update k g gs) + (case map_of gs k of None \<Rightarrow> 0 | Some h \<Rightarrow> gp_dropped h)
     = gaps_total gs + gp_dropped g"
  by (induction gs) (auto simp: gaps_total_def)

lemma row_of_text [simp]: "is_text (row_of t e)"
  by (simp add: is_text_def row_of_def)

text \<open>A dropped envelope is counted, in the gap of its market unless its source is unreadable.\<close>

lemma note_gap_frame:
  assumes "note_gap src sy t why r = (r', res)"
  shows "rc_queue r' = rc_queue r" "rc_batch r' = rc_batch r" "rc_segments r' = rc_segments r"
    "rc_pending r' = rc_pending r" "rc_batch_bytes r' = rc_batch_bytes r" "rc_byte_limit r' = rc_byte_limit r"
    "rc_maxsize r' = rc_maxsize r" "rc_batch_id r' = rc_batch_id r" "rc_next_id r' = rc_next_id r"
    "rc_writing r' = rc_writing r"
  using assms by (auto simp: note_gap_def Let_def split: sum.splits)

lemma note_gap_counts:
  assumes "note_gap src sy t why r = (r', res)"
  shows "rc_dropped r' = rc_dropped r + 1 \<and> gaps_total (rc_gaps r') + unreadable src = gaps_total (rc_gaps r) + 1"
proof (cases "market_source src")
  case (Inl e)
  then show ?thesis using assms by (auto simp: note_gap_def unreadable_def)
next
  case (Inr vt)
  obtain venue topic where vt: "vt = (venue, topic)" by fastforce
  define old where "old = (case map_of (rc_gaps r) (venue, sy) of Some g \<Rightarrow> g
    | None \<Rightarrow> \<lparr>gp_start = t, gp_end = t, gp_reason = why, gp_source = venue, gp_dropped = 0\<rparr>)"
  define new where "new = old\<lparr>gp_end := t, gp_dropped := gp_dropped old + 1\<rparr>"
  have r': "rc_gaps r' = AList.update (venue, sy) new (rc_gaps r)" "rc_dropped r' = rc_dropped r + 1"
    using assms Inr vt by (auto simp: note_gap_def Let_def new_def old_def)
  have "(case map_of (rc_gaps r) (venue, sy) of None \<Rightarrow> 0 | Some h \<Rightarrow> gp_dropped h) = gp_dropped old"
    by (simp add: old_def split: option.split)
  then have "gaps_total (rc_gaps r') + gp_dropped old = gaps_total (rc_gaps r) + gp_dropped new"
    using gaps_total_update [of "(venue, sy)" new "rc_gaps r"] r' by simp
  then show ?thesis using r' Inr by (simp add: unreadable_def new_def)
qed

text \<open>The steps keep the invariant.\<close>

lemma offer_cases:
  obtains (admitted) w where "is_text w" "offer now e r = (admit now w (rw_receipt w \<noteq> en_receipt e) r, Inr True)"
      "rc_pending r + row_size w \<le> rc_byte_limit r" "rc_maxsize r = 0 \<or> length (rc_queue r) < rc_maxsize r"
  | (dropped) r1 t r' res x where "offer now e r = (r', res)" "res \<noteq> Inr True"
      "note_gap (en_source e) (en_symbol e) t ''RECORDER_BACKPRESSURE'' r1 = (r', x)"
      "r1 = r\<lparr>rc_status := RECORDER_BACKPRESSURE\<rparr>
       \<or> r1 = r\<lparr>rc_overflow := rc_overflow r + 1, rc_last_error := t, rc_healthy := False,
                 rc_status := RECORDER_BACKPRESSURE\<rparr>"
proof -
  define t where "t = admission_ms (rc_last_offered r) (en_receipt e)"
  define w where "w = row_of t e"
  define r1 where "r1 = r\<lparr>rc_status := RECORDER_BACKPRESSURE\<rparr>"
  define r2 where "r2 = r\<lparr>rc_overflow := rc_overflow r + 1, rc_last_error := t, rc_healthy := False,
                 rc_status := RECORDER_BACKPRESSURE\<rparr>"
  let ?opt = "en_symbol e \<notin> set (rc_critical r) \<and> \<not> contains ''control/'' (en_source e)"
  let ?full = "rc_pending r + row_size w > rc_byte_limit r
      \<or> (rc_maxsize r > 0 \<and> length (rc_queue r) \<ge> rc_maxsize r)"
  obtain g1 x1 where g1: "note_gap (en_source e) (en_symbol e) t ''RECORDER_BACKPRESSURE'' r1 = (g1, x1)" by fastforce
  obtain g2 x2 where g2: "note_gap (en_source e) (en_symbol e) t ''RECORDER_BACKPRESSURE'' r2 = (g2, x2)" by fastforce
  have o: "offer now e r =
     (if pressure r \<ge> 7 / 10 \<and> ?opt then (case x1 of Some x \<Rightarrow> (g1, Inl x) | None \<Rightarrow> (g1, Inr False))
      else if ?full then (case x2 of Some x \<Rightarrow> (g2, Inl x) | None \<Rightarrow> (g2, Inl (RuntimeErr overflow_reason)))
      else (admit now w (t \<noteq> en_receipt e) r, Inr True))"
    unfolding offer_def Let_def t_def [symmetric] w_def [symmetric] r1_def [symmetric] r2_def [symmetric]
      g1 g2 prod.case ..
  consider (a) "pressure r \<ge> 7 / 10 \<and> ?opt" | (b) "\<not> (pressure r \<ge> 7 / 10 \<and> ?opt)" ?full
    | (c) "\<not> (pressure r \<ge> 7 / 10 \<and> ?opt)" "\<not> ?full" by blast
  then show thesis
  proof cases
    case a
    then have "offer now e r = (g1, case x1 of Some x \<Rightarrow> Inl x | None \<Rightarrow> Inr False)"
      unfolding o if_P [OF a] by (cases x1) simp_all
    then show thesis by (rule dropped [OF _ _ g1]) (simp_all add: r1_def split: option.split)
  next
    case b
    then have "offer now e r = (g2, case x2 of Some x \<Rightarrow> Inl x | None \<Rightarrow> Inl (RuntimeErr overflow_reason))"
      unfolding o if_not_P [OF b(1)] if_P [OF b(2)] by (cases x2) simp_all
    then show thesis by (rule dropped [OF _ _ g2]) (simp_all add: r2_def split: option.split)
  next
    case c
    then have "offer now e r = (admit now w (rw_receipt w \<noteq> en_receipt e) r, Inr True)"
      unfolding o if_not_P [OF c(1)] if_not_P [OF c(2)] by (simp add: w_def row_of_def)
    then show thesis by (rule admitted [rotated]) (use c in \<open>auto simp: w_def\<close>)
  qed
qed

lemma abs_offer_inv:
  assumes "rec_inv (r, hist, bad)"
  shows "rec_inv (abs_rec (Offer now e) (r, hist, bad))"
proof (cases rule: offer_cases [of now e r])
  case (admitted w)
  have eq: "abs_rec (Offer now e) (r, hist, bad) = (admit now w (rw_receipt w \<noteq> en_receipt e) r, hist @ [w], bad)"
    using admitted(2) by (simp add: admit_def)
  show ?thesis
    unfolding eq using assms admitted(1,3,4) by (auto simp: rec_inv_def admit_def published_def)
next
  case (dropped r1 t r' res x)
  have eq: "abs_rec (Offer now e) (r, hist, bad) = (r', hist, bad + unreadable (en_source e))"
    using dropped(1,2) by (auto split: sum.splits bool.splits)
  have r1: "rc_queue r1 = rc_queue r" "rc_batch r1 = rc_batch r" "rc_segments r1 = rc_segments r"
    "rc_pending r1 = rc_pending r" "rc_batch_bytes r1 = rc_batch_bytes r" "rc_byte_limit r1 = rc_byte_limit r"
    "rc_maxsize r1 = rc_maxsize r" "rc_batch_id r1 = rc_batch_id r" "rc_next_id r1 = rc_next_id r"
    "rc_writing r1 = rc_writing r" "rc_gaps r1 = rc_gaps r" "rc_dropped r1 = rc_dropped r"
    using dropped(4) by auto
  show ?thesis
    unfolding eq using assms note_gap_counts [OF dropped(3)]
    by (simp add: rec_inv_def published_def note_gap_frame [OF dropped(3)] r1)
qed

lemma abs_pass_inv:
  assumes "rec_inv (r, hist, bad)"
  shows "rec_inv (writer_pass elapsed r, hist, bad)"
proof (cases "rc_writing r \<or> rc_stopped r \<or> \<not> (rc_running r \<or> rc_queue r \<noteq> [] \<or> rc_batch r \<noteq> [])")
  case True
  then show ?thesis using assms by (simp add: writer_pass_def)
next
  case False
  define n where "n = rc_segment_rows r - length (rc_batch r)"
  have split: "take n (rc_queue r) @ drop n (rc_queue r) = rc_queue r" by simp
  have tx: "\<forall>w \<in> set (take n (rc_queue r)). is_text w" "\<forall>w \<in> set (drop n (rc_queue r)). is_text w"
    using assms by (auto simp: rec_inv_def dest: in_set_takeD in_set_dropD)
  have f: "filter is_text (take n (rc_queue r)) = take n (rc_queue r)" using tx(1) by (simp add: filter_id_conv)
  have sizes: "sum_list (map row_size (take n (rc_queue r))) + sum_list (map row_size (drop n (rc_queue r)))
      = sum_list (map row_size (rc_queue r))"
    by (metis split map_append sum_list_append)
  have c: "rec_inv (collect r, hist, bad)" and w: "\<not> rc_writing (collect r)"
    using assms tx f sizes noted_text [OF tx(1)] False
    by (auto simp: rec_inv_def collect_def Let_def n_def [symmetric] published_def)
  show ?thesis
  proof (cases "rc_batch (collect r) \<noteq> [] \<and> flush_due elapsed (collect r)")
    case nodue: False
    have "writer_pass elapsed r = collect r" using False nodue by (auto simp: writer_pass_def Let_def)
    with c show ?thesis by simp
  next
    case due: True
    have p: "writer_pass elapsed r = start_write (collect r)" using False due by (auto simp: writer_pass_def Let_def)
    have "rec_inv (start_write (collect r), hist, bad)"
    proof (cases "rc_batch_id (collect r)")
      case None
      then show ?thesis using c
        by (auto simp: start_write_def rec_inv_def published_def noted_gap_rows gap_rows_no_text gaps_total_def
            intro: less_SucI)
    next
      case (Some i)
      then show ?thesis using c by (simp add: start_write_def rec_inv_def published_def)
    qed
    then show ?thesis unfolding p .
  qed
qed

lemma abs_answer_inv:
  assumes inv: "rec_inv (r, hist, bad)" and ok: "a \<noteq> CommittedUnacknowledged"
  shows "rec_inv (write_result a now r, hist, bad)"
proof (cases "rc_writing r")
  case False
  then show ?thesis using inv by (simp add: write_result_def)
next
  case True
  with inv obtain i where i: "rc_batch_id r = Some i" "i < rc_next_id r" "i \<notin> fst ` set (rc_segments r)"
    by (auto simp: rec_inv_def)
  show ?thesis
  proof (cases a)
    case Acknowledged
    have seg: "rc_segments (publish r) = rc_segments r @ [(i, rc_batch r)]"
      using i by (simp add: publish_def commit_def)
    have frame: "rc_queue (publish r) = rc_queue r" "rc_batch (publish r) = rc_batch r" "rc_pending (publish r) = rc_pending r"
      "rc_batch_bytes (publish r) = rc_batch_bytes r" "rc_byte_limit (publish r) = rc_byte_limit r"
      "rc_maxsize (publish r) = rc_maxsize r" "rc_next_id (publish r) = rc_next_id r" "rc_gaps (publish r) = rc_gaps r"
      "rc_dropped (publish r) = rc_dropped r"
      using i by (simp_all add: publish_def)
    have "0 \<le> sum_list (map row_size (rc_queue r))"
      by (rule sum_list_nonneg) (use row_size_pos in \<open>fastforce intro: order.strict_implies_order\<close>)
    moreover have "0 \<le> rc_batch_bytes r"
      using inv by (auto simp: rec_inv_def intro!: sum_list_nonneg order.strict_implies_order [OF row_size_pos])
    ultimately show ?thesis
      using inv i True Acknowledged
      by (auto simp: write_result_def write_acknowledged_def rec_inv_def published_def seg frame)
  next
    case CommittedUnacknowledged
    with ok show ?thesis by simp
  next
    case (Failed budget)
    then show ?thesis using inv True by (simp add: write_result_def write_failed_def rec_inv_def published_def)
  qed
qed

lemma abs_rec_inv: "rec_inv s \<Longrightarrow> reliable ev \<Longrightarrow> rec_inv (abs_rec ev s)"
proof -
  assume inv: "rec_inv s" and ok: "reliable ev"
  obtain r hist bad where s: "s = (r, hist, bad)" by (cases s)
  show "rec_inv (abs_rec ev s)"
  proof (cases ev)
    case (Offer now e)
    with abs_offer_inv inv s show ?thesis by simp
  next
    case (Pass elapsed)
    with abs_pass_inv inv s show ?thesis by simp
  next
    case (WriteAnswer a now)
    with abs_answer_inv [of r hist bad a now] inv ok s show ?thesis by (simp add: reliable_def)
  next
    case Shutdown
    then show ?thesis using inv s by (simp add: rec_inv_def published_def)
  qed
qed

interpretation rec_machine: guarded_invariant abs_rec rec_inv reliable
  by unfold_locales (rule abs_rec_inv)

lemma abs_rec_fst: "fst (abs_rec ev s) = rec_step ev (fst s)"
  by (cases s; cases ev) (auto split: prod.split sum.split bool.split)

lemma abs_rec_run: "fst (fold abs_rec evs s) = fold rec_step evs (fst s)"
  by (induction evs arbitrary: s) (simp_all add: abs_rec_fst)

lemma rec_inv_new: "0 < maxsize \<Longrightarrow> 0 \<le> limit \<Longrightarrow> rec_inv (recorder_new maxsize limit rows, [], 0)"
  by (simp add: rec_inv_def recorder_new_def published_def gaps_total_def)


definition sample_envelope :: "string \<Rightarrow> ms \<Rightarrow> market_envelope" where
  "sample_envelope text at_ms =
     \<lparr>en_source = ''ws/publicTrade.BTCUSDT'', en_symbol = ''BTCUSDT'', en_event = at_ms, en_text = text,
      en_receipt = at_ms, en_complete = True\<rparr>"

abbreviation sample_retry :: "rec_event list" where
  "sample_retry \<equiv> [Offer 1 (sample_envelope ''a'' 1), Pass True, WriteAnswer (Failed False) 2,
     Offer 3 (sample_envelope ''b'' 3), Pass True, WriteAnswer Acknowledged 4]"


text \<open>
  Without that condition rows are lost: when a write commits but
  its acknowledgement does not arrive, the retained batch is filled further under the same
  identifier, and the retry is skipped by the worker as already published. The recorder then
  reports itself healthy with nothing queued, counts every row as written and no drop, and yet an
  admitted envelope is in no segment.
\<close>

theorem unacknowledged_commit_loses_rows:
  "\<exists>evs. let (r, hist, bad) = fold abs_rec evs (recorder_new 100 100000 100, [], 0) in
     rc_healthy r \<and> rc_queue r = [] \<and> rc_batch r = [] \<and> rc_written r = length hist \<and> rc_dropped r = 0
     \<and> \<not> set hist \<subseteq> set (published r)"
  by (rule exI [of _ "[Offer 1 (sample_envelope ''a'' 1), Pass True, WriteAnswer CommittedUnacknowledged 2,
      Offer 3 (sample_envelope ''b'' 3), Pass True, WriteAnswer Acknowledged 4]"]) code_simp

end
