(* ===== verification/RecordedCoverage.thy ===== *)
theory RecordedCoverage imports Recorder begin

text \<open>
  What the published segments prove about a market, \<^verbatim>\<open>update_coverage\<close> and
  \<^verbatim>\<open>eligibility\<close> of \<^verbatim>\<open>src/bybit_flow/ml/coverage.py\<close>. The state is
  a dictionary of markets; its keys \<^verbatim>\<open>venue:symbol\<close> are pairs here. Of a payload only
  the parts the code inspects are kept.
\<close>

record print_row =
  pr_source :: string
  pr_symbol :: string
  pr_receipt :: ms
  pr_complete :: bool
  pr_symbols :: "string list"
  pr_removed :: "string list"
  pr_block :: "bool list"

record market =
  mk_subscribed :: bool
  mk_subscription_start :: "ms option"
  mk_last_trade :: "ms option"
  mk_coverage_start :: "ms option"

type_synonym market_key = "string \<times> string"

record coverage_state =
  cs_receipt :: ms
  cs_markets :: "market_key \<Rightarrow> market option"
  cs_stale :: "ms option"

definition coverage_new :: coverage_state where
  "coverage_new = \<lparr>cs_receipt = -1, cs_markets = Map.empty, cs_stale = None\<rparr>"

subsection \<open>One row\<close>

definition subscribes :: "market_key \<Rightarrow> string \<Rightarrow> string \<Rightarrow> print_row \<Rightarrow> bool" where
  "subscribes k venue topic r \<longleftrightarrow>
     topic = ''control/subscribed'' \<and> pr_complete r \<and> fst k = venue \<and> snd k \<in> set (pr_symbols r)"

definition removes :: "market_key \<Rightarrow> string \<Rightarrow> string \<Rightarrow> print_row \<Rightarrow> bool" where
  "removes k venue topic r \<longleftrightarrow>
     topic = ''control/rotation'' \<and> fst k = venue \<and> snd k \<in> set (pr_removed r)"

definition gap_hits :: "market_key \<Rightarrow> string \<Rightarrow> string \<Rightarrow> print_row \<Rightarrow> bool" where
  "gap_hits k venue topic r \<longleftrightarrow>
     (topic = ''control/gap'' \<or> \<not> pr_complete r)
     \<and> (pr_source r = ''control/gap'' \<or> fst k = venue) \<and> (pr_symbol r = ''ALL'' \<or> pr_symbol r = snd k)"

definition print_topic :: "string \<Rightarrow> bool" where
  "print_topic topic \<longleftrightarrow> take 15 topic = ''ws/publicTrade.''"

definition prints :: "market_key \<Rightarrow> string \<Rightarrow> string \<Rightarrow> print_row \<Rightarrow> bool" where
  "prints k venue topic r \<longleftrightarrow>
     print_topic topic \<and> pr_complete r \<and> k = (venue, pr_symbol r) \<and> False \<in> set (pr_block r)"

definition note_print :: "ms \<Rightarrow> ms \<Rightarrow> market option \<Rightarrow> market" where
  "note_print stale at_ms old =
     (let m = (case old of Some m \<Rightarrow> m
               | None \<Rightarrow> \<lparr>mk_subscribed = False, mk_subscription_start = None, mk_last_trade = None,
                          mk_coverage_start = None\<rparr>);
          fresh_start = (case mk_last_trade m of None \<Rightarrow> True | Some l \<Rightarrow> at_ms - l > stale)
      in m\<lparr>mk_last_trade := Some at_ms,
           mk_coverage_start := (if fresh_start then Some at_ms else mk_coverage_start m)\<rparr>)"

text \<open>The branches of the loop body after the clock check, for one market.\<close>

definition market_after ::
    "ms \<Rightarrow> string \<Rightarrow> string \<Rightarrow> print_row \<Rightarrow> market_key \<Rightarrow> market option \<Rightarrow> market option" where
  "market_after stale venue topic r k old =
     (let m1 = (if subscribes k venue topic r
                then Some \<lparr>mk_subscribed = True, mk_subscription_start = Some (pr_receipt r),
                           mk_last_trade = None, mk_coverage_start = None\<rparr> else old);
          m2 = (if removes k venue topic r then None else m1)
      in if topic = ''control/source_change'' then None
         else if topic = ''control/gap'' \<or> \<not> pr_complete r then (if gap_hits k venue topic r then None else m2)
         else if prints k venue topic r then Some (note_print stale (pr_receipt r) m2)
         else m2)"

definition cover_row :: "ms \<Rightarrow> print_row \<Rightarrow> coverage_state \<Rightarrow> py_error + coverage_state" where
  "cover_row stale r st =
     (case market_source (pr_source r) of
        Inl e \<Rightarrow> Inl e
      | Inr (venue, topic) \<Rightarrow>
          let known = (if pr_receipt r < cs_receipt st then Map.empty else cs_markets st) in
          Inr (st\<lparr>cs_receipt := pr_receipt r,
                 cs_markets := (\<lambda>k. market_after stale venue topic r k (known k))\<rparr>))"

fun update_coverage :: "ms \<Rightarrow> print_row list \<Rightarrow> coverage_state \<Rightarrow> py_error + coverage_state" where
  "update_coverage stale [] st = Inr (st\<lparr>cs_stale := Some stale\<rparr>)"
| "update_coverage stale (r # rs) st =
     (case cover_row stale r st of Inl e \<Rightarrow> Inl e | Inr st' \<Rightarrow> update_coverage stale rs st')"

subsection \<open>Eligibility\<close>

record eligibility =
  el_eligible :: bool
  el_reason :: string
  el_predecision :: ms
  el_last :: "ms option"
  el_subscription :: "ms option"

definition eligibility :: "coverage_state \<Rightarrow> market_key \<Rightarrow> ms \<Rightarrow> ms \<Rightarrow> eligibility" where
  "eligibility st k decision stale =
     (let stale = (case cs_stale st of None \<Rightarrow> stale | Some s \<Rightarrow> s);
          m = cs_markets st k;
          subscribed = (case m of None \<Rightarrow> False | Some m \<Rightarrow> mk_subscribed m);
          last_ms = (case m of None \<Rightarrow> None | Some m \<Rightarrow> mk_last_trade m);
          start = (case m of None \<Rightarrow> None | Some m \<Rightarrow> mk_coverage_start m);
          ready = (case (start, last_ms) of
                     (Some s, Some l) \<Rightarrow> subscribed \<and> 0 \<le> decision - l \<and> decision - l \<le> stale \<and> s \<le> decision
                   | _ \<Rightarrow> False)
      in \<lparr>el_eligible = ready,
          el_reason = (if ready then ''COMMITTED_PRINTS_READY''
                       else if \<not> subscribed then ''SUBSCRIPTION_NOT_READY'' else ''PREDECISION_COVERAGE_MISSING''),
          el_predecision = (case start of None \<Rightarrow> 0 | Some s \<Rightarrow> max 0 (decision - s)),
          el_last = last_ms,
          el_subscription = (case m of None \<Rightarrow> None | Some m \<Rightarrow> mk_subscription_start m)\<rparr>)"

subsection \<open>What the rows say\<close>

text \<open>A row that ends what is known of a market, or starts it anew.\<close>

definition interrupts :: "market_key \<Rightarrow> print_row \<Rightarrow> bool" where
  "interrupts k r \<longleftrightarrow>
     (case market_source (pr_source r) of Inl _ \<Rightarrow> True
      | Inr (venue, topic) \<Rightarrow> topic = ''control/source_change'' \<or> subscribes k venue topic r
          \<or> removes k venue topic r \<or> gap_hits k venue topic r)"

definition prints_of :: "market_key \<Rightarrow> print_row \<Rightarrow> bool" where
  "prints_of k r \<longleftrightarrow>
     (case market_source (pr_source r) of Inl _ \<Rightarrow> False | Inr (venue, topic) \<Rightarrow> prints k venue topic r)"

definition subscribed_by :: "market_key \<Rightarrow> print_row \<Rightarrow> bool" where
  "subscribed_by k r \<longleftrightarrow>
     (case market_source (pr_source r) of Inl _ \<Rightarrow> False | Inr (venue, topic) \<Rightarrow> subscribes k venue topic r)"

definition uninterrupted :: "market_key \<Rightarrow> print_row list \<Rightarrow> bool" where
  "uninterrupted k rs \<longleftrightarrow> (\<forall>r \<in> set rs. \<not> interrupts k r) \<and> sorted (map pr_receipt rs)"

definition covered :: "ms \<Rightarrow> market_key \<Rightarrow> ms \<Rightarrow> ms \<Rightarrow> print_row list \<Rightarrow> bool" where
  "covered stale k start stop rs \<longleftrightarrow>
     (let ts = map pr_receipt (filter (prints_of k) rs) in
      uninterrupted k rs \<and> ts \<noteq> [] \<and> hd ts = start \<and> last ts = stop
      \<and> successively (\<lambda>a b. b - a \<le> stale) ts)"

definition market_inv :: "ms \<Rightarrow> market_key \<Rightarrow> print_row list \<Rightarrow> market option \<Rightarrow> bool" where
  "market_inv stale k hist m \<longleftrightarrow>
     (case m of None \<Rightarrow> True
      | Some m \<Rightarrow>
          (mk_coverage_start m = None \<longleftrightarrow> mk_last_trade m = None)
          \<and> (\<forall>c l. mk_coverage_start m = Some c \<and> mk_last_trade m = Some l \<longrightarrow>
               (\<exists>before after. hist = before @ after \<and> covered stale k c l after))
          \<and> (mk_subscribed m \<longrightarrow> (\<exists>before r after. hist = before @ r # after \<and> subscribed_by k r
               \<and> uninterrupted k after \<and> sorted (map pr_receipt (r # after)))))"

lemma print_topic_distinct [simp]:
  "\<not> print_topic ''control/subscribed''" "\<not> print_topic ''control/rotation''" "\<not> print_topic ''control/source_change''"
  "\<not> print_topic ''control/gap''"
  by (simp_all add: print_topic_def)

lemma sorted_map_snoc:
  fixes f :: "'a \<Rightarrow> ms"
  shows "sorted (map f xs) \<Longrightarrow> (xs \<noteq> [] \<Longrightarrow> f (last xs) \<le> f x) \<Longrightarrow> sorted (map f (xs @ [x]))"
proof -
  assume s: "sorted (map f xs)" and l: "xs \<noteq> [] \<Longrightarrow> f (last xs) \<le> f x"
  have "f y \<le> f x" if y: "y \<in> set xs" for y
  proof -
    from y have xs: "xs = butlast xs @ [last xs]" by (cases xs rule: rev_cases) auto
    have "y = last xs \<or> y \<in> set (butlast xs)" using y by (cases xs rule: rev_cases) auto
    then have "f y \<le> f (last xs)" using s by (subst (asm) xs) (auto simp: sorted_append)
    then show ?thesis using l y by fastforce
  qed
  then show ?thesis using s by (simp add: sorted_append)
qed

lemma uninterrupted_snoc:
  assumes "uninterrupted k rs" "\<not> interrupts k r" "rs \<noteq> [] \<Longrightarrow> pr_receipt (last rs) \<le> pr_receipt r"
  shows "uninterrupted k (rs @ [r])"
  using assms sorted_map_snoc [of pr_receipt rs r] by (simp add: uninterrupted_def)

lemma covered_snoc:
  assumes cov: "covered stale k c l rs" and ok: "\<not> interrupts k r" "pr_receipt (last rs) \<le> pr_receipt r"
  shows "\<not> prints_of k r \<Longrightarrow> covered stale k c l (rs @ [r])"
    "prints_of k r \<Longrightarrow> pr_receipt r - l \<le> stale \<Longrightarrow> covered stale k c (pr_receipt r) (rs @ [r])"
proof -
  define ts where "ts = map pr_receipt (filter (prints_of k) rs)"
  have c: "uninterrupted k rs" "ts \<noteq> []" "hd ts = c" "last ts = l" "successively (\<lambda>a b. b - a \<le> stale) ts"
    using cov unfolding covered_def Let_def ts_def by blast+
  have u: "uninterrupted k (rs @ [r])" by (rule uninterrupted_snoc) (use c ok in blast)+
  show "covered stale k c l (rs @ [r])" if "\<not> prints_of k r"
    using c u that by (simp add: covered_def Let_def ts_def)
  show "covered stale k c (pr_receipt r) (rs @ [r])" if "prints_of k r" "pr_receipt r - l \<le> stale"
  proof -
    have t: "map pr_receipt (filter (prints_of k) (rs @ [r])) = ts @ [pr_receipt r]" using that by (simp add: ts_def)
    have "successively (\<lambda>a b. b - a \<le> stale) (ts @ [pr_receipt r])"
      using c that(2) by (simp add: successively_append_iff)
    moreover have "hd (ts @ [pr_receipt r]) = c" using c by simp
    ultimately show ?thesis unfolding covered_def Let_def t using u by simp
  qed
qed

lemma covered_single: "\<not> interrupts k r \<Longrightarrow> prints_of k r \<Longrightarrow> covered stale k (pr_receipt r) (pr_receipt r) [r]"
  by (simp add: covered_def uninterrupted_def)

lemma prints_not_interrupts: "prints_of k r \<Longrightarrow> \<not> interrupts k r"
  by (auto simp: prints_of_def interrupts_def prints_def subscribes_def removes_def gap_hits_def split: sum.splits)

lemma subscribed_interrupts: "subscribed_by k r \<Longrightarrow> interrupts k r"
  by (auto simp: subscribed_by_def interrupts_def split: sum.splits)

text \<open>The branches again, by what the row means for the market.\<close>

lemma market_after_cases:
  assumes src: "market_source (pr_source r) = Inr (venue, topic)"
  shows "prints_of k r \<Longrightarrow> market_after stale venue topic r k old = Some (note_print stale (pr_receipt r) old)"
    "\<not> interrupts k r \<Longrightarrow> \<not> prints_of k r \<Longrightarrow> market_after stale venue topic r k old = old"
    "interrupts k r \<Longrightarrow> \<not> subscribed_by k r \<Longrightarrow> market_after stale venue topic r k old = None"
    "subscribed_by k r \<Longrightarrow> market_after stale venue topic r k old
       = Some \<lparr>mk_subscribed = True, mk_subscription_start = Some (pr_receipt r), mk_last_trade = None,
               mk_coverage_start = None\<rparr>"
proof -
  show "market_after stale venue topic r k old = Some (note_print stale (pr_receipt r) old)" if p: "prints_of k r"
  proof -
    from p src have p: "prints k venue topic r" by (simp add: prints_of_def)
    then have t: "print_topic topic" "pr_complete r" by (simp_all add: prints_def)
    then have "topic \<noteq> ''control/subscribed''" "topic \<noteq> ''control/rotation''" "topic \<noteq> ''control/source_change''"
      "topic \<noteq> ''control/gap''" using print_topic_distinct by metis+
    with p t show ?thesis by (simp add: market_after_def subscribes_def removes_def)
  qed
  show "market_after stale venue topic r k old = old" if q: "\<not> interrupts k r" and p: "\<not> prints_of k r"
  proof -
    from q src have q: "topic \<noteq> ''control/source_change''" "\<not> subscribes k venue topic r" "\<not> removes k venue topic r"
      "\<not> gap_hits k venue topic r" by (simp_all add: interrupts_def)
    from p src have "\<not> prints k venue topic r" by (simp add: prints_of_def)
    with q show ?thesis by (simp add: market_after_def)
  qed
  show "market_after stale venue topic r k old = None" if i: "interrupts k r" and s: "\<not> subscribed_by k r"
  proof -
    from s src have s: "\<not> subscribes k venue topic r" by (simp add: subscribed_by_def)
    from i s src consider "topic = ''control/source_change''" | "removes k venue topic r" | "gap_hits k venue topic r"
      by (auto simp: interrupts_def)
    then show ?thesis
    proof cases
      case 2
      then have "topic = ''control/rotation''" by (simp add: removes_def)
      then have "\<not> prints k venue topic r" by (simp add: prints_def)
      with 2 s show ?thesis by (simp add: market_after_def)
    next
      case 3
      then have "topic = ''control/gap'' \<or> \<not> pr_complete r" by (simp add: gap_hits_def)
      with 3 show ?thesis by (simp add: market_after_def)
    qed (simp add: market_after_def)
  qed
  show "market_after stale venue topic r k old
       = Some \<lparr>mk_subscribed = True, mk_subscription_start = Some (pr_receipt r), mk_last_trade = None,
               mk_coverage_start = None\<rparr>" if s: "subscribed_by k r"
  proof -
    from s src have s: "subscribes k venue topic r" by (simp add: subscribed_by_def)
    then have t: "topic = ''control/subscribed''" "pr_complete r" by (simp_all add: subscribes_def)
    then have "\<not> prints k venue topic r" "\<not> removes k venue topic r" by (simp_all add: prints_def removes_def)
    with s t show ?thesis by (simp add: market_after_def)
  qed
qed

lemma market_inv_print:
  assumes inv: "market_inv stale k hist old" and p: "prints_of k r"
    and mono: "old \<noteq> None \<Longrightarrow> hist \<noteq> [] \<Longrightarrow> pr_receipt (last hist) \<le> pr_receipt r"
  shows "market_inv stale k (hist @ [r]) (Some (note_print stale (pr_receipt r) old))"
proof -
  note q = prints_not_interrupts [OF p]
  define m where "m = (case old of Some m \<Rightarrow> m
     | None \<Rightarrow> \<lparr>mk_subscribed = False, mk_subscription_start = None, mk_last_trade = None, mk_coverage_start = None\<rparr>)"
  define fresh_start where "fresh_start = (case mk_last_trade m of None \<Rightarrow> True | Some l \<Rightarrow> pr_receipt r - l > stale)"
  have np: "note_print stale (pr_receipt r) old = m\<lparr>mk_last_trade := Some (pr_receipt r),
      mk_coverage_start := (if fresh_start then Some (pr_receipt r) else mk_coverage_start m)\<rparr>"
    unfolding note_print_def Let_def m_def fresh_start_def by (rule refl)
  have sub: "\<exists>before s after. hist @ [r] = before @ s # after \<and> subscribed_by k s \<and> uninterrupted k after
      \<and> sorted (map pr_receipt (s # after))" if ms: "mk_subscribed m"
  proof -
    from ms obtain before s after where h: "hist = before @ s # after" "subscribed_by k s" "uninterrupted k after"
        "sorted (map pr_receipt (s # after))" "old \<noteq> None"
      using inv by (auto simp: m_def market_inv_def split: option.splits)
    then have le: "pr_receipt (last (s # after)) \<le> pr_receipt r" using mono by simp
    have "sorted (map pr_receipt ((s # after) @ [r]))" by (rule sorted_map_snoc [OF h(4) le])
    moreover have "uninterrupted k (after @ [r])"
      by (rule uninterrupted_snoc [OF h(3) q]) (use le in simp)
    ultimately show ?thesis using h(1,2) by (intro exI [of _ before] exI [of _ s] exI [of _ "after @ [r]"]) simp
  qed
  have cov: "\<exists>before after. hist @ [r] = before @ after
      \<and> covered stale k (if fresh_start then pr_receipt r else the (mk_coverage_start m)) (pr_receipt r) after"
  proof (cases fresh_start)
    case True
    then show ?thesis using covered_single [OF q p] by auto
  next
    case False
    then obtain l where l: "mk_last_trade m = Some l" "pr_receipt r - l \<le> stale"
      by (auto simp: fresh_start_def split: option.splits)
    then have old: "old = Some m" by (auto simp: m_def split: option.splits)
    with inv l obtain c before after where h: "mk_coverage_start m = Some c" "hist = before @ after" "covered stale k c l after"
      by (auto simp: market_inv_def)
    have ne: "after \<noteq> []" using h(3) by (auto simp: covered_def)
    then have "pr_receipt (last after) \<le> pr_receipt r" using mono old h(2) by simp
    from covered_snoc(2) [OF h(3) q this p l(2)] show ?thesis
      using False h(1,2) by (intro exI [of _ before] exI [of _ "after @ [r]"]) simp
  qed
  have "fresh_start \<or> mk_coverage_start m \<noteq> None"
    using inv by (auto simp: fresh_start_def m_def market_inv_def split: option.splits)
  then obtain c where c: "(if fresh_start then Some (pr_receipt r) else mk_coverage_start m) = Some c"
    and "c = (if fresh_start then pr_receipt r else the (mk_coverage_start m))" by (cases fresh_start) auto
  with cov have cov: "\<exists>before after. hist @ [r] = before @ after \<and> covered stale k c (pr_receipt r) after" by simp
  define m' where "m' = m\<lparr>mk_last_trade := Some (pr_receipt r), mk_coverage_start := Some c\<rparr>"
  have m': "mk_last_trade m' = Some (pr_receipt r)" "mk_coverage_start m' = Some c" "mk_subscribed m' = mk_subscribed m"
    by (simp_all add: m'_def)
  show ?thesis
    unfolding np c m'_def [symmetric] market_inv_def option.case m' using cov sub by blast
qed

lemma market_inv_quiet:
  assumes inv: "market_inv stale k hist old" and q: "\<not> interrupts k r" and p: "\<not> prints_of k r"
    and mono: "old \<noteq> None \<Longrightarrow> hist \<noteq> [] \<Longrightarrow> pr_receipt (last hist) \<le> pr_receipt r"
  shows "market_inv stale k (hist @ [r]) old"
proof (cases old)
  case None
  then show ?thesis by (simp add: market_inv_def)
next
  case (Some m)
  note le = mono [unfolded Some, simplified]
  have cov: "\<exists>before after. hist @ [r] = before @ after \<and> covered stale k c l after"
    if "mk_coverage_start m = Some c" "mk_last_trade m = Some l" for c l
  proof -
    from inv Some that obtain before after where h: "hist = before @ after" "covered stale k c l after"
      by (auto simp: market_inv_def)
    have "after \<noteq> []" using h(2) by (auto simp: covered_def)
    then have "pr_receipt (last after) \<le> pr_receipt r" using le h(1) by simp
    from covered_snoc(1) [OF h(2) q this p] h(1) show ?thesis
      by (intro exI [of _ before] exI [of _ "after @ [r]"]) simp
  qed
  have sub: "\<exists>before s after. hist @ [r] = before @ s # after \<and> subscribed_by k s \<and> uninterrupted k after
      \<and> sorted (map pr_receipt (s # after))" if "mk_subscribed m"
  proof -
    from that obtain before s after where h: "hist = before @ s # after" "subscribed_by k s" "uninterrupted k after"
        "sorted (map pr_receipt (s # after))"
      using inv Some by (auto simp: market_inv_def)
    then have r: "pr_receipt (last (s # after)) \<le> pr_receipt r" using le by simp
    have "sorted (map pr_receipt ((s # after) @ [r]))" by (rule sorted_map_snoc [OF h(4) r])
    moreover have "uninterrupted k (after @ [r])"
      by (rule uninterrupted_snoc [OF h(3) q]) (use r in simp)
    ultimately show ?thesis using h(1,2) by (intro exI [of _ before] exI [of _ s] exI [of _ "after @ [r]"]) simp
  qed
  show ?thesis using inv Some cov sub by (auto simp: market_inv_def)
qed

lemma market_inv_step:
  assumes inv: "market_inv stale k hist old" and src: "market_source (pr_source r) = Inr (venue, topic)"
    and mono: "old \<noteq> None \<Longrightarrow> hist \<noteq> [] \<Longrightarrow> pr_receipt (last hist) \<le> pr_receipt r"
  shows "market_inv stale k (hist @ [r]) (market_after stale venue topic r k old)"
proof -
  consider (p) "prints_of k r" | (q) "\<not> interrupts k r" "\<not> prints_of k r"
    | (i) "interrupts k r" "\<not> subscribed_by k r" | (s) "subscribed_by k r" by blast
  then show ?thesis
  proof cases
    case p
    then show ?thesis unfolding market_after_cases(1) [OF src p] using market_inv_print [OF inv p mono] by blast
  next
    case q
    then show ?thesis unfolding market_after_cases(2) [OF src q] using market_inv_quiet [OF inv q mono] by blast
  next
    case i
    then show ?thesis unfolding market_after_cases(3) [OF src i] by (simp add: market_inv_def)
  next
    case s
    have "uninterrupted k []" by (simp add: uninterrupted_def)
    with s have "\<exists>before x after. hist @ [r] = before @ x # after \<and> subscribed_by k x \<and> uninterrupted k after
        \<and> sorted (map pr_receipt (x # after))"
      by (intro exI [of _ hist] exI [of _ r] exI [of _ "[]"]) simp
    then show ?thesis unfolding market_after_cases(4) [OF src s] by (simp add: market_inv_def)
  qed
qed

definition cov_inv :: "ms \<Rightarrow> print_row list \<Rightarrow> coverage_state \<Rightarrow> bool" where
  "cov_inv stale hist st \<longleftrightarrow>
     (hist \<noteq> [] \<longrightarrow> cs_receipt st = pr_receipt (last hist)) \<and> (\<forall>k. market_inv stale k hist (cs_markets st k))"

lemma cover_row_inv:
  assumes inv: "cov_inv stale hist st" and ok: "cover_row stale r st = Inr st'"
  shows "cov_inv stale (hist @ [r]) st'"
proof -
  obtain venue topic where src: "market_source (pr_source r) = Inr (venue, topic)"
    using ok by (auto simp: cover_row_def split: sum.splits)
  define known where "known = (if pr_receipt r < cs_receipt st then Map.empty else cs_markets st)"
  have st': "st' = st\<lparr>cs_receipt := pr_receipt r, cs_markets := (\<lambda>k. market_after stale venue topic r k (known k))\<rparr>"
    using ok by (simp add: cover_row_def src known_def)
  have "market_inv stale k (hist @ [r]) (market_after stale venue topic r k (known k))" for k
  proof (rule market_inv_step [OF _ src])
    have "market_inv stale k hist (cs_markets st k)" using inv unfolding cov_inv_def by blast
    then show "market_inv stale k hist (known k)" by (cases "pr_receipt r < cs_receipt st") (simp_all add: known_def market_inv_def)
    show "known k \<noteq> None \<Longrightarrow> hist \<noteq> [] \<Longrightarrow> pr_receipt (last hist) \<le> pr_receipt r"
      using inv by (auto simp: known_def cov_inv_def split: if_splits)
  qed
  then show ?thesis by (simp add: st' cov_inv_def)
qed

lemma update_coverage_inv:
  "cov_inv stale hist st \<Longrightarrow> update_coverage stale rows st = Inr st' \<Longrightarrow>
   cov_inv stale (hist @ rows) st' \<and> cs_stale st' = Some stale"
proof (induction rows arbitrary: st hist)
  case Nil
  then show ?case by (auto simp: cov_inv_def)
next
  case (Cons r rows)
  from Cons.prems(2) obtain st1 where st1: "cover_row stale r st = Inr st1" "update_coverage stale rows st1 = Inr st'"
    by (auto split: sum.splits)
  from Cons.IH [OF cover_row_inv [OF Cons.prems(1) st1(1)] st1(2)] show ?case by simp
qed

text \<open>
  A market is eligible at a decision only if the published rows hold a
  subscription to it, followed by no gap, rotation, source change or clock reversal, and a chain of
  non-block prints inside that stretch which begins at the reported coverage start, has no pause
  longer than the staleness limit, and reaches within that limit of the decision.
\<close>

theorem eligibility_is_evidenced:
  assumes "update_coverage stale rows coverage_new = Inr st" and "el_eligible (eligibility st k decision fallback)"
  shows "\<exists>m c l. cs_markets st k = Some m \<and> mk_coverage_start m = Some c \<and> mk_last_trade m = Some l
    \<and> el_predecision (eligibility st k decision fallback) = decision - c \<and> decision - stale \<le> l \<and> l \<le> decision
    \<and> (\<exists>before after. rows = before @ after \<and> covered stale k c l after)
    \<and> (\<exists>before r after. rows = before @ r # after \<and> subscribed_by k r \<and> uninterrupted k after
         \<and> sorted (map pr_receipt (r # after)))"
proof -
  have "cov_inv stale [] coverage_new" by (simp add: cov_inv_def coverage_new_def market_inv_def)
  from update_coverage_inv [OF this assms(1)]
  have inv: "market_inv stale k rows (cs_markets st k)" and stale: "cs_stale st = Some stale"
    unfolding cov_inv_def by (simp_all del: split_paired_All)
  from assms(2) stale obtain m c l where m: "cs_markets st k = Some m" "mk_coverage_start m = Some c"
      "mk_last_trade m = Some l" "mk_subscribed m" "0 \<le> decision - l" "decision - l \<le> stale" "c \<le> decision"
    by (auto simp: eligibility_def Let_def split: option.splits)
  have "el_predecision (eligibility st k decision fallback) = decision - c"
    using m by (simp add: eligibility_def Let_def)
  moreover have "\<exists>before after. rows = before @ after \<and> covered stale k c l after"
    and "\<exists>before r after. rows = before @ r # after \<and> subscribed_by k r \<and> uninterrupted k after
         \<and> sorted (map pr_receipt (r # after))"
    using inv m by (simp_all add: market_inv_def)
  ultimately show ?thesis using m(1-3,5,6) by (intro exI [of _ m] exI [of _ c] exI [of _ l]) simp
qed

definition sample_prints :: "print_row list" where
  "sample_prints =
     [\<lparr>pr_source = ''control/subscribed'', pr_symbol = ''ALL'', pr_receipt = 10, pr_complete = True,
       pr_symbols = [''BTCUSDT''], pr_removed = [], pr_block = []\<rparr>,
      \<lparr>pr_source = ''ws/publicTrade.BTCUSDT'', pr_symbol = ''BTCUSDT'', pr_receipt = 20, pr_complete = True,
       pr_symbols = [], pr_removed = [], pr_block = [True, False]\<rparr>]"

lemma eligibility_is_evidenced_witness:
  "\<exists>st. update_coverage 5000 sample_prints coverage_new = Inr st
    \<and> (\<exists>before after c l. sample_prints = before @ after \<and> covered 5000 (''bybit'', ''BTCUSDT'') c l after)"
proof -
  have "case update_coverage 5000 sample_prints coverage_new of Inl _ \<Rightarrow> False
      | Inr st \<Rightarrow> el_eligible (eligibility st (''bybit'', ''BTCUSDT'') 30 5000)" by code_simp
  then obtain st where st: "update_coverage 5000 sample_prints coverage_new = Inr st"
    "el_eligible (eligibility st (''bybit'', ''BTCUSDT'') 30 5000)"
    by (auto split: sum.splits)
  from eligibility_is_evidenced [OF st] st(1) show ?thesis by blast
qed

end
