(* ===== verification/Risk.thy ===== *)
theory Risk imports Impact begin

text \<open>
  The risk gate, \<^verbatim>\<open>src/bybit_flow/risk.py\<close>: the round-trip cost reserve
  \<^verbatim>\<open>execution_cost\<close> and \<^verbatim>\<open>evaluate_risk\<close>, which sizes a plan on
  its stop and refuses it with reasons. The report keeps every computed number; the constant
  explanation texts are left out. Signals carry finite floats (\<^verbatim>\<open>allow_inf_nan=False\<close>),
  so the finiteness test of the code holds for every rational and is not repeated.
\<close>

record risk_settings =
  rs_taker_fee_bps :: dec
  rs_slippage_bps :: dec
  rs_funding_reserve_bps :: dec
  rs_min_net_rr :: dec
  rs_leverage :: dec
  rs_maintenance :: dec
  rs_liq_multiple :: dec
  rs_equity :: "dec option"
  rs_risk_fraction :: dec
  rs_daily_loss_limit :: dec
  rs_weekly_loss_limit :: dec
  rs_correlated_limit :: dec
  rs_hypothetical_notional :: dec
  rs_max_spread_bps :: dec

record instrument =
  in_qty_step :: dec
  in_min_qty :: dec
  in_max_qty :: dec
  in_min_notional :: dec
  in_max_leverage :: dec
  in_funding_interval :: int

record portfolio =
  pf_daily_loss :: "dec option"
  pf_weekly_loss :: "dec option"
  pf_positions :: "dec list"

subsection \<open>The cost reserve\<close>

record cost_reserve =
  xc_cost :: dec
  xc_fee :: dec
  xc_slippage :: dec
  xc_funding :: dec
  xc_spread_added :: dec
  xc_residual :: "dec option"
  xc_extra :: dec

definition execution_cost :: "dec \<Rightarrow> dec \<Rightarrow> dec \<Rightarrow> dec \<Rightarrow> dec \<Rightarrow> dec \<Rightarrow> dec option \<Rightarrow> cost_reserve" where
  "execution_cost entry stop target fee_bps slippage_bps funding_bps residual =
     (let cost = fee_bps / 10000 * (entry + max stop target)
            + entry * (2 * slippage_bps + funding_bps) / 10000;
          extra = (case residual of None \<Rightarrow> 0 | Some x \<Rightarrow> max 0 (x - entry * slippage_bps / 10000))
      in \<lparr>xc_cost = cost + extra,
          xc_fee = fee_bps / 10000 * (entry + max stop target),
          xc_slippage = entry * 2 * slippage_bps / 10000 + extra,
          xc_funding = entry * funding_bps / 10000,
          xc_spread_added = 0, xc_residual = residual, xc_extra = extra\<rparr>)"

subsection \<open>The report\<close>

record risk_report =
  rk_gross_rr :: dec
  rk_net_rr :: dec
  rk_cost :: dec
  rk_funding_bps :: dec
  rk_leverage :: dec
  rk_stress_distance :: dec
  rk_quantity :: "dec option"
  rk_notional :: dec
  rk_margin :: "dec option"
  rk_estimated_loss :: "dec option"
  rk_budget :: "dec option"
  rk_estimated_cost :: "dec option"
  rk_impact :: "impact_quote option"
  rk_reasons :: "string list"
  rk_components :: "cost_reserve option"

datatype risk_verdict = UndefinedPlan | Assessed risk_report

fun risk_accepted :: "risk_verdict \<Rightarrow> bool" where
  "risk_accepted UndefinedPlan = False"
| "risk_accepted (Assessed r) = (rk_reasons r = [])"

definition settlements :: "instrument \<Rightarrow> signal \<Rightarrow> int" where
  "settlements ins s =
     \<lceil>(of_int (sg_expected_hold_max s) :: dec) / of_int (max 1 (in_funding_interval ins))\<rceil>"

definition funding_bps :: "risk_settings \<Rightarrow> instrument \<Rightarrow> dec option \<Rightarrow> signal \<Rightarrow> dec" where
  "funding_bps rs ins rate s =
     max (rs_funding_reserve_bps rs)
       (case rate of None \<Rightarrow> 0 | Some r \<Rightarrow> \<bar>r\<bar> * 10000 * of_int (settlements ins s))"

definition plan_loss :: "signal \<Rightarrow> dec" where
  "plan_loss s = sign_of (sg_direction s) * (sg_entry s - sg_stop s)"

definition plan_reward :: "signal \<Rightarrow> dec" where
  "plan_reward s = sign_of (sg_direction s) * (sg_tp1 s - sg_entry s)"

definition cost_per_base :: "risk_settings \<Rightarrow> instrument \<Rightarrow> dec option \<Rightarrow> signal \<Rightarrow> dec" where
  "cost_per_base rs ins rate s =
     rs_taker_fee_bps rs / 10000 * (sg_entry s + max (sg_stop s) (sg_tp1 s))
     + sg_entry s * (2 * rs_slippage_bps rs + funding_bps rs ins rate s) / 10000"

text \<open>\<^verbatim>\<open>(Decimal(x) / step).to_integral_value(ROUND_FLOOR) * step\<close>\<close>

definition floor_to_step :: "dec \<Rightarrow> dec \<Rightarrow> dec" where
  "floor_to_step step x = of_int \<lfloor>x / step\<rfloor> * step"

definition reason_if :: "bool \<Rightarrow> string \<Rightarrow> string list" where
  "reason_if b reason = (if b then [reason] else [])"

lemma reason_if_none [simp]: "reason_if b r = [] \<longleftrightarrow> \<not> b"
  by (simp add: reason_if_def)

definition portfolio_reasons :: "risk_settings \<Rightarrow> portfolio option \<Rightarrow> string list" where
  "portfolio_reasons rs pf =
     (case pf of
        None \<Rightarrow> [''equity configured but current manual portfolio snapshot missing'']
      | Some p \<Rightarrow>
          reason_if (rs_daily_loss_limit rs \<le> (case pf_daily_loss p of None \<Rightarrow> 0 | Some x \<Rightarrow> x)) ''daily loss limit''
          @ reason_if (rs_weekly_loss_limit rs \<le> (case pf_weekly_loss p of None \<Rightarrow> 0 | Some x \<Rightarrow> x)) ''weekly loss limit''
          @ reason_if (rs_correlated_limit rs < sum_list (pf_positions p) + rs_risk_fraction rs)
              ''combined correlated risk limit'')"

text \<open>The part of the report that depends on the account: quantity, notional and its refusals.\<close>

definition sized :: "risk_settings \<Rightarrow> instrument \<Rightarrow> portfolio option \<Rightarrow> signal \<Rightarrow> dec \<Rightarrow> dec \<Rightarrow> risk_report \<Rightarrow> risk_report" where
  "sized rs ins pf s cost leverage r =
     (case rs_equity rs of
        None \<Rightarrow> r\<lparr>rk_quantity := None, rk_notional := rs_hypothetical_notional rs, rk_margin := None\<rparr>
      | Some equity \<Rightarrow>
          let budget = equity * rs_risk_fraction rs;
              qty = floor_to_step (in_qty_step ins) (budget / (plan_loss s + cost));
              notional = qty * sg_entry s
          in r\<lparr>rk_quantity := Some qty, rk_notional := notional, rk_margin := Some (notional / leverage),
               rk_estimated_loss := Some (qty * (plan_loss s + cost)), rk_budget := Some budget,
               rk_estimated_cost := Some (qty * cost),
               rk_reasons := rk_reasons r
                 @ reason_if (qty < in_min_qty ins \<or> in_max_qty ins < qty \<or> notional < in_min_notional ins)
                     ''quantity outside current instrument limits''
                 @ reason_if (equity < notional / leverage + qty * cost) ''insufficient illustrative margin''
                 @ portfolio_reasons rs pf\<rparr>)"

definition impact_checked ::
    "risk_settings \<Rightarrow> book option \<Rightarrow> signal \<Rightarrow> risk_report \<Rightarrow> py_error + risk_report" where
  "impact_checked rs bk s r =
     (case (case bk of
              None \<Rightarrow> Inr None
            | Some b \<Rightarrow> if bk_valid b then impact (sg_direction s) (rk_notional r) b else Inr None) of
        Inl e \<Rightarrow> Inl e
      | Inr None \<Rightarrow> Inr (r\<lparr>rk_impact := None,
            rk_reasons := rk_reasons r @ [''insufficient executable visible depth'']\<rparr>)
      | Inr (Some iq) \<Rightarrow> Inr (r\<lparr>rk_impact := Some iq,
            rk_reasons := rk_reasons r
              @ reason_if (rs_slippage_bps rs + rs_max_spread_bps rs / 2 < iq_impact_bps iq)
                  ''estimated entry impact exceeds cost allowance''\<rparr>))"

text \<open>
  A zero entry, leverage, quantity step or a loss cancelled by a negative cost makes one of the
  divisions raise.
\<close>

definition risk_divides :: "risk_settings \<Rightarrow> instrument \<Rightarrow> dec option \<Rightarrow> signal \<Rightarrow> bool" where
  "risk_divides rs ins rate s \<longleftrightarrow>
     sg_entry s \<noteq> 0 \<and> min (rs_leverage rs) (in_max_leverage ins) \<noteq> 0
     \<and> plan_loss s + cost_per_base rs ins rate s \<noteq> 0
     \<and> (rs_equity rs = None \<or> in_qty_step ins \<noteq> 0)"

definition price_reasons :: "risk_settings \<Rightarrow> instrument \<Rightarrow> dec option \<Rightarrow> signal \<Rightarrow> string list" where
  "price_reasons rs ins rate s =
     (let cost = cost_per_base rs ins rate s;
          stress = 1 / min (rs_leverage rs) (in_max_leverage ins) - rs_maintenance rs
      in reason_if (\<not> (fst (sg_zone s) \<le> sg_entry s \<and> sg_entry s \<le> snd (sg_zone s))) ''entry outside planned zone''
         @ reason_if ((plan_reward s - cost) / (plan_loss s + cost) < rs_min_net_rr rs) ''net reward:risk below minimum''
         @ reason_if (stress \<le> rs_liq_multiple rs * (plan_loss s / sg_entry s + cost / sg_entry s))
             ''illustrative liquidation buffer inadequate'')"

definition base_report :: "risk_settings \<Rightarrow> instrument \<Rightarrow> dec option \<Rightarrow> signal \<Rightarrow> risk_report" where
  "base_report rs ins rate s =
     (let cost = cost_per_base rs ins rate s; leverage = min (rs_leverage rs) (in_max_leverage ins)
      in \<lparr>rk_gross_rr = plan_reward s / plan_loss s,
          rk_net_rr = (plan_reward s - cost) / (plan_loss s + cost), rk_cost = cost,
          rk_funding_bps = funding_bps rs ins rate s, rk_leverage = leverage,
          rk_stress_distance = 1 / leverage - rs_maintenance rs,
          rk_quantity = None, rk_notional = 0, rk_margin = None, rk_estimated_loss = None,
          rk_budget = None, rk_estimated_cost = None, rk_impact = None,
          rk_reasons = price_reasons rs ins rate s, rk_components = None\<rparr>)"

definition with_components :: "risk_settings \<Rightarrow> instrument \<Rightarrow> dec option \<Rightarrow> signal \<Rightarrow> risk_report \<Rightarrow> risk_report" where
  "with_components rs ins rate s r =
     (if ev_trade_quality (sg_evidence s) \<in> {Some ''trade-validity-v21.1'', Some ''trade-validity-v22''}
      then r\<lparr>rk_components := Some (execution_cost (sg_entry s) (sg_stop s) (sg_tp1 s)
             (rs_taker_fee_bps rs) (rs_slippage_bps rs) (funding_bps rs ins rate s) None)\<rparr>
      else r)"

definition evaluate_risk ::
    "risk_settings \<Rightarrow> instrument \<Rightarrow> book option \<Rightarrow> portfolio option \<Rightarrow> dec option \<Rightarrow> signal
     \<Rightarrow> py_error + risk_verdict" where
  "evaluate_risk rs ins bk pf rate s =
     (if plan_loss s \<le> 0 \<or> plan_reward s \<le> 0 then Inr UndefinedPlan
      else if \<not> risk_divides rs ins rate s then Inl ZeroDivision
      else
        let r = base_report rs ins rate s
        in case impact_checked rs bk s (sized rs ins pf s (rk_cost r) (rk_leverage r) r) of
             Inl e \<Rightarrow> Inl e
           | Inr r' \<Rightarrow> Inr (Assessed (with_components rs ins rate s r')))"

subsection \<open>Facts about the gate\<close>

lemma floor_to_step_bounds:
  assumes "0 < step"
  shows "floor_to_step step x \<le> x" "x < floor_to_step step x + step"
proof -
  have fl: "of_int \<lfloor>x / step\<rfloor> \<le> x / step" "x / step < of_int \<lfloor>x / step\<rfloor> + 1"
    using floor_correct [of "x / step"] by simp_all
  from mult_right_mono [OF fl(1), of step] show "floor_to_step step x \<le> x"
    using assms by (simp add: floor_to_step_def)
  from fl(2) show "x < floor_to_step step x + step"
    using assms by (simp add: floor_to_step_def pos_divide_less_eq algebra_simps)
qed

lemma sized_frame:
  "rk_cost (sized rs ins pf s c l r) = rk_cost r"
  "\<exists>more. rk_reasons (sized rs ins pf s c l r) = rk_reasons r @ more"
  by (auto simp: sized_def Let_def split: option.splits)

lemma with_components_frame [simp]:
  "rk_reasons (with_components rs ins rate s r) = rk_reasons r"
  "rk_quantity (with_components rs ins rate s r) = rk_quantity r"
  "rk_notional (with_components rs ins rate s r) = rk_notional r"
  "rk_cost (with_components rs ins rate s r) = rk_cost r"
  "rk_estimated_loss (with_components rs ins rate s r) = rk_estimated_loss r"
  "rk_impact (with_components rs ins rate s r) = rk_impact r"
  by (simp_all add: with_components_def)

lemma impact_checked_ok:
  assumes "impact_checked rs bk s r = Inr r'" and "rk_reasons r' = []"
  shows "\<exists>b iq. bk = Some b \<and> bk_valid b \<and> impact (sg_direction s) (rk_notional r) b = Inr (Some iq)
    \<and> iq_impact_bps iq \<le> rs_slippage_bps rs + rs_max_spread_bps rs / 2 \<and> rk_reasons r = []
    \<and> r' = r\<lparr>rk_impact := Some iq, rk_reasons := []\<rparr>"
  using assms by (auto simp: impact_checked_def split: option.splits sum.splits if_splits)

text \<open>What an accepted report was made of.\<close>

lemma accepted_assessed:
  assumes "evaluate_risk rs ins bk pf rate s = Inr v" and "risk_accepted v"
  shows "\<exists>r z b iq. v = Assessed r
    \<and> 0 < plan_loss s \<and> 0 < plan_reward s \<and> risk_divides rs ins rate s
    \<and> price_reasons rs ins rate s = [] \<and> bk = Some b \<and> bk_valid b
    \<and> z = sized rs ins pf s (cost_per_base rs ins rate s) (min (rs_leverage rs) (in_max_leverage ins))
        (base_report rs ins rate s)
    \<and> rk_reasons z = [] \<and> rk_quantity r = rk_quantity z \<and> rk_notional r = rk_notional z
    \<and> rk_estimated_loss r = rk_estimated_loss z \<and> rk_cost r = cost_per_base rs ins rate s
    \<and> rk_impact r = Some iq \<and> impact (sg_direction s) (rk_notional r) b = Inr (Some iq)
    \<and> iq_impact_bps iq \<le> rs_slippage_bps rs + rs_max_spread_bps rs / 2"
proof -
  let ?r = "base_report rs ins rate s"
  let ?z = "sized rs ins pf s (rk_cost ?r) (rk_leverage ?r) ?r"
  have base: "rk_cost ?r = cost_per_base rs ins rate s" "rk_leverage ?r = min (rs_leverage rs) (in_max_leverage ins)"
    "rk_reasons ?r = price_reasons rs ins rate s"
    by (simp_all add: base_report_def Let_def)
  from assms obtain r' where gates: "0 < plan_loss s" "0 < plan_reward s" "risk_divides rs ins rate s"
    and chk: "impact_checked rs bk s ?z = Inr r'" and v: "v = Assessed (with_components rs ins rate s r')"
    unfolding evaluate_risk_def Let_def by (auto split: if_splits sum.splits)
  from v assms(2) have "rk_reasons r' = []" by simp
  from impact_checked_ok [OF chk this] obtain b iq where ok: "bk = Some b" "bk_valid b"
    "impact (sg_direction s) (rk_notional ?z) b = Inr (Some iq)"
    "iq_impact_bps iq \<le> rs_slippage_bps rs + rs_max_spread_bps rs / 2" "rk_reasons ?z = []"
    "r' = ?z\<lparr>rk_impact := Some iq, rk_reasons := []\<rparr>"
    by blast
  have "price_reasons rs ins rate s = []"
    using sized_frame(2) [of rs ins pf s "rk_cost ?r" "rk_leverage ?r" ?r] ok(5) base(3) by auto
  then show ?thesis
    using gates ok v sized_frame(1) [of rs ins pf s "rk_cost ?r" "rk_leverage ?r" ?r] base(1)
    unfolding base(1,2) [symmetric] by (intro exI [of _ "with_components rs ins rate s r'"] exI [of _ ?z]) simp
qed

subsection \<open>Properties\<close>

text \<open>
  An accepted plan is entered inside its zone, pays at least
  the required multiple of its worst case after every cost, leaves a liquidation buffer beyond the
  stop, and can be filled on the visible book within the slippage allowance.
\<close>

theorem risk_gate:
  assumes "evaluate_risk rs ins bk pf rate s = Inr v" and "risk_accepted v"
    and "0 \<le> cost_per_base rs ins rate s"
  shows "fst (sg_zone s) \<le> sg_entry s \<and> sg_entry s \<le> snd (sg_zone s)
    \<and> rs_min_net_rr rs * (plan_loss s + cost_per_base rs ins rate s)
        \<le> plan_reward s - cost_per_base rs ins rate s
    \<and> rs_liq_multiple rs * (plan_loss s / sg_entry s + cost_per_base rs ins rate s / sg_entry s)
        < 1 / min (rs_leverage rs) (in_max_leverage ins) - rs_maintenance rs
    \<and> (\<exists>r b iq. v = Assessed r \<and> bk = Some b \<and> bk_valid b
        \<and> impact (sg_direction s) (rk_notional r) b = Inr (Some iq)
        \<and> iq_impact_bps iq \<le> rs_slippage_bps rs + rs_max_spread_bps rs / 2)"
proof -
  from accepted_assessed [OF assms(1,2)] obtain r b iq where
    v: "v = Assessed r" "bk = Some b" "bk_valid b" "impact (sg_direction s) (rk_notional r) b = Inr (Some iq)"
      "iq_impact_bps iq \<le> rs_slippage_bps rs + rs_max_spread_bps rs / 2"
    and p: "price_reasons rs ins rate s = []" and pos: "0 < plan_loss s"
    by blast
  from p have rr: "rs_min_net_rr rs \<le> (plan_reward s - cost_per_base rs ins rate s) / (plan_loss s + cost_per_base rs ins rate s)"
    by (simp add: price_reasons_def Let_def)
  have "0 < plan_loss s + cost_per_base rs ins rate s" using pos assms(3) by simp
  with rr have "rs_min_net_rr rs * (plan_loss s + cost_per_base rs ins rate s) \<le> plan_reward s - cost_per_base rs ins rate s"
    by (simp add: pos_le_divide_eq)
  with v p show ?thesis by (auto simp: price_reasons_def Let_def)
qed

definition sample_risk_settings :: risk_settings where
  "sample_risk_settings = \<lparr>rs_taker_fee_bps = 11 / 2, rs_slippage_bps = 100, rs_funding_reserve_bps = 3,
     rs_min_net_rr = 1, rs_leverage = 1, rs_maintenance = 1 / 100, rs_liq_multiple = 3,
     rs_equity = Some 4000, rs_risk_fraction = 1 / 400, rs_daily_loss_limit = 3 / 200,
     rs_weekly_loss_limit = 1 / 25, rs_correlated_limit = 3 / 400, rs_hypothetical_notional = 1000,
     rs_max_spread_bps = 50\<rparr>"

definition sample_instrument :: instrument where
  "sample_instrument = \<lparr>in_qty_step = 1 / 10, in_min_qty = 1 / 10, in_max_qty = 100,
     in_min_notional = 5, in_max_leverage = 50, in_funding_interval = 480\<rparr>"

definition sample_portfolio :: portfolio where
  "sample_portfolio = \<lparr>pf_daily_loss = Some (1 / 100), pf_weekly_loss = None, pf_positions = [1 / 400]\<rparr>"

abbreviation sample_risk :: "py_error + risk_verdict" where
  "sample_risk \<equiv> evaluate_risk sample_risk_settings sample_instrument (Some sample_book)
     (Some sample_portfolio) (Some (1 / 10000)) sample_signal"

lemma sample_risk_accepted: "\<exists>v. sample_risk = Inr v \<and> risk_accepted v"
proof -
  have "case sample_risk of Inr v \<Rightarrow> risk_accepted v | Inl _ \<Rightarrow> False" by code_simp
  then show ?thesis by (auto split: sum.splits)
qed

lemma sample_cost: "0 \<le> cost_per_base sample_risk_settings sample_instrument (Some (1 / 10000)) sample_signal"
  by code_simp

lemma risk_gate_witness:
  "1 * (plan_loss sample_signal
        + cost_per_base sample_risk_settings sample_instrument (Some (1 / 10000)) sample_signal)
     \<le> plan_reward sample_signal - cost_per_base sample_risk_settings sample_instrument (Some (1 / 10000)) sample_signal
   \<and> (\<exists>r iq. sample_risk = Inr (Assessed r) \<and> impact LONG (rk_notional r) sample_book = Inr (Some iq)
        \<and> iq_impact_bps iq \<le> 125)"
proof -
  obtain v where v: "sample_risk = Inr v" "risk_accepted v" using sample_risk_accepted by blast
  have s: "rs_min_net_rr sample_risk_settings = 1" "sg_direction sample_signal = LONG"
    "rs_slippage_bps sample_risk_settings + rs_max_spread_bps sample_risk_settings / 2 = 125"
    by (simp_all add: sample_risk_settings_def sample_signal_def)
  show ?thesis using risk_gate [OF v sample_cost] v(1) unfolding s by auto
qed

text \<open>
  C36: when an account is configured, an accepted quantity is a
  whole number of steps within the instrument's limits, its estimated loss at the stop with all
  costs stays within the budget while one more step would not, its margin and costs fit the equity,
  and the portfolio snapshot is present and below every loss and correlation limit.
\<close>

theorem risk_sizing:
  assumes "evaluate_risk rs ins bk pf rate s = Inr v" and "risk_accepted v"
    and "0 \<le> cost_per_base rs ins rate s" and "rs_equity rs = Some equity" and "0 < in_qty_step ins"
  shows "\<exists>r qty k p. v = Assessed r \<and> rk_quantity r = Some qty \<and> qty = of_int k * in_qty_step ins
    \<and> in_min_qty ins \<le> qty \<and> qty \<le> in_max_qty ins \<and> in_min_notional ins \<le> qty * sg_entry s
    \<and> rk_estimated_loss r = Some (qty * (plan_loss s + rk_cost r))
    \<and> qty * (plan_loss s + rk_cost r) \<le> equity * rs_risk_fraction rs
    \<and> equity * rs_risk_fraction rs < (qty + in_qty_step ins) * (plan_loss s + rk_cost r)
    \<and> qty * sg_entry s / min (rs_leverage rs) (in_max_leverage ins) + qty * rk_cost r \<le> equity
    \<and> pf = Some p \<and> (case pf_daily_loss p of None \<Rightarrow> 0 | Some x \<Rightarrow> x) < rs_daily_loss_limit rs
    \<and> (case pf_weekly_loss p of None \<Rightarrow> 0 | Some x \<Rightarrow> x) < rs_weekly_loss_limit rs
    \<and> sum_list (pf_positions p) + rs_risk_fraction rs \<le> rs_correlated_limit rs"
proof -
  let ?c = "cost_per_base rs ins rate s" and ?l = "min (rs_leverage rs) (in_max_leverage ins)"
  from accepted_assessed [OF assms(1,2)] obtain r z where
    v: "v = Assessed r" "rk_cost r = ?c" and pos: "0 < plan_loss s"
    and z: "z = sized rs ins pf s ?c ?l (base_report rs ins rate s)" "rk_reasons z = []"
      "rk_quantity r = rk_quantity z" "rk_estimated_loss r = rk_estimated_loss z"
    by blast
  define unit where "unit = plan_loss s + ?c"
  define qty where "qty = floor_to_step (in_qty_step ins) (equity * rs_risk_fraction rs / unit)"
  have u: "0 < unit" using pos assms(3) by (simp add: unit_def)
  have q: "rk_quantity r = Some qty" "rk_estimated_loss r = Some (qty * unit)"
    using z assms(4) by (simp_all add: sized_def Let_def qty_def unit_def)
  have lim: "in_min_qty ins \<le> qty" "qty \<le> in_max_qty ins" "in_min_notional ins \<le> qty * sg_entry s"
    "qty * sg_entry s / ?l + qty * ?c \<le> equity" "portfolio_reasons rs pf = []"
    using z(2) assms(4) unfolding z(1) by (auto simp: sized_def Let_def qty_def unit_def)
  from lim(5) obtain p where p: "pf = Some p" "(case pf_daily_loss p of None \<Rightarrow> 0 | Some x \<Rightarrow> x) < rs_daily_loss_limit rs"
    "(case pf_weekly_loss p of None \<Rightarrow> 0 | Some x \<Rightarrow> x) < rs_weekly_loss_limit rs"
    "sum_list (pf_positions p) + rs_risk_fraction rs \<le> rs_correlated_limit rs"
    by (cases pf) (auto simp: portfolio_reasons_def not_le)
  note fl = floor_to_step_bounds [OF assms(5), of "equity * rs_risk_fraction rs / unit", folded qty_def]
  have "qty * unit \<le> equity * rs_risk_fraction rs" using fl(1) u by (simp add: pos_le_divide_eq)
  moreover have "equity * rs_risk_fraction rs < (qty + in_qty_step ins) * unit"
    using fl(2) u by (simp add: pos_divide_less_eq)
  moreover have "\<exists>k. qty = of_int k * in_qty_step ins" unfolding qty_def floor_to_step_def by blast
  ultimately show ?thesis using v q lim p by (fastforce simp: unit_def)
qed

lemma risk_sizing_witness:
  "\<exists>r qty. sample_risk = Inr (Assessed r) \<and> rk_quantity r = Some qty
    \<and> qty * (plan_loss sample_signal + rk_cost r) \<le> 10
    \<and> 10 < (qty + 1 / 10) * (plan_loss sample_signal + rk_cost r)"
proof -
  obtain v where v: "sample_risk = Inr v" "risk_accepted v" using sample_risk_accepted by blast
  have s: "rs_equity sample_risk_settings = Some 4000" "0 < in_qty_step sample_instrument"
    "in_qty_step sample_instrument = 1 / 10" "4000 * rs_risk_fraction sample_risk_settings = 10"
    by (simp_all add: sample_risk_settings_def sample_instrument_def)
  show ?thesis using risk_sizing [OF v sample_cost s(1,2)] v(1) unfolding s by blast
qed

text \<open>
  The reserve reported on its own is the one the gate
  charges and the sum of its parts; a measured entry impact replaces the configured entry slippage
  exactly when it is larger; and the funding reserve covers every settlement that can fall into
  the longest holding time.
\<close>

theorem cost_reserve_agrees:
  "xc_cost (execution_cost (sg_entry s) (sg_stop s) (sg_tp1 s) (rs_taker_fee_bps rs) (rs_slippage_bps rs)
      (funding_bps rs ins rate s) None) = cost_per_base rs ins rate s
   \<and> xc_cost (execution_cost e st tp fee slip fund res)
      = xc_fee (execution_cost e st tp fee slip fund res) + xc_slippage (execution_cost e st tp fee slip fund res)
        + xc_funding (execution_cost e st tp fee slip fund res)
   \<and> xc_slippage (execution_cost e st tp fee slip fund res)
      = e * slip / 10000 + (case res of None \<Rightarrow> e * slip / 10000 | Some x \<Rightarrow> max (e * slip / 10000) x)
   \<and> sg_expected_hold_max s \<le> settlements ins s * max 1 (in_funding_interval ins)
   \<and> (case rate of None \<Rightarrow> 0 | Some r \<Rightarrow> \<bar>r\<bar> * 10000 * of_int (settlements ins s)) \<le> funding_bps rs ins rate s"
proof -
  let ?m = "max 1 (in_funding_interval ins)"
  have "(of_int (sg_expected_hold_max s) :: dec) / of_int ?m \<le> of_int (settlements ins s)"
    by (simp add: settlements_def)
  then have "(of_int (sg_expected_hold_max s) :: dec) \<le> of_int (settlements ins s) * of_int ?m"
    by (simp add: pos_divide_le_eq del: of_int_max)
  then have "sg_expected_hold_max s \<le> settlements ins s * ?m"
    by (simp only: of_int_mult [symmetric] of_int_le_iff)
  then show ?thesis
    by (auto simp: execution_cost_def cost_per_base_def funding_bps_def Let_def field_simps max_def split: option.split)
qed

end
