(* ===== verification/PartitionPlan.thy ===== *)
theory PartitionPlan imports Partitions "HOL-Library.List_Lexorder" "HOL-Library.Char_ord" begin

text \<open>
  The greedy partition plan (policy \<^verbatim>\<open>adaptive-causal-v1\<close>) of
  \<^verbatim>\<open>src/bybit_flow/ml/validation.py\<close>: its input checks, its three boundary sweeps
  and the holdout, with every failure as the blocker the report names. A report keeps its counts,
  boundaries and groups per part; the keys of the two dictionaries are one enumeration here.
\<close>

datatype part = Training | Calibration | Validation | Holdout

fun REQUIREMENTS :: "part \<Rightarrow> nat" where
  "REQUIREMENTS Training = 200"
| "REQUIREMENTS Calibration = 100"
| "REQUIREMENTS Validation = 100"
| "REQUIREMENTS Holdout = 100"

definition MINIMUM_TOTAL :: nat where "MINIMUM_TOTAL = 500"

record plan =
  pn_ready :: bool
  pn_policy :: string
  pn_blocker :: "string option"
  pn_total :: nat
  pn_distinct :: nat
  pn_end :: "part \<Rightarrow> dec option"
  pn_before :: "part \<Rightarrow> nat"
  pn_count :: "part \<Rightarrow> nat"
  pn_shortfall :: "part \<Rightarrow> nat"
  pn_cap :: "dec option"
  pn_probe :: "dec option"
  pn_groups :: "part \<Rightarrow> ml_row list"
  pn_fallback :: "string option"
  pn_loss :: "dec option"
  pn_candidates :: "nat option"

definition plan_new :: "nat \<Rightarrow> plan" where
  "plan_new n =
     \<lparr>pn_ready = False, pn_policy = ''adaptive-causal-v1'', pn_blocker = None, pn_total = n,
      pn_distinct = 0, pn_end = (\<lambda>_. None), pn_before = (\<lambda>_. 0), pn_count = (\<lambda>_. 0),
      pn_shortfall = REQUIREMENTS, pn_cap = None, pn_probe = None, pn_groups = (\<lambda>_. []),
      pn_fallback = None, pn_loss = None, pn_candidates = None\<rparr>"

definition plan_fail :: "string \<Rightarrow> plan \<Rightarrow> plan" where
  "plan_fail blocker p =
     p\<lparr>pn_blocker := Some blocker, pn_shortfall := (\<lambda>q. REQUIREMENTS q - pn_count p q)\<rparr>"

subsection \<open>Input checks\<close>

fun finite_float :: "pyfloat \<Rightarrow> dec option" where
  "finite_float (Fin x) = Some x"
| "finite_float _ = None"

definition row_identity :: "ml_row \<Rightarrow> string" where
  "row_identity r = (case mr_identity r of None \<Rightarrow> mr_id r | Some i \<Rightarrow> if i = [] then mr_id r else i)"

definition causal_timing :: "dec \<Rightarrow> ml_row \<Rightarrow> bool" where
  "causal_timing asof r \<longleftrightarrow>
     mr_complete r = JBool True
     \<and> num_of (mr_decision r) \<noteq> None \<and> num_of (mr_available r) \<noteq> None \<and> num_of (mr_exit r) \<noteq> None
     \<and> decision r < stamp_val (mr_exit r) \<and> stamp_val (mr_exit r) \<le> stamp_val (mr_available r)
     \<and> stamp_val (mr_available r) \<le> asof"

definition several_sources :: "ml_row list \<Rightarrow> bool" where
  "several_sources rows \<longleftrightarrow> 1 < length (remdups (List.map_filter mr_source rows))"

text \<open>\<^verbatim>\<open>sorted(rows, key=lambda row: (decision_ms, id))\<close>, by two stable sorts.\<close>

definition in_order :: "ml_row list \<Rightarrow> ml_row list" where
  "in_order rows = sort_key decision (sort_key mr_id rows)"

definition decision_times :: "ml_row list \<Rightarrow> dec list" where
  "decision_times rows = remdups (map decision rows)"

subsection \<open>The three sweeps\<close>

definition holdout_limit :: "dec option \<Rightarrow> dec \<Rightarrow> dec option" where
  "holdout_limit prev embargo = map_option (\<lambda>h. h + embargo) prev"

definition period_rows :: "dec \<Rightarrow> dec \<Rightarrow> ml_row list \<Rightarrow> ml_row list" where
  "period_rows lower upper rows = filter (\<lambda>r. lower \<le> decision r \<and> decision r < upper) rows"

definition fill_part :: "dec \<Rightarrow> ml_row list \<Rightarrow> part \<Rightarrow> dec \<Rightarrow> dec \<Rightarrow> plan \<Rightarrow> plan" where
  "fill_part embargo rows q lower upper p =
     (let before = period_rows lower upper rows;
          kept = filter (\<lambda>r. release_at embargo r < upper) before
      in p\<lparr>pn_groups := (pn_groups p)(q := kept), pn_before := (pn_before p)(q := length before),
           pn_count := (pn_count p)(q := length kept)\<rparr>)"

definition plan_stage ::
    "dec option \<Rightarrow> dec \<Rightarrow> ml_row list \<Rightarrow> dec list \<Rightarrow> dec \<Rightarrow> part \<Rightarrow> dec \<Rightarrow> plan \<Rightarrow> plan + dec \<times> plan" where
  "plan_stage prev embargo rows ts cap q lower p =
     (let limit = (if q = Validation then holdout_limit prev embargo else None);
          (boundary, probe) = earliest_boundary rows ts lower (REQUIREMENTS q) embargo cap limit;
          p1 = (case probe of None \<Rightarrow> p | Some u \<Rightarrow> fill_part embargo rows q lower u p)
      in case boundary of
           None \<Rightarrow> Inl (p1\<lparr>pn_probe := probe\<rparr>)
         | Some u \<Rightarrow> Inr (u, p1\<lparr>pn_end := (pn_end p1)(q := Some u)\<rparr>))"

fun part_name :: "part \<Rightarrow> string" where
  "part_name Training = ''training''"
| "part_name Calibration = ''calibration''"
| "part_name Validation = ''validation''"
| "part_name Holdout = ''holdout''"

fun plan_stages ::
    "dec option \<Rightarrow> dec \<Rightarrow> ml_row list \<Rightarrow> dec list \<Rightarrow> dec \<Rightarrow> part list \<Rightarrow> dec \<Rightarrow> plan \<Rightarrow> plan + dec \<times> plan" where
  "plan_stages prev embargo rows ts cap [] lower p = Inr (lower, p)"
| "plan_stages prev embargo rows ts cap (q # qs) lower p =
     (case plan_stage prev embargo rows ts cap q lower p of
        Inl p' \<Rightarrow> Inl (plan_fail (part_name q) p')
      | Inr (u, p') \<Rightarrow> plan_stages prev embargo rows ts cap qs u p')"

definition fill_holdout :: "ml_row list \<Rightarrow> dec \<Rightarrow> plan \<Rightarrow> plan" where
  "fill_holdout rows lower p =
     (let kept = filter (\<lambda>r. lower \<le> decision r) rows
      in p\<lparr>pn_groups := (pn_groups p)(Holdout := kept), pn_count := (pn_count p)(Holdout := length kept)\<rparr>)"

definition plan_ordered :: "dec option \<Rightarrow> dec \<Rightarrow> ml_row list \<Rightarrow> plan \<Rightarrow> plan" where
  "plan_ordered prev embargo rows p0 =
     (let ts = decision_times rows; p = p0\<lparr>pn_distinct := length ts\<rparr> in
      if length rows < MINIMUM_TOTAL then plan_fail ''total'' p
      else if length ts < 20 then plan_fail ''distinct_decision_times'' p
      else
        let cap = decision (rows ! (length rows - REQUIREMENTS Holdout));
            p1 = p\<lparr>pn_cap := Some cap,
                   pn_count := (pn_count p)(Holdout := length (filter (\<lambda>r. cap \<le> decision r) rows))\<rparr>
        in if \<not> beyond (holdout_limit prev embargo) cap
           then plan_fail ''holdout'' (p1\<lparr>pn_count := (pn_count p1)(Holdout :=
                  length (filter (\<lambda>r. beyond (holdout_limit prev embargo) (decision r)) rows))\<rparr>)
           else
             case plan_stages prev embargo rows ts cap [Training, Calibration, Validation] (hd ts) p1 of
               Inl p2 \<Rightarrow> p2
             | Inr (lower, p2) \<Rightarrow>
                 let p3 = fill_holdout rows lower p2 in
                 if pn_count p3 Holdout < REQUIREMENTS Holdout then plan_fail ''holdout'' p3
                 else p3\<lparr>pn_ready := True, pn_blocker := None, pn_shortfall := (\<lambda>_. 0)\<rparr>)"

definition v1_plan :: "dec \<Rightarrow> pyfloat option \<Rightarrow> pyfloat \<Rightarrow> ml_row list \<Rightarrow> plan" where
  "v1_plan asof prev embargo rows =
     (let p = plan_new (length rows) in
      if rows = [] then plan_fail ''total'' p
      else
        case finite_float embargo of
          None \<Rightarrow> plan_fail ''invalid_input'' p
        | Some e \<Rightarrow>
            if e < 0 then plan_fail ''invalid_input'' p
            else if \<not> distinct (map mr_id rows) \<or> \<not> distinct (map row_identity rows)
            then plan_fail ''duplicate_identity'' p
            else if several_sources rows then plan_fail ''source'' p
            else if (case prev of None \<Rightarrow> False | Some h \<Rightarrow> finite_float h = None)
            then plan_fail ''invalid_input'' p
            else if \<not> list_all (causal_timing asof) rows then plan_fail ''labels'' p
            else plan_ordered (Option.bind prev finite_float) e (in_order rows) p)"

subsection \<open>What a causal split is\<close>

text \<open>
  Three decision times that leave enough rows in every part: a row belongs to a part when it was
  decided in the part's period and its label, with the embargo, was due before the period's end;
  everything from the last boundary on is the unseen holdout, which lies beyond the consumed one.
\<close>

definition causal_split :: "dec option \<Rightarrow> dec \<Rightarrow> ml_row list \<Rightarrow> dec \<times> dec \<times> dec \<Rightarrow> bool" where
  "causal_split prev embargo rows = (\<lambda>(a, b, c).
     {a, b, c} \<subseteq> decision ` set rows
     \<and> REQUIREMENTS Training \<le> length (released_rows embargo (Min (decision ` set rows)) a rows)
     \<and> REQUIREMENTS Calibration \<le> length (released_rows embargo a b rows)
     \<and> REQUIREMENTS Validation \<le> length (released_rows embargo b c rows)
     \<and> REQUIREMENTS Holdout \<le> length (filter (\<lambda>r. c \<le> decision r) rows)
     \<and> beyond (holdout_limit prev embargo) c)"

lemma released_mono: "l' \<le> l \<Longrightarrow> length (released_rows e l t rows) \<le> length (released_rows e l' t rows)"
  by (induction rows) (auto simp: released_rows_def)

lemma released_nonempty: "k \<le> length (released_rows e l t rows) \<Longrightarrow> 0 < k \<Longrightarrow> l < t"
  by (cases "released_rows e l t rows") (auto simp: released_rows_def filter_eq_Cons_iff)

lemma kept_released: "filter (\<lambda>r. release_at e r < u) (period_rows l u rows) = released_rows e l u rows"
  by (simp add: period_rows_def released_rows_def filter_filter conj_assoc)

text \<open>The latest time that still leaves a full holdout.\<close>

lemma cap_iff:
  assumes "sorted (map decision rows)" "REQUIREMENTS Holdout \<le> length rows"
  shows "t \<le> decision (rows ! (length rows - REQUIREMENTS Holdout))
    \<longleftrightarrow> REQUIREMENTS Holdout \<le> length (filter (\<lambda>r. t \<le> decision r) rows)"
proof -
  let ?n = "length rows - 100" and ?k = "length (takeWhile (\<lambda>r. decision r < t) rows)"
  have f: "filter (\<lambda>r. t \<le> decision r) rows = drop ?k rows"
    unfolding dropWhile_less_sorted [OF assms(1), symmetric] by (rule dropWhile_eq_drop)
  have k: "?k \<le> length rows" by (rule length_takeWhile_le)
  have n: "?n < length rows" using assms(2) by simp
  show ?thesis
  proof
    assume t: "t \<le> decision (rows ! (length rows - REQUIREMENTS Holdout))"
    have "\<not> ?n < ?k"
    proof
      assume less: "?n < ?k"
      then have "rows ! ?n \<in> set (takeWhile (\<lambda>r. decision r < t) rows)"
        using nth_mem [OF less] takeWhile_nth [OF less] by simp
      then show False using t by (auto dest: set_takeWhileD)
    qed
    then show "REQUIREMENTS Holdout \<le> length (filter (\<lambda>r. t \<le> decision r) rows)" using f assms(2) by simp
  next
    assume "REQUIREMENTS Holdout \<le> length (filter (\<lambda>r. t \<le> decision r) rows)"
    with f k have "?k \<le> ?n" by simp
    then obtain j where j: "?n = ?k + j" using le_Suc_ex by blast
    then have "j < length (drop ?k rows)" using n by simp
    from nth_mem [OF this] have "rows ! ?n \<in> set (drop ?k rows)" using n by (simp add: j)
    then show "t \<le> decision (rows ! (length rows - REQUIREMENTS Holdout))" unfolding f [symmetric] by simp
  qed
qed

lemma find_sorted:
  "sorted (ts :: dec list) \<Longrightarrow> find P ts = Some t \<longleftrightarrow> t \<in> set ts \<and> P t \<and> (\<forall>u \<in> set ts. P u \<longrightarrow> t \<le> u)"
  by (induction ts) (auto intro: antisym)

lemma in_order_rows:
  "sorted (map decision (in_order rows))" "set (in_order rows) = set rows" "length (in_order rows) = length rows"
  "mset (in_order rows) = mset rows"
  by (simp_all add: in_order_def)

lemma decision_times_set: "set (decision_times rows) = decision ` set rows"
  by (simp add: decision_times_def)

lemma decision_times_sorted: "sorted (map decision rows) \<Longrightarrow> sorted (decision_times rows)"
  by (simp add: decision_times_def sorted_remdups)

subsection \<open>Stages\<close>

definition stage_limit :: "dec option \<Rightarrow> dec \<Rightarrow> part \<Rightarrow> dec option" where
  "stage_limit prev embargo q = (if q = Validation then holdout_limit prev embargo else None)"

text \<open>A boundary that a part's sweep may choose, and the earliest of them.\<close>

definition feasible_end :: "dec option \<Rightarrow> dec \<Rightarrow> ml_row list \<Rightarrow> dec \<Rightarrow> part \<Rightarrow> dec \<Rightarrow> dec \<Rightarrow> bool" where
  "feasible_end prev embargo rows cap q lower t \<longleftrightarrow>
     t \<in> decision ` set rows \<and> lower < t \<and> t \<le> cap
     \<and> REQUIREMENTS q \<le> length (released_rows embargo lower t rows)
     \<and> beyond (stage_limit prev embargo q) t"

definition earliest_end :: "dec option \<Rightarrow> dec \<Rightarrow> ml_row list \<Rightarrow> dec \<Rightarrow> part \<Rightarrow> dec \<Rightarrow> dec \<Rightarrow> bool" where
  "earliest_end prev embargo rows cap q lower t \<longleftrightarrow>
     feasible_end prev embargo rows cap q lower t
     \<and> (\<forall>u. feasible_end prev embargo rows cap q lower u \<longrightarrow> t \<le> u)"

definition filled :: "dec \<Rightarrow> ml_row list \<Rightarrow> part \<Rightarrow> dec \<Rightarrow> dec \<Rightarrow> plan \<Rightarrow> plan" where
  "filled embargo rows q lower u p =
     (let p1 = fill_part embargo rows q lower u p in p1\<lparr>pn_end := (pn_end p1)(q := Some u)\<rparr>)"

lemma plan_stage_outcome:
  assumes "sorted (map decision rows)"
  shows "(\<exists>p'. plan_stage prev e rows (decision_times rows) cap q l p = Inl p' \<and> pn_ready p' = pn_ready p
      \<and> (\<forall>t. \<not> feasible_end prev e rows cap q l t))
    \<or> (\<exists>u. plan_stage prev e rows (decision_times rows) cap q l p = Inr (u, filled e rows q l u p)
      \<and> earliest_end prev e rows cap q l u)"
proof -
  let ?ts = "decision_times rows" and ?lim = "stage_limit prev e q"
  let ?tried = "filter (\<lambda>t. l < t \<and> t \<le> cap) ?ts"
  let ?P = "\<lambda>t. REQUIREMENTS q \<le> length (released_rows e l t rows) \<and> beyond ?lim t"
  note ts = decision_times_sorted [OF assms]
  have tried: "sorted ?tried" using ts by (rule sorted_wrt_filter)
  have mem: "feasible_end prev e rows cap q l t \<longleftrightarrow> t \<in> set ?tried \<and> ?P t" for t
    by (auto simp: feasible_end_def decision_times_set)
  note srch = sweep_search [OF assms ts, of l "REQUIREMENTS q" e cap ?lim]
  note stage = plan_stage_def [of prev e rows ?ts cap q l p, folded stage_limit_def, unfolded Let_def]
  show ?thesis
  proof (cases "find ?P ?tried")
    case None
    then have "\<forall>t. \<not> feasible_end prev e rows cap q l t" unfolding mem by (simp add: find_None_iff)
    then show ?thesis
      by (auto simp: stage srch Let_def None fill_part_def split: option.split)
  next
    case (Some u)
    then have "earliest_end prev e rows cap q l u"
      unfolding earliest_end_def mem find_sorted [OF tried] by blast
    then show ?thesis
      by (simp add: stage srch Let_def Some filled_def)
  qed
qed

lemma feasible_end_mono:
  "feasible_end prev e rows cap q l t \<Longrightarrow> l' \<le> l \<Longrightarrow> feasible_end prev e rows cap q l' t"
  using released_mono [of l' l e t rows] by (auto simp: feasible_end_def)

definition chain :: "dec option \<Rightarrow> dec \<Rightarrow> ml_row list \<Rightarrow> dec \<Rightarrow> dec \<Rightarrow> dec \<times> dec \<times> dec \<Rightarrow> bool" where
  "chain prev e rows cap l = (\<lambda>(a, b, c). feasible_end prev e rows cap Training l a
     \<and> feasible_end prev e rows cap Calibration a b \<and> feasible_end prev e rows cap Validation b c)"

definition earliest_chain :: "dec option \<Rightarrow> dec \<Rightarrow> ml_row list \<Rightarrow> dec \<Rightarrow> dec \<Rightarrow> dec \<times> dec \<times> dec \<Rightarrow> bool" where
  "earliest_chain prev e rows cap l = (\<lambda>(a, b, c). earliest_end prev e rows cap Training l a
     \<and> earliest_end prev e rows cap Calibration a b \<and> earliest_end prev e rows cap Validation b c)"

lemma earliest_chain_least:
  assumes "earliest_chain prev e rows cap l (a, b, c)" "chain prev e rows cap l (a', b', c')"
  shows "a \<le> a' \<and> b \<le> b' \<and> c \<le> c'"
proof -
  from assms have a: "a \<le> a'" by (simp add: earliest_chain_def chain_def earliest_end_def)
  then have "feasible_end prev e rows cap Calibration a b'"
    using assms(2) by (auto simp: chain_def elim: feasible_end_mono)
  with assms(1) have b: "b \<le> b'" by (simp add: earliest_chain_def earliest_end_def)
  then have "feasible_end prev e rows cap Validation b c'"
    using assms(2) by (auto simp: chain_def elim: feasible_end_mono)
  with assms(1) a b show ?thesis by (simp add: earliest_chain_def earliest_end_def)
qed

text \<open>
  Taking the earliest boundary three times succeeds whenever any choice does: an earlier end
  leaves every later period at least as many rows.
\<close>

lemma three_stages:
  assumes "sorted (map decision rows)"
  shows "(\<exists>p'. plan_stages prev e rows (decision_times rows) cap [Training, Calibration, Validation] l p = Inl p'
      \<and> pn_ready p' = pn_ready p \<and> (\<forall>abc. \<not> chain prev e rows cap l abc))
    \<or> (\<exists>a b c. plan_stages prev e rows (decision_times rows) cap [Training, Calibration, Validation] l p
        = Inr (c, filled e rows Validation b c (filled e rows Calibration a b (filled e rows Training l a p)))
      \<and> chain prev e rows cap l (a, b, c) \<and> earliest_chain prev e rows cap l (a, b, c))"
proof (cases "\<exists>abc. chain prev e rows cap l abc")
  case True
  then obtain a' b' c' where c': "feasible_end prev e rows cap Training l a'"
    "feasible_end prev e rows cap Calibration a' b'" "feasible_end prev e rows cap Validation b' c'"
    by (auto simp: chain_def)
  note out = plan_stage_outcome [OF assms, of prev e cap]
  obtain a where a: "plan_stage prev e rows (decision_times rows) cap Training l p = Inr (a, filled e rows Training l a p)"
    "earliest_end prev e rows cap Training l a"
    using out [of Training l p] c'(1) by blast
  then have "a \<le> a'" using c'(1) by (simp add: earliest_end_def)
  then have "feasible_end prev e rows cap Calibration a b'" by (rule feasible_end_mono [OF c'(2)])
  then obtain b where b: "plan_stage prev e rows (decision_times rows) cap Calibration a (filled e rows Training l a p)
      = Inr (b, filled e rows Calibration a b (filled e rows Training l a p))"
    "earliest_end prev e rows cap Calibration a b" "b \<le> b'"
    using out [of Calibration a "filled e rows Training l a p"] by (fastforce simp: earliest_end_def)
  then have "feasible_end prev e rows cap Validation b c'" by (intro feasible_end_mono [OF c'(3)])
  then obtain c where "plan_stage prev e rows (decision_times rows) cap Validation b
      (filled e rows Calibration a b (filled e rows Training l a p))
      = Inr (c, filled e rows Validation b c (filled e rows Calibration a b (filled e rows Training l a p)))"
    "earliest_end prev e rows cap Validation b c"
    using out [of Validation b "filled e rows Calibration a b (filled e rows Training l a p)"] by blast
  then show ?thesis using a b by (auto simp: chain_def earliest_chain_def earliest_end_def)
next
  case False
  have out: "(\<exists>p'. plan_stage prev e rows (decision_times rows) cap q l p = Inl p' \<and> pn_ready p' = pn_ready p)
    \<or> (\<exists>u. plan_stage prev e rows (decision_times rows) cap q l p = Inr (u, filled e rows q l u p)
        \<and> feasible_end prev e rows cap q l u)" for q l p
    using plan_stage_outcome [OF assms, of prev e cap q l p] by (auto simp: earliest_end_def)
  have fr: "pn_ready (filled e rows q l u p) = pn_ready p" "pn_ready (plan_fail b p) = pn_ready p" for q l u p b
    by (simp_all add: filled_def fill_part_def plan_fail_def Let_def)
  have "\<exists>p'. plan_stages prev e rows (decision_times rows) cap [Training, Calibration, Validation] l p = Inl p'
      \<and> pn_ready p' = pn_ready p"
    using out [of Training l p]
  proof (elim disjE exE conjE)
    fix a assume a: "plan_stage prev e rows (decision_times rows) cap Training l p = Inr (a, filled e rows Training l a p)"
      "feasible_end prev e rows cap Training l a"
    let ?p = "filled e rows Training l a p"
    show ?thesis
      using out [of Calibration a ?p]
    proof (elim disjE exE conjE)
      fix b assume b: "plan_stage prev e rows (decision_times rows) cap Calibration a ?p = Inr (b, filled e rows Calibration a b ?p)"
        "feasible_end prev e rows cap Calibration a b"
      have "\<not> feasible_end prev e rows cap Validation b c" for c using False a(2) b(2) by (auto simp: chain_def)
      then show ?thesis using out [of Validation b "filled e rows Calibration a b ?p"] a b by (auto simp: fr)
    qed (use a in \<open>simp add: fr\<close>)
  qed (simp add: fr)
  then show ?thesis using False by blast
qed

lemma sorted_hd_Min: "sorted (ts :: dec list) \<Longrightarrow> ts \<noteq> [] \<Longrightarrow> hd ts = Min (set ts)"
  by (cases ts) (auto intro!: Min_eqI [symmetric])

lemma chain_iff_split:
  assumes "sorted (map decision rows)" "REQUIREMENTS Holdout \<le> length rows"
  shows "chain prev e rows (decision (rows ! (length rows - REQUIREMENTS Holdout))) (Min (decision ` set rows)) abc
    \<longleftrightarrow> causal_split prev e rows abc"
proof -
  obtain a b c where abc: "abc = (a, b, c)" by (cases abc)
  let ?cap = "decision (rows ! (length rows - REQUIREMENTS Holdout))"
  note cap = cap_iff [OF assms, of c]
  show ?thesis
  proof
    assume "chain prev e rows ?cap (Min (decision ` set rows)) abc"
    then show "causal_split prev e rows abc"
      using cap by (simp add: abc chain_def feasible_end_def causal_split_def stage_limit_def)
  next
    assume s: "causal_split prev e rows abc"
    then have lt: "Min (decision ` set rows) < a" "a < b" "b < c"
      by (auto simp: abc causal_split_def elim!: released_nonempty)
    moreover have "c \<le> ?cap" using s cap by (simp add: abc causal_split_def)
    ultimately show "chain prev e rows ?cap (Min (decision ` set rows)) abc"
      using s by (simp add: abc chain_def feasible_end_def causal_split_def stage_limit_def beyond_def)
  qed
qed

definition least_split :: "dec option \<Rightarrow> dec \<Rightarrow> ml_row list \<Rightarrow> dec \<times> dec \<times> dec \<Rightarrow> bool" where
  "least_split prev embargo rows = (\<lambda>(a, b, c). causal_split prev embargo rows (a, b, c)
     \<and> (\<forall>a' b' c'. causal_split prev embargo rows (a', b', c') \<longrightarrow> a \<le> a' \<and> b \<le> b' \<and> c \<le> c'))"

lemma least_is_split: "least_split prev e rows abc \<Longrightarrow> causal_split prev e rows abc"
  by (cases abc) (simp add: least_split_def)

text \<open>The contents of a plan with the given boundaries.\<close>

fun part_rows :: "dec \<Rightarrow> ml_row list \<Rightarrow> dec \<times> dec \<times> dec \<Rightarrow> part \<Rightarrow> ml_row list" where
  "part_rows e rows (a, b, c) Training = released_rows e (Min (decision ` set rows)) a rows"
| "part_rows e rows (a, b, c) Calibration = released_rows e a b rows"
| "part_rows e rows (a, b, c) Validation = released_rows e b c rows"
| "part_rows e rows (a, b, c) Holdout = filter (\<lambda>r. c \<le> decision r) rows"

fun part_end :: "dec \<times> dec \<times> dec \<Rightarrow> part \<Rightarrow> dec option" where
  "part_end (a, b, c) Training = Some a"
| "part_end (a, b, c) Calibration = Some b"
| "part_end (a, b, c) Validation = Some c"
| "part_end (a, b, c) Holdout = None"

definition carries_out :: "dec \<Rightarrow> ml_row list \<Rightarrow> dec \<times> dec \<times> dec \<Rightarrow> plan \<Rightarrow> bool" where
  "carries_out e rows abc p \<longleftrightarrow>
     pn_groups p = part_rows e rows abc \<and> pn_end p = part_end abc \<and> pn_count p = length \<circ> pn_groups p
     \<and> pn_cap p \<in> Some ` decision ` set rows \<and> pn_total p = length rows"

lemma part_all: "(\<forall>q. P q) \<longleftrightarrow> P Training \<and> P Calibration \<and> P Validation \<and> P Holdout"
  by (metis part.exhaust)

lemma filled_carries_out:
  assumes "pn_end p Holdout = None" "pn_cap p \<in> Some ` decision ` set rows" "pn_total p = length rows"
  shows "carries_out e rows (a, b, c) (fill_holdout rows c (filled e rows Validation b c
    (filled e rows Calibration a b (filled e rows Training (Min (decision ` set rows)) a p))))"
proof -
  show ?thesis
    unfolding carries_out_def fun_eq_iff part_all using assms
    by (simp add: fill_holdout_def filled_def fill_part_def kept_released Let_def)
qed

lemma part_rows_sizes:
  "causal_split prev e rows abc \<longleftrightarrow> (case abc of (a, b, c) \<Rightarrow> {a, b, c} \<subseteq> decision ` set rows
     \<and> beyond (holdout_limit prev e) c) \<and> (\<forall>q. REQUIREMENTS q \<le> length (part_rows e rows abc q))"
  by (cases abc) (auto simp: causal_split_def part_all)

lemma plan_ordered_ready:
  assumes rows: "sorted (map decision rows)" and p0: "\<not> pn_ready p0" "pn_groups p0 = (\<lambda>_. [])"
      "pn_end p0 = (\<lambda>_. None)" "pn_count p0 = (\<lambda>_. 0)" "pn_total p0 = length rows"
  shows "pn_ready (plan_ordered prev e rows p0) \<longleftrightarrow>
      MINIMUM_TOTAL \<le> length rows \<and> 20 \<le> length (decision_times rows) \<and> (\<exists>abc. causal_split prev e rows abc)"
    and "pn_ready (plan_ordered prev e rows p0) \<longrightarrow>
      (\<exists>abc. least_split prev e rows abc \<and> carries_out e rows abc (plan_ordered prev e rows p0))"
proof -
  let ?ts = "decision_times rows" and ?cap = "decision (rows ! (length rows - REQUIREMENTS Holdout))"
  let ?p = "p0\<lparr>pn_distinct := length ?ts, pn_cap := Some ?cap,
    pn_count := (pn_count p0)(Holdout := length (filter (\<lambda>r. ?cap \<le> decision r) rows))\<rparr>"
  let ?go = "plan_ordered prev e rows p0"
  have fail: "pn_ready (plan_fail b p) = pn_ready p" for b p by (simp add: plan_fail_def)
  show "pn_ready ?go \<longleftrightarrow>
      MINIMUM_TOTAL \<le> length rows \<and> 20 \<le> length ?ts \<and> (\<exists>abc. causal_split prev e rows abc)"
    and "pn_ready ?go \<longrightarrow> (\<exists>abc. least_split prev e rows abc \<and> carries_out e rows abc ?go)"
  proof (atomize (full), cases "MINIMUM_TOTAL \<le> length rows \<and> 20 \<le> length ?ts")
    case False
    then show "(pn_ready ?go \<longleftrightarrow>
        MINIMUM_TOTAL \<le> length rows \<and> 20 \<le> length ?ts \<and> (\<exists>abc. causal_split prev e rows abc))
      \<and> (pn_ready ?go \<longrightarrow> (\<exists>abc. least_split prev e rows abc \<and> carries_out e rows abc ?go))"
      using p0 by (auto simp: plan_ordered_def Let_def fail)
  next
    case True
    then have len: "REQUIREMENTS Holdout \<le> length rows" and ne: "?ts \<noteq> []" by (auto simp: MINIMUM_TOTAL_def)
    have hd: "hd ?ts = Min (decision ` set rows)"
      using sorted_hd_Min [OF decision_times_sorted [OF rows] ne] by (simp add: decision_times_set)
    note chain = chain_iff_split [OF rows len, of prev e]
    show "(pn_ready ?go \<longleftrightarrow>
        MINIMUM_TOTAL \<le> length rows \<and> 20 \<le> length ?ts \<and> (\<exists>abc. causal_split prev e rows abc))
      \<and> (pn_ready ?go \<longrightarrow> (\<exists>abc. least_split prev e rows abc \<and> carries_out e rows abc ?go))"
    proof (cases "beyond (holdout_limit prev e) ?cap")
      case False
      have "\<not> causal_split prev e rows abc" for abc
      proof
        assume "causal_split prev e rows abc"
        then have "case abc of (a, b, c) \<Rightarrow> c \<le> ?cap \<and> beyond (holdout_limit prev e) c"
          unfolding chain [symmetric] by (auto simp: chain_def feasible_end_def stage_limit_def)
        with False show False by (auto simp: beyond_def split: option.splits prod.splits)
      qed
      moreover have "\<not> pn_ready ?go"
        using False True p0 by (simp add: plan_ordered_def Let_def fail)
      ultimately show ?thesis by blast
    next
      case beyond: True
      have go: "?go = (case plan_stages prev e rows ?ts ?cap [Training, Calibration, Validation] (hd ?ts) ?p of
               Inl p2 \<Rightarrow> p2
             | Inr (lower, p2) \<Rightarrow>
                 let p3 = fill_holdout rows lower p2 in
                 if pn_count p3 Holdout < REQUIREMENTS Holdout then plan_fail ''holdout'' p3
                 else p3\<lparr>pn_ready := True, pn_blocker := None, pn_shortfall := (\<lambda>_. 0)\<rparr>)"
        using True beyond by (simp add: plan_ordered_def Let_def)
      from three_stages [OF rows, of prev e ?cap "hd ?ts" ?p] show ?thesis
      proof (elim disjE exE conjE)
        fix p' assume "plan_stages prev e rows ?ts ?cap [Training, Calibration, Validation] (hd ?ts) ?p = Inl p'"
          "pn_ready p' = pn_ready ?p" "\<forall>abc. \<not> chain prev e rows ?cap (hd ?ts) abc"
        then show ?thesis unfolding go hd chain using p0(1) by simp
      next
        fix a b c
        let ?q = "fill_holdout rows c (filled e rows Validation b c
          (filled e rows Calibration a b (filled e rows Training (hd ?ts) a ?p)))"
        assume st: "plan_stages prev e rows ?ts ?cap [Training, Calibration, Validation] (hd ?ts) ?p
            = Inr (c, filled e rows Validation b c (filled e rows Calibration a b (filled e rows Training (hd ?ts) a ?p)))"
          and ch: "chain prev e rows ?cap (hd ?ts) (a, b, c)"
          and least: "earliest_chain prev e rows ?cap (hd ?ts) (a, b, c)"
        from ch have split: "causal_split prev e rows (a, b, c)" unfolding hd chain .
        have q: "carries_out e rows (a, b, c) ?q"
          unfolding hd by (rule filled_carries_out) (use p0 len in \<open>simp_all add: nth_mem\<close>)
        then have "pn_count ?q Holdout = length (part_rows e rows (a, b, c) Holdout)"
          unfolding carries_out_def by simp
        moreover have "REQUIREMENTS Holdout \<le> length (part_rows e rows (a, b, c) Holdout)"
          using split unfolding part_rows_sizes by blast
        ultimately have "\<not> pn_count ?q Holdout < REQUIREMENTS Holdout" by linarith
        then have "?go = ?q\<lparr>pn_ready := True, pn_blocker := None, pn_shortfall := (\<lambda>_. 0)\<rparr>"
          unfolding go st by (simp add: Let_def)
        moreover from q have "carries_out e rows (a, b, c) (?q\<lparr>pn_ready := True, pn_blocker := None, pn_shortfall := (\<lambda>_. 0)\<rparr>)"
          by (simp add: carries_out_def)
        moreover have "least_split prev e rows (a, b, c)"
          using split earliest_chain_least [OF least] unfolding hd chain by (auto simp: least_split_def)
        ultimately show ?thesis using split True by auto
      qed
    qed
  qed
qed

subsection \<open>Properties\<close>

text \<open>The inputs that pass every check, with the embargo and the consumed holdout as numbers.\<close>

definition acceptable :: "dec \<Rightarrow> pyfloat option \<Rightarrow> pyfloat \<Rightarrow> ml_row list \<Rightarrow> bool" where
  "acceptable asof prev embargo rows \<longleftrightarrow>
     (case finite_float embargo of None \<Rightarrow> False | Some e \<Rightarrow> 0 \<le> e)
     \<and> (case prev of None \<Rightarrow> True | Some h \<Rightarrow> finite_float h \<noteq> None)
     \<and> distinct (map mr_id rows) \<and> distinct (map row_identity rows) \<and> \<not> several_sources rows
     \<and> list_all (causal_timing asof) rows"

definition consumed :: "pyfloat option \<Rightarrow> dec option" where
  "consumed prev = Option.bind prev finite_float"

lemma causal_split_order: "causal_split prev e (in_order rows) abc = causal_split prev e rows abc"
  by (cases abc) (simp add: causal_split_def released_rows_def length_filter_mset in_order_rows)

lemma least_split_order: "least_split prev e (in_order rows) abc = least_split prev e rows abc"
  by (simp add: least_split_def causal_split_order)

lemma length_decision_times: "length (decision_times rows) = card (decision ` set rows)"
  using length_remdups_card_conv [of "map decision rows"] by (simp add: decision_times_def)

lemma v1_plan_ready:
  assumes "acceptable asof prev embargo rows" and "finite_float embargo = Some e"
  shows "pn_ready (v1_plan asof prev embargo rows) \<longleftrightarrow>
      MINIMUM_TOTAL \<le> length rows \<and> 20 \<le> card (decision ` set rows) \<and> (\<exists>abc. causal_split (consumed prev) e rows abc)"
    and "pn_ready (v1_plan asof prev embargo rows) \<longrightarrow>
      (\<exists>abc. least_split (consumed prev) e rows abc
         \<and> carries_out e (in_order rows) abc (v1_plan asof prev embargo rows))"
proof -
  let ?p = "plan_new (length rows)"
  have new: "\<not> pn_ready ?p" "pn_groups ?p = (\<lambda>_. [])" "pn_end ?p = (\<lambda>_. None)" "pn_count ?p = (\<lambda>_. 0)"
    "pn_total ?p = length (in_order rows)"
    by (simp_all add: plan_new_def in_order_rows)
  note ordered = plan_ordered_ready [OF in_order_rows(1) new, of "consumed prev" e,
      unfolded causal_split_order least_split_order in_order_rows(2,3) length_decision_times]
  have "v1_plan asof prev embargo rows = (if rows = [] then plan_fail ''total'' ?p
      else plan_ordered (consumed prev) e (in_order rows) ?p)"
    using assms by (auto simp: v1_plan_def acceptable_def consumed_def Let_def split: option.splits)
  moreover have "\<not> pn_ready (plan_fail b ?p)" for b by (simp add: plan_fail_def plan_new_def)
  ultimately show "pn_ready (v1_plan asof prev embargo rows) \<longleftrightarrow>
      MINIMUM_TOTAL \<le> length rows \<and> 20 \<le> card (decision ` set rows) \<and> (\<exists>abc. causal_split (consumed prev) e rows abc)"
    and "pn_ready (v1_plan asof prev embargo rows) \<longrightarrow>
      (\<exists>abc. least_split (consumed prev) e rows abc
         \<and> carries_out e (in_order rows) abc (v1_plan asof prev embargo rows))"
    using ordered by (auto simp: MINIMUM_TOTAL_def)
qed

lemma v1_plan_rejects:
  "pn_ready (v1_plan asof prev embargo rows) \<Longrightarrow> acceptable asof prev embargo rows"
  by (auto simp: v1_plan_def acceptable_def plan_fail_def plan_new_def Let_def split: if_splits option.splits)

text \<open>
  C24: on acceptable rows the greedy plan is ready exactly
  when the data are enough and some causal split into training, calibration, validation and an
  unseen holdout exists at all; taking the earliest boundary three times never misses one.
\<close>

theorem greedy_plan_complete:
  assumes "acceptable asof prev embargo rows" and "finite_float embargo = Some e"
  shows "pn_ready (v1_plan asof prev embargo rows) \<longleftrightarrow>
    MINIMUM_TOTAL \<le> length rows \<and> 20 \<le> card (decision ` set rows)
    \<and> (\<exists>abc. causal_split (consumed prev) e rows abc)"
  by (rule v1_plan_ready(1) [OF assms])

text \<open>Six hundred decisions, one every ten milliseconds, each label due a millisecond later.\<close>

definition tick_row :: "nat \<Rightarrow> ml_row" where
  "tick_row i = \<lparr>mr_id = replicate i (CHR ''a''), mr_identity = None, mr_source = None,
     mr_decision = JInt (10 * int i), mr_available = JInt (10 * int i + 1), mr_exit = JInt (10 * int i + 1),
     mr_complete = JBool True\<rparr>"

definition tick_rows :: "nat \<Rightarrow> ml_row list" where
  "tick_rows n = map tick_row [0..<n]"

lemma tick_row_simps [simp]:
  "decision (tick_row i) = of_nat (10 * i)" "release_at 0 (tick_row i) = of_nat (10 * i + 1)"
  by (simp_all add: tick_row_def stamp_val_def release_at_def)

lemma length_between: "t \<le> n \<Longrightarrow> length (filter (\<lambda>i. l \<le> i \<and> i < t) [0..<n]) = t - l"
proof -
  assume "t \<le> n"
  then have "{i. l \<le> i \<and> i < t} \<inter> set [0..<n] = {l..<t}" by auto
  then show ?thesis using distinct_length_filter [of "[0..<n]" "\<lambda>i. l \<le> i \<and> i < t"] by simp
qed

lemma tick_filter:
  assumes "t \<le> n" and "\<And>i. i < n \<Longrightarrow> P (tick_row i) \<longleftrightarrow> l \<le> i \<and> i < t"
  shows "length (filter P (tick_rows n)) = t - l"
proof -
  have "filter (\<lambda>i. P (tick_row i)) [0..<n] = filter (\<lambda>i. l \<le> i \<and> i < t) [0..<n]"
    using assms(2) by (intro filter_cong) auto
  then show ?thesis using length_between [OF assms(1), of l] by (simp add: tick_rows_def filter_map comp_def)
qed

lemma nat_scale: "of_nat (10 * l) \<le> (of_nat (10 * i) :: dec) \<longleftrightarrow> l \<le> i" "of_nat (10 * i) < (of_nat (10 * t) :: dec) \<longleftrightarrow> i < t"
  "of_nat (10 * i + 1) < (of_nat (10 * t) :: dec) \<longleftrightarrow> i < t"
  unfolding of_nat_le_iff of_nat_less_iff by presburger+

lemma tick_released:
  "t \<le> n \<Longrightarrow> length (released_rows 0 (of_nat (10 * l)) (of_nat (10 * t)) (tick_rows n)) = t - l"
  unfolding released_rows_def by (rule tick_filter) (simp_all only: tick_row_simps nat_scale, blast)

lemma tick_holdout: "length (filter (\<lambda>r. of_nat (10 * l) \<le> decision r) (tick_rows n)) = n - l"
  by (rule tick_filter) (simp_all only: tick_row_simps nat_scale, auto)

lemma tick_decisions: "decision ` set (tick_rows n) = (\<lambda>i. of_nat (10 * i)) ` {..<n}"
  unfolding tick_rows_def set_map image_image tick_row_simps by (simp add: atLeast_upt lessThan_atLeast0)

lemma tick_min: "0 < n \<Longrightarrow> Min (decision ` set (tick_rows n)) = 0"
  unfolding tick_decisions by (rule Min_eqI) auto

lemma tick_times: "card (decision ` set (tick_rows n)) = n"
  unfolding tick_decisions by (subst card_image) (auto intro!: inj_onI)

lemma tick_split:
  assumes "200 \<le> a" "a + 100 \<le> b" "b + 100 \<le> c" "c + 100 \<le> n"
  shows "causal_split None 0 (tick_rows n) (of_nat (10 * a), of_nat (10 * b), of_nat (10 * c))"
proof -
  have "Min (decision ` set (tick_rows n)) = of_nat (10 * 0)" using tick_min [of n] assms by simp
  moreover have "{of_nat (10 * a), of_nat (10 * b), of_nat (10 * c)} \<subseteq> decision ` set (tick_rows n)"
    unfolding tick_decisions using assms by auto
  moreover have "a \<le> n" "b \<le> n" "c \<le> n" "100 \<le> b - a" "100 \<le> c - b" "100 \<le> n - c"
    using assms by linarith+
  ultimately show ?thesis
    using assms by (simp only: causal_split_def split tick_released tick_holdout) (simp add: holdout_limit_def beyond_def)
qed

lemma tick_acceptable: "acceptable (of_nat (10 * n)) None (Fin 0) (tick_rows n)"
proof -
  have "row_identity (tick_row i) = mr_id (tick_row i)" for i by (simp add: row_identity_def tick_row_def)
  moreover have "inj_on (\<lambda>i. mr_id (tick_row i)) A" for A by (rule inj_onI) (simp add: tick_row_def)
  ultimately have "distinct (map mr_id (tick_rows n))" "distinct (map row_identity (tick_rows n))"
    by (simp_all add: tick_rows_def distinct_map comp_def inj_on_def)
  moreover have "List.map_filter mr_source (tick_rows n) = []"
    by (simp add: tick_rows_def map_filter_def tick_row_def filter_empty_conv)
  then have "\<not> several_sources (tick_rows n)" by (simp add: several_sources_def)
  moreover have "causal_timing (of_nat (10 * n)) (tick_row i)" if "i < n" for i
  proof -
    have "10 * i + 1 \<le> 10 * n" using that by linarith
    then have "(of_nat (10 * i + 1) :: dec) \<le> of_nat (10 * n)" unfolding of_nat_le_iff .
    then show ?thesis by (simp add: causal_timing_def tick_row_def stamp_val_def)
  qed
  ultimately show ?thesis by (simp add: acceptable_def tick_rows_def list_all_iff)
qed

lemma tick_enough:
  assumes "500 \<le> n"
  shows "MINIMUM_TOTAL \<le> length (tick_rows n) \<and> 20 \<le> card (decision ` set (tick_rows n))
    \<and> (\<exists>abc. causal_split (consumed None) 0 (tick_rows n) abc)"
proof -
  have "length (tick_rows n) = n" by (simp add: tick_rows_def)
  moreover have "causal_split (consumed None) 0 (tick_rows n) (of_nat (10 * 200), of_nat (10 * 300), of_nat (10 * 400))"
    unfolding consumed_def bind.simps using assms by (intro tick_split) simp_all
  ultimately show ?thesis using tick_times [of n] assms by (simp only: MINIMUM_TOTAL_def) auto
qed

lemma greedy_plan_complete_witness: "pn_ready (v1_plan (of_nat (10 * 600)) None (Fin 0) (tick_rows 600))"
  using greedy_plan_complete [OF tick_acceptable [of 600], of 0] tick_enough [of 600] by (simp only: finite_float.simps)

end
