(* ===== verification/AdaptivePlan.thy ===== *)
theory AdaptivePlan imports PartitionPlan begin

text \<open>
  The adaptive partition plan (policy \<^verbatim>\<open>adaptive-causal-v2\<close>) and the walk-forward
  folds of \<^verbatim>\<open>src/bybit_flow/ml/validation.py\<close>. The adaptive plan replaces a lopsided
  greedy plan by the best of at most 64 candidate boundaries, counting rows by prefix sums; the
  lemmas show that those counts are the sizes of the parts, so that the chosen plan is causal and
  no candidate split is better.
\<close>

subsection \<open>Candidates\<close>

text \<open>\<^verbatim>\<open>total * 0.5\<close> and \<^verbatim>\<open>total * 0.25\<close> are exact in binary.\<close>

definition pathological_allocation :: "plan \<Rightarrow> bool" where
  "pathological_allocation p \<longleftrightarrow>
     pn_ready p \<and> 1500 \<le> pn_total p
     \<and> of_nat (pn_total p) * (1 / 2) \<le> (of_nat (pn_count p Holdout) :: dec)
     \<and> (of_nat (pn_count p Training) :: dec) \<le> of_nat (pn_total p) * (1 / 4)"

definition chosen_ends :: "plan \<Rightarrow> dec list" where
  "chosen_ends p = List.map_filter (pn_end p) [Training, Calibration, Validation]"

definition around :: "nat \<Rightarrow> int list" where
  "around center = [int center - 2, int center - 1, int center, int center + 1, int center + 2]"

definition anchor_indices :: "dec list \<Rightarrow> plan \<Rightarrow> int list" where
  "anchor_indices ts p = map (\<lambda>t. int (insertion_left ts t)) (chosen_ends p)"

definition probe_indices :: "ml_row list \<Rightarrow> dec list \<Rightarrow> dec \<Rightarrow> int list" where
  "probe_indices rows ts embargo =
     (let n = length rows;
          grid = map (\<lambda>k. int (insertion_left ts (decision (rows ! min (n - 1) (n * k div 32))))) [1..<33];
          shares = concat (map (\<lambda>share. around (insertion_left ts (decision (rows ! nat \<lfloor>of_nat n * share\<rfloor>))))
                     [1 / 2, 13 / 20, 4 / 5 :: dec]);
          released = sort (map (release_at embargo) rows)
      in grid @ shares @ around (insertion_right ts (released ! (n div 2 - 1))))"

definition candidate_indices :: "ml_row list \<Rightarrow> dec list \<Rightarrow> plan \<Rightarrow> dec \<Rightarrow> int list" where
  "candidate_indices rows ts p embargo =
     (let anchors = anchor_indices ts p;
          cap = int (insertion_left ts (case pn_cap p of None \<Rightarrow> 0 | Some t \<Rightarrow> t));
          kept = anchors @ [cap];
          found = sort (remdups (filter (\<lambda>i. Min (set anchors) \<le> i \<and> i \<le> cap)
                    (kept @ probe_indices rows ts embargo)))
      in if length found \<le> 64 then found
         else
           let extra = filter (\<lambda>i. i \<notin> set kept) found;
               slots = 64 - card (set kept)
           in sort (remdups (kept @ map (\<lambda>i. extra ! (i * length extra div slots)) [0..<slots])))"

definition candidate_boundaries :: "ml_row list \<Rightarrow> dec list \<Rightarrow> plan \<Rightarrow> dec \<Rightarrow> dec list" where
  "candidate_boundaries rows ts p embargo = map (\<lambda>i. ts ! nat i) (candidate_indices rows ts p embargo)"

subsection \<open>The allocation key\<close>

text \<open>The key of \<^verbatim>\<open>_allocation_key\<close>, a tuple in the code, is the list of its components;
  lists compare lexicographically, as tuples do.\<close>

definition allocation_key :: "nat \<times> nat \<times> nat \<times> nat \<Rightarrow> dec \<times> dec \<times> dec \<Rightarrow> dec list" where
  "allocation_key = (\<lambda>(t, ca, v, h) (a, b, c).
     let n = of_nat (t + ca + v + h) :: dec;
         loss = (\<bar>20 * of_nat t - 10 * n\<bar> + \<bar>20 * of_nat ca - 3 * n\<bar> + \<bar>20 * of_nat v - 3 * n\<bar>
                 + \<bar>20 * of_nat h - 4 * n\<bar>) / n
     in [loss, - of_nat t, - of_nat ca, - of_nat v, - c, a, b, c])"

subsection \<open>The bounded search\<close>

fun cumulative :: "nat \<Rightarrow> bool list \<Rightarrow> nat list" where
  "cumulative n [] = [n]"
| "cumulative n (b # bs) = n # cumulative (n + (if b then 1 else 0)) bs"

definition split_counts ::
    "ml_row list \<Rightarrow> dec \<Rightarrow> dec list \<Rightarrow> nat \<times> nat \<times> nat \<Rightarrow> nat \<times> nat \<times> nat \<times> nat" where
  "split_counts ordered embargo candidates = (\<lambda>(i, j, k).
     let releases = map (release_at embargo) ordered;
         offset = (\<lambda>x. insertion_left (map decision ordered) (candidates ! x));
         prefix = (\<lambda>x. cumulative 0 (map (\<lambda>z. z < candidates ! x) releases))
     in (prefix i ! offset i, prefix j ! offset j - prefix j ! offset i,
         prefix k ! offset k - prefix k ! offset j, length ordered - offset k))"

definition combinations3 :: "nat \<Rightarrow> (nat \<times> nat \<times> nat) list" where
  "combinations3 n = [(i, j, k). i \<leftarrow> [0..<n], j \<leftarrow> [Suc i..<n], k \<leftarrow> [Suc j..<n]]"

definition enough :: "nat \<times> nat \<times> nat \<times> nat \<Rightarrow> bool" where
  "enough = (\<lambda>(t, ca, v, h). REQUIREMENTS Training \<le> t \<and> REQUIREMENTS Calibration \<le> ca
     \<and> REQUIREMENTS Validation \<le> v \<and> REQUIREMENTS Holdout \<le> h)"

type_synonym choice = "dec list \<times> (dec \<times> dec \<times> dec)"

definition consider_split ::
    "dec option \<Rightarrow> dec \<Rightarrow> ml_row list \<Rightarrow> dec list \<Rightarrow> nat \<times> nat \<times> nat \<Rightarrow> choice \<Rightarrow> choice" where
  "consider_split prev embargo ordered candidates = (\<lambda>(i, j, k) (best_key, best).
     let abc = (candidates ! i, candidates ! j, candidates ! k);
         counts = split_counts ordered embargo candidates (i, j, k)
     in if \<not> beyond (holdout_limit prev embargo) (candidates ! k) \<or> \<not> enough counts then (best_key, best)
        else if allocation_key counts abc < best_key then (allocation_key counts abc, abc)
        else (best_key, best))"

definition part_sizes :: "plan \<Rightarrow> nat \<times> nat \<times> nat \<times> nat" where
  "part_sizes p = (length (pn_groups p Training), length (pn_groups p Calibration),
     length (pn_groups p Validation), length (pn_groups p Holdout))"

definition ends_of :: "plan \<Rightarrow> dec \<times> dec \<times> dec" where
  "ends_of p = (case (pn_end p Training, pn_end p Calibration, pn_end p Validation) of
      (Some a, Some b, Some c) \<Rightarrow> (a, b, c) | _ \<Rightarrow> (0, 0, 0))"

definition best_split :: "dec option \<Rightarrow> dec \<Rightarrow> ml_row list \<Rightarrow> plan \<Rightarrow> choice" where
  "best_split prev embargo ordered p =
     (let candidates = candidate_boundaries ordered (decision_times ordered) p embargo
      in fold (consider_split prev embargo ordered candidates) (combinations3 (length candidates))
           (allocation_key (part_sizes p) (ends_of p), ends_of p))"

definition rebuild :: "dec \<Rightarrow> ml_row list \<Rightarrow> dec \<times> dec \<times> dec \<Rightarrow> plan \<Rightarrow> plan" where
  "rebuild embargo ordered = (\<lambda>(a, b, c) p.
     fill_holdout ordered c (filled embargo ordered Validation b c (filled embargo ordered Calibration a b
       (filled embargo ordered Training (hd (decision_times ordered)) a p))))"

definition partition_plan :: "dec \<Rightarrow> pyfloat option \<Rightarrow> pyfloat \<Rightarrow> ml_row list \<Rightarrow> plan" where
  "partition_plan asof prev embargo rows =
     (let p = v1_plan asof prev embargo rows in
      if \<not> pathological_allocation p
      then p\<lparr>pn_fallback := Some (if pn_ready p then ''V1 allocation is not pathological''
                                  else ''V1 has no feasible causal split'')\<rparr>
      else
        let e = (case finite_float embargo of None \<Rightarrow> 0 | Some x \<Rightarrow> x);
            ordered = in_order rows;
            (key, best) = best_split (consumed prev) e ordered p;
            p1 = p\<lparr>pn_loss := Some (hd key / 20),
                   pn_candidates := Some (length (candidate_boundaries ordered (decision_times ordered) p e))\<rparr>
        in if best = ends_of p
           then p1\<lparr>pn_fallback := Some ''No better feasible allocation in bounded timing-only search''\<rparr>
           else (rebuild e ordered best p1)\<lparr>pn_policy := ''adaptive-causal-v2''\<rparr>)"

text \<open>
  \<^verbatim>\<open>partitions\<close> and \<^verbatim>\<open>next_cycle_partitions\<close> raise when the plan is not
  ready; the formatted reason is left out.
\<close>

definition next_cycle_partitions ::
    "dec \<Rightarrow> pyfloat option \<Rightarrow> pyfloat \<Rightarrow> ml_row list \<Rightarrow> py_error + (part \<Rightarrow> ml_row list)" where
  "next_cycle_partitions asof prev embargo rows =
     (let p = partition_plan asof prev embargo rows in
      if pn_ready p then Inr (pn_groups p) else Inl (ValueError ''not ready''))"

definition partitions :: "dec \<Rightarrow> pyfloat \<Rightarrow> ml_row list \<Rightarrow> py_error + (part \<Rightarrow> ml_row list)" where
  "partitions asof embargo rows = next_cycle_partitions asof None embargo rows"

text \<open>One fold of \<^verbatim>\<open>walk_forward\<close>; an empty list of rows makes the indexing raise.\<close>

definition fold_ends :: "dec list \<Rightarrow> nat \<Rightarrow> dec \<times> dec \<times> dec" where
  "fold_ends ts i =
     (let at_share = (\<lambda>f. ts ! min (length ts - 1) (nat \<lfloor>of_nat (length ts) * f\<rfloor>)); step = of_nat i * (3 / 20) :: dec
      in (at_share (2 / 5 + step), at_share (1 / 2 + step), at_share (13 / 20 + step)))"

definition walk_forward :: "nat \<Rightarrow> dec \<Rightarrow> ml_row list \<Rightarrow> py_error + (ml_row list \<times> ml_row list \<times> ml_row list) list" where
  "walk_forward folds embargo rows =
     (let ts = sort (decision_times rows) in
      if folds = 0 then Inr []
      else if ts = [] then Inl IndexError
      else Inr (map (\<lambda>i. case fold_ends ts i of (a, b, c) \<Rightarrow>
              (filter (\<lambda>r. decision r < a \<and> release_at embargo r < a) rows,
               released_rows embargo a b rows, released_rows embargo b c rows)) [0..<folds]))"

subsection \<open>Prefix sums count the parts\<close>

lemma cumulative_nth: "m \<le> length bs \<Longrightarrow> cumulative n bs ! m = n + length (filter id (take m bs))"
proof (induction bs arbitrary: n m)
  case (Cons b bs)
  then show ?case by (cases m) auto
qed simp

lemma take_insertion:
  assumes "sorted (map decision rows)"
  shows "take (insertion_left (map decision rows) t) rows = filter (\<lambda>r. decision r < t) rows"
    "insertion_left (map decision rows) t = length (filter (\<lambda>r. decision r < t) rows)"
proof -
  have "takeWhile (\<lambda>r. decision r < t) rows = filter (\<lambda>r. decision r < t) rows"
    using assms
  proof (induction rows)
    case (Cons r rows)
    have "filter (\<lambda>r. decision r < t) rows = []" if "\<not> decision r < t"
      using Cons.prems that by (force simp: filter_empty_conv)
    then show ?case using Cons by simp
  qed simp
  moreover have "insertion_left (map decision rows) t = length (takeWhile (\<lambda>r. decision r < t) rows)"
    by (simp add: insertion_left_def takeWhile_map comp_def)
  ultimately show "take (insertion_left (map decision rows) t) rows = filter (\<lambda>r. decision r < t) rows"
    "insertion_left (map decision rows) t = length (filter (\<lambda>r. decision r < t) rows)"
    by (metis takeWhile_eq_take, simp)
qed

lemma prefix_count:
  assumes "sorted (map decision rows)"
  shows "cumulative 0 (map (\<lambda>z. z < t) (map (release_at e) rows)) ! insertion_left (map decision rows) u
    = length (filter (\<lambda>r. decision r < u \<and> release_at e r < t) rows)"
proof -
  have "insertion_left (map decision rows) u \<le> length rows"
    unfolding take_insertion(2) [OF assms] by (rule length_filter_le)
  then have "cumulative 0 (map (\<lambda>z. z < t) (map (release_at e) rows)) ! insertion_left (map decision rows) u
      = length (filter id (map (\<lambda>r. release_at e r < t) (filter (\<lambda>r. decision r < u) rows)))"
    by (simp add: cumulative_nth take_map take_insertion(1) [OF assms] comp_def)
  then show ?thesis by (simp add: filter_map comp_def filter_filter conj_commute)
qed

lemma filter_difference:
  "a \<le> b \<Longrightarrow> length (filter (\<lambda>r. f r < b \<and> P r) rows) - length (filter (\<lambda>r. f r < a \<and> P r) rows)
     = length (filter (\<lambda>r. (a :: dec) \<le> f r \<and> f r < b \<and> P r) rows)"
proof (induction rows)
  case (Cons r rows)
  have "length (filter (\<lambda>r. f r < a \<and> P r) rows) \<le> length (filter (\<lambda>r. f r < b \<and> P r) rows)"
    using Cons.prems by (induction rows) auto
  then show ?case using Cons by auto
qed simp

definition rows_sizes :: "dec \<Rightarrow> ml_row list \<Rightarrow> dec \<times> dec \<times> dec \<Rightarrow> nat \<times> nat \<times> nat \<times> nat" where
  "rows_sizes e rows abc = (length (part_rows e rows abc Training), length (part_rows e rows abc Calibration),
     length (part_rows e rows abc Validation), length (part_rows e rows abc Holdout))"

lemma split_counts_sizes:
  assumes "sorted (map decision rows)" "cs ! i \<le> cs ! j" "cs ! j \<le> cs ! k"
  shows "split_counts rows e cs (i, j, k) = rows_sizes e rows (cs ! i, cs ! j, cs ! k)"
proof -
  have "filter (\<lambda>r. Min (decision ` set rows) \<le> decision r \<and> decision r < cs ! i \<and> release_at e r < cs ! i) rows
      = filter (\<lambda>r. decision r < cs ! i \<and> release_at e r < cs ! i) rows"
    by (rule filter_cong) auto
  moreover have "length rows - length (filter (\<lambda>r. decision r < cs ! k) rows) = length (filter (\<lambda>r. cs ! k \<le> decision r) rows)"
    using sum_length_filter_compl [of "\<lambda>r. decision r < cs ! k" rows] by (simp add: not_less)
  ultimately show ?thesis
    unfolding split_counts_def rows_sizes_def Let_def split prefix_count [OF assms(1)]
    using filter_difference [OF assms(2), of decision] filter_difference [OF assms(3), of decision]
    by (simp add: released_rows_def take_insertion(2) [OF assms(1)])
qed

lemma enough_split:
  "{a, b, c} \<subseteq> decision ` set rows \<Longrightarrow> beyond (holdout_limit prev e) c \<Longrightarrow> enough (rows_sizes e rows (a, b, c))
    \<Longrightarrow> causal_split prev e rows (a, b, c)"
  unfolding part_rows_sizes part_all by (simp add: enough_def rows_sizes_def)

lemma split_enough: "causal_split prev e rows (a, b, c) \<Longrightarrow> enough (rows_sizes e rows (a, b, c))"
  unfolding part_rows_sizes part_all by (simp add: enough_def rows_sizes_def)

subsection \<open>The candidates\<close>

lemma insertion_left_in: "t \<in> set ts \<Longrightarrow> insertion_left ts t < length ts"
proof -
  assume "t \<in> set ts"
  then have "takeWhile (\<lambda>y. y < t) ts \<noteq> ts" by (metis less_irrefl set_takeWhileD)
  then show ?thesis
    unfolding insertion_left_def by (metis length_takeWhile_le le_neq_implies_less takeWhile_eq_take take_all_iff order_refl)
qed

lemma candidate_indices_range:
  assumes "set (anchor_indices ts p) \<subseteq> {0..<int (length ts)}" "anchor_indices ts p \<noteq> []"
    and "length (anchor_indices ts p) \<le> 3"
    and "pn_cap p = Some t" "t \<in> set ts"
  shows "set (candidate_indices rows ts p e) \<subseteq> {0..<int (length ts)}" "sorted (candidate_indices rows ts p e)"
    "distinct (candidate_indices rows ts p e)"
proof -
  let ?anchors = "anchor_indices ts p" and ?cap = "int (insertion_left ts t)"
  let ?kept = "?anchors @ [?cap]"
  let ?found = "sort (remdups (filter (\<lambda>i. Min (set ?anchors) \<le> i \<and> i \<le> ?cap) (?kept @ probe_indices rows ts e)))"
  let ?extra = "filter (\<lambda>i. i \<notin> set ?kept) ?found"
  let ?slots = "64 - card (set ?kept)"
  let ?picks = "map (\<lambda>i. ?extra ! (i * length ?extra div ?slots)) [0..<?slots]"
  have cap: "?cap < int (length ts)" using insertion_left_in [OF assms(5)] by simp
  have "0 \<le> Min (set ?anchors)" using assms(1,2) by (auto simp: Min_ge_iff)
  have found: "set ?found \<subseteq> {0..<int (length ts)}"
  proof
    fix x assume "x \<in> set ?found"
    then have "Min (set ?anchors) \<le> x" "x \<le> ?cap" by (simp_all only: set_sort set_remdups set_filter mem_Collect_eq)
    with \<open>0 \<le> Min (set ?anchors)\<close> cap show "x \<in> {0..<int (length ts)}" by (simp del: Min_le_iff Min_ge_iff)
  qed
  have kept: "set ?kept \<subseteq> {0..<int (length ts)}" using assms(1) cap by auto
  have small: "card (set ?kept) \<le> 4" using card_length [of ?kept] assms(3) by (simp del: set_append)
  have all: "candidate_indices rows ts p e
      = (if length ?found \<le> 64 then ?found else sort (remdups (?kept @ ?picks)))"
    by (simp add: candidate_indices_def Let_def assms(4))
  have picks: "set ?picks \<subseteq> set ?extra" if big: "\<not> length ?found \<le> 64"
  proof
    fix x assume "x \<in> set ?picks"
    then obtain i where i: "i < ?slots" "x = ?extra ! (i * length ?extra div ?slots)" by auto
    have "?extra \<noteq> []"
    proof
      assume "?extra = []"
      then have "set ?found \<subseteq> set ?kept" unfolding filter_empty_conv by blast
      then have "card (set ?found) \<le> card (set ?kept)" by (rule card_mono [rotated]) simp
      moreover have "card (set ?found) = length ?found" by (rule distinct_card) simp
      ultimately show False using big small by linarith
    qed
    then have "i * length ?extra < ?slots * length ?extra" using i(1) by (intro mult_strict_right_mono) simp_all
    then have "i * length ?extra div ?slots < length ?extra"
      using i(1) by (intro less_mult_imp_div_less) (simp only: mult.commute)
    then show "x \<in> set ?extra" unfolding i(2) by (rule nth_mem)
  qed
  show "set (candidate_indices rows ts p e) \<subseteq> {0..<int (length ts)}"
  proof (cases "length ?found \<le> 64")
    case False
    have "set ?extra \<subseteq> set ?found" by (rule filter_is_subset)
    with picks [OF False] found kept have "set ?kept \<union> set ?picks \<subseteq> {0..<int (length ts)}" by blast
    then show ?thesis unfolding all using False by (simp only: if_False set_sort set_remdups set_append)
  qed (use found all in simp)
  show "sorted (candidate_indices rows ts p e)" "distinct (candidate_indices rows ts p e)"
    unfolding all by (simp_all only: sorted_sort distinct_sort distinct_remdups split: if_split)  simp_all
qed

lemma candidate_boundaries_sorted:
  assumes "set (candidate_indices rows ts p e) \<subseteq> {0..<int (length ts)}" "sorted (candidate_indices rows ts p e)"
    and "sorted ts"
  shows "sorted (candidate_boundaries rows ts p e)" "set (candidate_boundaries rows ts p e) \<subseteq> set ts"
proof -
  show "sorted (candidate_boundaries rows ts p e)"
    unfolding candidate_boundaries_def sorted_map using assms(2)
  proof (rule sorted_wrt_mono_rel [rotated])
    fix i j assume "i \<in> set (candidate_indices rows ts p e)" "j \<in> set (candidate_indices rows ts p e)" "i \<le> j"
    moreover then have "j < int (length ts)" "0 \<le> j" using assms(1) by auto
    ultimately show "ts ! nat i \<le> ts ! nat j" by (intro sorted_nth_mono [OF assms(3)]) (auto simp: nat_less_iff)
  qed
  show "set (candidate_boundaries rows ts p e) \<subseteq> set ts"
    using assms(1) by (fastforce simp: candidate_boundaries_def intro!: nth_mem)
qed

subsection \<open>The search keeps the best\<close>

lemma combinations3_mem: "(i, j, k) \<in> set (combinations3 n) \<longleftrightarrow> i < j \<and> j < k \<and> k < n"
proof
  assume "i < j \<and> j < k \<and> k < n"
  then show "(i, j, k) \<in> set (combinations3 n)"
    by (simp add: combinations3_def) (rule bexI [of _ i], rule bexI [of _ j], auto)
qed (auto simp: combinations3_def)

definition split_key :: "dec \<Rightarrow> ml_row list \<Rightarrow> dec \<times> dec \<times> dec \<Rightarrow> dec list" where
  "split_key e rows abc = allocation_key (rows_sizes e rows abc) abc"

lemma consider_split_step:
  assumes "sorted (map decision rows)" "sorted cs" "set cs \<subseteq> decision ` set rows" "i < j" "j < k" "k < length cs"
    and "best_key = split_key e rows best" "causal_split prev e rows best"
  shows "\<exists>key new. consider_split prev e rows cs (i, j, k) (best_key, best) = (key, new)
    \<and> key = split_key e rows new \<and> causal_split prev e rows new \<and> key \<le> best_key
    \<and> (causal_split prev e rows (cs ! i, cs ! j, cs ! k) \<longrightarrow> key \<le> split_key e rows (cs ! i, cs ! j, cs ! k))"
proof -
  let ?abc = "(cs ! i, cs ! j, cs ! k)"
  have "cs ! i \<le> cs ! j" "cs ! j \<le> cs ! k" using assms(2,4-6) by (auto intro: sorted_nth_mono)
  note counts = split_counts_sizes [OF assms(1) this, of e]
  have mem: "{cs ! i, cs ! j, cs ! k} \<subseteq> decision ` set rows"
    using assms(3-6) by (auto intro: nth_mem)
  have ok: "causal_split prev e rows ?abc \<longleftrightarrow>
      beyond (holdout_limit prev e) (cs ! k) \<and> enough (split_counts rows e cs (i, j, k))"
    unfolding counts using enough_split [OF mem] split_enough by (auto simp: causal_split_def)
  show ?thesis
  proof (cases "causal_split prev e rows ?abc")
    case True
    with ok have "consider_split prev e rows cs (i, j, k) (best_key, best) =
        (if split_key e rows ?abc < best_key then (split_key e rows ?abc, ?abc) else (best_key, best))"
      by (simp add: consider_split_def Let_def split_key_def counts)
    then show ?thesis using True assms(7,8)
      by (cases "split_key e rows ?abc < best_key") (simp_all del: split_paired_Ex add: less_imp_le not_less)
  next
    case False
    with ok have "consider_split prev e rows cs (i, j, k) (best_key, best) = (best_key, best)"
      by (auto simp: consider_split_def Let_def)
    then show ?thesis using False assms(7,8) by simp
  qed
qed

lemma consider_fold:
  assumes "sorted (map decision rows)" "sorted cs" "set cs \<subseteq> decision ` set rows"
    and "set ijks \<subseteq> set (combinations3 (length cs))"
    and "best_key = split_key e rows best" "causal_split prev e rows best"
  shows "\<exists>key new. fold (consider_split prev e rows cs) ijks (best_key, best) = (key, new)
    \<and> key = split_key e rows new \<and> causal_split prev e rows new \<and> key \<le> best_key
    \<and> (\<forall>(i, j, k) \<in> set ijks. causal_split prev e rows (cs ! i, cs ! j, cs ! k)
         \<longrightarrow> key \<le> split_key e rows (cs ! i, cs ! j, cs ! k))"
  using assms(4-6)
proof (induction ijks arbitrary: best_key best)
  case (Cons ijk ijks)
  obtain i j k where ijk: "ijk = (i, j, k)" by (cases ijk)
  have "i < j" "j < k" "k < length cs" using Cons.prems(1) by (auto simp: ijk combinations3_mem)
  from consider_split_step [OF assms(1-3) this Cons.prems(2,3)] obtain key new where
    st: "consider_split prev e rows cs (i, j, k) (best_key, best) = (key, new)"
      "key = split_key e rows new" "causal_split prev e rows new" "key \<le> best_key"
      "causal_split prev e rows (cs ! i, cs ! j, cs ! k) \<longrightarrow> key \<le> split_key e rows (cs ! i, cs ! j, cs ! k)"
    by blast
  from Cons.IH [OF _ st(2,3)] Cons.prems(1) obtain key' new' where
    "fold (consider_split prev e rows cs) ijks (key, new) = (key', new')"
      "key' = split_key e rows new'" "causal_split prev e rows new'" "key' \<le> key"
      "\<forall>(i, j, k) \<in> set ijks. causal_split prev e rows (cs ! i, cs ! j, cs ! k)
         \<longrightarrow> key' \<le> split_key e rows (cs ! i, cs ! j, cs ! k)"
    by auto
  then show ?case using st(1,4,5) unfolding ijk by (intro exI [of _ key'] exI [of _ new']) (auto intro: order_trans)
qed simp

subsection \<open>The chosen plan\<close>

lemma carries_out_sizes: "carries_out e rows abc p \<Longrightarrow> part_sizes p = rows_sizes e rows abc"
  by (simp add: carries_out_def part_sizes_def rows_sizes_def)

lemma carries_out_ends: "carries_out e rows abc p \<Longrightarrow> ends_of p = abc"
  by (cases abc) (simp add: carries_out_def ends_of_def)

lemma carries_out_anchors:
  assumes "carries_out e rows abc p" "causal_split prev e rows abc"
  shows "set (anchor_indices (decision_times rows) p) \<subseteq> {0..<int (length (decision_times rows))}"
    "anchor_indices (decision_times rows) p \<noteq> []" "length (anchor_indices (decision_times rows) p) \<le> 3"
proof -
  obtain a b c where abc: "abc = (a, b, c)" by (cases abc)
  have ends: "chosen_ends p = [a, b, c]"
    using assms(1) by (simp add: carries_out_def abc chosen_ends_def List.map_filter_def)
  have "{a, b, c} \<subseteq> set (decision_times rows)"
    using assms(2) by (simp add: abc causal_split_def decision_times_set)
  then show "set (anchor_indices (decision_times rows) p) \<subseteq> {0..<int (length (decision_times rows))}"
    by (simp add: anchor_indices_def ends insertion_left_in)
  show "anchor_indices (decision_times rows) p \<noteq> []" "length (anchor_indices (decision_times rows) p) \<le> 3"
    by (simp_all add: anchor_indices_def ends)
qed

lemma best_split_spec:
  assumes "sorted (map decision rows)" and "carries_out e rows abc p" "causal_split prev e rows abc"
  shows "\<exists>key new. best_split prev e rows p = (key, new)
    \<and> key = split_key e rows new \<and> causal_split prev e rows new \<and> key \<le> split_key e rows abc
    \<and> (\<forall>a b c. {a, b, c} \<subseteq> set (candidate_boundaries rows (decision_times rows) p e) \<and> causal_split prev e rows (a, b, c)
         \<longrightarrow> key \<le> split_key e rows (a, b, c))"
proof -
  let ?ts = "decision_times rows"
  let ?cs = "candidate_boundaries rows ?ts p e"
  obtain t where t: "pn_cap p = Some t" "t \<in> set ?ts"
    using assms(2) by (auto simp: carries_out_def decision_times_set)
  note idx = candidate_indices_range [OF carries_out_anchors [OF assms(2,3)] t, of rows e]
  note cs = candidate_boundaries_sorted [OF idx(1,2) decision_times_sorted [OF assms(1)], unfolded decision_times_set]
  from consider_fold [OF assms(1) cs order_refl refl assms(3)] obtain key new where
    out: "fold (consider_split prev e rows ?cs) (combinations3 (length ?cs)) (split_key e rows abc, abc) = (key, new)"
      "key = split_key e rows new" "causal_split prev e rows new" "key \<le> split_key e rows abc"
    and best: "\<forall>(i, j, k) \<in> set (combinations3 (length ?cs)). causal_split prev e rows (?cs ! i, ?cs ! j, ?cs ! k)
         \<longrightarrow> key \<le> split_key e rows (?cs ! i, ?cs ! j, ?cs ! k)"
    by blast
  have "key \<le> split_key e rows (a, b, c)"
    if mem: "{a, b, c} \<subseteq> set ?cs" and split: "causal_split prev e rows (a, b, c)" for a b c
  proof -
    obtain i j k where ijk: "i < length ?cs" "j < length ?cs" "k < length ?cs" "?cs ! i = a" "?cs ! j = b" "?cs ! k = c"
      using mem by (auto simp: in_set_conv_nth)
    have "a < b" "b < c"
      using split released_nonempty [of 100 e a b rows] released_nonempty [of 100 e b c rows] by (auto simp: causal_split_def)
    with ijk have "i < j" "j < k" using sorted_nth_mono [OF cs(1)] by (metis not_less)+
    then have "(i, j, k) \<in> set (combinations3 (length ?cs))" using ijk by (simp add: combinations3_mem)
    with best split ijk show ?thesis by blast
  qed
  moreover have "best_split prev e rows p = (key, new)"
    using out(1) carries_out_sizes [OF assms(2)] carries_out_ends [OF assms(2)]
    by (simp add: best_split_def Let_def split_key_def)
  ultimately show ?thesis using out(2-4) by blast
qed

lemma rebuild_carries_out:
  assumes "sorted (map decision rows)" "rows \<noteq> []" "pn_end p Holdout = None" "pn_cap p \<in> Some ` decision ` set rows"
    "pn_total p = length rows"
  shows "carries_out e rows abc (rebuild e rows abc p)"
proof -
  obtain a b c where abc: "abc = (a, b, c)" by (cases abc)
  have "decision_times rows \<noteq> []" using assms(2) by (simp add: decision_times_def)
  then have "hd (decision_times rows) = Min (decision ` set rows)"
    using sorted_hd_Min [OF decision_times_sorted [OF assms(1)]] by (simp add: decision_times_set)
  then show ?thesis using filled_carries_out [OF assms(3-5)] by (simp add: abc rebuild_def)
qed

lemma rebuild_ready: "pn_ready (rebuild e rows abc p) = pn_ready p"
  by (cases abc) (simp add: rebuild_def fill_holdout_def filled_def fill_part_def Let_def)

text \<open>What every ready plan is, whichever policy produced it.\<close>

lemma partition_plan_split:
  assumes "pn_ready (partition_plan asof prev embargo rows)"
  shows "\<exists>e abc. finite_float embargo = Some e \<and> 0 \<le> e \<and> causal_split (consumed prev) e rows abc
    \<and> carries_out e (in_order rows) abc (partition_plan asof prev embargo rows)
    \<and> (pathological_allocation (v1_plan asof prev embargo rows) \<longrightarrow>
         split_key e (in_order rows) abc
           \<le> split_key e (in_order rows) (ends_of (v1_plan asof prev embargo rows))
         \<and> (\<forall>a b c. {a, b, c} \<subseteq> set (candidate_boundaries (in_order rows) (decision_times (in_order rows))
                (v1_plan asof prev embargo rows) e) \<and> causal_split (consumed prev) e rows (a, b, c)
              \<longrightarrow> split_key e (in_order rows) abc \<le> split_key e (in_order rows) (a, b, c)))"
proof -
  let ?p = "v1_plan asof prev embargo rows" and ?rows = "in_order rows" and ?plan = "partition_plan asof prev embargo rows"
  have ready: "pn_ready ?p"
    using assms by (auto simp: partition_plan_def Let_def pathological_allocation_def split: if_splits)
  then have acc: "acceptable asof prev embargo rows" by (rule v1_plan_rejects)
  then obtain e where e: "finite_float embargo = Some e" "0 \<le> e"
    by (auto simp: acceptable_def split: option.splits)
  from v1_plan_ready [OF acc e(1)] ready obtain abc where
    least: "least_split (consumed prev) e rows abc" and out: "carries_out e ?rows abc ?p"
    by blast
  note abc = least_is_split [OF least] out
  note split = abc(1) [folded causal_split_order [of _ _ rows]]
  have ends: "ends_of ?p = abc" by (rule carries_out_ends [OF abc(2)])
  show ?thesis
  proof (cases "pathological_allocation ?p")
    case False
    then have "carries_out e ?rows abc ?plan" using abc(2) by (simp add: partition_plan_def Let_def carries_out_def)
    then show ?thesis using e abc(1) False by blast
  next
    case True
    from best_split_spec [OF in_order_rows(1) abc(2) split] obtain key new where
      new: "best_split (consumed prev) e ?rows ?p = (key, new)" "key = split_key e ?rows new"
        "causal_split (consumed prev) e ?rows new" "key \<le> split_key e ?rows abc"
        "\<forall>a b c. {a, b, c} \<subseteq> set (candidate_boundaries ?rows (decision_times ?rows) ?p e)
           \<and> causal_split (consumed prev) e ?rows (a, b, c) \<longrightarrow> key \<le> split_key e ?rows (a, b, c)"
      by blast
    let ?p1 = "?p\<lparr>pn_loss := Some (hd key / 20),
        pn_candidates := Some (length (candidate_boundaries ?rows (decision_times ?rows) ?p e))\<rparr>"
    have plan: "?plan = (if new = abc
        then ?p1\<lparr>pn_fallback := Some ''No better feasible allocation in bounded timing-only search''\<rparr>
        else (rebuild e ?rows new ?p1)\<lparr>pn_policy := ''adaptive-causal-v2''\<rparr>)"
      using True new(1) e(1) ends by (simp add: partition_plan_def Let_def)
    have p1: "pn_end ?p1 Holdout = None" "pn_cap ?p1 \<in> Some ` decision ` set ?rows" "pn_total ?p1 = length ?rows"
      using abc(2) by (cases abc, simp_all add: carries_out_def)
    have "?rows \<noteq> []" using p1(2) by auto
    from rebuild_carries_out [OF in_order_rows(1) this p1] have
      "carries_out e ?rows new ((rebuild e ?rows new ?p1)\<lparr>pn_policy := ''adaptive-causal-v2''\<rparr>)"
      by (simp add: carries_out_def)
    moreover have "carries_out e ?rows abc (?p1\<lparr>pn_fallback := f\<rparr>)" for f
      using abc(2) by (simp add: carries_out_def)
    ultimately have "carries_out e ?rows new ?plan" unfolding plan by simp
    then show ?thesis
      using e new(2-5) unfolding ends causal_split_order by blast
  qed
qed

lemma partition_plan_ready: "pn_ready (partition_plan asof prev embargo rows) = pn_ready (v1_plan asof prev embargo rows)"
  by (auto simp: partition_plan_def Let_def rebuild_ready pathological_allocation_def split: prod.split)

subsection \<open>Properties\<close>

fun part_rank :: "part \<Rightarrow> nat" where
  "part_rank Training = 0"
| "part_rank Calibration = 1"
| "part_rank Validation = 2"
| "part_rank Holdout = 3"

text \<open>
  C30: when a plan is handed out, every part meets its
  required size, every label of an earlier part, with the embargo, was due before any decision of
  a later part was taken, and the holdout begins only after the consumed one and its embargo.
\<close>

theorem partitions_never_leak:
  assumes "next_cycle_partitions asof prev embargo rows = Inr groups" and "finite_float embargo = Some e"
  shows "(\<forall>q. REQUIREMENTS q \<le> length (groups q) \<and> set (groups q) \<subseteq> set rows)
    \<and> (\<forall>q q' r r'. part_rank q < part_rank q' \<and> r \<in> set (groups q) \<and> r' \<in> set (groups q')
         \<longrightarrow> release_at e r < decision r')
    \<and> (\<forall>h r. consumed prev = Some h \<and> r \<in> set (groups Holdout) \<longrightarrow> h + e < decision r)"
proof -
  let ?p = "partition_plan asof prev embargo rows" and ?rows = "in_order rows"
  have ready: "pn_ready ?p" and groups: "groups = pn_groups ?p"
    using assms(1) by (auto simp: next_cycle_partitions_def Let_def split: if_splits)
  from partition_plan_split [OF ready] assms(2) obtain a b c where
    split: "causal_split (consumed prev) e rows (a, b, c)" and out: "carries_out e ?rows (a, b, c) ?p"
    by (metis option.inject prod_cases3)
  have split': "causal_split (consumed prev) e ?rows (a, b, c)" using split by (simp add: causal_split_order)
  have g: "groups = part_rows e ?rows (a, b, c)" using out groups by (simp add: carries_out_def)
  have lt: "a < b" "b < c"
    using split released_nonempty [of 100 e a b rows] released_nonempty [of 100 e b c rows] by (auto simp: causal_split_def)
  have size: "REQUIREMENTS q \<le> length (groups q)" for q using split' unfolding g part_rows_sizes by blast
  have sub: "set (groups q) \<subseteq> set rows" for q
    unfolding g by (cases q) (auto simp: released_rows_def in_order_rows)
  have order: "release_at e r < decision r'"
    if "part_rank q < part_rank q'" "r \<in> set (groups q)" "r' \<in> set (groups q')" for q q' r r'
    using that lt unfolding g by (cases q; cases q') (auto simp: released_rows_def)
  have fresh: "h + e < decision r" if "consumed prev = Some h" "r \<in> set (groups Holdout)" for h r
    using that split unfolding g by (auto simp: causal_split_def holdout_limit_def beyond_def)
  show ?thesis using size sub order fresh by blast
qed

text \<open>
  When the greedy allocation is lopsided, the plan
  that replaces it is still a causal split, its allocation key is no worse than the greedy one and
  no worse than that of any causal split with boundaries among the candidates.
\<close>

theorem adaptive_plan_is_best:
  assumes "pathological_allocation (v1_plan asof prev embargo rows)" and "finite_float embargo = Some e"
  shows "\<exists>abc. causal_split (consumed prev) e rows abc
    \<and> pn_groups (partition_plan asof prev embargo rows) = part_rows e (in_order rows) abc
    \<and> split_key e (in_order rows) abc \<le> split_key e (in_order rows) (ends_of (v1_plan asof prev embargo rows))
    \<and> (\<forall>a b c. {a, b, c} \<subseteq> set (candidate_boundaries (in_order rows) (decision_times (in_order rows))
           (v1_plan asof prev embargo rows) e) \<and> causal_split (consumed prev) e rows (a, b, c)
         \<longrightarrow> split_key e (in_order rows) abc \<le> split_key e (in_order rows) (a, b, c))"
proof -
  have "pn_ready (partition_plan asof prev embargo rows)"
    using assms(1) by (simp add: partition_plan_ready pathological_allocation_def)
  from partition_plan_split [OF this] assms show ?thesis by (auto simp: carries_out_def simp del: split_paired_Ex)
qed

lemma filter_length_mono: "(\<And>row. narrow row \<Longrightarrow> wide row) \<Longrightarrow> length (filter narrow rows) \<le> length (filter wide rows)"
  by (induction rows) auto

lemma released_upper_mono: "t \<le> t' \<Longrightarrow> length (released_rows e l t rows) \<le> length (released_rows e l t' rows)"
  unfolding released_rows_def by (rule filter_length_mono) auto

text \<open>On enough ticks the greedy plan is lopsided.\<close>

abbreviation tick_plan :: "nat \<Rightarrow> plan" where
  "tick_plan n \<equiv> v1_plan (of_nat (10 * n)) None (Fin 0) (tick_rows n)"

lemma tick_ready: "500 \<le> n \<Longrightarrow> pn_ready (tick_plan n)"
  using v1_plan_ready(1) [OF tick_acceptable [of n], of 0] tick_enough [of n] by (simp only: finite_float.simps)

lemma tick_greedy:
  assumes "1500 \<le> n"
  shows "pathological_allocation (tick_plan n)"
proof -
  have acc: "acceptable (of_nat (10 * n)) None (Fin 0) (tick_rows n)" by (rule tick_acceptable)
  have e: "finite_float (Fin 0) = Some 0" by simp
  have ready: "pn_ready (tick_plan n)" by (rule tick_ready) (use assms in simp)
  with v1_plan_ready(2) [OF acc e] obtain a b c where
    least: "least_split (consumed None) 0 (tick_rows n) (a, b, c)"
    and out: "carries_out 0 (in_order (tick_rows n)) (a, b, c) (tick_plan n)"
    by (metis prod_cases3)
  have "causal_split (consumed None) 0 (tick_rows n) (of_nat (10 * 200), of_nat (10 * 300), of_nat (10 * 400))"
    unfolding consumed_def bind.simps using assms by (intro tick_split) simp_all
  with least have le: "a \<le> of_nat (10 * 200)" "c \<le> of_nat (10 * 400)" unfolding least_split_def by blast+
  have "Min (decision ` set (in_order (tick_rows n))) = of_nat (10 * 0)"
    using tick_min [of n] assms by (simp add: in_order_rows)
  moreover have "length (released_rows 0 (of_nat (10 * 0)) a (in_order (tick_rows n))) = length (released_rows 0 (of_nat (10 * 0)) a (tick_rows n))"
    by (simp add: released_rows_def length_filter_mset in_order_rows)
  moreover have "length (released_rows 0 (of_nat (10 * 0)) (of_nat (10 * 200)) (tick_rows n)) = 200"
    using tick_released [of 200 n 0] assms by simp
  ultimately have t: "pn_count (tick_plan n) Training \<le> 200"
    using out released_upper_mono [OF le(1), of 0 "of_nat (10 * 0)" "tick_rows n"] by (simp add: carries_out_def)
  have "length (filter (\<lambda>r. of_nat (10 * 400) \<le> decision r) (tick_rows n)) \<le> length (filter (\<lambda>r. c \<le> decision r) (tick_rows n))"
    using le(2) by (intro filter_length_mono) auto
  then have h: "n - 400 \<le> pn_count (tick_plan n) Holdout"
    using out tick_holdout [of 400 n] by (simp add: carries_out_def length_filter_mset in_order_rows)
  have total: "pn_total (tick_plan n) = n" using out by (simp add: carries_out_def in_order_rows) (simp add: tick_rows_def)
  have "n \<le> 2 * pn_count (tick_plan n) Holdout" "4 * pn_count (tick_plan n) Training \<le> n" using t h assms by linarith+
  then have "(of_nat n :: dec) \<le> of_nat (2 * pn_count (tick_plan n) Holdout)"
    "(of_nat (4 * pn_count (tick_plan n) Training) :: dec) \<le> of_nat n" unfolding of_nat_le_iff .
  then show ?thesis unfolding pathological_allocation_def total using ready assms by simp
qed

lemma partitions_never_leak_witness:
  "\<exists>groups. next_cycle_partitions (of_nat (10 * 600)) None (Fin 0) (tick_rows 600) = Inr groups
    \<and> 200 \<le> length (groups Training) \<and> 100 \<le> length (groups Holdout)
    \<and> release_at 0 (hd (groups Training)) < decision (hd (groups Holdout))"
proof -
  have "pn_ready (partition_plan (of_nat (10 * 600)) None (Fin 0) (tick_rows 600))"
    unfolding partition_plan_ready by (rule tick_ready) simp
  then obtain groups where g: "next_cycle_partitions (of_nat (10 * 600)) None (Fin 0) (tick_rows 600) = Inr groups"
    by (simp add: next_cycle_partitions_def)
  note leak = partitions_never_leak [OF g, of 0, simplified finite_float.simps]
  have "200 \<le> length (groups Training)" "100 \<le> length (groups Holdout)"
    using leak by (metis REQUIREMENTS.simps(1), metis REQUIREMENTS.simps(4))
  moreover from this have "hd (groups Training) \<in> set (groups Training)" "hd (groups Holdout) \<in> set (groups Holdout)"
    by (auto intro!: hd_in_set)
  ultimately show ?thesis using g leak by (metis part_rank.simps(1,4) zero_less_numeral)
qed

lemma adaptive_plan_is_best_witness:
  "\<exists>abc. causal_split None 0 (tick_rows 1500) abc
    \<and> pn_groups (partition_plan (of_nat (10 * 1500)) None (Fin 0) (tick_rows 1500)) = part_rows 0 (in_order (tick_rows 1500)) abc
    \<and> split_key 0 (in_order (tick_rows 1500)) abc \<le> split_key 0 (in_order (tick_rows 1500)) (ends_of (tick_plan 1500))"
  using adaptive_plan_is_best [OF tick_greedy [OF order_refl], of 0]
  unfolding consumed_def bind.simps finite_float.simps by blast

end
