(* ===== verification/Retention.thy ===== *)
theory Retention imports Model Leases "HOL-Library.Sublist" "HOL-Library.List_Lexorder" "HOL-Library.Char_ord" begin

text \<open>
  Which recorded segments may be dropped: the protected ranges of
  \<^verbatim>\<open>src/bybit_flow/retention.py\<close> and the classification of
  \<^verbatim>\<open>src/bybit_flow/recording_maintenance.py\<close>. A segment's manifest is its id, when it
  was registered and the receipt span it covers, None when the span is not two integers in order.
  The result of \<^verbatim>\<open>consumed_cursor\<close> on a stored checkpoint is part of an unresolved
  snapshot.
\<close>

record segment =
  se_id :: string
  se_at :: ms
  se_span :: "(ms \<times> ms) option"

record unresolved =
  un_decision :: ms
  un_hold_max :: int
  un_cursor :: "ms option"

record evidence_store =
  es_signals :: "signal list"
  es_unresolved :: "unresolved list"
  es_segments :: "segment list"
  es_leases :: "lease_row list"
  es_verified_boundary :: ms

subsection \<open>Protected ranges\<close>

definition active_evidence_start :: "signal \<Rightarrow> ms \<Rightarrow> ms" where
  "active_evidence_start s now =
     (let c = sg_coverage s; origin = sg_created_ms s;
          fine = (\<lambda>v. case v of None \<Rightarrow> False | Some x \<Rightarrow> origin \<le> x \<and> x \<le> now)
      in (case (cv_monitor_cursor_event_ms c, cv_monitor_cursor_receipt_ms c, cv_last_monitor_ms c) of
            (Some event, Some receipt, Some checked) \<Rightarrow>
              if fine (Some event) \<and> fine (Some receipt) \<and> fine (Some checked)
                 \<and> max event receipt \<le> checked
                 \<and> (case cv_last_checked_trade_id c of None \<Rightarrow> False | Some t \<Rightarrow> t \<noteq> [])
              then min event receipt else origin
          | _ \<Rightarrow> origin) - 900000)"

type_synonym protected = "ms \<times> ms \<times> string"

definition active_range :: "ms \<Rightarrow> signal \<Rightarrow> protected" where
  "active_range now s = (active_evidence_start s now, max now (holding_deadline s), ''active setup'')"

definition unresolved_start :: "unresolved \<Rightarrow> ms" where
  "unresolved_start u =
     (case un_cursor u of None \<Rightarrow> un_decision u - 900000
      | Some c \<Rightarrow> max (un_decision u - 900000) (c - 900000))"

definition unresolved_range :: "unresolved \<Rightarrow> protected" where
  "unresolved_range u =
     (let start = unresolved_start u
      in (start, max start (un_decision u + un_hold_max u * 60000 + 60000), ''unresolved primary outcome''))"

text \<open>Segments registered after the verified boundary whose receipts reach below the cursor.\<close>

definition late_ranges :: "evidence_store \<Rightarrow> unresolved \<Rightarrow> protected list" where
  "late_ranges st u =
     (case un_cursor u of
        None \<Rightarrow> []
      | Some c \<Rightarrow>
          [(a, b, ''unresolved primary outcome''). g \<leftarrow> es_segments st, (a, b) \<leftarrow> (case se_span g of None \<Rightarrow> [] | Some sp \<Rightarrow> [sp]),
             es_verified_boundary st < se_at g \<and> a \<le> c \<and> un_decision u - 900000 \<le> b])"

definition lease_ranges :: "ms \<Rightarrow> lease_row list \<Rightarrow> protected list" where
  "lease_ranges now rows =
     map (\<lambda>r. (lr_start r, lr_end r, ''replay/maintenance lease'')) (filter (\<lambda>r. lr_expires r > now) rows)"

definition protection_ranges :: "evidence_store \<Rightarrow> ms \<Rightarrow> protected list" where
  "protection_ranges st now =
     map (active_range now) (filter (\<lambda>s. sg_state s \<notin> TERMINAL) (es_signals st))
     @ concat (map (\<lambda>u. unresolved_range u # late_ranges st u) (es_unresolved st))
     @ lease_ranges now (es_leases st)"

subsection \<open>Classification\<close>

record finalized =
  fz_start :: ms
  fz_end :: ms
  fz_complete :: int
  fz_class :: string

definition protection_class :: "string \<Rightarrow> string" where
  "protection_class reason =
     (if reason = ''active setup'' then ''PROTECTED_ACTIVE_SETUP''
      else if reason = ''unresolved primary outcome'' then ''PROTECTED_UNRESOLVED_PRIMARY_ML''
      else if reason = ''replay/maintenance lease'' then ''PROTECTED_REPLAY_LEASE''
      else ''UNKNOWN_FAIL_CLOSED'')"

definition label_class :: "(int \<times> string) list \<Rightarrow> string" where
  "label_class labels =
     (if list_ex (\<lambda>(complete, _). complete = 1) labels then ''DELETABLE_COMPLETE_LABEL_DURABLE''
      else if labels \<noteq> [] \<and> list_all (\<lambda>(_, c). c \<in> {''incomplete'', ''technical_duplicate'', ''no_entry''}) labels
      then ''DELETABLE_FINALIZED_INCOMPLETE''
      else if labels \<noteq> [] then ''UNKNOWN_FAIL_CLOSED''
      else ''DELETABLE_NO_ML_CONSUMER'')"

definition keep_reasons :: "ms \<Rightarrow> ms \<Rightarrow> ms \<Rightarrow> protected list \<Rightarrow> string list" where
  "keep_reasons start stop cutoff ranges =
     map (\<lambda>(_, _, reason). protection_class reason) (filter (\<lambda>(a, b, _). a \<le> stop \<and> start \<le> b) ranges)
     @ (if cutoff < stop then [''PROTECTED_RECENT_FLOOR''] else [])"

definition classify ::
    "(string \<Rightarrow> bool) \<Rightarrow> segment \<Rightarrow> ms \<Rightarrow> protected list \<Rightarrow> bool \<Rightarrow> finalized list \<Rightarrow> string list" where
  "classify pruned m cutoff ranges corrupt done =
     (case se_span m of
        None \<Rightarrow> [''UNKNOWN_FAIL_CLOSED'']
      | Some (start, stop) \<Rightarrow>
          if stop < start then [''UNKNOWN_FAIL_CLOSED'']
          else
            let reasons = keep_reasons start stop cutoff ranges
            in if reasons \<noteq> [] then sort (remdups reasons)
               else if pruned (se_id m) then [''DELETABLE_ALREADY_TOMBSTONED_RESIDUE'']
               else if corrupt then [''DELETABLE_CORRUPT_UNRECOVERABLE'']
               else [label_class (map (\<lambda>f. (fz_complete f, fz_class f))
                       (filter (\<lambda>f. fz_start f \<le> stop \<and> start \<le> fz_end f) done))])"

definition deletable :: "string list \<Rightarrow> bool" where
  "deletable classes \<longleftrightarrow> classes \<noteq> [] \<and> list_all (prefix ''DELETABLE_'') classes"

definition cleanup_order :: "string list" where
  "cleanup_order = [''DELETABLE_ALREADY_TOMBSTONED_RESIDUE'', ''DELETABLE_CORRUPT_UNRECOVERABLE'',
     ''DELETABLE_FINALIZED_INCOMPLETE'', ''DELETABLE_COMPLETE_LABEL_DURABLE'', ''DELETABLE_NO_ML_CONSUMER'']"

definition index_of :: "string list \<Rightarrow> string \<Rightarrow> nat" where
  "index_of xs c = length (takeWhile (\<lambda>x. x \<noteq> c) xs)"

definition cleanup_priority :: "string list \<Rightarrow> nat" where
  "cleanup_priority classes =
     (case map (index_of cleanup_order) (filter (\<lambda>c. c \<in> set cleanup_order) classes) of
        [] \<Rightarrow> 6
      | i # is \<Rightarrow> fold min is i)"

subsection \<open>Pressure\<close>

text \<open>\<^verbatim>\<open>maintain\<close>: the state by the share of the budget in use, and what it runs.\<close>

definition maintenance_state :: "dec \<Rightarrow> string" where
  "maintenance_state usage =
     (if 95 / 100 \<le> usage then ''EMERGENCY_SAFE_MAINTENANCE''
      else if 85 / 100 \<le> usage then ''PRUNING''
      else if 7 / 10 \<le> usage then ''COMPACTING'' else ''NORMAL'')"

definition maintain_actions :: "bool \<Rightarrow> dec \<Rightarrow> nat option \<times> bool" where
  "maintain_actions enabled usage =
     (if enabled \<and> 7 / 10 \<le> usage then Some (if 85 / 100 \<le> usage then 600 else 100) else None,
      enabled \<and> 85 / 100 \<le> usage)"

definition maintain_result :: "dec \<Rightarrow> dec \<Rightarrow> string" where
  "maintain_result before after =
     (if 95 / 100 \<le> after then ''STORAGE_BACKPRESSURE'' else maintenance_state before)"

text \<open>The floor and the cutoff of \<^verbatim>\<open>planning\<close>.\<close>

definition retention_cutoff :: "dec \<Rightarrow> dec \<Rightarrow> int \<Rightarrow> ms \<Rightarrow> ms" where
  "retention_cutoff usage budget retention_minutes now =
     now - (if 85 / 100 * budget \<le> usage then 15 else retention_minutes) * 60000"

subsection \<open>A deletable segment is needed by nobody\<close>

lemma not_deletable [simp]:
  "\<not> deletable [''UNKNOWN_FAIL_CLOSED'']" "deletable [label_class ls] \<longleftrightarrow> label_class ls \<noteq> ''UNKNOWN_FAIL_CLOSED''"
  by (auto simp: deletable_def label_class_def)

lemma protection_class_kept: "\<not> prefix ''DELETABLE_'' (protection_class r)"
  by (simp add: protection_class_def)

lemma classify_deletable:
  assumes "deletable (classify pruned m cutoff ranges corrupt done)"
  shows "\<exists>start stop. se_span m = Some (start, stop) \<and> start \<le> stop \<and> stop \<le> cutoff
    \<and> (\<forall>(a, b, reason) \<in> set ranges. stop < a \<or> b < start)"
proof -
  obtain start stop where sp: "se_span m = Some (start, stop)"
    using assms by (cases "se_span m") (auto simp: classify_def)
  have le: "start \<le> stop" using assms sp by (auto simp: classify_def not_less split: if_splits)
  have "keep_reasons start stop cutoff ranges = []"
  proof (rule ccontr)
    assume ne: "keep_reasons start stop cutoff ranges \<noteq> []"
    then have "classify pruned m cutoff ranges corrupt done = sort (remdups (keep_reasons start stop cutoff ranges))"
      using sp le by (simp add: classify_def Let_def)
    moreover obtain x where "x \<in> set (keep_reasons start stop cutoff ranges)" using ne by (meson ex_in_conv set_empty)
    moreover then have "\<not> prefix ''DELETABLE_'' x"
      using protection_class_kept by (auto simp: keep_reasons_def split: if_splits)
    ultimately show False using assms by (auto simp: deletable_def list_all_iff)
  qed
  then show ?thesis using sp le by (auto simp: keep_reasons_def filter_empty_conv not_le split: if_splits)
qed

text \<open>
  C29: a segment that the planner may delete lies entirely
  before the retention floor and outside everything that still needs it: the tape every live plan
  has not processed yet, the path of every unresolved snapshot from where its checkpoint has
  consumed it, what was registered too late for that checkpoint, and the range of every lease that
  has not expired.
\<close>

theorem deletable_is_unneeded:
  assumes "deletable (classify pruned m cutoff (protection_ranges st now) corrupt done)"
  shows "\<exists>start stop. se_span m = Some (start, stop) \<and> start \<le> stop \<and> stop \<le> cutoff
    \<and> (\<forall>s \<in> set (es_signals st). sg_state s \<notin> TERMINAL \<longrightarrow>
         stop < active_evidence_start s now \<or> max now (holding_deadline s) < start)
    \<and> (\<forall>u \<in> set (es_unresolved st).
         stop < unresolved_start u \<or> un_decision u + un_hold_max u * 60000 + 60000 < start)
    \<and> (\<forall>u \<in> set (es_unresolved st). \<forall>c. un_cursor u = Some c \<and> m \<in> set (es_segments st)
         \<and> es_verified_boundary st < se_at m \<longrightarrow> stop < un_decision u - 900000 \<or> c < start)
    \<and> (\<forall>r \<in> set (es_leases st). \<not> row_overlaps now start stop r)"
proof -
  from classify_deletable [OF assms] obtain start stop where
    sp: "se_span m = Some (start, stop)" "start \<le> stop" "stop \<le> cutoff"
    and free: "\<And>a b reason. (a, b, reason) \<in> set (protection_ranges st now) \<Longrightarrow> stop < a \<or> b < start"
    by fast
  have signals: "stop < active_evidence_start s now \<or> max now (holding_deadline s) < start"
    if "s \<in> set (es_signals st)" "sg_state s \<notin> TERMINAL" for s
    using that by (intro free [of _ _ "''active setup''"]) (auto simp: protection_ranges_def active_range_def)
  have paths: "stop < unresolved_start u \<or> un_decision u + un_hold_max u * 60000 + 60000 < start"
    if "u \<in> set (es_unresolved st)" for u
  proof -
    have "unresolved_range u \<in> set (protection_ranges st now)" using that by (auto simp: protection_ranges_def)
    then show ?thesis using free by (fastforce simp: unresolved_range_def Let_def)
  qed
  have late: "stop < un_decision u - 900000 \<or> c < start"
    if "u \<in> set (es_unresolved st)" "un_cursor u = Some c" "m \<in> set (es_segments st)"
      "es_verified_boundary st < se_at m" for u c
  proof (rule ccontr)
    assume "\<not> ?thesis"
    then have "(start, stop, ''unresolved primary outcome'') \<in> set (late_ranges st u)"
      using that sp(1) by (force simp: late_ranges_def)
    then have "(start, stop, ''unresolved primary outcome'') \<in> set (protection_ranges st now)"
      using that(1) by (auto simp: protection_ranges_def)
    from free [OF this] sp(2) show False by simp
  qed
  have leases: "\<not> row_overlaps now start stop r" if "r \<in> set (es_leases st)" for r
  proof
    assume ov: "row_overlaps now start stop r"
    then have "(lr_start r, lr_end r, ''replay/maintenance lease'') \<in> set (protection_ranges st now)"
      using that by (auto simp: protection_ranges_def lease_ranges_def row_overlaps_def)
    from free [OF this] ov show False by (auto simp: row_overlaps_def)
  qed
  show ?thesis using sp signals paths late leases by blast
qed

text \<open>A store with a live plan, an unresolved snapshot and a lease, and an old finalized segment.\<close>

definition sample_store :: evidence_store where
  "sample_store =
     \<lparr>es_signals = [sample_signal\<lparr>sg_created_ms := 5000000\<rparr>],
      es_unresolved = [\<lparr>un_decision = 6000000, un_hold_max = 60, un_cursor = Some 6500000\<rparr>],
      es_segments = [], es_leases = [\<lparr>lr_id = ''l'', lr_start = 3000000, lr_end = 3500000,
        lr_expires = 9000000, lr_exclusive = False\<rparr>], es_verified_boundary = 0\<rparr>"

definition sample_segment :: segment where
  "sample_segment = \<lparr>se_id = ''g'', se_at = 2600000, se_span = Some (2000000, 2500000)\<rparr>"

lemma sample_segment_deletable:
  "classify (\<lambda>_. False) sample_segment 3000000 (protection_ranges sample_store 8000000) False []
     = [''DELETABLE_NO_ML_CONSUMER'']"
  by code_simp

lemma deletable_is_unneeded_witness:
  "\<exists>start stop. se_span sample_segment = Some (start, stop) \<and> stop \<le> 3000000
    \<and> (stop < active_evidence_start (sample_signal\<lparr>sg_created_ms := 5000000\<rparr>) 8000000
       \<or> max 8000000 (holding_deadline (sample_signal\<lparr>sg_created_ms := 5000000\<rparr>)) < start)"
proof -
  have d: "deletable (classify (\<lambda>_. False) sample_segment 3000000 (protection_ranges sample_store 8000000) False [])"
    unfolding sample_segment_deletable by (simp add: deletable_def)
  have s: "sample_signal\<lparr>sg_created_ms := 5000000\<rparr> \<in> set (es_signals sample_store)"
    "sg_state (sample_signal\<lparr>sg_created_ms := 5000000\<rparr>) \<notin> TERMINAL"
    by (simp_all add: sample_store_def sample_signal_def)
  show ?thesis using deletable_is_unneeded [OF d] s by blast
qed

lemma label_class_cases: "label_class ls = ''UNKNOWN_FAIL_CLOSED'' \<or> label_class ls \<in> set cleanup_order"
  by (simp add: label_class_def cleanup_order_def)

lemma keep_reasons_kept: "c \<in> set (keep_reasons start stop cutoff ranges) \<Longrightarrow> \<not> prefix ''DELETABLE_'' c"
  using protection_class_kept by (auto simp: keep_reasons_def split: if_splits)

lemma classify_cases:
  "(classify pruned m cutoff ranges corrupt done \<noteq> []
     \<and> (\<forall>c \<in> set (classify pruned m cutoff ranges corrupt done). \<not> prefix ''DELETABLE_'' c))
   \<or> (\<exists>c \<in> set cleanup_order. classify pruned m cutoff ranges corrupt done = [c])"
proof (cases "se_span m")
  case (Some span)
  obtain start stop where span: "span = (start, stop)" by (cases span)
  show ?thesis
  proof (cases "stop < start \<or> keep_reasons start stop cutoff ranges = []")
    case True
    then consider "classify pruned m cutoff ranges corrupt done = [''UNKNOWN_FAIL_CLOSED'']"
      | "classify pruned m cutoff ranges corrupt done = [''DELETABLE_ALREADY_TOMBSTONED_RESIDUE'']"
      | "classify pruned m cutoff ranges corrupt done = [''DELETABLE_CORRUPT_UNRECOVERABLE'']"
      | ls where "classify pruned m cutoff ranges corrupt done = [label_class ls]"
      using Some span
      by (cases "stop < start"; cases "pruned (se_id m)"; cases corrupt) (simp_all add: classify_def Let_def)
    then show ?thesis
    proof cases
      case (4 ls)
      then show ?thesis using label_class_cases [of ls] by auto
    qed (simp_all add: cleanup_order_def)
  next
    case False
    then have "classify pruned m cutoff ranges corrupt done = sort (remdups (keep_reasons start stop cutoff ranges))"
      using Some span by (simp add: classify_def Let_def)
    moreover have "sort (remdups (keep_reasons start stop cutoff ranges)) \<noteq> []"
      using False by (metis remdups_eq_nil_iff set_empty set_sort)
    ultimately show ?thesis using keep_reasons_kept by simp
  qed
qed (simp add: classify_def)

lemma cleanup_order_deletes: "c \<in> set cleanup_order \<Longrightarrow> prefix ''DELETABLE_'' c"
  by (auto simp: cleanup_order_def)

lemma classes_exclusive:
  assumes "(cs \<noteq> [] \<and> (\<forall>c \<in> set cs. \<not> prefix ''DELETABLE_'' c)) \<or> (\<exists>c \<in> set cleanup_order. cs = [c])"
  shows "cs \<noteq> [] \<and> (deletable cs \<longleftrightarrow> (\<exists>c \<in> set cleanup_order. cs = [c]))
     \<and> (deletable cs \<longleftrightarrow> cleanup_priority cs < 6)"
  using assms
proof
  assume kept: "cs \<noteq> [] \<and> (\<forall>c \<in> set cs. \<not> prefix ''DELETABLE_'' c)"
  then have none: "filter (\<lambda>c. c \<in> set cleanup_order) cs = []"
    using cleanup_order_deletes by (auto simp: filter_empty_conv)
  then have "cleanup_priority cs = 6" by (simp add: cleanup_priority_def)
  moreover have "\<not> deletable cs" using kept by (cases cs) (auto simp: deletable_def)
  moreover have "\<not> (\<exists>c \<in> set cleanup_order. cs = [c])" using kept cleanup_order_deletes by auto
  ultimately show ?thesis using kept by simp
next
  assume "\<exists>c \<in> set cleanup_order. cs = [c]"
  then obtain c where c: "c \<in> set cleanup_order" "cs = [c]" by blast
  then have "cleanup_priority cs = index_of cleanup_order c" by (simp add: cleanup_priority_def)
  moreover have "index_of cleanup_order c < 6" by (simp add: index_of_def cleanup_order_def)
  ultimately show ?thesis using c cleanup_order_deletes [OF c(1)] by (simp add: deletable_def)
qed

text \<open>
  Every segment is either kept, with protection
  or doubt as the only classes, or has exactly one class, which allows deletion; only the latter
  get a cleanup priority.
\<close>

theorem classification_is_exclusive:
  "let cs = classify pruned m cutoff ranges corrupt done in
     cs \<noteq> [] \<and> (deletable cs \<longleftrightarrow> (\<exists>c \<in> set cleanup_order. cs = [c]))
     \<and> (deletable cs \<longleftrightarrow> cleanup_priority cs < 6)"
  unfolding Let_def by (rule classes_exclusive [OF classify_cases])

end
