(* ===== verification/Cleanup.thy ===== *)
theory Cleanup imports Retention begin

text \<open>
  Executing a cleanup plan, \<^verbatim>\<open>_execute\<close> of
  \<^verbatim>\<open>src/bybit_flow/recording_maintenance.py\<close>: raw segments and archives are
  released one at a time, each under its exclusive leases, after a fresh classification and a
  renewal of the run's ownership claim. What reaches the disk is a log of atomic actions, so that a
  crash is a prefix of the log. What the process observes at a step (its clock, the evidence store,
  the outcome of verifying the originals or of writing a replacement) is the step's view. The
  clock is read once per step. Orphaned files, archive health rows and the machine-learning
  inventory before and after are not modelled.
\<close>

subsection \<open>Disk and actions\<close>

record disk =
  dk_tomb :: "string list"
  dk_files :: "(string \<times> int) list"
  dk_map :: "(string \<times> string) list"
  dk_archives :: "(string \<times> string list \<times> int) list"

datatype action =
    Tombstone string
  | Unlink string
  | Publish string "string list" int
  | CommitPack string "string option" "string list" "string list"
  | UnlinkArchive string

text \<open>\<^verbatim>\<open>INSERT OR IGNORE\<close> of a tombstone\<close>

definition add_tomb :: "string \<Rightarrow> string list \<Rightarrow> string list" where
  "add_tomb i ts = (if i \<in> set ts then ts else ts @ [i])"

definition remap :: "string \<Rightarrow> string option \<Rightarrow> string list \<Rightarrow> string list \<Rightarrow> (string \<times> string) list \<Rightarrow> (string \<times> string) list" where
  "remap path target kept dead rows =
     filter (\<lambda>(i, a). \<not> (a = path \<and> i \<in> set dead))
       (map (\<lambda>(i, a). (i, if a = path \<and> i \<in> set kept then (case target of None \<Rightarrow> a | Some t \<Rightarrow> t) else a)) rows)"

fun apply_action :: "action \<Rightarrow> disk \<Rightarrow> disk" where
  "apply_action (Tombstone i) d = d\<lparr>dk_tomb := add_tomb i (dk_tomb d)\<rparr>"
| "apply_action (Unlink p) d = d\<lparr>dk_files := AList.delete p (dk_files d)\<rparr>"
| "apply_action (Publish p members n) d = d\<lparr>dk_archives := AList.update p (members, n) (dk_archives d)\<rparr>"
| "apply_action (CommitPack p target kept dead) d =
     d\<lparr>dk_map := remap p target kept dead (dk_map d), dk_tomb := fold add_tomb dead (dk_tomb d)\<rparr>"
| "apply_action (UnlinkArchive p) d = d\<lparr>dk_archives := AList.delete p (dk_archives d)\<rparr>"

subsection \<open>The run\<close>

record cleanup_run =
  ru_disk :: disk
  ru_log :: "action list"
  ru_leases :: "lease_row list"
  ru_claim :: "(string \<times> ms) option"
  ru_released :: "(string \<times> int) list"
  ru_deleted :: nat
  ru_repacked :: nat
  ru_skipped :: nat

definition act :: "action \<Rightarrow> cleanup_run \<Rightarrow> cleanup_run" where
  "act a r = r\<lparr>ru_disk := apply_action a (ru_disk r), ru_log := ru_log r @ [a]\<rparr>"

definition freed :: "cleanup_run \<Rightarrow> int" where
  "freed r = sum_list (map snd (ru_released r))"

definition release_bytes :: "int \<Rightarrow> string \<Rightarrow> cleanup_run \<Rightarrow> cleanup_run" where
  "release_bytes n category r = r\<lparr>ru_released := ru_released r @ [(category, n)]\<rparr>"

definition note_skip :: "cleanup_run \<Rightarrow> cleanup_run" where
  "note_skip r = r\<lparr>ru_skipped := Suc (ru_skipped r)\<rparr>"

record cleanup_plan =
  cp_cutoff :: ms
  cp_finalized :: "finalized list"
  cp_maximum :: "int option"

text \<open>Writing the replacement archive: done, stopped by a busy lease, or failed.\<close>

datatype replacement = Replaced string int | ReplaceBusy | ReplaceFailed

record view =
  vw_now :: ms
  vw_leases :: "lease_row list"
  vw_claim :: "(string \<times> ms) option"
  vw_store :: evidence_store
  vw_rows_intact :: bool
  vw_originals :: "string option"
  vw_lease_ids :: "string list"
  vw_replacement :: replacement

datatype flow = Go_on cleanup_run | Break cleanup_run | Abort cleanup_run

fun run_of :: "flow \<Rightarrow> cleanup_run" where
  "run_of (Go_on r) = r"
| "run_of (Break r) = r"
| "run_of (Abort r) = r"

fun map_flow :: "(cleanup_run \<Rightarrow> cleanup_run) \<Rightarrow> flow \<Rightarrow> flow" where
  "map_flow f (Go_on r) = Go_on (f r)"
| "map_flow f (Break r) = Break (f r)"
| "map_flow f (Abort r) = Abort (f r)"

subsection \<open>Ownership\<close>

text \<open>\<^verbatim>\<open>execute\<close>: the run's claim, taken only when no unexpired one is stored.\<close>

definition take_ownership :: "ms \<Rightarrow> string \<Rightarrow> (string \<times> ms) option \<Rightarrow> (string \<times> ms) option" where
  "take_ownership now owner stored =
     (case stored of None \<Rightarrow> Some (owner, now + 600000)
      | Some (other, expires) \<Rightarrow> if now < expires then None else Some (owner, now + 600000))"

definition drop_ownership :: "string \<Rightarrow> (string \<times> ms) option \<Rightarrow> (string \<times> ms) option" where
  "drop_ownership owner stored =
     (case stored of None \<Rightarrow> None | Some (other, expires) \<Rightarrow> if other = owner then None else stored)"

text \<open>
  \<^verbatim>\<open>done\<close>: the claim is renewed only by its owner before it expires, and the frozen
  training rows must still be counted; otherwise the run stops with an error.
\<close>

definition renew_ownership :: "string \<Rightarrow> view \<Rightarrow> cleanup_run \<Rightarrow> cleanup_run option" where
  "renew_ownership owner v r =
     (case ru_claim r of None \<Rightarrow> None
      | Some (holder, expires) \<Rightarrow>
          if holder = owner \<and> vw_now v < expires \<and> vw_rows_intact v
          then Some (r\<lparr>ru_claim := Some (owner, vw_now v + 600000)\<rparr>) else None)"

definition budget_met :: "cleanup_plan \<Rightarrow> cleanup_run \<Rightarrow> bool" where
  "budget_met pl r = (case cp_maximum pl of None \<Rightarrow> False | Some m \<Rightarrow> m \<le> freed r)"

definition with_done :: "string \<Rightarrow> cleanup_plan \<Rightarrow> view \<Rightarrow> (cleanup_run \<Rightarrow> cleanup_run) \<Rightarrow> cleanup_run \<Rightarrow> (cleanup_run \<Rightarrow> flow) \<Rightarrow> flow" where
  "with_done owner pl v failed r go =
     (case renew_ownership owner v r of
        None \<Rightarrow> Abort (failed r)
      | Some r' \<Rightarrow> if budget_met pl r' then Break r' else go r')"

subsection \<open>Leases of a step\<close>

definition step_lease :: "string \<Rightarrow> ms \<times> ms \<Rightarrow> lease" where
  "step_lease i = (\<lambda>(start, stop). \<lparr>ls_id = i, ls_start = start, ls_end = stop, ls_exclusive = True, ls_last_beat = 0\<rparr>)"

text \<open>The leases entered one after the other; a busy one leaves those already entered.\<close>

fun enter_leases :: "ms \<Rightarrow> (string \<times> (ms \<times> ms)) list \<Rightarrow> lease_row list \<Rightarrow> lease_row list option" where
  "enter_leases now [] rows = Some rows"
| "enter_leases now ((i, period) # ls) rows =
     (case heartbeat now None True (step_lease i period) rows of
        Inl _ \<Rightarrow> None
      | Inr (_, rows') \<Rightarrow> enter_leases now ls rows')"

definition leave_leases :: "string list \<Rightarrow> cleanup_run \<Rightarrow> cleanup_run" where
  "leave_leases ids r = r\<lparr>ru_leases := filter (\<lambda>x. lr_id x \<notin> set ids) (ru_leases r)\<rparr>"

definition consumer_ranges :: "view \<Rightarrow> protected list" where
  "consumer_ranges v =
     filter (\<lambda>(_, _, reason). reason \<noteq> ''replay/maintenance lease'') (protection_ranges (vw_store v) (vw_now v))"

definition is_pruned :: "cleanup_run \<Rightarrow> string \<Rightarrow> bool" where
  "is_pruned r i \<longleftrightarrow> i \<in> set (dk_tomb (ru_disk r))"

subsection \<open>One raw segment\<close>

record raw_item =
  ri_segment :: segment
  ri_paths :: "string list"
  ri_classes :: "string list"

definition PROVEN_CORRUPTION :: "string set" where
  "PROVEN_CORRUPTION = {''ARCHIVE_BAD_ZIP'', ''ARCHIVE_MEMBER_MISSING'', ''RAW_HASH_MISMATCH'',
     ''MANIFEST_MISMATCH'', ''RAW_GZIP_TRUNCATED'', ''JSON_DECODE_ERROR''}"

definition unlink_path :: "string \<Rightarrow> string \<Rightarrow> cleanup_run \<Rightarrow> cleanup_run" where
  "unlink_path category p r =
     (case map_of (dk_files (ru_disk r)) p of None \<Rightarrow> r
      | Some n \<Rightarrow> release_bytes n category (act (Unlink p) r))"

text \<open>After the tombstone: the lease is renewed once more before any file goes.\<close>

definition unlink_raw :: "view \<Rightarrow> string \<Rightarrow> ms \<times> ms \<Rightarrow> raw_item \<Rightarrow> string list \<Rightarrow> cleanup_run \<Rightarrow> flow" where
  "unlink_raw v i period it classes r =
     (case heartbeat (vw_now v) None True (step_lease i period) (ru_leases r) of
        Inl _ \<Rightarrow> Go_on r
      | Inr (_, rows) \<Rightarrow> Go_on (fold (unlink_path (hd classes)) (ri_paths it) (r\<lparr>ru_leases := rows\<rparr>)))"

definition release_raw :: "string \<Rightarrow> cleanup_plan \<Rightarrow> view \<Rightarrow> string \<Rightarrow> ms \<times> ms \<Rightarrow> raw_item \<Rightarrow> cleanup_run \<Rightarrow> flow" where
  "release_raw owner pl v i period it r =
     (let g = ri_segment it;
          classes = classify (is_pruned r) g (cp_cutoff pl) (consumer_ranges v)
            (''DELETABLE_CORRUPT_UNRECOVERABLE'' \<in> set (ri_classes it)) (cp_finalized pl)
      in if \<not> deletable classes then Go_on r
         else if is_pruned r (se_id g) then unlink_raw v i period it classes r
         else if (case vw_originals v of None \<Rightarrow> False
                  | Some cause \<Rightarrow> classes \<noteq> [''DELETABLE_CORRUPT_UNRECOVERABLE''] \<or> cause \<notin> PROVEN_CORRUPTION)
         then Go_on (note_skip r)
         else with_done owner pl v note_skip r (\<lambda>r'.
                unlink_raw v i period it classes
                  ((act (Tombstone (se_id g)) r')\<lparr>ru_deleted := Suc (ru_deleted r')\<rparr>)))"

definition raw_step :: "string \<Rightarrow> cleanup_plan \<Rightarrow> nat \<Rightarrow> view \<Rightarrow> raw_item \<Rightarrow> cleanup_run \<Rightarrow> flow" where
  "raw_step owner pl priority v it r =
     (if cleanup_priority (ri_classes it) \<noteq> priority then Go_on r
      else with_done owner pl v id r (\<lambda>r1.
        if \<not> deletable (ri_classes it) then Go_on r1
        else
          case (se_span (ri_segment it), vw_lease_ids v) of
            (Some period, i # _) \<Rightarrow>
              (case enter_leases (vw_now v) [(i, period)] (ru_leases r1) of
                 None \<Rightarrow> Go_on r1
               | Some rows \<Rightarrow> map_flow (leave_leases [i]) (release_raw owner pl v i period it (r1\<lparr>ru_leases := rows\<rparr>)))
          | _ \<Rightarrow> Go_on r1))"

subsection \<open>One archive\<close>

record pack =
  pk_path :: string
  pk_members :: "(segment \<times> string list) list"
  pk_repackable :: bool
  pk_valid :: "string list"
  pk_repairable :: "string list"
  pk_corrupt :: "string list"
  pk_unknown :: "string list"
  pk_member_bytes :: "(string \<times> int) list"
  pk_errors :: bool

definition pk_retained :: "pack \<Rightarrow> bool" where
  "pk_retained k \<longleftrightarrow> list_ex (\<lambda>(_, cs). \<not> deletable cs) (pk_members k)"

definition pk_dead :: "pack \<Rightarrow> bool" where
  "pk_dead k \<longleftrightarrow> list_ex (\<lambda>(_, cs). deletable cs) (pk_members k)"

definition pack_priority :: "pack \<Rightarrow> nat" where
  "pack_priority k =
     (if pk_retained k then 5
      else case map (\<lambda>(_, cs). cleanup_priority cs) (pk_members k) of [] \<Rightarrow> 6 | p # ps \<Rightarrow> fold min ps p)"

text \<open>The classes of the members once the leases are held; own leases do not protect.\<close>

definition current_classes ::
    "cleanup_plan \<Rightarrow> view \<Rightarrow> string list \<Rightarrow> pack \<Rightarrow> cleanup_run \<Rightarrow> (segment \<times> string list) list" where
  "current_classes pl v own k r =
     (let ranges = consumer_ranges v
            @ lease_ranges (vw_now v) (filter (\<lambda>x. lr_id x \<notin> set own) (ru_leases r))
      in map (\<lambda>(g, _). (g, if se_id g \<in> set (pk_unknown k) then [''UNKNOWN_FAIL_CLOSED'']
           else classify (is_pruned r) g (cp_cutoff pl) ranges
                  (se_id g \<in> set (pk_corrupt k) \<and> se_id g \<notin> set (pk_repairable k)) (cp_finalized pl)))
           (pk_members k))"

definition ids_of :: "(segment \<times> string list) list \<Rightarrow> string list" where
  "ids_of ms = map (\<lambda>(g, _). se_id g) ms"

text \<open>The bytes of a retired archive, credited to the classes of its members.\<close>

fun credit_members :: "pack \<Rightarrow> (segment \<times> string list) list \<Rightarrow> int \<Rightarrow> cleanup_run \<Rightarrow> int \<times> cleanup_run" where
  "credit_members k [] remaining r = (remaining, r)"
| "credit_members k ((g, cs) # ms) remaining r =
     (let n = min remaining (case map_of (pk_member_bytes k) (se_id g) of None \<Rightarrow> 0 | Some b \<Rightarrow> b)
      in credit_members k ms (remaining - n) (release_bytes n (hd cs) r))"

text \<open>
  The replacement is complete and verified before the mappings move; the mappings and tombstones
  commit together before the old archive goes.
\<close>

definition retire_pack ::
    "pack \<Rightarrow> (segment \<times> string list) list \<Rightarrow> (segment \<times> string list) list \<Rightarrow> (string \<times> int) option
     \<Rightarrow> cleanup_run \<Rightarrow> cleanup_run" where
  "retire_pack k kept dead target r =
     (let r1 = (case target of None \<Rightarrow> r | Some (p, n) \<Rightarrow> act (Publish p (ids_of kept) n) r);
          r2 = act (CommitPack (pk_path k) (map_option fst target) (ids_of kept) (ids_of dead)) r1;
          old_size = (case map_of (dk_archives (ru_disk r)) (pk_path k) of None \<Rightarrow> 0 | Some (_, n) \<Rightarrow> n);
          remaining = max 0 (old_size - (case target of None \<Rightarrow> 0 | Some (_, n) \<Rightarrow> n));
          r3 = act (UnlinkArchive (pk_path k)) r2;
          r4 = (case target of
                  Some _ \<Rightarrow> release_bytes remaining ''mixed-pack reclamation'' r3
                | None \<Rightarrow>
                    (let (rest, r') = credit_members k dead remaining r3
                     in release_bytes rest (if pk_valid k = [] \<and> pk_errors k then ''corrupt/unreadable''
                                            else ''no-consumer raw'') r'))
      in r4\<lparr>ru_deleted := ru_deleted r4 + length dead,
            ru_repacked := ru_repacked r4 + (if target \<noteq> None \<and> dead \<noteq> [] then 1 else 0)\<rparr>)"

definition release_pack :: "string \<Rightarrow> cleanup_plan \<Rightarrow> view \<Rightarrow> string list \<Rightarrow> pack \<Rightarrow> cleanup_run \<Rightarrow> flow" where
  "release_pack owner pl v own k r =
     (let current = current_classes pl v own k r;
          dead = filter (\<lambda>(_, cs). deletable cs) current;
          kept = filter (\<lambda>(_, cs). \<not> deletable cs) current
      in if dead = [] \<and> pk_repairable k = [] then Go_on r
         else if list_ex (\<lambda>i. i \<notin> set (pk_valid k @ pk_repairable k)) (ids_of kept) then Go_on r
         else with_done owner pl v note_skip r (\<lambda>r'.
           if kept = [] then Go_on (retire_pack k kept dead None r')
           else case vw_replacement v of
                  ReplaceBusy \<Rightarrow> Go_on r'
                | ReplaceFailed \<Rightarrow> Go_on (note_skip r')
                | Replaced p n \<Rightarrow>
                    if p \<in> fst ` set (dk_archives (ru_disk r')) then Go_on (note_skip r')
                    else Go_on (retire_pack k kept dead (Some (p, n)) r')))"

definition pack_step :: "string \<Rightarrow> cleanup_plan \<Rightarrow> nat \<Rightarrow> view \<Rightarrow> pack \<Rightarrow> cleanup_run \<Rightarrow> flow" where
  "pack_step owner pl priority v k r =
     (if pack_priority k \<noteq> priority then Go_on r
      else with_done owner pl v id r (\<lambda>r1.
        if pk_retained k \<and> \<not> pk_repackable k \<and> pk_repairable k = [] then Go_on r1
        else if \<not> pk_dead k \<and> pk_repairable k = [] then Go_on r1
        else
          let own = take (length (pk_members k)) (vw_lease_ids v) in
          case those (map (\<lambda>(g, _). se_span g) (pk_members k)) of
            None \<Rightarrow> Go_on (note_skip r1)
          | Some periods \<Rightarrow>
              (case enter_leases (vw_now v) (zip own periods) (ru_leases r1) of
                 None \<Rightarrow> Go_on r1
               | Some rows \<Rightarrow> map_flow (leave_leases own) (release_pack owner pl v own k (r1\<lparr>ru_leases := rows\<rparr>)))))"

text \<open>
  The two loops of one priority; a break leaves its loop only, and the raw items go by their last
  receipt (a manifest without one, for which the sort raises, is given the key 0 here). Between
  steps other processes write to the store, so every step starts from the leases and the claim it
  finds there.
\<close>

definition observe_store :: "view \<Rightarrow> cleanup_run \<Rightarrow> cleanup_run" where
  "observe_store v r = r\<lparr>ru_leases := vw_leases v, ru_claim := vw_claim v\<rparr>"

fun loop :: "('a \<Rightarrow> cleanup_run \<Rightarrow> flow) \<Rightarrow> 'a list \<Rightarrow> cleanup_run \<Rightarrow> flow" where
  "loop step [] r = Go_on r"
| "loop step (x # xs) r =
     (case step x r of Go_on r' \<Rightarrow> loop step xs r' | Break r' \<Rightarrow> Go_on r' | Abort r' \<Rightarrow> Abort r')"

definition last_receipt :: "raw_item \<Rightarrow> ms" where
  "last_receipt it = (case se_span (ri_segment it) of None \<Rightarrow> 0 | Some (_, stop) \<Rightarrow> stop)"

definition priority_pass ::
    "string \<Rightarrow> cleanup_plan \<Rightarrow> (view \<times> pack) list \<Rightarrow> (view \<times> raw_item) list \<Rightarrow> nat \<Rightarrow> cleanup_run \<Rightarrow> flow" where
  "priority_pass owner pl packs items priority r =
     (case loop (\<lambda>(v, k) x. pack_step owner pl priority v k (observe_store v x)) packs r of
        Go_on r' \<Rightarrow>
          loop (\<lambda>(v, it) x. raw_step owner pl priority v it (observe_store v x)) (sort_key (last_receipt \<circ> snd) items) r'
      | f \<Rightarrow> f)"

text \<open>The views of every step, by priority: a step of another priority looks at nothing.\<close>

fun cleanup_passes ::
    "string \<Rightarrow> cleanup_plan \<Rightarrow> (nat \<Rightarrow> (view \<times> pack) list) \<Rightarrow> (nat \<Rightarrow> (view \<times> raw_item) list) \<Rightarrow> nat list
     \<Rightarrow> cleanup_run \<Rightarrow> flow" where
  "cleanup_passes owner pl packs items [] r = Go_on r"
| "cleanup_passes owner pl packs items (n # ns) r =
     (case priority_pass owner pl (packs n) (items n) n r of
        Go_on r' \<Rightarrow> cleanup_passes owner pl packs items ns r'
      | f \<Rightarrow> f)"

definition execute_cleanup ::
    "string \<Rightarrow> cleanup_plan \<Rightarrow> (nat \<Rightarrow> (view \<times> pack) list) \<Rightarrow> (nat \<Rightarrow> (view \<times> raw_item) list) \<Rightarrow> cleanup_run \<Rightarrow> flow" where
  "execute_cleanup owner pl packs items r = cleanup_passes owner pl packs items [0..<6] r"

subsection \<open>Crash safety\<close>

text \<open>
  What must hold of the disk at every moment of a cleanup: a registered raw file that has gone is
  tombstoned, a mapped segment lies in an archive that exists, and a segment loses its mapping only
  to a tombstone. \<^verbatim>\<open>owned p\<close> is the segment a registered raw path belongs to.
\<close>

definition readable :: "disk \<Rightarrow> bool" where
  "readable d \<longleftrightarrow> (\<forall>(i, a) \<in> set (dk_map d). \<exists>ms n. map_of (dk_archives d) a = Some (ms, n) \<and> i \<in> set ms)"

definition files_accounted :: "(string \<Rightarrow> string option) \<Rightarrow> disk \<Rightarrow> disk \<Rightarrow> bool" where
  "files_accounted owned d0 d \<longleftrightarrow>
     (\<forall>p \<in> fst ` set (dk_files d0). \<forall>i. owned p = Some i \<longrightarrow> p \<in> fst ` set (dk_files d) \<or> i \<in> set (dk_tomb d))"

definition mapped_accounted :: "disk \<Rightarrow> disk \<Rightarrow> bool" where
  "mapped_accounted d0 d \<longleftrightarrow>
     (\<forall>i \<in> fst ` set (dk_map d0). i \<in> fst ` set (dk_map d) \<or> i \<in> set (dk_tomb d))"

definition disk_safe :: "(string \<Rightarrow> string option) \<Rightarrow> disk \<Rightarrow> disk \<Rightarrow> bool" where
  "disk_safe owned d0 d \<longleftrightarrow>
     files_accounted owned d0 d \<and> readable d \<and> mapped_accounted d0 d \<and> set (dk_tomb d0) \<subseteq> set (dk_tomb d)"

text \<open>What the plan knows of the archives it lists: all segments mapped into them.\<close>

definition packs_cover :: "pack list \<Rightarrow> disk \<Rightarrow> bool" where
  "packs_cover packs d \<longleftrightarrow>
     (\<forall>k \<in> set packs. \<forall>(i, a) \<in> set (dk_map d). a = pk_path k \<longrightarrow> i \<in> set (ids_of (pk_members k)))"

definition run_inv :: "(string \<Rightarrow> string option) \<Rightarrow> pack list \<Rightarrow> disk \<Rightarrow> cleanup_run \<Rightarrow> bool" where
  "run_inv owned packs d0 r \<longleftrightarrow>
     ru_disk r = fold apply_action (ru_log r) d0
     \<and> (\<forall>n. disk_safe owned d0 (fold apply_action (take n (ru_log r)) d0))
     \<and> packs_cover packs (ru_disk r)"

lemma run_inv_cong:
  "ru_disk r = ru_disk r' \<Longrightarrow> ru_log r = ru_log r' \<Longrightarrow> run_inv owned packs d0 r = run_inv owned packs d0 r'"
  by (simp add: run_inv_def)

lemma run_inv_safe: "run_inv owned packs d0 r \<Longrightarrow> disk_safe owned d0 (ru_disk r)"
  unfolding run_inv_def by (metis take_all order_refl)

lemma run_inv_act:
  assumes "run_inv owned packs d0 r" "disk_safe owned d0 (apply_action a (ru_disk r))"
    "packs_cover packs (apply_action a (ru_disk r))"
  shows "run_inv owned packs d0 (act a r)"
proof -
  have "disk_safe owned d0 (fold apply_action (take n (ru_log r @ [a])) d0)" for n
    using assms by (cases "n \<le> length (ru_log r)") (simp_all add: run_inv_def)
  then show ?thesis using assms by (simp add: run_inv_def act_def)
qed

lemma set_add_tomb [simp]: "set (add_tomb i ts) = insert i (set ts)"
  by (auto simp: add_tomb_def)

lemma set_fold_add_tomb [simp]: "set (fold add_tomb is ts) = set is \<union> set ts"
  by (induction "is" arbitrary: ts) auto

lemma set_alist_delete [simp]: "fst ` set (AList.delete p xs) = fst ` set xs - {p}"
  by (metis delete_keys list.set_map set_removeAll)

lemma safe_tombstone:
  "disk_safe owned d0 d \<Longrightarrow> packs_cover packs d \<Longrightarrow>
     disk_safe owned d0 (apply_action (Tombstone i) d) \<and> packs_cover packs (apply_action (Tombstone i) d)"
  by (auto simp: disk_safe_def files_accounted_def mapped_accounted_def packs_cover_def readable_def)

lemma safe_unlink:
  assumes "disk_safe owned d0 d" "packs_cover packs d" "owned p = Some i" "i \<in> set (dk_tomb d)"
  shows "disk_safe owned d0 (apply_action (Unlink p) d) \<and> packs_cover packs (apply_action (Unlink p) d)"
proof -
  have "files_accounted owned d0 (apply_action (Unlink p) d)"
    unfolding files_accounted_def
  proof (intro ballI allI impI)
    fix q j assume q: "q \<in> fst ` set (dk_files d0)" "owned q = Some j"
    then have "q \<in> fst ` set (dk_files d) \<or> j \<in> set (dk_tomb d)"
      using assms(1) by (auto simp: disk_safe_def files_accounted_def)
    then show "q \<in> fst ` set (dk_files (apply_action (Unlink p) d)) \<or> j \<in> set (dk_tomb (apply_action (Unlink p) d))"
      using assms(3,4) q(2) by (cases "q = p") simp_all
  qed
  then show ?thesis using assms(1,2) by (simp add: disk_safe_def mapped_accounted_def packs_cover_def readable_def)
qed

lemma readable_archives:
  assumes "readable d" "dk_map d' = dk_map d"
    and "\<And>i a x. (i, a) \<in> set (dk_map d) \<Longrightarrow> map_of (dk_archives d) a = Some x \<Longrightarrow> map_of (dk_archives d') a = Some x"
  shows "readable d'"
  unfolding readable_def assms(2)
proof (intro ballI, clarify)
  fix i a assume ia: "(i, a) \<in> set (dk_map d)"
  with assms(1) obtain ms n where "map_of (dk_archives d) a = Some (ms, n)" "i \<in> set ms"
    unfolding readable_def by blast
  with assms(3) [OF ia] show "\<exists>ms n. map_of (dk_archives d') a = Some (ms, n) \<and> i \<in> set ms" by blast
qed

lemma safe_publish:
  assumes "disk_safe owned d0 d" "packs_cover packs d" "p \<notin> fst ` set (dk_archives d)"
  shows "disk_safe owned d0 (apply_action (Publish p ids n) d) \<and> packs_cover packs (apply_action (Publish p ids n) d)"
proof -
  have none: "map_of (dk_archives d) p = None" using assms(3) by (simp add: map_of_eq_None_iff)
  have "readable (apply_action (Publish p ids n) d)"
  proof (rule readable_archives)
    show "readable d" using assms(1) by (simp add: disk_safe_def)
    show "dk_map (apply_action (Publish p ids n) d) = dk_map d" by simp
    fix a x assume "map_of (dk_archives d) a = Some x"
    then show "map_of (dk_archives (apply_action (Publish p ids n) d)) a = Some x"
      using none by (cases "a = p") (simp_all add: update_conv)
  qed
  then show ?thesis using assms(1,2)
    by (simp add: disk_safe_def files_accounted_def mapped_accounted_def packs_cover_def)
qed

lemma in_remap:
  "(i, a) \<in> set (remap path target kept dead rows) \<longleftrightarrow>
     \<not> (a = path \<and> i \<in> set dead) \<and> (\<exists>b. (i, b) \<in> set rows
       \<and> a = (if b = path \<and> i \<in> set kept then (case target of None \<Rightarrow> b | Some t \<Rightarrow> t) else b))"
proof -
  let ?f = "\<lambda>(i, a). (i, if a = path \<and> i \<in> set kept then (case target of None \<Rightarrow> a | Some t \<Rightarrow> t) else a)"
  have "(i, a) \<in> set (remap path target kept dead rows)
      \<longleftrightarrow> (i, a) \<in> ?f ` set rows \<and> \<not> (a = path \<and> i \<in> set dead)"
    by (simp add: remap_def)
  moreover have "(i, a) \<in> ?f ` set rows \<longleftrightarrow> (\<exists>b. (i, b) \<in> set rows
       \<and> a = (if b = path \<and> i \<in> set kept then (case target of None \<Rightarrow> b | Some t \<Rightarrow> t) else b))"
    unfolding image_iff Bex_def split_paired_Ex split prod.inject by blast
  ultimately show ?thesis by blast
qed

text \<open>The commit of a pack: afterwards nothing is mapped into the old archive.\<close>

lemma safe_commit:
  assumes "disk_safe owned d0 d" "packs_cover packs d" "k \<in> set packs"
    and "set (ids_of (pk_members k)) \<subseteq> set kept \<union> set dead"
    and "case target of None \<Rightarrow> kept = []
       | Some t \<Rightarrow> (\<exists>n. map_of (dk_archives d) t = Some (kept, n)) \<and> t \<noteq> pk_path k \<and> t \<notin> pk_path ` set packs"
  defines "d' \<equiv> apply_action (CommitPack (pk_path k) target kept dead) d"
  shows "disk_safe owned d0 d' \<and> packs_cover packs d' \<and> pk_path k \<notin> snd ` set (dk_map d')"
proof -
  have row: "(\<exists>t. target = Some t \<and> a = t \<and> i \<in> set kept \<and> (i, pk_path k) \<in> set (dk_map d))
      \<or> (a \<noteq> pk_path k \<and> (i, a) \<in> set (dk_map d))" if "(i, a) \<in> set (dk_map d')" for i a
  proof -
    from that obtain b where b: "(i, b) \<in> set (dk_map d)" "\<not> (a = pk_path k \<and> i \<in> set dead)"
      "a = (if b = pk_path k \<and> i \<in> set kept then (case target of None \<Rightarrow> b | Some t \<Rightarrow> t) else b)"
      by (auto simp: d'_def in_remap)
    show ?thesis
    proof (cases "b = pk_path k")
      case True
      then have "i \<in> set kept \<union> set dead"
        using assms(2,3,4) b(1) unfolding packs_cover_def by blast
      then show ?thesis using b True assms(5) by (cases target) auto
    qed (use b in simp)
  qed
  have "readable d'"
    unfolding readable_def
  proof (intro ballI, clarify)
    fix i a assume "(i, a) \<in> set (dk_map d')"
    from row [OF this] show "\<exists>ms n. map_of (dk_archives d') a = Some (ms, n) \<and> i \<in> set ms"
    proof (elim disjE exE conjE)
      fix t assume "target = Some t" "a = t" "i \<in> set kept"
      then show ?thesis using assms(5) by (auto simp: d'_def)
    next
      assume "(i, a) \<in> set (dk_map d)"
      then show ?thesis using assms(1) by (force simp: d'_def disk_safe_def readable_def)
    qed
  qed
  moreover have "mapped_accounted d0 d'"
    unfolding mapped_accounted_def
  proof
    fix i assume "i \<in> fst ` set (dk_map d0)"
    then consider "i \<in> set (dk_tomb d)" | b where "(i, b) \<in> set (dk_map d)"
      using assms(1) unfolding disk_safe_def mapped_accounted_def by force
    then show "i \<in> fst ` set (dk_map d') \<or> i \<in> set (dk_tomb d')"
    proof cases
      case 1
      then show ?thesis by (simp add: d'_def)
    next
      case 2
      show ?thesis
      proof (cases "i \<in> set dead")
        case True
        then show ?thesis by (simp add: d'_def)
      next
        case False
        let ?a = "if b = pk_path k \<and> i \<in> set kept then (case target of None \<Rightarrow> b | Some t \<Rightarrow> t) else b"
        have "(i, ?a) \<in> set (dk_map d')" using 2 False by (simp add: d'_def in_remap) blast
        then show ?thesis by force
      qed
    qed
  qed
  moreover have "packs_cover packs d'"
    unfolding packs_cover_def
  proof (intro ballI, clarify)
    fix j i a assume j: "j \<in> set packs" and ia: "(i, pk_path j) \<in> set (dk_map d')"
    from row [OF ia] show "i \<in> set (ids_of (pk_members j))"
    proof (elim disjE exE conjE)
      fix t assume "target = Some t" "pk_path j = t"
      then show ?thesis using assms(5) j by auto
    next
      assume "(i, pk_path j) \<in> set (dk_map d)"
      then show ?thesis using assms(2) j unfolding packs_cover_def by blast
    qed
  qed
  moreover have "pk_path k \<notin> snd ` set (dk_map d')"
  proof
    assume "pk_path k \<in> snd ` set (dk_map d')"
    then obtain i where "(i, pk_path k) \<in> set (dk_map d')" by force
    from row [OF this] show False using assms(5) by auto
  qed
  ultimately show ?thesis
    using assms(1) by (auto simp: disk_safe_def files_accounted_def d'_def)
qed

lemma safe_unlink_archive:
  assumes "disk_safe owned d0 d" "packs_cover packs d" "p \<notin> snd ` set (dk_map d)"
  shows "disk_safe owned d0 (apply_action (UnlinkArchive p) d) \<and> packs_cover packs (apply_action (UnlinkArchive p) d)"
proof -
  have "readable (apply_action (UnlinkArchive p) d)"
  proof (rule readable_archives)
    show "readable d" using assms(1) by (simp add: disk_safe_def)
    show "dk_map (apply_action (UnlinkArchive p) d) = dk_map d" by simp
    fix i a x assume "(i, a) \<in> set (dk_map d)" "map_of (dk_archives d) a = Some x"
    then show "map_of (dk_archives (apply_action (UnlinkArchive p) d)) a = Some x"
      using assms(3) by (cases "a = p") (force, simp add: delete_conv)
  qed
  then show ?thesis using assms(1,2) by (simp add: disk_safe_def files_accounted_def mapped_accounted_def packs_cover_def)
qed

subsection \<open>Steps keep the invariant\<close>

lemma act_core [simp]:
  "ru_disk (act a r) = apply_action a (ru_disk r)" "ru_log (act a r) = ru_log r @ [a]"
  by (simp_all add: act_def)

lemma bookkeeping_core [simp]:
  "ru_disk (release_bytes n c r) = ru_disk r" "ru_log (release_bytes n c r) = ru_log r"
  "ru_disk (note_skip r) = ru_disk r" "ru_log (note_skip r) = ru_log r"
  "ru_disk (leave_leases ids r) = ru_disk r" "ru_log (leave_leases ids r) = ru_log r"
  by (simp_all add: release_bytes_def note_skip_def leave_leases_def)

lemma renew_core: "renew_ownership owner v r = Some r' \<Longrightarrow> ru_disk r' = ru_disk r \<and> ru_log r' = ru_log r"
  by (auto simp: renew_ownership_def split: option.splits if_splits)

lemma map_flow_run [simp]: "run_of (map_flow f x) = f (run_of x)"
  by (cases x) simp_all

lemma credit_core: "ru_disk (snd (credit_members k ms n r)) = ru_disk r \<and> ru_log (snd (credit_members k ms n r)) = ru_log r"
  by (induction k ms n r rule: credit_members.induct) (simp_all add: Let_def)

lemma with_done_inv:
  assumes "run_inv owned packs d0 r" "\<And>x. ru_disk (failed x) = ru_disk x \<and> ru_log (failed x) = ru_log x"
    and "\<And>r'. renew_ownership owner v r = Some r' \<Longrightarrow> run_inv owned packs d0 r' \<Longrightarrow> run_inv owned packs d0 (run_of (go r'))"
  shows "run_inv owned packs d0 (run_of (with_done owner pl v failed r go))"
proof (cases "renew_ownership owner v r")
  case None
  then show ?thesis using assms(1) run_inv_cong [of "failed r" r] assms(2) by (simp add: with_done_def)
next
  case (Some r')
  then have "run_inv owned packs d0 r'" using assms(1) renew_core [OF Some] run_inv_cong [of r' r] by simp
  then show ?thesis using assms(3) Some by (simp add: with_done_def)
qed

lemma run_inv_cover: "run_inv owned packs d0 r \<Longrightarrow> packs_cover packs (ru_disk r)"
  unfolding run_inv_def by blast

lemma run_inv_extend:
  assumes "run_inv owned packs d0 r"
    and "disk_safe owned d0 (apply_action a (ru_disk r)) \<and> packs_cover packs (apply_action a (ru_disk r))"
  shows "run_inv owned packs d0 (act a r)"
  using assms by (blast intro: run_inv_act)

lemma retire_pack_inv:
  assumes inv: "run_inv owned packs d0 r" and "k \<in> set packs"
    and members: "set (ids_of (pk_members k)) \<subseteq> set (ids_of kept) \<union> set (ids_of dead)"
    and target: "case target of None \<Rightarrow> kept = []
       | Some (p, n) \<Rightarrow> p \<notin> fst ` set (dk_archives (ru_disk r)) \<and> p \<notin> pk_path ` set packs"
  shows "run_inv owned packs d0 (retire_pack k kept dead target r)"
proof -
  define r1 where "r1 = (case target of None \<Rightarrow> r | Some (p, n) \<Rightarrow> act (Publish p (ids_of kept) n) r)"
  define a where "a = CommitPack (pk_path k) (map_option fst target) (ids_of kept) (ids_of dead)"
  have r1: "run_inv owned packs d0 r1"
    using run_inv_extend [OF inv safe_publish [OF run_inv_safe [OF inv] run_inv_cover [OF inv]]] inv target
    by (auto simp: r1_def split: option.splits)
  have "k \<in> set packs" by fact
  have "case map_option fst target of None \<Rightarrow> ids_of kept = []
       | Some t \<Rightarrow> (\<exists>n. map_of (dk_archives (ru_disk r1)) t = Some (ids_of kept, n)) \<and> t \<noteq> pk_path k \<and> t \<notin> pk_path ` set packs"
    using target assms(2) by (auto simp: r1_def ids_of_def update_conv split: option.splits)
  note commit = safe_commit [OF run_inv_safe [OF r1] run_inv_cover [OF r1] assms(2) members this, folded a_def]
  have r2: "run_inv owned packs d0 (act a r1)" using r1 commit by (intro run_inv_extend) blast+
  have "run_inv owned packs d0 (act (UnlinkArchive (pk_path k)) (act a r1))"
    using r2 commit safe_unlink_archive [OF run_inv_safe [OF r2] run_inv_cover [OF r2], of "pk_path k"]
    by (intro run_inv_extend [OF r2]) simp_all
  moreover have "ru_disk (retire_pack k kept dead target r) = ru_disk (act (UnlinkArchive (pk_path k)) (act a r1))
    \<and> ru_log (retire_pack k kept dead target r) = ru_log (act (UnlinkArchive (pk_path k)) (act a r1))"
    using credit_core unfolding retire_pack_def Let_def r1_def [symmetric] a_def [symmetric]
    by (auto split: option.split prod.split simp: prod_eq_iff)
  ultimately show ?thesis using run_inv_cong by blast
qed

definition fresh_target :: "pack list \<Rightarrow> view \<Rightarrow> bool" where
  "fresh_target packs v \<longleftrightarrow> (case vw_replacement v of Replaced p _ \<Rightarrow> p \<notin> pk_path ` set packs | _ \<Rightarrow> True)"

lemma ids_of_current: "set (ids_of (current_classes pl v own k r)) = set (ids_of (pk_members k))"
  by (simp add: ids_of_def current_classes_def Let_def image_image case_prod_unfold)

lemma release_pack_inv:
  assumes "run_inv owned packs d0 r" "k \<in> set packs" "fresh_target packs v"
  shows "run_inv owned packs d0 (run_of (release_pack owner pl v own k r))"
proof -
  let ?current = "current_classes pl v own k r"
  let ?dead = "filter (\<lambda>(_, cs). deletable cs) ?current" and ?kept = "filter (\<lambda>(_, cs). \<not> deletable cs) ?current"
  have "set (ids_of ?current) \<subseteq> set (ids_of ?kept) \<union> set (ids_of ?dead)" by (auto simp: ids_of_def)
  then have members: "set (ids_of (pk_members k)) \<subseteq> set (ids_of ?kept) \<union> set (ids_of ?dead)"
    unfolding ids_of_current .
  have retire: "run_inv owned packs d0 (run_of (if ?kept = [] then Go_on (retire_pack k ?kept ?dead None r')
           else case vw_replacement v of
                  ReplaceBusy \<Rightarrow> Go_on r'
                | ReplaceFailed \<Rightarrow> Go_on (note_skip r')
                | Replaced p n \<Rightarrow>
                    if p \<in> fst ` set (dk_archives (ru_disk r')) then Go_on (note_skip r')
                    else Go_on (retire_pack k ?kept ?dead (Some (p, n)) r')))"
    if r': "run_inv owned packs d0 r'" for r'
  proof -
    have "run_inv owned packs d0 (note_skip r')" using r' run_inv_cong [of "note_skip r'" r'] by simp
    then show ?thesis
      using r' retire_pack_inv [OF r' assms(2) members] assms(3)
      by (auto simp: fresh_target_def split: replacement.splits)
  qed
  show ?thesis
    unfolding release_pack_def Let_def using assms(1) with_done_inv [OF assms(1) _ retire] by simp
qed

lemma enter_leases_core: "run_inv owned packs d0 (r\<lparr>ru_leases := rows\<rparr>) = run_inv owned packs d0 r"
  by (rule run_inv_cong) simp_all

lemma leave_leases_inv: "run_inv owned packs d0 (leave_leases ids r) = run_inv owned packs d0 r"
  by (rule run_inv_cong) simp_all

lemma pack_step_inv:
  assumes "run_inv owned packs d0 r" "k \<in> set packs" "fresh_target packs v"
  shows "run_inv owned packs d0 (run_of (pack_step owner pl n v k r))"
proof -
  have sk: "run_inv owned packs d0 (note_skip x) = run_inv owned packs d0 x" for x by (rule run_inv_cong) simp_all
  show ?thesis
    unfolding pack_step_def Let_def
    using assms(1) release_pack_inv [OF _ assms(2,3)]
    by (auto intro!: with_done_inv simp: leave_leases_inv enter_leases_core sk split: option.split)
qed

text \<open>A raw item lists paths of its own segment only.\<close>

definition own_paths :: "(string \<Rightarrow> string option) \<Rightarrow> raw_item \<Rightarrow> bool" where
  "own_paths owned it \<longleftrightarrow> (\<forall>p \<in> set (ri_paths it). owned p = Some (se_id (ri_segment it)))"

lemma unlink_paths_inv:
  assumes "run_inv owned packs d0 r" "i \<in> set (dk_tomb (ru_disk r))" "\<forall>p \<in> set ps. owned p = Some i"
  shows "run_inv owned packs d0 (fold (unlink_path c) ps r)"
  using assms
proof (induction ps arbitrary: r)
  case (Cons p ps)
  have "run_inv owned packs d0 (act (Unlink p) r)"
    using Cons.prems safe_unlink [OF run_inv_safe [OF Cons.prems(1)] run_inv_cover [OF Cons.prems(1)]]
    by (intro run_inv_extend) simp_all
  then have "run_inv owned packs d0 (unlink_path c p r)"
    using Cons.prems(1) run_inv_cong [of "release_bytes n c (act (Unlink p) r)" "act (Unlink p) r" for n]
    by (auto simp: unlink_path_def split: option.split)
  moreover have "i \<in> set (dk_tomb (ru_disk (unlink_path c p r)))"
    using Cons.prems(2) by (auto simp: unlink_path_def split: option.split)
  ultimately show ?case using Cons.IH Cons.prems(3) by simp
qed simp

lemma unlink_raw_inv:
  assumes "run_inv owned packs d0 r" "se_id (ri_segment it) \<in> set (dk_tomb (ru_disk r))" "own_paths owned it"
  shows "run_inv owned packs d0 (run_of (unlink_raw v i period it classes r))"
  using assms unlink_paths_inv [of owned packs d0 "r\<lparr>ru_leases := rows\<rparr>" for rows]
  by (auto simp: unlink_raw_def own_paths_def enter_leases_core split: sum.split)

lemma release_raw_inv:
  assumes "run_inv owned packs d0 r" "own_paths owned it"
  shows "run_inv owned packs d0 (run_of (release_raw owner pl v i period it r))"
proof -
  have sk: "run_inv owned packs d0 (note_skip x) = run_inv owned packs d0 x" for x by (rule run_inv_cong) simp_all
  have tomb: "run_inv owned packs d0 (run_of (unlink_raw v i period it classes
      ((act (Tombstone (se_id (ri_segment it))) r')\<lparr>ru_deleted := n\<rparr>)))"
    if "run_inv owned packs d0 r'" for r' classes n
  proof -
    have "run_inv owned packs d0 (act (Tombstone (se_id (ri_segment it))) r')"
      using safe_tombstone [OF run_inv_safe [OF that] run_inv_cover [OF that]] that by (intro run_inv_extend)
    then have "run_inv owned packs d0 ((act (Tombstone (se_id (ri_segment it))) r')\<lparr>ru_deleted := n\<rparr>)"
      using run_inv_cong [of "(act (Tombstone (se_id (ri_segment it))) r')\<lparr>ru_deleted := n\<rparr>"
          "act (Tombstone (se_id (ri_segment it))) r'"] by simp
    then show ?thesis using assms(2) by (intro unlink_raw_inv) simp_all
  qed
  show ?thesis
    unfolding release_raw_def Let_def
    using assms tomb unlink_raw_inv [OF assms(1) _ assms(2)]
    by (auto intro!: with_done_inv simp: sk is_pruned_def)
qed

lemma raw_step_inv:
  assumes "run_inv owned packs d0 r" "own_paths owned it"
  shows "run_inv owned packs d0 (run_of (raw_step owner pl n v it r))"
  unfolding raw_step_def Let_def
  using assms(1) release_raw_inv [OF _ assms(2)]
  by (auto intro!: with_done_inv simp: leave_leases_inv enter_leases_core split: option.split list.split)

lemma observe_inv: "run_inv owned packs d0 (observe_store v r) = run_inv owned packs d0 r"
  by (rule run_inv_cong) (simp_all add: observe_store_def)

lemma loop_inv:
  assumes "\<And>x r. x \<in> set xs \<Longrightarrow> run_inv owned packs d0 r \<Longrightarrow> run_inv owned packs d0 (run_of (step x r))"
    and "run_inv owned packs d0 r"
  shows "run_inv owned packs d0 (run_of (loop step xs r))"
  using assms
proof (induction xs arbitrary: r)
  case (Cons x xs)
  then have "run_inv owned packs d0 (run_of (step x r))" by simp
  then show ?case using Cons by (cases "step x r") auto
qed simp

text \<open>A plan in order: its archives are the listed ones and its raw items name their own files.\<close>

definition plan_in_order ::
    "(string \<Rightarrow> string option) \<Rightarrow> pack list \<Rightarrow> (nat \<Rightarrow> (view \<times> pack) list) \<Rightarrow> (nat \<Rightarrow> (view \<times> raw_item) list) \<Rightarrow> bool" where
  "plan_in_order owned listed packs items \<longleftrightarrow>
     (\<forall>n. \<forall>(v, k) \<in> set (packs n). k \<in> set listed \<and> fresh_target listed v)
     \<and> (\<forall>n. \<forall>(v, it) \<in> set (items n). own_paths owned it)"

lemma priority_pass_inv:
  assumes "plan_in_order owned listed packs items" "run_inv owned listed d0 r"
  shows "run_inv owned listed d0 (run_of (priority_pass owner pl (packs n) (items n) n r))"
proof -
  have packs: "run_inv owned listed d0 (run_of (loop (\<lambda>(v, k) x. pack_step owner pl n v k (observe_store v x)) (packs n) x))"
    if "run_inv owned listed d0 x" for x
    using that assms(1) by (intro loop_inv) (auto simp: plan_in_order_def observe_inv intro!: pack_step_inv)
  have items: "run_inv owned listed d0 (run_of (loop (\<lambda>(v, it) x. raw_step owner pl n v it (observe_store v x))
      (sort_key (last_receipt \<circ> snd) (items n)) x))"
    if "run_inv owned listed d0 x" for x
    using that assms(1) by (intro loop_inv) (auto simp: plan_in_order_def observe_inv intro!: raw_step_inv)
  show ?thesis
    using packs [OF assms(2)] items unfolding priority_pass_def by (auto split: flow.split)
qed

lemma cleanup_passes_inv:
  assumes "plan_in_order owned listed packs items" "run_inv owned listed d0 r"
  shows "run_inv owned listed d0 (run_of (cleanup_passes owner pl packs items ns r))"
  using assms(2)
proof (induction ns arbitrary: r)
  case (Cons n ns)
  from priority_pass_inv [OF assms(1) Cons.prems, of owner pl n] Cons.IH show ?case by (auto split: flow.split)
qed simp

definition run_start :: "disk \<Rightarrow> cleanup_run" where
  "run_start d = \<lparr>ru_disk = d, ru_log = [], ru_leases = [], ru_claim = None, ru_released = [],
     ru_deleted = 0, ru_repacked = 0, ru_skipped = 0\<rparr>"


text \<open>What a raw step has checked before the disk changes.\<close>

lemma heartbeat_free:
  assumes "heartbeat now None True (step_lease i (start, stop)) rows = Inr (l, rows')" "x \<in> set rows" "lr_id x \<noteq> i"
  shows "\<not> row_overlaps now start stop x"
  using assms by (auto simp: heartbeat_def step_lease_def Let_def list_ex_iff split: if_splits)

text \<open>
  A raw step changes the disk only while its run owns
  an unexpired claim, the training rows are intact and the byte budget is not met, for a segment
  that no live plan, no unresolved snapshot and no other live lease needs at that moment.
\<close>

theorem raw_release_is_safe:
  assumes "ru_log (run_of (raw_step owner pl n v it r)) \<noteq> ru_log r"
  shows "\<exists>expires start stop i ids. ru_claim r = Some (owner, expires) \<and> vw_now v < expires \<and> vw_rows_intact v
    \<and> \<not> budget_met pl r
    \<and> se_span (ri_segment it) = Some (start, stop) \<and> start \<le> stop \<and> stop \<le> cp_cutoff pl \<and> vw_lease_ids v = i # ids
    \<and> (\<forall>s \<in> set (es_signals (vw_store v)). sg_state s \<notin> TERMINAL \<longrightarrow>
         stop < active_evidence_start s (vw_now v) \<or> max (vw_now v) (holding_deadline s) < start)
    \<and> (\<forall>u \<in> set (es_unresolved (vw_store v)).
         stop < unresolved_start u \<or> un_decision u + un_hold_max u * 60000 + 60000 < start)
    \<and> (\<forall>x \<in> set (ru_leases r). lr_id x \<noteq> i \<longrightarrow> \<not> row_overlaps (vw_now v) start stop x)"
proof -
  from assms obtain r1 where r1: "renew_ownership owner v r = Some r1" "\<not> budget_met pl r1"
    and rest: "ru_log (run_of (case (se_span (ri_segment it), vw_lease_ids v) of
            (Some period, i # _) \<Rightarrow>
              (case enter_leases (vw_now v) [(i, period)] (ru_leases r1) of
                 None \<Rightarrow> Go_on r1
               | Some rows \<Rightarrow> map_flow (leave_leases [i]) (release_raw owner pl v i period it (r1\<lparr>ru_leases := rows\<rparr>)))
          | _ \<Rightarrow> Go_on r1)) \<noteq> ru_log r"
    by (auto simp: raw_step_def with_done_def Let_def renew_core split: if_splits option.splits)
  have core: "ru_log r1 = ru_log r" "ru_leases r1 = ru_leases r" "budget_met pl r1 = budget_met pl r"
    and claim: "\<exists>expires. ru_claim r = Some (owner, expires) \<and> vw_now v < expires" "vw_rows_intact v"
    using r1(1) by (auto simp: renew_ownership_def budget_met_def freed_def split: option.splits if_splits)
  from rest core(1) obtain period i ids rows where
    p: "se_span (ri_segment it) = Some period" "vw_lease_ids v = i # ids"
      "enter_leases (vw_now v) [(i, period)] (ru_leases r) = Some rows"
      "ru_log (run_of (release_raw owner pl v i period it (r1\<lparr>ru_leases := rows\<rparr>))) \<noteq> ru_log r1"
    by (auto simp: core split: option.splits list.splits)
  obtain start stop where period: "period = (start, stop)" by (cases period)
  obtain classes where del: "deletable (classify classes (ri_segment it) (cp_cutoff pl) (consumer_ranges v)
      (''DELETABLE_CORRUPT_UNRECOVERABLE'' \<in> set (ri_classes it)) (cp_finalized pl))"
    using p(4) by (auto simp: release_raw_def Let_def split: if_splits)
  from classify_deletable [OF del] p(1) have span: "start \<le> stop" "stop \<le> cp_cutoff pl"
    and free: "\<And>a b reason. (a, b, reason) \<in> set (consumer_ranges v) \<Longrightarrow> stop < a \<or> b < start"
    unfolding period by fastforce+
  have signals: "stop < active_evidence_start s (vw_now v) \<or> max (vw_now v) (holding_deadline s) < start"
    if "s \<in> set (es_signals (vw_store v))" "sg_state s \<notin> TERMINAL" for s
    using that by (intro free [of _ _ "''active setup''"]) (auto simp: consumer_ranges_def protection_ranges_def active_range_def)
  have paths: "stop < unresolved_start u \<or> un_decision u + un_hold_max u * 60000 + 60000 < start"
    if "u \<in> set (es_unresolved (vw_store v))" for u
  proof -
    have "unresolved_range u \<in> set (consumer_ranges v)"
      using that by (auto simp: consumer_ranges_def protection_ranges_def unresolved_range_def Let_def)
    then show ?thesis using free by (fastforce simp: unresolved_range_def Let_def)
  qed
  obtain l where "heartbeat (vw_now v) None True (step_lease i (start, stop)) (ru_leases r) = Inr (l, rows)"
    using p(3) by (auto simp: period split: sum.splits)
  then have leases: "\<not> row_overlaps (vw_now v) start stop x" if "x \<in> set (ru_leases r)" "lr_id x \<noteq> i" for x
    using heartbeat_free that by blast
  show ?thesis using claim r1(2) core(3) p(1,2) span signals paths leases unfolding period by blast
qed

text \<open>A plan with one raw segment to drop and one archive of which a member is still recent.\<close>

definition sample_disk :: disk where
  "sample_disk = \<lparr>dk_tomb = [], dk_files = [(''g.jsonl.gz'', 100)], dk_map = [(''a'', ''p.zip''), (''b'', ''p.zip'')],
     dk_archives = [(''p.zip'', ([''a'', ''b''], 1000))]\<rparr>"

definition sample_view :: view where
  "sample_view = \<lparr>vw_now = 8000000, vw_leases = [], vw_claim = Some (''o'', 8500000), vw_store = sample_store,
     vw_rows_intact = True, vw_originals = None, vw_lease_ids = [''l1'', ''l2''], vw_replacement = Replaced ''q.zip'' 400\<rparr>"

definition sample_pack :: pack where
  "sample_pack = \<lparr>pk_path = ''p.zip'', pk_members =
       [(sample_segment\<lparr>se_id := ''a''\<rparr>, [''DELETABLE_NO_ML_CONSUMER'']),
        (\<lparr>se_id = ''b'', se_at = 3100000, se_span = Some (2900000, 3100000)\<rparr>, [''PROTECTED_RECENT_FLOOR''])],
     pk_repackable = True, pk_valid = [''a'', ''b''], pk_repairable = [], pk_corrupt = [], pk_unknown = [],
     pk_member_bytes = [(''a'', 500), (''b'', 400)], pk_errors = False\<rparr>"

definition sample_item :: raw_item where
  "sample_item = \<lparr>ri_segment = sample_segment, ri_paths = [''g.jsonl.gz''], ri_classes = [''DELETABLE_NO_ML_CONSUMER'']\<rparr>"

definition sample_cleanup_plan :: cleanup_plan where
  "sample_cleanup_plan = \<lparr>cp_cutoff = 3000000, cp_finalized = [], cp_maximum = None\<rparr>"

definition sample_packs :: "nat \<Rightarrow> (view \<times> pack) list" where
  "sample_packs n = (if n = 5 then [(sample_view, sample_pack)] else [])"

definition sample_items :: "nat \<Rightarrow> (view \<times> raw_item) list" where
  "sample_items n = (if n = 4 then [(sample_view, sample_item)] else [])"

lemma sample_log:
  "ru_log (run_of (execute_cleanup ''o'' sample_cleanup_plan sample_packs sample_items (run_start sample_disk)))
    = [Tombstone ''g'', Unlink ''g.jsonl.gz'', Publish ''q.zip'' [''b''] 400,
       CommitPack ''p.zip'' (Some ''q.zip'') [''b''] [''a''], UnlinkArchive ''p.zip'']"
  by code_simp


lemma raw_release_is_safe_witness:
  "\<exists>expires start stop. vw_claim sample_view = Some (''o'', expires) \<and> 8000000 < expires
    \<and> se_span sample_segment = Some (start, stop) \<and> stop \<le> 3000000"
proof -
  let ?r = "observe_store sample_view (run_start sample_disk)"
  have "ru_log (run_of (raw_step ''o'' sample_cleanup_plan 4 sample_view sample_item ?r)) \<noteq> ru_log ?r"
    by code_simp
  from raw_release_is_safe [OF this] obtain expires start stop where
    "ru_claim ?r = Some (''o'', expires)" "vw_now sample_view < expires"
    "se_span (ri_segment sample_item) = Some (start, stop)" "stop \<le> cp_cutoff sample_cleanup_plan"
    by (elim exE conjE)
  moreover have "ru_claim ?r = vw_claim sample_view" "vw_now sample_view = 8000000"
    "ri_segment sample_item = sample_segment" "cp_cutoff sample_cleanup_plan = 3000000"
    by (simp_all add: observe_store_def sample_view_def sample_item_def sample_cleanup_plan_def)
  ultimately show ?thesis by auto
qed

end
