(* ===== verification/Checkpoint.thy ===== *)
theory Checkpoint imports Retention begin

text \<open>
  Sealed replay checkpoints, \<^verbatim>\<open>src/bybit_flow/ml/checkpoint.py\<close>: what a checkpoint
  must satisfy before retention may let go of the tape it has consumed. The digest of the canonical
  JSON text is a parameter. A key that may be missing is an option; a lookup of a missing key raises
  inside the function's handler and gives None, as every malformed value does. A stored position is
  its signal and its exit time, with the flag that it validates.
\<close>

record position =
  ps_signal :: signal
  ps_exit :: "ms option"
  ps_valid :: bool

record checkpoint =
  ck_version :: "string option"
  ck_policy :: "string option"
  ck_saved :: "ms option"
  ck_boundary :: "ms option"
  ck_cursor :: "ms option"
  ck_input_hash :: "string option"
  ck_pending :: "int option"
  ck_positions :: "(string \<times> position) list option"
  ck_subscribed :: bool
  ck_last :: bool
  ck_seen :: bool

record snapshot =
  sn_decision :: ms
  sn_signal :: signal

definition seal :: "(checkpoint \<Rightarrow> string) \<Rightarrow> checkpoint \<Rightarrow> ms \<Rightarrow> checkpoint \<times> string option" where
  "seal digest c at_ms =
     (let value = c\<lparr>ck_version := Some ''primary-checkpoint-v1'', ck_saved := Some at_ms,
            ck_boundary := Some (case ck_boundary c of None \<Rightarrow> at_ms | Some b \<Rightarrow> b)\<rparr>
      in (value, Some (digest value)))"

definition hex64 :: "string \<Rightarrow> bool" where
  "hex64 s \<longleftrightarrow> length s = 64 \<and> list_all (\<lambda>ch. ch \<in> set ''abcdef0123456789'') s"

text \<open>The conditions on the checkpoint itself, all keys present.\<close>

definition checkpoint_sound :: "(checkpoint \<Rightarrow> string) \<Rightarrow> string option \<Rightarrow> checkpoint \<Rightarrow> ms \<Rightarrow> ms \<Rightarrow> bool" where
  "checkpoint_sound digest checksum c decided now \<longleftrightarrow>
     ck_version c = Some ''primary-checkpoint-v1'' \<and> ck_policy c = Some ''incremental-prints-v1''
     \<and> checksum = Some (digest c)
     \<and> (case (ck_saved c, ck_boundary c, ck_cursor c) of
          (Some saved, Some boundary, Some cursor) \<Rightarrow>
            0 \<le> now - saved \<and> now - saved \<le> 3600000
            \<and> decided \<le> cursor \<and> cursor \<le> now \<and> boundary \<le> saved \<and> saved \<le> now
        | _ \<Rightarrow> False)
     \<and> (case ck_input_hash c of None \<Rightarrow> False | Some h \<Rightarrow> hex64 h)
     \<and> ck_subscribed c \<and> ck_last c \<and> ck_seen c
     \<and> (case (ck_positions c, ck_pending c) of
          (Some ps, Some n) \<Rightarrow> n = int (length ps) | _ \<Rightarrow> False)"

definition consumed_cursor ::
    "(checkpoint \<Rightarrow> string) \<Rightarrow> (checkpoint \<times> string option) option \<Rightarrow> string \<Rightarrow> snapshot \<Rightarrow> ms \<Rightarrow> ms option" where
  "consumed_cursor digest stored i snap now =
     (case stored of
        None \<Rightarrow> None
      | Some (c, checksum) \<Rightarrow>
          if \<not> checkpoint_sound digest checksum c (sn_decision snap) now then None
          else
            case Option.bind (ck_positions c) (\<lambda>ps. map_of ps i) of
              None \<Rightarrow> None
            | Some p \<Rightarrow>
                if ps_signal p \<noteq> (sn_signal snap)\<lparr>sg_created_ms := sn_decision snap\<rparr> then None
                else if \<not> ps_valid p then None
                else if ps_exit p \<noteq> None then None
                else ck_cursor c)"

text \<open>The unresolved snapshot that retention protects, with the cursor its checkpoint has reached.\<close>

definition unresolved_of ::
    "(checkpoint \<Rightarrow> string) \<Rightarrow> (checkpoint \<times> string option) option \<Rightarrow> ms \<Rightarrow> string \<times> snapshot \<Rightarrow> unresolved" where
  "unresolved_of digest stored now = (\<lambda>(i, snap).
     \<lparr>un_decision = sn_decision snap, un_hold_max = sg_expected_hold_max (sn_signal snap),
      un_cursor = consumed_cursor digest stored i snap now\<rparr>)"

text \<open>
  A checkpoint sealed at a time is accepted up to an
  hour later exactly when its cursor lies between the decision and now, its verified boundary does
  not lie after the seal, its tape hash and its count of positions are right and it holds this
  snapshot's plan as an open position; then its own cursor is returned.
\<close>

theorem checkpoint_roundtrip:
  assumes "at_ms \<le> now" and "now \<le> at_ms + 3600000" and "ck_cursor c = Some cursor"
    and "ck_policy c = Some ''incremental-prints-v1''" and "ck_positions c = Some ps"
    and "ck_subscribed c" and "ck_last c" and "ck_seen c"
  shows "consumed_cursor digest (Some (seal digest c at_ms)) i snap now =
    (if sn_decision snap \<le> cursor \<and> cursor \<le> now
        \<and> (case ck_boundary c of None \<Rightarrow> True | Some b \<Rightarrow> b \<le> at_ms)
        \<and> (case ck_input_hash c of None \<Rightarrow> False | Some h \<Rightarrow> hex64 h)
        \<and> ck_pending c = Some (int (length ps))
        \<and> (case map_of ps i of None \<Rightarrow> False | Some p \<Rightarrow>
             ps_signal p = (sn_signal snap)\<lparr>sg_created_ms := sn_decision snap\<rparr> \<and> ps_valid p \<and> ps_exit p = None)
     then Some cursor else None)"
  using assms
  by (auto simp: consumed_cursor_def seal_def checkpoint_sound_def Let_def split: option.splits)

text \<open>
  Whatever is stored, a released cursor comes from
  a checkpoint whose digest is the recorded one; so unless the digests collide no altered content
  under an old seal ever releases tape, and a released cursor never lies in the future or before
  the decision it serves.
\<close>

theorem altered_checkpoint_refused:
  assumes "consumed_cursor digest (Some (c', snd (seal digest c at_ms))) i snap now = Some cursor"
    and "digest c' = digest (fst (seal digest c at_ms)) \<Longrightarrow> c' = fst (seal digest c at_ms)"
  shows "c' = fst (seal digest c at_ms) \<and> at_ms \<le> now \<and> now - at_ms \<le> 3600000
    \<and> sn_decision snap \<le> cursor \<and> cursor \<le> now \<and> ck_cursor c = Some cursor"
  using assms
  by (auto simp: consumed_cursor_def seal_def checkpoint_sound_def Let_def split: option.splits if_splits)

definition sample_checkpoint :: checkpoint where
  "sample_checkpoint =
     \<lparr>ck_version = None, ck_policy = Some ''incremental-prints-v1'', ck_saved = None, ck_boundary = None,
      ck_cursor = Some 90000, ck_input_hash = Some (replicate 64 (CHR ''a'')), ck_pending = Some 1,
      ck_positions = Some [(''n'', \<lparr>ps_signal = sample_signal\<lparr>sg_created_ms := 70000\<rparr>, ps_exit = None, ps_valid = True\<rparr>)],
      ck_subscribed = True, ck_last = True, ck_seen = True\<rparr>"

definition sample_digest :: "checkpoint \<Rightarrow> string" where
  "sample_digest c = (case ck_input_hash c of None \<Rightarrow> [] | Some h \<Rightarrow> h)"

lemma checkpoint_roundtrip_value:
  "consumed_cursor sample_digest (Some (seal sample_digest sample_checkpoint 100000)) ''n''
     \<lparr>sn_decision = 70000, sn_signal = sample_signal\<rparr> 200000 = Some 90000"
  by code_simp

lemma checkpoint_roundtrip_witness:
  "consumed_cursor sample_digest (Some (seal sample_digest sample_checkpoint 100000)) ''n''
     \<lparr>sn_decision = 70000, sn_signal = sample_signal\<rparr> 200000 = Some 90000"
proof -
  have c: "ck_cursor sample_checkpoint = Some 90000" "ck_policy sample_checkpoint = Some ''incremental-prints-v1''"
    "ck_positions sample_checkpoint = Some [(''n'', \<lparr>ps_signal = sample_signal\<lparr>sg_created_ms := 70000\<rparr>,
       ps_exit = None, ps_valid = True\<rparr>)]"
    "ck_subscribed sample_checkpoint" "ck_last sample_checkpoint" "ck_seen sample_checkpoint"
    by (simp_all add: sample_checkpoint_def)
  have rest: "ck_boundary sample_checkpoint = None" "ck_pending sample_checkpoint = Some 1"
    "ck_input_hash sample_checkpoint = Some (replicate 64 (CHR ''a''))"
    by (simp_all add: sample_checkpoint_def)
  have "hex64 (replicate 64 (CHR ''a''))" by (simp add: hex64_def list_all_iff)
  with checkpoint_roundtrip [OF _ _ c, of 100000 200000 sample_digest] show ?thesis by (simp add: rest)
qed

lemma altered_checkpoint_refused_witness:
  "(90000 :: ms) \<le> 200000 \<and> ck_cursor sample_checkpoint = Some 90000 \<and> (70000 :: ms) \<le> 90000"
proof -
  have "consumed_cursor sample_digest (Some (fst (seal sample_digest sample_checkpoint 100000),
      snd (seal sample_digest sample_checkpoint 100000))) ''n''
     \<lparr>sn_decision = 70000, sn_signal = sample_signal\<rparr> 200000 = Some 90000"
    using checkpoint_roundtrip_value by simp
  from altered_checkpoint_refused [OF this] show ?thesis by simp
qed

end
