(* ===== verification/Macro.thy ===== *)
theory Macro imports Values begin

text \<open>
  The pause around scheduled macro news, \<^verbatim>\<open>state\<close> of
  \<^verbatim>\<open>src/bybit_flow/macro.py\<close>. The calendar cache is an argument: when it was
  fetched, its events in the order stored, and whether the last refresh failed. Fetching and
  parsing the feed, and the announcement of a change, are not modelled.
\<close>

record macro_event =
  me_title :: string
  me_scheduled :: ms

record macro_cache =
  ma_fetched :: ms
  ma_events :: "macro_event list"
  ma_failed :: bool

record macro_settings =
  mn_enabled :: bool
  mn_pre_minutes :: int
  mn_post_minutes :: int

record macro_view =
  mv_status :: string
  mv_fresh :: bool
  mv_paused :: bool
  mv_until :: "ms option"
  mv_active :: "macro_event list"
  mv_next :: "macro_event option"
  mv_minutes :: "dec option"

definition calendar_fresh :: "macro_cache \<Rightarrow> ms \<Rightarrow> bool" where
  "calendar_fresh c now \<longleftrightarrow> 0 \<le> now - ma_fetched c \<and> now - ma_fetched c \<le> 6 * 3600000"

definition news_start :: "macro_settings \<Rightarrow> macro_event \<Rightarrow> ms" where
  "news_start st e = me_scheduled e - mn_pre_minutes st * 60000"

definition news_end :: "macro_settings \<Rightarrow> macro_event \<Rightarrow> ms" where
  "news_end st e = me_scheduled e + mn_post_minutes st * 60000"

type_synonym pause = "ms \<times> ms \<times> macro_event list"

text \<open>One event merged into the intervals so far, the latest first.\<close>

fun add_news :: "macro_settings \<Rightarrow> macro_event \<Rightarrow> pause list \<Rightarrow> pause list" where
  "add_news st e [] = [(news_start st e, news_end st e, [e])]"
| "add_news st e ((a, b, es) # ps) =
     (if news_start st e \<le> b then (a, max (news_end st e) b, es @ [e]) # ps
      else (news_start st e, news_end st e, [e]) # (a, b, es) # ps)"

definition news_pauses :: "macro_settings \<Rightarrow> macro_event list \<Rightarrow> pause list" where
  "news_pauses st events = rev (fold (add_news st) (sort_key me_scheduled events) [])"

definition in_pause :: "ms \<Rightarrow> pause \<Rightarrow> bool" where
  "in_pause t = (\<lambda>(a, b, _). a \<le> t \<and> t < b)"

definition macro_state :: "macro_settings \<Rightarrow> macro_cache \<Rightarrow> ms \<Rightarrow> macro_view" where
  "macro_state st c now =
     (let fresh = calendar_fresh c now;
          events = (if fresh \<and> mn_enabled st then ma_events c else []);
          active = find (in_pause now) (news_pauses st events);
          upcoming = find (\<lambda>e. now \<le> me_scheduled e) events
      in \<lparr>mv_status = (if \<not> mn_enabled st then ''DISABLED''
                       else if fresh \<and> \<not> ma_failed c then ''HEALTHY'' else ''DEGRADED''),
          mv_fresh = fresh,
          mv_paused = (active \<noteq> None),
          mv_until = map_option (\<lambda>(_, b, _). b) active,
          mv_active = (case active of None \<Rightarrow> [] | Some (_, _, es) \<Rightarrow> es),
          mv_next = upcoming,
          mv_minutes = map_option (\<lambda>e. of_int (me_scheduled e - now) / 60000) upcoming\<rparr>)"

subsection \<open>Merging keeps the windows\<close>

definition in_news :: "macro_settings \<Rightarrow> ms \<Rightarrow> macro_event \<Rightarrow> bool" where
  "in_news st t e \<longleftrightarrow> news_start st e \<le> t \<and> t < news_end st e"

text \<open>The intervals kept so far, the latest first: apart from each other and before the next event.\<close>

fun apart :: "pause list \<Rightarrow> bool" where
  "apart ((a, b, _) # (a', b', es) # ps) \<longleftrightarrow> b' < a \<and> a' \<le> a \<and> apart ((a', b', es) # ps)"
| "apart _ \<longleftrightarrow> True"

fun begins_before :: "ms \<Rightarrow> pause list \<Rightarrow> bool" where
  "begins_before t [] \<longleftrightarrow> True"
| "begins_before t ((a, _, _) # ps) \<longleftrightarrow> a \<le> t"

lemma add_news_step:
  assumes "begins_before (news_start st e) ps" "apart ps"
  shows "(\<exists>p \<in> set (add_news st e ps). in_pause t p) = ((\<exists>p \<in> set ps. in_pause t p) \<or> in_news st t e)
    \<and> apart (add_news st e ps) \<and> begins_before (news_start st e) (add_news st e ps)"
proof (cases ps)
  case (Cons p qs)
  obtain a b es where p: "p = (a, b, es)" by (cases p)
  have "apart ((a, b', es') # qs)" if "apart ((a, b, es) # qs)" for b' es'
    using that by (cases qs) auto
  then show ?thesis using assms by (auto simp: Cons p in_pause_def in_news_def)
qed (auto simp: in_pause_def in_news_def)

lemma begins_before_mono: "begins_before s ps \<Longrightarrow> s \<le> t \<Longrightarrow> begins_before t ps"
  by (cases ps) auto

lemma news_fold:
  assumes "sorted (map (news_start st) es)" "\<forall>e \<in> set es. begins_before (news_start st e) ps" "apart ps"
  shows "(\<exists>p \<in> set (fold (add_news st) es ps). in_pause t p) = ((\<exists>p \<in> set ps. in_pause t p) \<or> (\<exists>e \<in> set es. in_news st t e))
    \<and> apart (fold (add_news st) es ps)"
  using assms
proof (induction es arbitrary: ps)
  case (Cons e es)
  note step = add_news_step [where st = st and e = e and ps = ps and t = t]
  have "\<forall>e' \<in> set es. begins_before (news_start st e') (add_news st e ps)"
    using Cons.prems step by (auto intro: begins_before_mono)
  from Cons.IH [OF _ this] Cons.prems step show ?case by auto
qed simp

lemma news_pauses_cover:
  "(\<exists>p \<in> set (news_pauses st events). in_pause t p) = (\<exists>e \<in> set events. in_news st t e)
   \<and> apart (rev (news_pauses st events))"
proof -
  have "sorted_wrt (\<lambda>x y. me_scheduled x \<le> me_scheduled y) (sort_key me_scheduled events)"
    using sorted_sort_key [of me_scheduled events] unfolding sorted_map .
  then have "sorted (map (news_start st) (sort_key me_scheduled events))"
    by (simp add: sorted_map news_start_def)
  from news_fold [OF this, where ps = "[]" and t = t] show ?thesis by (simp add: news_pauses_def)
qed

text \<open>Where a pause ends no other one holds.\<close>

lemma apart_below: "apart ((a, b, es) # ps) \<Longrightarrow> (a', b', es') \<in> set ps \<Longrightarrow> b' < a \<and> a' \<le> a"
proof (induction ps arbitrary: a b es)
  case (Cons p ps)
  obtain c d fs where p: "p = (c, d, fs)" by (cases p)
  then show ?case using Cons.prems Cons.IH [of c d fs] by auto
qed simp

lemma apart_end:
  assumes "apart ps" "(a, b, es) \<in> set ps" "a < b" "(a', b', es') \<in> set ps"
  shows "\<not> (a' \<le> b \<and> b < b')"
  using assms
proof (induction ps)
  case (Cons p ps)
  obtain c d fs where p: "p = (c, d, fs)" by (cases p)
  have "apart ps" using Cons.prems(1) by (cases ps) (auto simp: p)
  with Cons apart_below [OF Cons.prems(1) [unfolded p], of a b es] apart_below [OF Cons.prems(1) [unfolded p], of a' b' es']
  show ?case by (auto simp: p)
qed simp

text \<open>
  The pause is active exactly when news are
  enabled, the calendar was fetched in the last six hours and some event's window holds now; the
  end it announces lies ahead, every moment until then is inside some window and that end is in
  none.
\<close>

theorem macro_pause_is_scheduled:
  "mv_paused (macro_state st c now) =
     (mn_enabled st \<and> calendar_fresh c now \<and> (\<exists>e \<in> set (ma_events c). news_start st e \<le> now \<and> now < news_end st e))
   \<and> (case mv_until (macro_state st c now) of None \<Rightarrow> \<not> mv_paused (macro_state st c now)
      | Some u \<Rightarrow> now < u
          \<and> (\<forall>t. now \<le> t \<and> t < u \<longrightarrow> (\<exists>e \<in> set (ma_events c). news_start st e \<le> t \<and> t < news_end st e))
          \<and> \<not> (\<exists>e \<in> set (ma_events c). news_start st e \<le> u \<and> u < news_end st e))"
proof -
  let ?on = "calendar_fresh c now \<and> mn_enabled st"
  let ?ps = "news_pauses st (ma_events c)"
  have cover: "(\<exists>p \<in> set ?ps. in_pause t p) = (\<exists>e \<in> set (ma_events c). news_start st e \<le> t \<and> t < news_end st e)"
    and apart: "apart (rev ?ps)" for t
    using news_pauses_cover [where st = st and events = "ma_events c" and t = t] by (auto simp: in_news_def)
  show ?thesis
  proof (cases "?on")
    case off: False
    then show ?thesis by (auto simp: macro_state_def Let_def news_pauses_def)
  next
    case True
    show ?thesis
    proof (cases "find (in_pause now) ?ps")
      case None
      then have "\<not> (\<exists>p \<in> set ?ps. in_pause now p)" unfolding find_None_iff by blast
      with None True cover [of now] show ?thesis by (auto simp: macro_state_def Let_def)
    next
      case (Some p)
      obtain a b es where p: "p = (a, b, es)" by (cases p)
      from Some have mem: "(a, b, es) \<in> set ?ps" and now: "a \<le> now" "now < b"
        by (auto simp: find_Some_iff in_pause_def p in_set_conv_nth)
      have inside: "\<exists>e \<in> set (ma_events c). news_start st e \<le> t \<and> t < news_end st e" if "now \<le> t" "t < b" for t
        using cover [of t] mem that now(1) by (fastforce simp: in_pause_def)
      have "\<not> (\<exists>p \<in> set ?ps. in_pause b p)"
        using apart_end [OF apart, of a b es] mem now by (auto simp: in_pause_def)
      then have outside: "\<not> (\<exists>e \<in> set (ma_events c). news_start st e \<le> b \<and> b < news_end st e)"
        using cover [of b] by blast
      have st: "mv_paused (macro_state st c now)" "mv_until (macro_state st c now) = Some b"
        using True Some by (simp_all add: macro_state_def Let_def p)
      have "\<exists>e \<in> set (ma_events c). news_start st e \<le> now \<and> now < news_end st e" using inside now(2) by blast
      moreover have "\<forall>t. now \<le> t \<and> t < b \<longrightarrow> (\<exists>e \<in> set (ma_events c). news_start st e \<le> t \<and> t < news_end st e)"
        using inside by blast
      ultimately show ?thesis using st True now(2) outside by simp
    qed
  qed
qed

definition sample_news :: macro_settings where
  "sample_news = \<lparr>mn_enabled = True, mn_pre_minutes = 30, mn_post_minutes = 15\<rparr>"

definition sample_calendar :: macro_cache where
  "sample_calendar = \<lparr>ma_fetched = 0, ma_events = [\<lparr>me_title = ''CPI'', me_scheduled = 3600000\<rparr>,
     \<lparr>me_title = ''FOMC'', me_scheduled = 5400000\<rparr>], ma_failed = False\<rparr>"

lemma macro_pause_is_scheduled_witness:
  "mv_until (macro_state sample_news sample_calendar 2000000) = Some 6300000
   \<and> \<not> (\<exists>e \<in> set (ma_events sample_calendar). news_start sample_news e \<le> 6300000 \<and> 6300000 < news_end sample_news e)"
proof -
  have "mv_until (macro_state sample_news sample_calendar 2000000) = Some 6300000" by code_simp
  with macro_pause_is_scheduled [of sample_news sample_calendar 2000000] show ?thesis by simp
qed

end
