(* ===== verification/InitialCard.thy ===== *)
theory InitialCard imports Notifier Identity Macro begin

text \<open>
  The first card of a plan from end to end, \<^verbatim>\<open>Notifier.deliver_initial\<close> of
  \<^verbatim>\<open>src/bybit_flow/notifications.py\<close>: the guards, the claim of the plan's economic
  identity, the delivery through the outbox and the settlement of the claim; then the same as
  attempts that interleave with each other and with every other delivery, and that may crash
  anywhere. The counters of the funnel and the text of the card are not modelled; the status that
  settles a delivery attempt's row is kept beside it.
\<close>

subsection \<open>One call\<close>

record card_state =
  co_claims :: claim_db
  co_outbox :: durable
  co_terminals :: "terminal_row list"
  co_settled :: "(nat \<times> string \<times> string option) list"

record card_env =
  ce_now :: ms
  ce_stored :: "signal list"
  ce_hooks :: bool
  ce_prepared :: "string option"
  ce_calendar :: macro_cache
  ce_news :: macro_settings
  ce_claim_now :: ms
  ce_claim_stored :: "signal list"
  ce_delivery :: delivery_env

text \<open>What stops a card before its claim\<close>

definition card_guard :: "notify_settings \<Rightarrow> card_env \<Rightarrow> durable \<Rightarrow> signal \<Rightarrow> string option" where
  "card_guard ns env d s =
     (case initial_delivery_block ns d (ce_now env) (ce_stored env) (sg_id s) (Some s) of
        Some b \<Rightarrow> Some b
      | None \<Rightarrow>
          if v22_rubric s \<and> \<not> ce_hooks env then Some ''blocked:v22-live-check-unavailable''
          else if v22_rubric s \<and> ce_prepared env \<noteq> None then ce_prepared env
          else if mv_paused (macro_state (ce_news env) (ce_calendar env) (ce_claim_now env)) then Some ''macro-paused''
          else None)"

definition card_attempt :: "string \<Rightarrow> string \<Rightarrow> signal \<Rightarrow> attempt" where
  "card_attempt key hook s =
     \<lparr>at_key = key, at_signal = Some (sg_id s), at_factory = v22_rubric s, at_webhook = hook, at_phase = Started\<rparr>"

text \<open>A sent card wakes the terminal result that was waiting unseen.\<close>

definition wake_terminal :: "string \<Rightarrow> terminal_row list \<Rightarrow> terminal_row list" where
  "wake_terminal i rows =
     map (\<lambda>r. if tm_signal_id r = i \<and> tm_status r = ''unseen'' then r\<lparr>tm_status := ''pending''\<rparr> else r) rows"

definition outbox_message :: "durable \<Rightarrow> string \<Rightarrow> string option" where
  "outbox_message d key = (case du_outbox d key of None \<Rightarrow> None | Some r \<Rightarrow> ox_message r)"

definition settle_card :: "string \<Rightarrow> string \<Rightarrow> string \<Rightarrow> string \<Rightarrow> nat \<Rightarrow> card_state \<Rightarrow> card_state" where
  "settle_card key i fp status n w =
     w\<lparr>co_terminals := (if status = ''sent'' then wake_terminal i (co_terminals w) else co_terminals w),
       co_claims := settle_claim fp status (co_claims w),
       co_settled := co_settled w @ [(n, status, outbox_message (co_outbox w) key)]\<rparr>"

definition deliver_initial ::
    "(fp_plan \<Rightarrow> string) \<Rightarrow> notify_settings \<Rightarrow> card_env \<Rightarrow> string \<Rightarrow> string \<Rightarrow> signal \<Rightarrow> card_state
     \<Rightarrow> card_state \<times> (py_error + string)" where
  "deliver_initial h ns env key hook s w =
     (case card_guard ns env (co_outbox w) s of
        Some b \<Rightarrow> (w, Inr b)
      | None \<Rightarrow>
          let (db, c) = claim h (ce_claim_stored env) (du_dispatched (co_outbox w) (sg_id s)) s
                          (ce_claim_now env) (v22_rubric s) (co_claims w);
              w1 = w\<lparr>co_claims := db\<rparr>
          in if \<not> cm_claimed c then (w1, Inr ''duplicate-plan-suppressed'')
             else let (d, answer) = deliver (ce_delivery env) (card_attempt key hook s) (co_outbox w1);
                      w2 = w1\<lparr>co_outbox := d\<rparr>
                  in case answer of
                       Inl e \<Rightarrow> (w2, Inl e)
                     | Inr status \<Rightarrow>
                         (settle_card key (sg_id s) (cm_fingerprint c) status (length (db_attempts (co_claims w))) w2,
                          Inr status))"

subsection \<open>Interleaved and crashing cards\<close>

text \<open>
  Claims, outbox, the attempts of all other deliveries, the cards under way with the fingerprint
  each has claimed, and a ghost list of the fingerprints and keys of the requests they sent.
\<close>

record card_system =
  cs_claims :: claim_db
  cs_outbox :: durable
  cs_others :: "nat \<Rightarrow> attempt option"
  cs_cards :: "nat \<Rightarrow> (string \<times> attempt) option"
  cs_sent :: "(string \<times> string) list"

definition begin_card :: "nat \<Rightarrow> claim_result \<Rightarrow> attempt \<Rightarrow> card_system \<Rightarrow> card_system" where
  "begin_card n c a sys =
     (if cm_claimed c then sys\<lparr>cs_cards := (cs_cards sys)(n \<mapsto> (cm_fingerprint c, a))\<rparr> else sys)"

definition note_sent :: "string \<Rightarrow> attempt \<Rightarrow> (string \<times> string) list \<Rightarrow> (string \<times> string) list" where
  "note_sent fp a sent = (if at_phase a = Waiting then sent @ [(fp, at_key a)] else sent)"

inductive card_step :: "(fp_plan \<Rightarrow> string) \<Rightarrow> card_system \<Rightarrow> card_system \<Rightarrow> bool" for h where
  claims: "\<lbrakk>cs_cards sys n = None;
      claim h stored (du_dispatched (cs_outbox sys) (sg_id s)) s now (v22_rubric s) (cs_claims sys) = (db, c)\<rbrakk>
    \<Longrightarrow> card_step h sys (begin_card n c (card_attempt key hook s) (sys\<lparr>cs_claims := db\<rparr>))"
| delivers: "\<lbrakk>cs_cards sys n = Some (fp, a); attempt_step (cs_outbox sys, a) (d, a')\<rbrakk>
    \<Longrightarrow> card_step h sys (sys\<lparr>cs_outbox := d, cs_cards := (cs_cards sys)(n \<mapsto> (fp, a')),
                           cs_sent := note_sent fp a' (cs_sent sys)\<rparr>)"
| settles: "\<lbrakk>cs_cards sys n = Some (fp, a); at_phase a = Returned status\<rbrakk>
    \<Longrightarrow> card_step h sys (sys\<lparr>cs_claims := settle_claim fp status (cs_claims sys), cs_cards := (cs_cards sys)(n := None)\<rparr>)"
| dies: "cs_cards sys n = Some x \<Longrightarrow> card_step h sys (sys\<lparr>cs_cards := (cs_cards sys)(n := None)\<rparr>)"
| other: "deliver_step (cs_outbox sys, cs_others sys) (d, others)
    \<Longrightarrow> card_step h sys (sys\<lparr>cs_outbox := d, cs_others := others\<rparr>)"

subsection \<open>One request per economic plan\<close>

definition sent_for :: "string \<Rightarrow> card_system \<Rightarrow> nat" where
  "sent_for fp sys = count_list (map fst (cs_sent sys)) fp"

text \<open>A phase in which the request has left and its outcome cannot reopen the claim.\<close>

definition past_sending :: "phase \<Rightarrow> bool" where
  "past_sending p \<longleftrightarrow> p = Waiting \<or> (\<exists>st m. p = Finishing st m True \<and> st \<in> final_statuses)
     \<or> (\<exists>st. p = Returned st \<and> st \<in> final_statuses)"

definition fp_inv :: "string \<Rightarrow> card_system \<Rightarrow> bool" where
  "fp_inv fp sys \<longleftrightarrow>
     (\<forall>n m a b. cs_cards sys n = Some (fp, a) \<longrightarrow> cs_cards sys m = Some (fp, b) \<longrightarrow> n = m)
     \<and> (\<forall>n a. cs_cards sys n = Some (fp, a) \<longrightarrow> held (cs_claims sys) fp)
     \<and> (\<forall>n a. cs_cards sys n = Some (fp, a) \<longrightarrow> sent_for fp sys = 0 \<or> past_sending (at_phase a))
     \<and> sent_for fp sys \<le> 1
     \<and> (sent_for fp sys = 1 \<longrightarrow> held (cs_claims sys) fp)"

lemma attempt_phase:
  "attempt_step (d, a) (d', a') \<Longrightarrow> at_key a' = at_key a
    \<and> (past_sending (at_phase a) \<longrightarrow> past_sending (at_phase a') \<and> at_phase a' \<noteq> Waiting)"
proof (induction "(d, a)" "(d', a')" rule: attempt_step.induct)
  case (answers ans st m)
  then show ?case by (auto simp: past_sending_def dest: answer_final)
qed (auto simp: past_sending_def final_statuses_def)

lemma attempt_posts:
  "attempt_step (d, a) (d', a') \<Longrightarrow>
     (if at_phase a' = Waiting then \<not> past_sending (at_phase a) \<and> du_posts d' = du_posts d @ [at_key a']
      else du_posts d' = du_posts d)"
proof (induction "(d, a)" "(d', a')" rule: attempt_step.induct)
  case (claim safe p)
  then show ?case by (auto simp: take_claim_def split: option.splits if_splits)
qed (auto simp: past_sending_def look_up_def arm_def raise_flag_def post_def record_outcome_frame Let_def split: if_splits)

lemma fp_invD:
  assumes "fp_inv fp sys"
  shows "cs_cards sys n = Some (fp, a) \<Longrightarrow> cs_cards sys m = Some (fp, b) \<Longrightarrow> n = m"
    and "cs_cards sys n = Some (fp, a) \<Longrightarrow> held (cs_claims sys) fp"
    and "cs_cards sys n = Some (fp, a) \<Longrightarrow> sent_for fp sys = 0 \<or> past_sending (at_phase a)"
    and "sent_for fp sys \<le> 1" and "sent_for fp sys = 1 \<Longrightarrow> held (cs_claims sys) fp"
  using assms unfolding fp_inv_def by blast+

text \<open>Anything that leaves the cards of a plan, its claim and its requests alone.\<close>

lemma fp_inv_frame:
  assumes "fp_inv fp sys" "\<And>n a. cs_cards sys' n = Some (fp, a) \<Longrightarrow> cs_cards sys n = Some (fp, a)"
    and "held (cs_claims sys) fp \<Longrightarrow> held (cs_claims sys') fp" "sent_for fp sys' = sent_for fp sys"
  shows "fp_inv fp sys'"
  unfolding fp_inv_def assms(4) using fp_invD [OF assms(1)] assms(2,3) by blast

lemma claim_result:
  assumes "claim h stored dispatched s now retry db = (db', c)"
  shows "cm_fingerprint c = h (fingerprint_plan s)"
    and "cm_claimed c \<Longrightarrow> \<not> held db (cm_fingerprint c) \<and> held db' (cm_fingerprint c)"
    and "k \<noteq> cm_fingerprint c \<or> \<not> cm_claimed c \<Longrightarrow> held db' k = held db k"
proof -
  show fp: "cm_fingerprint c = h (fingerprint_plan s)"
    using arg_cong [OF assms, of snd] by (auto simp: claim_def Let_def split: prod.splits)
  from claim_outcome [of h stored dispatched s now retry db] assms fp
  show "cm_claimed c \<Longrightarrow> \<not> held db (cm_fingerprint c) \<and> held db' (cm_fingerprint c)"
    and "k \<noteq> cm_fingerprint c \<or> \<not> cm_claimed c \<Longrightarrow> held db' k = held db k"
    by (auto simp: held_def)
qed

lemma held_settle:
  "held (settle_claim f status db) k = (if k = f then map_of (db_claims db) f \<noteq> None \<and> \<not> is_blocked status else held db k)"
  by (auto simp: held_def settle_claim_def map_of_settle split: option.splits)

lemma fp_inv_step: "card_step h sys sys' \<Longrightarrow> fp_inv fp sys \<Longrightarrow> fp_inv fp sys'"
proof (induction rule: card_step.induct)
  case (claims sys n stored s now db c key hook)
  note inv = fp_invD [OF claims.prems] and res = claim_result [OF claims.hyps(2)]
  show ?case
  proof (cases "cm_claimed c \<and> cm_fingerprint c = fp")
    case False
    then have "held db fp = held (cs_claims sys) fp" using res(3) by metis
    with False show ?thesis
      by (intro fp_inv_frame [OF claims.prems]) (auto simp: begin_card_def sent_for_def split: if_splits)
  next
    case True
    then have free: "\<not> held (cs_claims sys) fp" "held db fp" using res(2) by auto
    then have "sent_for fp sys = 0" and none: "cs_cards sys m \<noteq> Some (fp, a)" for m a
      using inv(2,4,5) by (auto simp: le_Suc_eq)
    with True free show ?thesis
      unfolding fp_inv_def by (auto simp: begin_card_def sent_for_def split: if_splits)
  qed
next
  case (delivers sys n f a d a')
  note inv = fp_invD [OF delivers.prems] and ph = attempt_phase [OF delivers.hyps(2)]
    and posts = attempt_posts [OF delivers.hyps(2)]
  show ?case
  proof (cases "f = fp")
    case False
    then show ?thesis
      by (intro fp_inv_frame [OF delivers.prems]) (auto simp: note_sent_def sent_for_def split: if_splits)
  next
    case True
    note card = delivers.hyps(1) [unfolded True]
    let ?sys = "sys\<lparr>cs_outbox := d, cs_cards := (cs_cards sys)(n \<mapsto> (f, a')), cs_sent := note_sent f a' (cs_sent sys)\<rparr>"
    have held: "held (cs_claims ?sys) fp" using inv(2) card by simp
    have past: "sent_for fp sys = 0 \<or> past_sending (at_phase a)" using inv(3) card by blast
    have count: "sent_for fp ?sys = sent_for fp sys + (if at_phase a' = Waiting then 1 else 0)"
      by (simp add: sent_for_def note_sent_def True)
    have only: "cs_cards ?sys m = Some (fp, b) \<Longrightarrow> m = n \<and> b = a'" for m b
      using inv(1) [OF card] by (auto split: if_splits)
    have "sent_for fp ?sys = 0 \<or> past_sending (at_phase a')" "sent_for fp ?sys \<le> 1"
      using past ph posts count inv(4) by (auto simp: past_sending_def split: if_splits)
    then show ?thesis unfolding fp_inv_def using held only by blast
  qed
next
  case (settles sys n f a status)
  note inv = fp_invD [OF settles.prems]
  show ?case
  proof (cases "f = fp")
    case False
    then show ?thesis
      by (intro fp_inv_frame [OF settles.prems]) (auto simp: held_settle sent_for_def split: if_splits)
  next
    case True
    note card = settles.hyps(1) [unfolded True]
    have gone: "m \<noteq> n \<Longrightarrow> cs_cards sys m \<noteq> Some (fp, b)" for m b using inv(1) card by blast
    have row: "map_of (db_claims (cs_claims sys)) fp \<noteq> None"
      using inv(2) [OF card] by (auto simp: held_def split: option.splits)
    have "held (settle_claim fp status (cs_claims sys)) fp" if "sent_for fp sys = 1"
      using inv(3) [OF card] settles.hyps(2) that row final_not_blocked [of status]
      by (auto simp: held_settle past_sending_def)
    with gone inv(4) show ?thesis
      unfolding fp_inv_def by (auto simp: True sent_for_def split: if_splits)
  qed
next
  case (dies sys n x)
  then show ?case by (intro fp_inv_frame [OF dies.prems]) (auto simp: sent_for_def split: if_splits)
next
  case (other sys d others)
  then show ?case by (intro fp_inv_frame [OF other.prems]) (auto simp: sent_for_def)
qed

lemma card_run_inv: "(card_step h)\<^sup>*\<^sup>* sys sys' \<Longrightarrow> fp_inv fp sys \<Longrightarrow> fp_inv fp sys'"
  by (induction rule: rtranclp_induct) (auto intro: fp_inv_step)

lemma deliver_posts: "deliver_step x y \<Longrightarrow> \<exists>ks. du_posts (fst y) = du_posts (fst x) @ ks"
proof (induction rule: deliver_step.induct)
  case (moves run n a d d' a')
  then show ?case using attempt_posts [OF moves.hyps(2)] by (auto split: if_splits)
qed simp_all

lemma subseq_append_last: "subseq xs ys \<Longrightarrow> subseq xs (ys @ zs)"
  by (meson list_emb_append2 list_emb_prefix subseq_order.order_refl subseq_rev_drop_many)

lemma sent_is_posted_step:
  "card_step h sys sys' \<Longrightarrow> subseq (map snd (cs_sent sys)) (du_posts (cs_outbox sys))
    \<Longrightarrow> subseq (map snd (cs_sent sys')) (du_posts (cs_outbox sys'))"
proof (induction rule: card_step.induct)
  case (claims sys n stored s now db c key hook)
  then show ?case by (simp add: begin_card_def)
next
  case (delivers sys n f a d a')
  then show ?case
    using attempt_posts [OF delivers.hyps(2)] by (auto simp: note_sent_def split: if_splits)
next
  case (other sys d others)
  then show ?case using deliver_posts [OF other.hyps] by (auto intro: subseq_append_last)
qed simp_all

text \<open>A system in which no card is under way and none has been counted.\<close>

definition cards_idle :: "card_system \<Rightarrow> bool" where
  "cards_idle sys \<longleftrightarrow> cs_sent sys = [] \<and> (\<forall>n. cs_cards sys n = None)"

text \<open>
  C1: whatever is stored when the program starts, however
  the cards of all plans interleave with each other and with every other delivery, wherever they
  crash and however often they are retried, at most one request leaves for the cards of one
  economic plan, and every request counted is one the outbox has sent.
\<close>

theorem one_card_per_plan:
  assumes "cards_idle sys" and "(card_step h)\<^sup>*\<^sup>* sys sys'"
  shows "sent_for fp sys' \<le> 1 \<and> subseq (map snd (cs_sent sys')) (du_posts (cs_outbox sys'))"
proof -
  have "fp_inv fp sys" using assms(1) by (simp add: fp_inv_def cards_idle_def sent_for_def)
  then have "sent_for fp sys' \<le> 1" using card_run_inv [OF assms(2)] fp_invD(4) by blast
  moreover from assms(2) have "subseq (map snd (cs_sent sys')) (du_posts (cs_outbox sys'))"
    by (induction rule: rtranclp_induct) (use assms(1) in \<open>auto simp: cards_idle_def intro: sent_is_posted_step\<close>)
  ultimately show ?thesis by simp
qed

subsection \<open>A call is a run\<close>

lemma attempt_in_cards:
  assumes "attempt_step\<^sup>*\<^sup>* (d, a) (d', a')" "cs_outbox sys = d" "cs_cards sys n = Some (fp, a)"
  shows "\<exists>sent. (card_step h)\<^sup>*\<^sup>* sys (sys\<lparr>cs_outbox := d', cs_cards := (cs_cards sys)(n \<mapsto> (fp, a')), cs_sent := sent\<rparr>)"
  using assms(1)
proof (induction "(d', a')" arbitrary: d' a' rule: rtranclp_induct)
  case base
  have "(cs_cards sys)(n \<mapsto> (fp, a)) = cs_cards sys" using assms(3) by auto
  then have "sys\<lparr>cs_outbox := d, cs_cards := (cs_cards sys)(n \<mapsto> (fp, a)), cs_sent := cs_sent sys\<rparr> = sys"
    using assms(2) by simp
  then show ?case by (metis rtranclp.rtrancl_refl)
next
  case (step y)
  obtain d1 a1 where y: "y = (d1, a1)" by (cases y)
  from step.hyps(3) [OF y] obtain sent where run:
    "(card_step h)\<^sup>*\<^sup>* sys (sys\<lparr>cs_outbox := d1, cs_cards := (cs_cards sys)(n \<mapsto> (fp, a1)), cs_sent := sent\<rparr>)" by blast
  from card_step.delivers [of "sys\<lparr>cs_outbox := d1, cs_cards := (cs_cards sys)(n \<mapsto> (fp, a1)), cs_sent := sent\<rparr>" n fp a1 d' a' h]
    step.hyps(2) y
  have "card_step h (sys\<lparr>cs_outbox := d1, cs_cards := (cs_cards sys)(n \<mapsto> (fp, a1)), cs_sent := sent\<rparr>)
      (sys\<lparr>cs_outbox := d', cs_cards := (cs_cards sys)(n \<mapsto> (fp, a')), cs_sent := note_sent fp a' sent\<rparr>)"
    by simp
  with run show ?case by (meson rtranclp.rtrancl_into_rtrancl)
qed

text \<open>A granted card, from its claim to its settlement, and one whose delivery raises.\<close>

lemma granted_card_runs:
  assumes "cs_cards sys n = None" and "cm_claimed c" and "at_phase b = Returned st"
    and claim: "claim h stored (du_dispatched (cs_outbox sys) (sg_id s)) s now (v22_rubric s) (cs_claims sys) = (db, c)"
    and "attempt_step\<^sup>*\<^sup>* (cs_outbox sys, card_attempt key hook s) (d, b)"
  shows "\<exists>sent. (card_step h)\<^sup>*\<^sup>* sys (sys\<lparr>cs_claims := settle_claim (cm_fingerprint c) st db, cs_outbox := d, cs_sent := sent\<rparr>)"
proof -
  define s1 where "s1 = sys\<lparr>cs_claims := db, cs_cards := (cs_cards sys)(n \<mapsto> (cm_fingerprint c, card_attempt key hook s))\<rparr>"
  have claims: "card_step h sys s1"
    using card_step.claims [OF assms(1) claim, of key hook] assms(2) by (simp add: begin_card_def s1_def)
  obtain sent where run: "(card_step h)\<^sup>*\<^sup>* s1
      (s1\<lparr>cs_outbox := d, cs_cards := (cs_cards s1)(n \<mapsto> (cm_fingerprint c, b)), cs_sent := sent\<rparr>)"
    using attempt_in_cards [OF assms(5), where sys = s1 and n = n and fp = "cm_fingerprint c" and h = h]
    by (auto simp: s1_def)
  define s2 where "s2 = s1\<lparr>cs_outbox := d, cs_cards := (cs_cards s1)(n \<mapsto> (cm_fingerprint c, b)), cs_sent := sent\<rparr>"
  have "card_step h s2 (s2\<lparr>cs_claims := settle_claim (cm_fingerprint c) st (cs_claims s2), cs_cards := (cs_cards s2)(n := None)\<rparr>)"
    by (rule card_step.settles [where a = b]) (simp_all add: s2_def assms(3))
  moreover have "(cs_cards sys)(n := None) = cs_cards sys" using assms(1) by auto
  then have "s2\<lparr>cs_claims := settle_claim (cm_fingerprint c) st (cs_claims s2), cs_cards := (cs_cards s2)(n := None)\<rparr>
      = sys\<lparr>cs_claims := settle_claim (cm_fingerprint c) st db, cs_outbox := d, cs_sent := sent\<rparr>"
    by (simp add: s1_def s2_def)
  ultimately have "card_step h s2 (sys\<lparr>cs_claims := settle_claim (cm_fingerprint c) st db, cs_outbox := d, cs_sent := sent\<rparr>)"
    by (simp only:)
  from rtranclp.rtrancl_into_rtrancl [OF converse_rtranclp_into_rtranclp [of "card_step h", OF claims run] this [unfolded s2_def]]
  show ?thesis by blast
qed

lemma lost_card_runs:
  assumes "cs_cards sys n = None"
    and claim: "claim h stored (du_dispatched (cs_outbox sys) (sg_id s)) s now (v22_rubric s) (cs_claims sys) = (db, c)"
  shows "(card_step h)\<^sup>*\<^sup>* sys (sys\<lparr>cs_claims := db\<rparr>)"
proof -
  have claims: "card_step h sys (begin_card n c (card_attempt [] [] s) (sys\<lparr>cs_claims := db\<rparr>))"
    using card_step.claims [OF assms] .
  show ?thesis
  proof (cases "cm_claimed c")
    case True
    have "(cs_cards sys)(n := None) = cs_cards sys" using assms(1) by auto
    with card_step.dies [of "begin_card n c (card_attempt [] [] s) (sys\<lparr>cs_claims := db\<rparr>)" n _ h] True
    have "card_step h (begin_card n c (card_attempt [] [] s) (sys\<lparr>cs_claims := db\<rparr>)) (sys\<lparr>cs_claims := db\<rparr>)"
      by (simp add: begin_card_def)
    with claims show ?thesis by (rule rtranclp.rtrancl_into_rtrancl [OF r_into_rtranclp])
  next
    case False
    then show ?thesis using claims by (intro r_into_rtranclp) (simp add: begin_card_def)
  qed
qed

text \<open>
  A call of \<^verbatim>\<open>deliver_initial\<close> changes claims and
  outbox exactly as some run of the interleaving system does that leaves every other attempt and
  card where it is.
\<close>

theorem initial_call_is_a_run:
  assumes "cs_claims sys = co_claims w" and "cs_outbox sys = co_outbox w" and "cs_cards sys n = None"
    and "fst (deliver_initial h ns env key hook s w) = w'"
  shows "\<exists>sent. (card_step h)\<^sup>*\<^sup>* sys (sys\<lparr>cs_claims := co_claims w', cs_outbox := co_outbox w', cs_sent := sent\<rparr>)"
proof (cases "card_guard ns env (co_outbox w) s")
  case (Some b)
  then have "sys\<lparr>cs_claims := co_claims w', cs_outbox := co_outbox w', cs_sent := cs_sent sys\<rparr> = sys"
    using assms by (simp add: deliver_initial_def)
  then show ?thesis by (metis rtranclp.rtrancl_refl)
next
  case None
  obtain db c where cl: "claim h (ce_claim_stored env) (du_dispatched (co_outbox w) (sg_id s)) s
      (ce_claim_now env) (v22_rubric s) (co_claims w) = (db, c)" by fastforce
  note cl' = cl [folded assms(1,2)]
  obtain d answer where dl: "deliver (ce_delivery env) (card_attempt key hook s) (co_outbox w) = (d, answer)" by fastforce
  consider (lost) "w' = w\<lparr>co_claims := db\<rparr>"
    | (granted) st where "cm_claimed c" "answer = Inr st" "co_outbox w' = d"
        "co_claims w' = settle_claim (cm_fingerprint c) st db"
    using assms(4) deliver_raised [of "ce_delivery env" "card_attempt key hook s" "co_outbox w"]
    by (cases answer) (auto simp: deliver_initial_def None cl dl settle_card_def Let_def split: if_splits)
  then show ?thesis
  proof cases
    case lost
    then have "sys\<lparr>cs_claims := co_claims w', cs_outbox := co_outbox w', cs_sent := cs_sent sys\<rparr> = sys\<lparr>cs_claims := db\<rparr>"
      by (simp add: assms(2) [symmetric])
    with lost_card_runs [OF assms(3) cl'] show ?thesis by (intro exI [of _ "cs_sent sys"]) (simp only:)
  next
    case granted
    have "attempt_step\<^sup>*\<^sup>* (cs_outbox sys, card_attempt key hook s) (d, goto (card_attempt key hook s) (Returned st))"
      using deliver_attempt [of "card_attempt key hook s" "ce_delivery env" "co_outbox w" st] dl granted(2)
      by (simp add: assms(2)) (simp add: card_attempt_def)
    from granted_card_runs [OF assms(3) granted(1) _ cl' this] show ?thesis unfolding granted(3,4) by simp
  qed
qed

text \<open>
  A claim that is settled as blocked may be granted again only to a plan whose dispatch flag was
  stored as False, and the flag is first stored after the outbox row has been claimed.
\<close>

lemma unflagged_claim_stays:
  assumes "du_dispatched (co_outbox w) (sg_id s) = None"
    and "map_of (db_claims (co_claims w)) (h (fingerprint_plan s)) \<noteq> None"
    and "card_guard ns env (co_outbox w) s = None"
  shows "snd (deliver_initial h ns env key hook s w) = Inr ''duplicate-plan-suppressed''"
proof -
  have "\<not> cm_claimed (snd (claim h (ce_claim_stored env) None s (ce_claim_now env) (v22_rubric s) (co_claims w)))"
    using assms(2) by (auto simp: claim_def Let_def split: prod.splits)
  then show ?thesis using assms(1,3) by (auto simp: deliver_initial_def Let_def split: prod.splits)
qed

lemma claim_stores_row:
  "cm_claimed (snd (claim h stored dispatched s now retry db)) \<Longrightarrow>
    map_of (db_claims (fst (claim h stored dispatched s now retry db))) (h (fingerprint_plan s)) \<noteq> None"
  using claim_outcome [of h stored dispatched s now retry db] by (auto simp: held_def split: option.splits)

text \<open>
  A card that is blocked inside the delivery before
  its outbox row exists, say because an opposing plan has become visible while the live check ran,
  is never sent: every later call for the plan that passes the guards is suppressed as a duplicate
  of itself. A card blocked one step later, once the row exists, can be retried.
\<close>

theorem early_block_is_lasting:
  assumes "deliver_initial h ns env key hook s w = (w1, Inr b)" and "b \<noteq> ''duplicate-plan-suppressed''"
    and "card_guard ns env (co_outbox w) s = None" and "card_guard ns env2 (co_outbox w1) s = None"
    and "de_official (ce_delivery env)" and "de_early (ce_delivery env) = Some b" and "suffix '':initial'' key"
    and "du_outbox (co_outbox w) key = None" and "du_dispatched (co_outbox w) (sg_id s) = None"
  shows "snd (deliver_initial h ns env2 key2 hook s w1) = Inr ''duplicate-plan-suppressed''"
proof (rule unflagged_claim_stays [OF _ _ assms(4)])
  obtain db c where cl: "claim h (ce_claim_stored env) (du_dispatched (co_outbox w) (sg_id s)) s
      (ce_claim_now env) (v22_rubric s) (co_claims w) = (db, c)" by fastforce
  have "deliver (ce_delivery env) (card_attempt key hook s) (co_outbox w) = (co_outbox w, Inr b)"
    using assms(5-8) by (auto simp: deliver_def card_attempt_def look_up_def real_initial_def Let_def)
  then have w1: "cm_claimed c" "co_outbox w1 = co_outbox w"
    "co_claims w1 = settle_claim (cm_fingerprint c) b db"
    using assms(1-3) by (auto simp: deliver_initial_def cl settle_card_def Let_def split: if_splits)
  show "du_dispatched (co_outbox w1) (sg_id s) = None" using assms(9) w1(2) by simp
  have "map_of (db_claims db) (h (fingerprint_plan s)) \<noteq> None"
    using claim_stores_row [of h "ce_claim_stored env" "du_dispatched (co_outbox w) (sg_id s)" s "ce_claim_now env"
        "v22_rubric s" "co_claims w"] cl w1(1) by simp
  then show "map_of (db_claims (co_claims w1)) (h (fingerprint_plan s)) \<noteq> None"
    by (auto simp: w1(3) settle_claim_def map_of_settle)
qed

definition sample_card_env :: card_env where
  "sample_card_env = \<lparr>ce_now = 100000, ce_stored = [sample_v22 ''a''], ce_hooks = True, ce_prepared = None,
     ce_calendar = \<lparr>ma_fetched = 0, ma_events = [], ma_failed = False\<rparr>,
     ce_news = \<lparr>mn_enabled = True, mn_pre_minutes = 30, mn_post_minutes = 15\<rparr>, ce_claim_now = 100500,
     ce_claim_stored = [sample_v22 ''a''], ce_delivery = sample_env\<rparr>"

definition blocked_card_env :: card_env where
  "blocked_card_env = sample_card_env\<lparr>ce_delivery := sample_env\<lparr>de_early := Some ''blocked:opposing''\<rparr>\<rparr>"

definition sample_cards :: card_state where
  "sample_cards = \<lparr>co_claims = empty_claims, co_outbox = fresh_durable, co_terminals = [], co_settled = []\<rparr>"

lemma early_block_is_lasting_witness:
  "let w1 = fst (deliver_initial sample_hash sample_settings blocked_card_env ''research:a:initial'' ''w'' (sample_v22 ''a'') sample_cards)
   in snd (deliver_initial sample_hash sample_settings sample_card_env ''research:a:initial'' ''w'' (sample_v22 ''a'') w1)
      = Inr ''duplicate-plan-suppressed''"
proof -
  let ?call = "deliver_initial sample_hash sample_settings blocked_card_env ''research:a:initial'' ''w'' (sample_v22 ''a'') sample_cards"
  have "snd ?call = Inr ''blocked:opposing''" by code_simp
  then have first: "?call = (fst ?call, Inr ''blocked:opposing'')" by (simp add: prod_eq_iff)
  show ?thesis unfolding Let_def by (rule early_block_is_lasting [OF first]) code_simp+
qed

definition sample_card_system :: card_system where
  "sample_card_system = \<lparr>cs_claims = empty_claims, cs_outbox = fresh_durable, cs_others = \<lambda>_. None,
     cs_cards = \<lambda>_. None, cs_sent = []\<rparr>"

lemma initial_call_is_a_run_witness:
  "let w = fst (deliver_initial sample_hash sample_settings sample_card_env ''research:a:initial'' ''w'' (sample_v22 ''a'') sample_cards)
   in du_posts (co_outbox w) = [''research:a:initial''] \<and>
      (\<exists>sent. (card_step sample_hash)\<^sup>*\<^sup>* sample_card_system
        (sample_card_system\<lparr>cs_claims := co_claims w, cs_outbox := co_outbox w, cs_sent := sent\<rparr>))"
proof -
  have "du_posts (co_outbox (fst (deliver_initial sample_hash sample_settings sample_card_env ''research:a:initial'' ''w''
      (sample_v22 ''a'') sample_cards))) = [''research:a:initial'']" by code_simp
  moreover have "cs_claims sample_card_system = co_claims sample_cards" "cs_outbox sample_card_system = co_outbox sample_cards"
    "cs_cards sample_card_system 0 = None" by (simp_all add: sample_card_system_def sample_cards_def)
  note initial_call_is_a_run [OF this refl, of sample_hash sample_settings sample_card_env "''research:a:initial''" "''w''"
      "sample_v22 ''a''"]
  ultimately show ?thesis unfolding Let_def by (rule conjI)
qed

lemma sample_card_run:
  "\<exists>sys'. (card_step sample_hash)\<^sup>*\<^sup>* sample_card_system sys' \<and> du_posts (cs_outbox sys') = [''research:a:initial'']"
proof -
  let ?a = "card_attempt ''research:a:initial'' ''w'' (sample_v22 ''a'')"
  let ?r = "claim sample_hash [] None (sample_v22 ''a'') 100500 True empty_claims"
  have box: "cs_outbox sample_card_system = fresh_durable" "cs_cards sample_card_system 0 = None"
    by (simp_all add: sample_card_system_def)
  have run: "attempt_step\<^sup>*\<^sup>* (cs_outbox sample_card_system, ?a)
      (fst (deliver sample_env ?a fresh_durable), goto ?a (Returned ''uncertain''))"
    unfolding box by (rule deliver_attempt) code_simp+
  have "du_dispatched fresh_durable (sg_id (sample_v22 ''a'')) = None" "v22_rubric (sample_v22 ''a'')"
    and granted: "cm_claimed (snd ?r)" by code_simp+
  then have "claim sample_hash [] (du_dispatched (cs_outbox sample_card_system) (sg_id (sample_v22 ''a''))) (sample_v22 ''a'')
      100500 (v22_rubric (sample_v22 ''a'')) (cs_claims sample_card_system) = (fst ?r, snd ?r)"
    by (simp add: sample_card_system_def)
  from granted_card_runs [OF box(2) granted _ this run, of "''uncertain''"]
  obtain sent where "(card_step sample_hash)\<^sup>*\<^sup>* sample_card_system (sample_card_system\<lparr>cs_claims :=
      settle_claim (cm_fingerprint (snd ?r)) ''uncertain'' (fst ?r), cs_outbox := fst (deliver sample_env ?a fresh_durable),
      cs_sent := sent\<rparr>)" by auto
  moreover have "du_posts (fst (deliver sample_env ?a fresh_durable)) = [''research:a:initial'']" by code_simp
  ultimately show ?thesis by (intro exI conjI) (assumption, simp)
qed

lemma one_card_per_plan_witness:
  "\<exists>sys'. (card_step sample_hash)\<^sup>*\<^sup>* sample_card_system sys' \<and> du_posts (cs_outbox sys') = [''research:a:initial'']
    \<and> sent_for ''v22'' sys' \<le> 1"
proof -
  have "cards_idle sample_card_system" by (simp add: cards_idle_def sample_card_system_def)
  with sample_card_run show ?thesis using one_card_per_plan by blast
qed

end
