(* ===== verification/Labels.thy ===== *)
theory Labels imports Paper begin

text \<open>
  Counterfactual outcomes of frozen decisions from recorded prints,
  \<^verbatim>\<open>src/bybit_flow/ml/labels.py\<close>: the loop over receipt-ordered rows that opens a
  paper position for every pending decision, feeds it the prints of its market, notes every loss of
  coverage and freezes a label when the position is over; and the incremental mode that stores the
  open positions in a checkpoint and goes on from there. Rows are modelled after parsing. The index
  of positions by market and the heap of deadlines are read off the open positions. The hash of the
  input events, the explanatory fields of a label and the sealing of the checkpoint
  (\<^verbatim>\<open>ml/checkpoint.py\<close>) are not modelled here.
\<close>

subsection \<open>Rows and decisions\<close>

record tape_print =
  px_id :: string
  px_block :: bool
  px_event_ms :: ms
  px_side :: side
  px_price :: dec
  px_size :: dec

datatype feed =
    FeedSubscribed "string list"
  | FeedRotation "string list"
  | FeedGap
  | FeedSourceChange
  | FeedPrints "tape_print list"
  | FeedOther

text \<open>A row with a venue prefix names its venue; one without is global and counts as Bybit's.\<close>

record feed_row =
  fw_receipt :: ms
  fw_venue :: "source option"
  fw_symbol :: string
  fw_complete :: bool
  fw_feed :: feed

definition row_venue :: "feed_row \<Rightarrow> source" where
  "row_venue r = (case fw_venue r of None \<Rightarrow> Bybit | Some v \<Rightarrow> v)"

definition global_gap :: "feed_row \<Rightarrow> bool" where
  "global_gap r \<longleftrightarrow> fw_feed r = FeedGap \<and> fw_venue r = None"

record decision_row =
  dn_id :: string
  dn_decision_ms :: ms
  dn_identity :: string
  dn_signal :: signal

record label_settings =
  lb_notional :: dec
  lb_fee_bps :: dec
  lb_slippage_bps :: dec
  lb_reserve_bps :: dec
  lb_stale_ms :: ms
  lb_tape_max :: nat
  lb_max_active :: nat

record outcome_label =
  ol_complete :: bool
  ol_class :: string
  ol_net_pnl :: "dec option"
  ol_net_r :: "dec option"
  ol_reserve :: dec
  ol_exit_ms :: "ms option"
  ol_gaps :: "string list"
  ol_available :: ms

subsection \<open>What the rows say about a market\<close>

type_synonym market_key = "source \<times> string"

record markets =
  mk_subscribed :: "market_key list"
  mk_last :: "(market_key \<times> ms) list"
  mk_seen :: "(source \<times> string \<times> string) list"

definition removed_markets :: "feed_row \<Rightarrow> market_key list \<Rightarrow> market_key list" where
  "removed_markets r subscribed =
     (case fw_feed r of
        FeedRotation ss \<Rightarrow> map (Pair (row_venue r)) ss
      | FeedGap \<Rightarrow> filter (\<lambda>(v, s). (global_gap r \<or> v = row_venue r) \<and> (fw_symbol r = ''ALL'' \<or> s = fw_symbol r)) subscribed
      | FeedSourceChange \<Rightarrow> subscribed
      | _ \<Rightarrow> [])"

definition subscribe :: "feed_row \<Rightarrow> market_key list \<Rightarrow> market_key list" where
  "subscribe r subscribed =
     (case fw_feed r of
        FeedSubscribed ss \<Rightarrow> fold List.insert (map (Pair (row_venue r)) ss) subscribed
      | _ \<Rightarrow> subscribed)"

text \<open>The set of ids that suppresses duplicates; it restarts when it outgrows the tape.\<close>

definition see :: "label_settings \<Rightarrow> (source \<times> string \<times> string) \<Rightarrow> (source \<times> string \<times> string) list \<Rightarrow> (source \<times> string \<times> string) list" where
  "see st k seen = (let s = List.insert k seen in if lb_tape_max st < length s then [k] else s)"

definition trade_of :: "feed_row \<Rightarrow> tape_print \<Rightarrow> trade" where
  "trade_of r x =
     \<lparr>tr_symbol = fw_symbol r, tr_event_ms = px_event_ms x, tr_receipt_ms = fw_receipt r, tr_trade_id = px_id x,
      tr_side = px_side x, tr_price = px_price x, tr_size = px_size x, tr_exchange = row_venue r\<rparr>"

fun fresh_trades ::
    "label_settings \<Rightarrow> feed_row \<Rightarrow> tape_print list \<Rightarrow> (source \<times> string \<times> string) list
     \<Rightarrow> py_error + trade list \<times> (source \<times> string \<times> string) list" where
  "fresh_trades st r [] seen = Inr ([], seen)"
| "fresh_trades st r (x # xs) seen =
     (let k = (row_venue r, fw_symbol r, px_id x) in
      if px_block x \<or> k \<in> set seen then fresh_trades st r xs seen
      else
        case trade_post_init (trade_of r x) of
          Inl e \<Rightarrow> Inl e
        | Inr t \<Rightarrow>
            (case fresh_trades st r xs (see st k seen) of
               Inl e \<Rightarrow> Inl e
             | Inr (ts, seen') \<Rightarrow> Inr (t # ts, seen')))"

definition row_trades :: "label_settings \<Rightarrow> feed_row \<Rightarrow> markets \<Rightarrow> py_error + trade list \<times> (source \<times> string \<times> string) list" where
  "row_trades st r m = (case fw_feed r of FeedPrints xs \<Rightarrow> fresh_trades st r xs (mk_seen m) | _ \<Rightarrow> Inr ([], mk_seen m))"

definition is_prints :: "feed \<Rightarrow> bool" where
  "is_prints f = (case f of FeedPrints _ \<Rightarrow> True | _ \<Rightarrow> False)"

abbreviation row_key :: "feed_row \<Rightarrow> market_key" where
  "row_key r \<equiv> (row_venue r, fw_symbol r)"

text \<open>The first retained print of a market establishes its coverage when old rows were pruned.\<close>

definition markets_after :: "ms \<Rightarrow> feed_row \<Rightarrow> (source \<times> string \<times> string) list \<Rightarrow> markets \<Rightarrow> markets" where
  "markets_after retained r seen m =
     (let removed = removed_markets r (subscribe r (mk_subscribed m));
          subscribed = filter (\<lambda>k. k \<notin> set removed) (subscribe r (mk_subscribed m));
          known = (map_of (mk_last m) (row_key r) \<noteq> None)
      in if is_prints (fw_feed r)
         then \<lparr>mk_subscribed = (if retained \<noteq> 0 \<and> \<not> known then List.insert (row_key r) subscribed else subscribed),
               mk_last = AList.update (row_key r) (fw_receipt r) (mk_last m), mk_seen = seen\<rparr>
         else m\<lparr>mk_subscribed := subscribed\<rparr>)"

subsection \<open>What a row does to one position\<close>

definition market_of :: "paper \<Rightarrow> market_key" where
  "market_of p = (sg_source (pp_signal p), sg_symbol (pp_signal p))"

definition mark_gap :: "string \<Rightarrow> paper \<Rightarrow> paper" where
  "mark_gap g p = (if g \<in> set (pp_data_gaps p) then p else p\<lparr>pp_data_gaps := pp_data_gaps p @ [g]\<rparr>)"

definition continuity_lost :: "feed_row \<Rightarrow> markets \<Rightarrow> paper \<Rightarrow> bool" where
  "continuity_lost r m p \<longleftrightarrow>
     market_of p \<in> set (removed_markets r (subscribe r (mk_subscribed m)))
     \<or> (\<not> fw_complete r
        \<and> (fw_feed r = FeedSourceChange
           \<or> ((global_gap r \<or> sg_source (pp_signal p) = row_venue r)
              \<and> fw_symbol r \<in> {''ALL'', sg_symbol (pp_signal p)})))"

definition feed_stale :: "label_settings \<Rightarrow> feed_row \<Rightarrow> markets \<Rightarrow> paper \<Rightarrow> bool" where
  "feed_stale st r m p \<longleftrightarrow>
     is_prints (fw_feed r) \<and> market_of p = row_key r
     \<and> (case map_of (mk_last m) (row_key r) of None \<Rightarrow> False | Some t \<Rightarrow> lb_stale_ms st < fw_receipt r - t)"

definition feed_position :: "label_settings \<Rightarrow> feed_row \<Rightarrow> markets \<Rightarrow> trade list \<Rightarrow> paper \<Rightarrow> paper" where
  "feed_position st r m ts p =
     (let p1 = (if continuity_lost r m p then mark_gap ''recording continuity lost'' p else p);
          p2 = (if feed_stale st r m p1 then mark_gap ''trade-feed stale interval'' p1 else p1)
      in if market_of p2 = row_key r then fold on_trade ts p2 else p2)"

definition open_position :: "label_settings \<Rightarrow> decision_row \<Rightarrow> py_error + paper" where
  "open_position st d =
     (let s = (dn_signal d)\<lparr>sg_created_ms := dn_decision_ms d\<rparr> in
      if sg_entry s = 0 then Inl ZeroDivision
      else paper_post_init ((paper_new s (lb_notional st / sg_entry s))\<lparr>pp_fee_bps := lb_fee_bps st,
             pp_slippage_bps := lb_slippage_bps st, pp_horizon_ms := sg_expected_hold_max s * 60000\<rparr>))"

definition label_deadline :: "paper \<Rightarrow> ms" where
  "label_deadline p = sg_created_ms (pp_signal p) + pp_horizon_ms p + 60000"

subsection \<open>The label\<close>

definition beyond_horizon :: "paper \<Rightarrow> bool" where
  "beyond_horizon p \<longleftrightarrow>
     (case pp_exit_ms p of None \<Rightarrow> False | Some t \<Rightarrow> t \<noteq> 0 \<and> sg_created_ms (pp_signal p) + pp_horizon_ms p < t)"

definition IRREVERSIBLE :: "string set" where
  "IRREVERSIBLE = {''entry coverage not continuously observed'', ''recording continuity lost'',
     ''trade-feed stale interval''}"

definition irreversible_gap :: "paper \<Rightarrow> bool" where
  "irreversible_gap p \<longleftrightarrow> set (pp_data_gaps p) \<inter> IRREVERSIBLE \<noteq> {}"

text \<open>\<^verbatim>\<open>primary_outcome\<close>, with what \<^verbatim>\<open>finish\<close> adds for a position without an exit\<close>

definition primary_outcome :: "label_settings \<Rightarrow> decision_row \<Rightarrow> ms \<Rightarrow> paper \<Rightarrow> py_error + outcome_label" where
  "primary_outcome st d at_ms p =
     (case outcome p of
        Inl e \<Rightarrow> Inl e
      | Inr o' \<Rightarrow>
          let complete = (po_complete o' \<and> \<not> beyond_horizon p);
              reserve = pp_entry_value p * lb_reserve_bps st / 10000;
              risk = pp_quantity p * \<bar>sg_entry (pp_signal p) - sg_stop (pp_signal p)\<bar>;
              gaps = pp_data_gaps p @ (if beyond_horizon p then [''exit beyond maximum frozen horizon policy''] else [])
                @ (if pp_exit_ms p \<noteq> None then []
                   else if at_ms \<le> label_deadline p
                   then [''Recorded coverage gap prevents a verified primary outcome'']
                   else [''horizon ended without sufficient observed prints to establish a completed exit'']);
              available = max (max at_ms (case pp_exit_ms p of None \<Rightarrow> 0 | Some t \<Rightarrow> t)) (dn_decision_ms d)
          in case (if complete then po_net_pnl o' else None) of
               None \<Rightarrow> Inr \<lparr>ol_complete = False, ol_class = ''incomplete'', ol_net_pnl = None, ol_net_r = None,
                         ol_reserve = reserve, ol_exit_ms = pp_exit_ms p, ol_gaps = gaps, ol_available = available\<rparr>
             | Some pnl \<Rightarrow>
                 if risk = 0 then Inl TypeErr
                 else let net = pnl - reserve; r = net / risk
                      in Inr \<lparr>ol_complete = True,
                           ol_class = (if r > dust then ''win'' else if r < - dust then ''loss'' else ''breakeven''),
                           ol_net_pnl = Some net, ol_net_r = Some r, ol_reserve = reserve,
                           ol_exit_ms = pp_exit_ms p, ol_gaps = gaps, ol_available = available\<rparr>)"

text \<open>Whether \<^verbatim>\<open>finish\<close> freezes the label now\<close>

definition label_due :: "ms \<Rightarrow> paper \<Rightarrow> bool" where
  "label_due at_ms p \<longleftrightarrow> irreversible_gap p \<or> pp_exit_ms p \<noteq> None \<or> label_deadline p < at_ms"

type_synonym label_table = "(string \<times> outcome_label) list"

text \<open>\<^verbatim>\<open>FeatureStore.label\<close>: labels are immutable.\<close>

definition store_label :: "decision_row \<Rightarrow> outcome_label \<Rightarrow> label_table \<Rightarrow> py_error + label_table" where
  "store_label d l labels =
     (if ol_available l < dn_decision_ms d
         \<or> ol_available l < (case ol_exit_ms l of None \<Rightarrow> 0 | Some t \<Rightarrow> t)
      then Inl (ValueError ''Unknown snapshot or future label'')
      else
        case map_of labels (dn_id d) of
          None \<Rightarrow> Inr (labels @ [(dn_id d, l)])
        | Some old \<Rightarrow> if old\<lparr>ol_available := ol_available l\<rparr> = l then Inr labels
                     else Inl (ValueError ''Immutable label conflict: use a new versioned label policy''))"

definition finish :: "label_settings \<Rightarrow> ms \<Rightarrow> decision_row \<Rightarrow> paper \<Rightarrow> label_table \<Rightarrow> py_error + label_table" where
  "finish st at_ms d p labels =
     (case primary_outcome st d at_ms p of
        Inl e \<Rightarrow> Inl e
      | Inr l \<Rightarrow> if label_due at_ms p then store_label d l labels else Inr labels)"

fun finish_all :: "label_settings \<Rightarrow> ms \<Rightarrow> (decision_row \<times> paper) list \<Rightarrow> label_table \<Rightarrow> py_error + label_table" where
  "finish_all st at_ms [] labels = Inr labels"
| "finish_all st at_ms ((d, p) # ds) labels =
     (case finish st at_ms d p labels of Inl e \<Rightarrow> Inl e | Inr labels' \<Rightarrow> finish_all st at_ms ds labels')"

subsection \<open>The loop over the rows\<close>

record label_loop =
  lp_pending :: "decision_row list"
  lp_active :: "(decision_row \<times> paper) list"
  lp_markets :: markets
  lp_labels :: label_table
  lp_previous :: ms
  lp_now :: ms

definition entry_uncovered :: "label_settings \<Rightarrow> ms \<Rightarrow> markets \<Rightarrow> decision_row \<Rightarrow> bool" where
  "entry_uncovered st now m d \<longleftrightarrow>
     (sg_source (dn_signal d), sg_symbol (dn_signal d)) \<notin> set (mk_subscribed m)
     \<or> lb_stale_ms st < now - dn_decision_ms d"

definition new_position :: "label_settings \<Rightarrow> ms \<Rightarrow> markets \<Rightarrow> decision_row \<Rightarrow> py_error + paper" where
  "new_position st now m d =
     (case open_position st d of
        Inl e \<Rightarrow> Inl e
      | Inr p \<Rightarrow> Inr (if entry_uncovered st now m d
                    then mark_gap ''entry coverage not continuously observed'' p else p))"

text \<open>Pending decisions are opened at the first row that is not earlier.\<close>

fun activate ::
    "label_settings \<Rightarrow> ms \<Rightarrow> markets \<Rightarrow> label_table \<Rightarrow> decision_row list \<Rightarrow> (decision_row \<times> paper) list
     \<Rightarrow> py_error + decision_row list \<times> (decision_row \<times> paper) list" where
  "activate st now m labels [] active = Inr ([], active)"
| "activate st now m labels (d # ds) active =
     (if now < dn_decision_ms d then Inr (d # ds, active)
      else if map_of labels (dn_id d) \<noteq> None then activate st now m labels ds active
      else if lb_max_active st \<le> length active
      then Inl (ValueError ''Paper candidate capacity exceeded; partition recordings, do not silently sample'')
      else
        case new_position st now m d of
          Inl e \<Rightarrow> Inl e
        | Inr p \<Rightarrow> activate st now m labels ds (active @ [(d, p)]))"

text \<open>A position is done when a print has closed it or its deadline lies behind.\<close>

definition position_over :: "ms \<Rightarrow> paper \<Rightarrow> bool" where
  "position_over now p \<longleftrightarrow> pp_exit_ms p \<noteq> None \<or> label_deadline p < now"

definition label_row :: "label_settings \<Rightarrow> ms \<Rightarrow> feed_row \<Rightarrow> label_loop \<Rightarrow> py_error + label_loop" where
  "label_row st retained r lp =
     (let now = fw_receipt r; m = lp_markets lp in
      if now < lp_previous lp then Inl (ValueError ''Labels require receipt-ordered records'')
      else
        case activate st now m (lp_labels lp) (lp_pending lp) (lp_active lp) of
          Inl e \<Rightarrow> Inl e
        | Inr (pending, active) \<Rightarrow>
            (case row_trades st r m of
               Inl e \<Rightarrow> Inl e
             | Inr (ts, seen) \<Rightarrow>
                 let fed = map (\<lambda>(d, p). (d, feed_position st r m ts p)) active in
                 (case finish_all st now (filter (\<lambda>(d, p). position_over now p) fed) (lp_labels lp) of
                    Inl e \<Rightarrow> Inl e
                  | Inr labels \<Rightarrow>
                      Inr \<lparr>lp_pending = pending, lp_active = filter (\<lambda>(d, p). \<not> position_over now p) fed,
                           lp_markets = markets_after retained r seen m, lp_labels = labels,
                           lp_previous = now, lp_now = now\<rparr>)))"

fun label_rows :: "label_settings \<Rightarrow> ms \<Rightarrow> ms \<Rightarrow> feed_row list \<Rightarrow> label_loop \<Rightarrow> py_error + label_loop" where
  "label_rows st retained cursor [] lp = Inr lp"
| "label_rows st retained cursor (r # rs) lp =
     (if fw_receipt r \<le> cursor then label_rows st retained cursor rs lp
      else
        case label_row st retained r lp of
          Inl e \<Rightarrow> Inl e
        | Inr lp' \<Rightarrow> label_rows st retained cursor rs lp')"

subsection \<open>The end of a pass\<close>

text \<open>Decisions that no row has reached by the live cutoff\<close>

fun open_uncovered ::
    "label_settings \<Rightarrow> bool \<Rightarrow> ms \<Rightarrow> decision_row list \<Rightarrow> (decision_row \<times> paper) list \<Rightarrow> label_table
     \<Rightarrow> py_error + (decision_row \<times> paper) list \<times> label_table" where
  "open_uncovered st incremental now [] active labels = Inr (active, labels)"
| "open_uncovered st incremental now (d # ds) active labels =
     (if now < dn_decision_ms d then Inr (active, labels)
      else
        case open_position st d of
          Inl e \<Rightarrow> Inl e
        | Inr p0 \<Rightarrow>
            let p = mark_gap ''no recording covers this decision before the live observation cutoff'' p0 in
            if incremental \<and> now \<le> label_deadline p
            then open_uncovered st incremental now ds (active @ [(d, p)]) labels
            else
              (case finish st now d p labels of
                 Inl e \<Rightarrow> Inl e
               | Inr labels' \<Rightarrow> open_uncovered st incremental now ds active labels'))"

definition end_gap :: "bool \<Rightarrow> ms \<Rightarrow> paper \<Rightarrow> paper" where
  "end_gap incremental now p =
     (if \<not> incremental \<or> label_deadline p < now
      then p\<lparr>pp_data_gaps := pp_data_gaps p @ [''recording ended before the live observation cutoff'']\<rparr> else p)"

definition observe_end ::
    "label_settings \<Rightarrow> bool \<Rightarrow> ms option \<Rightarrow> label_loop \<Rightarrow> py_error + ms \<times> (decision_row \<times> paper) list \<times> label_table" where
  "observe_end st incremental observed lp =
     (case observed of
        None \<Rightarrow> Inr (lp_now lp, lp_active lp, lp_labels lp)
      | Some u \<Rightarrow>
          if u \<le> lp_now lp then Inr (lp_now lp, lp_active lp, lp_labels lp)
          else
            (case open_uncovered st incremental u (lp_pending lp)
                    (map (\<lambda>(d, p). (d, end_gap incremental u p)) (lp_active lp)) (lp_labels lp) of
               Inl e \<Rightarrow> Inl e
             | Inr (active, labels) \<Rightarrow> Inr (u, active, labels)))"

record materialized =
  mt_cursor :: ms
  mt_markets :: markets
  mt_positions :: "(decision_row \<times> paper) list"

record label_store =
  sr_labels :: label_table
  sr_checkpoint :: "materialized option"

definition unlabelled :: "label_table \<Rightarrow> decision_row \<Rightarrow> bool" where
  "unlabelled labels d \<longleftrightarrow> map_of labels (dn_id d) = None"

definition end_pass :: "label_settings \<Rightarrow> bool \<Rightarrow> ms option \<Rightarrow> label_loop \<Rightarrow> label_store \<Rightarrow> py_error + label_store" where
  "end_pass st incremental observed lp s =
     (case observe_end st incremental observed lp of
        Inl e \<Rightarrow> Inl e
      | Inr (now, active, labels) \<Rightarrow>
          (case finish_all st now active labels of
             Inl e \<Rightarrow> Inl e
           | Inr labels' \<Rightarrow>
               Inr \<lparr>sr_labels = labels',
                    sr_checkpoint =
                      (if incremental
                       then Some \<lparr>mt_cursor = lp_now lp, mt_markets = lp_markets lp,
                                  mt_positions = filter (\<lambda>(d, _). unlabelled labels' d) active\<rparr>
                       else sr_checkpoint s)\<rparr>))"

subsection \<open>A pass\<close>

definition duplicate_label :: "ms \<Rightarrow> decision_row \<Rightarrow> outcome_label" where
  "duplicate_label wall d =
     \<lparr>ol_complete = False, ol_class = ''technical_duplicate'', ol_net_pnl = None, ol_net_r = None, ol_reserve = 0,
      ol_exit_ms = None, ol_gaps = [], ol_available = max wall (dn_decision_ms d)\<rparr>"

text \<open>Every later evaluation of an economic opportunity is excluded, never given the winner's outcome.\<close>

fun label_duplicates :: "ms \<Rightarrow> decision_row list \<Rightarrow> (string \<times> string) list \<Rightarrow> label_table \<Rightarrow> py_error + label_table" where
  "label_duplicates wall [] first labels = Inr labels"
| "label_duplicates wall (d # ds) first labels =
     (case map_of first (dn_identity d) of
        None \<Rightarrow> label_duplicates wall ds ((dn_identity d, dn_id d) # first) labels
      | Some canonical \<Rightarrow>
          if canonical \<noteq> dn_id d \<and> unlabelled labels d
          then (case store_label d (duplicate_label wall d) labels of
                  Inl e \<Rightarrow> Inl e
                | Inr labels' \<Rightarrow> label_duplicates wall ds first labels')
          else label_duplicates wall ds first labels)"

text \<open>The loop at the start of a pass, the table being in the order of decision time and id.\<close>

definition no_markets :: markets where
  "no_markets = \<lparr>mk_subscribed = [], mk_last = [], mk_seen = []\<rparr>"

definition start_loop :: "decision_row list \<Rightarrow> ms \<Rightarrow> materialized option \<Rightarrow> label_table \<Rightarrow> label_loop" where
  "start_loop table retained checkpoint labels =
     (let restored = (case checkpoint of None \<Rightarrow> [] | Some c \<Rightarrow> mt_positions c);
          pending = filter (\<lambda>d. dn_id d \<notin> (dn_id \<circ> fst) ` set restored)
            (take 10000 (filter (\<lambda>d. retained < dn_decision_ms d \<and> unlabelled labels d) table))
      in \<lparr>lp_pending = pending, lp_active = filter (\<lambda>(d, _). unlabelled labels d) restored,
          lp_markets = (case checkpoint of None \<Rightarrow> no_markets | Some c \<Rightarrow> mt_markets c), lp_labels = labels,
          lp_previous = (case checkpoint of None \<Rightarrow> -1 | Some c \<Rightarrow> mt_cursor c),
          lp_now = (case checkpoint of None \<Rightarrow> 0 | Some c \<Rightarrow> mt_cursor c)\<rparr>)"

definition label_pass ::
    "label_settings \<Rightarrow> decision_row list \<Rightarrow> ms \<Rightarrow> ms \<Rightarrow> bool \<Rightarrow> ms option \<Rightarrow> feed_row list \<Rightarrow> label_store
     \<Rightarrow> py_error + label_store" where
  "label_pass st table retained wall incremental observed rows s =
     (case (if incremental then label_duplicates wall table [] (sr_labels s) else Inr (sr_labels s)) of
        Inl e \<Rightarrow> Inl e
      | Inr labels \<Rightarrow>
          let checkpoint = (if incremental then sr_checkpoint s else None);
              cursor = (case checkpoint of None \<Rightarrow> -1 | Some c \<Rightarrow> mt_cursor c)
          in case label_rows st retained cursor rows (start_loop table retained checkpoint labels) of
               Inl e \<Rightarrow> Inl e
             | Inr lp \<Rightarrow> end_pass st incremental observed lp s)"

end
