(* ===== verification/LabelBatches.thy ===== *)
theory LabelBatches imports Labels begin

text \<open>
  Incremental labelling agrees with one pass. The loop treats every decision on its own: what
  happens to one of them depends on the rows and the state of the markets only. A pass that stops
  and a later pass that goes on from its checkpoint are compared with the uninterrupted loop,
  decision by decision.
\<close>

subsection \<open>The fate of one decision\<close>

datatype fate = Waiting | Open paper | Labelled outcome_label

definition fate_of :: "label_table \<Rightarrow> (decision_row \<times> paper) list \<Rightarrow> decision_row \<Rightarrow> fate" where
  "fate_of labels active d =
     (case map_of labels (dn_id d) of
        Some l \<Rightarrow> Labelled l
      | None \<Rightarrow> (case map_of active d of Some p \<Rightarrow> Open p | None \<Rightarrow> Waiting))"

abbreviation loop_fate :: "label_loop \<Rightarrow> decision_row \<Rightarrow> fate" where
  "loop_fate lp \<equiv> fate_of (lp_labels lp) (lp_active lp)"

definition begin_fate :: "label_settings \<Rightarrow> ms \<Rightarrow> markets \<Rightarrow> decision_row \<Rightarrow> fate \<Rightarrow> fate" where
  "begin_fate st now m d x =
     (if x = Waiting \<and> dn_decision_ms d \<le> now
      then (case new_position st now m d of Inl _ \<Rightarrow> Waiting | Inr p \<Rightarrow> Open p) else x)"

definition close_fate :: "label_settings \<Rightarrow> ms \<Rightarrow> decision_row \<Rightarrow> paper \<Rightarrow> fate" where
  "close_fate st now d p = (case primary_outcome st d now p of Inl _ \<Rightarrow> Open p | Inr l \<Rightarrow> Labelled l)"

definition row_fate :: "label_settings \<Rightarrow> feed_row \<Rightarrow> markets \<Rightarrow> trade list \<Rightarrow> decision_row \<Rightarrow> fate \<Rightarrow> fate" where
  "row_fate st r m ts d x =
     (case begin_fate st (fw_receipt r) m d x of
        Open p \<Rightarrow>
          let p' = feed_position st r m ts p
          in if position_over (fw_receipt r) p' then close_fate st (fw_receipt r) d p' else Open p'
      | y \<Rightarrow> y)"

subsection \<open>The loop does nothing but that\<close>

definition ids :: "(decision_row \<times> 'a) list \<Rightarrow> string list" where
  "ids ds = map (dn_id \<circ> fst) ds"

text \<open>
  The decisions that a run may open, with distinct ids and in order of decision time: each is
  pending, open or labelled, and never two of these; an open one is not over.
\<close>

definition loop_inv :: "decision_row list \<Rightarrow> label_loop \<Rightarrow> bool" where
  "loop_inv E lp \<longleftrightarrow>
     distinct (map dn_id E) \<and> sorted (map dn_decision_ms (lp_pending lp))
     \<and> set (lp_pending lp) \<union> fst ` set (lp_active lp) \<subseteq> set E
     \<and> distinct (map dn_id (lp_pending lp) @ ids (lp_active lp))
     \<and> (\<forall>d \<in> set (lp_pending lp) \<union> fst ` set (lp_active lp). unlabelled (lp_labels lp) d)
     \<and> (\<forall>d \<in> set E. d \<in> set (lp_pending lp) \<or> d \<in> fst ` set (lp_active lp) \<or> \<not> unlabelled (lp_labels lp) d)
     \<and> (\<forall>(d, p) \<in> set (lp_active lp). \<not> position_over (lp_now lp) p)"

lemma activate_result:
  assumes "activate st now m labels ds active = Inr (pending, active')"
    and "sorted (map dn_decision_ms ds)" and "\<forall>d \<in> set ds. unlabelled labels d"
  shows "pending = filter (\<lambda>d. now < dn_decision_ms d) ds \<and>
    (\<exists>new. active' = active @ new \<and> map fst new = filter (\<lambda>d. dn_decision_ms d \<le> now) ds
       \<and> (\<forall>(d, p) \<in> set new. new_position st now m d = Inr p))"
  using assms
proof (induction ds arbitrary: active)
  case Nil
  then show ?case by simp
next
  case (Cons d ds)
  show ?case
  proof (cases "now < dn_decision_ms d")
    case True
    then have "now < dn_decision_ms x" if "x \<in> set ds" for x using Cons.prems(2) that by fastforce
    then have "filter (\<lambda>d. now < dn_decision_ms d) ds = ds" "filter (\<lambda>d. dn_decision_ms d \<le> now) ds = []"
      by (auto simp: filter_id_conv filter_empty_conv not_le)
    with True Cons.prems(1) show ?thesis by auto
  next
    case False
    from False Cons.prems obtain p where p: "new_position st now m d = Inr p"
      and rest: "activate st now m labels ds (active @ [(d, p)]) = Inr (pending, active')"
      by (auto simp: unlabelled_def split: if_splits sum.splits)
    from Cons.IH [OF rest] Cons.prems(2,3) obtain new where
      "pending = filter (\<lambda>d. now < dn_decision_ms d) ds" "active' = (active @ [(d, p)]) @ new"
      "map fst new = filter (\<lambda>d. dn_decision_ms d \<le> now) ds" "\<forall>(d, p) \<in> set new. new_position st now m d = Inr p"
      by auto
    with False p show ?thesis by (intro conjI exI [of _ "(d, p) # new"]) simp_all
  qed
qed

lemma finish_result:
  assumes "finish st at_ms d p labels = Inr labels'" "unlabelled labels d"
  shows "\<exists>l. primary_outcome st d at_ms p = Inr l
    \<and> labels' = (if label_due at_ms p then labels @ [(dn_id d, l)] else labels)"
  using assms by (auto simp: finish_def store_label_def unlabelled_def split: sum.splits if_splits)

lemma finish_all_result:
  assumes "finish_all st at_ms ds labels = Inr labels'" "distinct (ids ds)" "\<forall>x \<in> set ds. unlabelled labels (fst x)"
  shows "(\<forall>(d, p) \<in> set ds. \<exists>l. primary_outcome st d at_ms p = Inr l
      \<and> map_of labels' (dn_id d) = (if label_due at_ms p then Some l else None))
    \<and> (\<forall>i. i \<notin> set (ids ds) \<longrightarrow> map_of labels' i = map_of labels i)"
  using assms
proof (induction ds arbitrary: labels)
  case Nil
  then show ?case by simp
next
  case (Cons x ds)
  obtain d p where x: "x = (d, p)" by (cases x)
  from Cons.prems(1) obtain mid where mid: "finish st at_ms d p labels = Inr mid"
    and rest: "finish_all st at_ms ds mid = Inr labels'" by (auto simp: x split: sum.splits)
  have un: "unlabelled labels d" using Cons.prems(3) by (simp add: x)
  from finish_result [OF mid un] obtain l where
    l: "primary_outcome st d at_ms p = Inr l" "mid = (if label_due at_ms p then labels @ [(dn_id d, l)] else labels)"
    by blast
  have other: "map_of mid i = map_of labels i" if "i \<noteq> dn_id d" for i
    using l(2) that by (auto simp: map_add_def split: option.splits)
  have self: "map_of mid (dn_id d) = (if label_due at_ms p then Some l else None)"
    using l(2) un by (simp add: unlabelled_def map_add_def)
  have notin: "dn_id d \<notin> set (ids ds)" using Cons.prems(2) by (simp add: ids_def x)
  have "\<forall>x \<in> set ds. unlabelled mid (fst x)"
  proof
    fix y assume y: "y \<in> set ds"
    then have "dn_id (fst y) \<noteq> dn_id d" using notin by (force simp: ids_def)
    then show "unlabelled mid (fst y)" using Cons.prems(3) y other by (simp add: unlabelled_def)
  qed
  from Cons.IH [OF rest _ this] Cons.prems(2)
  have ih: "\<forall>(d, p) \<in> set ds. \<exists>l. primary_outcome st d at_ms p = Inr l
      \<and> map_of labels' (dn_id d) = (if label_due at_ms p then Some l else None)"
    "\<forall>i. i \<notin> set (ids ds) \<longrightarrow> map_of labels' i = map_of mid i" by (simp_all add: ids_def x)
  show ?case
    using ih l(1) self notin other by (auto simp: x ids_def)
qed

lemma map_of_distinct:
  "distinct (ids xs) \<Longrightarrow> map_of xs d = Some p \<longleftrightarrow> (d, p) \<in> set xs"
proof -
  assume "distinct (ids xs)"
  then have "distinct (map fst xs)" unfolding ids_def by (metis distinct_map map_map)
  then show ?thesis by simp
qed

lemma ids_mem: "(d, p) \<in> set xs \<Longrightarrow> dn_id d \<in> set (ids xs)"
  by (force simp: ids_def)

lemma same_id: "distinct (map dn_id E) \<Longrightarrow> d \<in> set E \<Longrightarrow> e \<in> set E \<Longrightarrow> dn_id d = dn_id e \<Longrightarrow> d = e"
  by (meson distinct_map inj_onD)

lemma ids_filter_map [simp]: "ids (map (\<lambda>(d, p). (d, f d p)) xs) = ids xs"
  by (simp add: ids_def comp_def case_prod_unfold)

lemma distinct_ids_filter: "distinct (ids xs) \<Longrightarrow> distinct (ids (filter P xs))"
  by (simp add: ids_def distinct_map_filter)

text \<open>The second half of a row: the open positions are fed, and those that are over are labelled.\<close>

lemma feed_and_close:
  assumes E: "distinct (map dn_id E)" "fst ` set active \<subseteq> set E" and ids: "distinct (ids active)"
    and un: "\<forall>(d, p) \<in> set active. unlabelled labels d"
    and fed: "fed = map (\<lambda>(d, p). (d, f p)) active"
    and fin: "finish_all st now (filter (\<lambda>(d, p). position_over now p) fed) labels = Inr labels'"
    and rest: "rest = filter (\<lambda>(d, p). \<not> position_over now p) fed" and "d \<in> set E"
  shows "fate_of labels' rest d = (case fate_of labels active d of
      Open p \<Rightarrow> if position_over now (f p) then close_fate st now d (f p) else Open (f p) | y \<Rightarrow> y)"
proof -
  let ?over = "filter (\<lambda>(d, p). position_over now p) fed"
  have idf: "distinct (ids fed)" using ids fed by simp
  have ido: "distinct (ids ?over)" and idr: "distinct (ids rest)" using idf rest distinct_ids_filter by blast+
  have "\<forall>x \<in> set ?over. unlabelled labels (fst x)" using un by (auto simp: fed)
  note fa = finish_all_result [OF fin ido this]
  show ?thesis
  proof (cases "\<exists>p. (d, p) \<in> set active")
    case True
    then obtain p where p: "(d, p) \<in> set active" by blast
    then have mem: "(d, f p) \<in> set fed" by (force simp: fed)
    have open': "map_of active d = Some p" "map_of labels (dn_id d) = None"
      using map_of_distinct [OF ids] p un by (auto simp: unlabelled_def)
    then have start: "fate_of labels active d = Open p" by (simp add: fate_of_def)
    show ?thesis
    proof (cases "position_over now (f p)")
      case over: True
      then have "(d, f p) \<in> set ?over" "label_due now (f p)"
        using mem by (auto simp: position_over_def label_due_def)
      with fa obtain l where "primary_outcome st d now (f p) = Inr l" "map_of labels' (dn_id d) = Some l" by fastforce
      then show ?thesis using start over by (simp add: fate_of_def close_fate_def)
    next
      case False
      have "dn_id d \<notin> set (ids ?over)"
      proof
        assume "dn_id d \<in> set (ids ?over)"
        then obtain e q where e: "(e, q) \<in> set fed" "position_over now q" "dn_id e = dn_id d" by (auto simp: ids_def)
        then have "e \<in> set E" using E(2) by (force simp: fed)
        then have "e = d" using same_id [OF E(1) assms(8)] e(3) by metis
        then have "q = f p" using e(1) mem map_of_distinct [OF idf] by (metis option.inject)
        with False e(2) show False by simp
      qed
      then have "map_of labels' (dn_id d) = None" using fa open'(2) by simp
      moreover have "(d, f p) \<in> set rest" using mem False by (simp add: rest)
      then have "map_of rest d = Some (f p)" using map_of_distinct [OF idr] by blast
      ultimately show ?thesis using start False by (simp add: fate_of_def)
    qed
  next
    case False
    have "dn_id d \<notin> set (ids ?over)"
    proof
      assume "dn_id d \<in> set (ids ?over)"
      then obtain e q where e: "(e, q) \<in> set active" "dn_id e = dn_id d" by (auto simp: ids_def fed)
      then have "e \<in> set E" using E(2) by force
      then have "e = d" using same_id [OF E(1) assms(8)] e(2) by metis
      with False e(1) show False by blast
    qed
    then have same: "map_of labels' (dn_id d) = map_of labels (dn_id d)" using fa by blast
    have "map_of rest d = None" "map_of active d = None"
      using False by (auto simp: map_of_eq_None_iff rest fed)
    then show ?thesis using same by (auto simp: fate_of_def split: option.splits)
  qed
qed

lemma label_row_result:
  assumes "label_row st retained r lp = Inr lp'"
  obtains pending active ts seen where
    "activate st (fw_receipt r) (lp_markets lp) (lp_labels lp) (lp_pending lp) (lp_active lp) = Inr (pending, active)"
    "row_trades st r (lp_markets lp) = Inr (ts, seen)"
    "finish_all st (fw_receipt r) (filter (\<lambda>(d, p). position_over (fw_receipt r) p)
       (map (\<lambda>(d, p). (d, feed_position st r (lp_markets lp) ts p)) active)) (lp_labels lp) = Inr (lp_labels lp')"
    "lp_pending lp' = pending" "lp_markets lp' = markets_after retained r seen (lp_markets lp)" "lp_now lp' = fw_receipt r"
    "lp_active lp' = filter (\<lambda>(d, p). \<not> position_over (fw_receipt r) p)
       (map (\<lambda>(d, p). (d, feed_position st r (lp_markets lp) ts p)) active)" "lp_previous lp' = fw_receipt r"
  using assms by (auto simp: label_row_def Let_def split: if_splits sum.splits prod.splits)

lemma label_row_step:
  assumes inv: "loop_inv E lp" and row: "label_row st retained r lp = Inr lp'"
  shows "loop_inv E lp' \<and> (\<exists>ts seen. row_trades st r (lp_markets lp) = Inr (ts, seen)
    \<and> lp_markets lp' = markets_after retained r seen (lp_markets lp) \<and> lp_now lp' = fw_receipt r
    \<and> (\<forall>i. i \<notin> dn_id ` set E \<longrightarrow> map_of (lp_labels lp') i = map_of (lp_labels lp) i)
    \<and> (\<forall>d \<in> set E. loop_fate lp' d = row_fate st r (lp_markets lp) ts d (loop_fate lp d)))"
proof -
  let ?now = "fw_receipt r" and ?m = "lp_markets lp"
  from row obtain pending active ts seen where
    act: "activate st ?now ?m (lp_labels lp) (lp_pending lp) (lp_active lp) = Inr (pending, active)"
    and ts: "row_trades st r ?m = Inr (ts, seen)"
    and fin: "finish_all st ?now (filter (\<lambda>(d, p). position_over ?now p)
       (map (\<lambda>(d, p). (d, feed_position st r ?m ts p)) active)) (lp_labels lp) = Inr (lp_labels lp')"
    and lp': "lp_pending lp' = pending" "lp_markets lp' = markets_after retained r seen ?m" "lp_now lp' = ?now"
    "lp_active lp' = filter (\<lambda>(d, p). \<not> position_over ?now p) (map (\<lambda>(d, p). (d, feed_position st r ?m ts p)) active)"
    by (rule label_row_result)
  from inv have sorted: "sorted (map dn_decision_ms (lp_pending lp))" and E: "distinct (map dn_id E)"
    and sub: "set (lp_pending lp) \<subseteq> set E" "fst ` set (lp_active lp) \<subseteq> set E"
    and dist: "distinct (map dn_id (lp_pending lp) @ ids (lp_active lp))"
    and un: "\<And>d. d \<in> set (lp_pending lp) \<union> fst ` set (lp_active lp) \<Longrightarrow> unlabelled (lp_labels lp) d"
    and cover: "\<And>d. d \<in> set E \<Longrightarrow> d \<in> set (lp_pending lp) \<or> d \<in> fst ` set (lp_active lp) \<or> \<not> unlabelled (lp_labels lp) d"
    by (auto simp: loop_inv_def)
  from activate_result [OF act sorted] un obtain new where
    pending: "pending = filter (\<lambda>d. ?now < dn_decision_ms d) (lp_pending lp)" and active: "active = lp_active lp @ new"
    and new: "map fst new = filter (\<lambda>d. dn_decision_ms d \<le> ?now) (lp_pending lp)"
      "\<forall>(d, p) \<in> set new. new_position st ?now ?m d = Inr p" by auto
  have news: "fst ` set new = {d \<in> set (lp_pending lp). dn_decision_ms d \<le> ?now}"
    using arg_cong [OF new(1), of set] by auto
  have idn: "ids new = map dn_id (filter (\<lambda>d. dn_decision_ms d \<le> ?now) (lp_pending lp))"
    unfolding ids_def new(1) [symmetric] by simp
  have da: "distinct (ids active)"
    using dist by (auto simp: active ids_def idn [unfolded ids_def] distinct_map_filter)
  have suba: "fst ` set active \<subseteq> set E" using sub news by (auto simp: active)
  have una: "\<forall>(d, p) \<in> set active. unlabelled (lp_labels lp) d" using un news by (force simp: active)
  note close = feed_and_close [OF E suba da una refl fin lp'(4)]
  have opened: "fate_of (lp_labels lp) active d = begin_fate st ?now ?m d (loop_fate lp d)" if d: "d \<in> set E" for d
  proof (cases "unlabelled (lp_labels lp) d")
    case False
    then show ?thesis by (auto simp: fate_of_def begin_fate_def unlabelled_def)
  next
    case True
    show ?thesis
    proof (cases "d \<in> fst ` set (lp_active lp)")
      case act: True
      then obtain p where p: "(d, p) \<in> set (lp_active lp)" by force
      have "distinct (ids (lp_active lp))" using dist by simp
      then have "map_of (lp_active lp) d = Some p" using p by (simp add: map_of_distinct)
      moreover have "map_of active d = Some p" using p by (simp only: map_of_distinct [OF da]) (simp add: active)
      ultimately show ?thesis using True by (simp add: fate_of_def begin_fate_def unlabelled_def)
    next
      case no: False
      then have pend: "d \<in> set (lp_pending lp)" using cover [OF d] True by blast
      have none: "map_of (lp_active lp) d = None" using no by (simp add: map_of_eq_None_iff)
      show ?thesis
      proof (cases "dn_decision_ms d \<le> ?now")
        case now: True
        then have "d \<in> fst ` set new" using news pend by blast
        then obtain p where "map_of new d = Some p" by (cases "map_of new d") (auto simp: map_of_eq_None_iff)
        moreover then have "new_position st ?now ?m d = Inr p" using new(2) map_of_SomeD by fastforce
        ultimately show ?thesis using True none now
          by (simp add: fate_of_def begin_fate_def unlabelled_def active map_add_def)
      next
        case late: False
        then have "map_of new d = None" using news by (auto simp: map_of_eq_None_iff)
        then show ?thesis using True none late
          by (simp add: fate_of_def begin_fate_def unlabelled_def active map_add_def)
      qed
    qed
  qed
  have fates: "\<forall>d \<in> set E. loop_fate lp' d = row_fate st r ?m ts d (loop_fate lp d)"
    using close opened by (auto simp: row_fate_def Let_def split: fate.splits)
  have "loop_inv E lp'"
    unfolding loop_inv_def
  proof (intro conjI)
    show "distinct (map dn_id E)" by (rule E)
    show "sorted (map dn_decision_ms (lp_pending lp'))" using sorted by (simp add: lp'(1) pending sorted_filter)
    have sub': "fst ` set (lp_active lp') \<subseteq> fst ` set active" by (force simp: lp'(4))
    have pE: "set (lp_pending lp') \<subseteq> set E" using sub(1) by (auto simp: lp'(1) pending)
    show inE: "set (lp_pending lp') \<union> fst ` set (lp_active lp') \<subseteq> set E"
      by (rule Un_least [OF pE order_trans [OF sub' suba]])
    have "distinct (ids (lp_active lp'))" unfolding lp'(4) using da by (intro distinct_ids_filter) simp
    moreover have "distinct (map dn_id pending)" using dist by (simp add: pending distinct_map_filter)
    moreover have "dn_id ` set pending \<inter> set (ids (lp_active lp')) = {}"
    proof (rule ccontr)
      assume "\<not> ?thesis"
      then obtain d e where d: "d \<in> set pending" "e \<in> fst ` set active" "dn_id d = dn_id e"
        using sub' by (force simp: ids_def)
      have "d \<in> set E" using d(1) sub(1) by (auto simp: pending)
      moreover have "e \<in> set E" using d(2) suba by (rule rev_subsetD)
      ultimately have "d = e" using same_id [OF E] d(3) by blast
      moreover have "d \<notin> fst ` set (lp_active lp)" using d(1) dist by (force simp: pending ids_def)
      ultimately have "d \<in> fst ` set new" using d(2) by (auto simp: active)
      with d(1) show False by (auto simp: news pending)
    qed
    ultimately show "distinct (map dn_id (lp_pending lp') @ ids (lp_active lp'))" by (simp add: lp'(1))
    have nofate: "fate_of (lp_labels lp) active d = Waiting" if "d \<in> set pending" for d
    proof -
      have "map_of active d = None"
        using that news dist by (force simp: map_of_eq_None_iff active pending ids_def)
      then show ?thesis using un [of d] that by (simp add: fate_of_def unlabelled_def pending)
    qed
    show "\<forall>d \<in> set (lp_pending lp') \<union> fst ` set (lp_active lp'). unlabelled (lp_labels lp') d"
    proof
      fix d assume d: "d \<in> set (lp_pending lp') \<union> fst ` set (lp_active lp')"
      then have dE: "d \<in> set E" using inE by (rule rev_subsetD)
      have "loop_fate lp' d = Waiting \<or> (\<exists>p. loop_fate lp' d = Open p)"
      proof (cases "d \<in> set pending")
        case True
        then show ?thesis using close [OF dE] nofate [OF True] by simp
      next
        case False
        then obtain p where p: "(d, p) \<in> set active" "\<not> position_over ?now (feed_position st r ?m ts p)"
          using d by (auto simp: lp'(1,4))
        then have "map_of active d = Some p" "map_of (lp_labels lp) (dn_id d) = None"
          using map_of_distinct [OF da] una by (auto simp: unlabelled_def)
        then have "fate_of (lp_labels lp) active d = Open p" by (simp add: fate_of_def)
        then show ?thesis using close [OF dE] p(2) by simp
      qed
      then show "unlabelled (lp_labels lp') d" by (auto simp: fate_of_def unlabelled_def split: option.splits)
    qed
    show "\<forall>d \<in> set E. d \<in> set (lp_pending lp') \<or> d \<in> fst ` set (lp_active lp') \<or> \<not> unlabelled (lp_labels lp') d"
    proof
      fix d assume dE: "d \<in> set E"
      show "d \<in> set (lp_pending lp') \<or> d \<in> fst ` set (lp_active lp') \<or> \<not> unlabelled (lp_labels lp') d"
      proof (cases "loop_fate lp' d")
        case Waiting
        then have "fate_of (lp_labels lp) active d = Waiting"
          using close [OF dE] by (auto simp: close_fate_def split: fate.splits if_splits sum.splits)
        then have "unlabelled (lp_labels lp) d" "d \<notin> fst ` set active"
          by (auto simp: fate_of_def unlabelled_def map_of_eq_None_iff split: option.splits)
        then have "d \<in> set (lp_pending lp)" "d \<notin> fst ` set new" using cover [OF dE] by (auto simp: active)
        then show ?thesis using news by (auto simp: lp'(1) pending)
      next
        case (Open p)
        then show ?thesis by (force simp: fate_of_def split: option.splits dest: map_of_SomeD)
      next
        case (Labelled l)
        then show ?thesis by (auto simp: fate_of_def unlabelled_def split: option.splits)
      qed
    qed
    show "\<forall>(d, p) \<in> set (lp_active lp'). \<not> position_over (lp_now lp') p" by (auto simp: lp'(3,4))
  qed
  moreover have "map_of (lp_labels lp') i = map_of (lp_labels lp) i" if "i \<notin> dn_id ` set E" for i
  proof -
    let ?over = "filter (\<lambda>(d, p). position_over ?now p) (map (\<lambda>(d, p). (d, feed_position st r ?m ts p)) active)"
    have "distinct (ids ?over)" by (rule distinct_ids_filter) (simp add: da)
    moreover have "\<forall>x \<in> set ?over. unlabelled (lp_labels lp) (fst x)" using una by auto
    moreover have "i \<notin> set (ids ?over)" using that suba by (force simp: ids_def)
    ultimately show ?thesis using finish_all_result [OF fin] by blast
  qed
  ultimately show ?thesis using fates ts lp'(2,3) by blast
qed


subsection \<open>Two runs over the same rows\<close>

text \<open>
  \<^verbatim>\<open>x\<close> is the fate of a decision in one run without a pause, \<^verbatim>\<open>y\<close> its fate in a
  run that was stopped and resumed. The two differ only in decisions that can no longer be completed:
  the pause freezes an open position with a gap at once, while the uninterrupted run waits for its
  exit. With \<^verbatim>\<open>strict\<close> no observation cutoff has closed anything early.
\<close>

fun doomed :: "fate \<Rightarrow> bool" where
  "doomed Waiting \<longleftrightarrow> False"
| "doomed (Open p) \<longleftrightarrow> pp_data_gaps p \<noteq> []"
| "doomed (Labelled l) \<longleftrightarrow> \<not> ol_complete l"

definition agree :: "bool \<Rightarrow> fate \<Rightarrow> fate \<Rightarrow> bool" where
  "agree strict x y \<longleftrightarrow> x = y \<or> (doomed y \<and> (strict \<longrightarrow> doomed x))"

lemma agree_refl [simp]: "agree strict x x"
  by (simp add: agree_def)

lemma agree_complete: "agree strict x (Labelled l) \<Longrightarrow> ol_complete l \<Longrightarrow> x = Labelled l"
  by (simp add: agree_def)

lemma agree_complete_back: "agree True (Labelled l) y \<Longrightarrow> ol_complete l \<Longrightarrow> y = Labelled l"
  by (auto simp: agree_def)

lemma gapped_incomplete:
  assumes "primary_outcome st d now p = Inr l" "pp_data_gaps p \<noteq> [] \<or> pp_exit_ms p = None"
  shows "\<not> ol_complete l"
proof -
  have "\<not> paper_complete p" using assms(2) by (auto simp: paper_complete_def)
  then show ?thesis using assms(1) by (auto simp: primary_outcome_def outcome_def Let_def split: if_splits)
qed

lemma trade_part_gaps:
  "pp_data_gaps (note_excursion x p) = pp_data_gaps p" "pp_data_gaps (enter_fill t p) = pp_data_gaps p"
  "pp_data_gaps (decide_exit t p) = pp_data_gaps p" "pp_data_gaps (exit_fill t p) = pp_data_gaps p"
  by (simp_all add: note_excursion_def enter_fill_def decide_exit_def exit_fill_def Let_def)

lemma on_trade_gaps [simp]: "pp_data_gaps (on_trade t p) = pp_data_gaps p"
  unfolding on_trade_def Let_def by (simp add: trade_part_gaps)

lemma mark_gap_gaps [simp]: "pp_data_gaps (mark_gap g p) \<noteq> []"
  by (auto simp: mark_gap_def)

lemma fold_on_trade_gaps [simp]: "pp_data_gaps (fold on_trade ts p) = pp_data_gaps p"
  by (induction ts arbitrary: p) simp_all

lemma feed_position_gaps: "pp_data_gaps p \<noteq> [] \<Longrightarrow> pp_data_gaps (feed_position st r m ts p) \<noteq> []"
  by (simp add: feed_position_def Let_def)

lemma row_fate_doomed: "doomed x \<Longrightarrow> doomed (row_fate st r m ts d x)"
  by (cases x) (auto simp: row_fate_def begin_fate_def close_fate_def Let_def feed_position_gaps
      dest: gapped_incomplete split: sum.splits)

lemma row_fate_agree: "agree strict x y \<Longrightarrow> agree strict (row_fate st r m ts d x) (row_fate st r m ts d y)"
  by (auto simp: agree_def row_fate_doomed)

text \<open>The end of a pass settles some fates.\<close>

definition settles :: "bool \<Rightarrow> fate \<Rightarrow> fate \<Rightarrow> bool" where
  "settles observed y y' \<longleftrightarrow>
     y' = y \<or> (doomed y' \<and> (\<forall>l. y \<noteq> Labelled l) \<and> (observed \<or> doomed y))"

lemma settles_agree: "agree strict x y \<Longrightarrow> settles observed y y' \<Longrightarrow> agree (strict \<and> \<not> observed) x y'"
  by (auto simp: agree_def settles_def)


lemma settles_refl [simp]: "settles observed y y"
  by (simp add: settles_def)

lemma settles_trans: "settles o' y mid \<Longrightarrow> settles o' mid y' \<Longrightarrow> settles o' y y'"
  by (auto simp: settles_def)

text \<open>What a pass leaves behind, seen from the next one\<close>

definition store_positions :: "label_store \<Rightarrow> (decision_row \<times> paper) list" where
  "store_positions s = (case sr_checkpoint s of None \<Rightarrow> [] | Some c \<Rightarrow> mt_positions c)"

definition store_cursor :: "label_store \<Rightarrow> ms" where
  "store_cursor s = (case sr_checkpoint s of None \<Rightarrow> 0 | Some c \<Rightarrow> mt_cursor c)"

definition store_markets :: "label_store \<Rightarrow> markets" where
  "store_markets s = (case sr_checkpoint s of None \<Rightarrow> no_markets | Some c \<Rightarrow> mt_markets c)"

abbreviation store_fate :: "label_store \<Rightarrow> decision_row \<Rightarrow> fate" where
  "store_fate s \<equiv> fate_of (sr_labels s) (store_positions s)"

definition positions_ok :: "decision_row list \<Rightarrow> label_table \<Rightarrow> ms \<Rightarrow> (decision_row \<times> paper) list \<Rightarrow> bool" where
  "positions_ok E labels now active \<longleftrightarrow>
     distinct (ids active) \<and> fst ` set active \<subseteq> set E
     \<and> (\<forall>(d, p) \<in> set active. unlabelled labels d \<and> \<not> position_over now p)"

lemma open_position_fresh: "open_position st d = Inr p \<Longrightarrow> pp_exit_ms p = None"
  by (auto simp: open_position_def paper_post_init_def paper_new_def Let_def split: if_splits)

lemma open_uncovered_result:
  assumes "open_uncovered st True u ds active labels = Inr (active', labels')"
    and "distinct (map dn_id ds)" "\<forall>d \<in> set ds. unlabelled labels d"
  shows "\<exists>new. active' = active @ new \<and> fst ` set new \<subseteq> set ds \<and> distinct (ids new)
    \<and> (\<forall>(d, p) \<in> set new. pp_data_gaps p \<noteq> [] \<and> unlabelled labels' d \<and> \<not> position_over u p)
    \<and> (\<forall>i. i \<notin> dn_id ` set ds \<longrightarrow> map_of labels' i = map_of labels i)
    \<and> (\<forall>d \<in> set ds. \<forall>l. map_of labels' (dn_id d) = Some l \<longrightarrow> \<not> ol_complete l)"
  using assms
proof (induction ds arbitrary: active labels)
  case Nil
  then show ?case by (simp add: ids_def)
next
  case (Cons d ds)
  show ?case
  proof (cases "u < dn_decision_ms d")
    case True
    with Cons.prems show ?thesis by (auto simp: unlabelled_def ids_def intro!: exI [of _ "[]"])
  next
    case False
    from False Cons.prems(1) obtain p0 where p0: "open_position st d = Inr p0"
      by (auto split: sum.splits)
    define p where "p = mark_gap ''no recording covers this decision before the live observation cutoff'' p0"
    have fresh: "pp_exit_ms p = None" "pp_data_gaps p \<noteq> []"
      using open_position_fresh [OF p0] by (auto simp: p_def mark_gap_def)
    have notin: "dn_id d \<notin> dn_id ` set ds" "distinct (map dn_id ds)" using Cons.prems(2) by auto
    have un: "unlabelled labels d" "\<forall>d \<in> set ds. unlabelled labels d" using Cons.prems(3) by auto
    show ?thesis
    proof (cases "u \<le> label_deadline p")
      case True
      with False p0 Cons.prems(1) have "open_uncovered st True u ds (active @ [(d, p)]) labels = Inr (active', labels')"
        by (simp add: p_def)
      from Cons.IH [OF this notin(2) un(2)] obtain new where
        new: "active' = (active @ [(d, p)]) @ new" "fst ` set new \<subseteq> set ds" "distinct (ids new)"
        "\<forall>(d, p) \<in> set new. pp_data_gaps p \<noteq> [] \<and> unlabelled labels' d \<and> \<not> position_over u p"
        "\<forall>i. i \<notin> dn_id ` set ds \<longrightarrow> map_of labels' i = map_of labels i"
        "\<forall>d \<in> set ds. \<forall>l. map_of labels' (dn_id d) = Some l \<longrightarrow> \<not> ol_complete l" by blast
      have "unlabelled labels' d" using new(5) notin(1) un(1) by (simp add: unlabelled_def)
      moreover have "dn_id d \<notin> set (ids new)" using new(2) notin(1) by (force simp: ids_def)
      ultimately show ?thesis using new fresh True
        by (intro exI [of _ "(d, p) # new"]) (auto simp: position_over_def ids_def unlabelled_def)
    next
      case late: False
      with False p0 Cons.prems(1) obtain mid where mid: "finish st u d p labels = Inr mid"
        and rest: "open_uncovered st True u ds active mid = Inr (active', labels')"
        by (auto simp: p_def split: sum.splits)
      have "label_due u p" using late by (simp add: label_due_def)
      with finish_result [OF mid un(1)] obtain l where
        l: "primary_outcome st d u p = Inr l" "mid = labels @ [(dn_id d, l)]" by auto
      have inc: "\<not> ol_complete l" using gapped_incomplete [OF l(1)] fresh by blast
      have midmap: "map_of mid i = (if i = dn_id d then Some l else map_of labels i)" for i
        using un(1) by (auto simp: l(2) unlabelled_def map_add_def split: option.splits)
      have "unlabelled mid e" if "e \<in> set ds" for e
      proof -
        have "dn_id e \<noteq> dn_id d" using notin(1) imageI [OF that, of dn_id] by auto
        then show ?thesis using un(2) that by (simp add: unlabelled_def midmap)
      qed
      then have "\<forall>d \<in> set ds. unlabelled mid d" by blast
      from Cons.IH [OF rest notin(2) this] obtain new where
        new: "active' = active @ new" "fst ` set new \<subseteq> set ds" "distinct (ids new)"
        "\<forall>(d, p) \<in> set new. pp_data_gaps p \<noteq> [] \<and> unlabelled labels' d \<and> \<not> position_over u p"
        "\<forall>i. i \<notin> dn_id ` set ds \<longrightarrow> map_of labels' i = map_of mid i"
        "\<forall>d \<in> set ds. \<forall>l. map_of labels' (dn_id d) = Some l \<longrightarrow> \<not> ol_complete l" by blast
      have "map_of labels' (dn_id d) = Some l" using new(5) notin(1) by (simp add: midmap)
      with new inc show ?thesis by (intro exI [of _ new]) (auto simp: midmap)
    qed
  qed
qed


text \<open>Freezing at the end: a position that stays open is not due.\<close>

lemma finish_end:
  assumes fin: "finish_all st now active labels = Inr labels'" and E: "distinct (map dn_id E)"
    and ok: "positions_ok E labels before active" and observed: "now \<noteq> before \<longrightarrow> observed"
    and s': "rest = filter (\<lambda>(d, _). unlabelled labels' d) active"
  shows "positions_ok E labels' before rest
    \<and> (\<forall>d \<in> set E. settles observed (fate_of labels active d) (fate_of labels' rest d))
    \<and> (\<forall>i. i \<notin> dn_id ` set E \<longrightarrow> map_of labels' i = map_of labels i)"
proof -
  from ok have ids: "distinct (ids active)" and sub: "fst ` set active \<subseteq> set E"
    and each: "\<And>d p. (d, p) \<in> set active \<Longrightarrow> unlabelled labels d \<and> \<not> position_over before p"
    by (auto simp: positions_ok_def)
  have "\<forall>x \<in> set active. unlabelled labels (fst x)" using each by auto
  note fa = finish_all_result [OF fin ids this]
  have idr: "distinct (ids rest)" unfolding s' by (rule distinct_ids_filter [OF ids])
  have "positions_ok E labels' before rest"
    using idr sub each by (auto simp: positions_ok_def s')
  moreover have "settles observed (fate_of labels active d) (fate_of labels' rest d)" if d: "d \<in> set E" for d
  proof (cases "\<exists>p. (d, p) \<in> set active")
    case True
    then obtain p where p: "(d, p) \<in> set active" by blast
    then have "map_of active d = Some p" by (simp only: map_of_distinct [OF ids])
    then have start: "fate_of labels active d = Open p"
      using each [OF p] by (simp add: fate_of_def unlabelled_def)
    from fa p obtain l where l: "primary_outcome st d now p = Inr l"
      "map_of labels' (dn_id d) = (if label_due now p then Some l else None)" by blast
    show ?thesis
    proof (cases "label_due now p")
      case True
      have "pp_exit_ms p = None" using each [OF p] by (simp add: position_over_def)
      then have inc: "\<not> ol_complete l" using gapped_incomplete [OF l(1)] by blast
      have "observed \<or> pp_data_gaps p \<noteq> []"
        using True observed each [OF p] by (auto simp: label_due_def irreversible_gap_def position_over_def)
      then show ?thesis using l(2) True inc start by (auto simp: settles_def fate_of_def)
    next
      case False
      then have "(d, p) \<in> set rest" using l(2) p by (auto simp: s' unlabelled_def)
      then have "map_of rest d = Some p" using map_of_distinct [OF idr] by blast
      then show ?thesis using l(2) False start by (simp add: fate_of_def)
    qed
  next
    case False
    have "dn_id d \<notin> set (ids active)"
    proof
      assume "dn_id d \<in> set (ids active)"
      then obtain e q where e: "(e, q) \<in> set active" "dn_id e = dn_id d" by (auto simp: ids_def)
      then have "e \<in> set E" using sub by force
      then have "e = d" using same_id [OF E] d e(2) by metis
      with False e(1) show False by blast
    qed
    then have "map_of labels' (dn_id d) = map_of labels (dn_id d)" using fa by blast
    moreover have "map_of active d = None" "map_of rest d = None"
      using False by (auto simp: map_of_eq_None_iff s')
    ultimately show ?thesis by (simp add: fate_of_def split: option.split)
  qed
  moreover have "map_of labels' i = map_of labels i" if "i \<notin> dn_id ` set E" for i
  proof -
    have "i \<notin> set (ids active)" using that sub by (force simp: ids_def)
    then show ?thesis using fa by blast
  qed
  ultimately show ?thesis by blast
qed


lemma end_gap_frame [simp]:
  "pp_exit_ms (end_gap inc u p) = pp_exit_ms p" "label_deadline (end_gap inc u p) = label_deadline p"
  by (simp_all add: end_gap_def label_deadline_def)

lemma end_gap_same: "u \<le> label_deadline p \<Longrightarrow> end_gap True u p = p"
  by (simp add: end_gap_def)

lemma end_gap_gaps: "label_deadline p < u \<Longrightarrow> pp_data_gaps (end_gap inc u p) \<noteq> []"
  by (simp add: end_gap_def)

lemma loop_invD:
  assumes inv: "loop_inv E lp"
  shows "distinct (map dn_id E)" "sorted (map dn_decision_ms (lp_pending lp))"
    "set (lp_pending lp) \<subseteq> set E" "fst ` set (lp_active lp) \<subseteq> set E"
    "distinct (map dn_id (lp_pending lp))" "distinct (ids (lp_active lp))"
    "dn_id ` set (lp_pending lp) \<inter> set (ids (lp_active lp)) = {}"
    "d \<in> set (lp_pending lp) \<Longrightarrow> unlabelled (lp_labels lp) d"
    "(d, p) \<in> set (lp_active lp) \<Longrightarrow> unlabelled (lp_labels lp) d"
    "(d, p) \<in> set (lp_active lp) \<Longrightarrow> \<not> position_over (lp_now lp) p"
proof -
  note parts = inv [unfolded loop_inv_def, THEN conjunct2, THEN conjunct2, THEN conjunct2]
  note dist = parts [THEN conjunct1] and un = parts [THEN conjunct2, THEN conjunct1]
    and over = parts [THEN conjunct2, THEN conjunct2, THEN conjunct2]
  from inv show "distinct (map dn_id E)" "sorted (map dn_decision_ms (lp_pending lp))"
    "set (lp_pending lp) \<subseteq> set E" "fst ` set (lp_active lp) \<subseteq> set E"
    by (simp_all only: loop_inv_def Un_subset_iff)
  from dist show "distinct (map dn_id (lp_pending lp))" "distinct (ids (lp_active lp))"
    "dn_id ` set (lp_pending lp) \<inter> set (ids (lp_active lp)) = {}" by simp_all
  show "d \<in> set (lp_pending lp) \<Longrightarrow> unlabelled (lp_labels lp) d" using un by simp
  show "(d, p) \<in> set (lp_active lp) \<Longrightarrow> unlabelled (lp_labels lp) d" using un by force
  show "(d, p) \<in> set (lp_active lp) \<Longrightarrow> \<not> position_over (lp_now lp) p" using over by blast
qed

lemma loop_inv_positions:
  assumes "loop_inv E lp"
  shows "positions_ok E (lp_labels lp) (lp_now lp) (lp_active lp)"
  unfolding positions_ok_def using loop_invD(4,6) [OF assms] loop_invD(9,10) [OF assms] by blast

lemma position_over_mono: "position_over now p \<Longrightarrow> now \<le> u \<Longrightarrow> position_over u p"
  by (auto simp: position_over_def)

lemma observe_end_result:
  assumes inv: "loop_inv E lp" and obs: "observe_end st True observed lp = Inr (now, active, labels)"
  shows "positions_ok E labels (lp_now lp) active \<and> (now \<noteq> lp_now lp \<longrightarrow> observed \<noteq> None)
    \<and> (\<forall>d \<in> set E. settles (observed \<noteq> None) (loop_fate lp d) (fate_of labels active d))
    \<and> (\<forall>i. i \<notin> dn_id ` set E \<longrightarrow> map_of labels i = map_of (lp_labels lp) i)"
proof (cases "\<exists>u. observed = Some u \<and> lp_now lp < u")
  case False
  then have "now = lp_now lp" "active = lp_active lp" "labels = lp_labels lp"
    using obs by (auto simp: observe_end_def split: option.splits if_splits)
  then show ?thesis using loop_inv_positions [OF inv] by simp
next
  case True
  then obtain u where u: "observed = Some u" "lp_now lp < u" by blast
  let ?marked = "map (\<lambda>(d, p). (d, end_gap True u p)) (lp_active lp)"
  from obs u have run: "open_uncovered st True u (lp_pending lp) ?marked (lp_labels lp) = Inr (active, labels)"
    by (auto simp: observe_end_def split: sum.splits)
  note E = loop_invD(1) [OF inv] and sub = loop_invD(3,4) [OF inv] and disj = loop_invD(7) [OF inv]
  have un: "\<forall>d \<in> set (lp_pending lp). unlabelled (lp_labels lp) d" using loop_invD(8) [OF inv] by blast
  from open_uncovered_result [OF run loop_invD(5) [OF inv] un] obtain new where
    new: "active = ?marked @ new" "fst ` set new \<subseteq> set (lp_pending lp)" "distinct (ids new)"
    "\<forall>(d, p) \<in> set new. pp_data_gaps p \<noteq> [] \<and> unlabelled labels d \<and> \<not> position_over u p"
    "\<forall>i. i \<notin> dn_id ` set (lp_pending lp) \<longrightarrow> map_of labels i = map_of (lp_labels lp) i"
    "\<forall>d \<in> set (lp_pending lp). \<forall>l. map_of labels (dn_id d) = Some l \<longrightarrow> \<not> ol_complete l"
    by (elim exE conjE)
  have fresh: "pp_data_gaps p \<noteq> []" "unlabelled labels d" "\<not> position_over u p" if "(d, p) \<in> set new" for d p
    using new(4) that by blast+
  note other = new(5) [rule_format] and uncovered = new(6) [rule_format]
  have newids: "set (ids new) \<subseteq> dn_id ` set (lp_pending lp)" using new(2) by (force simp: ids_def)
  have keep: "unlabelled labels d" if "(d, p) \<in> set (lp_active lp)" for d p
  proof -
    have "dn_id d \<notin> dn_id ` set (lp_pending lp)" using ids_mem [OF that] disj by blast
    then show ?thesis using other loop_invD(9) [OF inv that] by (simp add: unlabelled_def)
  qed
  have da: "distinct (ids active)"
  proof -
    have "ids active = ids (lp_active lp) @ ids new" by (simp add: new(1) ids_def comp_def case_prod_unfold)
    then show ?thesis using loop_invD(6) [OF inv] newids disj new(3) by auto
  qed
  have ok: "positions_ok E labels (lp_now lp) active"
    unfolding positions_ok_def
  proof (intro conjI ballI)
    show "distinct (ids active)" by (rule da)
    show "fst ` set active \<subseteq> set E" using sub new(2) by (force simp: new(1))
    fix x assume "x \<in> set active"
    then consider p d where "x = (d, end_gap True u p)" "(d, p) \<in> set (lp_active lp)" | "x \<in> set new"
      by (auto simp: new(1))
    then show "case x of (d, p) \<Rightarrow> unlabelled labels d \<and> \<not> position_over (lp_now lp) p"
    proof cases
      case 1
      then show ?thesis using keep [OF 1(2)] loop_invD(10) [OF inv 1(2)] by (simp add: position_over_def)
    next
      case 2
      obtain d p where x: "x = (d, p)" by (cases x)
      then have "\<not> position_over (lp_now lp) p" using fresh(3) 2 position_over_mono u(2) by fastforce
      then show ?thesis using fresh(2) 2 by (simp add: x)
    qed
  qed
  have "settles True (loop_fate lp d) (fate_of labels active d)" if d: "d \<in> set E" for d
  proof (cases "d \<in> set (lp_pending lp)")
    case pend: True
    have "loop_fate lp d = Waiting"
    proof -
      have "d \<notin> fst ` set (lp_active lp)" using pend disj by (force simp: ids_def)
      then have "map_of (lp_active lp) d = None" by (simp add: map_of_eq_None_iff)
      then show ?thesis using un pend by (simp add: fate_of_def unlabelled_def)
    qed
    moreover have "fate_of labels active d = Waiting \<or> doomed (fate_of labels active d)"
    proof -
      have "pp_data_gaps p \<noteq> []" if "map_of active d = Some p" for p
      proof -
        have "(d, p) \<in> set active" using that by (rule map_of_SomeD)
        moreover have "d \<notin> fst ` set (lp_active lp)" using pend disj by (force simp: ids_def)
        ultimately have "(d, p) \<in> set new" by (force simp: new(1))
        then show ?thesis by (rule fresh)
      qed
      then show ?thesis using uncovered [OF pend] by (auto simp: fate_of_def split: option.splits)
    qed
    ultimately show ?thesis by (auto simp: settles_def)
  next
    case False
    then have "dn_id d \<notin> dn_id ` set (lp_pending lp)" using same_id [OF E] d sub(1) by blast
    then have same: "map_of labels (dn_id d) = map_of (lp_labels lp) (dn_id d)" by (rule other)
    have "map_of new d = None" using False new(2) by (force simp: map_of_eq_None_iff)
    then have "map_of active d = map_option (end_gap True u) (map_of (lp_active lp) d)"
      by (simp add: new(1) map_of_map map_add_def split: option.splits)
    moreover have "end_gap True u p = p \<or> pp_data_gaps (end_gap True u p) \<noteq> []" for p
      by (cases "u \<le> label_deadline p") (simp_all add: end_gap_same end_gap_gaps)
    ultimately show ?thesis
      using same by (cases "map_of (lp_active lp) d") (auto simp: fate_of_def settles_def split: option.splits)
  qed
  moreover have "map_of labels i = map_of (lp_labels lp) i" if "i \<notin> dn_id ` set E" for i
    using that sub(1) by (intro other) auto
  ultimately show ?thesis using ok u(1) by simp
qed


lemma end_pass_result:
  assumes inv: "loop_inv E lp" and run: "end_pass st True observed lp s = Inr s'"
  shows "sr_checkpoint s' = Some \<lparr>mt_cursor = lp_now lp, mt_markets = lp_markets lp, mt_positions = store_positions s'\<rparr>
    \<and> positions_ok E (sr_labels s') (lp_now lp) (store_positions s')
    \<and> (\<forall>d \<in> set E. settles (observed \<noteq> None) (loop_fate lp d) (store_fate s' d))
    \<and> (\<forall>i. i \<notin> dn_id ` set E \<longrightarrow> map_of (sr_labels s') i = map_of (lp_labels lp) i)"
proof -
  from run obtain now active labels labels' where obs: "observe_end st True observed lp = Inr (now, active, labels)"
    and fin: "finish_all st now active labels = Inr labels'"
    and s': "s' = \<lparr>sr_labels = labels', sr_checkpoint = Some \<lparr>mt_cursor = lp_now lp, mt_markets = lp_markets lp,
                mt_positions = filter (\<lambda>(d, _). unlabelled labels' d) active\<rparr>\<rparr>"
    by (auto simp: end_pass_def split: sum.splits prod.splits)
  from observe_end_result [OF inv obs] have ok: "positions_ok E labels (lp_now lp) active"
    and now: "now \<noteq> lp_now lp \<longrightarrow> observed \<noteq> None"
    and first: "\<forall>d \<in> set E. settles (observed \<noteq> None) (loop_fate lp d) (fate_of labels active d)"
    and out: "\<forall>i. i \<notin> dn_id ` set E \<longrightarrow> map_of labels i = map_of (lp_labels lp) i" by blast+
  have pos: "store_positions s' = filter (\<lambda>(d, _). unlabelled labels' d) active" "sr_labels s' = labels'"
    by (simp_all add: s' store_positions_def)
  note fe = finish_end [OF fin loop_invD(1) [OF inv] ok now pos(1)]
  show ?thesis
  proof (intro conjI)
    show "sr_checkpoint s' = Some \<lparr>mt_cursor = lp_now lp, mt_markets = lp_markets lp, mt_positions = store_positions s'\<rparr>"
      by (simp add: s' store_positions_def)
    show "positions_ok E (sr_labels s') (lp_now lp) (store_positions s')" using fe by (simp add: pos(2))
    show "\<forall>d \<in> set E. settles (observed \<noteq> None) (loop_fate lp d) (store_fate s' d)"
      using fe first settles_trans unfolding pos(2) by blast
    show "\<forall>i. i \<notin> dn_id ` set E \<longrightarrow> map_of (sr_labels s') i = map_of (lp_labels lp) i"
      using fe out by (simp add: pos(2))
  qed
qed

subsection \<open>Going on from what a pass left\<close>

text \<open>The first evaluation of an economic opportunity is the one that is labelled with an outcome.\<close>

definition canonical :: "decision_row list \<Rightarrow> decision_row \<Rightarrow> bool" where
  "canonical table d \<longleftrightarrow> find (\<lambda>e. dn_identity e = dn_identity d) table = Some d"

lemma find_canonical_append: "find P xs = Some d \<Longrightarrow> find P (xs @ ys) = Some d"
  by (induction xs) auto

lemma store_label_other:
  "store_label d l labels = Inr labels' \<Longrightarrow> i \<noteq> dn_id d \<Longrightarrow> map_of labels' i = map_of labels i"
  by (auto simp: store_label_def map_add_def split: if_splits option.splits)

lemma label_duplicates_other:
  assumes "label_duplicates wall ds first labels = Inr labels'" "i \<notin> dn_id ` set ds"
  shows "map_of labels' i = map_of labels i"
  using assms
proof (induction ds arbitrary: first labels)
  case (Cons d ds)
  then show ?case
    by (auto split: option.splits if_splits sum.splits simp: store_label_other)
qed simp

lemma label_duplicates_canonical:
  assumes "label_duplicates wall ds first labels = Inr labels'" "distinct (map dn_id ds)" "d \<in> set ds"
    and "case map_of first (dn_identity d) of
       None \<Rightarrow> find (\<lambda>e. dn_identity e = dn_identity d) ds = Some d | Some c \<Rightarrow> c = dn_id d"
  shows "map_of labels' (dn_id d) = map_of labels (dn_id d)"
  using assms
proof (induction ds arbitrary: first labels)
  case Nil
  then show ?case by simp
next
  case (Cons e ds)
  show ?case
  proof (cases "e = d")
    case True
    have "\<exists>first'. label_duplicates wall ds first' labels = Inr labels'"
      using Cons.prems(1,4) by (auto simp: True split: option.splits)
    then show ?thesis using Cons.prems(2) label_duplicates_other by (force simp: True)
  next
    case False
    then have d: "d \<in> set ds" "dn_id e \<noteq> dn_id d" using Cons.prems(2,3) by force+
    show ?thesis
    proof (cases "map_of first (dn_identity e)")
      case None
      with Cons.prems(1) have rest: "label_duplicates wall ds ((dn_identity e, dn_id e) # first) labels = Inr labels'" by simp
      have "dn_identity e \<noteq> dn_identity d" using Cons.prems(4) None False by (auto split: option.splits if_splits)
      then show ?thesis using Cons.IH [OF rest] Cons.prems(2,4) d(1) by (auto split: option.splits)
    next
      case (Some c)
      then obtain mid where rest: "label_duplicates wall ds first mid = Inr labels'"
        and mid: "map_of mid (dn_id d) = map_of labels (dn_id d)"
        using Cons.prems(1) store_label_other d(2) by (force split: if_splits sum.splits)
      have "case map_of first (dn_identity d) of
          None \<Rightarrow> find (\<lambda>e. dn_identity e = dn_identity d) ds = Some d | Some c \<Rightarrow> c = dn_id d"
        using Cons.prems(4) Some False by (auto split: option.splits if_splits)
      then show ?thesis using Cons.IH [OF rest] Cons.prems(2) d(1) mid by simp
    qed
  qed
qed


lemma map_of_filter_key: "P d \<Longrightarrow> map_of (filter (\<lambda>(d, _). P d) xs) d = map_of xs d"
  by (induction xs) auto

lemma start_loop_result:
  assumes T: "distinct (map dn_id T)" "sorted (map dn_decision_ms T)" "length T \<le> 10000" "\<forall>d \<in> set T. retained < dn_decision_ms d"
    and ok: "positions_ok T (sr_labels s) (store_cursor s) (store_positions s)"
    and lp: "lp = start_loop T retained (sr_checkpoint s) labels"
  shows "loop_inv T lp \<and> (\<forall>d. loop_fate lp d = fate_of labels (store_positions s) d)
    \<and> lp_markets lp = store_markets s \<and> lp_now lp = store_cursor s \<and> lp_labels lp = labels"
proof -
  let ?open = "filter (\<lambda>d. unlabelled labels d) T"
  let ?pending = "filter (\<lambda>d. dn_id d \<notin> set (ids (store_positions s))) ?open"
  let ?active = "filter (\<lambda>(d, _). unlabelled labels d) (store_positions s)"
  have "filter (\<lambda>d. retained < dn_decision_ms d \<and> unlabelled labels d) T = ?open"
    using T(4) by (intro filter_cong) auto
  moreover have "take 10000 ?open = ?open" using T(3) length_filter_le [of "unlabelled labels" T] by (intro take_all) linarith
  ultimately have parts: "lp_pending lp = ?pending" "lp_active lp = ?active" "lp_markets lp = store_markets s"
    "lp_now lp = store_cursor s" "lp_labels lp = labels"
    by (simp_all add: lp start_loop_def store_positions_def store_cursor_def store_markets_def ids_def split: option.split)
  from ok have ids: "distinct (ids (store_positions s))" and sub: "fst ` set (store_positions s) \<subseteq> set T"
    and over: "\<And>d p. (d, p) \<in> set (store_positions s) \<Longrightarrow> \<not> position_over (store_cursor s) p"
    by (auto simp: positions_ok_def)
  have suba: "fst ` set ?active \<subseteq> set T" using sub by force
  have ida: "distinct (ids ?active)" by (rule distinct_ids_filter [OF ids])
  have idsub: "set (ids ?active) \<subseteq> set (ids (store_positions s))" by (auto simp: ids_def)
  have "loop_inv T lp"
    unfolding loop_inv_def parts
  proof (intro conjI)
    show "distinct (map dn_id T)" by (rule T(1))
    show "sorted (map dn_decision_ms ?pending)" using T(2) by (simp add: sorted_filter)
    show "set ?pending \<union> fst ` set ?active \<subseteq> set T" using suba by auto
    have "distinct (map dn_id ?pending)" using T(1) by (simp add: distinct_map_filter)
    moreover have "dn_id ` set ?pending \<inter> set (ids ?active) = {}" using idsub by auto
    ultimately show "distinct (map dn_id ?pending @ ids ?active)" using ida by simp
    show "\<forall>d \<in> set ?pending \<union> fst ` set ?active. unlabelled labels d" by auto
    show "\<forall>d \<in> set T. d \<in> set ?pending \<or> d \<in> fst ` set ?active \<or> \<not> unlabelled labels d"
    proof (intro ballI)
      fix d assume d: "d \<in> set T"
      show "d \<in> set ?pending \<or> d \<in> fst ` set ?active \<or> \<not> unlabelled labels d"
      proof (cases "dn_id d \<in> set (ids (store_positions s))")
        case True
        then obtain e p where e: "(e, p) \<in> set (store_positions s)" "dn_id e = dn_id d" by (auto simp: ids_def)
        then have "e \<in> set T" using sub by force
        then have "e = d" using same_id [OF T(1)] d e(2) by metis
        then show ?thesis using e(1) by force
      next
        case False
        then show ?thesis using d by (cases "unlabelled labels d") simp_all
      qed
    qed
    show "\<forall>(d, p) \<in> set ?active. \<not> position_over (store_cursor s) p" using over by auto
  qed
  moreover have "loop_fate lp d = fate_of labels (store_positions s) d" for d
    by (cases "unlabelled labels d")
      (auto simp: parts fate_of_def unlabelled_def map_of_filter_key split: option.split)
  ultimately show ?thesis by (simp add: parts)
qed

text \<open>Two loops fed with the same rows, one of which does not know the later decisions yet\<close>

lemma label_rows_agree:
  assumes "label_rows st retained c rs lp = Inr lp'" "label_rows st retained c2 rs lp2 = Inr lp2'"
    and "loop_inv T lp" "loop_inv K lp2" "T = K @ later" "lp_markets lp2 = lp_markets lp"
    and "\<forall>r \<in> set rs. c < fw_receipt r \<and> c2 < fw_receipt r"
    and "\<forall>d \<in> set later. \<forall>r \<in> set rs. fw_receipt r < dn_decision_ms d"
    and "\<forall>d \<in> set T. C d \<longrightarrow> agree strict (loop_fate lp d) (loop_fate lp2 d)"
  shows "loop_inv T lp' \<and> loop_inv K lp2' \<and> lp_markets lp2' = lp_markets lp'
    \<and> lp_now lp' \<in> set (lp_now lp # map fw_receipt rs) \<and> lp_now lp2' \<in> set (lp_now lp2 # map fw_receipt rs)
    \<and> (\<forall>d \<in> set T. C d \<longrightarrow> agree strict (loop_fate lp' d) (loop_fate lp2' d))"
  using assms
proof (induction rs arbitrary: lp lp2)
  case Nil
  then show ?case by simp
next
  case (Cons r rs)
  from Cons.prems(7) have new: "\<not> fw_receipt r \<le> c" "\<not> fw_receipt r \<le> c2" by auto
  from new Cons.prems(1) obtain m where m: "label_row st retained r lp = Inr m" and rest: "label_rows st retained c rs m = Inr lp'"
    by (auto split: sum.splits)
  from new Cons.prems(2) obtain m2 where m2: "label_row st retained r lp2 = Inr m2" and rest2: "label_rows st retained c2 rs m2 = Inr lp2'"
    by (auto split: sum.splits)
  from label_row_step [OF Cons.prems(3) m] obtain ts seen where
    a: "loop_inv T m" "row_trades st r (lp_markets lp) = Inr (ts, seen)" "lp_markets m = markets_after retained r seen (lp_markets lp)"
    "lp_now m = fw_receipt r" "\<forall>d \<in> set T. loop_fate m d = row_fate st r (lp_markets lp) ts d (loop_fate lp d)" by blast
  from label_row_step [OF Cons.prems(4) m2] Cons.prems(6) a(2) have
    b: "loop_inv K m2" "lp_markets m2 = markets_after retained r seen (lp_markets lp)" "lp_now m2 = fw_receipt r"
    "\<forall>i. i \<notin> dn_id ` set K \<longrightarrow> map_of (lp_labels m2) i = map_of (lp_labels lp2) i"
    "\<forall>d \<in> set K. loop_fate m2 d = row_fate st r (lp_markets lp) ts d (loop_fate lp2 d)" by auto
  have same: "loop_fate m2 d = row_fate st r (lp_markets lp) ts d (loop_fate lp2 d)" if d: "d \<in> set T" for d
  proof (cases "d \<in> set K")
    case True
    then show ?thesis using b(5) by blast
  next
    case False
    then have late: "d \<in> set later" using d Cons.prems(5) by simp
    have "d \<notin> fst ` set (lp_active lp2)" "d \<notin> fst ` set (lp_active m2)"
      using False loop_invD(4) [OF Cons.prems(4)] loop_invD(4) [OF b(1)] by blast+
    then have "map_of (lp_active lp2) d = None" "map_of (lp_active m2) d = None" by (simp_all add: map_of_eq_None_iff)
    moreover have "dn_id d \<notin> dn_id ` set K" using loop_invD(1) [OF Cons.prems(3)] late Cons.prems(5) by auto
    then have "map_of (lp_labels m2) (dn_id d) = map_of (lp_labels lp2) (dn_id d)" using b(4) by blast
    moreover have "\<not> dn_decision_ms d \<le> fw_receipt r" using Cons.prems(8) late by auto
    ultimately show ?thesis by (simp add: fate_of_def row_fate_def begin_fate_def split: option.split)
  qed
  have agree': "\<forall>d \<in> set T. C d \<longrightarrow> agree strict (loop_fate m d) (loop_fate m2 d)"
    using Cons.prems(9) a(5) same row_fate_agree by auto
  have "lp_markets m2 = lp_markets m" by (simp add: a(3) b(2))
  from Cons.IH [OF rest rest2 a(1) b(1) Cons.prems(5) this _ _ agree'] Cons.prems(7,8) a(4) b(3)
  show ?case by auto
qed


subsection \<open>Any sequence of passes\<close>

record label_batch =
  bt_table :: "decision_row list"
  bt_wall :: ms
  bt_observed :: "ms option"
  bt_rows :: "feed_row list"

fun label_passes :: "label_settings \<Rightarrow> ms \<Rightarrow> label_batch list \<Rightarrow> label_store \<Rightarrow> py_error + label_store" where
  "label_passes st retained [] s = Inr s"
| "label_passes st retained (b # bs) s =
     (case label_pass st (bt_table b) retained (bt_wall b) True (bt_observed b) (bt_rows b) s of
        Inl e \<Rightarrow> Inl e
      | Inr s' \<Rightarrow> label_passes st retained bs s')"

text \<open>
  The passes see later and later rows of a growing table of decisions: no receipt time is split
  between two of them, and a decision is known before the first row at or after its time.
\<close>

fun batches_ok :: "decision_row list \<Rightarrow> decision_row list \<Rightarrow> ms \<Rightarrow> label_batch list \<Rightarrow> bool" where
  "batches_ok table known after [] \<longleftrightarrow> True"
| "batches_ok table known after (b # bs) \<longleftrightarrow>
     take (length known) (bt_table b) = known \<and> take (length (bt_table b)) table = bt_table b
     \<and> (\<forall>r \<in> set (bt_rows b). after < fw_receipt r)
     \<and> (\<forall>d \<in> set (drop (length (bt_table b)) table). \<forall>r \<in> set (bt_rows b). fw_receipt r < dn_decision_ms d)
     \<and> batches_ok table (bt_table b) (Max (set (after # map fw_receipt (bt_rows b)))) bs"

definition in_step ::
    "bool \<Rightarrow> decision_row list \<Rightarrow> decision_row list \<Rightarrow> ms \<Rightarrow> label_loop \<Rightarrow> label_store \<Rightarrow> bool" where
  "in_step strict T known after lp s \<longleftrightarrow>
     loop_inv T lp \<and> store_markets s = lp_markets lp \<and> lp_now lp \<le> after \<and> store_cursor s \<le> after \<and> 0 \<le> after
     \<and> positions_ok known (sr_labels s) (store_cursor s) (store_positions s)
     \<and> (\<forall>d \<in> set T. canonical T d \<longrightarrow> agree strict (loop_fate lp d) (store_fate s d))"

lemma canonical_known:
  assumes "canonical (K @ later) d" "d \<in> set K" "distinct (map dn_id (K @ later))"
  shows "canonical K d"
proof (cases "find (\<lambda>e. dn_identity e = dn_identity d) K")
  case None
  with assms(2) have False by (auto simp: find_None_iff)
  then show ?thesis ..
next
  case (Some e)
  then show ?thesis using assms(1) find_canonical_append [OF Some, of later] by (simp add: canonical_def)
qed

lemma pass_duplicates:
  assumes "label_duplicates wall K [] labels = Inr labels'" "distinct (map dn_id (K @ later))"
    and "d \<in> set (K @ later)" "canonical (K @ later) d"
  shows "fate_of labels' ps d = fate_of labels ps d"
proof -
  have "map_of labels' (dn_id d) = map_of labels (dn_id d)"
  proof (cases "d \<in> set K")
    case True
    then show ?thesis using label_duplicates_canonical [OF assms(1) _ True] assms(2) canonical_known [OF assms(4) True assms(2)]
      by (simp add: canonical_def)
  next
    case False
    then have "dn_id d \<notin> dn_id ` set K" using assms(2,3) by auto
    then show ?thesis by (rule label_duplicates_other [OF assms(1)])
  qed
  then show ?thesis by (simp add: fate_of_def)
qed

lemma positions_ok_mono: "positions_ok K labels now ps \<Longrightarrow> set K \<subseteq> set K' \<Longrightarrow> positions_ok K' labels now ps"
  by (auto simp: positions_ok_def)

text \<open>One more pass, until its end and then with it\<close>

lemma pass_in_step:
  assumes sync: "in_step strict T known after lp s"
    and T: "distinct (map dn_id T)" "sorted (map dn_decision_ms T)" "length T \<le> 10000" "\<forall>d \<in> set T. retained < dn_decision_ms d"
    and ok: "batches_ok T known after (b # bs)"
    and one: "label_rows st retained (-1) (bt_rows b) lp = Inr lp'"
    and pass: "label_pass st (bt_table b) retained (bt_wall b) True (bt_observed b) (bt_rows b) s = Inr s'"
  shows "(\<exists>lp2. (\<forall>d \<in> set T. canonical T d \<longrightarrow>
        agree strict (loop_fate lp' d) (loop_fate lp2 d) \<and> settles (bt_observed b \<noteq> None) (loop_fate lp2 d) (store_fate s' d)))
    \<and> loop_inv T lp'
    \<and> in_step (strict \<and> bt_observed b = None) T (bt_table b) (Max (set (after # map fw_receipt (bt_rows b)))) lp' s'"
proof -
  let ?K = "bt_table b" and ?cursor = "case sr_checkpoint s of None \<Rightarrow> -1 | Some c \<Rightarrow> mt_cursor c"
  let ?later = "drop (length ?K) T" and ?after = "Max (set (after # map fw_receipt (bt_rows b)))"
  from ok have known: "take (length known) ?K = known" and K: "take (length ?K) T = ?K"
    and rows: "\<forall>r \<in> set (bt_rows b). after < fw_receipt r"
    and unseen: "\<forall>d \<in> set ?later. \<forall>r \<in> set (bt_rows b). fw_receipt r < dn_decision_ms d" by auto
  have T_eq: "T = ?K @ ?later" using K append_take_drop_id [of "length ?K" T] by simp
  have KT: "distinct (map dn_id ?K)" "sorted (map dn_decision_ms ?K)" "length ?K \<le> 10000" "\<forall>d \<in> set ?K. retained < dn_decision_ms d"
    using T by (metis T_eq map_append distinct_append, metis T_eq map_append sorted_append,
      metis T_eq length_append le_add1 order_trans, metis T_eq UnI1 set_append)
  have knownK: "set known \<subseteq> set ?K" using known set_take_subset [of "length known" ?K] by simp
  from sync have inv: "loop_inv T lp" and markets: "store_markets s = lp_markets lp" and now: "lp_now lp \<le> after"
    "store_cursor s \<le> after" "0 \<le> after" and pos: "positions_ok known (sr_labels s) (store_cursor s) (store_positions s)"
    and fates: "\<forall>d \<in> set T. canonical T d \<longrightarrow> agree strict (loop_fate lp d) (store_fate s d)"
    unfolding in_step_def by blast+
  from pass obtain labels lp2 where dup: "label_duplicates (bt_wall b) ?K [] (sr_labels s) = Inr labels"
    and run: "label_rows st retained ?cursor (bt_rows b) (start_loop ?K retained (sr_checkpoint s) labels) = Inr lp2"
    and fin: "end_pass st True (bt_observed b) lp2 s = Inr s'"
    by (auto simp: label_pass_def Let_def split: sum.splits)
  let ?start = "start_loop ?K retained (sr_checkpoint s) labels"
  note start = start_loop_result [OF KT positions_ok_mono [OF pos knownK] refl, of labels]
  have before: "agree strict (loop_fate lp d) (loop_fate ?start d)" if "d \<in> set T" "canonical T d" for d
  proof -
    have "fate_of labels (store_positions s) d = store_fate s d"
      using pass_duplicates [OF dup, of ?later d] T(1) that T_eq by metis
    moreover have "loop_fate ?start d = fate_of labels (store_positions s) d" using start by blast
    ultimately show ?thesis using fates that by (simp only:)
  qed
  have "?cursor \<le> after" using now by (simp add: store_cursor_def split: option.splits)
  then have new: "\<forall>r \<in> set (bt_rows b). -1 < fw_receipt r \<and> ?cursor < fw_receipt r" using rows now(3) by fastforce
  from label_rows_agree [OF one run inv _ T_eq _ new unseen, of "canonical T" strict] start markets before
  have after_rows: "loop_inv T lp'" "loop_inv ?K lp2" "lp_markets lp2 = lp_markets lp'"
    "lp_now lp' \<in> set (lp_now lp # map fw_receipt (bt_rows b))" "lp_now lp2 \<in> set (store_cursor s # map fw_receipt (bt_rows b))"
    "\<forall>d \<in> set T. canonical T d \<longrightarrow> agree strict (loop_fate lp' d) (loop_fate lp2 d)" by auto
  have le: "x \<le> ?after" if "x \<in> set (y # map fw_receipt (bt_rows b))" "y \<le> after" for x y
  proof (cases "x = y")
    case True
    have "after \<le> ?after" by simp
    with that(2) show ?thesis unfolding True by (rule order_trans)
  next
    case False
    then have "x \<in> set (after # map fw_receipt (bt_rows b))" using that(1) by simp
    then show ?thesis by (intro Max_ge) simp_all
  qed
  note ends = end_pass_result [OF after_rows(2) fin]
  have settled: "settles (bt_observed b \<noteq> None) (loop_fate lp2 d) (store_fate s' d)" if d: "d \<in> set T" for d
  proof (cases "d \<in> set ?K")
    case True
    then show ?thesis using ends by blast
  next
    case False
    then have "d \<notin> fst ` set (lp_active lp2)" "d \<notin> fst ` set (store_positions s')"
      using loop_invD(4) [OF after_rows(2)] ends by (auto simp: positions_ok_def)
    then have "map_of (lp_active lp2) d = None" "map_of (store_positions s') d = None" by (simp_all add: map_of_eq_None_iff)
    moreover have "dn_id d \<notin> dn_id ` set ?K"
      using False d same_id [OF T(1)] T_eq by (metis UnI1 image_iff set_append)
    then have "map_of (sr_labels s') (dn_id d) = map_of (lp_labels lp2) (dn_id d)" using ends by blast
    ultimately show ?thesis by (simp add: fate_of_def split: option.split)
  qed
  have "in_step (strict \<and> bt_observed b = None) T ?K ?after lp' s'"
    unfolding in_step_def
  proof (intro conjI ballI impI)
    show "loop_inv T lp'" by (rule after_rows(1))
    show "store_markets s' = lp_markets lp'" using ends after_rows(3) by (simp add: store_markets_def)
    show "lp_now lp' \<le> ?after" by (rule le [OF after_rows(4) now(1)])
    have cursor: "store_cursor s' = lp_now lp2" using ends by (simp add: store_cursor_def)
    then show "store_cursor s' \<le> ?after" using le [OF after_rows(5) now(2)] by simp
    show "0 \<le> ?after" using now(3) by (intro order_trans [OF now(3)]) simp
    show "positions_ok ?K (sr_labels s') (store_cursor s') (store_positions s')" using ends cursor by simp
    fix d assume "d \<in> set T" "canonical T d"
    then show "agree (strict \<and> bt_observed b = None) (loop_fate lp' d) (store_fate s' d)"
      using settles_agree [OF _ settled] after_rows(6) by fastforce
  qed
  with after_rows(1,6) settled show ?thesis by blast
qed


lemma label_rows_append:
  "label_rows st retained c (as @ bs) lp =
     (case label_rows st retained c as lp of Inl e \<Rightarrow> Inl e | Inr lp' \<Rightarrow> label_rows st retained c bs lp')"
  by (induction as arbitrary: lp) (auto split: sum.splits)

lemma fate_of_label: "fate_of labels ps d = Labelled l \<longleftrightarrow> map_of labels (dn_id d) = Some l"
  by (simp add: fate_of_def split: option.splits)

lemma passes_in_step:
  assumes "in_step strict T known after lp s"
    and T: "distinct (map dn_id T)" "sorted (map dn_decision_ms T)" "length T \<le> 10000" "\<forall>d \<in> set T. retained < dn_decision_ms d"
    and "batches_ok T known after bs"
    and "label_rows st retained (-1) (concat (map bt_rows bs)) lp = Inr lp'"
    and "label_passes st retained bs s = Inr s'"
  shows "loop_inv T lp' \<and> (\<forall>d \<in> set T. canonical T d \<longrightarrow>
    (\<exists>y observed. agree (strict \<and> (\<forall>b \<in> set (butlast bs). bt_observed b = None)) (loop_fate lp' d) y
       \<and> settles observed y (store_fate s' d)))"
  using assms(1,6-8)
proof (induction bs arbitrary: strict known after lp s)
  case Nil
  then show ?case by (auto simp: in_step_def intro: settles_refl)
next
  case (Cons b bs)
  from Cons.prems(3) obtain mid where one: "label_rows st retained (-1) (bt_rows b) lp = Inr mid"
    and rest: "label_rows st retained (-1) (concat (map bt_rows bs)) mid = Inr lp'"
    by (auto simp: label_rows_append split: sum.splits)
  from Cons.prems(4) obtain m where
    pass: "label_pass st (bt_table b) retained (bt_wall b) True (bt_observed b) (bt_rows b) s = Inr m"
    and more: "label_passes st retained bs m = Inr s'" by (auto split: sum.splits)
  note step = pass_in_step [OF Cons.prems(1) T Cons.prems(2) one pass]
  show ?case
  proof (cases bs)
    case Nil
    then show ?thesis using step rest more by auto
  next
    case (Cons b' bs')
    have "batches_ok T (bt_table b) (Max (set (after # map fw_receipt (bt_rows b)))) bs" using Cons.prems(2) by simp
    from Cons.IH [OF conjunct2 [OF conjunct2 [OF step]] this rest more] show ?thesis
      by (simp add: Cons conj_assoc)
  qed
qed



definition sample_settings :: label_settings where
  "sample_settings = \<lparr>lb_notional = 100, lb_fee_bps = 5, lb_slippage_bps = 2, lb_reserve_bps = 10, lb_stale_ms = 15000,
     lb_tape_max = 100, lb_max_active = 10\<rparr>"

definition sample_decision :: decision_row where
  "sample_decision = \<lparr>dn_id = ''n'', dn_decision_ms = 60000, dn_identity = ''i'', dn_signal = sample_signal\<rparr>"

definition sample_feed :: "ms \<Rightarrow> feed \<Rightarrow> feed_row" where
  "sample_feed t f = \<lparr>fw_receipt = t, fw_venue = Some Bybit, fw_symbol = ''BTCUSDT'', fw_complete = True, fw_feed = f\<rparr>"

definition sample_print :: "string \<Rightarrow> ms \<Rightarrow> dec \<Rightarrow> feed_row" where
  "sample_print i t p = sample_feed t (FeedPrints [\<lparr>px_id = i, px_block = False, px_event_ms = t, px_side = Buy,
     px_price = p, px_size = 1000\<rparr>])"

definition sample_batches :: "label_batch list" where
  "sample_batches =
     [\<lparr>bt_table = [sample_decision], bt_wall = 0, bt_observed = None,
       bt_rows = [sample_feed 50000 (FeedSubscribed [''BTCUSDT'']), sample_print ''a'' 61000 100]\<rparr>,
      \<lparr>bt_table = [sample_decision], bt_wall = 0, bt_observed = None, bt_rows = [sample_print ''b'' 62000 111]\<rparr>]"

definition empty_store :: label_store where
  "empty_store = \<lparr>sr_labels = [], sr_checkpoint = None\<rparr>"



end
