(* ===== verification/Observations.thy ===== *)
theory Observations imports Reconciliation Horizons begin

text \<open>
  Late research on terminal plans, \<^verbatim>\<open>src/bybit_flow/observations.py\<close>:
  \<^verbatim>\<open>start\<close> opens an observation when a plan ends, \<^verbatim>\<open>advance\<close> follows
  it over closed one-minute candles until the last checkpoint, \<^verbatim>\<open>classify\<close> names what
  was seen, \<^verbatim>\<open>recommend\<close> reads the cached summary. One row of the tables is modelled
  at a time; the local hours of a time are an argument. The descriptive text fields, the schema
  migration and the report of \<^verbatim>\<open>metrics\<close> are left out.
\<close>

subsection \<open>The observation of one plan\<close>

text \<open>A plan with the evidence keys that only the research reads\<close>

record researched =
  rs_signal :: signal
  rs_scored :: bool
  rs_primary_coverage :: bool
  rs_withdrawal :: "string option"
  rs_entry_session :: "session option"

record observation =
  ob_plan :: researched
  ob_primary :: string
  ob_net_r :: "pyfloat option"
  ob_terminal_ms :: ms
  ob_terminal_session :: session
  ob_sessions :: "session list"
  ob_status :: string
  ob_checkpoints :: "ms list"
  ob_deadline_ms :: ms
  ob_cursor_ms :: ms
  ob_complete :: bool
  ob_mfe :: dec
  ob_mae :: dec
  ob_late_target :: bool
  ob_late_stop :: bool
  ob_time_target :: "ms option"
  ob_time_stop :: "ms option"
  ob_extended :: string
  ob_duration :: "ms option"
  ob_best :: "profile option"
  ob_timing :: "string option"
  ob_recovery :: "bool option"
  ob_withdrawal :: "(string \<times> string) option"

record research_row =
  rr_observation :: observation
  rr_checkpoints :: "(ms \<times> observation) list"
  rr_label :: "(ms \<times> observation) option"

abbreviation primary_session :: "(ms \<Rightarrow> session_hours) \<Rightarrow> ms \<Rightarrow> session" where
  "primary_session hours t \<equiv> snd (snd (snd (session_context (hours t))))"

fun state_name :: "sig_state \<Rightarrow> string" where
  "state_name WATCHLIST = ''WATCHLIST''"
| "state_name PENDING_CONFIRMATION = ''PENDING_CONFIRMATION''"
| "state_name CONFIRMED = ''CONFIRMED''"
| "state_name ALERTED = ''ALERTED''"
| "state_name INVALIDATED = ''INVALIDATED''"
| "state_name EXPIRED = ''EXPIRED''"
| "state_name RESOLVED = ''RESOLVED''"

text \<open>\<^verbatim>\<open>needle in text.lower()\<close>, for ASCII\<close>

definition lower_char :: "char \<Rightarrow> char" where
  "lower_char c = (let n = of_char c :: nat in if 65 \<le> n \<and> n \<le> 90 then char_of (n + 32) else c)"

fun occurs_in :: "string \<Rightarrow> string \<Rightarrow> bool" where
  "occurs_in needle [] \<longleftrightarrow> needle = []"
| "occurs_in needle (c # cs) \<longleftrightarrow> take (length needle) (c # cs) = needle \<or> occurs_in needle cs"

subsection \<open>Start\<close>

text \<open>The first schedule that is not empty: given, configured, of the profile\<close>

definition checkpoint_ends :: "signal \<Rightarrow> int list \<Rightarrow> int list \<Rightarrow> ms \<Rightarrow> ms list" where
  "checkpoint_ends s given configured at_ms =
     (let schedule = (if given \<noteq> [] then given else if configured \<noteq> [] then configured
                      else hz_checkpoints (PROFILES (sg_horizon_profile s)))
      in filter (\<lambda>t. at_ms < t) (map (\<lambda>m. sg_created_ms s + m * 60000) schedule))"

text \<open>\<^verbatim>\<open>(x - cost) / d\<close> for a positive d and a cost that may not be finite\<close>

definition less_cost :: "dec \<Rightarrow> pyfloat option \<Rightarrow> dec \<Rightarrow> pyfloat" where
  "less_cost x cost d =
     (case cost of None \<Rightarrow> Fin (x / d) | Some (Fin c) \<Rightarrow> Fin ((x - c) / d)
      | Some PosInf \<Rightarrow> NegInf | Some NegInf \<Rightarrow> PosInf | Some NaN \<Rightarrow> NaN)"

definition primary_net_r :: "researched \<Rightarrow> pyfloat option" where
  "primary_net_r w =
     (let s = rs_signal w; e = sg_evidence s in
      if sg_state s = EXPIRED
      then (case ev_expiry_mark e of None \<Rightarrow> None | Some m \<Rightarrow> map_option Fin (mk_estimated_net_r m))
      else
        case ev_latest_observed_price e of
          None \<Rightarrow> None
        | Some price \<Rightarrow>
            if or_ms (ev_observed_entry_ms e) 0 \<noteq> 0 \<and> rs_primary_coverage w
               \<and> cv_monitoring (sg_coverage s) = Some ''active'' \<and> sg_entry s \<noteq> sg_stop s
            then Some (less_cost (sign_of (sg_direction s) * (price - sg_entry s)) (sg_cost_per_base s)
                   \<bar>sg_entry s - sg_stop s\<bar>)
            else None)"

definition extended_start :: "researched \<Rightarrow> string \<Rightarrow> string" where
  "extended_start w primary =
     (let s = rs_signal w in
      if primary = ''STOP'' \<or> (occurs_in ''stop'' (map lower_char (sg_invalidation s)) \<and> sg_state s = INVALIDATED)
      then ''STOP''
      else if primary = ''TARGET'' then ''TARGET'' else ''PENDING'')"

definition new_observation :: "(ms \<Rightarrow> session_hours) \<Rightarrow> researched \<Rightarrow> ms list \<Rightarrow> ms \<Rightarrow> observation" where
  "new_observation hours w ends at_ms =
     (let s = rs_signal w;
          primary = (case ev_primary_outcome (sg_evidence s) of None \<Rightarrow> state_name (sg_state s) | Some o' \<Rightarrow> o')
      in \<lparr>ob_plan = w, ob_primary = primary, ob_net_r = primary_net_r w, ob_terminal_ms = at_ms,
          ob_terminal_session = primary_session hours at_ms,
          ob_sessions = (case rs_entry_session w of None \<Rightarrow> [] | Some x \<Rightarrow> [x]),
          ob_status = ''FOLLOWING_LATE_OUTCOME'', ob_checkpoints = ends, ob_deadline_ms = Max (set ends),
          ob_cursor_ms = at_ms,
          ob_complete = (rs_primary_coverage w \<and> cv_monitoring (sg_coverage s) \<noteq> Some ''paused''),
          ob_mfe = 0, ob_mae = 0, ob_late_target = False, ob_late_stop = False, ob_time_target = None,
          ob_time_stop = None, ob_extended = extended_start w primary, ob_duration = None, ob_best = None,
          ob_timing = None, ob_recovery = None, ob_withdrawal = None\<rparr>)"

text \<open>\<^verbatim>\<open>start\<close>, with the row that the table already holds for the plan\<close>

definition start_research ::
    "(ms \<Rightarrow> session_hours) \<Rightarrow> researched \<Rightarrow> int list \<Rightarrow> int list \<Rightarrow> ms \<Rightarrow> research_row option \<Rightarrow> research_row option" where
  "start_research hours w given configured at_ms row =
     (let s = rs_signal w; ends = checkpoint_ends s given configured at_ms in
      if sg_synthetic s \<or> sg_state s \<notin> TERMINAL \<or> row \<noteq> None \<or> \<not> rs_scored w \<or> ends = [] then row
      else Some \<lparr>rr_observation = new_observation hours w ends at_ms, rr_checkpoints = [], rr_label = None\<rparr>)"

subsection \<open>Advance\<close>

definition ob_distance :: "observation \<Rightarrow> dec" where
  "ob_distance p = (let s = rs_signal (ob_plan p) in \<bar>sg_entry s - sg_stop s\<bar>)"

definition favorable :: "signal \<Rightarrow> candle \<Rightarrow> dec" where
  "favorable s b = (if sg_direction s = LONG then cd_high b - sg_entry s else sg_entry s - cd_low b) / \<bar>sg_entry s - sg_stop s\<bar>"

definition adverse :: "signal \<Rightarrow> candle \<Rightarrow> dec" where
  "adverse s b = (if sg_direction s = LONG then cd_low b - sg_entry s else sg_entry s - cd_high b) / \<bar>sg_entry s - sg_stop s\<bar>"

definition best_horizon :: "signal \<Rightarrow> candle \<Rightarrow> profile option" where
  "best_horizon s b =
     find (\<lambda>h. cd_end b - sg_created_ms s \<le> hz_hold_max (PROFILES h) * 60000)
       [SHORT_INTRADAY, CORE_INTRADAY, SWING, EXTENDED_SWING]"

text \<open>The candle in which the plan ended cannot say on which side of that moment a level was crossed.\<close>

definition straddles :: "ms \<Rightarrow> observation \<Rightarrow> candle \<Rightarrow> bool" where
  "straddles now p b \<longleftrightarrow>
     cd_start b < ob_terminal_ms p \<and> ob_terminal_ms p < cd_end b \<and> cd_end b \<le> now \<and> ob_cursor_ms p < cd_end b"

definition unusable :: "ms \<Rightarrow> observation \<Rightarrow> candle \<Rightarrow> bool" where
  "unusable now p b \<longleftrightarrow>
     now < cd_end b \<or> cd_end b \<le> ob_cursor_ms p \<or> cd_start b < ob_terminal_ms p \<or> ob_deadline_ms p < cd_end b"

definition skip_straddle :: "candle \<Rightarrow> observation \<Rightarrow> observation" where
  "skip_straddle b p =
     (let s = rs_signal (ob_plan p) in
      p\<lparr>ob_complete := ob_complete p \<and> \<not> (bar_stop s b \<or> bar_target s b), ob_cursor_ms := cd_end b\<rparr>)"

text \<open>What one usable candle changes, apart from the checkpoints\<close>

definition see_bar :: "(ms \<Rightarrow> session_hours) \<Rightarrow> candle \<Rightarrow> observation \<Rightarrow> observation" where
  "see_bar hours b p =
     (let s = rs_signal (ob_plan p);
          complete = (ob_complete p \<and> cd_start b \<le> (ob_cursor_ms p + 59999) div 60000 * 60000);
          hit_stop = bar_stop s b; hit_target = bar_target s b;
          first_stop = (hit_stop \<and> \<not> ob_late_stop p); first_target = (hit_target \<and> \<not> ob_late_target p);
          decided = (ob_extended p = ''PENDING'' \<and> (hit_stop \<or> hit_target));
          here = primary_session hours (cd_end b)
      in p\<lparr>ob_complete := complete, ob_mfe := max (ob_mfe p) (favorable s b), ob_mae := min (ob_mae p) (adverse s b),
           ob_late_stop := ob_late_stop p \<or> first_stop,
           ob_time_stop := (if first_stop then Some (cd_end b - ob_terminal_ms p) else ob_time_stop p),
           ob_late_target := ob_late_target p \<or> first_target,
           ob_time_target := (if first_target then Some (cd_end b - ob_terminal_ms p) else ob_time_target p),
           ob_best := (if first_target then best_horizon s b else ob_best p),
           ob_extended := (if decided then (if hit_stop then ''STOP'' else if complete then ''TARGET'' else ''UNCLEAR'')
                           else ob_extended p),
           ob_duration := (if decided then Some (cd_end b - sg_created_ms s) else ob_duration p),
           ob_sessions := (if ob_sessions p = [] \<or> last (ob_sessions p) \<noteq> here then ob_sessions p @ [here]
                           else ob_sessions p),
           ob_cursor_ms := cd_end b\<rparr>)"

text \<open>\<^verbatim>\<open>INSERT OR IGNORE\<close> of the checkpoints that the candle has passed\<close>

definition keep_first :: "'k \<Rightarrow> 'v \<Rightarrow> ('k \<times> 'v) list \<Rightarrow> ('k \<times> 'v) list" where
  "keep_first k v rows = (if map_of rows k = None then rows @ [(k, v)] else rows)"

definition pass_checkpoints :: "candle \<Rightarrow> observation \<times> (ms \<times> observation) list \<Rightarrow> observation \<times> (ms \<times> observation) list" where
  "pass_checkpoints b pr =
     (let p = fst pr; due = filter (\<lambda>t. t \<le> cd_end b) (ob_checkpoints p) in
      (p\<lparr>ob_checkpoints := filter (\<lambda>t. cd_end b < t) (ob_checkpoints p)\<rparr>,
       fold (\<lambda>t. keep_first t p) due (snd pr)))"

definition bar_step ::
    "(ms \<Rightarrow> session_hours) \<Rightarrow> ms \<Rightarrow> candle \<Rightarrow> observation \<times> (ms \<times> observation) list \<Rightarrow> observation \<times> (ms \<times> observation) list" where
  "bar_step hours now b pr =
     (if straddles now (fst pr) b then (skip_straddle b (fst pr), snd pr)
      else if unusable now (fst pr) b then pr
      else pass_checkpoints b (see_bar hours b (fst pr), snd pr))"

definition classify_late :: "observation \<Rightarrow> string" where
  "classify_late p =
     (if \<not> ob_complete p then ''UNCLEAR''
      else if ob_primary p = ''TARGET'' then ''THESIS_AND_TIMING_CORRECT''
      else if ob_extended p = ''TARGET'' \<and> ob_primary p = ''EXPIRED'' then ''THESIS_CORRECT_HORIZON_TOO_SHORT''
      else if ob_late_target p \<and> ob_late_stop p then ''THESIS_CORRECT_TIMING_TOO_EARLY''
      else if ob_mfe p < 1 / 4 \<and> ob_mae p \<le> -1 then ''THESIS_WRONG''
      else ''UNCLEAR'')"

definition withdrawal_class :: "observation \<Rightarrow> string" where
  "withdrawal_class p =
     (if \<not> ob_complete p then ''WITHDRAWAL_AMBIGUOUS''
      else
        case ob_time_target p of
          Some t \<Rightarrow> (case ob_time_stop p of
                       None \<Rightarrow> ''WITHDRAWAL_TOO_EARLY''
                     | Some u \<Rightarrow> if t < u then ''WITHDRAWAL_TOO_EARLY'' else ''WITHDRAWAL_SAVED_STOP'')
        | None \<Rightarrow> if ob_time_stop p \<noteq> None then ''WITHDRAWAL_SAVED_STOP'' else ''INCONCLUSIVE'')"

definition complete_observation :: "observation \<Rightarrow> observation" where
  "complete_observation p =
     (let q = p\<lparr>ob_status := ''COMPLETE'',
               ob_extended := (if ob_extended p = ''PENDING'' then ''EXPIRED'' else ob_extended p)\<rparr>
      in q\<lparr>ob_timing := Some (classify_late q), ob_recovery := Some (1 \<le> ob_mfe q),
           ob_withdrawal := map_option (\<lambda>policy. (policy, withdrawal_class q)) (rs_withdrawal (ob_plan q))\<rparr>)"

definition advance_late :: "(ms \<Rightarrow> session_hours) \<Rightarrow> candle list \<Rightarrow> ms \<Rightarrow> research_row \<Rightarrow> research_row" where
  "advance_late hours bars now r =
     (if ob_distance (rr_observation r) = 0 then r
      else
        let (p, checkpoints) = fold (bar_step hours now) (sort_key cd_start bars) (rr_observation r, rr_checkpoints r)
        in if ob_deadline_ms p \<le> now \<and> ob_deadline_ms p - 60000 \<le> ob_cursor_ms p
           then let q = complete_observation p
                in \<lparr>rr_observation = q, rr_checkpoints = checkpoints,
                    rr_label = (case rr_label r of None \<Rightarrow> Some (now, q) | Some l \<Rightarrow> Some l)\<rparr>
           else r\<lparr>rr_observation := p, rr_checkpoints := checkpoints\<rparr>)"

text \<open>The research loop asks for the rows that are still followed.\<close>

definition poll_late :: "(ms \<Rightarrow> session_hours) \<Rightarrow> candle list \<times> ms \<Rightarrow> research_row \<Rightarrow> research_row" where
  "poll_late hours poll r =
     (if ob_status (rr_observation r) = ''FOLLOWING_LATE_OUTCOME'' then advance_late hours (fst poll) (snd poll) r else r)"


subsection \<open>What no candle changes\<close>

lemma bar_step_frame:
  "ob_plan (fst (bar_step hours now b pr)) = ob_plan (fst pr)"
  "ob_terminal_ms (fst (bar_step hours now b pr)) = ob_terminal_ms (fst pr)"
  "ob_deadline_ms (fst (bar_step hours now b pr)) = ob_deadline_ms (fst pr)"
  "ob_primary (fst (bar_step hours now b pr)) = ob_primary (fst pr)"
  "ob_status (fst (bar_step hours now b pr)) = ob_status (fst pr)"
  by (simp_all add: bar_step_def skip_straddle_def pass_checkpoints_def see_bar_def Let_def)

lemma fold_bar_step_frame:
  "ob_plan (fst (fold (bar_step hours now) bs pr)) = ob_plan (fst pr)
   \<and> ob_terminal_ms (fst (fold (bar_step hours now) bs pr)) = ob_terminal_ms (fst pr)
   \<and> ob_deadline_ms (fst (fold (bar_step hours now) bs pr)) = ob_deadline_ms (fst pr)
   \<and> ob_status (fst (fold (bar_step hours now) bs pr)) = ob_status (fst pr)"
  by (induction bs arbitrary: pr) (simp_all add: bar_step_frame)

subsection \<open>A late target is never concluded over a gap\<close>

text \<open>
  A list of candles that leaves no minute out: each begins at the latest at the first whole minute
  after the end of the one before.
\<close>

definition next_minute :: "ms \<Rightarrow> ms" where
  "next_minute t = (t + 59999) div 60000 * 60000"

fun unbroken :: "ms \<Rightarrow> candle list \<Rightarrow> bool" where
  "unbroken t [] \<longleftrightarrow> True"
| "unbroken t (b # bs) \<longleftrightarrow> cd_start b \<le> next_minute t \<and> unbroken (cd_end b) bs"

definition chain_end :: "ms \<Rightarrow> candle list \<Rightarrow> ms" where
  "chain_end t bs = (if bs = [] then t else cd_end (last bs))"

lemma unbroken_snoc: "unbroken t (bs @ [b]) \<longleftrightarrow> unbroken t bs \<and> cd_start b \<le> next_minute (chain_end t bs)"
  by (induction bs arbitrary: t) (auto simp: chain_end_def)

lemma next_minute_ge: "t \<le> next_minute t"
proof -
  have "(t + 59999) mod 60000 < 60000" by simp
  then show ?thesis unfolding next_minute_def using div_mult_mod_eq [of "t + 59999" 60000] by linarith
qed

text \<open>
  What the candles of a set \<^verbatim>\<open>S\<close> show about a plan that ended at \<^verbatim>\<open>t0\<close>:
  while nothing was touched, an unbroken list up to the cursor; once the target was concluded, an
  unbroken list whose last candle reaches it and none of which touches the stop.
\<close>

definition untouched :: "signal \<Rightarrow> candle list \<Rightarrow> bool" where
  "untouched s bs \<longleftrightarrow> (\<forall>b \<in> set bs. \<not> bar_stop s b \<and> \<not> bar_target s b)"

definition target_evidence :: "candle set \<Rightarrow> signal \<Rightarrow> ms \<Rightarrow> bool" where
  "target_evidence S s t0 \<longleftrightarrow>
     (\<exists>bs b. set (bs @ [b]) \<subseteq> S \<and> unbroken t0 (bs @ [b]) \<and> untouched s bs \<and> bar_target s b \<and> \<not> bar_stop s b)"

definition late_inv :: "candle set \<Rightarrow> observation \<Rightarrow> bool" where
  "late_inv S p \<longleftrightarrow>
     (ob_complete p \<and> ob_extended p = ''PENDING'' \<longrightarrow>
        (\<exists>bs. set bs \<subseteq> S \<and> unbroken (ob_terminal_ms p) bs \<and> untouched (rs_signal (ob_plan p)) bs
           \<and> ob_cursor_ms p = chain_end (ob_terminal_ms p) bs))
     \<and> (ob_extended p = ''TARGET'' \<longrightarrow> target_evidence S (rs_signal (ob_plan p)) (ob_terminal_ms p))"

lemma late_inv_mono: "late_inv S p \<Longrightarrow> S \<subseteq> S' \<Longrightarrow> late_inv S' p"
  unfolding late_inv_def target_evidence_def by (blast intro: subset_trans)

lemma late_inv_checkpoints [simp]: "late_inv S (p\<lparr>ob_checkpoints := cs\<rparr>) = late_inv S p"
  by (simp add: late_inv_def)

lemma chain_end_snoc [simp]: "chain_end t (bs @ [b]) = cd_end b"
  by (simp add: chain_end_def)

lemma untouched_snoc: "untouched s (bs @ [b]) \<longleftrightarrow> untouched s bs \<and> \<not> bar_stop s b \<and> \<not> bar_target s b"
  by (auto simp: untouched_def)

lemma skip_straddle_inv:
  assumes "late_inv S p" "b \<in> S" "cd_start b \<le> ob_cursor_ms p"
  shows "late_inv S (skip_straddle b p)"
proof -
  let ?s = "rs_signal (ob_plan p)"
  have "\<exists>bs. set bs \<subseteq> S \<and> unbroken (ob_terminal_ms p) bs \<and> untouched ?s bs \<and> cd_end b = chain_end (ob_terminal_ms p) bs"
    if now: "ob_complete p" "ob_extended p = ''PENDING''" "\<not> (bar_stop ?s b \<or> bar_target ?s b)"
  proof -
    from assms(1) now obtain bs where bs: "set bs \<subseteq> S" "unbroken (ob_terminal_ms p) bs" "untouched ?s bs"
      "ob_cursor_ms p = chain_end (ob_terminal_ms p) bs" unfolding late_inv_def by blast
    have "cd_start b \<le> next_minute (chain_end (ob_terminal_ms p) bs)"
      using assms(3) bs(4) next_minute_ge [of "ob_cursor_ms p"] by simp
    with bs now(3) assms(2) show ?thesis
      by (intro exI [of _ "bs @ [b]"]) (simp add: unbroken_snoc untouched_snoc)
  qed
  with assms(1) show ?thesis by (simp add: late_inv_def skip_straddle_def Let_def)
qed

lemma see_bar_inv:
  assumes "late_inv S p" "b \<in> S"
  shows "late_inv S (see_bar hours b p)"
proof -
  let ?s = "rs_signal (ob_plan p)" and ?q = "see_bar hours b p"
  let ?complete = "ob_complete p \<and> cd_start b \<le> next_minute (ob_cursor_ms p)"
  have parts: "ob_complete ?q = ?complete" "ob_plan ?q = ob_plan p" "ob_terminal_ms ?q = ob_terminal_ms p"
    "ob_cursor_ms ?q = cd_end b"
    "ob_extended ?q = (if ob_extended p = ''PENDING'' \<and> (bar_stop ?s b \<or> bar_target ?s b)
       then (if bar_stop ?s b then ''STOP'' else if ?complete then ''TARGET'' else ''UNCLEAR'') else ob_extended p)"
    by (simp_all add: see_bar_def Let_def next_minute_def)
  have chain: "\<exists>bs. set bs \<subseteq> S \<and> unbroken (ob_terminal_ms p) (bs @ [b]) \<and> untouched ?s bs"
    if "ob_extended p = ''PENDING''" "?complete"
  proof -
    from assms(1) that obtain bs where bs: "set bs \<subseteq> S" "unbroken (ob_terminal_ms p) bs" "untouched ?s bs"
      "ob_cursor_ms p = chain_end (ob_terminal_ms p) bs" unfolding late_inv_def by blast
    then show ?thesis using that by (intro exI [of _ bs]) (simp add: unbroken_snoc)
  qed
  show ?thesis
    unfolding late_inv_def parts
  proof (intro conjI impI)
    assume A: "?complete \<and> (if ob_extended p = ''PENDING'' \<and> (bar_stop ?s b \<or> bar_target ?s b)
       then (if bar_stop ?s b then ''STOP'' else if ?complete then ''TARGET'' else ''UNCLEAR'') else ob_extended p) = ''PENDING''"
    then have pend: "ob_extended p = ''PENDING''" "\<not> bar_stop ?s b" "\<not> bar_target ?s b"
      by (auto split: if_splits)
    with A chain obtain bs where "set bs \<subseteq> S" "unbroken (ob_terminal_ms p) (bs @ [b])" "untouched ?s bs" by blast
    with pend assms(2) show "\<exists>bs. set bs \<subseteq> S \<and> unbroken (ob_terminal_ms p) bs \<and> untouched ?s bs
        \<and> cd_end b = chain_end (ob_terminal_ms p) bs"
      by (intro exI [of _ "bs @ [b]"]) (simp add: untouched_snoc)
  next
    assume A: "(if ob_extended p = ''PENDING'' \<and> (bar_stop ?s b \<or> bar_target ?s b)
       then (if bar_stop ?s b then ''STOP'' else if ?complete then ''TARGET'' else ''UNCLEAR'') else ob_extended p) = ''TARGET''"
    show "target_evidence S ?s (ob_terminal_ms p)"
    proof (cases "ob_extended p = ''TARGET''")
      case True
      then show ?thesis using assms(1) by (simp add: late_inv_def)
    next
      case False
      with A have now: "ob_extended p = ''PENDING''" "bar_target ?s b" "\<not> bar_stop ?s b" "?complete"
        by (auto split: if_splits)
      from chain [OF now(1,4)] obtain bs where "set bs \<subseteq> S" "unbroken (ob_terminal_ms p) (bs @ [b])" "untouched ?s bs" by blast
      with now(2,3) assms(2) show ?thesis unfolding target_evidence_def by (intro exI [of _ bs] exI [of _ b]) simp
    qed
  qed
qed

lemma bar_step_inv:
  assumes "late_inv S (fst pr)" "b \<in> S" "ob_terminal_ms (fst pr) \<le> ob_cursor_ms (fst pr)"
  shows "late_inv S (fst (bar_step hours now b pr)) \<and> ob_terminal_ms (fst pr) \<le> ob_cursor_ms (fst (bar_step hours now b pr))"
proof -
  consider (straddle) "straddles now (fst pr) b" | (skip) "\<not> straddles now (fst pr) b" "unusable now (fst pr) b"
    | (see) "\<not> straddles now (fst pr) b" "\<not> unusable now (fst pr) b" by blast
  then show ?thesis
  proof cases
    case straddle
    then have "cd_start b \<le> ob_cursor_ms (fst pr)" "ob_terminal_ms (fst pr) \<le> cd_end b" using assms(3) by (auto simp: straddles_def)
    with straddle show ?thesis using skip_straddle_inv [OF assms(1,2)]
      by (simp add: bar_step_def) (simp add: skip_straddle_def Let_def)
  next
    case skip
    then show ?thesis using assms by (simp add: bar_step_def)
  next
    case see
    then have "ob_terminal_ms (fst pr) \<le> cd_end b" using assms(3) by (auto simp: unusable_def)
    with see show ?thesis using see_bar_inv [OF assms(1,2), of hours]
      by (simp add: bar_step_def pass_checkpoints_def Let_def) (simp add: see_bar_def Let_def)
  qed
qed


definition row_inv :: "candle set \<Rightarrow> researched \<Rightarrow> ms \<Rightarrow> string \<Rightarrow> research_row \<Rightarrow> bool" where
  "row_inv S w t0 primary r \<longleftrightarrow>
     (let p = rr_observation r in
      late_inv S p \<and> t0 \<le> ob_cursor_ms p \<and> ob_plan p = w \<and> ob_terminal_ms p = t0 \<and> ob_primary p = primary
      \<and> (\<forall>t q. rr_label r = Some (t, q) \<longrightarrow> late_inv S q \<and> ob_plan q = w \<and> ob_terminal_ms q = t0 \<and> ob_primary q = primary))"

lemma fold_bar_step_inv:
  assumes "set bs \<subseteq> S" "late_inv S (fst pr)" "ob_terminal_ms (fst pr) \<le> ob_cursor_ms (fst pr)"
  shows "late_inv S (fst (fold (bar_step hours now) bs pr))
    \<and> ob_terminal_ms (fst pr) \<le> ob_cursor_ms (fst (fold (bar_step hours now) bs pr))"
  using assms
proof (induction bs arbitrary: pr)
  case (Cons b bs)
  from Cons.prems bar_step_inv [of S pr b hours now] have next': "late_inv S (fst (bar_step hours now b pr))"
    "ob_terminal_ms (fst (bar_step hours now b pr)) \<le> ob_cursor_ms (fst (bar_step hours now b pr))"
    by (simp_all add: bar_step_frame)
  from Cons.IH [OF _ this] Cons.prems(1) show ?case by (simp add: bar_step_frame)
qed simp

lemma complete_observation_frame:
  "ob_plan (complete_observation p) = ob_plan p" "ob_terminal_ms (complete_observation p) = ob_terminal_ms p"
  "ob_primary (complete_observation p) = ob_primary p" "ob_cursor_ms (complete_observation p) = ob_cursor_ms p"
  "ob_status (complete_observation p) = ''COMPLETE''" "ob_deadline_ms (complete_observation p) = ob_deadline_ms p"
  by (simp_all add: complete_observation_def Let_def)

lemma complete_observation_inv: "late_inv S p \<Longrightarrow> late_inv S (complete_observation p)"
  by (simp add: late_inv_def complete_observation_def Let_def)

lemma fold_bar_step_primary: "ob_primary (fst (fold (bar_step hours now) bs pr)) = ob_primary (fst pr)"
  by (induction bs arbitrary: pr) (simp_all add: bar_step_frame)

lemma advance_late_inv:
  assumes inv: "row_inv S w t0 primary r" and bars: "set bars \<subseteq> S"
  shows "row_inv S w t0 primary (advance_late hours bars now r)"
proof (cases "ob_distance (rr_observation r) = 0")
  case True
  with inv show ?thesis by (simp add: advance_late_def)
next
  case False
  obtain p cs where p: "fold (bar_step hours now) (sort_key cd_start bars) (rr_observation r, rr_checkpoints r) = (p, cs)"
    by fastforce
  have start: "late_inv S (rr_observation r)" "ob_terminal_ms (rr_observation r) \<le> ob_cursor_ms (rr_observation r)"
    "ob_plan (rr_observation r) = w" "ob_terminal_ms (rr_observation r) = t0" "ob_primary (rr_observation r) = primary"
    using inv by (simp_all add: row_inv_def Let_def)
  have "late_inv S p" "t0 \<le> ob_cursor_ms p" "ob_plan p = w" "ob_terminal_ms p = t0" "ob_primary p = primary"
    using fold_bar_step_inv [of "sort_key cd_start bars" S "(rr_observation r, rr_checkpoints r)" hours now]
      fold_bar_step_frame [of hours now "sort_key cd_start bars" "(rr_observation r, rr_checkpoints r)"]
      fold_bar_step_primary [of hours now "sort_key cd_start bars" "(rr_observation r, rr_checkpoints r)"] bars start p
    by simp_all
  then show ?thesis
    using False inv p complete_observation_inv [of S p]
    by (simp add: advance_late_def row_inv_def Let_def complete_observation_frame split: option.split)
qed

interpretation late: guarded_invariant "poll_late hours" "row_inv S w t0 primary" "\<lambda>poll. set (fst poll) \<subseteq> S"
  for hours S w t0 primary
  by unfold_locales (simp add: poll_late_def advance_late_inv)

lemma start_research_fresh:
  assumes "start_research hours w given configured t0 None = Some r"
  shows "rr_label r = None \<and> rr_checkpoints r = [] \<and> rr_observation r = new_observation hours w
      (checkpoint_ends (rs_signal w) given configured t0) t0 \<and> checkpoint_ends (rs_signal w) given configured t0 \<noteq> []"
  using assms by (auto simp: start_research_def Let_def split: if_splits)

lemma new_observation_inv:
  assumes "ob_primary (new_observation hours w ends t0) \<noteq> ''TARGET''"
  shows "late_inv S (new_observation hours w ends t0)"
proof -
  let ?p = "new_observation hours w ends t0"
  have "ob_extended ?p \<noteq> ''TARGET''" using assms by (simp add: new_observation_def extended_start_def Let_def)
  moreover have "ob_cursor_ms ?p = chain_end (ob_terminal_ms ?p) []"
    by (simp add: new_observation_def chain_end_def Let_def)
  moreover have "untouched (rs_signal (ob_plan ?p)) []" by (simp add: untouched_def)
  ultimately show ?thesis unfolding late_inv_def by (metis empty_set empty_subsetI unbroken.simps(1))
qed

text \<open>
  Whatever candles the research loop is given, in whatever order and
  with whatever holes, a plan that had not reached its target is labelled with a late target only on
  evidence: the supplied candles contain a list that leaves out no minute from the end of the plan
  on, whose last candle reaches the target and none of which touches the stop.
\<close>

theorem late_target_never_over_gap:
  assumes start: "start_research hours w given configured t0 None = Some r"
    and earlier: "ob_primary (rr_observation r) \<noteq> ''TARGET''"
    and label: "rr_label (fold (poll_late hours) polls r) = Some (t, q)" "ob_extended q = ''TARGET''"
  shows "target_evidence (\<Union>poll \<in> set polls. set (fst poll)) (rs_signal w) t0"
proof -
  let ?S = "\<Union>poll \<in> set polls. set (fst poll)" and ?p = "rr_observation r"
  note fresh = start_research_fresh [OF start]
  have p: "?p = new_observation hours w (checkpoint_ends (rs_signal w) given configured t0) t0" using fresh by simp
  have "late_inv ?S ?p" using new_observation_inv earlier unfolding p by blast
  moreover have "ob_cursor_ms ?p = t0" "ob_plan ?p = w" "ob_terminal_ms ?p = t0"
    by (simp_all add: p new_observation_def Let_def)
  ultimately have "row_inv ?S w t0 (ob_primary ?p) r" using fresh by (simp add: row_inv_def Let_def)
  then have "row_inv ?S w t0 (ob_primary ?p) (fold (poll_late hours) polls r)" by (intro late.run_allowed) auto
  with label(1) have "late_inv ?S q" "ob_plan q = w" "ob_terminal_ms q = t0" by (simp_all add: row_inv_def Let_def)
  with label(2) show ?thesis unfolding late_inv_def by metis
qed


subsection \<open>Polls that overlap see the history once\<close>

text \<open>
  The candles of the market from the minute in which the plan ended, and windows of them as the
  research loop asks for: each begins at the latest where the cursor stands.
\<close>

definition minute_series :: "ms \<Rightarrow> candle list \<Rightarrow> bool" where
  "minute_series base cs \<longleftrightarrow>
     (\<forall>i < length cs. cd_start (cs ! i) = base + int i * 60000 \<and> cd_interval (cs ! i) = 60000)"

definition digest :: "(ms \<Rightarrow> session_hours) \<Rightarrow> candle \<Rightarrow> observation \<times> (ms \<times> observation) list \<Rightarrow> observation \<times> (ms \<times> observation) list" where
  "digest hours b pr =
     (if cd_start b < ob_terminal_ms (fst pr) then (skip_straddle b (fst pr), snd pr)
      else pass_checkpoints b (see_bar hours b (fst pr), snd pr))"

definition closed_count :: "ms \<Rightarrow> ms \<Rightarrow> nat" where
  "closed_count base t = nat ((t - base) div 60000)"

lemma closed_count_iff: "i < closed_count base t \<longleftrightarrow> base + (int i + 1) * 60000 \<le> t"
proof -
  have "t - base = (t - base) div 60000 * 60000 + (t - base) mod 60000" by simp
  moreover have "0 \<le> (t - base) mod 60000" "(t - base) mod 60000 < 60000" by simp_all
  ultimately show ?thesis unfolding closed_count_def by (auto simp: zless_nat_eq_int_zless)
qed

abbreviation seen_history :: "(ms \<Rightarrow> session_hours) \<Rightarrow> candle list \<Rightarrow> observation \<times> (ms \<times> observation) list \<Rightarrow> nat
    \<Rightarrow> observation \<times> (ms \<times> observation) list" where
  "seen_history hours cs pr k \<equiv> fold (digest hours) (take k cs) pr"

lemma digest_frame:
  "ob_plan (fst (digest hours b pr)) = ob_plan (fst pr)"
  "ob_terminal_ms (fst (digest hours b pr)) = ob_terminal_ms (fst pr)"
  "ob_deadline_ms (fst (digest hours b pr)) = ob_deadline_ms (fst pr)"
  "ob_status (fst (digest hours b pr)) = ob_status (fst pr)"
  "ob_primary (fst (digest hours b pr)) = ob_primary (fst pr)"
  "ob_cursor_ms (fst (digest hours b pr)) = cd_end b"
  by (simp_all add: digest_def skip_straddle_def pass_checkpoints_def see_bar_def Let_def)

lemma fold_digest_frame:
  "ob_plan (fst (fold (digest hours) bs pr)) = ob_plan (fst pr)"
  "ob_terminal_ms (fst (fold (digest hours) bs pr)) = ob_terminal_ms (fst pr)"
  "ob_deadline_ms (fst (fold (digest hours) bs pr)) = ob_deadline_ms (fst pr)"
  "ob_status (fst (fold (digest hours) bs pr)) = ob_status (fst pr)"
  "ob_primary (fst (fold (digest hours) bs pr)) = ob_primary (fst pr)"
  by (induction bs arbitrary: pr) (simp_all add: digest_frame)

definition cursor_at :: "ms \<Rightarrow> ms \<Rightarrow> nat \<Rightarrow> ms" where
  "cursor_at t0 base k = (if k = 0 then t0 else base + int k * 60000)"

lemma seen_history_Suc: "k < length cs \<Longrightarrow> seen_history hours cs pr (Suc k) = digest hours (cs ! k) (seen_history hours cs pr k)"
  by (simp add: take_Suc_conv_app_nth)

lemma seen_history_cursor:
  assumes "minute_series base cs" "k \<le> length cs"
  shows "ob_cursor_ms (fst (seen_history hours cs pr k)) = cursor_at (ob_cursor_ms (fst pr)) base k"
proof (cases k)
  case (Suc j)
  with assms have "cd_end (cs ! j) = base + int k * 60000" by (simp add: minute_series_def cd_end_def algebra_simps)
  then show ?thesis using assms(2) by (simp add: Suc seen_history_Suc [of j] digest_frame cursor_at_def)
qed (simp add: cursor_at_def)

text \<open>One candle of a window: the next one is digested when it is closed, all others do nothing.\<close>

lemma series_step:
  assumes series: "minute_series base cs" "k \<le> length cs" "i < length cs" "i \<le> k"
    and t0: "base \<le> t0" "t0 < base + 60000" "ob_cursor_ms (fst pr) = t0" "ob_terminal_ms (fst pr) = t0"
    and deadline: "ob_deadline_ms (fst pr) = deadline" "base + 60000 \<le> deadline"
  shows "bar_step hours now (cs ! i) (seen_history hours cs pr k) =
    seen_history hours cs pr (if i = k \<and> i < closed_count base (min now deadline) then Suc k else k)"
proof -
  let ?pr = "seen_history hours cs pr k" and ?b = "cs ! i"
  have b: "cd_start ?b = base + int i * 60000" "cd_end ?b = base + (int i + 1) * 60000"
    using series(1,3) by (simp_all add: minute_series_def cd_end_def algebra_simps)
  have p: "ob_terminal_ms (fst ?pr) = t0" "ob_deadline_ms (fst ?pr) = deadline"
    "ob_cursor_ms (fst ?pr) = cursor_at t0 base k"
    using t0 deadline seen_history_cursor [OF series(1,2), of hours pr] by (simp_all add: fold_digest_frame)
  have closed: "i < closed_count base (min now deadline) \<longleftrightarrow> cd_end ?b \<le> now \<and> cd_end ?b \<le> deadline"
    by (simp add: closed_count_iff b(2))
  show ?thesis
  proof (cases "i = k")
    case False
    then have "cd_end ?b \<le> cursor_at t0 base k" using series(4) by (simp add: cursor_at_def b(2))
    with False show ?thesis by (simp add: bar_step_def straddles_def unusable_def p)
  next
    case True
    have before: "cursor_at t0 base k < cd_end ?b"
      using t0(2) b(2) True by (simp add: cursor_at_def algebra_simps)
    show ?thesis
    proof (cases "i < closed_count base (min now deadline)")
      case usable: True
      then have step: "seen_history hours cs pr (Suc k) = digest hours ?b ?pr" using seen_history_Suc series(3) True by simp
      have fits: "cd_end ?b \<le> now" "cd_end ?b \<le> deadline" using closed usable by auto
      have "t0 < cd_end ?b" using t0(2) b(2) by simp
      then have "bar_step hours now ?b ?pr = digest hours ?b ?pr"
        using fits before by (simp add: bar_step_def straddles_def unusable_def digest_def p)
      then show ?thesis using step usable True by simp
    next
      case False
      have "\<not> straddles now (fst ?pr) ?b"
      proof
        assume straddle: "straddles now (fst ?pr) ?b"
        then have "i = 0" using t0(1,2) by (auto simp: straddles_def p b)
        then have "cd_end ?b \<le> deadline" using deadline(2) b(2) by simp
        with straddle False closed show False by (simp add: straddles_def)
      qed
      moreover have "unusable now (fst ?pr) ?b" using False closed by (auto simp: unusable_def p)
      ultimately show ?thesis using False by (simp add: bar_step_def)
    qed
  qed
qed

definition window :: "candle list \<Rightarrow> nat \<Rightarrow> nat \<Rightarrow> candle list" where
  "window cs a b = map ((!) cs) [a..<b]"

lemma window_progress:
  fixes b k u :: nat
  shows "b \<le> max k (min b u) \<Longrightarrow>
      (if b = max k (min b u) \<and> b < u then Suc (max k (min b u)) else max k (min b u)) = max k (min (Suc b) u)"
    and "\<not> b \<le> max k (min b u) \<Longrightarrow> u < b"
    and "\<not> b \<le> max k (min b u) \<Longrightarrow> max k (min (Suc b) u) = max k (min b u)"
  by (auto simp: max_def min_def split: if_splits)

lemma series_fold:
  assumes series: "minute_series base cs" "k \<le> length cs" "b \<le> length cs" "a \<le> k" "a \<le> b"
    and t0: "base \<le> t0" "t0 < base + 60000" "ob_cursor_ms (fst pr) = t0" "ob_terminal_ms (fst pr) = t0"
    and deadline: "ob_deadline_ms (fst pr) = deadline" "base + 60000 \<le> deadline"
  shows "fold (bar_step hours now) (window cs a b) (seen_history hours cs pr k) =
    seen_history hours cs pr (max k (min b (closed_count base (min now deadline))))"
  using series(3,5)
proof (induction b)
  case 0
  then show ?case by (simp add: window_def)
next
  case (Suc b)
  let ?u = "closed_count base (min now deadline)"
  show ?case
  proof (cases "a = Suc b")
    case True
    then have "max k (min (Suc b) ?u) = k" using series(4) by simp
    then show ?thesis by (simp add: window_def True)
  next
    case False
    let ?k = "max k (min b ?u)"
    have ih: "fold (bar_step hours now) (window cs a b) (seen_history hours cs pr k) = seen_history hours cs pr ?k"
      using Suc False by simp
    have w: "window cs a (Suc b) = window cs a b @ [cs ! b]" using Suc.prems(2) False by (simp add: window_def)
    show ?thesis
    proof (cases "b \<le> ?k")
      case True
      have "bar_step hours now (cs ! b) (seen_history hours cs pr ?k) =
          seen_history hours cs pr (if b = ?k \<and> b < ?u then Suc ?k else ?k)"
      proof (rule series_step [OF series(1) _ _ True t0 deadline])
        show "?k \<le> length cs" using Suc.prems(1) series(2) by simp
        show "b < length cs" using Suc.prems(1) by simp
      qed
      moreover have "(if b = ?k \<and> b < ?u then Suc ?k else ?k) = max k (min (Suc b) ?u)"
        by (rule window_progress(1) [OF True])
      ultimately show ?thesis by (simp only: w ih fold_append fold_simps comp_apply)
    next
      case beyond: False
      note u = window_progress(2,3) [OF beyond]
      have "bar_step hours now (cs ! b) (seen_history hours cs pr ?k) = seen_history hours cs pr ?k"
      proof -
        have b: "cd_start (cs ! b) = base + int b * 60000" "cd_end (cs ! b) = base + (int b + 1) * 60000"
          using series(1) Suc.prems(1) by (simp_all add: minute_series_def cd_end_def algebra_simps)
        have "\<not> (cd_end (cs ! b) \<le> now \<and> cd_end (cs ! b) \<le> deadline)"
          using closed_count_iff [of b base "min now deadline"] u(1) b(2) by auto
        moreover have "t0 \<le> cd_start (cs ! b)" using b(1) u(1) t0(2) by simp
        moreover have "ob_terminal_ms (fst (seen_history hours cs pr ?k)) = t0"
          "ob_deadline_ms (fst (seen_history hours cs pr ?k)) = deadline"
          using t0(4) deadline(1) by (simp_all add: fold_digest_frame)
        ultimately have "\<not> straddles now (fst (seen_history hours cs pr ?k)) (cs ! b)"
          "unusable now (fst (seen_history hours cs pr ?k)) (cs ! b)"
          by (auto simp: straddles_def unusable_def)
        then show ?thesis by (simp only: bar_step_def if_False if_True)
      qed
      then show ?thesis using u(2) by (simp only: w ih fold_append fold_simps comp_apply)
    qed
  qed
qed


subsection \<open>What the candles of the history say\<close>

definition clean_start :: "signal \<Rightarrow> ms \<Rightarrow> candle list \<Rightarrow> bool" where
  "clean_start s t0 cs \<longleftrightarrow> (\<forall>b \<in> set cs. cd_start b < t0 \<longrightarrow> \<not> bar_stop s b \<and> \<not> bar_target s b)"

abbreviation after_end :: "ms \<Rightarrow> candle list \<Rightarrow> candle list" where
  "after_end t0 \<equiv> filter (\<lambda>b. t0 \<le> cd_start b)"

definition first_touch :: "signal \<Rightarrow> bool \<Rightarrow> string \<Rightarrow> candle list \<Rightarrow> string" where
  "first_touch s whole before bs =
     (if before \<noteq> ''PENDING'' then before
      else
        case find (\<lambda>b. bar_stop s b \<or> bar_target s b) bs of
          None \<Rightarrow> ''PENDING''
        | Some b \<Rightarrow> if bar_stop s b then ''STOP'' else if whole then ''TARGET'' else ''UNCLEAR'')"

definition agrees_with_history :: "ms \<Rightarrow> observation \<Rightarrow> candle list \<Rightarrow> nat \<Rightarrow> observation \<Rightarrow> bool" where
  "agrees_with_history t0 p0 cs k q \<longleftrightarrow>
     (let s = rs_signal (ob_plan p0); bs = after_end t0 (take k cs) in
      (ob_complete q \<longleftrightarrow> ob_complete p0 \<and> clean_start s t0 (take k cs))
      \<and> (ob_late_stop q \<longleftrightarrow> (\<exists>b \<in> set bs. bar_stop s b))
      \<and> ob_time_stop q = map_option (\<lambda>b. cd_end b - t0) (find (bar_stop s) bs)
      \<and> (ob_late_target q \<longleftrightarrow> (\<exists>b \<in> set bs. bar_target s b))
      \<and> ob_time_target q = map_option (\<lambda>b. cd_end b - t0) (find (bar_target s) bs)
      \<and> ob_mfe q = fold max (map (favorable s) bs) 0 \<and> ob_mae q = fold min (map (adverse s) bs) 0)"

lemma find_snoc: "find P (xs @ [x]) = (case find P xs of None \<Rightarrow> if P x then Some x else None | Some y \<Rightarrow> Some y)"
  by (induction xs) auto

lemma fresh_fields:
  "ob_late_stop (new_observation hours w ends t0) = False" "ob_late_target (new_observation hours w ends t0) = False"
  "ob_time_stop (new_observation hours w ends t0) = None" "ob_time_target (new_observation hours w ends t0) = None"
  "ob_mfe (new_observation hours w ends t0) = 0" "ob_mae (new_observation hours w ends t0) = 0"
  "ob_cursor_ms (new_observation hours w ends t0) = t0" "ob_terminal_ms (new_observation hours w ends t0) = t0"
  "ob_plan (new_observation hours w ends t0) = w" "ob_status (new_observation hours w ends t0) = ''FOLLOWING_LATE_OUTCOME''"
  "ob_deadline_ms (new_observation hours w ends t0) = Max (set ends)"
  by (simp_all add: new_observation_def Let_def)

lemma digest_fields:
  assumes "ob_plan (fst pr) = w" "rs_signal w = s" "t0 \<le> cd_start b" "ob_terminal_ms (fst pr) = t0"
  shows "ob_late_stop (fst (digest hours b pr)) = (ob_late_stop (fst pr) \<or> bar_stop s b)"
    "ob_time_stop (fst (digest hours b pr)) = (if bar_stop s b \<and> \<not> ob_late_stop (fst pr) then Some (cd_end b - t0) else ob_time_stop (fst pr))"
    "ob_late_target (fst (digest hours b pr)) = (ob_late_target (fst pr) \<or> bar_target s b)"
    "ob_time_target (fst (digest hours b pr)) = (if bar_target s b \<and> \<not> ob_late_target (fst pr) then Some (cd_end b - t0) else ob_time_target (fst pr))"
    "ob_mfe (fst (digest hours b pr)) = max (ob_mfe (fst pr)) (favorable s b)"
    "ob_mae (fst (digest hours b pr)) = min (ob_mae (fst pr)) (adverse s b)"
    "ob_complete (fst (digest hours b pr)) = (ob_complete (fst pr) \<and> cd_start b \<le> next_minute (ob_cursor_ms (fst pr)))"
    "ob_extended (fst (digest hours b pr)) = (if ob_extended (fst pr) = ''PENDING'' \<and> (bar_stop s b \<or> bar_target s b)
       then (if bar_stop s b then ''STOP'' else if ob_complete (fst pr) \<and> cd_start b \<le> next_minute (ob_cursor_ms (fst pr))
             then ''TARGET'' else ''UNCLEAR'') else ob_extended (fst pr))"
  using assms by (simp_all add: digest_def pass_checkpoints_def see_bar_def Let_def next_minute_def, blast+)

lemma straddle_fields:
  assumes "ob_plan (fst pr) = w" "rs_signal w = s" "cd_start b < t0" "ob_terminal_ms (fst pr) = t0"
  shows "ob_late_stop (fst (digest hours b pr)) = ob_late_stop (fst pr)"
    "ob_time_stop (fst (digest hours b pr)) = ob_time_stop (fst pr)"
    "ob_late_target (fst (digest hours b pr)) = ob_late_target (fst pr)"
    "ob_time_target (fst (digest hours b pr)) = ob_time_target (fst pr)"
    "ob_mfe (fst (digest hours b pr)) = ob_mfe (fst pr)" "ob_mae (fst (digest hours b pr)) = ob_mae (fst pr)"
    "ob_complete (fst (digest hours b pr)) = (ob_complete (fst pr) \<and> \<not> bar_stop s b \<and> \<not> bar_target s b)"
    "ob_extended (fst (digest hours b pr)) = ob_extended (fst pr)"
  using assms by (simp_all add: digest_def skip_straddle_def Let_def)

lemma next_candle_on_time:
  assumes "minute_series base cs" "k < length cs" "base \<le> t0"
  shows "cd_start (cs ! k) \<le> next_minute (cursor_at t0 base k)"
proof -
  have "cd_start (cs ! k) \<le> cursor_at t0 base k"
    using assms by (simp add: minute_series_def cursor_at_def)
  then show ?thesis using next_minute_ge by (rule order_trans)
qed

lemma history_fields:
  assumes series: "minute_series base cs" "k \<le> length cs" and t0: "base \<le> t0"
    and p0: "p0 = new_observation hours w ends t0" and s: "s = rs_signal w"
  defines "q \<equiv> fst (seen_history hours cs (p0, []) k)"
  shows "agrees_with_history t0 p0 cs k q
    \<and> ob_extended q = first_touch s (ob_complete p0 \<and> clean_start s t0 cs) (ob_extended p0) (after_end t0 (take k cs))"
  using series(2) unfolding q_def
proof (induction k)
  case 0
  then show ?case
    by (simp add: agrees_with_history_def Let_def p0 fresh_fields clean_start_def first_touch_def)
next
  case (Suc k)
  let ?pr = "seen_history hours cs (p0, []) k" and ?b = "cs ! k"
  have k: "k < length cs" "k \<le> length cs" using Suc.prems by auto
  from Suc.IH [OF k(2)] have agree: "agrees_with_history t0 p0 cs k (fst ?pr)"
    and ext: "ob_extended (fst ?pr) = first_touch s (ob_complete p0 \<and> clean_start s t0 cs) (ob_extended p0) (after_end t0 (take k cs))"
    by blast+
  have frame: "ob_plan (fst ?pr) = w" "ob_terminal_ms (fst ?pr) = t0" "ob_cursor_ms (fst ?pr) = cursor_at t0 base k" "ob_plan p0 = w"
    using seen_history_cursor [OF series(1) k(2), of hours "(p0, [])"] by (simp_all add: fold_digest_frame p0 fresh_fields)
  have next': "seen_history hours cs (p0, []) (Suc k) = digest hours ?b ?pr" by (rule seen_history_Suc [OF k(1)])
  have split: "take (Suc k) cs = take k cs @ [?b]" using k(1) by (rule take_Suc_conv_app_nth)
  show ?case
  proof (cases "cd_start ?b < t0")
    case True
    then have bs: "after_end t0 (take (Suc k) cs) = after_end t0 (take k cs)" by (simp add: split)
    have clean: "clean_start s t0 (take (Suc k) cs) \<longleftrightarrow> clean_start s t0 (take k cs) \<and> \<not> bar_stop s ?b \<and> \<not> bar_target s ?b"
      using True by (auto simp: split clean_start_def)
    note fields = straddle_fields [OF frame(1) s [symmetric] True frame(2), of hours]
    show ?thesis
      using agree ext unfolding next' agrees_with_history_def Let_def frame(4) s [symmetric] bs fields clean by simp
  next
    case False
    then have late: "t0 \<le> cd_start ?b" by simp
    have bs: "after_end t0 (take (Suc k) cs) = after_end t0 (take k cs) @ [?b]" using late by (simp add: split)
    have clean: "clean_start s t0 (take (Suc k) cs) = clean_start s t0 (take k cs)"
      using late by (auto simp: split clean_start_def)
    have all: "clean_start s t0 (take k cs) = clean_start s t0 cs"
    proof -
      have "t0 \<le> cd_start x" if "x \<in> set (drop k cs)" for x
      proof -
        from that obtain j where j: "j < length cs - k" "x = cs ! (k + j)" by (auto simp: in_set_conv_nth)
        then have "cd_start ?b \<le> cd_start x" using series(1) k(1) by (simp add: minute_series_def)
        with late show ?thesis by simp
      qed
      then have "clean_start s t0 (drop k cs)" by (fastforce simp: clean_start_def)
      moreover have "set cs = set (take k cs) \<union> set (drop k cs)" by (metis append_take_drop_id set_append)
      ultimately show ?thesis unfolding clean_start_def by blast
    qed
    have on_time: "cd_start ?b \<le> next_minute (ob_cursor_ms (fst ?pr))"
      using next_candle_on_time [OF series(1) k(1) t0] by (simp add: frame(3))
    note fields = digest_fields [OF frame(1) s [symmetric] late frame(2), of hours]
    have complete: "ob_complete (fst ?pr) \<longleftrightarrow> ob_complete p0 \<and> clean_start s t0 (take k cs)"
      and st: "ob_late_stop (fst ?pr) \<longleftrightarrow> (\<exists>b \<in> set (after_end t0 (take k cs)). bar_stop s b)"
      and ts: "ob_time_stop (fst ?pr) = map_option (\<lambda>b. cd_end b - t0) (find (bar_stop s) (after_end t0 (take k cs)))"
      and tg: "ob_late_target (fst ?pr) \<longleftrightarrow> (\<exists>b \<in> set (after_end t0 (take k cs)). bar_target s b)"
      and tt: "ob_time_target (fst ?pr) = map_option (\<lambda>b. cd_end b - t0) (find (bar_target s) (after_end t0 (take k cs)))"
      and mm: "ob_mfe (fst ?pr) = fold max (map (favorable s) (after_end t0 (take k cs))) 0"
        "ob_mae (fst ?pr) = fold min (map (adverse s) (after_end t0 (take k cs))) 0"
      using agree unfolding agrees_with_history_def Let_def frame(4) s [symmetric] by blast+
    have found: "find P xs = None \<longleftrightarrow> \<not> (\<exists>x \<in> set xs. P x)" for P and xs :: "candle list"
      by (auto simp: find_None_iff)
    have "agrees_with_history t0 p0 cs (Suc k) (fst (digest hours ?b ?pr))"
      unfolding agrees_with_history_def Let_def frame(4) s [symmetric] bs
    proof (intro conjI)
      show "ob_complete (fst (digest hours ?b ?pr)) = (ob_complete p0 \<and> clean_start s t0 (take (Suc k) cs))"
        by (simp add: fields(7) complete clean on_time)
      show "ob_late_stop (fst (digest hours ?b ?pr)) = (\<exists>b \<in> set (after_end t0 (take k cs) @ [?b]). bar_stop s b)"
        unfolding fields(1) st by auto
      show "ob_time_stop (fst (digest hours ?b ?pr)) = map_option (\<lambda>b. cd_end b - t0) (find (bar_stop s) (after_end t0 (take k cs) @ [?b]))"
        unfolding fields(2) find_snoc st found [symmetric] ts by (cases "find (bar_stop s) (after_end t0 (take k cs))") auto
      show "ob_late_target (fst (digest hours ?b ?pr)) = (\<exists>b \<in> set (after_end t0 (take k cs) @ [?b]). bar_target s b)"
        unfolding fields(3) tg by auto
      show "ob_time_target (fst (digest hours ?b ?pr)) = map_option (\<lambda>b. cd_end b - t0) (find (bar_target s) (after_end t0 (take k cs) @ [?b]))"
        unfolding fields(4) find_snoc tg found [symmetric] tt by (cases "find (bar_target s) (after_end t0 (take k cs))") auto
      show "ob_mfe (fst (digest hours ?b ?pr)) = fold max (map (favorable s) (after_end t0 (take k cs) @ [?b])) 0"
        by (simp add: fields(5) mm max.commute)
      show "ob_mae (fst (digest hours ?b ?pr)) = fold min (map (adverse s) (after_end t0 (take k cs) @ [?b])) 0"
        by (simp add: fields(6) mm min.commute)
    qed
    moreover have "ob_extended (fst (digest hours ?b ?pr)) =
        first_touch s (ob_complete p0 \<and> clean_start s t0 cs) (ob_extended p0) (after_end t0 (take k cs) @ [?b])"
      unfolding fields(8) ext first_touch_def find_snoc using complete on_time all by (auto split: option.split)
    ultimately show ?thesis by (simp only: next' bs simp_thms)
  qed
qed


subsection \<open>The polls of the research loop\<close>

text \<open>
  A poll is described by the indices of its window and its time. \<^verbatim>\<open>late_reach\<close> counts
  the candles that a sequence of polls has digested when the observation is complete or the polls
  end; the windows fit when each begins at or before the candle that is due.
\<close>

fun late_reach :: "ms \<Rightarrow> ms \<Rightarrow> ms \<Rightarrow> nat \<Rightarrow> (nat \<times> nat \<times> ms) list \<Rightarrow> nat" where
  "late_reach base deadline t0 k [] = k"
| "late_reach base deadline t0 k ((a, b, now) # ws) =
     (let k' = max k (min b (closed_count base (min now deadline))) in
      if deadline \<le> now \<and> deadline - 60000 \<le> cursor_at t0 base k' then k' else late_reach base deadline t0 k' ws)"

fun windows_fit :: "ms \<Rightarrow> ms \<Rightarrow> ms \<Rightarrow> nat \<Rightarrow> nat \<Rightarrow> (nat \<times> nat \<times> ms) list \<Rightarrow> bool" where
  "windows_fit base deadline t0 n k [] \<longleftrightarrow> True"
| "windows_fit base deadline t0 n k ((a, b, now) # ws) \<longleftrightarrow>
     (let k' = max k (min b (closed_count base (min now deadline))) in
      a \<le> k \<and> a \<le> b \<and> b \<le> n
      \<and> (deadline \<le> now \<and> deadline - 60000 \<le> cursor_at t0 base k' \<or> windows_fit base deadline t0 n k' ws))"

definition as_polls :: "candle list \<Rightarrow> (nat \<times> nat \<times> ms) list \<Rightarrow> (candle list \<times> ms) list" where
  "as_polls cs ws = map (\<lambda>(a, b, now). (window cs a b, now)) ws"

lemma sort_window:
  assumes "minute_series base cs" "b \<le> length cs"
  shows "sort_key cd_start (window cs a b) = window cs a b"
proof (rule sort_key_id_if_sorted)
  have "map cd_start (window cs a b) = map (\<lambda>i. base + int i * 60000) [a..<b]"
    using assms by (simp add: window_def minute_series_def)
  moreover have "sorted (map (\<lambda>i. base + int i * 60000) [a..<b])" by (simp add: sorted_iff_nth_mono)
  ultimately show "sorted (map cd_start (window cs a b))" by simp
qed

lemma closed_count_mono: "s \<le> t \<Longrightarrow> closed_count base s \<le> closed_count base t"
  unfolding closed_count_def by (intro nat_mono zdiv_mono1) simp_all

lemma completed_polls: "ob_status (rr_observation r) = ''COMPLETE'' \<Longrightarrow> fold (poll_late hours) polls r = r"
  by (induction polls) (simp_all add: poll_late_def)

definition digested_row :: "(ms \<Rightarrow> session_hours) \<Rightarrow> candle list \<Rightarrow> observation \<Rightarrow> nat \<Rightarrow> research_row" where
  "digested_row hours cs p0 k =
     \<lparr>rr_observation = fst (seen_history hours cs (p0, []) k),
      rr_checkpoints = snd (seen_history hours cs (p0, []) k), rr_label = None\<rparr>"

lemma digested_row_label [simp]: "rr_label (digested_row hours cs p0 k) = None"
  by (simp add: digested_row_def)

lemma polls_reach:
  assumes series: "minute_series base cs" and t0: "base \<le> t0" "t0 < base + 60000"
    and p0: "ob_cursor_ms p0 = t0" "ob_terminal_ms p0 = t0" "ob_deadline_ms p0 = deadline" "base + 60000 \<le> deadline"
      "ob_distance p0 \<noteq> 0" "ob_status p0 = ''FOLLOWING_LATE_OUTCOME''"
    and "windows_fit base deadline t0 (length cs) k ws" "k \<le> length cs" "k \<le> closed_count base deadline"
  shows "let K = late_reach base deadline t0 k ws; r = fold (poll_late hours) (as_polls cs ws) (digested_row hours cs p0 k) in
    K \<le> length cs \<and> K \<le> closed_count base deadline \<and> k \<le> K
    \<and> (r = digested_row hours cs p0 K
       \<or> (\<exists>now. deadline \<le> now \<and> deadline - 60000 \<le> cursor_at t0 base K
            \<and> rr_label r = Some (now, complete_observation (fst (seen_history hours cs (p0, []) K)))))"
  using assms(10-12)
proof (induction ws arbitrary: k)
  case Nil
  then show ?case by (simp add: as_polls_def)
next
  case (Cons w ws)
  obtain a b now where w: "w = (a, b, now)" by (cases w) auto
  define kk where "kk = max k (min b (closed_count base (min now deadline)))"
  let ?pr = "seen_history hours cs (p0, []) kk"
  from Cons.prems(1) have fit: "a \<le> k" "a \<le> b" "b \<le> length cs"
    "deadline \<le> now \<and> deadline - 60000 \<le> cursor_at t0 base kk \<or> windows_fit base deadline t0 (length cs) kk ws"
    by (simp_all add: w Let_def kk_def)
  have bound: "kk \<le> length cs" "kk \<le> closed_count base deadline"
    using Cons.prems(2,3) fit(3) closed_count_mono [of "min now deadline" deadline base] by (auto simp: kk_def)
  have status: "ob_status (fst (seen_history hours cs (p0, []) j)) = ''FOLLOWING_LATE_OUTCOME''"
    "ob_distance (fst (seen_history hours cs (p0, []) j)) \<noteq> 0" "ob_deadline_ms (fst (seen_history hours cs (p0, []) j)) = deadline" for j
    using p0 by (simp_all add: fold_digest_frame ob_distance_def)
  have fold': "fold (bar_step hours now) (sort_key cd_start (window cs a b)) (seen_history hours cs (p0, []) k) = ?pr"
    using series_fold [OF series Cons.prems(2) fit(3,1,2) t0, of "(p0, [])" deadline hours now] p0
      sort_window [OF series fit(3), of a] by (simp add: kk_def)
  have cursor: "ob_cursor_ms (fst ?pr) = cursor_at t0 base kk"
    using seen_history_cursor [OF series bound(1), of hours "(p0, [])"] p0(1) by simp
  show ?case
  proof (cases "deadline \<le> now \<and> deadline - 60000 \<le> cursor_at t0 base kk")
    case True
    let ?r = "poll_late hours (window cs a b, now) (digested_row hours cs p0 k)"
    have r: "?r = \<lparr>rr_observation = complete_observation (fst ?pr), rr_checkpoints = snd ?pr,
        rr_label = Some (now, complete_observation (fst ?pr))\<rparr>"
      using True status(1,2) [of k] status(3) [of kk] fold' cursor
      by (simp add: poll_late_def advance_late_def digested_row_def Let_def split_beta)
    then have "fold (poll_late hours) (as_polls cs ws) ?r = ?r" by (intro completed_polls) (simp add: complete_observation_frame)
    then have "fold (poll_late hours) (as_polls cs (w # ws)) (digested_row hours cs p0 k) = ?r" by (simp add: as_polls_def w)
    moreover have reach: "late_reach base deadline t0 k (w # ws) = kk"
      unfolding w late_reach.simps Let_def kk_def [symmetric] using True by simp
    moreover have "k \<le> kk" by (simp add: kk_def)
    ultimately show ?thesis
      unfolding Let_def reach using True bound r by (intro conjI disjI2 exI [of _ now]) simp_all
  next
    case False
    then have step: "poll_late hours (window cs a b, now) (digested_row hours cs p0 k) = digested_row hours cs p0 kk"
      using status(1,2) [of k] status(3) [of kk] fold' cursor
      by (auto simp: poll_late_def advance_late_def digested_row_def Let_def split_beta)
    from False fit(4) have "windows_fit base deadline t0 (length cs) kk ws" by blast
    note ih = Cons.IH [OF this bound]
    have run: "fold (poll_late hours) (as_polls cs (w # ws)) (digested_row hours cs p0 k) = fold (poll_late hours) (as_polls cs ws) (digested_row hours cs p0 kk)"
      using step by (simp add: as_polls_def w)
    have reach: "late_reach base deadline t0 k (w # ws) = late_reach base deadline t0 kk ws"
      unfolding w late_reach.simps Let_def kk_def [symmetric] using False by (simp only: if_False)
    show ?thesis using ih unfolding run reach Let_def by (auto simp: kk_def)
  qed
qed


definition final_outcome :: "string \<Rightarrow> string" where
  "final_outcome x = (if x = ''PENDING'' then ''EXPIRED'' else x)"

text \<open>
  C32: when the polls of the research loop see overlapping windows of the
  one-minute candles of the market, however they are cut, the label they freeze is what the whole
  series up to the last digested candle says: the first touch of stop or target decides the extended
  outcome, a candle that touches both counts as a stop, the late hits and their times are those of the
  first candles that reach the levels, the excursions are the extremes. At most the last minute
  before the deadline is not among the digested candles, and then the deadline is a full minute.
\<close>

theorem late_label_is_history:
  assumes start: "start_research hours w given configured t0 None = Some r"
    and risk: "sg_entry (rs_signal w) \<noteq> sg_stop (rs_signal w)"
    and series: "minute_series base cs" "base \<le> t0" "t0 < base + 60000"
    and deadline: "deadline = ob_deadline_ms (rr_observation r)" "base + 120000 \<le> deadline"
    and polls: "windows_fit base deadline t0 (length cs) 0 ws"
    and label: "rr_label (fold (poll_late hours) (as_polls cs ws) r) = Some (t, q)"
  shows "let K = late_reach base deadline t0 0 ws; s = rs_signal w; p0 = rr_observation r in
    K \<le> length cs
    \<and> (K = closed_count base deadline \<or> Suc K = closed_count base deadline \<and> (deadline - base) mod 60000 = 0)
    \<and> agrees_with_history t0 p0 cs K q
    \<and> ob_extended q = final_outcome (first_touch s (ob_complete p0 \<and> clean_start s t0 cs) (ob_extended p0)
        (after_end t0 (take K cs)))"
proof -
  let ?p0 = "rr_observation r" and ?K = "late_reach base deadline t0 0 ws" and ?s = "rs_signal w"
  let ?ends = "checkpoint_ends ?s given configured t0"
  note fresh = start_research_fresh [OF start]
  have p0: "?p0 = new_observation hours w ?ends t0" using fresh by simp
  have r: "r = digested_row hours cs ?p0 0" using fresh by (cases r) (simp add: digested_row_def)
  have start': "ob_cursor_ms ?p0 = t0" "ob_terminal_ms ?p0 = t0" "ob_distance ?p0 \<noteq> 0"
    "ob_status ?p0 = ''FOLLOWING_LATE_OUTCOME''"
    using risk by (simp_all add: p0 fresh_fields ob_distance_def Let_def)
  have far: "base + 60000 \<le> deadline" using deadline(2) by simp
  from polls_reach [OF series start'(1,2) deadline(1) [symmetric] far start'(3,4) polls, of hours]
  have reach: "?K \<le> length cs" "?K \<le> closed_count base deadline"
    "rr_label (fold (poll_late hours) (as_polls cs ws) r) \<noteq> None \<Longrightarrow>
      \<exists>now. deadline - 60000 \<le> cursor_at t0 base ?K
       \<and> rr_label (fold (poll_late hours) (as_polls cs ws) r) = Some (now, complete_observation (fst (seen_history hours cs (?p0, []) ?K)))"
    by (auto simp: Let_def r [symmetric])
  with label have last: "deadline - 60000 \<le> cursor_at t0 base ?K"
    and q: "q = complete_observation (fst (seen_history hours cs (?p0, []) ?K))" by auto
  have "?K \<noteq> 0"
  proof
    assume "?K = 0"
    with last have "deadline - 60000 \<le> t0" by (simp add: cursor_at_def)
    with deadline(2) series(3) show False by simp
  qed
  with last have "deadline - base \<le> (int ?K + 1) * 60000" by (simp add: cursor_at_def algebra_simps)
  then have short: "\<not> Suc ?K < closed_count base deadline" by (simp add: closed_count_iff algebra_simps)
  have count: "?K = closed_count base deadline \<or> Suc ?K = closed_count base deadline \<and> (deadline - base) mod 60000 = 0"
  proof (cases "?K = closed_count base deadline")
    case False
    with short reach(2) have suc: "Suc ?K = closed_count base deadline" by simp
    then have "base + (int ?K + 1) * 60000 \<le> deadline" using closed_count_iff [of ?K base deadline] by simp
    with \<open>deadline - base \<le> (int ?K + 1) * 60000\<close> have "deadline - base = (int ?K + 1) * 60000" by simp
    then have "(deadline - base) mod 60000 = 0" by simp
    with suc show ?thesis by simp
  qed simp
  note fields = history_fields [OF series(1) reach(1) series(2) p0 refl]
  have "agrees_with_history t0 ?p0 cs ?K q"
    using fields by (simp add: q agrees_with_history_def complete_observation_def Let_def)
  moreover have "ob_extended q = final_outcome (first_touch ?s (ob_complete ?p0 \<and> clean_start ?s t0 cs) (ob_extended ?p0)
      (after_end t0 (take ?K cs)))"
    using fields by (simp add: q complete_observation_def final_outcome_def Let_def)
  ultimately show ?thesis using reach(1) count by (simp add: Let_def)
qed


definition late_plan :: researched where
  "late_plan =
     \<lparr>rs_signal = sample_signal\<lparr>sg_state := EXPIRED\<rparr>, rs_scored = True, rs_primary_coverage = True,
      rs_withdrawal = None, rs_entry_session = Some EUROPE\<rparr>"

definition late_bar :: "nat \<Rightarrow> dec \<Rightarrow> dec \<Rightarrow> candle" where
  "late_bar i low high =
     \<lparr>cd_start = 60000 + int i * 60000, cd_interval = 60000, cd_open = low, cd_high = high, cd_low = low, cd_close = high\<rparr>"

definition late_bars :: "candle list" where
  "late_bars = [late_bar 0 99 101, late_bar 1 98 105, late_bar 2 100 111, late_bar 3 94 100]"

definition late_hours :: "ms \<Rightarrow> session_hours" where
  "late_hours t = \<lparr>sh_singapore = 20, sh_london = 12, sh_new_york = 7\<rparr>"

definition late_research :: "research_row option" where
  "late_research = start_research late_hours late_plan [4] [] 90000 None"

definition late_windows :: "(nat \<times> nat \<times> ms) list" where
  "late_windows = [(0, 2, 130000), (1, 4, 400000)]"

lemma late_label_is_history_witness:
  "case late_research of None \<Rightarrow> False
   | Some r \<Rightarrow>
       (case rr_label (fold (poll_late late_hours) (as_polls late_bars late_windows) r) of None \<Rightarrow> False
        | Some (t, q) \<Rightarrow> t = 400000 \<and> ob_extended q = ''TARGET'' \<and> ob_late_stop q
            \<and> agrees_with_history 90000 (rr_observation r) late_bars 4 q)"
proof -
  have run: "case late_research of None \<Rightarrow> False
   | Some r \<Rightarrow> ob_deadline_ms (rr_observation r) = 300000 \<and>
       (case rr_label (fold (poll_late late_hours) (as_polls late_bars late_windows) r) of None \<Rightarrow> False
        | Some (t, q) \<Rightarrow> t = 400000 \<and> ob_extended q = ''TARGET'' \<and> ob_late_stop q)"
    by code_simp
  then obtain r t q where r: "late_research = Some r" and deadline: "300000 = ob_deadline_ms (rr_observation r)"
    and q: "rr_label (fold (poll_late late_hours) (as_polls late_bars late_windows) r) = Some (t, q)"
    "t = 400000" "ob_extended q = ''TARGET''" "ob_late_stop q"
    by (auto split: option.splits)
  have fit: "windows_fit 60000 300000 90000 (length late_bars) 0 late_windows" by code_simp
  have reach: "late_reach 60000 300000 90000 0 late_windows = 4" by code_simp
  have series: "minute_series 60000 late_bars"
    by (simp add: minute_series_def late_bars_def late_bar_def All_less_Suc numeral_eq_Suc)
  have risk: "sg_entry (rs_signal late_plan) \<noteq> sg_stop (rs_signal late_plan)" by code_simp
  from late_label_is_history [OF r [unfolded late_research_def] risk series _ _ deadline _ fit q(1)]
  have "agrees_with_history 90000 (rr_observation r) late_bars 4 q" by (simp add: reach Let_def)
  then show ?thesis unfolding r option.case q(1) prod.case using q by blast
qed

lemma late_target_never_over_gap_witness:
  "target_evidence (\<Union>poll \<in> set (as_polls late_bars late_windows). set (fst poll)) (rs_signal late_plan) 90000"
proof -
  have run: "case late_research of None \<Rightarrow> False
   | Some r \<Rightarrow> ob_primary (rr_observation r) \<noteq> ''TARGET'' \<and>
       (case rr_label (fold (poll_late late_hours) (as_polls late_bars late_windows) r) of None \<Rightarrow> False
        | Some (t, q) \<Rightarrow> ob_extended q = ''TARGET'')"
    by code_simp
  then obtain r t q where r: "late_research = Some r" and first: "ob_primary (rr_observation r) \<noteq> ''TARGET''"
    and q: "rr_label (fold (poll_late late_hours) (as_polls late_bars late_windows) r) = Some (t, q)" "ob_extended q = ''TARGET''"
    by (auto split: option.splits)
  show ?thesis by (rule late_target_never_over_gap [OF r [unfolded late_research_def] first q])
qed


subsection \<open>The research recommendation\<close>

text \<open>
  \<^verbatim>\<open>refresh_recommendations\<close> summarises the frozen labels per family, newest first and
  ten thousand at most; \<^verbatim>\<open>recommend\<close> reads the summary if it is not older than a day.
\<close>

record label_summary =
  ly_complete :: bool
  ly_family :: string
  ly_outcome :: string
  ly_horizon :: "profile option"

record family_group =
  fg_samples :: nat
  fg_counts :: "(profile \<times> nat) list"

record recommendations =
  rd_available_ms :: ms
  rd_families :: "(string \<times> family_group) list"

definition count_in :: "(profile \<times> nat) list \<Rightarrow> profile \<Rightarrow> nat" where
  "count_in counts h = (case map_of counts h of None \<Rightarrow> 0 | Some n \<Rightarrow> n)"

definition group_of :: "(string \<times> family_group) list \<Rightarrow> string \<Rightarrow> family_group" where
  "group_of families f = (case map_of families f of None \<Rightarrow> \<lparr>fg_samples = 0, fg_counts = []\<rparr> | Some g \<Rightarrow> g)"

definition add_summary :: "label_summary \<Rightarrow> family_group \<Rightarrow> family_group" where
  "add_summary y g =
     \<lparr>fg_samples = fg_samples g + 1,
      fg_counts = (case ly_horizon y of
                     None \<Rightarrow> fg_counts g
                   | Some h \<Rightarrow> if ly_outcome y = ''TARGET'' then AList.update h (count_in (fg_counts g) h + 1) (fg_counts g)
                              else fg_counts g)\<rparr>"

definition note_summary :: "label_summary \<Rightarrow> (string \<times> family_group) list \<Rightarrow> (string \<times> family_group) list" where
  "note_summary y families =
     (if \<not> ly_complete y then families
      else AList.update (ly_family y) (add_summary y (group_of families (ly_family y))) families)"

definition refresh_recommendations :: "label_summary list \<Rightarrow> ms \<Rightarrow> recommendations" where
  "refresh_recommendations rows asof =
     \<lparr>rd_available_ms = asof, rd_families = fold note_summary (take 10000 rows) []\<rparr>"

text \<open>\<^verbatim>\<open>max(counts, key=counts.get)\<close>: the first key with the largest count\<close>

fun best_key :: "(profile \<times> nat) list \<Rightarrow> (profile \<times> nat) option" where
  "best_key [] = None"
| "best_key (x # xs) = Some (fold (\<lambda>y best. if snd best < snd y then y else best) xs x)"

record advice =
  ad_enough :: bool
  ad_samples :: nat
  ad_profile :: "profile option"
  ad_counts :: "(profile \<times> nat) list"
  ad_available_ms :: "ms option"

definition recommend :: "recommendations option \<Rightarrow> string \<Rightarrow> ms \<Rightarrow> nat \<Rightarrow> advice" where
  "recommend cache family asof minimum =
     (let valid = (case cache of None \<Rightarrow> False
                   | Some c \<Rightarrow> 0 \<le> asof - rd_available_ms c \<and> asof - rd_available_ms c \<le> 86400000);
          g = (if valid then group_of (rd_families (the cache)) family else \<lparr>fg_samples = 0, fg_counts = []\<rparr>)
      in \<lparr>ad_enough = (minimum \<le> fg_samples g), ad_samples = fg_samples g,
          ad_profile = (if fg_counts g \<noteq> [] \<and> minimum \<le> fg_samples g
                        then map_option fst (best_key (fg_counts g)) else None),
          ad_counts = fg_counts g,
          ad_available_ms = (if valid then Some (rd_available_ms (the cache)) else None)\<rparr>)"

definition labelled_rows :: "string \<Rightarrow> label_summary list \<Rightarrow> label_summary list" where
  "labelled_rows family rows = filter (\<lambda>y. ly_complete y \<and> ly_family y = family) rows"

definition target_count :: "string \<Rightarrow> label_summary list \<Rightarrow> profile \<Rightarrow> nat" where
  "target_count family rows h =
     length (filter (\<lambda>y. ly_outcome y = ''TARGET'' \<and> ly_horizon y = Some h) (labelled_rows family rows))"

lemma count_in_Nil [simp]: "count_in [] h = 0"
  by (simp add: count_in_def)

definition group_counts :: "label_summary list \<Rightarrow> string \<Rightarrow> family_group \<Rightarrow> bool" where
  "group_counts rows f g \<longleftrightarrow>
     fg_samples g = length (labelled_rows f rows) \<and> (\<forall>h. count_in (fg_counts g) h = target_count f rows h)
     \<and> distinct (map fst (fg_counts g))"

lemma add_summary_counts:
  assumes "group_counts rows f g" "ly_complete y" "ly_family y = f"
  shows "group_counts (rows @ [y]) f (add_summary y g)"
proof -
  have new: "labelled_rows f (rows @ [y]) = labelled_rows f rows @ [y]" using assms(2,3) by (simp add: labelled_rows_def)
  have "count_in (fg_counts (add_summary y g)) h = target_count f (rows @ [y]) h" for h
  proof -
    have "count_in (fg_counts g) h = target_count f rows h" using assms(1) by (simp add: group_counts_def)
    moreover have "count_in (AList.update k n xs) h = (if h = k then n else count_in xs h)" for k n xs
      by (simp add: count_in_def update_conv')
    ultimately show ?thesis by (auto simp: add_summary_def target_count_def new split: option.split)
  qed
  moreover have "distinct (map fst (fg_counts (add_summary y g)))"
    using assms(1) by (simp add: group_counts_def add_summary_def distinct_update split: option.split)
  ultimately show ?thesis using assms(1) by (simp add: group_counts_def new add_summary_def)
qed

lemma families_count: "group_counts rows f (group_of (fold note_summary rows []) f)"
proof (induction rows arbitrary: f rule: rev_induct)
  case Nil
  then show ?case by (simp add: group_counts_def group_of_def labelled_rows_def target_count_def)
next
  case (snoc y rows)
  show ?case
  proof (cases "ly_complete y \<and> ly_family y = f")
    case True
    then show ?thesis using add_summary_counts [OF snoc, of y f] by (simp add: note_summary_def group_of_def update_conv')
  next
    case False
    then have "labelled_rows f (rows @ [y]) = labelled_rows f rows" by (auto simp: labelled_rows_def)
    moreover have "group_of (fold note_summary (rows @ [y]) []) f = group_of (fold note_summary rows []) f"
      using False by (auto simp: note_summary_def group_of_def update_conv')
    ultimately show ?thesis using snoc [of f] by (simp only: group_counts_def target_count_def simp_thms)
  qed
qed

abbreviation larger :: "profile \<times> nat \<Rightarrow> profile \<times> nat \<Rightarrow> profile \<times> nat" where
  "larger y best \<equiv> (if snd best < snd y then y else best)"

lemma fold_larger:
  "fold larger ys z \<in> insert z (set ys) \<and> snd z \<le> snd (fold larger ys z) \<and> (\<forall>y \<in> set ys. snd y \<le> snd (fold larger ys z))"
proof (induction ys arbitrary: z)
  case (Cons a ys)
  from Cons.IH [of "larger a z"] show ?case by (auto split: if_splits)
qed simp

lemma best_key_max:
  assumes "best_key xs = Some x"
  shows "x \<in> set xs \<and> (\<forall>y \<in> set xs. snd y \<le> snd x)"
proof (cases xs)
  case (Cons z ys)
  then have "x = fold larger ys z" using assms by simp
  with fold_larger [of ys z] Cons show ?thesis by auto
qed (use assms in simp)

text \<open>
  A recommended horizon rests on at least the required number of
  complete labels of the family among the ten thousand newest, and no horizon has more successful
  ones.
\<close>

theorem recommendation_is_supported:
  assumes "ad_profile (recommend (Some (refresh_recommendations rows at_ms)) family asof minimum) = Some h"
  shows "minimum \<le> length (labelled_rows family (take 10000 rows))
    \<and> target_count family (take 10000 rows) h' \<le> target_count family (take 10000 rows) h
    \<and> at_ms \<le> asof \<and> asof \<le> at_ms + 86400000"
proof -
  let ?rows = "take 10000 rows"
  let ?g = "group_of (fold note_summary ?rows []) family"
  from assms obtain n where enough: "minimum \<le> fg_samples ?g" and best: "best_key (fg_counts ?g) = Some (h, n)"
    and age: "at_ms \<le> asof" "asof \<le> at_ms + 86400000"
    by (auto simp: recommend_def refresh_recommendations_def Let_def split: if_splits)
  from families_count [of ?rows family] have count: "fg_samples ?g = length (labelled_rows family ?rows)"
    "\<And>h. count_in (fg_counts ?g) h = target_count family ?rows h" and "distinct (map fst (fg_counts ?g))"
    by (simp_all add: group_counts_def)
  then have at_key: "(k, m) \<in> set (fg_counts ?g) \<Longrightarrow> count_in (fg_counts ?g) k = m" for k m by (simp add: count_in_def)
  from best_key_max [OF best] have "count_in (fg_counts ?g) h = n" "\<forall>y \<in> set (fg_counts ?g). snd y \<le> n" using at_key by auto
  then have "count_in (fg_counts ?g) h' \<le> count_in (fg_counts ?g) h"
    by (cases "map_of (fg_counts ?g) h'") (fastforce simp: count_in_def [of _ h'] dest: map_of_SomeD)+
  then show ?thesis using count enough age by simp
qed

lemma recommendation_is_supported_witness:
  "let rows = [\<lparr>ly_complete = True, ly_family = ''sweep'', ly_outcome = ''TARGET'', ly_horizon = Some SWING\<rparr>] in
   1 \<le> length (labelled_rows ''sweep'' (take 10000 rows))
    \<and> target_count ''sweep'' (take 10000 rows) CORE_INTRADAY \<le> target_count ''sweep'' (take 10000 rows) SWING
    \<and> (5 :: ms) \<le> 6 \<and> (6 :: ms) \<le> 5 + 86400000"
  unfolding Let_def by (rule recommendation_is_supported [where at_ms = 5 and asof = 6]) code_simp

end
