(* ===== verification/Packing.thy ===== *)
theory Packing imports Leases begin

text \<open>
  Lossless packing of recorded segments, \<^verbatim>\<open>src/bybit_flow/packing.py\<close>: how a raw
  segment and its manifest are read (\<^verbatim>\<open>raw_bytes\<close>, \<^verbatim>\<open>manifest_for\<close>), how
  \<^verbatim>\<open>compact\<close> selects and claims segments, and how \<^verbatim>\<open>_pack_verified\<close> moves
  their files into one archive. What reaches the disk and the database is a log of atomic actions, so
  that a crash is a prefix of the acts. What the new archive holds when it is read back is an
  argument of the run, as are the digest, the decoding of a sidecar and the clock with the lease table
  at every heartbeat.
\<close>

subsection \<open>Files, archives and mappings\<close>

type_synonym path = "string \<times> string"
type_synonym bytes = string

record manifest =
  mf_id :: string
  mf_raw :: path
  mf_parquet :: path
  mf_min_ms :: ms
  mf_max_ms :: ms
  mf_at_ms :: ms

record pack_disk =
  pd_files :: "(path \<times> bytes) list"
  pd_archives :: "(path \<times> (string \<times> bytes) list) list"
  pd_packs :: "(string \<times> (path \<times> nat)) list"
  pd_segments :: "(string \<times> manifest) list"
  pd_batches :: "path list"

datatype read_error = FileMissing | ArchiveMissing | MemberMissing | NoManifest

definition RAW_SUFFIX :: string where "RAW_SUFFIX = ''.jsonl.gz''"

text \<open>\<^verbatim>\<open>path.name.removesuffix(".jsonl.gz")\<close>\<close>

definition segment_name :: "string \<Rightarrow> string" where
  "segment_name n =
     (let k = length n - length RAW_SUFFIX in
      if length RAW_SUFFIX \<le> length n \<and> drop k n = RAW_SUFFIX then take k n else n)"

definition with_name :: "path \<Rightarrow> string \<Rightarrow> path" where
  "with_name p n = (fst p, n)"

text \<open>The archive and the stored manifest of a packed segment\<close>

definition packed_record :: "pack_disk \<Rightarrow> path \<Rightarrow> (path \<times> manifest) option" where
  "packed_record d p =
     (case (map_of (pd_packs d) (segment_name (snd p)), map_of (pd_segments d) (segment_name (snd p))) of
        (Some (archive, _), Some m) \<Rightarrow> Some (archive, m)
      | _ \<Rightarrow> None)"

text \<open>Reading a member: the last entry of a name counts.\<close>

definition read_member :: "pack_disk \<Rightarrow> path \<Rightarrow> string \<Rightarrow> read_error + bytes" where
  "read_member d archive name =
     (case map_of (pd_archives d) archive of
        None \<Rightarrow> Inl ArchiveMissing
      | Some members \<Rightarrow> (case map_of (rev members) name of None \<Rightarrow> Inl MemberMissing | Some b \<Rightarrow> Inr b))"

definition raw_bytes :: "pack_disk \<Rightarrow> path \<Rightarrow> read_error + bytes" where
  "raw_bytes d p =
     (case map_of (pd_files d) p of
        Some b \<Rightarrow> Inr b
      | None \<Rightarrow>
          (case packed_record d p of
             None \<Rightarrow> Inl FileMissing
           | Some (archive, _) \<Rightarrow> read_member d archive (snd p)))"

definition sidecar :: "path \<Rightarrow> path" where
  "sidecar p = with_name p (segment_name (snd p) @ ''.manifest.json'')"

definition manifest_for :: "(bytes \<Rightarrow> manifest) \<Rightarrow> pack_disk \<Rightarrow> path \<Rightarrow> read_error + manifest" where
  "manifest_for decode d p =
     (case map_of (pd_files d) (sidecar p) of
        Some b \<Rightarrow> Inr (decode b)
      | None \<Rightarrow> (case packed_record d p of None \<Rightarrow> Inl NoManifest | Some (_, m) \<Rightarrow> Inr m))"

subsection \<open>The run\<close>

datatype pack_action =
    NoteBatch path
  | CreateArchive path
  | FillArchive path "(string \<times> bytes) list"
  | CommitMapping path "(string \<times> nat) list"
  | UnlinkOriginal path
  | DropBatch path

fun apply_pack :: "pack_action \<Rightarrow> pack_disk \<Rightarrow> pack_disk" where
  "apply_pack (NoteBatch t) d = d\<lparr>pd_batches := t # pd_batches d\<rparr>"
| "apply_pack (CreateArchive t) d = d\<lparr>pd_archives := (t, []) # pd_archives d\<rparr>"
| "apply_pack (FillArchive t members) d = d\<lparr>pd_archives := AList.update t members (pd_archives d)\<rparr>"
| "apply_pack (CommitMapping t rows) d = d\<lparr>pd_packs := pd_packs d @ map (\<lambda>(i, n). (i, (t, n))) rows\<rparr>"
| "apply_pack (UnlinkOriginal p) d = d\<lparr>pd_files := filter (\<lambda>(q, _). q \<noteq> p) (pd_files d)\<rparr>"
| "apply_pack (DropBatch t) d = d\<lparr>pd_batches := filter (\<lambda>q. q \<noteq> t) (pd_batches d)\<rparr>"

definition pack_files :: "manifest \<Rightarrow> path list" where
  "pack_files m = [mf_raw m, mf_parquet m, with_name (mf_raw m) (mf_id m @ ''.manifest.json'')]"

text \<open>The clock and the lease table that a round of heartbeats finds\<close>

type_synonym lease_view = "ms \<times> lease_row list"

fun beat_all :: "bool \<Rightarrow> lease_view \<Rightarrow> lease list \<Rightarrow> py_error + lease list" where
  "beat_all force v [] = Inr []"
| "beat_all force v (l # ls) =
     (case heartbeat (fst v) None force l (snd v) of
        Inl e \<Rightarrow> Inl e
      | Inr (l', rows) \<Rightarrow> (case beat_all force (fst v, rows) ls of Inl e \<Rightarrow> Inl e | Inr ls' \<Rightarrow> Inr (l' # ls')))"

record pack_env =
  pe_root :: string
  pe_symlink :: "path \<Rightarrow> bool"
  pe_target :: path
  pe_views :: "lease_view list"
  pe_last_view :: lease_view
  pe_written :: "(string \<times> bytes) list \<Rightarrow> (string \<times> bytes) list"

text \<open>The files of one segment go into the archive; a missing file or one outside the managed directory raises.\<close>

fun take_files :: "pack_env \<Rightarrow> pack_disk \<Rightarrow> path list \<Rightarrow> py_error + (string \<times> bytes) list" where
  "take_files env d [] = Inr []"
| "take_files env d (p # ps) =
     (if pe_symlink env p \<or> fst p \<noteq> pe_root env then Inl (ValueError ''Compaction path outside managed segments'')
      else
        case map_of (pd_files d) p of
          None \<Rightarrow> Inl (RuntimeErr ''FileNotFoundError'')
        | Some b \<Rightarrow> (case take_files env d ps of Inl e \<Rightarrow> Inl e | Inr rest \<Rightarrow> Inr ((snd p, b) # rest)))"

fun take_segments ::
    "pack_env \<Rightarrow> pack_disk \<Rightarrow> manifest list \<Rightarrow> lease_view list \<Rightarrow> lease list \<Rightarrow> py_error + (string \<times> bytes) list \<times> lease list" where
  "take_segments env d [] views leases = Inr ([], leases)"
| "take_segments env d (m # ms) views leases =
     (case (case views of [] \<Rightarrow> Inr leases | v # _ \<Rightarrow> beat_all False v leases) of
        Inl e \<Rightarrow> Inl e
      | Inr leases' \<Rightarrow>
          (case take_files env d (pack_files m) of
             Inl e \<Rightarrow> Inl e
           | Inr members \<Rightarrow>
               (case take_segments env d ms (tl views) leases' of
                  Inl e \<Rightarrow> Inl e
                | Inr (rest, leases'') \<Rightarrow> Inr (members @ rest, leases''))))"

text \<open>Every archived file is compared with its original before anything is published.\<close>

fun verify_files :: "(bytes \<Rightarrow> string) \<Rightarrow> pack_disk \<Rightarrow> path \<Rightarrow> path list \<Rightarrow> py_error + unit" where
  "verify_files digest d t [] = Inr ()"
| "verify_files digest d t (p # ps) =
     (case read_member d t (snd p) of
        Inl _ \<Rightarrow> Inl KeyError
      | Inr b \<Rightarrow>
          (case map_of (pd_files d) p of
             None \<Rightarrow> Inl (RuntimeErr ''FileNotFoundError'')
           | Some original \<Rightarrow>
               if digest b \<noteq> digest original then Inl (ValueError ''Compaction checksum mismatch'')
               else verify_files digest d t ps))"

definition file_size :: "pack_disk \<Rightarrow> path \<Rightarrow> nat" where
  "file_size d p = (case map_of (pd_files d) p of None \<Rightarrow> 0 | Some b \<Rightarrow> length b)"

definition mapping_rows :: "pack_disk \<Rightarrow> manifest list \<Rightarrow> (string \<times> nat) list" where
  "mapping_rows d ms = map (\<lambda>m. (mf_id m, file_size d (mf_raw m) + file_size d (mf_parquet m))) ms"

text \<open>
  \<^verbatim>\<open>_pack_verified\<close>: the actions in order, and the number of packed segments or the
  error. \<^verbatim>\<open>INSERT\<close> into a table with a primary key refuses a second row of a segment.
\<close>

definition pack_verified ::
    "pack_env \<Rightarrow> (bytes \<Rightarrow> string) \<Rightarrow> manifest list \<Rightarrow> lease list \<Rightarrow> pack_disk \<Rightarrow> pack_action list \<times> (py_error + nat)" where
  "pack_verified env digest selected leases d =
     (let t = pe_target env; files = concat (map pack_files selected) in
      if map_of (pd_archives d) t \<noteq> None then ([], Inl (RuntimeErr ''FileExistsError''))
      else
        case take_segments env d selected (pe_views env) leases of
          Inl e \<Rightarrow> ([CreateArchive t], Inl e)
        | Inr (members, leases') \<Rightarrow>
            let filled = [CreateArchive t, FillArchive t (pe_written env members)];
                rows = mapping_rows d selected;
                published = filled @ [CommitMapping t rows]
            in case verify_files digest (fold apply_pack filled d) t files of
                 Inl e \<Rightarrow> (filled, Inl e)
               | Inr _ \<Rightarrow>
                   if \<not> distinct (map fst rows) \<or> list_ex (\<lambda>r. map_of (pd_packs d) (fst r) \<noteq> None) rows
                   then (filled, Inl (RuntimeErr ''IntegrityError''))
                   else
                     (case beat_all True (pe_last_view env) leases' of
                        Inl e \<Rightarrow> (published, Inl e)
                      | Inr _ \<Rightarrow> (published @ map UnlinkOriginal files, Inr (length selected))))"

text \<open>\<^verbatim>\<open>_pack\<close>: the batch is noted for the time of the run and dropped in every case.\<close>

definition pack_run ::
    "pack_env \<Rightarrow> (bytes \<Rightarrow> string) \<Rightarrow> manifest list \<Rightarrow> lease list \<Rightarrow> pack_disk \<Rightarrow> pack_action list \<times> (py_error + nat)" where
  "pack_run env digest selected leases d =
     (let t = pe_target env; (acts, result) = pack_verified env digest selected leases d
      in (NoteBatch t # acts @ [DropBatch t], result))"

subsection \<open>Selection and claims\<close>

definition file_exists :: "pack_disk \<Rightarrow> path \<Rightarrow> bool" where
  "file_exists d p \<longleftrightarrow> map_of (pd_files d) p \<noteq> None"

text \<open>Unpacked segments after the pruned boundary, oldest first, at most ten times the limit\<close>

definition pack_candidates :: "ms \<Rightarrow> nat \<Rightarrow> pack_disk \<Rightarrow> manifest list" where
  "pack_candidates through bound d =
     take (bound * 10) (sort_key mf_at_ms
       (filter (\<lambda>m. through < mf_max_ms m \<and> map_of (pd_packs d) (mf_id m) = None) (map snd (pd_segments d))))"

definition select_segments :: "ms \<Rightarrow> nat \<Rightarrow> ms \<Rightarrow> lease_row list \<Rightarrow> pack_disk \<Rightarrow> manifest list" where
  "select_segments through bound now rows d =
     take bound (filter (\<lambda>m. \<not> overlaps rows (mf_min_ms m) (mf_max_ms m) now None
         \<and> file_exists d (mf_raw m) \<and> file_exists d (mf_parquet m)) (pack_candidates through bound d))"

text \<open>Each exact range is claimed exclusively; a busy one is left out.\<close>

fun claim_ranges :: "ms \<Rightarrow> (manifest \<times> string) list \<Rightarrow> lease_row list \<Rightarrow> (manifest \<times> lease) list \<times> lease_row list" where
  "claim_ranges now [] rows = ([], rows)"
| "claim_ranges now ((m, i) # ms) rows =
     (case heartbeat now None True \<lparr>ls_id = i, ls_start = mf_min_ms m, ls_end = mf_max_ms m, ls_exclusive = True, ls_last_beat = 0\<rparr> rows of
        Inl _ \<Rightarrow> claim_ranges now ms rows
      | Inr (l, rows') \<Rightarrow> (case claim_ranges now ms rows' of (held, final) \<Rightarrow> ((m, l) # held, final)))"

datatype compact_result = NoBatch | DryRun nat | RangesBusy | Packed nat

definition compact ::
    "pack_env \<Rightarrow> (bytes \<Rightarrow> string) \<Rightarrow> ms \<Rightarrow> nat \<Rightarrow> bool \<Rightarrow> ms \<Rightarrow> string list \<Rightarrow> lease_row list \<Rightarrow> pack_disk
     \<Rightarrow> pack_action list \<times> (py_error + compact_result)" where
  "compact env digest through bound dry now lease_ids rows d =
     (let selected = select_segments through bound now rows d in
      if length selected < 2 then ([], Inr NoBatch)
      else if dry then ([], Inr (DryRun (length selected)))
      else
        let held = fst (claim_ranges now (zip selected lease_ids) rows) in
        if length held < 2 then ([], Inr RangesBusy)
        else
          case pack_run env digest (map fst held) (map snd held) d of
            (acts, Inl e) \<Rightarrow> (acts, Inl e)
          | (acts, Inr n) \<Rightarrow> (acts, Inr (Packed n)))"

text \<open>A crash after some of the actions\<close>

definition crash_after :: "nat \<Rightarrow> pack_action list \<Rightarrow> pack_disk \<Rightarrow> pack_disk" where
  "crash_after n acts d = fold apply_pack (take n acts) d"


subsection \<open>Nothing is lost\<close>

text \<open>
  The names the recorder gives: the raw file, the sidecar and the parquet file of a segment are named
  after its id, the sidecar holds the stored manifest, and a mapping names a segment of the database.
\<close>

definition named_after_id :: "string \<Rightarrow> manifest \<Rightarrow> bool" where
  "named_after_id dir m \<longleftrightarrow>
     mf_raw m = (dir, mf_id m @ RAW_SUFFIX) \<and> mf_parquet m = (dir, mf_id m @ ''.parquet'')"

definition store_wf :: "string \<Rightarrow> (bytes \<Rightarrow> manifest) \<Rightarrow> pack_disk \<Rightarrow> bool" where
  "store_wf dir decode d \<longleftrightarrow>
     (\<forall>(i, m) \<in> set (pd_segments d). i = mf_id m \<and> named_after_id dir m
        \<and> (\<forall>b. map_of (pd_files d) (sidecar (mf_raw m)) = Some b \<longrightarrow> decode b = m))
     \<and> distinct (map fst (pd_segments d)) \<and> distinct (map fst (pd_files d))"

lemma segment_name_raw [simp]: "segment_name (i @ RAW_SUFFIX) = i"
  by (simp add: segment_name_def RAW_SUFFIX_def Let_def)

lemma other_suffix:
  "i @ ''.parquet'' \<noteq> j @ RAW_SUFFIX" "i @ ''.manifest.json'' \<noteq> j @ RAW_SUFFIX"
  "i @ ''.parquet'' \<noteq> j @ ''.manifest.json''"
proof -
  have "last (i @ ''.parquet'') \<noteq> last (j @ RAW_SUFFIX)" "last (i @ ''.manifest.json'') \<noteq> last (j @ RAW_SUFFIX)"
    "last (i @ ''.parquet'') \<noteq> last (j @ ''.manifest.json'')"
    by (simp_all add: RAW_SUFFIX_def)
  then show "i @ ''.parquet'' \<noteq> j @ RAW_SUFFIX" "i @ ''.manifest.json'' \<noteq> j @ RAW_SUFFIX"
    "i @ ''.parquet'' \<noteq> j @ ''.manifest.json''" by metis+
qed

text \<open>
  What every crash state of a run keeps: files only disappear, all others are as they were, the
  archives that existed are untouched, and a file that is gone is in the new archive under a mapping.
\<close>

definition original_kept :: "pack_disk \<Rightarrow> path \<Rightarrow> manifest list \<Rightarrow> pack_disk \<Rightarrow> bool" where
  "original_kept d t ms d' \<longleftrightarrow>
     (\<forall>p b. map_of (pd_files d) p = Some b \<longrightarrow>
        map_of (pd_files d') p = Some b
        \<or> (\<exists>m \<in> set ms. p \<in> set (pack_files m) \<and> (\<exists>n. map_of (pd_packs d') (mf_id m) = Some (t, n))
             \<and> read_member d' t (snd p) = Inr b))"

definition rest_untouched :: "pack_disk \<Rightarrow> path \<Rightarrow> manifest list \<Rightarrow> pack_disk \<Rightarrow> bool" where
  "rest_untouched d t ms d' \<longleftrightarrow>
     pd_segments d' = pd_segments d
     \<and> (\<forall>p b. map_of (pd_files d') p = Some b \<longrightarrow> map_of (pd_files d) p = Some b)
     \<and> (\<forall>a. a \<noteq> t \<longrightarrow> map_of (pd_archives d') a = map_of (pd_archives d) a)
     \<and> (\<forall>i x. map_of (pd_packs d) i = Some x \<longrightarrow> map_of (pd_packs d') i = Some x)
     \<and> (\<forall>i. map_of (pd_packs d) i = None \<longrightarrow> map_of (pd_packs d') i = None \<or> i \<in> mf_id ` set ms)"

lemma filter_key_lookup: "map_of (filter (\<lambda>(q, _). q \<noteq> p) xs) r = (if r = p then None else map_of xs r)"
  by (induction xs) auto

lemma fold_unlink:
  "pd_archives (fold apply_pack (map UnlinkOriginal ps) d) = pd_archives d"
  "pd_packs (fold apply_pack (map UnlinkOriginal ps) d) = pd_packs d"
  "pd_segments (fold apply_pack (map UnlinkOriginal ps) d) = pd_segments d"
  "map_of (pd_files (fold apply_pack (map UnlinkOriginal ps) d)) p = (if p \<in> set ps then None else map_of (pd_files d) p)"
  by (induction ps arbitrary: d) (simp_all add: filter_key_lookup)

lemma verify_files_ok:
  assumes "verify_files digest d t ps = Inr ()" "inj digest" "p \<in> set ps" "map_of (pd_files d) p = Some b"
  shows "read_member d t (snd p) = Inr b"
  using assms(1,3)
proof (induction ps)
  case (Cons q qs)
  from Cons.prems(1) obtain c original where q: "read_member d t (snd q) = Inr c" "map_of (pd_files d) q = Some original"
    and same: "digest c = digest original" and rest: "verify_files digest d t qs = Inr ()"
    by (auto split: sum.splits option.splits if_splits)
  have "c = original" using same assms(2) by (simp only: inj_eq)
  with q Cons.IH [OF rest] Cons.prems(2) assms(4) show ?case by auto
qed simp

lemma map_of_rows:
  "(map_of (map (\<lambda>(i, n). (i, (t, n))) rows) ++ map_of xs) i =
    (case map_of xs i of Some x \<Rightarrow> Some x | None \<Rightarrow> map_option (Pair t) (map_of rows i))"
  by (induction rows) (auto simp: map_add_def split: option.split)


text \<open>The states that a run passes through\<close>

lemma kept_here: "original_kept d t ms d \<and> rest_untouched d t ms d"
  by (simp add: original_kept_def rest_untouched_def)

lemma take_segments_members:
  assumes "take_segments env d ms views leases = Inr (members, leases')" "m \<in> set ms" "p \<in> set (pack_files m)"
  shows "map_of (pd_files d) p \<noteq> None"
proof -
  have files: "take_files env d ps = Inr mem \<Longrightarrow> q \<in> set ps \<Longrightarrow> map_of (pd_files d) q \<noteq> None" for ps mem q
    by (induction ps arbitrary: mem) (auto split: if_splits option.splits sum.splits)
  show ?thesis
    using assms(1,2)
  proof (induction ms arbitrary: members views leases leases')
    case (Cons x xs)
    from Cons.prems(1) obtain mem rest l1 l2 where x: "take_files env d (pack_files x) = Inr mem"
      and xs: "take_segments env d xs (tl views) l1 = Inr (rest, l2)"
      by (auto split: sum.splits list.splits prod.splits)
    show ?case
    proof (cases "m = x")
      case True
      then show ?thesis using files [OF x] assms(3) by blast
    next
      case False
      then show ?thesis using Cons.IH [OF xs] Cons.prems(2) by simp
    qed
  qed simp
qed

text \<open>
  The new archive while it is written, the mapping once everything is verified, and the originals
  unlinked in order: each of these states keeps every file.
\<close>

lemma archive_only_kept:
  assumes "map_of (pd_archives d) t = None"
    and "pd_files d' = pd_files d" "pd_packs d' = pd_packs d" "pd_segments d' = pd_segments d"
    and "\<forall>a. a \<noteq> t \<longrightarrow> map_of (pd_archives d') a = map_of (pd_archives d) a"
  shows "original_kept d t ms d' \<and> rest_untouched d t ms d'"
  using assms by (simp add: original_kept_def rest_untouched_def)

lemma published_kept:
  assumes fresh: "map_of (pd_archives d) t = None"
    and verified: "\<And>p b. p \<in> set (concat (map pack_files ms)) \<Longrightarrow> map_of (pd_files d) p = Some b \<Longrightarrow> read_member d1 t (snd p) = Inr b"
    and d1: "pd_files d1 = pd_files d" "pd_packs d1 = pd_packs d" "pd_segments d1 = pd_segments d"
      "\<forall>a. a \<noteq> t \<longrightarrow> map_of (pd_archives d1) a = map_of (pd_archives d) a"
    and rows: "distinct (map fst rows)" "fst ` set rows = mf_id ` set ms" "\<forall>r \<in> set rows. map_of (pd_packs d) (fst r) = None"
    and d2: "d2 = fold apply_pack (map UnlinkOriginal ps) (apply_pack (CommitMapping t rows) d1)"
    and ps: "set ps \<subseteq> set (concat (map pack_files ms))"
  shows "original_kept d t ms d2 \<and> rest_untouched d t ms d2"
proof -
  have packs: "map_of (pd_packs d2) i = (case map_of (pd_packs d) i of Some x \<Rightarrow> Some x | None \<Rightarrow> map_option (Pair t) (map_of rows i))" for i
    by (simp add: d2 fold_unlink d1 map_of_rows)
  have files: "map_of (pd_files d2) p = (if p \<in> set ps then None else map_of (pd_files d) p)" for p
    by (simp add: d2 fold_unlink d1)
  have archives: "pd_archives d2 = pd_archives d1" "pd_segments d2 = pd_segments d"
    by (simp_all add: d2 fold_unlink d1)
  have mapped: "\<exists>n. map_of (pd_packs d2) (mf_id m) = Some (t, n)" if "m \<in> set ms" for m
  proof -
    from that rows(2) obtain r where r: "r \<in> set rows" "fst r = mf_id m" by (metis image_iff)
    then obtain n where "map_of rows (mf_id m) = Some n" using rows(1) by (metis map_of_is_SomeI prod.collapse)
    moreover have "map_of (pd_packs d) (mf_id m) = None" using rows(3) r by metis
    ultimately show ?thesis by (simp add: packs)
  qed
  have "original_kept d t ms d2"
    unfolding original_kept_def
  proof (intro allI impI)
    fix p b assume b: "map_of (pd_files d) p = Some b"
    show "map_of (pd_files d2) p = Some b \<or> (\<exists>m \<in> set ms. p \<in> set (pack_files m)
        \<and> (\<exists>n. map_of (pd_packs d2) (mf_id m) = Some (t, n)) \<and> read_member d2 t (snd p) = Inr b)"
    proof (cases "p \<in> set ps")
      case False
      then show ?thesis using b by (simp add: files)
    next
      case True
      then obtain m where m: "m \<in> set ms" "p \<in> set (pack_files m)" using ps by auto
      have "read_member d2 t (snd p) = Inr b"
        using verified [OF _ b] True ps by (auto simp: read_member_def archives)
      with m mapped show ?thesis by blast
    qed
  qed
  moreover have "rest_untouched d t ms d2"
    unfolding rest_untouched_def
  proof (intro conjI allI impI)
    show "pd_segments d2 = pd_segments d" by (rule archives)
    show "map_of (pd_files d) p = Some b" if "map_of (pd_files d2) p = Some b" for p b
      using that by (simp add: files split: if_splits)
    show "map_of (pd_archives d2) a = map_of (pd_archives d) a" if "a \<noteq> t" for a
      unfolding archives by (rule d1(4) [rule_format, OF that])
    show "map_of (pd_packs d2) i = Some x" if "map_of (pd_packs d) i = Some x" for i x using that by (simp add: packs)
    show "map_of (pd_packs d2) i = None \<or> i \<in> mf_id ` set ms" if "map_of (pd_packs d) i = None" for i
      using that rows(2) by (cases "map_of rows i") (simp add: packs, metis fst_conv image_eqI map_of_SomeD)
  qed
  ultimately show ?thesis by blast
qed


definition filled :: "path \<Rightarrow> (string \<times> bytes) list \<Rightarrow> pack_disk \<Rightarrow> pack_disk" where
  "filled t members d = apply_pack (FillArchive t members) (apply_pack (CreateArchive t) d)"

lemma filled_frame:
  "pd_files (filled t members d) = pd_files d" "pd_packs (filled t members d) = pd_packs d"
  "pd_segments (filled t members d) = pd_segments d"
  "a \<noteq> t \<Longrightarrow> map_of (pd_archives (filled t members d)) a = map_of (pd_archives d) a"
  by (simp_all add: filled_def update_conv')

definition batch_blind :: "pack_disk \<Rightarrow> pack_disk" where
  "batch_blind d = d\<lparr>pd_batches := []\<rparr>"

lemma kept_batches [simp]:
  "original_kept d t ms (d'\<lparr>pd_batches := bs\<rparr>) = original_kept d t ms d'"
  "rest_untouched d t ms (d'\<lparr>pd_batches := bs\<rparr>) = rest_untouched d t ms d'"
  by (simp_all add: original_kept_def rest_untouched_def read_member_def)

text \<open>The actions of a run, cut anywhere\<close>

lemma pack_verified_kept:
  assumes run: "pack_verified env digest ms leases d = (acts, result)"
    and digest: "inj digest" and t: "t = pe_target env"
  shows "original_kept d t ms (crash_after n acts d) \<and> rest_untouched d t ms (crash_after n acts d)"
proof (cases "map_of (pd_archives d) t = None")
  case False
  then have "acts = []" using run by (auto simp: pack_verified_def Let_def t)
  then show ?thesis using kept_here by (simp add: crash_after_def)
next
  case fresh: True
  let ?created = "apply_pack (CreateArchive t) d"
  have created: "original_kept d t ms ?created \<and> rest_untouched d t ms ?created"
    by (rule archive_only_kept [OF fresh]) simp_all
  show ?thesis
  proof (cases "take_segments env d ms (pe_views env) leases")
    case (Inl e)
    then have "acts = [CreateArchive t]" using run fresh by (simp add: pack_verified_def Let_def t)
    then show ?thesis using created kept_here by (cases n) (simp_all add: crash_after_def)
  next
    case (Inr x)
    then obtain members leases' where x: "take_segments env d ms (pe_views env) leases = Inr (members, leases')" by (cases x) auto
    let ?written = "pe_written env members" and ?rows = "mapping_rows d ms" and ?files = "concat (map pack_files ms)"
    let ?filled = "filled t ?written d"
    have fill: "original_kept d t ms ?filled \<and> rest_untouched d t ms ?filled"
      by (rule archive_only_kept [OF fresh]) (simp_all add: filled_frame)
    have short: "original_kept d t ms (crash_after n [CreateArchive t, FillArchive t ?written] d)
        \<and> rest_untouched d t ms (crash_after n [CreateArchive t, FillArchive t ?written] d)" for n
      using kept_here created fill by (auto simp: crash_after_def take_Cons filled_def simp del: apply_pack.simps split: nat.split)
    let ?ok = "verify_files digest ?filled t ?files = Inr () \<and> distinct (map fst ?rows)
      \<and> \<not> list_ex (\<lambda>r. map_of (pd_packs d) (fst r) \<noteq> None) ?rows"
    show ?thesis
    proof (cases ?ok)
      case False
      then have "acts = [CreateArchive t, FillArchive t ?written]"
        using run fresh x by (auto simp: pack_verified_def Let_def t filled_def split: sum.splits if_splits)
      then show ?thesis using short by simp
    next
      case ok: True
      then obtain k where acts: "acts = [CreateArchive t, FillArchive t ?written, CommitMapping t ?rows] @ map UnlinkOriginal (take k ?files)"
        using run fresh x
        by (auto simp: pack_verified_def Let_def t filled_def split: sum.splits if_splits intro: that [of 0] that [of "length ?files"])
      show ?thesis
      proof (cases "n \<le> 2")
        case True
        then have "take n acts = take n [CreateArchive t, FillArchive t ?written]" by (simp add: acts take_Cons split: nat.splits)
        then show ?thesis using short [of n] by (simp add: crash_after_def)
      next
        case False
        then obtain j where n: "n = Suc (Suc (Suc j))" by (metis Suc_leI le_Suc_eq not_le numeral_2_eq_2 old.nat.exhaust less_Suc_eq_0_disj not_less_eq_eq zero_le)
        let ?ps = "take j (take k ?files)"
        have crash: "crash_after n acts d = fold apply_pack (map UnlinkOriginal ?ps) (apply_pack (CommitMapping t ?rows) ?filled)"
          by (simp add: crash_after_def acts n filled_def take_map)
        have rows: "distinct (map fst ?rows)" "fst ` set ?rows = mf_id ` set ms" "\<forall>r \<in> set ?rows. map_of (pd_packs d) (fst r) = None"
        proof -
          show "distinct (map fst ?rows)" using ok by blast
          show "fst ` set ?rows = mf_id ` set ms" by (simp add: mapping_rows_def image_image)
          show "\<forall>r \<in> set ?rows. map_of (pd_packs d) (fst r) = None"
            using ok unfolding list_ex_iff by blast
        qed
        have verified: "read_member ?filled t (snd p) = Inr b" if "p \<in> set ?files" "map_of (pd_files d) p = Some b" for p b
          using verify_files_ok [OF _ digest that(1)] ok that(2) by (simp add: filled_frame)
        have "set ?ps \<subseteq> set ?files" by (meson order_trans set_take_subset)
        from published_kept [OF fresh verified filled_frame(1-3) _ rows crash this] show ?thesis
          by (simp add: filled_frame(4))
      qed
    qed
  qed
qed


lemma pack_run_kept:
  assumes run: "pack_run env digest ms leases d = (acts, result)" and digest: "inj digest" and t: "t = pe_target env"
  shows "original_kept d t ms (crash_after n acts d) \<and> rest_untouched d t ms (crash_after n acts d)"
proof -
  obtain inner where inner: "pack_verified env digest ms leases d = (inner, result)"
    and acts: "acts = NoteBatch t # inner @ [DropBatch t]"
    using run by (auto simp: pack_run_def Let_def t split: prod.splits)
  have blind: "crash_after m xs (d\<lparr>pd_batches := bs\<rparr>) = (crash_after m xs d)\<lparr>pd_batches := pd_batches (crash_after m xs (d\<lparr>pd_batches := bs\<rparr>))\<rparr>" for m xs bs
  proof -
    have "\<exists>cs. fold apply_pack ys (e\<lparr>pd_batches := bs\<rparr>) = (fold apply_pack ys e)\<lparr>pd_batches := cs\<rparr>" for ys e bs
    proof (induction ys arbitrary: e bs)
      case (Cons y ys)
      have "\<exists>cs. apply_pack y (e\<lparr>pd_batches := bs\<rparr>) = (apply_pack y e)\<lparr>pd_batches := cs\<rparr>"
        by (cases e; cases y) auto
      then show ?case using Cons.IH by auto
    qed auto
    then obtain cs where "crash_after m xs (d\<lparr>pd_batches := bs\<rparr>) = (crash_after m xs d)\<lparr>pd_batches := cs\<rparr>"
      unfolding crash_after_def by blast
    then show ?thesis by simp
  qed
  show ?thesis
  proof (cases n)
    case 0
    then show ?thesis using kept_here by (simp add: crash_after_def)
  next
    case (Suc m)
    have "crash_after n acts d = crash_after m (inner @ [DropBatch t]) (d\<lparr>pd_batches := t # pd_batches d\<rparr>)"
      by (simp add: Suc acts crash_after_def)
    moreover have "crash_after m (inner @ [DropBatch t]) d = crash_after m inner d
        \<or> (\<exists>bs. crash_after m (inner @ [DropBatch t]) d = (crash_after m inner d)\<lparr>pd_batches := bs\<rparr>)"
      by (cases "m \<le> length inner") (auto simp: crash_after_def take_Cons split: nat.splits)
    ultimately show ?thesis
      using pack_verified_kept [OF inner digest t, of m] blind [of m "inner @ [DropBatch t]"] kept_batches by metis
  qed
qed


subsection \<open>Readers never notice\<close>

lemma wf_segment:
  assumes "store_wf dir decode d" "(i, m) \<in> set (pd_segments d)"
  shows "i = mf_id m" "mf_raw m = (dir, mf_id m @ RAW_SUFFIX)" "mf_parquet m = (dir, mf_id m @ ''.parquet'')"
    "map_of (pd_segments d) (mf_id m) = Some m" "map_of (pd_files d) (sidecar (mf_raw m)) = Some b \<Longrightarrow> decode b = m"
  using assms by (auto simp: store_wf_def named_after_id_def)

lemma pack_files_named:
  assumes "store_wf dir decode d" "(i, m) \<in> set (pd_segments d)"
  shows "pack_files m = [(dir, mf_id m @ RAW_SUFFIX), (dir, mf_id m @ ''.parquet''), (dir, mf_id m @ ''.manifest.json'')]"
  using wf_segment [OF assms] by (simp add: pack_files_def with_name_def)

lemma sidecar_named: "sidecar (dir, i @ RAW_SUFFIX) = (dir, i @ ''.manifest.json'')"
  by (simp add: sidecar_def with_name_def)

lemma same_segment:
  assumes "p \<in> set [(dir, j @ RAW_SUFFIX), (dir, j @ ''.parquet''), (dir, j @ ''.manifest.json'')]"
    and "p = (dir, i @ RAW_SUFFIX) \<or> p = (dir, i @ ''.manifest.json'')"
  shows "j = i"
  using assms other_suffix [of i j] other_suffix [of j i] other_suffix [of j j] by (elim disjE) (auto dest: sym)

lemma gone_is_mapped:
  assumes wf: "store_wf dir decode d" and ms: "set ms \<subseteq> snd ` set (pd_segments d)"
    and kept: "original_kept d t ms d'" and m: "(i, m) \<in> set (pd_segments d)"
    and p: "p = mf_raw m \<or> p = sidecar (mf_raw m)" "map_of (pd_files d) p = Some c" "map_of (pd_files d') p = None"
  shows "\<exists>n. map_of (pd_packs d') (mf_id m) = Some (t, n) \<and> read_member d' t (snd p) = Inr c"
proof -
  from kept p(2,3) obtain m' n where m': "m' \<in> set ms" "p \<in> set (pack_files m')"
    "map_of (pd_packs d') (mf_id m') = Some (t, n)" "read_member d' t (snd p) = Inr c" unfolding original_kept_def by fastforce
  from m'(1) ms obtain j where j: "(j, m') \<in> set (pd_segments d)" by auto
  have "p = (dir, mf_id m @ RAW_SUFFIX) \<or> p = (dir, mf_id m @ ''.manifest.json'')"
    using p(1) by (simp add: wf_segment(2) [OF wf m] sidecar_named)
  then have "mf_id m' = mf_id m" by (rule same_segment [OF m'(2) [unfolded pack_files_named [OF wf j]]])
  then show ?thesis using m'(3,4) by auto
qed

lemma readers_unaffected:
  assumes wf: "store_wf dir decode d" and ms: "set ms \<subseteq> snd ` set (pd_segments d)"
    and kept: "original_kept d t ms d'" "rest_untouched d t ms d'" and fresh: "map_of (pd_archives d) t = None"
    and m: "(i, m) \<in> set (pd_segments d)"
  shows "raw_bytes d (mf_raw m) = Inr b \<Longrightarrow> raw_bytes d' (mf_raw m) = Inr b"
    and "manifest_for decode d (mf_raw m) = Inr x \<Longrightarrow> manifest_for decode d' (mf_raw m) = Inr x"
proof -
  note names = wf_segment [OF wf m]
  from kept(2) have segments: "pd_segments d' = pd_segments d"
    and same: "\<forall>p b. map_of (pd_files d') p = Some b \<longrightarrow> map_of (pd_files d) p = Some b"
    and archives: "\<forall>a. a \<noteq> t \<longrightarrow> map_of (pd_archives d') a = map_of (pd_archives d) a"
    and packs: "\<forall>i x. map_of (pd_packs d) i = Some x \<longrightarrow> map_of (pd_packs d') i = Some x"
    unfolding rest_untouched_def by blast+
  have packed: "packed_record e (mf_raw m) = map_option (\<lambda>x. (fst x, m)) (map_of (pd_packs e) (mf_id m))"
    if "pd_segments e = pd_segments d" for e
    using that names(2,4) by (simp add: packed_record_def split: option.split)
  note gone = gone_is_mapped [OF wf ms kept(1) m]
  have stays: "map_of (pd_files d') p = None" if "map_of (pd_files d) p = None" for p
    using same that by (metis not_Some_eq)
  show "raw_bytes d' (mf_raw m) = Inr b" if b: "raw_bytes d (mf_raw m) = Inr b"
  proof (cases "map_of (pd_files d') (mf_raw m)")
    case (Some c)
    then show ?thesis using b same by (simp add: raw_bytes_def)
  next
    case absent: None
    show ?thesis
    proof (cases "map_of (pd_files d) (mf_raw m)")
      case (Some c)
      then have "c = b" using b by (simp add: raw_bytes_def)
      then show ?thesis using gone [OF _ Some absent] absent by (auto simp: raw_bytes_def packed [OF segments])
    next
      case None
      then obtain a n where a: "map_of (pd_packs d) (mf_id m) = Some (a, n)" "read_member d a (snd (mf_raw m)) = Inr b"
        using b by (auto simp: raw_bytes_def packed split: option.splits)
      then have "a \<noteq> t" using fresh by (auto simp: read_member_def)
      then have "map_of (pd_archives d') a = map_of (pd_archives d) a" using archives by blast
      then have "read_member d' a (snd (mf_raw m)) = Inr b" using a(2) by (simp add: read_member_def)
      moreover have "map_of (pd_packs d') (mf_id m) = Some (a, n)" using packs a(1) by blast
      ultimately show ?thesis using absent by (simp add: raw_bytes_def packed [OF segments])
    qed
  qed
  show "manifest_for decode d' (mf_raw m) = Inr x" if x: "manifest_for decode d (mf_raw m) = Inr x"
  proof (cases "map_of (pd_files d') (sidecar (mf_raw m))")
    case (Some c)
    then show ?thesis using x same by (simp add: manifest_for_def)
  next
    case absent: None
    show ?thesis
    proof (cases "map_of (pd_files d) (sidecar (mf_raw m))")
      case (Some c)
      then have "x = m" using x names(5) by (simp add: manifest_for_def)
      then show ?thesis using gone [OF _ Some absent] absent by (auto simp: manifest_for_def packed [OF segments])
    next
      case None
      then obtain a where a: "map_of (pd_packs d) (mf_id m) = Some a" "x = m"
        using x by (auto simp: manifest_for_def packed split: option.splits)
      then have "map_of (pd_packs d') (mf_id m) = Some a" using packs by blast
      then show ?thesis using absent a(2) by (simp add: manifest_for_def packed [OF segments])
    qed
  qed
qed


lemma claimed_are_selected: "set (map fst (fst (claim_ranges now ms rows))) \<subseteq> fst ` set ms"
proof (induction ms arbitrary: rows)
  case (Cons x ms)
  obtain m i where x: "x = (m, i)" by (cases x)
  show ?case
  proof (cases "heartbeat now None True \<lparr>ls_id = i, ls_start = mf_min_ms m, ls_end = mf_max_ms m, ls_exclusive = True, ls_last_beat = 0\<rparr> rows")
    case (Inl e)
    then show ?thesis using Cons.IH [of rows] by (auto simp: x)
  next
    case (Inr y)
    then obtain l rows' where "y = (l, rows')" by (cases y)
    with Inr show ?thesis using Cons.IH [of rows'] by (force simp: x split: prod.splits)
  qed
qed simp

lemma compact_cases:
  assumes "compact env digest through bound dry now lease_ids rows d = (acts, result)"
  obtains "acts = []" "\<not> isl result"
  | ms leases inner where "set ms \<subseteq> snd ` set (pd_segments d)" "pack_run env digest ms leases d = (acts, inner)"
      "isl inner = isl result" "\<And>e. result = Inl e \<Longrightarrow> inner = Inl e"
proof -
  let ?selected = "select_segments through bound now rows d"
  let ?held = "fst (claim_ranges now (zip ?selected lease_ids) rows)"
  show thesis
  proof (cases "length ?selected < 2 \<or> dry \<or> length ?held < 2")
    case True
    then show thesis using assms by (intro that(1)) (auto simp: compact_def Let_def split: if_splits)
  next
    case False
    obtain inner where inner: "pack_run env digest (map fst ?held) (map snd ?held) d = (acts, inner)"
      and result: "result = (case inner of Inl e \<Rightarrow> Inl e | Inr n \<Rightarrow> Inr (Packed n))"
      using False assms by (auto simp: compact_def Let_def split: prod.splits sum.splits)
    have "set ?selected \<subseteq> snd ` set (pd_segments d)"
      unfolding select_segments_def pack_candidates_def
      by (auto dest!: in_set_takeD) 
    moreover have "set (map fst ?held) \<subseteq> set ?selected"
      using claimed_are_selected [of now "zip ?selected lease_ids" rows] by (auto dest!: set_zip_leftD)
    ultimately show thesis using inner result
      by (intro that(2) [of "map fst ?held" "map snd ?held" inner]) (auto split: sum.splits)
  qed
qed

text \<open>
  C26: wherever a compaction is interrupted, whatever the disk wrote into the
  archive, and whichever heartbeats failed: every raw segment of the database that could be read
  before is read with the same bytes, and every manifest with the same contents.
\<close>

theorem packing_is_lossless:
  assumes "store_wf dir decode d" and "map_of (pd_archives d) (pe_target env) = None" and "inj digest"
    and "compact env digest through bound dry now lease_ids rows d = (acts, result)"
    and "(i, m) \<in> set (pd_segments d)"
  shows "(\<forall>b. raw_bytes d (mf_raw m) = Inr b \<longrightarrow> raw_bytes (crash_after n acts d) (mf_raw m) = Inr b)
    \<and> (\<forall>x. manifest_for decode d (mf_raw m) = Inr x \<longrightarrow> manifest_for decode (crash_after n acts d) (mf_raw m) = Inr x)"
  using assms(4)
proof (cases rule: compact_cases)
  case 1
  then show ?thesis by (simp add: crash_after_def)
next
  case (2 ms leases inner)
  from pack_run_kept [OF 2(2) assms(3) refl] readers_unaffected [OF assms(1) 2(1) _ _ assms(2,5)]
  show ?thesis by blast
qed

lemma beat_all_error: "beat_all force v ls = Inl e \<Longrightarrow> e = busy"
  by (induction ls arbitrary: v) (auto simp: heartbeat_def Let_def split: sum.splits prod.splits if_splits)

lemma pack_verified_failed:
  assumes run: "pack_verified env digest ms leases d = (acts, Inl e)"
  shows "\<exists>k t w rows. acts = take k [CreateArchive t, FillArchive t w, CommitMapping t rows] \<and> (k \<le> 2 \<or> e = busy)"
proof -
  let ?t = "pe_target env"
  consider "acts = []" | "acts = [CreateArchive ?t]" | w where "acts = [CreateArchive ?t, FillArchive ?t w]"
    | w rows where "acts = [CreateArchive ?t, FillArchive ?t w, CommitMapping ?t rows]" "e = busy"
    using run by (auto simp: pack_verified_def Let_def dest: beat_all_error split: if_splits sum.splits prod.splits)
  then show ?thesis
  proof cases
    case 1
    then show ?thesis by (intro exI [of _ 0]) simp
  next
    case 2
    then show ?thesis by (intro exI [of _ 1]) simp
  next
    case (3 w)
    then show ?thesis by (intro exI [of _ 2] exI [of _ ?t] exI [of _ w]) simp
  next
    case (4 w rows)
    then show ?thesis by (intro exI [of _ 3] exI [of _ ?t] exI [of _ w] exI [of _ rows]) simp
  qed
qed

lemma quiet_actions:
  assumes "\<forall>a \<in> set acts. \<forall>p. a \<noteq> UnlinkOriginal p"
  shows "pd_files (fold apply_pack acts d) = pd_files d"
proof -
  have "pd_files (apply_pack a e) = pd_files e" if "\<forall>p. a \<noteq> UnlinkOriginal p" for a e using that by (cases a) auto
  then show ?thesis using assms by (induction acts arbitrary: d) auto
qed

lemma unpublished_actions:
  assumes "\<forall>a \<in> set acts. \<forall>t rows. a \<noteq> CommitMapping t rows"
  shows "pd_packs (fold apply_pack acts d) = pd_packs d"
proof -
  have "pd_packs (apply_pack a e) = pd_packs e" if "\<forall>t rows. a \<noteq> CommitMapping t rows" for a e using that by (cases a) auto
  then show ?thesis using assms by (induction acts arbitrary: d) auto
qed


definition sample_manifest :: "string \<Rightarrow> ms \<Rightarrow> manifest" where
  "sample_manifest i t =
     \<lparr>mf_id = i, mf_raw = (''segments'', i @ RAW_SUFFIX), mf_parquet = (''segments'', i @ ''.parquet''), mf_min_ms = t,
      mf_max_ms = t + 10, mf_at_ms = t\<rparr>"

definition sample_store :: pack_disk where
  "sample_store =
     \<lparr>pd_files = [((''segments'', ''a'' @ RAW_SUFFIX), ''AA''), ((''segments'', ''a.parquet''), ''PA''), ((''segments'', ''a.manifest.json''), ''a''),
        ((''segments'', ''b'' @ RAW_SUFFIX), ''BB''), ((''segments'', ''b.parquet''), ''PB''), ((''segments'', ''b.manifest.json''), ''b'')],
      pd_archives = [], pd_packs = [], pd_segments = [(''a'', sample_manifest ''a'' 100), (''b'', sample_manifest ''b'' 200)],
      pd_batches = []\<rparr>"

definition sample_pack_env :: pack_env where
  "sample_pack_env = \<lparr>pe_root = ''segments'', pe_symlink = (\<lambda>_. False), pe_target = (''packs'', ''t.zip''), pe_views = [],
     pe_last_view = (1000, []), pe_written = (\<lambda>x. x)\<rparr>"

abbreviation sample_decode :: "bytes \<Rightarrow> manifest" where
  "sample_decode b \<equiv> (if b = ''a'' then sample_manifest ''a'' 100 else sample_manifest ''b'' 200)"

lemma packing_is_lossless_witness:
  "let r = compact sample_pack_env id 0 5 False 1000 [''x'', ''y''] [] sample_store; d = crash_after 6 (fst r) sample_store in
   snd r = Inr (Packed 2) \<and> map_of (pd_files d) (''segments'', ''a.jsonl.gz'') = None
   \<and> raw_bytes d (''segments'', ''a.jsonl.gz'') = Inr ''AA''"
proof -
  let ?r = "compact sample_pack_env id 0 5 False 1000 [''x'', ''y''] [] sample_store"
  have wf: "store_wf ''segments'' sample_decode sample_store"
    by (simp add: store_wf_def sample_store_def named_after_id_def sample_manifest_def sidecar_def with_name_def
        segment_name_def RAW_SUFFIX_def)
  have name: "mf_raw (sample_manifest ''a'' 100) = (''segments'', ''a.jsonl.gz'')" by code_simp
  have "raw_bytes sample_store (''segments'', ''a.jsonl.gz'') = Inr ''AA''" by code_simp
  moreover have "(\<forall>b. raw_bytes sample_store (mf_raw (sample_manifest ''a'' 100)) = Inr b \<longrightarrow>
      raw_bytes (crash_after 6 (fst ?r) sample_store) (mf_raw (sample_manifest ''a'' 100)) = Inr b)"
    using packing_is_lossless [OF wf _ _ prod.collapse [symmetric, of ?r], of "''a''" "sample_manifest ''a'' 100" 6]
    by (simp add: sample_store_def)
  moreover have "snd ?r = Inr (Packed 2) \<and> map_of (pd_files (crash_after 6 (fst ?r) sample_store)) (''segments'', ''a.jsonl.gz'') = None"
    by code_simp
  ultimately show ?thesis by (simp only: Let_def name)
qed


end
