(* ===== verification/OutboxRest.thy ===== *)
theory OutboxRest imports Outbox begin

text \<open>
  The delivery machine of \<^verbatim>\<open>Notifier.deliver\<close> comes to rest: a measure on the phases
  of the pending attempts that every step decreases.
\<close>

subsection \<open>Deliveries come to an end\<close>

text \<open>How many steps an attempt can still make at most\<close>

fun steps_left :: "phase \<Rightarrow> nat" where
  "steps_left Started = 8"
| "steps_left (Checked _) = 7"
| "steps_left Claimed = 6"
| "steps_left Armed = 5"
| "steps_left Passed = 4"
| "steps_left Flagged = 3"
| "steps_left Waiting = 2"
| "steps_left (Finishing _ _ _) = 1"
| "steps_left (Returned _) = 0"

definition work_left :: "(nat \<Rightarrow> attempt option) \<Rightarrow> nat" where
  "work_left run = (\<Sum>n \<in> dom run. case run n of None \<Rightarrow> 0 | Some a \<Rightarrow> Suc (steps_left (at_phase a)))"

text \<open>A step in which no new attempt begins\<close>

definition settling_step :: "system \<Rightarrow> system \<Rightarrow> bool" where
  "settling_step s s' \<longleftrightarrow> deliver_step s s' \<and> dom (snd s') \<subseteq> dom (snd s)"

lemma look_up_steps: "steps_left (look_up d a) < 8"
  by (simp add: look_up_def Let_def)

lemma take_claim_steps: "take_claim d a safe = (d', p) \<Longrightarrow> steps_left p < 7"
  by (auto simp: take_claim_def Let_def split: option.splits if_splits)

lemma attempt_steps_left: "attempt_step (d, a) (d', a') \<Longrightarrow> steps_left (at_phase a') < steps_left (at_phase a)"
  by (cases rule: attempt_step.cases) (auto simp: look_up_steps dest: take_claim_steps)

lemma attempt_goes_on: "(\<exists>y. attempt_step (d, a) y) \<or> (\<exists>st. at_phase a = Returned st)"
proof (cases "at_phase a")
  case (Checked safe)
  then show ?thesis using attempt_step.claim by (metis surj_pair)
next
  case Waiting
  then show ?thesis using attempt_step.answers by (metis surj_pair)
qed (blast intro: attempt_step.intros)+

lemma settling_work:
  assumes "settling_step s s'" "finite (dom (snd s))"
  shows "work_left (snd s') < work_left (snd s) \<and> finite (dom (snd s'))"
proof -
  have fin: "finite (dom (snd s'))" using assms finite_subset by (auto simp: settling_step_def)
  from assms(1) have step: "deliver_step s s'" and dom: "dom (snd s') \<subseteq> dom (snd s)" by (auto simp: settling_step_def)
  from step show ?thesis
  proof cases
    case (spawn run n a d)
    then show ?thesis using dom by auto
  next
    case (moves run n a d d' a')
    have "dom (run(n \<mapsto> a')) = dom run" using moves(3) by auto
    moreover have "(\<Sum>m \<in> dom run. case (run(n \<mapsto> a')) m of None \<Rightarrow> 0 | Some b \<Rightarrow> Suc (steps_left (at_phase b)))
        < (\<Sum>m \<in> dom run. case run m of None \<Rightarrow> 0 | Some b \<Rightarrow> Suc (steps_left (at_phase b)))"
      using attempt_steps_left [OF moves(4)] moves assms(2)
      by (intro sum_strict_mono_ex1) (auto intro!: bexI [of _ n])
    ultimately show ?thesis using moves fin by (simp add: work_left_def)
  next
    case (crash run n a d)
    have "(\<Sum>m \<in> dom run - {n}. case (run(n := None)) m of None \<Rightarrow> 0 | Some b \<Rightarrow> Suc (steps_left (at_phase b)))
        = (\<Sum>m \<in> dom run - {n}. case run m of None \<Rightarrow> 0 | Some b \<Rightarrow> Suc (steps_left (at_phase b)))"
      by (rule sum.cong) auto
    moreover have "work_left run = Suc (steps_left (at_phase a))
        + (\<Sum>m \<in> dom run - {n}. case run m of None \<Rightarrow> 0 | Some b \<Rightarrow> Suc (steps_left (at_phase b)))"
      using crash assms(2) by (simp add: work_left_def sum.remove [of "dom run" n] domI)
    ultimately show ?thesis using crash fin by (simp add: work_left_def)
  qed
qed

lemma settling_run_work:
  assumes "(settling_step ^^ n) s s'" "finite (dom (snd s))"
  shows "n + work_left (snd s') \<le> work_left (snd s)"
  using assms
proof (induction n arbitrary: s)
  case 0
  then show ?case by simp
next
  case (Suc n)
  from relpowp_Suc_D2 [OF Suc.prems(1)] obtain m where m: "settling_step s m" "(settling_step ^^ n) m s'" by blast
  note work = settling_work [OF m(1) Suc.prems(2)]
  have "n + work_left (snd s') \<le> work_left (snd m)" by (rule Suc.IH [OF m(2) conjunct2 [OF work]])
  with work show ?case by linarith
qed




end
