(* ===== verification/Candles.thy ===== *)
theory Candles imports Features begin

text \<open>
  Causal candle features, \<^verbatim>\<open>src/bybit_flow/features.py\<close>: the validation of a
  window of closed candles (\<^verbatim>\<open>validate_bars\<close>), the confirmed swing points
  (\<^verbatim>\<open>pivots\<close>) and the readings that the setup rules are stated on
  (\<^verbatim>\<open>candle_features\<close>). The realized volatility, a square root of squared logarithms
  that no rule compares, is not modelled; candle values are finite by the number model, so of
  the first test of \<^verbatim>\<open>validate_bars\<close> the sign of the turnover remains.
\<close>

record bar = candle +
  cd_volume :: dec
  cd_turnover :: dec

definition bar_end :: "bar \<Rightarrow> ms" where
  "bar_end c = cd_start c + cd_interval c"

subsection \<open>Python slices from the end\<close>

text \<open>\<^verbatim>\<open>xs[-a:]\<close> and \<^verbatim>\<open>xs[-a:-b]\<close>; both clamp at the ends of the list.\<close>

definition last_n :: "nat \<Rightarrow> 'a list \<Rightarrow> 'a list" where
  "last_n a xs = drop (length xs - a) xs"

definition between_n :: "nat \<Rightarrow> nat \<Rightarrow> 'a list \<Rightarrow> 'a list" where
  "between_n a b xs = drop (length xs - a) (take (length xs - b) xs)"

text \<open>\<^verbatim>\<open>zip(xs, xs[1:])\<close>\<close>

definition adjacent :: "'a list \<Rightarrow> ('a \<times> 'a) list" where
  "adjacent xs = zip xs (tl xs)"

subsection \<open>validate_bars\<close>

definition bar_broken :: "ms \<Rightarrow> bar \<Rightarrow> bool" where
  "bar_broken asof c \<longleftrightarrow>
     bar_end c > asof
     \<or> min (min (cd_open c) (cd_high c)) (min (cd_low c) (cd_close c)) \<le> 0
     \<or> cd_high c < max (cd_open c) (cd_close c)
     \<or> cd_low c > min (cd_open c) (cd_close c)
     \<or> cd_volume c < 0"

definition joined :: "bar \<Rightarrow> bar \<Rightarrow> bool" where
  "joined a b \<longleftrightarrow> cd_start b = bar_end a \<and> cd_interval a = cd_interval b"

definition validate_bars :: "bar list \<Rightarrow> ms \<Rightarrow> py_error + unit" where
  "validate_bars bars asof =
     (if list_ex (\<lambda>c. cd_turnover c < 0) bars
      then Inl (ValueError ''Non-finite or negative candle values'')
      else if list_ex (bar_broken asof) bars then Inl (ValueError ''Invalid or unclosed candle'')
      else if list_ex (\<lambda>(a, b). \<not> joined a b) (adjacent bars)
      then Inl (ValueError ''Candle gap or duplicate'')
      else Inr ())"

subsection \<open>pivots\<close>

datatype swing_kind = High | Low

record pivot =
  pv_kind :: swing_kind
  pv_price :: dec
  pv_ms :: ms
  pv_available :: ms
  pv_index :: nat

definition extreme_of :: "swing_kind \<Rightarrow> bar \<Rightarrow> dec" where
  "extreme_of kind c = (case kind of High \<Rightarrow> cd_high c | Low \<Rightarrow> cd_low c)"

definition outermost :: "swing_kind \<Rightarrow> dec list \<Rightarrow> dec" where
  "outermost kind values = (case kind of High \<Rightarrow> Max (set values) | Low \<Rightarrow> Min (set values))"

definition pivot_at :: "bar list \<Rightarrow> nat \<Rightarrow> nat \<Rightarrow> nat \<Rightarrow> swing_kind \<Rightarrow> pivot list" where
  "pivot_at bars left right k kind =
     (let values = map (extreme_of kind) (take (left + right + 1) (drop (k - left) bars));
          v = extreme_of kind (bars ! k)
      in if v = outermost kind values \<and> count_list values v = 1
         then [\<lparr>pv_kind = kind, pv_price = v, pv_ms = bar_end (bars ! k),
                pv_available = bar_end (bars ! (k + right)), pv_index = k\<rparr>]
         else [])"

definition pivots :: "bar list \<Rightarrow> nat \<Rightarrow> nat \<Rightarrow> pivot list" where
  "pivots bars left right =
     concat (map (\<lambda>k. concat (map (pivot_at bars left right k) [High, Low]))
       [left ..< length bars - right])"

subsection \<open>The readings of candle_features\<close>

definition true_ranges :: "bar list \<Rightarrow> dec list" where
  "true_ranges bars =
     map (\<lambda>(p, c). max (cd_high c - cd_low c)
                     (max \<bar>cd_high c - cd_close p\<bar> \<bar>cd_low c - cd_close p\<bar>)) (adjacent bars)"

definition slope_of :: "dec list \<Rightarrow> dec \<Rightarrow> dec" where
  "slope_of closes atr = (mean (last_n 20 closes) - mean (between_n 25 5 closes)) / (5 * atr)"

definition price_path :: "dec list \<Rightarrow> dec" where
  "price_path closes = sum_list (map (\<lambda>(a, b). \<bar>b - a\<bar>) (zip (last_n 21 closes) (last_n 20 closes)))"

definition efficiency_of :: "dec list \<Rightarrow> dec" where
  "efficiency_of closes =
     (if price_path closes \<noteq> 0
      then \<bar>last closes - closes ! (length closes - 21)\<bar> / price_path closes else 0)"

datatype trend = Up | Down | Ranging | Uncertain

definition prices_of :: "swing_kind \<Rightarrow> pivot list \<Rightarrow> dec list" where
  "prices_of kind swings = map pv_price (filter (\<lambda>s. pv_kind s = kind) swings)"

text \<open>The last price and the one before it, when there are two.\<close>

definition last_two :: "dec list \<Rightarrow> (dec \<times> dec) option" where
  "last_two prices =
     (if length prices \<ge> 2 then Some (prices ! (length prices - 2), last prices) else None)"

definition structure_of :: "pivot list \<Rightarrow> trend" where
  "structure_of swings =
     (case (last_two (prices_of High swings), last_two (prices_of Low swings)) of
        (Some (h1, h2), Some (l1, l2)) \<Rightarrow>
          if h2 > h1 \<and> l2 > l1 then Up
          else if h2 < h1 \<and> l2 < l1 then Down
          else Ranging
      | _ \<Rightarrow> Uncertain)"

datatype regime = Disorder | TrendingUp | TrendingDown | RangeBound | UncertainRegime

definition regime_of :: "dec list \<Rightarrow> dec \<Rightarrow> dec \<Rightarrow> trend \<Rightarrow> dec \<Rightarrow> dec \<Rightarrow> regime" where
  "regime_of tr atr close str slope eff =
     (if mean (last_n 5 tr) > 2 * mean (between_n 55 5 tr) \<or> atr / close > 8 / 100 then Disorder
      else if str = Up \<and> slope > 4 / 100 \<and> eff > 1 / 4 then TrendingUp
      else if str = Down \<and> slope < - 4 / 100 \<and> eff > 1 / 4 then TrendingDown
      else if eff < 1 / 4 \<and> \<bar>slope\<bar> < 15 / 100 then RangeBound
      else UncertainRegime)"

text \<open>Only the swings that were known before the triggering candle opened.\<close>

definition known_swings :: "bar list \<Rightarrow> pivot list" where
  "known_swings bars = filter (\<lambda>s. pv_available s \<le> cd_start (last bars)) (pivots bars 3 3)"

definition known_level :: "swing_kind \<Rightarrow> bar list \<Rightarrow> dec" where
  "known_level kind bars =
     (let ks = prices_of kind (known_swings bars)
      in if ks \<noteq> [] then last ks
         else outermost kind (map (extreme_of kind) (between_n 21 1 bars)))"

definition equal_levels :: "bar list \<Rightarrow> dec \<Rightarrow> (swing_kind \<times> dec) list" where
  "equal_levels bars atr =
     concat (map (\<lambda>kind. case last_two (prices_of kind (known_swings bars)) of
                 None \<Rightarrow> []
               | Some (a, b) \<Rightarrow> if \<bar>b - a\<bar> \<le> atr / 10 then [(kind, mean [b, a])] else [])
       [High, Low])"

subsection \<open>Gaps and order blocks\<close>

record price_gap =
  gp_direction :: direction
  gp_low :: dec
  gp_high :: dec
  gp_available :: ms

definition fvg_at :: "bar list \<Rightarrow> dec list \<Rightarrow> nat \<Rightarrow> price_gap list" where
  "fvg_at bars tr i =
     (let a = bars ! (i - 2); b = bars ! (i - 1); c = bars ! i;
          local_atr = mean (drop (i - 14) (take i tr));
          rest = drop (i + 1) bars
      in if \<bar>cd_close b - cd_open b\<bar> < local_atr \<or> cd_high b - cd_low b < 12 / 10 * local_atr then []
         else
           (if cd_low c - cd_high a > local_atr / 10 \<and> \<not> list_ex (\<lambda>x. cd_low x \<le> cd_high a) rest
            then [\<lparr>gp_direction = LONG, gp_low = cd_high a, gp_high = cd_low c, gp_available = bar_end c\<rparr>]
            else [])
           @ (if cd_low a - cd_high c > local_atr / 10 \<and> \<not> list_ex (\<lambda>x. cd_high x \<ge> cd_low a) rest
              then [\<lparr>gp_direction = SHORT, gp_low = cd_high c, gp_high = cd_low a, gp_available = bar_end c\<rparr>]
              else []))"

definition fvgs :: "bar list \<Rightarrow> dec list \<Rightarrow> price_gap list" where
  "fvgs bars tr = concat (map (fvg_at bars tr) [max 2 (length bars - 20) ..< length bars])"

text \<open>A break of structure: the last close crosses the known level.\<close>

definition bos_of :: "bar list \<Rightarrow> dec \<Rightarrow> dec \<Rightarrow> trend option" where
  "bos_of bars high low =
     (let final = last bars; prev = bars ! (length bars - 2) in
      if cd_close prev \<le> high \<and> high < cd_close final then Some Up
      else if cd_close prev \<ge> low \<and> low > cd_close final then Some Down
      else None)"

record block =
  bl_side :: trend
  bl_low :: dec
  bl_high :: dec
  bl_available :: ms
  bl_invalidation :: dec

definition opposing_candle :: "trend \<Rightarrow> bar \<Rightarrow> bool" where
  "opposing_candle side c \<longleftrightarrow>
     (side = Up \<and> cd_close c < cd_open c) \<or> (side = Down \<and> cd_close c > cd_open c)"

definition order_blocks :: "bar list \<Rightarrow> dec \<Rightarrow> trend option \<Rightarrow> block list" where
  "order_blocks bars atr bos =
     (case bos of
        None \<Rightarrow> []
      | Some side \<Rightarrow>
          if \<bar>cd_close (last bars) - cd_open (last bars)\<bar> \<ge> atr then
            case find (opposing_candle side) (rev (between_n 11 1 bars)) of
              None \<Rightarrow> []
            | Some c \<Rightarrow>
                [\<lparr>bl_side = side, bl_low = cd_low c, bl_high = cd_high c,
                  bl_available = bar_end (last bars),
                  bl_invalidation = (if side = Up then cd_low c else cd_high c)\<rparr>]
          else [])"

subsection \<open>Calendar periods\<close>

definition DAY_MS :: ms where "DAY_MS = 86400000"

definition day_of :: "bar list \<Rightarrow> ms" where
  "day_of bars = (bar_end (last bars) - 1) div DAY_MS * DAY_MS"

definition week_of :: "ms \<Rightarrow> ms" where
  "week_of day = ((day div DAY_MS + 3) div 7 * 7 - 3) * DAY_MS"

record period =
  pe_high :: dec
  pe_low :: dec
  pe_complete :: bool

definition period_of :: "bar list \<Rightarrow> ms \<Rightarrow> ms \<Rightarrow> period option" where
  "period_of bars start until =
     (let subset = filter (\<lambda>c. cd_start c \<ge> start \<and> bar_end c \<le> until) bars in
      if subset = [] then None
      else Some \<lparr>pe_high = Max (set (map cd_high subset)), pe_low = Min (set (map cd_low subset)),
                 pe_complete = (cd_start (hd subset) = start \<and> bar_end (last subset) = until)\<rparr>)"

definition session_of :: "bar list \<Rightarrow> bar list" where
  "session_of bars = filter (\<lambda>c. cd_start c \<ge> day_of bars) bars"

definition session_vwap :: "bar list \<Rightarrow> dec option" where
  "session_vwap bars =
     (let vol = sum_list (map cd_volume (session_of bars)) in
      if vol \<noteq> 0 then Some (sum_list (map cd_turnover (session_of bars)) / vol) else None)"

subsection \<open>candle_features\<close>

record candle_row =
  ft_asof :: ms
  ft_regime :: regime
  ft_atr :: dec
  ft_ma20 :: dec
  ft_slope :: dec
  ft_efficiency :: dec
  ft_structure :: trend
  ft_swings :: "pivot list"
  ft_internal :: "pivot list"
  ft_high :: dec
  ft_low :: dec
  ft_equal_levels :: "(swing_kind \<times> dec) list"
  ft_bos :: "trend option"
  ft_choch :: "trend option"
  ft_sweep_long :: bool
  ft_sweep_short :: bool
  ft_potential_sweep_long :: bool
  ft_potential_sweep_short :: bool
  ft_fvg :: "price_gap list"
  ft_order_blocks :: "block list"
  ft_premium_discount :: "dec option"
  ft_session :: "period option"
  ft_prior_day :: "period option"
  ft_prior_week :: "period option"
  ft_session_vwap :: "dec option"
  ft_session_vwap_complete :: bool
  ft_volume_expansion :: dec

definition volume_expansion :: "bar list \<Rightarrow> dec" where
  "volume_expansion bars =
     (let volumes = map cd_volume (between_n 21 1 bars) in
      if sum_list volumes \<noteq> 0 then cd_volume (last bars) / mean volumes else 0)"

definition readings :: "bar list \<Rightarrow> dec \<Rightarrow> candle_row" where
  "readings bars atr =
     (let final = last bars; closes = map cd_close bars; tr = true_ranges bars;
          slope = slope_of closes atr; eff = efficiency_of closes;
          swings = pivots bars 3 3; str = structure_of swings;
          high = known_level High bars; low = known_level Low bars;
          bos = bos_of bars high low; day = day_of bars; week = week_of day
      in \<lparr>ft_asof = bar_end final,
          ft_regime = regime_of tr atr (cd_close final) str slope eff,
          ft_atr = atr, ft_ma20 = mean (last_n 20 closes), ft_slope = slope,
          ft_efficiency = eff, ft_structure = str,
          ft_swings = last_n 20 swings, ft_internal = last_n 12 (pivots bars 2 2),
          ft_high = high, ft_low = low,
          ft_equal_levels = equal_levels bars atr,
          ft_bos = bos,
          ft_choch = (case bos of None \<Rightarrow> None
                      | Some side \<Rightarrow> if str \<in> {Up, Down} \<and> side \<noteq> str then Some side else None),
          ft_sweep_long = (cd_low final < low \<and> cd_close final > low),
          ft_sweep_short = (cd_high final > high \<and> cd_close final < high),
          ft_potential_sweep_long = (cd_low final < low),
          ft_potential_sweep_short = (cd_high final > high),
          ft_fvg = fvgs bars tr,
          ft_order_blocks = order_blocks bars atr bos,
          ft_premium_discount = (if high > low then Some ((cd_close final - low) / (high - low)) else None),
          ft_session = period_of bars day (bar_end final),
          ft_prior_day = period_of bars (day - DAY_MS) day,
          ft_prior_week = period_of bars (week - 7 * DAY_MS) week,
          ft_session_vwap = session_vwap bars,
          ft_session_vwap_complete =
            (session_of bars \<noteq> [] \<and> cd_start (hd (session_of bars)) = day),
          ft_volume_expansion = volume_expansion bars\<rparr>)"

definition atr_of :: "bar list \<Rightarrow> dec" where
  "atr_of bars = mean (last_n 14 (true_ranges bars))"

definition candle_features :: "bar list \<Rightarrow> ms \<Rightarrow> py_error + candle_row" where
  "candle_features bars asof =
     (case validate_bars bars asof of
        Inl e \<Rightarrow> Inl e
      | Inr _ \<Rightarrow>
          if length bars < 60 then Inl (ValueError ''Need at least 60 closed candles'')
          else if atr_of bars \<le> 0 then Inl (ValueError ''Zero ATR'')
          else Inr (readings bars (atr_of bars)))"


section \<open>Correctness\<close>

subsection \<open>Validated windows\<close>

lemma adjacent_Cons: "adjacent (a # b # xs) = (a, b) # adjacent (b # xs)"
  by (simp add: adjacent_def)

lemma adjacent_nth:
  "Suc i < length xs \<Longrightarrow> (xs ! i, xs ! Suc i) \<in> set (adjacent xs)"
  by (auto simp: adjacent_def in_set_zip nth_tl intro!: exI [of _ i])

definition spaced :: "bar list \<Rightarrow> bool" where
  "spaced bars \<longleftrightarrow> list_all (\<lambda>b. 0 < cd_interval b) bars"

lemma validated:
  assumes "validate_bars bars asof = Inr ()"
  shows "list_all (\<lambda>c. \<not> bar_broken asof c) bars"
    and "list_all (\<lambda>(a, b). joined a b) (adjacent bars)"
  using assms
  by (auto simp: validate_bars_def list_ex_iff list_all_iff split: if_splits)

lemma validated_next:
  assumes "validate_bars bars asof = Inr ()" and "Suc i < length bars"
  shows "cd_start (bars ! Suc i) = bar_end (bars ! i)"
  using validated(2) [OF assms(1)] adjacent_nth [OF assms(2)]
  by (fastforce simp: list_all_iff joined_def)

lemma bar_end_mono:
  assumes v: "validate_bars bars asof = Inr ()" and sp: "spaced bars"
    and ij: "i < j" and j: "j < length bars"
  shows "bar_end (bars ! i) < bar_end (bars ! j)"
  using ij j
proof (induction j)
  case (Suc j)
  have pos: "0 < cd_interval (bars ! Suc j)"
    using sp Suc.prems(2) by (auto simp: spaced_def list_all_iff)
  have "bar_end (bars ! j) < bar_end (bars ! Suc j)"
    using validated_next [OF v Suc.prems(2)] pos by (simp add: bar_end_def [of "bars ! Suc j"])
  then show ?case using Suc by (cases "i = j") auto
qed simp

lemma bar_end_asof:
  assumes "validate_bars bars asof = Inr ()" and "i < length bars"
  shows "bar_end (bars ! i) \<le> asof"
  using validated(1) [OF assms(1)] nth_mem [OF assms(2)]
  unfolding list_all_iff bar_broken_def by (meson not_le)

subsection \<open>Swings are history\<close>

lemma pivot_at_fields:
  assumes "s \<in> set (pivot_at bars l r k kind)"
  shows "pv_kind s = kind" "pv_index s = k" "pv_available s = bar_end (bars ! (k + r))"
    "pv_ms s = bar_end (bars ! k)" "pv_price s = extreme_of kind (bars ! k)"
  using assms by (auto simp: pivot_at_def Let_def split: if_splits)

lemma pivot_at_append:
  assumes "l \<le> k" and "k + r < length xs"
  shows "pivot_at (xs @ ys) l r k kind = pivot_at xs l r k kind"
proof -
  have w: "take (l + r + 1) (drop (k - l) (xs @ ys)) = take (l + r + 1) (drop (k - l) xs)"
    using assms by simp
  have k: "(xs @ ys) ! k = xs ! k" "(xs @ ys) ! (k + r) = xs ! (k + r)"
    using assms by (simp_all add: nth_append)
  show ?thesis unfolding pivot_at_def w k ..
qed

lemma pivots_split:
  "pivots (xs @ ys) l r =
     pivots xs l r
     @ concat (map (\<lambda>k. concat (map (pivot_at (xs @ ys) l r k) [High, Low]))
         [max l (length xs - r) ..< length (xs @ ys) - r])"
proof -
  let ?g = "\<lambda>k. concat (map (pivot_at (xs @ ys) l r k) [High, Low])"
  have ks: "[l ..< length (xs @ ys) - r] =
      [l ..< length xs - r] @ [max l (length xs - r) ..< length (xs @ ys) - r]"
  proof (cases "l \<le> length xs - r")
    case True
    have e: "length xs - r + (length (xs @ ys) - r - (length xs - r)) = length (xs @ ys) - r"
      by (simp add: diff_le_mono)
    show ?thesis
      using upt_add_eq_append [OF True, of "length (xs @ ys) - r - (length xs - r)"] True
      unfolding e by (simp add: max_def)
  qed (simp add: max_def)
  have same: "map ?g [l ..< length xs - r]
      = map (\<lambda>k. concat (map (pivot_at xs l r k) [High, Low])) [l ..< length xs - r]"
  proof (rule map_cong [OF refl])
    fix k assume "k \<in> set [l ..< length xs - r]"
    then have "l \<le> k" "k + r < length xs" by auto
    then show "?g k = concat (map (pivot_at xs l r k) [High, Low])"
      by (simp add: pivot_at_append)
  qed
  show ?thesis by (simp only: pivots_def ks map_append concat_append same)
qed

lemma pivots_members:
  assumes "s \<in> set (pivots bars l r)"
  obtains k kind where "l \<le> k" "k + r < length bars" "s \<in> set (pivot_at bars l r k kind)"
  using assms that by (fastforce simp: pivots_def)

lemma pivots_history:
  assumes valid: "validate_bars (old @ new) asof = Inr ()" and sp: "spaced (old @ new)"
    and ne: "old \<noteq> []"
  shows "filter (\<lambda>s. pv_available s \<le> bar_end (last old)) (pivots (old @ new) left right)
       = pivots old left right"
proof -
  let ?bars = "old @ new"
  have final: "bar_end (last old) = bar_end (?bars ! (length old - 1))"
    using ne by (simp add: last_conv_nth nth_append)
  have past: "pv_available s \<le> bar_end (last old)" if "s \<in> set (pivots old left right)" for s
  proof -
    from that obtain k kind where k: "k + right < length old"
      and s: "s \<in> set (pivot_at old left right k kind)" by (rule pivots_members)
    have "pv_available s = bar_end (?bars ! (k + right))"
      using pivot_at_fields(3) [OF s] k by (simp add: nth_append)
    also have "\<dots> \<le> bar_end (?bars ! (length old - 1))"
      using bar_end_mono [OF valid sp, of "k + right" "length old - 1"] k
      by (cases "k + right = length old - 1") (simp_all add: less_imp_le)
    finally show ?thesis using final by simp
  qed
  have future: "bar_end (last old) < pv_available s"
    if "s \<in> set (concat (map (\<lambda>k. concat (map (pivot_at ?bars left right k) [High, Low]))
          [max left (length old - right) ..< length ?bars - right]))" for s
  proof -
    from that obtain k kind where "max left (length old - right) \<le> k"
      and k': "k < length ?bars - right" and s: "s \<in> set (pivot_at ?bars left right k kind)"
      by auto
    then have k: "length old \<le> k + right" "k + right < length ?bars" by linarith+
    have "bar_end (?bars ! (length old - 1)) < bar_end (?bars ! (k + right))"
      using bar_end_mono [OF valid sp, of "length old - 1" "k + right"] k ne
      by (cases old) auto
    then show ?thesis using pivot_at_fields(3) [OF s] final by simp
  qed
  show ?thesis
    unfolding pivots_split filter_append
    using past future by (auto simp: filter_id_conv filter_empty_conv not_le simp del: set_concat)
qed

text \<open>C37: c#swings_never_repaint:
  A confirmed swing is final. Over a validated window, the swings that were available when the
  earlier part of it had closed are exactly, and in the same order, the swings computed from
  that earlier part alone: later candles neither add a swing to the past, nor remove or move
  one. So the same rule gives the same levels live and in a replay over a longer history.\<close>

theorem swings_never_repaint:
  assumes valid: "validate_bars (old @ new) asof = Inr ()" and sp: "spaced (old @ new)"
    and ne: "old \<noteq> []"
  shows "filter (\<lambda>s. pv_available s \<le> bar_end (last old)) (pivots (old @ new) left right)
       = pivots old left right"
  by (rule pivots_history [OF valid sp ne])

subsection \<open>The levels of a trigger\<close>

lemma candle_features_cases:
  assumes "candle_features bars asof = Inr f"
  obtains "validate_bars bars asof = Inr ()" "60 \<le> length bars" "0 < atr_of bars"
    "f = readings bars (atr_of bars)"
  using assms by (auto simp: candle_features_def split: sum.splits if_splits)

lemma known_swings_snoc:
  assumes v: "validate_bars (hist @ [b]) asof = Inr ()" and sp: "spaced (hist @ [b])"
    and ne: "hist \<noteq> []"
  shows "known_swings (hist @ [b]) = pivots hist 3 3"
proof -
  have "cd_start b = bar_end (last hist)"
    using validated_next [OF v, of "length hist - 1"] ne
    by (cases hist rule: rev_cases) (auto simp: nth_append)
  then show ?thesis
    using pivots_history [OF v sp ne, of 3 3] by (simp add: known_swings_def)
qed

lemma between_n_snoc: "between_n 21 1 (hist @ [b]) = last_n 20 hist"
  by (simp add: between_n_def last_n_def)

definition prior_level :: "swing_kind \<Rightarrow> bar list \<Rightarrow> dec" where
  "prior_level kind hist =
     (let ks = prices_of kind (pivots hist 3 3)
      in if ks \<noteq> [] then last ks else outermost kind (map (extreme_of kind) (last_n 20 hist)))"

lemma known_level_snoc:
  assumes "validate_bars (hist @ [b]) asof = Inr ()" and "spaced (hist @ [b])" and "hist \<noteq> []"
  shows "known_level kind (hist @ [b]) = prior_level kind hist"
  unfolding known_level_def prior_level_def known_swings_snoc [OF assms] between_n_snoc ..

lemma readings_levels:
  assumes f: "candle_features (hist @ [b]) asof = Inr f" and sp: "spaced (hist @ [b])"
  shows "ft_high f = prior_level High hist" "ft_low f = prior_level Low hist"
    "ft_sweep_long f \<longleftrightarrow> cd_low b < prior_level Low hist \<and> prior_level Low hist < cd_close b"
    "ft_sweep_short f \<longleftrightarrow> cd_high b > prior_level High hist \<and> prior_level High hist > cd_close b"
    "ft_bos f = Some Up \<longleftrightarrow>
       cd_close (last hist) \<le> prior_level High hist \<and> prior_level High hist < cd_close b"
proof -
  from f obtain v: "validate_bars (hist @ [b]) asof = Inr ()"
    and len: "60 \<le> length (hist @ [b])" and eq: "f = readings (hist @ [b]) (atr_of (hist @ [b]))"
    by (rule candle_features_cases)
  have ne: "hist \<noteq> []" using len by auto
  note lv = known_level_snoc [OF v sp ne]
  have prev: "(hist @ [b]) ! (length (hist @ [b]) - 2) = last hist"
    using ne by (cases hist rule: rev_cases) (auto simp: nth_append)
  show "ft_high f = prior_level High hist" "ft_low f = prior_level Low hist"
    "ft_sweep_long f \<longleftrightarrow> cd_low b < prior_level Low hist \<and> prior_level Low hist < cd_close b"
    "ft_sweep_short f \<longleftrightarrow> cd_high b > prior_level High hist \<and> prior_level High hist > cd_close b"
    "ft_bos f = Some Up \<longleftrightarrow>
       cd_close (last hist) \<le> prior_level High hist \<and> prior_level High hist < cd_close b"
    unfolding eq readings_def Let_def lv bos_of_def prev by auto
qed

text \<open>C#trigger_levels_are_prior:
  The levels that a triggering candle is measured against do not depend on it. Whatever the
  last candle is, the two levels of the features are those of the candles before it, so two
  different last candles see the same levels, a sweep or a break of structure is a statement
  about the last candle against a past level, and no candle can set the level it sweeps.\<close>

theorem trigger_levels_are_prior:
  assumes f: "candle_features (hist @ [b]) asof = Inr f"
    and g: "candle_features (hist @ [c]) asof' = Inr g"
    and sp: "spaced (hist @ [b])" "spaced (hist @ [c])"
  shows "ft_high f = ft_high g \<and> ft_low f = ft_low g
    \<and> (ft_sweep_long f \<longleftrightarrow> cd_low b < ft_low g \<and> ft_low g < cd_close b)
    \<and> (ft_sweep_short f \<longleftrightarrow> cd_high b > ft_high g \<and> ft_high g > cd_close b)
    \<and> (ft_bos f = Some Up \<longleftrightarrow> cd_close (last hist) \<le> ft_high g \<and> ft_high g < cd_close b)"
  using readings_levels [OF f sp(1)] readings_levels [OF g sp(2)] by simp

subsection \<open>The readings in bounds\<close>

lemma telescope:
  "xs \<noteq> [] \<Longrightarrow> \<bar>last xs - hd xs\<bar> \<le> sum_list (map (\<lambda>(a, b). \<bar>b - a :: dec\<bar>) (adjacent xs))"
proof (induction xs rule: induct_list012)
  case (3 x y zs)
  have "\<bar>last (x # y # zs) - x\<bar> \<le> \<bar>last (y # zs) - y\<bar> + \<bar>y - x\<bar>" by simp
  then show ?case using 3 by (simp add: adjacent_Cons)
qed (simp_all add: adjacent_def)

lemma price_path_adjacent:
  assumes "21 \<le> length closes"
  shows "price_path closes = sum_list (map (\<lambda>(a, b). \<bar>b - a\<bar>) (adjacent (last_n 21 closes)))"
proof -
  have "last_n 20 closes = tl (last_n 21 closes)"
    using assms by (simp add: last_n_def tl_drop [symmetric] drop_Suc [symmetric] Suc_diff_le)
      (metis Suc_diff_le diff_Suc_Suc drop_Suc eval_nat_numeral(3) numeral_eq_Suc pred_numeral_simps(3) tl_drop)
  then show ?thesis by (simp add: price_path_def adjacent_def)
qed

lemma efficiency_bounds:
  assumes "21 \<le> length closes"
  shows "0 \<le> efficiency_of closes \<and> efficiency_of closes \<le> 1"
proof -
  have ne: "last_n 21 closes \<noteq> []" using assms by (simp add: last_n_def)
  have ends: "last (last_n 21 closes) = last closes" "hd (last_n 21 closes) = closes ! (length closes - 21)"
    using assms by (simp_all add: last_n_def last_drop hd_drop_conv_nth)
  have path: "\<bar>last closes - closes ! (length closes - 21)\<bar> \<le> price_path closes"
    using telescope [OF ne] price_path_adjacent [OF assms] ends by simp
  then have "0 \<le> price_path closes" by linarith
  then show ?thesis using path
    by (cases "price_path closes = 0") (auto simp: efficiency_of_def field_simps)
qed

definition sound_bar :: "bar \<Rightarrow> bool" where
  "sound_bar c \<longleftrightarrow> 0 < cd_low c \<and> cd_low c \<le> cd_high c \<and> 0 \<le> cd_volume c \<and> 0 \<le> cd_turnover c
     \<and> cd_low c \<le> cd_open c \<and> cd_low c \<le> cd_close c
     \<and> cd_open c \<le> cd_high c \<and> cd_close c \<le> cd_high c"

lemma validated_sound:
  assumes "validate_bars bars asof = Inr ()" and "c \<in> set bars"
  shows "sound_bar c"
proof -
  have "\<not> bar_broken asof c" using validated(1) [OF assms(1)] assms(2) by (auto simp: list_all_iff)
  moreover have "0 \<le> cd_turnover c"
    using assms by (auto simp: validate_bars_def list_ex_iff not_less split: if_splits)
  ultimately show ?thesis
    by (auto simp: bar_broken_def sound_bar_def min_def max_def split: if_splits)
qed

lemma outermost_in: "values \<noteq> [] \<Longrightarrow> outermost kind values \<in> set values"
  by (cases kind) (simp_all add: outermost_def)

lemma pivot_price:
  assumes "s \<in> set (pivots bars l r)"
  shows "\<exists>c \<in> set bars. pv_price s = extreme_of (pv_kind s) c"
proof -
  from assms obtain k kind where k: "k + r < length bars"
    and s: "s \<in> set (pivot_at bars l r k kind)" by (rule pivots_members)
  then have "bars ! k \<in> set bars" by (simp add: nth_mem)
  then show ?thesis using pivot_at_fields [OF s] by auto
qed

lemma known_level_of_bar:
  assumes "2 \<le> length bars"
  shows "\<exists>c \<in> set bars. known_level kind bars = extreme_of kind c"
proof (cases "prices_of kind (known_swings bars) = []")
  case True
  have "between_n 21 1 bars \<noteq> []" using assms by (simp add: between_n_def)
  then have "known_level kind bars \<in> extreme_of kind ` set (between_n 21 1 bars)"
    using True outermost_in [of "map (extreme_of kind) (between_n 21 1 bars)" kind]
    by (simp add: known_level_def)
  moreover have "set (between_n 21 1 bars) \<subseteq> set bars"
    by (auto simp: between_n_def dest: in_set_dropD in_set_takeD)
  ultimately show ?thesis by auto
next
  case False
  then have "known_level kind bars \<in> set (prices_of kind (known_swings bars))"
    by (simp add: known_level_def Let_def)
  then show ?thesis by (auto simp: prices_of_def known_swings_def dest!: pivot_price)
qed

lemma pivot_times:
  assumes v: "validate_bars bars asof = Inr ()" and sp: "spaced bars"
    and s: "s \<in> set (pivots bars l r)" and r: "0 < r"
  shows "pv_ms s < pv_available s \<and> pv_available s \<le> asof"
proof -
  from s obtain k kind where k: "k + r < length bars"
    and p: "s \<in> set (pivot_at bars l r k kind)" by (rule pivots_members)
  show ?thesis
    using pivot_at_fields [OF p] bar_end_mono [OF v sp, of k "k + r"] bar_end_asof [OF v k] k r
    by simp
qed

lemma set_last_n: "set (last_n n xs) \<subseteq> set xs"
  by (auto simp: last_n_def dest: in_set_dropD)

lemma true_ranges_nonneg: "\<forall>t \<in> set (true_ranges bars). 0 \<le> t"
  by (auto simp: true_ranges_def le_max_iff_disj)

lemma mean_nonneg: "\<forall>t \<in> set xs. 0 \<le> t \<Longrightarrow> 0 \<le> mean xs"
  by (simp add: mean_def sum_list_nonneg)

lemma fvg_sound:
  assumes v: "validate_bars bars asof = Inr ()" and g: "g \<in> set (fvgs bars (true_ranges bars))"
  shows "gp_low g < gp_high g \<and> gp_available g \<le> asof"
proof -
  from g obtain i where i: "i < length bars" and gi: "g \<in> set (fvg_at bars (true_ranges bars) i)"
    by (auto simp: fvgs_def)
  have "\<forall>t \<in> set (drop (i - 14) (take i (true_ranges bars))). 0 \<le> t"
    using true_ranges_nonneg by (meson in_set_dropD in_set_takeD)
  note local_atr = mean_nonneg [OF this]
  have "gp_low g < gp_high g"
    using gi local_atr by (auto simp: fvg_at_def Let_def split: if_splits)
  moreover have "gp_available g = bar_end (bars ! i)"
    using gi by (auto simp: fvg_at_def Let_def split: if_splits)
  ultimately show ?thesis using bar_end_asof [OF v i] by simp
qed

lemma order_block_sound:
  assumes v: "validate_bars bars asof = Inr ()" and ne: "bars \<noteq> []"
    and b: "blk \<in> set (order_blocks bars atr bos)"
  shows "bos = Some (bl_side blk) \<and> bl_low blk \<le> bl_high blk \<and> bl_available blk \<le> asof
    \<and> bl_invalidation blk \<in> {bl_low blk, bl_high blk}"
proof -
  have "bos \<noteq> None" using b by (intro notI) (simp add: order_blocks_def)
  then obtain side where bos: "bos = Some side" by blast
  have "find (opposing_candle side) (rev (between_n 11 1 bars)) \<noteq> None"
  proof
    assume none: "find (opposing_candle side) (rev (between_n 11 1 bars)) = None"
    have "order_blocks bars atr bos = []" unfolding order_blocks_def bos option.case none by simp
    then show False using b by simp
  qed
  then obtain c where c: "find (opposing_candle side) (rev (between_n 11 1 bars)) = Some c" by blast
  have blk: "blk = \<lparr>bl_side = side, bl_low = cd_low c, bl_high = cd_high c,
      bl_available = bar_end (last bars), bl_invalidation = (if side = Up then cd_low c else cd_high c)\<rparr>"
    using b unfolding order_blocks_def bos option.case c by (simp split: if_split_asm)
  have "c \<in> set (rev (between_n 11 1 bars))"
    using c unfolding find_Some_iff by (metis nth_mem)
  then have "c \<in> set (between_n 11 1 bars)" by simp
  then have "c \<in> set bars" by (auto simp: between_n_def dest: in_set_dropD in_set_takeD)
  then have "cd_low c \<le> cd_high c" using validated_sound [OF v] by (simp add: sound_bar_def)
  moreover have "bar_end (last bars) \<le> asof"
    using bar_end_asof [OF v, of "length bars - 1"] ne by (simp add: last_conv_nth)
  ultimately show ?thesis using bos blk by simp
qed

lemma period_sound:
  assumes v: "validate_bars bars asof = Inr ()" and p: "period_of bars start until = Some p"
  shows "0 < pe_low p \<and> pe_low p \<le> pe_high p"
proof -
  define subset where "subset = filter (\<lambda>c. cd_start c \<ge> start \<and> bar_end c \<le> until) bars"
  from p have ne: "subset \<noteq> []"
    and p': "pe_high p = Max (set (map cd_high subset))" "pe_low p = Min (set (map cd_low subset))"
    by (auto simp: period_of_def Let_def subset_def [symmetric] split: if_splits)
  have sound: "sound_bar c" if "c \<in> set subset" for c
    using that validated_sound [OF v] by (simp add: subset_def)
  have first: "hd subset \<in> set subset" using ne by simp
  have "pe_low p \<le> cd_low (hd subset)" "cd_high (hd subset) \<le> pe_high p"
    using first unfolding p' by (auto intro!: Min_le Max_ge)
  moreover have "pe_low p \<in> cd_low ` set subset"
    using ne Min_in [of "set (map cd_low subset)"] unfolding p' by simp
  ultimately show ?thesis using sound first by (fastforce simp: sound_bar_def)
qed

text \<open>Every reading of the features, in bounds: the predicate of the next claim.\<close>

definition swings_in_past :: "ms \<Rightarrow> pivot list \<Rightarrow> bool" where
  "swings_in_past asof swings \<longleftrightarrow>
     list_all (\<lambda>s. pv_ms s < pv_available s \<and> pv_available s \<le> asof \<and> 0 < pv_price s) swings"

lemma swings_in_pastI:
  assumes v: "validate_bars bars asof = Inr ()" and sp: "spaced bars" and r: "0 < r"
  shows "swings_in_past asof (last_n n (pivots bars l r))"
proof -
  have "0 < pv_price s" if "s \<in> set (pivots bars l r)" for s
    using pivot_price [OF that] validated_sound [OF v]
    by (cases "pv_kind s") (fastforce simp: extreme_of_def sound_bar_def)+
  then show ?thesis
    using pivot_times [OF v sp _ r] set_last_n [of n "pivots bars l r"]
    by (fastforce simp: swings_in_past_def list_all_iff)
qed

lemma level_positive:
  assumes "validate_bars bars asof = Inr ()" and "2 \<le> length bars"
  shows "0 < known_level kind bars"
  using known_level_of_bar [OF assms(2), of kind] validated_sound [OF assms(1)]
  by (cases kind) (fastforce simp: extreme_of_def sound_bar_def)+

lemma regime_trend:
  "(regime_of tr atr close str slope eff = TrendingUp \<longrightarrow> str = Up \<and> 0 < slope \<and> 1 / 4 < eff)
 \<and> (regime_of tr atr close str slope eff = TrendingDown \<longrightarrow> str = Down \<and> slope < 0 \<and> 1 / 4 < eff)
 \<and> (regime_of tr atr close str slope eff = RangeBound \<longrightarrow> eff < 1 / 4)
 \<and> (regime_of tr atr close str slope eff \<noteq> Disorder \<longrightarrow> atr / close \<le> 8 / 100)"
  by (auto simp: regime_of_def)

text \<open>C#features_in_bounds:
  Accepted features are in their bounds. The average range and both levels are positive, the
  efficiency of the path lies between 0 and 1, every swing was available by the evaluation
  time and later than its own candle, fair-value gaps and order blocks are proper price
  intervals known by then, calendar periods have a positive low not above their high, a trend
  is named only with the structure, the slope and the efficiency that make it one, and any
  regime but disorder bounds the average range by eight percent of the close.\<close>

theorem features_in_bounds:
  assumes f: "candle_features bars asof = Inr f" and sp: "spaced bars"
  shows "0 < ft_atr f \<and> 0 < ft_high f \<and> 0 < ft_low f \<and> ft_asof f \<le> asof
    \<and> 0 \<le> ft_efficiency f \<and> ft_efficiency f \<le> 1
    \<and> swings_in_past asof (ft_swings f) \<and> swings_in_past asof (ft_internal f)
    \<and> (\<forall>g \<in> set (ft_fvg f). gp_low g < gp_high g \<and> gp_available g \<le> asof)
    \<and> (\<forall>k \<in> set (ft_order_blocks f). ft_bos f = Some (bl_side k) \<and> bl_low k \<le> bl_high k
          \<and> bl_available k \<le> asof \<and> bl_invalidation k \<in> {bl_low k, bl_high k})
    \<and> (\<forall>p \<in> set_option (ft_session f) \<union> set_option (ft_prior_day f) \<union> set_option (ft_prior_week f).
          0 < pe_low p \<and> pe_low p \<le> pe_high p)
    \<and> (ft_regime f = TrendingUp \<longrightarrow> ft_structure f = Up \<and> 0 < ft_slope f \<and> 1 / 4 < ft_efficiency f)
    \<and> (ft_regime f = TrendingDown \<longrightarrow> ft_structure f = Down \<and> ft_slope f < 0 \<and> 1 / 4 < ft_efficiency f)
    \<and> (ft_regime f \<noteq> Disorder \<longrightarrow> ft_atr f \<le> 8 / 100 * cd_close (last bars))"
proof -
  from f obtain v: "validate_bars bars asof = Inr ()" and len: "60 \<le> length bars"
    and atr: "0 < atr_of bars" and eq: "f = readings bars (atr_of bars)"
    by (rule candle_features_cases)
  have ne: "bars \<noteq> []" and two: "2 \<le> length bars" and n21: "21 \<le> length (map cd_close bars)"
    using len by auto
  have asof: "bar_end (last bars) \<le> asof"
    using bar_end_asof [OF v, of "length bars - 1"] ne by (simp add: last_conv_nth)
  have close: "0 < cd_close (last bars)"
    using validated_sound [OF v last_in_set [OF ne]] by (simp add: sound_bar_def)
  note parts = level_positive [OF v two] swings_in_pastI [OF v sp] efficiency_bounds [OF n21]
  show ?thesis
    unfolding eq readings_def Let_def candle_row.simps
    using atr asof close parts regime_trend [where close = "cd_close (last bars)"]
      fvg_sound [OF v] order_block_sound [OF v ne] period_sound [OF v]
    by (auto simp: divide_le_eq)
qed

subsection \<open>The claims at work\<close>

text \<open>Sixty flat minute candles, with one taller candle as a swing in the middle.\<close>

definition demo_bar :: "nat \<Rightarrow> bar" where
  "demo_bar i = \<lparr>cd_start = int i * 60000, cd_interval = 60000, cd_open = 100,
     cd_high = (if i = 30 then 103 else 101), cd_low = 99, cd_close = 100,
     cd_volume = 1, cd_turnover = 100\<rparr>"

definition demo_history :: "bar list" where
  "demo_history = map demo_bar [0 ..< 60]"

lemma demo_valid: "validate_bars (demo_history @ [demo_bar 60]) 3660000 = Inr ()"
  by code_simp

lemma demo_spaced: "spaced (demo_history @ [demo_bar 60])"
  by code_simp

lemma demo_atr: "0 < atr_of (demo_history @ [demo_bar 60])"
  by code_simp

lemma demo_length: "length (demo_history @ [demo_bar 60]) = 61"
  by (simp add: demo_history_def)

lemma demo_features:
  "candle_features (demo_history @ [demo_bar 60]) 3660000
   = Inr (readings (demo_history @ [demo_bar 60]) (atr_of (demo_history @ [demo_bar 60])))"
  using demo_valid demo_atr demo_length by (simp add: candle_features_def not_less not_le)

lemma swings_never_repaint_witness:
  "filter (\<lambda>s. pv_available s \<le> bar_end (last (map demo_bar [28 ..< 34])))
     (pivots (map demo_bar [28 ..< 34] @ map demo_bar [34 ..< 36]) 2 3)
   = pivots (map demo_bar [28 ..< 34]) 2 3
   \<and> map pv_price (pivots (map demo_bar [28 ..< 34]) 2 3) = [103]"
proof
  have v: "validate_bars (map demo_bar [28 ..< 34] @ map demo_bar [34 ..< 36]) 2160000 = Inr ()"
    and sp: "spaced (map demo_bar [28 ..< 34] @ map demo_bar [34 ..< 36])"
    by code_simp+
  show "filter (\<lambda>s. pv_available s \<le> bar_end (last (map demo_bar [28 ..< 34])))
     (pivots (map demo_bar [28 ..< 34] @ map demo_bar [34 ..< 36]) 2 3)
   = pivots (map demo_bar [28 ..< 34]) 2 3"
    by (rule swings_never_repaint [OF v sp]) simp
  show "map pv_price (pivots (map demo_bar [28 ..< 34]) 2 3) = [103]" by code_simp
qed

text \<open>The same history closed by a candle that pierces the swing and falls back.\<close>

definition demo_sweep :: bar where
  "demo_sweep = (demo_bar 60)\<lparr>cd_high := 104\<rparr>"

lemma demo_level: "prior_level High demo_history = 103"
  by code_simp

lemma demo_swings: "pivots (demo_history @ [demo_bar 60]) 3 3 \<noteq> []"
  by code_simp

lemma demo_sweep_features:
  "\<exists>g. candle_features (demo_history @ [demo_sweep]) 3660000 = Inr g \<and> ft_sweep_short g"
proof -
  have v: "validate_bars (demo_history @ [demo_sweep]) 3660000 = Inr ()"
    and a: "0 < atr_of (demo_history @ [demo_sweep])"
    and sp: "spaced (demo_history @ [demo_sweep])" by code_simp+
  have f: "candle_features (demo_history @ [demo_sweep]) 3660000
      = Inr (readings (demo_history @ [demo_sweep]) (atr_of (demo_history @ [demo_sweep])))"
    using v a demo_length by (simp add: candle_features_def not_less not_le)
  have "ft_sweep_short (readings (demo_history @ [demo_sweep]) (atr_of (demo_history @ [demo_sweep])))"
    unfolding readings_levels(4) [OF f sp] demo_level by (simp add: demo_sweep_def demo_bar_def)
  with f show ?thesis by blast
qed

lemma trigger_levels_are_prior_witness:
  "\<exists>f g. candle_features (demo_history @ [demo_bar 60]) 3660000 = Inr f
     \<and> candle_features (demo_history @ [demo_sweep]) 3660000 = Inr g
     \<and> ft_high f = ft_high g \<and> \<not> ft_sweep_short f \<and> ft_sweep_short g"
proof -
  from demo_sweep_features obtain g
    where g: "candle_features (demo_history @ [demo_sweep]) 3660000 = Inr g" "ft_sweep_short g"
    by (elim exE conjE)
  have sp: "spaced (demo_history @ [demo_sweep])" by code_simp
  note same = trigger_levels_are_prior [OF demo_features g(1) demo_spaced sp]
  have "\<not> ft_sweep_short (readings (demo_history @ [demo_bar 60]) (atr_of (demo_history @ [demo_bar 60])))"
    unfolding readings_levels(4) [OF demo_features demo_spaced] demo_level by (simp add: demo_bar_def)
  then show ?thesis using same demo_features g by blast
qed

lemma features_in_bounds_witness:
  "\<exists>f. candle_features (demo_history @ [demo_bar 60]) 3660000 = Inr f
     \<and> 0 < ft_atr f \<and> 0 \<le> ft_efficiency f \<and> ft_efficiency f \<le> 1
     \<and> swings_in_past 3660000 (ft_swings f) \<and> ft_swings f \<noteq> []"
proof -
  have "ft_swings (readings (demo_history @ [demo_bar 60]) (atr_of (demo_history @ [demo_bar 60]))) \<noteq> []"
    using demo_swings by (simp add: readings_def Let_def last_n_def not_le)
  then show ?thesis
    using features_in_bounds [OF demo_features demo_spaced] demo_features by blast
qed

end
