(* ===== verification/Dynamic.thy ===== *)
theory Dynamic imports Model begin

text \<open>
  Python's dynamic operations on evidence, with the exceptions they raise: attribute access on
  a value that may not be a dictionary, ordering against a number, iteration and membership.
  The policies of the setup modules read their evidence through these. \<open>plan_view\<close> is
  the part of a \<^verbatim>\<open>Signal\<close> that such a policy reads: its evidence and its risk row
  are dictionaries by the type of the model, what they contain is anything.
\<close>

definition chain :: "py_error + 'a \<Rightarrow> ('a \<Rightarrow> py_error + 'b) \<Rightarrow> py_error + 'b" where
  "chain x f = (case x of Inl e \<Rightarrow> Inl e | Inr a \<Rightarrow> f a)"

lemma chain_simps [simp]: "chain (Inl e) f = Inl e" "chain (Inr a) f = f a"
  by (simp_all add: chain_def)

lemma chain_Inr: "chain x f = Inr r \<longleftrightarrow> (\<exists>a. x = Inr a \<and> f a = Inr r)"
  by (cases x) auto

lemma chain_cong: "x = y \<Longrightarrow> (\<And>a. y = Inr a \<Longrightarrow> f a = g a) \<Longrightarrow> chain x f = chain y g"
  by (cases y) auto

text \<open>\<^verbatim>\<open>v.get(k)\<close> and \<^verbatim>\<open>v.get(k, d)\<close>\<close>

definition get_key :: "json \<Rightarrow> string \<Rightarrow> py_error + json" where
  "get_key v k = (if is_obj v then Inr (jget v k) else Inl AttributeErr)"

definition get_or :: "json \<Rightarrow> string \<Rightarrow> json \<Rightarrow> py_error + json" where
  "get_or v k d = (if is_obj v then Inr (jget_default v k d) else Inl AttributeErr)"

text \<open>\<^verbatim>\<open>v > n\<close>: None, texts and containers do not compare with a number.\<close>

fun exceeds :: "json \<Rightarrow> dec \<Rightarrow> py_error + bool" where
  "exceeds (JFlt PosInf) n = Inr True"
| "exceeds (JFlt NegInf) n = Inr False"
| "exceeds (JFlt NaN) n = Inr False"
| "exceeds v n = (case num_of v of None \<Rightarrow> Inl TypeErr | Some x \<Rightarrow> Inr (n < x))"

text \<open>What \<^verbatim>\<open>for r in v\<close> yields: texts give characters, dictionaries their keys.\<close>

fun iterate :: "json \<Rightarrow> py_error + json list" where
  "iterate (JList xs) = Inr xs"
| "iterate (JStr s) = Inr (map (\<lambda>c. JStr [c]) s)"
| "iterate (JObj kvs) = Inr (map (\<lambda>(k, v). JStr k) kvs)"
| "iterate _ = Inl TypeErr"

definition occurs_in :: "string \<Rightarrow> string \<Rightarrow> bool" where
  "occurs_in pat s = list_ex (\<lambda>i. take (length pat) (drop i s) = pat) [0 ..< Suc (length s)]"

text \<open>\<^verbatim>\<open>"..." in v\<close>\<close>

fun member_of :: "string \<Rightarrow> json \<Rightarrow> py_error + bool" where
  "member_of t (JStr s) = Inr (occurs_in t s)"
| "member_of t (JList xs) = Inr (list_ex (py_eq (JStr t)) xs)"
| "member_of t (JObj kvs) = Inr (list_ex (\<lambda>(k, v). k = t) kvs)"
| "member_of t _ = Inl TypeErr"

text \<open>\<^verbatim>\<open>any("..." in r for r in rows)\<close>: stops at the first hit.\<close>

fun any_mentions :: "string \<Rightarrow> json list \<Rightarrow> py_error + bool" where
  "any_mentions t [] = Inr False"
| "any_mentions t (r # rs) =
     chain (member_of t r) (\<lambda>hit. if hit then Inr True else any_mentions t rs)"

text \<open>A number or None, as a value.\<close>

definition jnum :: "dec option \<Rightarrow> json" where
  "jnum v = (case v of None \<Rightarrow> JNull | Some r \<Rightarrow> JFlt (Fin r))"

definition num_opt :: "json \<Rightarrow> dec option" where
  "num_opt v = (if number v then Some (num_val v) else None)"

definition pos_opt :: "json \<Rightarrow> dec option" where
  "pos_opt v = (if positive v then Some (num_val v) else None)"

lemma pos_opt_Some: "pos_opt v = Some x \<Longrightarrow> 0 < x"
  by (auto simp: pos_opt_def positive_def split: if_splits)

record plan_view =
  pl_direction :: direction
  pl_source :: json
  pl_symbol :: json
  pl_created :: ms
  pl_entry :: dec
  pl_stop :: dec
  pl_tp1 :: dec
  pl_tp2 :: dec
  pl_horizon :: profile
  pl_hold_max :: int
  pl_deadline :: "ms option"
  pl_evidence :: "(string \<times> json) list"
  pl_risk :: "(string \<times> json) list"

abbreviation ev_get :: "plan_view \<Rightarrow> string \<Rightarrow> json" where
  "ev_get s k \<equiv> jget (JObj (pl_evidence s)) k"

text \<open>\<^verbatim>\<open>e.get(k, {})\<close>: a stored None stays None.\<close>

abbreviation ev_dict :: "plan_view \<Rightarrow> string \<Rightarrow> json" where
  "ev_dict s k \<equiv> jget_default (JObj (pl_evidence s)) k (JObj [])"

abbreviation pl_sign :: "plan_view \<Rightarrow> dec" where
  "pl_sign s \<equiv> sign_of (pl_direction s)"

subsection \<open>Values of the expected shape\<close>

text \<open>
  The conformance predicates under which the dynamic operations do not raise: a dictionary, a
  dictionary or a falsy value in front of \<^verbatim>\<open>or {}\<close>, a dictionary whose entry under a
  key compares with a time, a list of texts.
\<close>

definition dict_or_falsy :: "json \<Rightarrow> bool" where
  "dict_or_falsy v \<longleftrightarrow> is_obj v \<or> \<not> truthy v"

fun comparable :: "json \<Rightarrow> bool" where
  "comparable JNull = False"
| "comparable (JStr _) = False"
| "comparable (JList _) = False"
| "comparable (JObj _) = False"
| "comparable _ = True"

definition timed :: "string \<Rightarrow> json \<Rightarrow> bool" where
  "timed k v \<longleftrightarrow> comparable (jget_default v k (JInt 0))"

definition texts :: "json \<Rightarrow> bool" where
  "texts v \<longleftrightarrow> (case v of JList xs \<Rightarrow> list_all (\<lambda>x. case x of JStr _ \<Rightarrow> True | _ \<Rightarrow> False) xs | _ \<Rightarrow> False)"

lemma or_obj_dict: "dict_or_falsy v \<Longrightarrow> is_obj (or_obj v)"
  by (auto simp: dict_or_falsy_def or_obj_def)

lemma exceeds_ok: "comparable v \<Longrightarrow> \<exists>b. exceeds v n = Inr b"
proof (cases v)
  case (JFlt f)
  then show "\<exists>b. exceeds v n = Inr b" by (cases f) auto
qed auto

lemma get_key_ok: "is_obj v \<Longrightarrow> get_key v k = Inr (jget v k)"
  by (simp add: get_key_def)

lemma get_or_ok: "is_obj v \<Longrightarrow> get_or v k d = Inr (jget_default v k d)"
  by (simp add: get_or_def)

lemma timed_default: "is_obj v \<Longrightarrow> timed k v \<Longrightarrow> comparable (jget_default v k (JInt t))"
  by (cases v) (auto simp: timed_def split: option.splits)

lemma any_mentions_ok: "texts (JList xs) \<Longrightarrow> \<exists>b. any_mentions t xs = Inr b"
  by (induction xs) (auto simp: texts_def split: json.splits)

lemma iterate_texts: "texts v \<Longrightarrow> \<exists>xs. v = JList xs \<and> iterate v = Inr xs"
  by (cases v) (auto simp: texts_def)

end
