(* ===== verification/StopViability.thy ===== *)
theory StopViability imports Dynamic begin

text \<open>
  The assessment of the structural stop, \<^verbatim>\<open>src/bybit_flow/stop_viability.py\<close>:
  what it reads from the evidence of a plan, the state it names and the score it gives. The
  stop itself and the size are never touched. The constant explanation text is omitted.
\<close>

subsection \<open>What is read\<close>

record stop_view =
  sv_distance :: "dec option"
  sv_reward :: "dec option"
  sv_setup_atr :: json
  sv_execution_atr :: json
  sv_plan :: json
  sv_wick :: json
  sv_noise :: "dec option"
  sv_spread :: json
  sv_impact :: json
  sv_cost :: json

text \<open>\<^verbatim>\<open>max((v for v in values if positive(v)), default=None)\<close>\<close>

definition largest_positive :: "json list \<Rightarrow> dec option" where
  "largest_positive values =
     (let ps = map num_val (filter positive values) in if ps = [] then None else Some (Max (set ps)))"

text \<open>A dictionary of the evidence counts only when it was available by now.\<close>

definition available_dict :: "plan_view \<Rightarrow> ms \<Rightarrow> json \<Rightarrow> py_error + json" where
  "available_dict s now v =
     chain (get_or v ''available_ms'' (JInt (pl_created s))) (\<lambda>stamp.
     chain (exceeds stamp (of_int now)) (\<lambda>later. Inr (if later then JObj [] else v)))"

definition stop_reads :: "plan_view \<Rightarrow> json \<Rightarrow> ms \<Rightarrow> json \<Rightarrow> py_error + stop_view" where
  "stop_reads s price now cost =
     (let setup = ev_dict s ''setup_features''; timing = ev_dict s ''execution_features'' in
      chain (get_key setup ''atr'') (\<lambda>setup_atr.
      chain (get_key timing ''atr'') (\<lambda>execution_atr.
      chain (available_dict s now (or_obj (ev_get s ''stop_plan''))) (\<lambda>plan.
      chain (get_key plan ''wick_regime'') (\<lambda>plan_wick.
      chain (available_dict s now
               (if truthy (ev_get s ''wick_regime'') then ev_get s ''wick_regime'' else or_obj plan_wick)) (\<lambda>wick.
      chain (get_or timing ''asof'' (JInt (pl_created s))) (\<lambda>timing_at.
      chain (exceeds timing_at (of_int now)) (\<lambda>timing_later.
      chain (get_or setup ''asof'' (JInt (pl_created s))) (\<lambda>setup_at.
      chain (exceeds setup_at (of_int now)) (\<lambda>setup_later.
      chain (get_key (if timing_later then JObj [] else or_obj (ev_get s ''execution'')) ''short_horizon_noise'') (\<lambda>n1.
      chain (get_key plan ''execution_noise_q80'') (\<lambda>n2.
      chain (get_key wick ''adverse_wick_q80'') (\<lambda>n3.
      chain (get_key (ev_dict s ''book'') ''spread_bps'') (\<lambda>spread.
      chain (get_or (or_obj (ev_get s ''entry_quality'')) ''current_execution_cost_estimate'' (JObj [])) (\<lambda>estimate.
      chain (get_key estimate ''residual_entry_impact_per_base'') (\<lambda>impact.
        Inr \<lparr>sv_distance = (if number price then Some (pl_sign s * (num_val price - pl_stop s)) else None),
             sv_reward = (if number price then Some (pl_sign s * (pl_tp1 s - num_val price)) else None),
             sv_setup_atr = (if setup_later then JNull else setup_atr),
             sv_execution_atr = (if timing_later then JNull else execution_atr),
             sv_plan = plan, sv_wick = wick, sv_noise = largest_positive [n1, n2, n3],
             sv_spread = spread, sv_impact = impact,
             sv_cost = (if number cost then cost else jget (JObj (pl_risk s)) ''cost_per_base'')\<rparr>))))))))))))))))"

subsection \<open>The verdict\<close>

definition stop_ratio :: "stop_view \<Rightarrow> dec option" where
  "stop_ratio v = (case (sv_distance v, sv_noise v) of (Some d, Some n) \<Rightarrow> Some (d / n) | _ \<Rightarrow> None)"

definition max_atr :: "profile \<Rightarrow> dec option" where
  "max_atr h =
     (case h of SHORT_INTRADAY \<Rightarrow> Some (3 / 2) | CORE_INTRADAY \<Rightarrow> Some (9 / 4) | SWING \<Rightarrow> Some 3
      | _ \<Rightarrow> None)"

definition stop_limit :: "profile \<Rightarrow> stop_view \<Rightarrow> dec option" where
  "stop_limit h v =
     (case (max_atr h, pos_opt (sv_setup_atr v)) of (Some m, Some a) \<Rightarrow> Some (m * a) | _ \<Rightarrow> None)"

text \<open>
  The reward-to-risk ratio if the stop were as wide as the noise. A cost equal to minus the
  noise divides by zero.
\<close>

definition noise_safe_rr :: "stop_view \<Rightarrow> py_error + dec option" where
  "noise_safe_rr v =
     (case (sv_noise v, num_opt (sv_cost v), sv_reward v) of
        (Some n, Some c, Some r) \<Rightarrow>
          if n + c = 0 then Inl ZeroDivision else Inr (Some ((r - c) / (n + c)))
      | _ \<Rightarrow> Inr None)"

definition opt_pos :: "dec option \<Rightarrow> bool" where
  "opt_pos v = (case v of None \<Rightarrow> False | Some x \<Rightarrow> 0 < x)"

definition wider_than :: "dec option \<Rightarrow> dec option \<Rightarrow> bool" where
  "wider_than d l = (case (d, l) of (Some x, Some y) \<Rightarrow> 0 < x \<and> 0 < y \<and> x > y | _ \<Rightarrow> False)"

definition plan_too_wide :: "json \<Rightarrow> py_error + bool" where
  "plan_too_wide plan =
     chain (get_or plan ''reasons'' (JList [])) (\<lambda>reasons.
     chain (iterate reasons) (any_mentions ''STOP_TOO_WIDE''))"

definition stop_invalid :: "plan_view \<Rightarrow> stop_view \<Rightarrow> bool" where
  "stop_invalid s v \<longleftrightarrow> \<not> opt_pos (sv_distance v) \<or> \<not> opt_pos (sv_reward v) \<or> \<not> 0 < pl_stop s"

definition incompatible_noise :: "profile \<Rightarrow> dec \<Rightarrow> stop_view \<Rightarrow> dec option \<Rightarrow> bool" where
  "incompatible_noise h minimum_rr v rr \<longleftrightarrow>
     (case stop_ratio v of None \<Rightarrow> False
      | Some q \<Rightarrow> q < 1
          \<and> ((case rr of None \<Rightarrow> False | Some x \<Rightarrow> x < minimum_rr)
             \<or> wider_than (sv_noise v) (stop_limit h v)))"

datatype stop_state =
  UntradeableGeometry | StructurallyTooWide | UnknownStop | NoiseConflict | TightButValid | HealthyStop

definition stop_state_of :: "bool \<Rightarrow> bool \<Rightarrow> dec option \<Rightarrow> stop_state" where
  "stop_state_of untradeable too_wide ratio =
     (if untradeable then UntradeableGeometry
      else if too_wide then StructurallyTooWide
      else case ratio of
        None \<Rightarrow> UnknownStop
      | Some q \<Rightarrow> if q < 1 then NoiseConflict else if q < 3 / 2 then TightButValid else HealthyStop)"

definition stop_state_name :: "stop_state \<Rightarrow> string" where
  "stop_state_name st =
     (case st of UntradeableGeometry \<Rightarrow> ''UNTRADEABLE_GEOMETRY''
      | StructurallyTooWide \<Rightarrow> ''STRUCTURALLY_TOO_WIDE'' | UnknownStop \<Rightarrow> ''UNKNOWN''
      | NoiseConflict \<Rightarrow> ''NOISE_CONFLICT'' | TightButValid \<Rightarrow> ''TIGHT_BUT_VALID''
      | HealthyStop \<Rightarrow> ''HEALTHY_STOP'')"

text \<open>\<^verbatim>\<open>min(None, 35.0)\<close> raises.\<close>

definition stop_score :: "stop_state \<Rightarrow> dec option \<Rightarrow> py_error + dec option" where
  "stop_score st ratio =
     (let score = (case ratio of None \<Rightarrow> None
                   | Some q \<Rightarrow> if q > 0 then Some (100 * q / (q + 3 / 4)) else None)
      in if st \<in> {UntradeableGeometry, StructurallyTooWide} then Inr (Some 0)
         else if st = NoiseConflict then
           (case score of None \<Rightarrow> Inl TypeErr | Some x \<Rightarrow> Inr (Some (min x 35)))
         else Inr score)"

definition over :: "dec option \<Rightarrow> json \<Rightarrow> dec option" where
  "over d v = (case (d, pos_opt v) of (Some x, Some y) \<Rightarrow> Some (x / y) | _ \<Rightarrow> None)"

record stop_row =
  sr_state :: stop_state
  sr_coverage_complete :: bool
  sr_score :: "dec option"
  sr_stop :: dec
  sr_anchor :: json
  sr_distance :: "dec option"
  sr_noise_ratio :: "dec option"
  sr_execution_atr :: "dec option"
  sr_setup_atr :: "dec option"
  sr_wick :: "dec option list"
  sr_noise :: "dec option"
  sr_maximum_distance :: "dec option"
  sr_noise_safe_rr :: "dec option"
  sr_spread :: json
  sr_impact :: json
  sr_cost_fraction :: "dec option"
  sr_reasons :: "string list"

definition assess_stop ::
    "plan_view \<Rightarrow> json \<Rightarrow> ms \<Rightarrow> dec \<Rightarrow> json \<Rightarrow> py_error + stop_row" where
  "assess_stop s price now minimum_rr cost =
     chain (stop_reads s price now cost) (\<lambda>v.
     chain (noise_safe_rr v) (\<lambda>rr.
     chain (plan_too_wide (sv_plan v)) (\<lambda>reasons_wide.
      let ratio = stop_ratio v; limit = stop_limit (pl_horizon s) v;
          too_wide = (reasons_wide \<or> wider_than (sv_distance v) limit);
          untradeable = (stop_invalid s v \<or> incompatible_noise (pl_horizon s) minimum_rr v rr);
          st = stop_state_of untradeable too_wide ratio
      in chain (stop_score st ratio) (\<lambda>score.
         chain (get_key (ev_dict s ''structural_trigger'') ''extreme'') (\<lambda>extreme.
         chain (get_or (sv_plan v) ''anchor'' extreme) (\<lambda>anchor.
         chain (get_key (sv_wick v) ''adverse_wick_q75'') (\<lambda>q75.
         chain (get_key (sv_wick v) ''adverse_wick_q80'') (\<lambda>q80.
         chain (get_key (sv_wick v) ''adverse_wick_q90'') (\<lambda>q90.
           Inr \<lparr>sr_state = st, sr_coverage_complete = (ratio \<noteq> None),
                sr_score = (case score of None \<Rightarrow> None | Some x \<Rightarrow> Some (clamp x 0 100)),
                sr_stop = pl_stop s, sr_anchor = anchor, sr_distance = sv_distance v,
                sr_noise_ratio = ratio,
                sr_execution_atr = over (sv_distance v) (sv_execution_atr v),
                sr_setup_atr = over (sv_distance v) (sv_setup_atr v),
                sr_wick = map (over (sv_distance v)) [q75, q80, q90],
                sr_noise = sv_noise v, sr_maximum_distance = limit, sr_noise_safe_rr = rr,
                sr_spread = sv_spread v, sr_impact = sv_impact v,
                sr_cost_fraction = (case (num_opt (sv_cost v), sv_distance v) of
                    (Some c, Some d) \<Rightarrow> if 0 < d then Some (c / d) else None | _ \<Rightarrow> None),
                sr_reasons = (if untradeable then [''STOP_GEOMETRY_UNTRADEABLE'']
                              else if too_wide then [''STRUCTURAL_STOP_TOO_WIDE''] else [])\<rparr>)))))))))"

section \<open>Correctness\<close>

subsection \<open>Evidence of the expected shape\<close>

definition wick_shape :: "json \<Rightarrow> bool" where
  "wick_shape v \<longleftrightarrow> dict_or_falsy v \<and> timed ''available_ms'' (or_obj v)"

definition stop_evidence :: "plan_view \<Rightarrow> bool" where
  "stop_evidence s \<longleftrightarrow>
     is_obj (ev_dict s ''setup_features'') \<and> timed ''asof'' (ev_dict s ''setup_features'')
     \<and> is_obj (ev_dict s ''execution_features'') \<and> timed ''asof'' (ev_dict s ''execution_features'')
     \<and> dict_or_falsy (ev_get s ''execution'')
     \<and> dict_or_falsy (ev_get s ''stop_plan'')
     \<and> timed ''available_ms'' (or_obj (ev_get s ''stop_plan''))
     \<and> texts (jget_default (or_obj (ev_get s ''stop_plan'')) ''reasons'' (JList []))
     \<and> wick_shape (jget (or_obj (ev_get s ''stop_plan'')) ''wick_regime'')
     \<and> wick_shape (ev_get s ''wick_regime'')
     \<and> is_obj (ev_dict s ''book'')
     \<and> dict_or_falsy (ev_get s ''entry_quality'')
     \<and> is_obj (jget_default (or_obj (ev_get s ''entry_quality'')) ''current_execution_cost_estimate'' (JObj []))
     \<and> is_obj (ev_dict s ''structural_trigger'')"

definition costs_nonneg :: "plan_view \<Rightarrow> json \<Rightarrow> bool" where
  "costs_nonneg s cost \<longleftrightarrow>
     (number cost \<longrightarrow> 0 \<le> num_val cost)
     \<and> (number (jget (JObj (pl_risk s)) ''cost_per_base'') \<longrightarrow>
         0 \<le> num_val (jget (JObj (pl_risk s)) ''cost_per_base''))"

lemma available_dict_ok:
  assumes "is_obj v" and "timed ''available_ms'' v"
  shows "\<exists>w. available_dict s now v = Inr w \<and> w \<in> {v, JObj []}"
proof -
  from exceeds_ok [OF timed_default [OF assms, of "pl_created s"], of "of_int now"]
  obtain b where "exceeds (jget_default v ''available_ms'' (JInt (pl_created s))) (of_int now) = Inr b"
    by (elim exE)
  then show ?thesis using assms(1) by (simp add: available_dict_def get_or_ok)
qed

lemma largest_positive_pos: "largest_positive vs = Some n \<Longrightarrow> 0 < n"
proof -
  assume "largest_positive vs = Some n"
  then have "n \<in> set (map num_val (filter positive vs))"
    by (auto simp: largest_positive_def Let_def simp del: set_map split: if_splits intro!: Max_in)
  then show "0 < n" by (auto simp: positive_def)
qed

text \<open>The facts about a view that the verdict rests on.\<close>

definition view_of :: "plan_view \<Rightarrow> json \<Rightarrow> json \<Rightarrow> stop_view \<Rightarrow> bool" where
  "view_of s price cost v \<longleftrightarrow>
     sv_distance v = (if number price then Some (pl_sign s * (num_val price - pl_stop s)) else None)
     \<and> sv_reward v = (if number price then Some (pl_sign s * (pl_tp1 s - num_val price)) else None)
     \<and> (\<forall>n. sv_noise v = Some n \<longrightarrow> 0 < n)
     \<and> sv_cost v = (if number cost then cost else jget (JObj (pl_risk s)) ''cost_per_base'')"

lemma stop_reads_view: "stop_reads s price now cost = Inr v \<Longrightarrow> view_of s price cost v"
  by (auto simp: stop_reads_def Let_def chain_Inr view_of_def dest: largest_positive_pos)

lemma stop_reads_ok:
  assumes ev: "stop_evidence s"
  shows "\<exists>v. stop_reads s price now cost = Inr v
    \<and> is_obj (sv_plan v) \<and> is_obj (sv_wick v) \<and> texts (jget_default (sv_plan v) ''reasons'' (JList []))"
proof -
  note ev' = ev [unfolded stop_evidence_def wick_shape_def]
  let ?p = "or_obj (ev_get s ''stop_plan'')"
  have p: "is_obj ?p" using ev' by (simp add: or_obj_dict)
  from ev' available_dict_ok [OF p, of s now] obtain plan
    where plan: "available_dict s now ?p = Inr plan" "plan \<in> {?p, JObj []}" by auto
  have plan_obj: "is_obj plan" using plan(2) p by auto
  have plan_texts: "texts (jget_default plan ''reasons'' (JList []))"
    using plan(2) ev' by (auto simp: texts_def)
  let ?w = "if truthy (ev_get s ''wick_regime'') then ev_get s ''wick_regime'' else or_obj (jget plan ''wick_regime'')"
  have w: "is_obj ?w \<and> timed ''available_ms'' ?w"
    using plan(2) ev' or_obj_dict [of "ev_get s ''wick_regime''"] or_obj_dict [of "jget ?p ''wick_regime''"]
    by (auto simp: or_obj_def timed_def split: if_splits)
  from available_dict_ok [of ?w s now] w obtain wick
    where wick: "available_dict s now ?w = Inr wick" "wick \<in> {?w, JObj []}" by blast
  have wick_obj: "is_obj wick" using wick(2) w by (metis empty_iff insert_iff is_obj.simps(1))
  obtain b1 where b1: "exceeds (jget_default (ev_dict s ''execution_features'') ''asof'' (JInt (pl_created s))) (of_int now) = Inr b1"
    using exceeds_ok timed_default ev' by blast
  obtain b2 where b2: "exceeds (jget_default (ev_dict s ''setup_features'') ''asof'' (JInt (pl_created s))) (of_int now) = Inr b2"
    using exceeds_ok timed_default ev' by blast
  have x: "is_obj (if b1 then JObj [] else or_obj (ev_get s ''execution''))"
    using ev' by (simp add: or_obj_dict)
  have q: "is_obj (or_obj (ev_get s ''entry_quality''))" using ev' by (simp add: or_obj_dict)
  show ?thesis
    using ev' plan(1) plan_obj plan_texts wick(1) wick_obj b1 b2 x q
    by (simp add: stop_reads_def Let_def get_key_ok get_or_ok)
qed

subsection \<open>The verdict on a view\<close>

lemma stop_ratio_pos: "view_of s price cost v \<Longrightarrow> stop_ratio v = Some q \<Longrightarrow>
    \<exists>d n. sv_distance v = Some d \<and> sv_noise v = Some n \<and> 0 < n \<and> q = d / n"
  by (auto simp: stop_ratio_def view_of_def split: option.splits if_splits)

lemma noise_safe_rr_ok:
  assumes "view_of s price cost v" and "costs_nonneg s cost"
  shows "\<exists>rr. noise_safe_rr v = Inr rr"
proof (cases "noise_safe_rr v")
  case (Inl e)
  then obtain n c where n: "sv_noise v = Some n" and c: "num_opt (sv_cost v) = Some c" and z: "n + c = 0"
    by (auto simp: noise_safe_rr_def split: option.splits if_splits)
  have "0 < n" using assms(1) n by (simp add: view_of_def)
  moreover have "0 \<le> c"
    using assms c by (auto simp: view_of_def costs_nonneg_def num_opt_def split: if_splits)
  ultimately show ?thesis using z by simp
qed simp

lemma plan_too_wide_ok:
  assumes "is_obj plan" and "texts (jget_default plan ''reasons'' (JList []))"
  shows "\<exists>b. plan_too_wide plan = Inr b"
proof -
  from iterate_texts [OF assms(2)] obtain xs
    where "jget_default plan ''reasons'' (JList []) = JList xs"
      "iterate (jget_default plan ''reasons'' (JList [])) = Inr xs" by (elim exE conjE)
  then show ?thesis using any_mentions_ok [of xs] assms by (auto simp: plan_too_wide_def get_or_ok)
qed

text \<open>Outside the untradeable states a known ratio is positive, so every score is defined.\<close>

lemma ratio_positive:
  assumes v: "view_of s price cost v" and ok: "\<not> stop_invalid s v" and q: "stop_ratio v = Some q"
  shows "0 < q"
  using stop_ratio_pos [OF v q] ok by (auto simp: stop_invalid_def opt_pos_def)

definition score_in_state :: "stop_state \<Rightarrow> dec option \<Rightarrow> bool" where
  "score_in_state st score \<longleftrightarrow>
     (case st of
        UntradeableGeometry \<Rightarrow> score = Some 0
      | StructurallyTooWide \<Rightarrow> score = Some 0
      | UnknownStop \<Rightarrow> score = None
      | NoiseConflict \<Rightarrow> (\<exists>x. score = Some x \<and> 0 < x \<and> x \<le> 35)
      | TightButValid \<Rightarrow> (\<exists>x. score = Some x \<and> 400 / 7 \<le> x \<and> x < 200 / 3)
      | HealthyStop \<Rightarrow> (\<exists>x. score = Some x \<and> 200 / 3 \<le> x \<and> x < 100))"

lemma score_curve:
  fixes q :: dec assumes "0 < q"
  shows "0 < 100 * q / (q + 3 / 4)" "100 * q / (q + 3 / 4) < 100"
    "1 \<le> q \<Longrightarrow> 400 / 7 \<le> 100 * q / (q + 3 / 4)"
    "q < 3 / 2 \<Longrightarrow> 100 * q / (q + 3 / 4) < 200 / 3"
    "3 / 2 \<le> q \<Longrightarrow> 200 / 3 \<le> 100 * q / (q + 3 / 4)"
  using assms by (simp_all add: field_simps)

lemma stop_score_ok:
  assumes pos_ratio: "\<And>q. ratio = Some q \<Longrightarrow> \<not> untradeable \<Longrightarrow> 0 < q"
    and st_def: "st = stop_state_of untradeable too_wide ratio"
  shows "\<exists>score. stop_score st ratio = Inr score
    \<and> score_in_state st (case score of None \<Rightarrow> None | Some x \<Rightarrow> Some (clamp x 0 100))"
proof (cases "untradeable \<or> too_wide \<or> ratio = None")
  case True
  then show ?thesis
    by (auto simp: st_def stop_state_of_def stop_score_def Let_def score_in_state_def clamp_def)
next
  case False
  then obtain q where q: "ratio = Some q" by auto
  then have pos: "0 < q" using pos_ratio False by simp
  note curve = score_curve [OF pos]
  have kept: "clamp (100 * q / (q + 3 / 4)) 0 100 = 100 * q / (q + 3 / 4)"
    and low: "clamp (min (100 * q / (q + 3 / 4)) 35) 0 100 = min (100 * q / (q + 3 / 4)) 35"
    using curve(1,2) by (auto intro!: clamp_id)
  consider "q < 1" | "1 \<le> q" "q < 3 / 2" | "3 / 2 \<le> q" by linarith
  then show ?thesis
  proof cases
    case 1
    then have "st = NoiseConflict" using False q by (simp add: st_def stop_state_of_def)
    then show ?thesis using q pos low curve(1)
      by (simp add: stop_score_def score_in_state_def)
  next
    case 2
    then have "st = TightButValid" using False q by (simp add: st_def stop_state_of_def)
    then show ?thesis using q pos kept curve(3,4) 2
      by (simp add: stop_score_def score_in_state_def)
  next
    case 3
    then have "st = HealthyStop" using False q by (simp add: st_def stop_state_of_def)
    then show ?thesis using q pos kept curve(2,5) 3
      by (simp add: stop_score_def score_in_state_def)
  qed
qed

text \<open>C21: c#stop_assessment_is_typed:
  On evidence of the expected shape the assessment of a stop never raises. Dictionaries are
  dictionaries (or falsy where the code writes or-braces), their times compare with a number,
  the reasons are texts and costs are not negative: then a row is returned, its score is None
  exactly in the unknown state and otherwise lies in the band of its state (0 for a rejected
  geometry, at most 35 under a noise conflict, between 57 and 67 for a tight stop, at least 66.6
  for a healthy one), a reason is given exactly for a rejection, and the stop is the plan's.\<close>

theorem stop_assessment_is_typed:
  assumes ev: "stop_evidence s" and costs: "costs_nonneg s cost"
  shows "\<exists>row. assess_stop s price now minimum_rr cost = Inr row
    \<and> score_in_state (sr_state row) (sr_score row)
    \<and> (sr_reasons row \<noteq> [] \<longleftrightarrow> sr_state row \<in> {UntradeableGeometry, StructurallyTooWide})
    \<and> sr_stop row = pl_stop s"
proof -
  from stop_reads_ok [OF ev, of price now cost] obtain v
    where r: "stop_reads s price now cost = Inr v" and o1: "is_obj (sv_plan v)"
      and o2: "is_obj (sv_wick v)" and t: "texts (jget_default (sv_plan v) ''reasons'' (JList []))"
    by (elim exE conjE)
  note view = stop_reads_view [OF r]
  from noise_safe_rr_ok [OF view costs] obtain rr where rr: "noise_safe_rr v = Inr rr" by (elim exE)
  from plan_too_wide_ok [OF o1 t] obtain wide where wide: "plan_too_wide (sv_plan v) = Inr wide" by (elim exE)
  let ?bad = "stop_invalid s v \<or> incompatible_noise (pl_horizon s) minimum_rr v rr"
  let ?wide = "wide \<or> wider_than (sv_distance v) (stop_limit (pl_horizon s) v)"
  let ?st = "stop_state_of ?bad ?wide (stop_ratio v)"
  have pos: "\<And>q. stop_ratio v = Some q \<Longrightarrow> \<not> ?bad \<Longrightarrow> 0 < q" using ratio_positive [OF view] by blast
  have "\<exists>score. stop_score ?st (stop_ratio v) = Inr score
      \<and> score_in_state ?st (case score of None \<Rightarrow> None | Some x \<Rightarrow> Some (clamp x 0 100))"
    by (rule stop_score_ok [OF _ refl]) (rule pos)
  then obtain score where sc: "stop_score ?st (stop_ratio v) = Inr score"
      and band: "score_in_state ?st (case score of None \<Rightarrow> None | Some x \<Rightarrow> Some (clamp x 0 100))"
    by (elim exE conjE)
  have trig: "is_obj (ev_dict s ''structural_trigger'')" using ev by (simp add: stop_evidence_def)
  have "(?st \<in> {UntradeableGeometry, StructurallyTooWide}) = (?bad \<or> ?wide)"
    by (auto simp: stop_state_of_def split: option.splits)
  then show ?thesis
    using r rr wide sc band trig o1 o2
    by (simp add: assess_stop_def Let_def get_key_ok get_or_ok)
qed

text \<open>What the states mean for prices.\<close>

lemma assess_stop_cases:
  assumes "assess_stop s price now minimum_rr cost = Inr row"
  obtains v rr wide where "view_of s price cost v" "noise_safe_rr v = Inr rr"
    "sr_state row = stop_state_of
       (stop_invalid s v \<or> incompatible_noise (pl_horizon s) minimum_rr v rr)
       (wide \<or> wider_than (sv_distance v) (stop_limit (pl_horizon s) v)) (stop_ratio v)"
    "sr_distance row = sv_distance v" "sr_noise row = sv_noise v"
    "sr_maximum_distance row = stop_limit (pl_horizon s) v" "sr_stop row = pl_stop s"
    "sr_noise_safe_rr row = rr"
  using assms by (auto simp: assess_stop_def Let_def chain_Inr dest!: stop_reads_view)

lemma stop_limit_pos: "stop_limit h v = Some l \<Longrightarrow> 0 < l"
  by (cases h) (auto simp: stop_limit_def max_atr_def dest: pos_opt_Some split: option.splits)

text \<open>C20: c#accepted_stop_is_sound:
  A stop that is called tight or healthy is one. The executable price is a number strictly
  between the stop and the first target on the plan's own side, the distance to the stop covers
  the known noise once for a tight stop and one and a half times for a healthy one, and it does
  not exceed the limit set by the horizon's multiple of the setup range, when that is known.
  A noise conflict that is not rejected still leaves the required ratio if the stop were as wide
  as the noise, as far as that ratio is known.\<close>

theorem accepted_stop_is_sound:
  assumes row: "assess_stop s price now minimum_rr cost = Inr row"
    and st: "sr_state row \<in> {TightButValid, HealthyStop, NoiseConflict}"
  shows "number price
    \<and> (\<exists>d n. sr_distance row = Some d \<and> sr_noise row = Some n
         \<and> d = pl_sign s * (num_val price - pl_stop s) \<and> 0 < d \<and> 0 < n
         \<and> (sr_state row = TightButValid \<longrightarrow> n \<le> d \<and> d < 3 / 2 * n)
         \<and> (sr_state row = HealthyStop \<longrightarrow> 3 / 2 * n \<le> d)
         \<and> (sr_state row = NoiseConflict \<longrightarrow>
              d < n \<and> (\<forall>x. sr_noise_safe_rr row = Some x \<longrightarrow> minimum_rr \<le> x))
         \<and> (\<forall>l. sr_maximum_distance row = Some l \<longrightarrow> d \<le> l))
    \<and> 0 < pl_sign s * (pl_tp1 s - num_val price) \<and> 0 < sr_stop row"
proof -
  from row obtain v rr wide where v: "view_of s price cost v"
    and state: "sr_state row = stop_state_of
       (stop_invalid s v \<or> incompatible_noise (pl_horizon s) minimum_rr v rr)
       (wide \<or> wider_than (sv_distance v) (stop_limit (pl_horizon s) v)) (stop_ratio v)"
    and parts: "sr_distance row = sv_distance v" "sr_noise row = sv_noise v"
      "sr_maximum_distance row = stop_limit (pl_horizon s) v" "sr_stop row = pl_stop s"
      "sr_noise_safe_rr row = rr"
    by (rule assess_stop_cases)
  have ok: "\<not> stop_invalid s v" "\<not> incompatible_noise (pl_horizon s) minimum_rr v rr"
    and narrow: "\<not> wider_than (sv_distance v) (stop_limit (pl_horizon s) v)"
    using st state by (auto simp: stop_state_of_def split: if_splits)
  obtain q where q: "stop_ratio v = Some q"
    using st state ok by (cases "stop_ratio v") (auto simp: stop_state_of_def split: if_splits)
  from stop_ratio_pos [OF v q] obtain d n where d: "sv_distance v = Some d" and n: "sv_noise v = Some n"
    and n0: "0 < n" and qd: "q = d / n" by (elim exE conjE)
  have price: "number price" and dd: "d = pl_sign s * (num_val price - pl_stop s)"
    and rew: "sv_reward v = Some (pl_sign s * (pl_tp1 s - num_val price))"
    using v d by (auto simp: view_of_def split: if_splits)
  have pos: "0 < d" "0 < pl_sign s * (pl_tp1 s - num_val price)" "0 < pl_stop s"
    using ok(1) d rew by (auto simp: stop_invalid_def opt_pos_def)
  have lim: "d \<le> l" if "stop_limit (pl_horizon s) v = Some l" for l
    using narrow d that pos stop_limit_pos [OF that] by (auto simp: wider_than_def not_less)
  have bands: "sr_state row = (if q < 1 then NoiseConflict else if q < 3 / 2 then TightButValid else HealthyStop)"
    using state ok narrow st q by (auto simp: stop_state_of_def split: if_splits)
  have rr: "minimum_rr \<le> x" if "q < 1" "rr = Some x" for x
    using ok(2) q that by (auto simp: incompatible_noise_def not_less)
  have scale: "q < 1 \<longleftrightarrow> d < n" "q < 3 / 2 \<longleftrightarrow> d < 3 / 2 * n"
    using n0 by (simp_all add: qd divide_less_eq)
  show ?thesis
    using price d n dd pos n0 lim bands rr scale parts by (auto split: if_splits)
qed

subsection \<open>The claims at work\<close>

definition demo_stop_plan :: plan_view where
  "demo_stop_plan =
     \<lparr>pl_direction = LONG, pl_source = JStr ''bybit'', pl_symbol = JStr ''BTCUSDT'', pl_created = 1000,
      pl_entry = 100, pl_stop = 97, pl_tp1 = 108, pl_tp2 = 112, pl_horizon = CORE_INTRADAY,
      pl_hold_max = 240, pl_deadline = None,
      pl_evidence =
        [(''setup_features'', JObj [(''atr'', JInt 2), (''asof'', JInt 900)]),
         (''execution_features'', JObj [(''atr'', JInt 1)]),
         (''execution'', JObj [(''short_horizon_noise'', JInt 1)]),
         (''wick_regime'', JObj [(''adverse_wick_q80'', JInt 2), (''available_ms'', JInt 990)]),
         (''stop_plan'', JObj [(''reasons'', JList [JStr ''STOP_NEAR_NOISE''])])],
      pl_risk = [(''cost_per_base'', JFlt (Fin (1 / 10)))]\<rparr>"

lemma stop_assessment_is_typed_witness:
  "\<exists>row. assess_stop demo_stop_plan (JInt 100) 2000 (3 / 2) JNull = Inr row
     \<and> score_in_state (sr_state row) (sr_score row) \<and> sr_stop row = 97"
proof -
  have "stop_evidence demo_stop_plan" and "costs_nonneg demo_stop_plan JNull" by code_simp+
  from stop_assessment_is_typed [OF this, of "JInt 100" 2000 "3 / 2"]
  show ?thesis by (auto simp: demo_stop_plan_def)
qed

lemma accepted_stop_is_sound_witness:
  "\<exists>row. assess_stop demo_stop_plan (JInt 100) 2000 (3 / 2) JNull = Inr row
     \<and> sr_state row = HealthyStop \<and> (\<exists>d n. sr_distance row = Some d \<and> sr_noise row = Some n \<and> 3 / 2 * n \<le> d)"
proof -
  have "(case assess_stop demo_stop_plan (JInt 100) 2000 (3 / 2) JNull of
      Inl e \<Rightarrow> False | Inr row \<Rightarrow> sr_state row = HealthyStop)" by code_simp
  then obtain row where row: "assess_stop demo_stop_plan (JInt 100) 2000 (3 / 2) JNull = Inr row"
    and st: "sr_state row = HealthyStop"
    by (cases "assess_stop demo_stop_plan (JInt 100) 2000 (3 / 2) JNull") auto
  show ?thesis using accepted_stop_is_sound [OF row] row st by auto
qed

end
