(* ===== verification/Segments.thy ===== *)
theory Segments imports Candles "HOL-Library.Sublist" "HOL-Library.Multiset" "HOL-Library.Product_Lexorder" "HOL-Library.List_Lexorder" "HOL-Library.Char_ord" begin

text \<open>
  Reading recorded segments back, \<^verbatim>\<open>segment_rows\<close> of
  \<^verbatim>\<open>src/bybit_flow/replay.py\<close>: segments in the order of their manifests, each
  checked against its hash and for receipt order, with an explicit gap row wherever a segment
  does not name the one before it. The generator is modelled by the rows it yields and the
  exception it ends with, if any. A row is abstract: its receipt time and the gap row of a
  time are parameters; the hash of the bytes read is part of the segment.
\<close>

record 'r segment_file =
  sf_id :: string
  sf_sha :: string
  sf_min_receipt :: "ms option"
  sf_collected :: ms
  sf_previous :: "(string \<times> string) option"
  sf_digest :: string
  sf_rows :: "'r list"

definition sf_order :: "'r segment_file \<Rightarrow> ms \<times> string" where
  "sf_order s = ((case sf_min_receipt s of None \<Rightarrow> sf_collected s | Some m \<Rightarrow> m), sf_id s)"

text \<open>The inner generator: the rows up to the first one that goes back in time.\<close>

fun checked_rows :: "('r \<Rightarrow> ms) \<Rightarrow> ms \<Rightarrow> 'r list \<Rightarrow> 'r list \<times> py_error option" where
  "checked_rows receipt previous [] = ([], None)"
| "checked_rows receipt previous (r # rs) =
     (if receipt r < previous then ([], Some (ValueError ''Non-monotonic segment receipt time''))
      else let (ys, e) = checked_rows receipt (receipt r) rs in (r # ys, e))"

definition read_segment :: "('r \<Rightarrow> ms) \<Rightarrow> 'r segment_file \<Rightarrow> 'r list \<times> py_error option" where
  "read_segment receipt s =
     (if sf_digest s \<noteq> sf_sha s then ([], Some (ValueError ''Raw segment integrity mismatch''))
      else checked_rows receipt (- 1) (sf_rows s))"

text \<open>The outer loop over the rows of one segment; Inr is the last receipt time.\<close>

fun emit_rows :: "('r \<Rightarrow> ms) \<Rightarrow> ms \<Rightarrow> 'r list \<Rightarrow> py_error option \<Rightarrow> 'r list \<times> (py_error + ms)" where
  "emit_rows receipt past [] None = ([], Inr past)"
| "emit_rows receipt past [] (Some e) = ([], Inl e)"
| "emit_rows receipt past (r # rs) e =
     (if receipt r < past then ([], Inl (ValueError ''Overlapping or non-monotonic recording segments''))
      else let (ys, z) = emit_rows receipt (receipt r) rs e in (r # ys, z))"

definition chained :: "'r segment_file \<Rightarrow> 'r segment_file \<Rightarrow> bool" where
  "chained a b \<longleftrightarrow> sf_previous b = Some (sf_id a, sf_sha a)"

definition gap_before ::
    "(ms \<Rightarrow> 'r) \<Rightarrow> 'r segment_file option \<Rightarrow> 'r segment_file \<Rightarrow> ms \<Rightarrow> 'r list" where
  "gap_before gap previous s at_ms =
     (case previous of None \<Rightarrow> [] | Some p \<Rightarrow> if chained p s then [] else [gap at_ms])"

fun emit_segments ::
    "('r \<Rightarrow> ms) \<Rightarrow> (ms \<Rightarrow> 'r) \<Rightarrow> 'r segment_file option \<Rightarrow> ms \<Rightarrow> 'r segment_file list
     \<Rightarrow> 'r list \<times> py_error option" where
  "emit_segments receipt gap previous past [] = ([], None)"
| "emit_segments receipt gap previous past (s # ss) =
     (case read_segment receipt s of
        ([], None) \<Rightarrow> emit_segments receipt gap previous past ss
      | ([], Some e) \<Rightarrow> ([], Some e)
      | (r # rs, e) \<Rightarrow>
          (case emit_rows receipt past (r # rs) e of
             (ys, Inl x) \<Rightarrow> (gap_before gap previous s (receipt r) @ ys, Some x)
           | (ys, Inr past') \<Rightarrow>
               let (zs, x) = emit_segments receipt gap (Some s) past' ss
               in (gap_before gap previous s (receipt r) @ ys @ zs, x)))"

definition segment_rows ::
    "('r \<Rightarrow> ms) \<Rightarrow> (ms \<Rightarrow> 'r) \<Rightarrow> 'r segment_file list \<Rightarrow> 'r list \<times> py_error option" where
  "segment_rows receipt gap files = emit_segments receipt gap None (- 1) (sort_key sf_order files)"

subsection \<open>Order and completeness\<close>

definition rising :: "('r \<Rightarrow> ms) \<Rightarrow> ms \<Rightarrow> 'r list \<Rightarrow> bool" where
  "rising receipt past rows \<longleftrightarrow> sorted (past # map receipt rows)"

lemma rising_simps [simp]:
  "rising receipt past []"
  "rising receipt past (r # rs) \<longleftrightarrow> past \<le> receipt r \<and> rising receipt (receipt r) rs"
  by (auto simp: rising_def)

lemma checked_rows_ok: "checked_rows receipt previous rows = (ys, None) \<Longrightarrow> ys = rows"
  by (induction receipt previous rows arbitrary: ys rule: checked_rows.induct)
    (auto split: if_splits prod.splits)

lemma emit_rows_rising:
  "emit_rows receipt past rows e = (ys, z) \<Longrightarrow>
     rising receipt past ys \<and> (\<forall>t. z = Inr t \<longrightarrow> ys = rows \<and> e = None
       \<and> t = (if rows = [] then past else receipt (last rows)))"
  by (induction receipt past rows e arbitrary: ys z rule: emit_rows.induct)
    (auto split: if_splits prod.splits)

lemma rising_append:
  "rising receipt past xs \<Longrightarrow> rising receipt (if xs = [] then past else receipt (last xs)) ys
   \<Longrightarrow> rising receipt past (xs @ ys)"
  by (induction xs arbitrary: past) (auto simp: if_distrib split: if_splits)

lemma read_segment_ok:
  "read_segment receipt s = (ys, None) \<Longrightarrow> sf_digest s = sf_sha s \<and> ys = sf_rows s"
  by (auto simp: read_segment_def checked_rows_ok split: if_splits)

text \<open>The segments that hold a row, and the places where the chain between them is broken.\<close>

definition filled_segments :: "'r segment_file list \<Rightarrow> 'r segment_file list" where
  "filled_segments ss = filter (\<lambda>s. sf_rows s \<noteq> []) ss"

fun breaks :: "'r segment_file option \<Rightarrow> 'r segment_file list \<Rightarrow> nat" where
  "breaks previous [] = 0"
| "breaks previous (s # ss) =
     (case previous of None \<Rightarrow> 0 | Some p \<Rightarrow> if chained p s then 0 else 1) + breaks (Some s) ss"

lemma emit_segments_complete:
  assumes gap: "\<And>t. receipt (gap t) = t"
  shows "emit_segments receipt gap previous past ss = (ys, None) \<Longrightarrow>
    rising receipt past ys
    \<and> length ys = length (concat (map sf_rows ss)) + breaks previous (filled_segments ss)
    \<and> subseq (concat (map sf_rows ss)) ys
    \<and> (\<forall>s \<in> set ss. sf_digest s = sf_sha s)"
proof (induction ss arbitrary: previous past ys)
  case Nil
  then show ?case by (simp add: filled_segments_def)
next
  case (Cons s ss)
  obtain rows e where read: "read_segment receipt s = (rows, e)" by (cases "read_segment receipt s")
  show ?case
  proof (cases rows)
    case Nil
    then have e: "e = None" and rest: "emit_segments receipt gap previous past ss = (ys, None)"
      using Cons.prems read by (cases e; simp)+
    then have "sf_digest s = sf_sha s" "sf_rows s = []"
      using read_segment_ok [of receipt s] read Nil by auto
    then show ?thesis using Cons.IH [OF rest] by (simp add: filled_segments_def)
  next
    case (Cons r rs)
    obtain out z where emit: "emit_rows receipt past (r # rs) e = (out, z)"
      by (cases "emit_rows receipt past (r # rs) e")
    obtain t where z: "z = Inr t"
      using Cons.prems read Cons emit by (cases z) auto
    have out: "rising receipt past out" "out = r # rs" "e = None" "t = receipt (last (r # rs))"
      using emit_rows_rising [OF emit] z by auto
    obtain zs where rest: "emit_segments receipt gap (Some s) t ss = (zs, None)"
      and ys: "ys = gap_before gap previous s (receipt r) @ (r # rs) @ zs"
      using Cons.prems read Cons emit z out by (auto split: prod.splits)
    have s: "sf_digest s = sf_sha s" "sf_rows s = r # rs"
      using read_segment_ok [of receipt s] read Cons out by auto
    note ih = Cons.IH [OF rest]
    have "rising receipt past ((r # rs) @ zs)"
      using rising_append [of receipt past "r # rs" zs] out ih by simp
    moreover have "length (gap_before gap previous s (receipt r)) =
        (case previous of None \<Rightarrow> 0 | Some p \<Rightarrow> if chained p s then 0 else 1)"
      by (simp add: gap_before_def split: option.split)
    moreover have "subseq (concat (map sf_rows ss)) zs" using ih by blast
    ultimately show ?thesis
      using ih ys s gap
      by (auto simp: filled_segments_def gap_before_def split: option.splits
          intro: list_emb_append_mono subseq_order.refl)
  qed
qed

text \<open>Counting the rows of a kind that every gap row is of.\<close>

lemma emit_segments_count:
  assumes gap: "\<And>t. P (gap t)"
  shows "emit_segments receipt gap previous past ss = (ys, None) \<Longrightarrow>
    length (filter P ys) = length (filter P (concat (map sf_rows ss))) + breaks previous (filled_segments ss)"
proof (induction ss arbitrary: previous past ys)
  case Nil
  then show ?case by (simp add: filled_segments_def)
next
  case (Cons s ss)
  obtain rows e where read: "read_segment receipt s = (rows, e)" by (cases "read_segment receipt s")
  show ?case
  proof (cases rows)
    case Nil
    then have e: "e = None" and rest: "emit_segments receipt gap previous past ss = (ys, None)"
      using Cons.prems read by (cases e; simp)+
    then have "sf_rows s = []" using read_segment_ok [of receipt s] read Nil by auto
    then show ?thesis using Cons.IH [OF rest] by (simp add: filled_segments_def)
  next
    case (Cons r rs)
    obtain out z where emit: "emit_rows receipt past (r # rs) e = (out, z)"
      by (cases "emit_rows receipt past (r # rs) e")
    obtain t where z: "z = Inr t"
      using Cons.prems read Cons emit by (cases z) auto
    have out: "out = r # rs" "e = None" using emit_rows_rising [OF emit] z by auto
    obtain zs where rest: "emit_segments receipt gap (Some s) t ss = (zs, None)"
      and ys: "ys = gap_before gap previous s (receipt r) @ (r # rs) @ zs"
      using Cons.prems read Cons emit z out by (auto split: prod.splits)
    have s: "sf_rows s = r # rs" using read_segment_ok [of receipt s] read Cons out by auto
    show ?thesis using Cons.IH [OF rest] ys s gap
      by (auto simp: filled_segments_def gap_before_def split: option.splits)
  qed
qed


definition demo_segment :: "string \<Rightarrow> (string \<times> string) option \<Rightarrow> ms list \<Rightarrow> ms segment_file" where
  "demo_segment name previous rows =
     \<lparr>sf_id = name, sf_sha = name, sf_min_receipt = Some (hd rows), sf_collected = 0,
      sf_previous = previous, sf_digest = name, sf_rows = rows\<rparr>"


end
