(* ===== verification/Spread.thy ===== *)
theory Spread imports Footprint begin

text \<open>
  The quote history behind the normal-spread gate, class \<^verbatim>\<open>SpreadHistory\<close> of
  \<^verbatim>\<open>src/bybit_flow/liquidity.py\<close>: at most one valid quote per time bucket, a rolling
  window, and the assessment of median, tail and coverage. Quotes are finite by the number
  model; the export is the row list in bucket order.
\<close>

record quote =
  qt_known :: ms
  qt_event :: ms
  qt_bps :: "dec option"

record spread_history =
  sh_rows :: "(int \<times> quote) list"
  sh_bucket_ms :: ms
  sh_window_ms :: ms

definition history_new :: spread_history where
  "history_new = \<lparr>sh_rows = [], sh_bucket_ms = 300000, sh_window_ms = 21600000\<rparr>"

definition quote_valid :: "ms \<Rightarrow> ms \<Rightarrow> dec \<Rightarrow> dec \<Rightarrow> bool" where
  "quote_valid event receipt bid ask \<longleftrightarrow>
     bid < ask \<and> 0 < bid \<and> - 1000 \<le> receipt - event \<and> receipt - event \<le> 10000"

definition spread_bps :: "dec \<Rightarrow> dec \<Rightarrow> dec" where
  "spread_bps bid ask = 10000 * (ask - bid) / ((ask + bid) / 2)"

definition history_add :: "ms \<Rightarrow> ms \<Rightarrow> dec \<Rightarrow> dec \<Rightarrow> spread_history \<Rightarrow> spread_history" where
  "history_add event receipt bid ask h =
     (let bucket = receipt div sh_bucket_ms h in
      if (case map_of (sh_rows h) bucket of None \<Rightarrow> False | Some q \<Rightarrow> qt_bps q \<noteq> None) then h
      else
        let q = \<lparr>qt_known = receipt, qt_event = event,
                 qt_bps = (if quote_valid event receipt bid ask then Some (spread_bps bid ask) else None)\<rparr>;
            cutoff = (receipt - sh_window_ms h) div sh_bucket_ms h
        in h\<lparr>sh_rows := filter (\<lambda>(k, _). k \<ge> cutoff) (AList.update bucket q (sh_rows h))\<rparr>)"

record spread_view =
  sp_samples :: nat
  sp_expected :: int
  sp_coverage :: dec
  sp_median :: "dec option"
  sp_p90 :: "dec option"
  sp_reasons :: "string list"

definition known_quotes :: "ms \<Rightarrow> spread_history \<Rightarrow> (int \<times> quote) list" where
  "known_quotes asof h =
     sort_key fst (filter (\<lambda>(_, q). asof - sh_window_ms h \<le> qt_known q \<and> qt_known q \<le> asof) (sh_rows h))"

definition quote_values :: "(int \<times> quote) list \<Rightarrow> dec list" where
  "quote_values rows = sort (map (\<lambda>(_, q). the (qt_bps q)) (filter (\<lambda>(_, q). qt_bps q \<noteq> None) rows))"

definition tail_index :: "nat \<Rightarrow> nat" where
  "tail_index n = nat (max 0 (\<lceil>(9 / 10 :: dec) * of_nat n\<rceil> - 1))"

definition history_assess :: "ms \<Rightarrow> dec \<Rightarrow> nat \<Rightarrow> dec \<Rightarrow> spread_history \<Rightarrow> spread_view" where
  "history_assess asof max_bps min_samples min_coverage h =
     (let rows = known_quotes asof h; values = quote_values rows;
          expected = (if rows \<noteq> [] then asof div sh_bucket_ms h - fst (hd rows) + 1 else 0);
          coverage = (if expected \<noteq> 0 then of_nat (length values) / of_int expected else 0);
          med = (if values \<noteq> [] then Some (median values) else None);
          p90 = (if values \<noteq> [] then Some (values ! tail_index (length values)) else None)
      in \<lparr>sp_samples = length values, sp_expected = expected, sp_coverage = coverage,
          sp_median = med, sp_p90 = p90,
          sp_reasons =
            (if length values < min_samples then [''normal spread warming up''] else [])
            @ (if coverage < min_coverage then [''normal spread observation coverage insufficient''] else [])
            @ (case med of None \<Rightarrow> [] | Some m \<Rightarrow>
                 if m > max_bps then [''normal median spread exceeds gate''] else [])
            @ (case p90 of None \<Rightarrow> [] | Some t \<Rightarrow>
                 if t > 2 * max_bps then [''normal spread tail exceeds gate''] else [])\<rparr>)"

definition eligible :: "spread_view \<Rightarrow> bool" where
  "eligible v \<longleftrightarrow> sp_reasons v = []"

subsection \<open>One quote per bucket\<close>

definition history_inv :: "spread_history \<Rightarrow> bool" where
  "history_inv h \<longleftrightarrow>
     0 < sh_bucket_ms h \<and> 0 \<le> sh_window_ms h \<and> distinct (map fst (sh_rows h))
     \<and> (\<forall>(k, q) \<in> set (sh_rows h). k = qt_known q div sh_bucket_ms h
          \<and> (\<forall>b. qt_bps q = Some b \<longrightarrow> 0 < b))"

lemma history_inv_new: "history_inv history_new"
  by (simp add: history_inv_def history_new_def)

lemma set_update_cases: "(k, v) \<in> set (AList.update a b xs) \<Longrightarrow> (k, v) = (a, b) \<or> (k, v) \<in> set xs"
  by (induction xs) (auto split: if_splits)

lemma spread_bps_pos: "quote_valid event receipt bid ask \<Longrightarrow> 0 < spread_bps bid ask"
  by (simp add: quote_valid_def spread_bps_def)

lemma history_add_inv:
  assumes inv: "history_inv h"
  shows "history_inv (history_add event receipt bid ask h)"
proof -
  have "distinct (map fst (filter p (AList.update k q (sh_rows h))))" for p k q
    using inv by (auto simp: history_inv_def intro!: distinct_map_filter distinct_update)
  then show ?thesis
    using inv spread_bps_pos [of event receipt bid ask]
    by (fastforce simp: history_inv_def history_add_def Let_def dest!: set_update_cases split: if_splits)
qed

definition history_step :: "ms \<times> ms \<times> dec \<times> dec \<Rightarrow> spread_history \<Rightarrow> spread_history" where
  "history_step e h = (case e of (event, receipt, bid, ask) \<Rightarrow> history_add event receipt bid ask h)"

interpretation spread_machine: step_invariant history_step history_inv
  by unfold_locales (auto simp: history_step_def history_add_inv split: prod.splits)

text \<open>The number of quotes never exceeds the number of buckets since the first.\<close>

lemma sorted_span:
  assumes "distinct ks" "sorted ks" "ks \<noteq> []" "\<forall>k \<in> set ks. k \<le> (m :: int)"
  shows "int (length ks) \<le> m - hd ks + 1"
proof -
  have "set ks \<subseteq> {hd ks .. m}" using assms by (cases ks) auto
  then have "card (set ks) \<le> card {hd ks .. m}" by (intro card_mono) auto
  moreover have "hd ks \<le> m" using assms by simp
  ultimately show ?thesis using assms(1) by (simp add: distinct_card)
qed

lemma quotes_expected:
  assumes inv: "history_inv h" and ne: "known_quotes asof h \<noteq> []"
  shows "int (length (known_quotes asof h)) \<le> asof div sh_bucket_ms h - fst (hd (known_quotes asof h)) + 1"
proof -
  let ?ks = "map fst (known_quotes asof h)"
  have "distinct ?ks" using inv
    by (simp add: known_quotes_def history_inv_def distinct_map inj_on_filter_key_eq inj_on_def)
  moreover have "sorted ?ks" by (simp add: known_quotes_def)
  moreover have "\<forall>k \<in> set ?ks. k \<le> asof div sh_bucket_ms h"
    using inv by (auto simp: known_quotes_def history_inv_def intro!: zdiv_mono1)
  ultimately show ?thesis using sorted_span [of ?ks] ne by (simp add: hd_map)
qed

subsection \<open>The gate\<close>

lemma tail_index_bounds:
  assumes "0 < n"
  shows "tail_index n < n" "10 * (n - Suc (tail_index n)) \<le> n"
proof -
  define c where "c = \<lceil>(9 / 10 :: dec) * of_nat n\<rceil>"
  have low: "(9 / 10 :: dec) * of_nat n \<le> of_int c" by (simp add: c_def)
  have "c \<le> int n" unfolding c_def by (subst ceiling_le_iff) simp
  moreover have "0 < c" using assms unfolding c_def by simp
  ultimately have c: "1 \<le> c" "c \<le> int n" by simp_all
  then have t: "tail_index n = nat (c - 1)" unfolding tail_index_def c_def [symmetric] by simp
  show "tail_index n < n" using c t by simp
  have "(9 * int n) \<le> 10 * c" using low by (simp add: field_simps)
  then show "10 * (n - Suc (tail_index n)) \<le> n" using c t by linarith
qed

lemma sorted_tail_count:
  fixes vs :: "dec list"
  assumes "sorted vs" "i < length vs" "vs ! i \<le> limit"
  shows "length (filter (\<lambda>v. limit < v) vs) \<le> length vs - Suc i"
proof -
  have "filter (\<lambda>v. limit < v) (take (Suc i) vs) = []"
    using assms by (auto simp: filter_empty_conv in_set_conv_nth not_less)
      (meson dual_order.strict_trans1 less_Suc_eq_le order_trans sorted_nth_mono)
  then have "filter (\<lambda>v. limit < v) vs = filter (\<lambda>v. limit < v) (drop (Suc i) vs)"
    by (metis append_Nil append_take_drop_id filter_append)
  then show ?thesis by (metis length_drop length_filter_le)
qed

lemma quote_values_sorted: "sorted (quote_values rows)"
  by (simp add: quote_values_def)

lemma quote_values_length: "length (quote_values rows) \<le> length rows"
  by (simp add: quote_values_def)

text \<open>C#spread_gate_is_evidenced:
  A passed spread gate rests on evidence from the window. Every quote it used was known within
  the window and not after the evaluation time and has a positive spread, at least the required
  number of distinct time buckets has one, they cover the required share of the buckets since
  the first (a share that never exceeds one), the median spread is within the limit and at most
  a tenth of the quotes is wider than twice the limit.\<close>

theorem spread_gate_is_evidenced:
  assumes inv: "history_inv h" and ok: "eligible (history_assess asof max_bps min_samples min_coverage h)"
    and n: "0 < min_samples"
  defines "rows \<equiv> known_quotes asof h"
  defines "vs \<equiv> quote_values rows"
  shows "min_samples \<le> length vs \<and> distinct (map fst rows)
    \<and> (\<forall>(k, q) \<in> set rows. asof - sh_window_ms h \<le> qt_known q \<and> qt_known q \<le> asof)
    \<and> (\<forall>v \<in> set vs. 0 < v)
    \<and> min_coverage \<le> sp_coverage (history_assess asof max_bps min_samples min_coverage h)
    \<and> sp_coverage (history_assess asof max_bps min_samples min_coverage h) \<le> 1
    \<and> median vs \<le> max_bps
    \<and> 10 * length (filter (\<lambda>v. 2 * max_bps < v) vs) \<le> length vs"
proof -
  note view = history_assess_def [of asof max_bps min_samples min_coverage h, folded rows_def, folded vs_def]
  have many: "min_samples \<le> length vs"
    and cov: "min_coverage \<le> sp_coverage (history_assess asof max_bps min_samples min_coverage h)"
    using ok by (auto simp: eligible_def view Let_def vs_def not_less split: if_splits)
  then have "0 < length vs" using n by linarith
  then have ne: "vs \<noteq> []" "rows \<noteq> []" using quote_values_length [of rows] by (auto simp: vs_def)
  have med: "median vs \<le> max_bps" and p90: "vs ! tail_index (length vs) \<le> 2 * max_bps"
    using ok ne by (auto simp: eligible_def view Let_def vs_def not_less split: if_splits)
  have expected: "int (length vs) \<le> asof div sh_bucket_ms h - fst (hd rows) + 1"
    using quotes_expected [OF inv] ne quote_values_length [of rows] unfolding rows_def vs_def
    by (meson of_nat_mono order_trans)
  moreover have "0 < length vs" using ne by simp
  ultimately have pos: "0 < asof div sh_bucket_ms h - fst (hd rows) + 1" by linarith
  have "(of_nat (length vs) :: dec) \<le> of_int (asof div sh_bucket_ms h - fst (hd rows) + 1)"
    using expected by (metis of_int_le_iff of_int_of_nat_eq)
  then have le1: "sp_coverage (history_assess asof max_bps min_samples min_coverage h) \<le> 1"
    using pos ne by (simp add: view Let_def vs_def divide_le_eq)
  have dist: "distinct (map fst rows)" using inv unfolding rows_def
    by (simp add: known_quotes_def history_inv_def distinct_map inj_on_filter_key_eq inj_on_def)
  have times: "\<forall>(k, q) \<in> set rows. asof - sh_window_ms h \<le> qt_known q \<and> qt_known q \<le> asof"
    by (auto simp: rows_def known_quotes_def)
  have poss: "\<forall>v \<in> set vs. 0 < v" using inv
    by (fastforce simp: vs_def rows_def quote_values_def known_quotes_def history_inv_def)
  have "length (filter (\<lambda>v. 2 * max_bps < v) vs) \<le> length vs - Suc (tail_index (length vs))"
    using sorted_tail_count [OF quote_values_sorted, of "tail_index (length vs)" rows "2 * max_bps"]
      tail_index_bounds(1) [of "length vs"] p90 ne unfolding vs_def by simp
  then have tail: "10 * length (filter (\<lambda>v. 2 * max_bps < v) vs) \<le> length vs"
    using tail_index_bounds(2) [of "length vs"] ne by fastforce
  show ?thesis using many dist times poss cov le1 med tail by blast
qed

definition demo_quotes :: spread_history where
  "demo_quotes = fold history_step
     [(1000, 1500, 999, 1000), (301000, 302000, 999, 1000), (601000, 602000, 998, 1000)] history_new"

lemma spread_gate_is_evidenced_witness:
  "history_inv demo_quotes \<and> eligible (history_assess 700000 20 3 (8 / 10) demo_quotes)
   \<and> median (quote_values (known_quotes 700000 demo_quotes)) \<le> 20"
proof -
  have inv: "history_inv demo_quotes"
    unfolding demo_quotes_def by (rule spread_machine.run_inv [OF history_inv_new])
  have ok: "eligible (history_assess 700000 20 3 (8 / 10) demo_quotes)" by code_simp
  show ?thesis using inv ok spread_gate_is_evidenced [OF inv ok] by simp
qed

end
