(* ===== verification/Replay.thy ===== *)
theory Replay imports Segments Spread Risk Paper Tape begin

text \<open>
  The replay of a recording, \<^verbatim>\<open>replay\<close> of \<^verbatim>\<open>src/bybit_flow/replay.py\<close>, with
  the execution trigger \<^verbatim>\<open>confirm\<close> of \<^verbatim>\<open>strategy.py\<close>: rows in receipt
  order drive the same books, tapes, spread histories, risk gate and paper positions as the live
  program. Rows arrive parsed; the candidate rules are a parameter, a function from the market
  of a symbol to plans with the range of their execution candles, and every theorem holds for
  any such rules. The statistics of the report are not modelled.
\<close>

subsection \<open>Rows and settings\<close>

datatype bar_interval = Daily | Minutes int

datatype row_event =
    NativeRow
  | Membership "ms option" bool
  | EvaluateRow
  | BookGapRow
  | GapRow
  | Subscribed "string list"
  | Rotation "string list"
  | InstrumentRows "(string \<times> (string \<times> instrument \<times> dec) option) list"
  | TickerRows ms "(string \<times> dec \<times> dec) list"
  | FundingRows "ms list"
  | BookRow book_msg
  | TradeRows "(bool \<times> trade) list"
  | KlineRow bar_interval "bar list"
  | OtherRow

record replay_row =
  rw_receipt :: ms
  rw_symbol :: string
  rw_event :: row_event

record replay_settings =
  cfg_risk :: risk_settings
  cfg_tape_max :: nat
  cfg_scan_seconds :: int
  cfg_trade_stale_ms :: ms
  cfg_spread_min_samples :: nat
  cfg_min_daily_turnover :: dec

text \<open>The candidate rules: symbol, instrument and tick, the three candle windows, the time.\<close>

type_synonym rules =
  "string \<Rightarrow> instrument \<times> dec \<Rightarrow> bar list \<Rightarrow> bar list \<Rightarrow> bar list \<Rightarrow> ms \<Rightarrow> py_error + (signal \<times> dec) list"

record replay_state =
  rp_instruments :: "string \<rightharpoonup> instrument \<times> dec"
  rp_candles :: "string \<times> bar_interval \<Rightarrow> (ms \<times> bar) list"
  rp_books :: "string \<rightharpoonup> book"
  rp_tapes :: "string \<rightharpoonup> tape"
  rp_membership :: "string \<rightharpoonup> ms \<times> bool"
  rp_spreads :: "string \<rightharpoonup> spread_history"
  rp_positions :: "paper list"
  rp_seen :: "string list"
  rp_gaps :: nat
  rp_last :: ms
  rp_decisions :: nat
  rp_funding_seen :: "(string \<times> ms) list"

definition replay_start :: replay_state where
  "replay_start =
     \<lparr>rp_instruments = Map.empty, rp_candles = (\<lambda>_. []), rp_books = Map.empty, rp_tapes = Map.empty,
      rp_membership = Map.empty, rp_spreads = Map.empty, rp_positions = [], rp_seen = [], rp_gaps = 0,
      rp_last = - 1, rp_decisions = 0, rp_funding_seen = []\<rparr>"

text \<open>\<^verbatim>\<open>except ValueError\<close>: a \<^verbatim>\<open>BookGap\<close> is one.\<close>

fun is_value_error :: "py_error \<Rightarrow> bool" where
  "is_value_error (ValueError _) = True"
| "is_value_error (BookGap _) = True"
| "is_value_error _ = False"

subsection \<open>Gaps\<close>

definition is_open :: "paper \<Rightarrow> bool" where
  "is_open p \<longleftrightarrow> pp_exit_ms p = None"

definition add_data_gap :: "string \<Rightarrow> paper \<Rightarrow> paper" where
  "add_data_gap message p = p\<lparr>pp_data_gaps := pp_data_gaps p @ [message]\<rparr>"

definition taint :: "(paper \<Rightarrow> bool) \<Rightarrow> string \<Rightarrow> paper list \<Rightarrow> paper list" where
  "taint affected message ps = map (\<lambda>p. if affected p then add_data_gap message p else p) ps"

abbreviation open_on :: "string \<Rightarrow> paper \<Rightarrow> bool" where
  "open_on sy p \<equiv> sg_symbol (pp_signal p) = sy \<and> is_open p"

definition reset_symbol_book :: "string \<Rightarrow> replay_state \<Rightarrow> replay_state" where
  "reset_symbol_book sy st = st\<lparr>rp_books := (rp_books st)(sy := map_option book_reset (rp_books st sy))\<rparr>"

definition reset_tape_of :: "string \<Rightarrow> ms \<Rightarrow> replay_state \<Rightarrow> replay_state" where
  "reset_tape_of sy now st =
     st\<lparr>rp_tapes := (rp_tapes st)(sy := map_option (tape_reset now) (rp_tapes st sy))\<rparr>"

text \<open>\<^verbatim>\<open>tapes.setdefault(symbol, Tape(n)).reset(now)\<close>\<close>

definition renew_tape :: "nat \<Rightarrow> ms \<Rightarrow> string \<Rightarrow> replay_state \<Rightarrow> replay_state" where
  "renew_tape n now sy st =
     (let tp = (case rp_tapes st sy of None \<Rightarrow> tape_new n None | Some tp \<Rightarrow> tp)
      in st\<lparr>rp_tapes := (rp_tapes st)(sy \<mapsto> tape_reset now tp)\<rparr>)"

definition recording_gap :: "ms \<Rightarrow> replay_state \<Rightarrow> replay_state" where
  "recording_gap now st =
     st\<lparr>rp_gaps := rp_gaps st + 1,
        rp_positions := taint is_open ''recording discontinuity during fill/outcome window'' (rp_positions st),
        rp_books := (\<lambda>sy. map_option book_reset (rp_books st sy)),
        rp_tapes := (\<lambda>sy. map_option (tape_reset now) (rp_tapes st sy))\<rparr>"

definition rotate_out :: "ms \<Rightarrow> string \<Rightarrow> replay_state \<Rightarrow> replay_state" where
  "rotate_out now sy st =
     (let st1 = reset_tape_of sy now (reset_symbol_book sy st) in
      st1\<lparr>rp_positions := taint (open_on sy) ''subscription removed during outcome window'' (rp_positions st1)\<rparr>)"

subsection \<open>Market rows\<close>

definition put_instrument ::
    "string \<times> (string \<times> instrument \<times> dec) option \<Rightarrow> replay_state \<Rightarrow> replay_state" where
  "put_instrument row st =
     (case row of
        (raw, None) \<Rightarrow> st\<lparr>rp_instruments := (rp_instruments st)(raw := None)\<rparr>
      | (raw, Some (sy, ins)) \<Rightarrow> st\<lparr>rp_instruments := (rp_instruments st)(sy \<mapsto> ins)\<rparr>)"

definition put_ticker :: "ms \<Rightarrow> ms \<Rightarrow> string \<times> dec \<times> dec \<Rightarrow> replay_state \<Rightarrow> replay_state" where
  "put_ticker at_ms now row st =
     (case row of (sy, bid, ask) \<Rightarrow>
       let h = (case rp_spreads st sy of None \<Rightarrow> history_new | Some h \<Rightarrow> h)
       in st\<lparr>rp_spreads := (rp_spreads st)(sy \<mapsto> history_add at_ms now bid ask h)\<rparr>)"

definition put_funding :: "ms \<Rightarrow> string \<Rightarrow> ms \<Rightarrow> replay_state \<Rightarrow> replay_state" where
  "put_funding now sy stamp st =
     (if (sy, stamp) \<in> set (rp_funding_seen st) then st
      else st\<lparr>rp_funding_seen := (sy, stamp) # rp_funding_seen st,
              rp_positions := taint (\<lambda>p. sg_symbol (pp_signal p) = sy \<and> pp_quantity p \<noteq> 0
                  \<and> sg_created_ms (pp_signal p) \<le> stamp \<and> stamp \<le> or_ms (pp_exit_ms p) now)
                ''unverified_historical_funding'' (rp_positions st)\<rparr>)"

definition put_book :: "ms \<Rightarrow> string \<Rightarrow> book_msg \<Rightarrow> replay_state \<Rightarrow> py_error + replay_state" where
  "put_book now sy m st =
     (let bk = (case rp_books st sy of None \<Rightarrow> book_new | Some bk \<Rightarrow> bk) in
      case book_apply m now bk of
        (bk', Inr _) \<Rightarrow> Inr (st\<lparr>rp_books := (rp_books st)(sy \<mapsto> bk')\<rparr>)
      | (bk', Inl e) \<Rightarrow>
          if \<not> is_value_error e then Inl e
          else
            let st1 = renew_tape 200000 now sy (st\<lparr>rp_books := (rp_books st)(sy \<mapsto> bk'), rp_gaps := rp_gaps st + 1\<rparr>)
            in Inr (st1\<lparr>rp_positions :=
                 taint (open_on sy) ''book integrity lost during outcome window'' (rp_positions st1)\<rparr>))"

text \<open>One print: block trades are skipped, a duplicate does nothing, an ordering error is a gap.\<close>

definition put_trade :: "nat \<Rightarrow> ms \<Rightarrow> string \<Rightarrow> bool \<times> trade \<Rightarrow> replay_state \<Rightarrow> py_error + replay_state" where
  "put_trade n now sy row st =
     (case row of (block, raw) \<Rightarrow>
      if block then Inr st
      else case trade_post_init (raw\<lparr>tr_symbol := sy, tr_receipt_ms := now\<rparr>) of
        Inl e \<Rightarrow> Inl e
      | Inr t \<Rightarrow>
          let tp = (case rp_tapes st sy of None \<Rightarrow> tape_new n None | Some tp \<Rightarrow> tp) in
          case tape_add t tp of
            (tp', Inr False) \<Rightarrow> Inr (st\<lparr>rp_tapes := (rp_tapes st)(sy \<mapsto> tp')\<rparr>)
          | (tp', Inr True) \<Rightarrow>
              Inr (st\<lparr>rp_tapes := (rp_tapes st)(sy \<mapsto> tp'), rp_positions := map (on_trade t) (rp_positions st)\<rparr>)
          | (tp', Inl e) \<Rightarrow>
              if \<not> is_value_error e then Inl e
              else Inr (st\<lparr>rp_tapes := (rp_tapes st)(sy \<mapsto> tp'), rp_gaps := rp_gaps st + 1,
                     rp_positions := taint (open_on sy) ''trade ordering lost during outcome window''
                       (rp_positions st)\<rparr>))"

fun put_trades :: "nat \<Rightarrow> ms \<Rightarrow> string \<Rightarrow> (bool \<times> trade) list \<Rightarrow> replay_state \<Rightarrow> py_error + replay_state" where
  "put_trades n now sy [] st = Inr st"
| "put_trades n now sy (r # rs) st =
     (case put_trade n now sy r st of Inl e \<Rightarrow> Inl e | Inr st' \<Rightarrow> put_trades n now sy rs st')"

definition start_tape :: "nat \<Rightarrow> ms \<Rightarrow> string \<Rightarrow> replay_state \<Rightarrow> replay_state" where
  "start_tape n now sy st =
     (let tp = (case rp_tapes st sy of None \<Rightarrow> tape_new n None | Some tp \<Rightarrow> tp);
          tp' = (if tp_coverage_start tp = 0 then tape_reset now tp else tp)
      in st\<lparr>rp_tapes := (rp_tapes st)(sy \<mapsto> tp')\<rparr>)"

definition bar_width :: "bar_interval \<Rightarrow> ms" where
  "bar_width i = (case i of Daily \<Rightarrow> 86400000 | Minutes m \<Rightarrow> m * 60000)"

text \<open>Closed candles only, the newest three hundred starts.\<close>

definition put_bars :: "ms \<Rightarrow> string \<Rightarrow> bar_interval \<Rightarrow> bar list \<Rightarrow> replay_state \<Rightarrow> replay_state" where
  "put_bars now sy i rows st =
     (let bars = filter (\<lambda>b. bar_end b \<le> now) (map (\<lambda>b. b\<lparr>cd_interval := bar_width i\<rparr>) rows);
          bucket = fold (\<lambda>b. AList.update (cd_start b) b) bars (rp_candles st (sy, i));
          kept = set (last_n 300 (sort (map fst bucket)))
      in st\<lparr>rp_candles := (rp_candles st)((sy, i) := filter (\<lambda>(k, _). k \<in> kept) bucket)\<rparr>)"

definition bars_of :: "replay_state \<Rightarrow> string \<Rightarrow> bar_interval \<Rightarrow> bar list" where
  "bars_of st sy i = sort_key cd_start (map snd (rp_candles st (sy, i)))"

subsection \<open>Evaluation\<close>

text \<open>\<^verbatim>\<open>confirm\<close>: distinct families use distinct execution triggers.\<close>

definition confirm_flow :: "signal \<Rightarrow> footprint option \<Rightarrow> bar list \<Rightarrow> bool" where
  "confirm_flow s flow bars =
     (case flow of
        None \<Rightarrow> False
      | Some f \<Rightarrow>
          let long = (sg_direction s = LONG); final = last bars in
          if (long \<and> fo_delta_pct f < - 20 \<and> \<not> fo_absorption_long f)
             \<or> (\<not> long \<and> fo_delta_pct f > 20 \<and> \<not> fo_absorption_short f) then False
          else if sg_family s \<in> {''liquidity_sweep'', ''range_rejection''} then
            (if long then fo_absorption_long f \<and> cd_close final > cd_open final
             else fo_absorption_short f \<and> cd_close final < cd_open final)
          else
            (if long then fo_initiative_long f \<and> fo_stacked_buy f \<ge> 3
             else fo_initiative_short f \<and> fo_stacked_sell f \<ge> 3))"

record market_view =
  mk_instrument :: "instrument \<times> dec"
  mk_context :: "bar list"
  mk_setup :: "bar list"
  mk_execution :: "bar list"
  mk_book :: book
  mk_tape :: tape

text \<open>The guards in front of the rules: None means that the row is passed over.\<close>

definition view_of_market :: "replay_settings \<Rightarrow> ms \<Rightarrow> string \<Rightarrow> replay_state \<Rightarrow> market_view option" where
  "view_of_market cfg now sy st =
     (case (rp_instruments st sy, rp_tapes st sy, rp_books st sy) of
        (Some ins, Some tp, Some bk) \<Rightarrow>
          let c = bars_of st sy (Minutes 240); s = bars_of st sy (Minutes 60);
              x = bars_of st sy (Minutes 15); daily = bars_of st sy Daily;
              until = bar_end (last x)
          in if length c < 60 \<or> length s < 60 \<or> length x < 60 \<or> length daily < 30 then None
             else if (case rp_membership st sy of None \<Rightarrow> True
                      | Some (known, ok) \<Rightarrow> \<not> ok \<or> now - known > cfg_scan_seconds cfg * 1000 + 60000) then None
             else if (case rp_spreads st sy of None \<Rightarrow> True
                      | Some h \<Rightarrow> \<not> eligible (history_assess now (rs_max_spread_bps (cfg_risk cfg))
                                       (cfg_spread_min_samples cfg) (8 / 10) h)) then None
             else if validate_bars (last_n 30 daily) now \<noteq> Inr () then None
             else if median (map cd_turnover (last_n 7 daily)) < cfg_min_daily_turnover cfg then None
             else if list_ex (\<lambda>b. cd_volume b \<le> 0) (last_n 30 daily) \<or> now - bar_end (last daily) \<ge> 86400000 then None
             else if \<not> book_fresh bk now 5000
                     \<or> \<not> (0 < tp_coverage_start tp \<and> tp_coverage_start tp \<le> until - 900000)
                     \<or> now - until > 960000 then None
             else if \<not> (0 \<le> now - tp_last_receipt tp \<and> now - tp_last_receipt tp \<le> cfg_trade_stale_ms cfg
                        \<and> - 1000 \<le> now - tp_last_event tp \<and> now - tp_last_event tp \<le> cfg_trade_stale_ms cfg) then None
             else if (case Features.features now bk of None \<Rightarrow> True
                      | Some f \<Rightarrow> bf_spread_bps f > rs_max_spread_bps (cfg_risk cfg)) then None
             else Some \<lparr>mk_instrument = ins, mk_context = c, mk_setup = s, mk_execution = x, mk_book = bk, mk_tape = tp\<rparr>
      | _ \<Rightarrow> None)"

text \<open>The flow of the last execution candle, from prints and book changes up to its end.\<close>

definition window_flow :: "market_view \<Rightarrow> dec \<Rightarrow> footprint option" where
  "window_flow mk atr =
     (let until = bar_end (last (mk_execution mk));
          observed = book_new\<lparr>bk_valid := bk_valid (mk_book mk),
            bk_changes := filter (\<lambda>(t, _). t \<le> until) (bk_changes (mk_book mk))\<rparr>
      in footprint (tape_window (until - 900000) until (mk_tape mk)) (snd (mk_instrument mk)) atr (Some observed))"

definition paper_of :: "replay_settings \<Rightarrow> signal \<Rightarrow> paper" where
  "paper_of cfg s =
     (paper_new s (rs_hypothetical_notional (cfg_risk cfg) / sg_entry s))
       \<lparr>pp_fee_bps := rs_taker_fee_bps (cfg_risk cfg), pp_slippage_bps := rs_slippage_bps (cfg_risk cfg)\<rparr>"

definition consider_plan ::
    "replay_settings \<Rightarrow> ms \<Rightarrow> string \<Rightarrow> market_view \<Rightarrow> signal \<times> dec \<Rightarrow> replay_state \<Rightarrow> py_error + replay_state" where
  "consider_plan cfg now sy mk plan st =
     (case plan of (s, atr) \<Rightarrow>
      if sg_id s \<in> set (rp_seen st) \<or> sg_expires_ms s \<le> now then Inr st
      else if \<not> confirm_flow s (window_flow mk atr) (mk_execution mk) then Inr st
      else case evaluate_risk (cfg_risk cfg) (fst (mk_instrument mk)) (Some (mk_book mk)) None None s of
        Inl e \<Rightarrow> Inl e
      | Inr verdict \<Rightarrow>
          if \<not> risk_accepted verdict then Inr st
          else if list_ex (open_on sy) (rp_positions st) then Inr st
          else if sg_entry s = 0 then Inl ZeroDivision
          else case paper_post_init (paper_of cfg s) of
            Inl e \<Rightarrow> Inl e
          | Inr p \<Rightarrow> Inr (st\<lparr>rp_decisions := rp_decisions st + 1, rp_seen := sg_id s # rp_seen st,
                             rp_positions := rp_positions st @ [p]\<rparr>))"

fun consider_plans ::
    "replay_settings \<Rightarrow> ms \<Rightarrow> string \<Rightarrow> market_view \<Rightarrow> (signal \<times> dec) list \<Rightarrow> replay_state \<Rightarrow> py_error + replay_state" where
  "consider_plans cfg now sy mk [] st = Inr st"
| "consider_plans cfg now sy mk (p # ps) st =
     (case consider_plan cfg now sy mk p st of Inl e \<Rightarrow> Inl e | Inr st' \<Rightarrow> consider_plans cfg now sy mk ps st')"

definition evaluate_symbol ::
    "replay_settings \<Rightarrow> rules \<Rightarrow> ms \<Rightarrow> string \<Rightarrow> replay_state \<Rightarrow> py_error + replay_state" where
  "evaluate_symbol cfg rules now sy st =
     (case view_of_market cfg now sy st of
        None \<Rightarrow> Inr st
      | Some mk \<Rightarrow>
          (case rules sy (mk_instrument mk) (mk_context mk) (mk_setup mk) (mk_execution mk) now of
             Inl e \<Rightarrow> if is_value_error e then Inr st else Inl e
           | Inr plans \<Rightarrow> consider_plans cfg now sy mk plans st))"

subsection \<open>The loop\<close>

definition replay_event ::
    "replay_settings \<Rightarrow> rules \<Rightarrow> replay_row \<Rightarrow> replay_state \<Rightarrow> py_error + replay_state" where
  "replay_event cfg rules row st =
     (let now = rw_receipt row; sy = rw_symbol row in
      case rw_event row of
        NativeRow \<Rightarrow> Inl (ValueError ''Legacy strategy replay is Bybit-only'')
      | Membership known ok \<Rightarrow>
          evaluate_symbol cfg rules now sy
            (st\<lparr>rp_membership := (rp_membership st)(sy \<mapsto> ((case known of None \<Rightarrow> now | Some k \<Rightarrow> k), ok))\<rparr>)
      | EvaluateRow \<Rightarrow> evaluate_symbol cfg rules now sy st
      | BookGapRow \<Rightarrow> Inr (reset_symbol_book sy st)
      | GapRow \<Rightarrow> Inr (recording_gap now st)
      | Subscribed syms \<Rightarrow> Inr (fold (renew_tape (cfg_tape_max cfg) now) syms st)
      | Rotation syms \<Rightarrow> Inr (fold (rotate_out now) syms st)
      | InstrumentRows rows \<Rightarrow> Inr (fold put_instrument rows st)
      | TickerRows at_ms rows \<Rightarrow> Inr (fold (put_ticker at_ms now) rows st)
      | FundingRows stamps \<Rightarrow> Inr (fold (put_funding now sy) stamps st)
      | BookRow m \<Rightarrow> put_book now sy m st
      | TradeRows rows \<Rightarrow> put_trades (cfg_tape_max cfg) now sy rows (start_tape (cfg_tape_max cfg) now sy st)
      | KlineRow i rows \<Rightarrow> Inr (put_bars now sy i rows st)
      | OtherRow \<Rightarrow> Inr st)"

definition replay_step ::
    "replay_settings \<Rightarrow> rules \<Rightarrow> replay_row \<Rightarrow> replay_state \<Rightarrow> py_error + replay_state" where
  "replay_step cfg rules row st =
     (if rw_event row = NativeRow then Inl (ValueError ''Legacy strategy replay is Bybit-only'')
      else if rw_receipt row < rp_last st then Inl (ValueError ''Replay requires receipt order'')
      else replay_event cfg rules row (st\<lparr>rp_last := rw_receipt row\<rparr>))"

fun replay_rows ::
    "replay_settings \<Rightarrow> rules \<Rightarrow> replay_row list \<Rightarrow> replay_state \<Rightarrow> py_error + replay_state" where
  "replay_rows cfg rules [] st = Inr st"
| "replay_rows cfg rules (r # rs) st =
     (case replay_step cfg rules r st of Inl e \<Rightarrow> Inl e | Inr st' \<Rightarrow> replay_rows cfg rules rs st')"

section \<open>Correctness\<close>

subsection \<open>What an operation does to the positions\<close>

text \<open>
  Every operation maps the positions one by one and may append a new one. A position keeps its
  plan and its recorded gaps, and stays closed once closed.
\<close>

definition evolves :: "paper \<Rightarrow> paper \<Rightarrow> bool" where
  "evolves p q \<longleftrightarrow>
     pp_signal q = pp_signal p \<and> prefix (pp_data_gaps p) (pp_data_gaps q) \<and> (is_open q \<longrightarrow> is_open p)"

lemma evolves_refl [simp]: "evolves p p"
  by (simp add: evolves_def)

lemma evolves_trans: "evolves p q \<Longrightarrow> evolves q r \<Longrightarrow> evolves p r"
  by (auto simp: evolves_def intro: prefix_order.trans)

lemma evolves_note_gap [simp]: "evolves p (add_data_gap m p)"
  by (simp add: evolves_def add_data_gap_def is_open_def)

lemma note_gap_inv: "paper_inv p \<Longrightarrow> paper_inv (add_data_gap m p)"
  by (auto simp: paper_inv_def balanced_def bounded_def add_data_gap_def)

lemma fills_frame [simp]:
  "pp_signal (enter_fill t p) = pp_signal p" "pp_data_gaps (enter_fill t p) = pp_data_gaps p"
  "pp_signal (exit_fill t p) = pp_signal p" "pp_data_gaps (exit_fill t p) = pp_data_gaps p"
  "pp_signal (decide_exit t p) = pp_signal p" "pp_data_gaps (decide_exit t p) = pp_data_gaps p"
  "pp_signal (note_excursion x p) = pp_signal p" "pp_data_gaps (note_excursion x p) = pp_data_gaps p"
  by (simp_all add: enter_fill_def exit_fill_def decide_exit_def note_excursion_def Let_def)

lemma on_trade_frame:
  "pp_signal (on_trade t p) = pp_signal p" "pp_data_gaps (on_trade t p) = pp_data_gaps p"
  by (simp_all add: on_trade_def Let_def)

lemma on_trade_closed: "pp_exit_ms p \<noteq> None \<Longrightarrow> on_trade t p = p"
  by (simp add: on_trade_def)

lemma evolves_on_trade [simp]: "evolves p (on_trade t p)"
  using on_trade_frame [where t = t and p = p] on_trade_closed [where t = t and p = p]
  by (cases "pp_exit_ms p") (auto simp: evolves_def is_open_def)

definition evolve_all :: "paper list \<Rightarrow> paper list \<Rightarrow> bool" where
  "evolve_all ps qs \<longleftrightarrow> list_all2 evolves ps qs"

lemma evolve_all_refl [simp]: "evolve_all ps ps"
  by (simp add: evolve_all_def list_all2_same)

lemma evolve_all_trans: "evolve_all ps qs \<Longrightarrow> evolve_all qs rs \<Longrightarrow> evolve_all ps rs"
  unfolding evolve_all_def by (rule list_all2_trans [OF evolves_trans])

lemma evolve_all_taint [simp]: "evolve_all ps (taint c m ps)"
  by (simp add: evolve_all_def taint_def list_all2_map2 list_all2_same)

lemma evolve_all_trade [simp]: "evolve_all ps (map (on_trade t) ps)"
  by (simp add: evolve_all_def list_all2_map2 list_all2_same)

definition open_symbols :: "paper list \<Rightarrow> string list" where
  "open_symbols ps = map (\<lambda>p. sg_symbol (pp_signal p)) (filter is_open ps)"

lemma distinct_subseq: "subseq xs ys \<Longrightarrow> distinct ys \<Longrightarrow> distinct xs"
  by (auto simp: subseq_conv_nths distinct_nthsI)

lemma evolve_open: "evolve_all ps qs \<Longrightarrow> subseq (open_symbols qs) (open_symbols ps)"
  unfolding evolve_all_def
  by (induction rule: list_all2_induct) (auto simp: open_symbols_def evolves_def)

lemma evolve_ids: "evolve_all ps qs \<Longrightarrow> map (sg_id \<circ> pp_signal) qs = map (sg_id \<circ> pp_signal) ps"
  unfolding evolve_all_def by (induction rule: list_all2_induct) (auto simp: evolves_def)

subsection \<open>The invariant of the replay\<close>

definition positions_inv :: "replay_state \<Rightarrow> bool" where
  "positions_inv st \<longleftrightarrow>
     list_all paper_inv (rp_positions st)
     \<and> distinct (open_symbols (rp_positions st))
     \<and> rp_decisions st = length (rp_positions st)
     \<and> rp_seen st = rev (map (sg_id \<circ> pp_signal) (rp_positions st))
     \<and> distinct (rp_seen st)"

definition feeds_inv :: "replay_state \<Rightarrow> bool" where
  "feeds_inv st \<longleftrightarrow>
     (\<forall>sy tp. rp_tapes st sy = Some tp \<longrightarrow> tape_inv tp)
     \<and> (\<forall>sy bk. rp_books st sy = Some bk \<longrightarrow> book_inv bk)
     \<and> (\<forall>sy h. rp_spreads st sy = Some h \<longrightarrow> history_inv h)"

definition bars_inv :: "ms \<Rightarrow> replay_state \<Rightarrow> bool" where
  "bars_inv now st \<longleftrightarrow>
     (\<forall>key. distinct (map fst (rp_candles st key)) \<and> length (rp_candles st key) \<le> 300
        \<and> (\<forall>(k, b) \<in> set (rp_candles st key). cd_start b = k \<and> bar_end b \<le> now))"

text \<open>A step that only maps the positions keeps their invariant.\<close>

lemma positions_inv_mapped:
  assumes inv: "positions_inv st" and ev: "evolve_all (rp_positions st) (rp_positions st')"
    and ok: "list_all paper_inv (rp_positions st')"
    and same: "rp_seen st' = rp_seen st" "rp_decisions st' = rp_decisions st"
  shows "positions_inv st'"
proof -
  have "length (rp_positions st') = length (rp_positions st)"
    using ev by (auto simp: evolve_all_def dest: list_all2_lengthD)
  moreover have "distinct (open_symbols (rp_positions st'))"
    using evolve_open [OF ev] inv by (auto simp: positions_inv_def dest: distinct_subseq)
  ultimately show ?thesis
    using inv ok same evolve_ids [OF ev] unfolding positions_inv_def by (elim conjE) (intro conjI; metis)
qed

lemma taint_inv: "list_all paper_inv ps \<Longrightarrow> list_all paper_inv (taint c m ps)"
  by (auto simp: taint_def list_all_iff note_gap_inv)

lemma positions_inv_taint:
  "positions_inv st \<Longrightarrow> rp_positions st' = taint c m (rp_positions st) \<Longrightarrow> rp_seen st' = rp_seen st
   \<Longrightarrow> rp_decisions st' = rp_decisions st \<Longrightarrow> positions_inv st'"
  by (rule positions_inv_mapped) (auto simp: positions_inv_def taint_inv)

lemma positions_inv_same:
  "positions_inv st \<Longrightarrow> rp_positions st' = rp_positions st \<Longrightarrow> rp_seen st' = rp_seen st
   \<Longrightarrow> rp_decisions st' = rp_decisions st \<Longrightarrow> positions_inv st'"
  by (rule positions_inv_mapped) (auto simp: positions_inv_def)

subsection \<open>Each operation\<close>

lemma feeds_invD:
  assumes "feeds_inv st"
  shows "rp_tapes st sy = Some tp \<Longrightarrow> tape_inv tp" "rp_books st sy = Some bk \<Longrightarrow> book_inv bk"
    "rp_spreads st sy = Some h \<Longrightarrow> history_inv h"
  using assms by (auto simp: feeds_inv_def)

text \<open>Operations that leave the positions alone, or only taint them.\<close>

definition quiet :: "replay_state \<Rightarrow> replay_state \<Rightarrow> bool" where
  "quiet st st' \<longleftrightarrow>
     evolve_all (rp_positions st) (rp_positions st')
     \<and> (positions_inv st \<longrightarrow> positions_inv st') \<and> (feeds_inv st \<longrightarrow> feeds_inv st')
     \<and> rp_candles st' = rp_candles st \<and> rp_last st' = rp_last st \<and> rp_gaps st \<le> rp_gaps st'"

lemma quiet_refl [simp]: "quiet st st"
  by (simp add: quiet_def)

lemma quiet_trans: "quiet a b \<Longrightarrow> quiet b c \<Longrightarrow> quiet a c"
  by (auto simp: quiet_def intro: evolve_all_trans order_trans)

lemma quiet_fold: "(\<And>x st. quiet st (f x st)) \<Longrightarrow> quiet st (fold f xs st)"
  by (induction xs arbitrary: st) (auto intro: quiet_trans)

lemma quietI:
  assumes "rp_positions st' = rp_positions st \<or> (\<exists>c m. rp_positions st' = taint c m (rp_positions st))"
    and "rp_seen st' = rp_seen st" "rp_decisions st' = rp_decisions st"
    and "feeds_inv st \<Longrightarrow> feeds_inv st'" "rp_candles st' = rp_candles st" "rp_last st' = rp_last st"
    "rp_gaps st \<le> rp_gaps st'"
  shows "quiet st st'"
  using assms by (auto simp: quiet_def intro: positions_inv_same positions_inv_taint)

lemma quiet_reset_book: "quiet st (reset_symbol_book sy st)"
  by (rule quietI) (auto simp: reset_symbol_book_def feeds_inv_def)

lemma quiet_reset_tape: "quiet st (reset_tape_of sy now st)"
  by (rule quietI) (auto simp: reset_tape_of_def feeds_inv_def tape_inv_reset)

lemma tape_or_new_inv: "feeds_inv st \<Longrightarrow> 0 < n \<Longrightarrow>
    tape_inv (case rp_tapes st sy of None \<Rightarrow> tape_new n None | Some tp \<Rightarrow> tp)"
  by (auto simp: feeds_inv_def tape_inv_new split: option.splits)

lemma quiet_renew: "0 < n \<Longrightarrow> quiet st (renew_tape n now sy st)"
  using tape_or_new_inv [of st n sy]
  by (intro quietI) (auto simp: renew_tape_def Let_def feeds_inv_def tape_inv_reset tape_inv_new split: option.splits)

lemma quiet_start: "0 < n \<Longrightarrow> quiet st (start_tape n now sy st)"
  using tape_or_new_inv [of st n sy]
  by (intro quietI) (auto simp: start_tape_def Let_def feeds_inv_def tape_inv_reset tape_inv_new split: option.splits)

lemma quiet_gap: "quiet st (recording_gap now st)"
  by (rule quietI) (auto simp: recording_gap_def feeds_inv_def tape_inv_reset)

lemma quiet_rotate: "quiet st (rotate_out now sy st)"
proof -
  let ?st1 = "reset_tape_of sy now (reset_symbol_book sy st)"
  have "quiet ?st1 (rotate_out now sy st)"
    by (rule quietI) (auto simp: rotate_out_def Let_def feeds_inv_def)
  then show ?thesis using quiet_reset_book quiet_reset_tape quiet_trans by blast
qed

lemma quiet_instrument: "quiet st (put_instrument row st)"
  by (rule quietI) (auto simp: put_instrument_def feeds_inv_def split: prod.splits option.splits)

lemma quiet_ticker: "quiet st (put_ticker at_ms now row st)"
  by (rule quietI)
    (auto simp: put_ticker_def Let_def feeds_inv_def history_add_inv history_inv_new
      split: prod.splits option.splits)

lemma quiet_funding: "quiet st (put_funding now sy stamp st)"
  by (rule quietI) (auto simp: put_funding_def feeds_inv_def)

lemma quiet_membership: "quiet st (st\<lparr>rp_membership := m\<rparr>)"
  by (rule quietI) (auto simp: feeds_inv_def)

lemma quiet_book:
  assumes "put_book now sy m st = Inr st'"
  shows "quiet st st'"
proof -
  define bk where "bk = (case rp_books st sy of None \<Rightarrow> book_new | Some bk \<Rightarrow> bk)"
  obtain bk' res where app: "book_apply m now bk = (bk', res)" by (cases "book_apply m now bk")
  have bk': "feeds_inv st \<Longrightarrow> book_inv bk'"
    using book_apply_inv [of bk m now] app
    by (auto simp: bk_def feeds_inv_def book_inv_new split: option.splits)
  let ?st1 = "st\<lparr>rp_books := (rp_books st)(sy \<mapsto> bk'), rp_gaps := rp_gaps st + 1\<rparr>"
  have q1: "quiet st ?st1" using bk' by (intro quietI) (auto simp: feeds_inv_def)
  have q2: "quiet ?st1 (renew_tape 200000 now sy ?st1)" by (rule quiet_renew) simp
  show ?thesis
  proof (cases res)
    case (Inr u)
    then have "st' = st\<lparr>rp_books := (rp_books st)(sy \<mapsto> bk')\<rparr>"
      using assms app by (simp add: put_book_def Let_def bk_def [symmetric])
    then show ?thesis using bk' by (intro quietI) (auto simp: feeds_inv_def)
  next
    case (Inl e)
    let ?st2 = "renew_tape 200000 now sy ?st1"
    have "st' = ?st2\<lparr>rp_positions := taint (open_on sy) ''book integrity lost during outcome window'' (rp_positions ?st2)\<rparr>"
      using assms app Inl by (auto simp: put_book_def Let_def bk_def [symmetric] split: if_splits)
    then have "quiet ?st2 st'" by (intro quietI) (auto simp: feeds_inv_def)
    then show ?thesis using q1 q2 quiet_trans by blast
  qed
qed

lemma positions_inv_trade:
  assumes "positions_inv st" and "0 < tr_size t" and "rp_positions st' = map (on_trade t) (rp_positions st)"
    and "rp_seen st' = rp_seen st" "rp_decisions st' = rp_decisions st"
  shows "positions_inv st'"
proof (rule positions_inv_mapped [OF assms(1)])
  show "list_all paper_inv (rp_positions st')"
    using assms(1-3) by (auto simp: positions_inv_def list_all_iff on_trade_inv)
qed (use assms in simp_all)

lemma quiet_trade:
  assumes n: "0 < n" and run: "put_trade n now sy row st = Inr st'"
  shows "quiet st st'"
proof (cases "fst row")
  case True
  then show ?thesis using run by (simp add: put_trade_def split: prod.splits)
next
  case False
  then obtain print where row: "row = (False, print)" by (cases row) auto
  define tp where "tp = (case rp_tapes st sy of None \<Rightarrow> tape_new n None | Some tp \<Rightarrow> tp)"
  define raw where "raw = print\<lparr>tr_symbol := sy, tr_receipt_ms := now\<rparr>"
  obtain t where post: "trade_post_init raw = Inr t"
    using run by (cases "trade_post_init raw") (auto simp: put_trade_def raw_def row)
  then have size: "0 < tr_size t" by (auto simp: trade_post_init_def split: if_splits)
  obtain tp' res where add: "tape_add t tp = (tp', res)" by (cases "tape_add t tp")
  have tp': "feeds_inv st \<Longrightarrow> tape_inv tp'"
    using tape_step_inv [OF tape_or_new_inv [OF _ n], of st t sy] add
    by (simp add: tape_step_def tp_def [symmetric])
  have st': "(case res of
      Inr True \<Rightarrow> Inr (st\<lparr>rp_tapes := (rp_tapes st)(sy \<mapsto> tp'), rp_positions := map (on_trade t) (rp_positions st)\<rparr>)
    | Inr False \<Rightarrow> Inr (st\<lparr>rp_tapes := (rp_tapes st)(sy \<mapsto> tp')\<rparr>)
    | Inl e \<Rightarrow> if \<not> is_value_error e then Inl e
        else Inr (st\<lparr>rp_tapes := (rp_tapes st)(sy \<mapsto> tp'), rp_gaps := rp_gaps st + 1,
            rp_positions := taint (open_on sy) ''trade ordering lost during outcome window''
              (rp_positions st)\<rparr>)) = Inr st'"
    using run unfolding put_trade_def row prod.case if_False raw_def [symmetric] post sum.case Let_def
      tp_def [symmetric] add by (auto split: sum.splits bool.splits)
  show ?thesis
  proof (cases res)
    case (Inl e)
    then have "st' = st\<lparr>rp_tapes := (rp_tapes st)(sy \<mapsto> tp'), rp_gaps := rp_gaps st + 1,
        rp_positions := taint (open_on sy) ''trade ordering lost during outcome window'' (rp_positions st)\<rparr>"
      using st' by (auto split: if_splits)
    then show ?thesis using tp' by (intro quietI) (auto simp: feeds_inv_def)
  next
    case (Inr b)
    show ?thesis
    proof (cases b)
      case True
      then have eq: "st' = st\<lparr>rp_tapes := (rp_tapes st)(sy \<mapsto> tp'), rp_positions := map (on_trade t) (rp_positions st)\<rparr>"
        using st' Inr by simp
      have "positions_inv st \<Longrightarrow> positions_inv st'"
        by (rule positions_inv_trade [OF _ size]) (simp_all add: eq)
      then show ?thesis using tp' eq by (auto simp: quiet_def feeds_inv_def)
    next
      case False
      then have "st' = st\<lparr>rp_tapes := (rp_tapes st)(sy \<mapsto> tp')\<rparr>" using st' Inr by simp
      then show ?thesis using tp' by (intro quietI) (auto simp: feeds_inv_def)
    qed
  qed
qed

lemma quiet_trades: "0 < n \<Longrightarrow> put_trades n now sy rows st = Inr st' \<Longrightarrow> quiet st st'"
  by (induction n now sy rows st rule: put_trades.induct)
    (auto split: sum.splits intro: quiet_trans quiet_trade)

subsection \<open>Candles\<close>

lemma fold_update_keys: "distinct (map fst xs) \<Longrightarrow> distinct (map fst (fold (\<lambda>b. AList.update (f b) b) bs xs))"
  by (induction bs arbitrary: xs) (auto intro: distinct_update)

lemma fold_update_members:
  "(k, b) \<in> set (fold (\<lambda>b. AList.update (f b) b) bs xs) \<Longrightarrow>
     (k, b) \<in> set xs \<or> (b \<in> set bs \<and> k = f b)"
proof (induction bs arbitrary: xs)
  case (Cons c bs)
  from Cons.IH [of "AList.update (f c) c xs"] Cons.prems show ?case
    by (auto dest!: set_update_cases)
qed simp

lemma bars_inv_mono: "bars_inv now st \<Longrightarrow> now \<le> later \<Longrightarrow> bars_inv later st"
  by (fastforce simp: bars_inv_def)

lemma put_bars_inv:
  assumes inv: "bars_inv now st"
  shows "bars_inv now (put_bars now sy i rows st)"
proof -
  define bars where "bars = filter (\<lambda>b. bar_end b \<le> now) (map (\<lambda>b. b\<lparr>cd_interval := bar_width i\<rparr>) rows)"
  define bucket where "bucket = fold (\<lambda>b. AList.update (cd_start b) b) bars (rp_candles st (sy, i))"
  define kept where "kept = set (last_n 300 (sort (map fst bucket)))"
  define rest where "rest = filter (\<lambda>(k, _). k \<in> kept) bucket"
  have st': "put_bars now sy i rows st = st\<lparr>rp_candles := (rp_candles st)((sy, i) := rest)\<rparr>"
    by (simp add: put_bars_def Let_def bars_def bucket_def kept_def rest_def)
  have old: "distinct (map fst (rp_candles st (sy, i)))"
    "\<forall>(k, b) \<in> set (rp_candles st (sy, i)). cd_start b = k \<and> bar_end b \<le> now"
    using inv unfolding bars_inv_def by blast+
  have d: "distinct (map fst bucket)" unfolding bucket_def by (rule fold_update_keys [OF old(1)])
  then have d': "distinct (map fst rest)" unfolding rest_def by (rule distinct_map_filter)
  have m: "\<forall>(k, b) \<in> set rest. cd_start b = k \<and> bar_end b \<le> now"
    using old(2) by (fastforce simp: rest_def bucket_def bars_def dest!: fold_update_members)
  have "card (set (map fst rest)) \<le> card kept"
    by (rule card_mono) (auto simp: kept_def rest_def)
  also have "card kept \<le> length (last_n 300 (sort (map fst bucket)))" unfolding kept_def by (rule card_length)
  also have "\<dots> \<le> 300" by (simp add: last_n_def)
  finally have "length rest \<le> 300" using distinct_card [OF d'] by simp
  then show ?thesis using inv d' m unfolding bars_inv_def st' by auto
qed

lemma put_bars_frame:
  "rp_positions (put_bars now sy i rows st) = rp_positions st" "rp_seen (put_bars now sy i rows st) = rp_seen st"
  "rp_decisions (put_bars now sy i rows st) = rp_decisions st" "rp_gaps (put_bars now sy i rows st) = rp_gaps st"
  "rp_last (put_bars now sy i rows st) = rp_last st"
  "feeds_inv (put_bars now sy i rows st) = feeds_inv st"
  by (simp_all add: put_bars_def Let_def feeds_inv_def)

subsection \<open>New positions\<close>

text \<open>The plans of the rules are plans for the symbol they were asked about.\<close>

definition rules_on_symbol :: "rules \<Rightarrow> bool" where
  "rules_on_symbol rules \<longleftrightarrow>
     (\<forall>sy ins c s x now plans. rules sy ins c s x now = Inr plans \<longrightarrow>
        list_all (\<lambda>(sg, atr). sg_symbol sg = sy) plans)"

definition extends :: "replay_state \<Rightarrow> replay_state \<Rightarrow> bool" where
  "extends st st' \<longleftrightarrow>
     (\<exists>qs added. rp_positions st' = qs @ added \<and> evolve_all (rp_positions st) qs)"

lemma extends_evolve: "evolve_all (rp_positions st) (rp_positions st') \<Longrightarrow> extends st st'"
  unfolding extends_def by (intro exI [of _ "rp_positions st'"] exI [of _ "[]"]) simp

lemma extends_trans:
  assumes "extends a b" and "extends b c"
  shows "extends a c"
proof -
  from assms obtain qs us rs vs where b: "rp_positions b = qs @ us" "evolve_all (rp_positions a) qs"
    and c: "rp_positions c = rs @ vs" "evolve_all (rp_positions b) rs"
    unfolding extends_def by (elim exE conjE)
  from c(2) b(1) obtain rs1 rs2 where rs: "rs = rs1 @ rs2" "evolve_all qs rs1"
    unfolding evolve_all_def by (auto simp: list_all2_append1)
  then show ?thesis using c(1) evolve_all_trans [OF b(2)] unfolding extends_def by auto
qed

definition keeps :: "ms \<Rightarrow> replay_state \<Rightarrow> replay_state \<Rightarrow> bool" where
  "keeps now st st' \<longleftrightarrow>
     extends st st' \<and> (positions_inv st \<longrightarrow> positions_inv st') \<and> (feeds_inv st \<longrightarrow> feeds_inv st')
     \<and> (bars_inv now st \<longrightarrow> bars_inv now st') \<and> rp_last st' = rp_last st \<and> rp_gaps st \<le> rp_gaps st'"

lemma keeps_refl [simp]: "keeps now st st"
  by (simp add: keeps_def extends_evolve)

lemma keeps_trans: "keeps now a b \<Longrightarrow> keeps now b c \<Longrightarrow> keeps now a c"
  unfolding keeps_def by (auto intro: extends_trans)

lemma keeps_quiet: "quiet st st' \<Longrightarrow> keeps now st st'"
  by (auto simp: quiet_def keeps_def extends_evolve bars_inv_def)

lemma keeps_plan:
  assumes sy: "sg_symbol (fst plan) = sy" and run: "consider_plan cfg now sy mk plan st = Inr st'"
  shows "keeps now st st'"
proof (cases "st' = st")
  case False
  obtain s atr where plan: "plan = (s, atr)" by (cases plan)
  obtain p where p: "paper_post_init (paper_of cfg s) = Inr p"
    and st': "st' = st\<lparr>rp_decisions := rp_decisions st + 1, rp_seen := sg_id s # rp_seen st,
                      rp_positions := rp_positions st @ [p]\<rparr>"
    and fresh: "sg_id s \<notin> set (rp_seen st)" and alone: "\<not> list_ex (open_on sy) (rp_positions st)"
    using run False unfolding consider_plan_def plan prod.case
    by (auto split: if_splits sum.splits)
  have p': "p = paper_of cfg s" "0 < pp_requested p"
    using p by (auto simp: paper_post_init_def Let_def split: if_splits)
  have signal: "pp_signal p = s" using p' by (simp add: paper_of_def paper_new_def)
  have "paper_inv p" using p' by (simp add: paper_of_def paper_new_def paper_inv_def balanced_def bounded_def
      filled_def value_of_def)
  moreover have "sy \<notin> set (open_symbols (rp_positions st))"
    using alone by (auto simp: open_symbols_def list_ex_iff)
  ultimately have "positions_inv st \<longrightarrow> positions_inv st'"
    using fresh signal sy plan by (auto simp: positions_inv_def st' open_symbols_def)
  then show ?thesis
    by (auto simp: keeps_def st' feeds_inv_def bars_inv_def extends_def intro: evolve_all_refl)
qed simp

lemma keeps_plans:
  assumes "list_all (\<lambda>(sg, atr). sg_symbol sg = sy) plans"
    and "consider_plans cfg now sy mk plans st = Inr st'"
  shows "keeps now st st'"
  using assms
proof (induction plans arbitrary: st)
  case (Cons plan plans)
  obtain st1 where one: "consider_plan cfg now sy mk plan st = Inr st1"
    using Cons.prems by (cases "consider_plan cfg now sy mk plan st") auto
  have "sg_symbol (fst plan) = sy" using Cons.prems by (cases plan) simp
  then have "keeps now st st1" by (rule keeps_plan [OF _ one])
  moreover have "keeps now st1 st'" using Cons one by simp
  ultimately show ?case by (rule keeps_trans)
qed simp

lemma keeps_evaluate:
  assumes rules: "rules_on_symbol rules" and run: "evaluate_symbol cfg rules now sy st = Inr st'"
  shows "keeps now st st'"
proof (cases "view_of_market cfg now sy st")
  case None
  then show ?thesis using run by (simp add: evaluate_symbol_def)
next
  case (Some mk)
  show ?thesis
  proof (cases "rules sy (mk_instrument mk) (mk_context mk) (mk_setup mk) (mk_execution mk) now")
    case (Inl e)
    then show ?thesis using run Some by (simp add: evaluate_symbol_def split: if_splits)
  next
    case (Inr plans)
    then have "list_all (\<lambda>(sg, atr). sg_symbol sg = sy) plans"
      using rules unfolding rules_on_symbol_def by blast
    then show ?thesis using run Some Inr by (intro keeps_plans) (simp_all add: evaluate_symbol_def)
  qed
qed

lemma keeps_event:
  assumes rules: "rules_on_symbol rules" and n: "0 < cfg_tape_max cfg"
    and run: "replay_event cfg rules row st = Inr st'"
  shows "keeps (rw_receipt row) st st'"
proof (cases "rw_event row")
  case (Membership known ok)
  then show ?thesis using run keeps_evaluate [OF rules] keeps_quiet [OF quiet_membership] keeps_trans
    by (fastforce simp: replay_event_def Let_def)
next
  case (KlineRow i rows)
  then have st': "st' = put_bars (rw_receipt row) (rw_symbol row) i rows st"
    using run by (simp add: replay_event_def Let_def)
  have "positions_inv st \<Longrightarrow> positions_inv st'"
    by (rule positions_inv_same) (simp_all add: st' put_bars_frame)
  then show ?thesis
    by (simp add: st' keeps_def extends_evolve put_bars_inv put_bars_frame)
next
  case (TradeRows rows)
  then show ?thesis using run quiet_trans [OF quiet_start [OF n] quiet_trades [OF n]]
    by (simp add: replay_event_def Let_def keeps_quiet)
next
  case (BookRow m)
  then show ?thesis using run by (simp add: replay_event_def Let_def keeps_quiet [OF quiet_book])
next
  case EvaluateRow
  then show ?thesis using run keeps_evaluate [OF rules] by (simp add: replay_event_def Let_def)
qed (use run n in \<open>auto simp: replay_event_def Let_def intro!: keeps_quiet quiet_fold
       quiet_reset_book quiet_gap quiet_renew quiet_rotate quiet_instrument quiet_ticker quiet_funding\<close>)

definition replay_inv :: "replay_state \<Rightarrow> bool" where
  "replay_inv st \<longleftrightarrow> positions_inv st \<and> feeds_inv st \<and> bars_inv (rp_last st) st"

lemma replay_inv_start: "replay_inv replay_start"
  by (simp add: replay_inv_def positions_inv_def feeds_inv_def bars_inv_def replay_start_def open_symbols_def)

lemma keeps_step:
  assumes rules: "rules_on_symbol rules" and n: "0 < cfg_tape_max cfg"
    and run: "replay_step cfg rules row st = Inr st'"
  shows "extends st st' \<and> (replay_inv st \<longrightarrow> replay_inv st') \<and> rp_last st \<le> rp_last st'
    \<and> rp_last st' = rw_receipt row
    \<and> rp_gaps st + (if rw_event row = GapRow then 1 else 0) \<le> rp_gaps st'"
proof -
  let ?st1 = "st\<lparr>rp_last := rw_receipt row\<rparr>"
  have le: "rp_last st \<le> rw_receipt row" and ev: "replay_event cfg rules row ?st1 = Inr st'"
    using run by (auto simp: replay_step_def split: if_splits)
  note k = keeps_event [OF rules n ev, unfolded keeps_def]
  have "extends st ?st1" by (rule extends_evolve) simp
  then have ext: "extends st st'" using k extends_trans by blast
  have last: "rp_last st' = rw_receipt row" using k by simp
  have "replay_inv st'" if inv: "replay_inv st"
  proof -
    have "positions_inv ?st1"
      by (rule positions_inv_same [of st]) (use inv in \<open>simp_all add: replay_inv_def\<close>)
    moreover have "feeds_inv ?st1" using inv by (simp add: replay_inv_def feeds_inv_def)
    moreover have "bars_inv (rw_receipt row) ?st1"
      using bars_inv_mono [OF _ le, of st] inv unfolding replay_inv_def bars_inv_def by simp
    ultimately show ?thesis using k last by (simp add: replay_inv_def)
  qed
  moreover have "rp_gaps st + (if rw_event row = GapRow then 1 else 0) \<le> rp_gaps st'"
    using k ev by (auto simp: replay_event_def Let_def recording_gap_def)
  ultimately show ?thesis using ext last le by simp
qed

subsection \<open>Whole recordings\<close>

lemma replay_rows_append:
  "replay_rows cfg rules (xs @ ys) st =
     (case replay_rows cfg rules xs st of Inl e \<Rightarrow> Inl e | Inr st' \<Rightarrow> replay_rows cfg rules ys st')"
  by (induction xs arbitrary: st) (auto split: sum.splits)

definition is_gap :: "replay_row \<Rightarrow> bool" where
  "is_gap r \<longleftrightarrow> rw_event r = GapRow"

lemma keeps_rows:
  assumes rules: "rules_on_symbol rules" and n: "0 < cfg_tape_max cfg"
  shows "replay_rows cfg rules rows st = Inr st' \<Longrightarrow>
    extends st st' \<and> (replay_inv st \<longrightarrow> replay_inv st')
    \<and> rising rw_receipt (rp_last st) rows
    \<and> rp_gaps st + length (filter is_gap rows) \<le> rp_gaps st'"
proof (induction rows arbitrary: st)
  case Nil
  then show ?case by (simp add: extends_evolve)
next
  case (Cons r rows)
  then obtain st1 where one: "replay_step cfg rules r st = Inr st1"
    and rest: "replay_rows cfg rules rows st1 = Inr st'"
    by (cases "replay_step cfg rules r st") auto
  note k = keeps_step [OF rules n one] and ih = Cons.IH [OF rest]
  have "extends st st'" using k ih extends_trans by blast
  then show ?case using k ih by (auto simp: is_gap_def split: if_splits)
qed

text \<open>C11: c#replay_state_is_sound:
  A replay keeps every component it drives sound, for any recording and any candidate rules
  that plan for the symbol they are asked about. If it returns, no symbol ever has two open
  paper positions, every position's books balance and stay within its request, each decision
  has its own plan id and position, every tape and book satisfies its invariant, and every stored
  candle had closed by the last row, at most three hundred of them per market and interval.\<close>

theorem replay_state_is_sound:
  assumes rules: "rules_on_symbol rules" and n: "0 < cfg_tape_max cfg"
    and run: "replay_rows cfg rules rows replay_start = Inr st"
  shows "distinct (open_symbols (rp_positions st))
    \<and> list_all paper_inv (rp_positions st)
    \<and> rp_decisions st = length (rp_positions st)
    \<and> distinct (map (sg_id \<circ> pp_signal) (rp_positions st))
    \<and> (\<forall>sy tp. rp_tapes st sy = Some tp \<longrightarrow> tape_inv tp)
    \<and> (\<forall>sy bk. rp_books st sy = Some bk \<longrightarrow> book_inv bk)
    \<and> (\<forall>key. length (rp_candles st key) \<le> 300
          \<and> (\<forall>(k, b) \<in> set (rp_candles st key). bar_end b \<le> rp_last st))"
proof -
  have "replay_inv st" using keeps_rows [OF rules n run] replay_inv_start by blast
  then have p: "positions_inv st" and f: "feeds_inv st" and b: "bars_inv (rp_last st) st"
    by (simp_all add: replay_inv_def)
  have "distinct (map (sg_id \<circ> pp_signal) (rp_positions st))"
    using p by (metis positions_inv_def distinct_rev)
  moreover have "length (rp_candles st key) \<le> 300
      \<and> (\<forall>(k, b) \<in> set (rp_candles st key). bar_end b \<le> rp_last st)" for key
    using spec [OF b [unfolded bars_inv_def], of key] by auto
  ultimately show ?thesis using p f by (simp add: positions_inv_def feeds_inv_def)
qed

text \<open>C12: c#gap_spoils_open_positions:
  A position that was open across a recording gap never counts. From any state of the replay,
  whatever follows the gap row, every position that was open keeps its place and its plan, it
  is not complete, and it has no net result; so no return of the report rests on prints that
  were not recorded.\<close>

theorem gap_spoils_open_positions:
  assumes rules: "rules_on_symbol rules" and n: "0 < cfg_tape_max cfg"
    and i: "i < length (rp_positions st)" and opened: "is_open (rp_positions st ! i)"
    and gap: "is_gap g" and run: "replay_rows cfg rules (g # post) st = Inr st'"
  shows "i < length (rp_positions st') \<and> pp_signal (rp_positions st' ! i) = pp_signal (rp_positions st ! i)
    \<and> \<not> paper_complete (rp_positions st' ! i) \<and> paper_net (rp_positions st' ! i) = None"
proof -
  obtain st1 where one: "replay_step cfg rules g st = Inr st1" and rest: "replay_rows cfg rules post st1 = Inr st'"
    using run by (cases "replay_step cfg rules g st") auto
  have st1: "rp_positions st1 =
      taint is_open ''recording discontinuity during fill/outcome window'' (rp_positions st)"
    using one gap by (auto simp: replay_step_def replay_event_def is_gap_def recording_gap_def Let_def split: if_splits)
  have hit: "i < length (rp_positions st1)" "pp_signal (rp_positions st1 ! i) = pp_signal (rp_positions st ! i)"
    "pp_data_gaps (rp_positions st1 ! i) \<noteq> []"
    using i opened by (simp_all add: st1 taint_def add_data_gap_def)
  obtain qs added where st': "rp_positions st' = qs @ added" and ev: "evolve_all (rp_positions st1) qs"
    using keeps_rows [OF rules n rest] unfolding extends_def by blast
  have len: "length qs = length (rp_positions st1)" using ev by (auto simp: evolve_all_def dest: list_all2_lengthD)
  have "evolves (rp_positions st1 ! i) (qs ! i)"
    using ev hit(1) by (simp add: evolve_all_def list_all2_conv_all_nth)
  then have "pp_signal (qs ! i) = pp_signal (rp_positions st ! i)" "pp_data_gaps (qs ! i) \<noteq> []"
    using hit by (auto simp: evolves_def)
  then show ?thesis using hit(1) len by (simp add: st' nth_append paper_complete_def paper_net_def)
qed

text \<open>\<^verbatim>\<open>replay(segment_rows(paths), settings)\<close>, with the gap row of the reader.\<close>

definition control_gap :: "ms \<Rightarrow> replay_row" where
  "control_gap t = \<lparr>rw_receipt = t, rw_symbol = ''ALL'', rw_event = GapRow\<rparr>"

definition replay_recording ::
    "replay_settings \<Rightarrow> rules \<Rightarrow> replay_row segment_file list \<Rightarrow> py_error + replay_state" where
  "replay_recording cfg rules files =
     (case segment_rows rw_receipt control_gap files of
        (rows, failure) \<Rightarrow>
          (case replay_rows cfg rules rows replay_start of
             Inl e \<Rightarrow> Inl e
           | Inr st \<Rightarrow> (case failure of None \<Rightarrow> Inr st | Some e \<Rightarrow> Inl e)))"

text \<open>C#replay_counts_missing_segments:
  A replay of recorded segments accounts for what is missing. If it returns a report, every
  segment matched its hash, and the report's gap count is at least the number of recorded gap
  rows plus the number of segments that are not chained to the one before them.\<close>

theorem replay_counts_missing_segments:
  assumes rules: "rules_on_symbol rules" and n: "0 < cfg_tape_max cfg"
    and run: "replay_recording cfg rules files = Inr st"
  shows "(\<forall>s \<in> set files. sf_digest s = sf_sha s)
    \<and> length (filter is_gap (concat (map sf_rows files)))
        + breaks None (filled_segments (sort_key sf_order files)) \<le> rp_gaps st"
proof -
  obtain rows where out: "segment_rows rw_receipt control_gap files = (rows, None)"
    and ran: "replay_rows cfg rules rows replay_start = Inr st"
    using run by (auto simp: replay_recording_def split: prod.splits sum.splits option.splits)
  have all: "emit_segments rw_receipt control_gap None (- 1) (sort_key sf_order files) = (rows, None)"
    using out by (simp add: segment_rows_def)
  have "\<forall>s \<in> set (sort_key sf_order files). sf_digest s = sf_sha s"
    using emit_segments_complete [OF _ all] by (simp add: control_gap_def)
  moreover have "length (filter is_gap rows) = length (filter is_gap (concat (map sf_rows (sort_key sf_order files))))
      + breaks None (filled_segments (sort_key sf_order files))"
    by (rule emit_segments_count [OF _ all]) (simp add: is_gap_def control_gap_def)
  moreover have "length (filter is_gap (concat (map sf_rows (sort_key sf_order files))))
      = length (filter is_gap (concat (map sf_rows files)))"
  proof -
    have "sum_list (map (length \<circ> filter is_gap \<circ> sf_rows) (sort_key sf_order files))
        = sum_list (map (length \<circ> filter is_gap \<circ> sf_rows) files)"
      by (metis mset_map mset_sort sum_mset_sum_list)
    then show ?thesis by (simp add: filter_concat length_concat comp_assoc)
  qed
  moreover have "rp_gaps replay_start + length (filter is_gap rows) \<le> rp_gaps st"
    using keeps_rows [OF rules n ran] by blast
  ultimately show ?thesis by simp
qed

subsection \<open>The claims at work\<close>

text \<open>
  A market whose last execution candle traded through three stacked buying levels: the rules'
  long plan is confirmed, accepted and opens a paper position.
\<close>

definition demo_cfg :: replay_settings where
  "demo_cfg =
     \<lparr>cfg_risk = \<lparr>rs_taker_fee_bps = 5, rs_slippage_bps = 2, rs_funding_reserve_bps = 3,
        rs_min_net_rr = 1, rs_leverage = 1, rs_maintenance = 1 / 100, rs_liq_multiple = 3,
        rs_equity = None, rs_risk_fraction = 1 / 400, rs_daily_loss_limit = 3 / 200,
        rs_weekly_loss_limit = 1 / 25, rs_correlated_limit = 3 / 400, rs_hypothetical_notional = 100,
        rs_max_spread_bps = 20\<rparr>,
      cfg_tape_max = 1000, cfg_scan_seconds = 900, cfg_trade_stale_ms = 15000,
      cfg_spread_min_samples = 1, cfg_min_daily_turnover = 1000\<rparr>"

definition demo_rules :: rules where
  "demo_rules sy ins c s x now =
     Inr [(sample_signal\<lparr>sg_symbol := sy, sg_created_ms := now, sg_expires_ms := now + 3600000\<rparr>, 1)]"

lemma demo_rules_on_symbol: "rules_on_symbol demo_rules"
  by (simp add: rules_on_symbol_def demo_rules_def)

definition flat_bar :: "ms \<Rightarrow> bar" where
  "flat_bar start = \<lparr>cd_start = start, cd_interval = 0, cd_open = 100, cd_high = 101, cd_low = 99,
     cd_close = 100, cd_volume = 10, cd_turnover = 5000\<rparr>"

definition demo_print :: "string \<Rightarrow> ms \<Rightarrow> side \<Rightarrow> dec \<Rightarrow> dec \<Rightarrow> bool \<times> trade" where
  "demo_print i t sd price qty =
     (False, \<lparr>tr_symbol = [], tr_event_ms = t, tr_receipt_ms = t, tr_trade_id = i, tr_side = sd,
              tr_price = price, tr_size = qty, tr_exchange = Bybit\<rparr>)"

definition demo_prints :: "(bool \<times> trade) list" where
  "demo_prints =
     [demo_print ''1'' 890000 Sell 100 2, demo_print ''2'' 890050 Sell (1001 / 10) 2,
      demo_print ''3'' 890100 Buy (1001 / 10) 10, demo_print ''4'' 890150 Sell (1002 / 10) 2,
      demo_print ''5'' 890200 Buy (1002 / 10) 10, demo_print ''6'' 890250 Buy (1003 / 10) 10]"

definition demo_snapshot :: book_msg where
  "demo_snapshot = \<lparr>bm_snapshot = True, bm_u = 7, bm_seq = 7, bm_bids = [(9995 / 100, 20)],
     bm_asks = [(10005 / 100, 20)], bm_ts = 900000, bm_cts = None\<rparr>"

definition demo_market :: market_view where
  "demo_market =
     \<lparr>mk_instrument = (sample_instrument, 1 / 10), mk_context = [], mk_setup = [],
      mk_execution = [(flat_bar 0)\<lparr>cd_interval := 900000\<rparr>],
      mk_book = book_step (demo_snapshot, 900000) book_new,
      mk_tape = fold (\<lambda>(_, t). tape_step t) demo_prints (tape_new 1000 None)\<rparr>"

definition demo_plan :: "signal \<times> dec" where
  "demo_plan = (sample_signal\<lparr>sg_created_ms := 900500, sg_expires_ms := 4500000\<rparr>, 1)"

text \<open>The three readings that an initiative trigger compares.\<close>

lemma footprint_initiative:
  assumes "ts \<noteq> []" and "bucket = fp_bucket tick atr" and "os = sort_key tr_event_ms ts"
    and "fl = flow_of bucket os"
  shows "\<exists>f. footprint ts tick atr bk = Some f
    \<and> fo_delta_pct f = 100 * (ff_buy fl - ff_sell fl) / (ff_buy fl + ff_sell fl)
    \<and> fo_initiative_long f = (100 * (ff_buy fl - ff_sell fl) / (ff_buy fl + ff_sell fl) \<ge> 20
         \<and> tr_price (last os) - tr_price (hd os) > 15 / 100 * atr)
    \<and> fo_stacked_buy f = fs_max_buy (stacks (ff_levels fl)
         (max (median (map (\<lambda>(k, b, s). b + s) (ff_levels fl)) / 10) (1 / 1000000000000))
         (min 6 (max 3 (3 + atr / tr_price (last os) * 100))))"
  using assms by (simp add: footprint_def Let_def)

definition demo_flow :: fp_flow where
  "demo_flow = flow_of (1 / 10) (map snd demo_prints)"

lemma demo_flow_values: "ff_buy demo_flow = 30" "ff_sell demo_flow = 6"
  by code_simp+

lemma demo_stacked: "fs_max_buy (stacks (ff_levels demo_flow)
         (max (median (map (\<lambda>(k, b, s). b + s) (ff_levels demo_flow)) / 10) (1 / 1000000000000))
         (min 6 (max 3 (3 + 1 / (1003 / 10) * 100)))) = 3"
  by code_simp

lemma demo_window: "tape_window 0 900000 (mk_tape demo_market) = map snd demo_prints"
  by code_simp

lemma demo_confirmed: "confirm_flow (fst demo_plan) (window_flow demo_market 1) (mk_execution demo_market)"
proof -
  have bucket: "fp_bucket (1 / 10) 1 = 1 / 10" by code_simp
  have os: "sort_key tr_event_ms (map snd demo_prints) = map snd demo_prints" by code_simp
  have ne: "map snd demo_prints \<noteq> []" by (simp add: demo_prints_def)
  have ends: "tr_price (last (map snd demo_prints)) = 1003 / 10" "tr_price (hd (map snd demo_prints)) = 100"
    by code_simp+
  have until: "bar_end (last (mk_execution demo_market)) = 900000" and tick: "snd (mk_instrument demo_market) = 1 / 10"
    by code_simp+
  let ?bk = "Some (book_new\<lparr>bk_valid := bk_valid (mk_book demo_market),
            bk_changes := filter (\<lambda>(t, _). t \<le> 900000) (bk_changes (mk_book demo_market))\<rparr>)"
  from footprint_initiative [OF ne bucket [symmetric] os [symmetric] demo_flow_def, of ?bk] obtain f
    where f: "footprint (map snd demo_prints) (1 / 10) 1 ?bk = Some f"
      and "fo_delta_pct f = 100 * 24 / 36" "fo_initiative_long f" "fo_stacked_buy f = 3"
    unfolding demo_flow_values ends demo_stacked by (elim exE conjE) auto
  moreover have "window_flow demo_market 1 = Some f"
    unfolding window_flow_def until tick Let_def using f demo_window by simp
  ultimately show ?thesis
    by (simp add: confirm_flow_def demo_plan_def sample_signal_def)
qed

lemma demo_risk: "\<exists>v. evaluate_risk (cfg_risk demo_cfg) (fst (mk_instrument demo_market))
    (Some (mk_book demo_market)) None None (fst demo_plan) = Inr v \<and> risk_accepted v"
proof -
  have "case evaluate_risk (cfg_risk demo_cfg) (fst (mk_instrument demo_market))
      (Some (mk_book demo_market)) None None (fst demo_plan) of Inl _ \<Rightarrow> False | Inr v \<Rightarrow> risk_accepted v"
    by code_simp
  then show ?thesis by (auto split: sum.splits)
qed

definition demo_position :: paper where
  "demo_position = paper_of demo_cfg (fst demo_plan)"

lemma demo_opens:
  "consider_plan demo_cfg 900500 ''BTCUSDT'' demo_market demo_plan replay_start =
     Inr (replay_start\<lparr>rp_decisions := 1, rp_seen := [''s1''], rp_positions := [demo_position]\<rparr>)"
proof -
  obtain v where v: "evaluate_risk (cfg_risk demo_cfg) (fst (mk_instrument demo_market))
    (Some (mk_book demo_market)) None None (fst demo_plan) = Inr v" "risk_accepted v"
    using demo_risk by blast
  have plan: "demo_plan = (fst demo_plan, 1)" by (simp add: demo_plan_def)
  have facts: "sg_id (fst demo_plan) = ''s1''" "sg_expires_ms (fst demo_plan) = 4500000" "sg_entry (fst demo_plan) = 100"
    by (simp_all add: demo_plan_def sample_signal_def)
  have post: "paper_post_init (paper_of demo_cfg (fst demo_plan)) = Inr demo_position"
    unfolding demo_position_def by code_simp
  have start: "rp_seen replay_start = []" "rp_positions replay_start = []" "rp_decisions replay_start = 0"
    by (simp_all add: replay_start_def)
  show ?thesis
    unfolding consider_plan_def
    by (subst plan) (simp add: facts demo_confirmed v post start)
qed

definition demo_row :: "ms \<Rightarrow> row_event \<Rightarrow> replay_row" where
  "demo_row t e = \<lparr>rw_receipt = t, rw_symbol = ''BTCUSDT'', rw_event = e\<rparr>"

definition demo_rows :: "replay_row list" where
  "demo_rows =
     [demo_row 1000 (Subscribed [''BTCUSDT'']), demo_row 890300 (TradeRows demo_prints),
      demo_row 900000 (BookRow demo_snapshot), demo_row 900500 EvaluateRow, control_gap 900600]"

lemma demo_run: "case replay_rows demo_cfg demo_rules demo_rows replay_start of
    Inl e \<Rightarrow> False | Inr st \<Rightarrow> rp_gaps st = 1 \<and> rp_last st = 900600"
  by code_simp

lemma replay_state_is_sound_witness:
  "\<exists>st. replay_rows demo_cfg demo_rules demo_rows replay_start = Inr st \<and> rp_gaps st = 1
     \<and> distinct (open_symbols (rp_positions st)) \<and> (\<forall>tp. rp_tapes st ''BTCUSDT'' = Some tp \<longrightarrow> tape_inv tp)"
proof -
  obtain st where run: "replay_rows demo_cfg demo_rules demo_rows replay_start = Inr st" and g: "rp_gaps st = 1"
    using demo_run by (auto split: sum.splits)
  have "0 < cfg_tape_max demo_cfg" by (simp add: demo_cfg_def)
  from replay_state_is_sound [OF demo_rules_on_symbol this run] run g show ?thesis by blast
qed

definition demo_held :: replay_state where
  "demo_held = replay_start\<lparr>rp_decisions := 1, rp_seen := [''s1''], rp_positions := [demo_position]\<rparr>"

definition demo_later :: "replay_row list" where
  "demo_later = [demo_row 901800 (TradeRows [demo_print ''7'' 901700 Buy 100 1])]"

lemma demo_held_run: "case replay_rows demo_cfg demo_rules (control_gap 900600 # demo_later) demo_held of
    Inl e \<Rightarrow> False | Inr st \<Rightarrow> rp_gaps st = 1"
  by code_simp

lemma gap_spoils_open_positions_witness:
  "\<exists>st. replay_rows demo_cfg demo_rules (control_gap 900600 # demo_later) demo_held = Inr st
     \<and> pp_signal (rp_positions st ! 0) = fst demo_plan \<and> paper_net (rp_positions st ! 0) = None"
proof -
  obtain st where run: "replay_rows demo_cfg demo_rules (control_gap 900600 # demo_later) demo_held = Inr st"
    using demo_held_run by (auto split: sum.splits)
  have n: "0 < cfg_tape_max demo_cfg" by (simp add: demo_cfg_def)
  have held: "0 < length (rp_positions demo_held)" "is_open (rp_positions demo_held ! 0)"
    "pp_signal (rp_positions demo_held ! 0) = fst demo_plan"
    by (simp_all add: demo_held_def is_open_def demo_position_def paper_of_def paper_new_def)
  have gap: "is_gap (control_gap 900600)" by (simp add: is_gap_def control_gap_def)
  from gap_spoils_open_positions [OF demo_rules_on_symbol n held(1,2) gap run] run held(3)
  show ?thesis by auto
qed

definition demo_files :: "replay_row segment_file list" where
  "demo_files =
     [\<lparr>sf_id = ''a'', sf_sha = ''h1'', sf_min_receipt = Some 1000, sf_collected = 0, sf_previous = None,
       sf_digest = ''h1'', sf_rows = [demo_row 1000 (Subscribed [''BTCUSDT''])]\<rparr>,
      \<lparr>sf_id = ''c'', sf_sha = ''h3'', sf_min_receipt = Some 900500, sf_collected = 0,
       sf_previous = Some (''b'', ''h2''), sf_digest = ''h3'', sf_rows = [demo_row 900500 EvaluateRow]\<rparr>]"

lemma demo_recording: "case replay_recording demo_cfg demo_rules demo_files of
    Inl e \<Rightarrow> False | Inr st \<Rightarrow> rp_gaps st = 1"
  by code_simp

lemma demo_breaks: "breaks None (filled_segments (sort_key sf_order demo_files)) = 1"
  by code_simp

lemma replay_counts_missing_segments_witness:
  "\<exists>st. replay_recording demo_cfg demo_rules demo_files = Inr st \<and> 1 \<le> rp_gaps st"
proof -
  obtain st where run: "replay_recording demo_cfg demo_rules demo_files = Inr st"
    using demo_recording by (auto split: sum.splits)
  have n: "0 < cfg_tape_max demo_cfg" by (simp add: demo_cfg_def)
  from replay_counts_missing_segments [OF demo_rules_on_symbol n run] run demo_breaks
  show ?thesis by auto
qed

end
