(* ===== verification/PlanStore.thy ===== *)
theory PlanStore imports Model "HOL-Library.Sublist" begin

text \<open>
  The only two writers of a stored plan, \<^verbatim>\<open>Store.signal\<close> and
  \<^verbatim>\<open>Store.monitor\<close> of \<^verbatim>\<open>src/bybit_flow/storage.py\<close>, with the guards
  that freeze a published plan: \<^verbatim>\<open>preserve\<close> of \<^verbatim>\<open>v2.py\<close> for plans from before
  the cutover and \<^verbatim>\<open>preserve\<close> of \<^verbatim>\<open>setup_freeze.py\<close> for delivered v2.2
  plans. Writers are asynchronous: a write carries whatever copy of the plan its caller holds,
  however old, so the theorems are about arbitrary sequences of writes. A plan is its
  attributes and its two ordered dictionaries; tuples and lists of three attributes are one
  JSON list. The research registrations behind the write (observations, funnel, shadow
  evidence) and the content of a feature snapshot belong to other components; a snapshot is the
  plan at its capture.
\<close>

type_synonym dict = "(string \<times> json) list"

record stored_plan =
  pn_id :: string
  pn_created :: ms
  pn_source :: source
  pn_state :: sig_state
  pn_synthetic :: bool
  pn_attrs :: "string \<rightharpoonup> json"
  pn_evidence :: dict
  pn_coverage :: dict

subsection \<open>Frozen fields\<close>

text \<open>
  Besides the identity, the source and the creation time, which are fields of the record.
\<close>

definition FROZEN_FIELDS :: "string list" where
  "FROZEN_FIELDS =
     [''symbol'', ''version'', ''feature_schema_version'', ''entry'', ''zone'', ''stop'', ''tp1'', ''tp2'',
      ''expires_ms'', ''trigger_expires_ms'', ''holding_deadline_ms'', ''primary_tracking_deadline'',
      ''invalidation'', ''reason'', ''regime'', ''direction'', ''family'', ''horizon_profile'',
      ''context_timeframe'', ''setup_timeframe'', ''execution_timeframe'', ''expected_hold_min'',
      ''expected_hold_max'', ''lifecycle_version'', ''setup_thesis_id'', ''session'', ''entry_session'',
      ''quality'', ''raw_tier'', ''final_tier'', ''qualification'', ''risk'', ''gates'',
      ''calibrated_probability'', ''probability_uncertainty'', ''expected_net_r'',
      ''expected_net_r_uncertainty'', ''validation_status'', ''model_version'', ''data_coverage'']"

definition FROZEN_EVIDENCE :: "string list" where
  "FROZEN_EVIDENCE =
     [''score_components'', ''score_profile'', ''score_reasons'', ''orderflow_score_basis'', ''location_quality'',
      ''production_policies'', ''confirmation_policy'', ''confirmation'', ''structural_trigger'',
      ''trigger_bar_end'', ''execution_window_ms'', ''execution_window_end_ms'', ''level_policy'',
      ''stop_plan'', ''target_method'', ''tp2_method'', ''flow_confirmation_mode'', ''flow_substitution'',
      ''market_alignment'', ''v8_gate'', ''ml'']"

definition EVIDENCE :: "string list" where
  "EVIDENCE =
     [''v22'', ''v22_initial_assessment'', ''delivery_execution_snapshot'', ''structural_tp1'',
      ''execution_tp1'', ''execution_target'', ''horizon_movement_capacity'', ''target_reachability'',
      ''stop_viability'', ''impact_efficiency'', ''event_ofi'', ''edge_age'', ''edge_observations_v22'',
      ''entry_quality'', ''initial_executable_quote'', ''score_profile'', ''score_components'',
      ''score_reasons'', ''production_policies'', ''frozen_structure'', ''flow'', ''flow_quality'', ''book'',
      ''confirmation'', ''v8_gate'', ''v211_baseline_assessment'', ''delivery_confirmation'']"

definition CANDIDATE_SCHEMA :: string where "CANDIDATE_SCHEMA = ''candidate-v20''"
definition PLAN_POLICY :: string where "PLAN_POLICY = ''trade-validity-v22''"

text \<open>\<^verbatim>\<open>for name in names: if name in saved: setattr(signal, name, saved[name])\<close>\<close>

definition restore_attrs :: "(string \<rightharpoonup> json) \<Rightarrow> (string \<rightharpoonup> json) \<Rightarrow> string \<rightharpoonup> json" where
  "restore_attrs saved now k = (if k \<in> set FROZEN_FIELDS \<and> saved k \<noteq> None then saved k else now k)"

text \<open>A key of the saved evidence is copied, one it lacks is removed.\<close>

definition restore_key :: "dict \<Rightarrow> string \<Rightarrow> dict \<Rightarrow> dict" where
  "restore_key saved k e =
     (case map_of saved k of Some v \<Rightarrow> AList.update k v e | None \<Rightarrow> AList.delete k e)"

definition restore_evidence :: "string list \<Rightarrow> dict \<Rightarrow> dict \<Rightarrow> dict" where
  "restore_evidence names saved e = fold (restore_key saved) names e"

definition restore_plan :: "string list \<Rightarrow> stored_plan \<Rightarrow> stored_plan \<Rightarrow> stored_plan" where
  "restore_plan names saved p =
     p\<lparr>pn_id := pn_id saved, pn_created := pn_created saved, pn_source := pn_source saved,
       pn_attrs := restore_attrs (pn_attrs saved) (pn_attrs p),
       pn_evidence := restore_evidence names (pn_evidence saved) (pn_evidence p)\<rparr>"

definition schema_of :: "stored_plan \<Rightarrow> json" where
  "schema_of p = (case pn_attrs p ''feature_schema_version'' of None \<Rightarrow> JNull | Some v \<Rightarrow> v)"

definition legacy_plan :: "ms option \<Rightarrow> stored_plan \<Rightarrow> bool" where
  "legacy_plan cutover p \<longleftrightarrow>
     (case cutover of None \<Rightarrow> False
      | Some started \<Rightarrow> pn_created p < started \<and> schema_of p \<noteq> JStr CANDIDATE_SCHEMA)"

definition preserve_legacy :: "ms option \<Rightarrow> stored_plan \<Rightarrow> stored_plan \<Rightarrow> stored_plan" where
  "preserve_legacy cutover saved p =
     (if \<not> legacy_plan cutover saved then p
      else
        let q = restore_plan FROZEN_EVIDENCE saved p
        in q\<lparr>pn_evidence := fold AList.delete [''v2'', ''trade_size_state'', ''event_rotation_state'']
               (pn_evidence q)\<rparr>)"

record outbox_row =
  ob_signal :: string
  ob_initial :: bool
  ob_sent :: bool
  ob_message :: "string option"

definition initial_sent :: "outbox_row list \<Rightarrow> string \<Rightarrow> bool" where
  "initial_sent rows sid \<longleftrightarrow>
     list_ex (\<lambda>r. ob_signal r = sid \<and> ob_sent r \<and> ob_message r \<noteq> None \<and> ob_initial r) rows"

definition policy_of :: "stored_plan \<Rightarrow> json" where
  "policy_of p = jget (jget_default (JObj (pn_evidence p)) ''production_policies'' (JObj [])) ''trade_quality''"

definition preserve_published :: "outbox_row list \<Rightarrow> stored_plan \<Rightarrow> stored_plan \<Rightarrow> stored_plan" where
  "preserve_published rows saved p =
     (if policy_of saved \<noteq> JStr PLAN_POLICY \<or> \<not> initial_sent rows (pn_id p) then p
      else restore_plan EVIDENCE saved p)"

subsection \<open>Store.signal and Store.monitor\<close>

record plan_event =
  pe_state :: sig_state
  pe_reason :: json
  pe_at_ms :: ms
  pe_details :: dict
  pe_pending :: bool

record plan_store =
  ps_plans :: "string \<rightharpoonup> stored_plan"
  ps_events :: "string \<rightharpoonup> plan_event"
  ps_origins :: "string \<rightharpoonup> stored_plan"
  ps_snapshots :: "string \<times> string \<rightharpoonup> stored_plan"
  ps_outbox :: "outbox_row list"
  ps_cutover :: "ms option"
  ps_counts :: "json \<Rightarrow> nat"
  ps_transitions :: "(string \<times> ms \<times> sig_state \<times> string) list"

definition OBSERVED :: "string list" where
  "OBSERVED =
     [''observed_entry_ms'', ''observed_entry_price'', ''observed_entry_method'', ''observed_entry_source'',
      ''observed_entry_trade_id'', ''tp1_touch_ms'', ''tp2_touch_ms'']"

definition dict_setdefault :: "string \<Rightarrow> json \<Rightarrow> dict \<Rightarrow> dict" where
  "dict_setdefault k v d = (if map_of d k = None then d @ [(k, v)] else d)"

definition keep_observed :: "dict \<Rightarrow> dict \<Rightarrow> dict" where
  "keep_observed saved e =
     fold (\<lambda>k e. case map_of saved k of None \<Rightarrow> e | Some v \<Rightarrow> dict_setdefault k v e) OBSERVED e"

text \<open>The monitor time of a coverage dictionary; only whole milliseconds are ever stored.\<close>

definition monitor_ms :: "dict \<Rightarrow> int" where
  "monitor_ms d = (case map_of d ''last_monitor_ms'' of Some (JInt t) \<Rightarrow> t | _ \<Rightarrow> 0)"

definition monitor_key :: "string \<Rightarrow> bool" where
  "monitor_key k \<longleftrightarrow>
     prefix ''monitor_'' k \<or> k \<in> {''last_checked_trade_id'', ''last_monitor_ms''}"

definition merge_coverage :: "dict \<Rightarrow> dict \<Rightarrow> dict" where
  "merge_coverage saved c =
     fold (\<lambda>(k, v) c. if monitor_key k \<and> monitor_ms saved > monitor_ms c then AList.update k v c else c) saved c"

definition capture :: "string \<Rightarrow> stored_plan \<Rightarrow> plan_store \<Rightarrow> plan_store" where
  "capture stage p st =
     (if ps_snapshots st (pn_id p, stage) \<noteq> None then st
      else st\<lparr>ps_snapshots := (ps_snapshots st)((pn_id p, stage) \<mapsto> p)\<rparr>)"

definition wants_decision :: "stored_plan \<Rightarrow> bool" where
  "wants_decision p \<longleftrightarrow>
     (let e = JObj (pn_evidence p); risk = (case pn_attrs p ''risk'' of None \<Rightarrow> JNull | Some r \<Rightarrow> r) in
      truthy (jget e ''score_components'')
      \<or> ((truthy (jget e ''v21_counterfactual'') \<or> truthy (jget e ''v22_counterfactual''))
         \<and> (case risk of JObj kvs \<Rightarrow> map_of kvs ''cost_per_base'' \<noteq> None | _ \<Rightarrow> False)))"

definition terminal_row :: "ms \<Rightarrow> string \<Rightarrow> outbox_row list \<Rightarrow> stored_plan \<Rightarrow> plan_event" where
  "terminal_row now reason rows p =
     \<lparr>pe_state = pn_state p,
      pe_reason = (case map_of (pn_coverage p) ''terminal_reason'' of None \<Rightarrow> JStr reason | Some v \<Rightarrow> v),
      pe_at_ms = now,
      pe_details = (case map_of (pn_evidence p) ''terminal_event'' of Some (JObj kvs) \<Rightarrow> kvs | _ \<Rightarrow> []),
      pe_pending = list_ex (\<lambda>r. ob_signal r = pn_id p \<and> ob_initial r \<and> ob_sent r) rows\<rparr>"

text \<open>The transaction that ends a write.\<close>

definition commit_plan :: "ms \<Rightarrow> string \<Rightarrow> stored_plan option \<Rightarrow> stored_plan \<Rightarrow> plan_store \<Rightarrow> plan_store" where
  "commit_plan now reason old p st =
     (let sid = pn_id p;
          st1 = (if pn_state p \<in> TERMINAL \<and> ps_events st sid = None
                 then st\<lparr>ps_events := (ps_events st)(sid \<mapsto> terminal_row now reason (ps_outbox st) p)\<rparr> else st);
          st2 = (if ps_origins st1 sid = None then st1\<lparr>ps_origins := (ps_origins st1)(sid \<mapsto> p)\<rparr> else st1);
          profile = (case pn_attrs p ''horizon_profile'' of None \<Rightarrow> JNull | Some v \<Rightarrow> v);
          st3 = (if old = None then st2\<lparr>ps_counts := (ps_counts st2)(profile := ps_counts st2 profile + 1)\<rparr> else st2);
          st4 = st3\<lparr>ps_plans := (ps_plans st3)(sid \<mapsto> p)\<rparr>
      in if (case old of None \<Rightarrow> True | Some o' \<Rightarrow> pn_state o' \<noteq> pn_state p)
         then st4\<lparr>ps_transitions := ps_transitions st4 @ [(sid, now, pn_state p, reason)]\<rparr> else st4)"

text \<open>
  \<^verbatim>\<open>Store.signal\<close>: what the caller's object becomes, and the store. The object is
  changed in place, so a later write of the caller starts from it.
\<close>

definition store_signal :: "ms \<Rightarrow> string \<Rightarrow> stored_plan \<Rightarrow> plan_store \<Rightarrow> py_error + stored_plan \<times> plan_store" where
  "store_signal now reason p st =
     (if pn_synthetic p then Inl (ValueError ''Synthetic signals must never enter research storage'')
      else
        let old = ps_plans st (pn_id p) in
        if pn_source p = Tradingview \<and> old = None then Inl (ValueError ''TRADINGVIEW_SUBSYSTEM_RETIRED'')
        else
          let p1 = (case old of None \<Rightarrow> p
                    | Some o' \<Rightarrow> preserve_published (ps_outbox st) o' (preserve_legacy (ps_cutover st) o' p));
              st1 = capture ''generation'' p1 st;
              st2 = (if wants_decision p1 then capture ''decision'' p1 st1 else st1)
          in case old of
               None \<Rightarrow> Inr (p1, commit_plan now reason None p1 st2)
             | Some o' \<Rightarrow>
                 if pn_state o' \<in> TERMINAL then Inr (p1, st2)
                 else
                   let p2 = p1\<lparr>pn_evidence := keep_observed (pn_evidence o') (pn_evidence p1),
                               pn_coverage := merge_coverage (pn_coverage o') (pn_coverage p1)\<rparr>
                   in Inr (p2, commit_plan now reason (Some o') p2 st2))"

definition store_monitor :: "stored_plan \<Rightarrow> plan_store \<Rightarrow> stored_plan \<times> plan_store" where
  "store_monitor p st =
     (case ps_plans st (pn_id p) of
        None \<Rightarrow> (p, st)
      | Some o' \<Rightarrow>
          let p1 = preserve_published (ps_outbox st) o' (preserve_legacy (ps_cutover st) o' p)
          in (p1, if pn_state o' = pn_state p1 then st\<lparr>ps_plans := (ps_plans st)(pn_id p1 \<mapsto> p1)\<rparr> else st))"

text \<open>Any number of asynchronous writers, and deliveries that are recorded as sent.\<close>

datatype store_event =
    Save ms string stored_plan
  | Monitored stored_plan
  | Delivered outbox_row

fun store_step :: "store_event \<Rightarrow> plan_store \<Rightarrow> plan_store" where
  "store_step (Save now reason p) st = (case store_signal now reason p st of Inl _ \<Rightarrow> st | Inr (_, st') \<Rightarrow> st')"
| "store_step (Monitored p) st = snd (store_monitor p st)"
| "store_step (Delivered r) st = st\<lparr>ps_outbox := ps_outbox st @ [r]\<rparr>"

definition store_new :: "ms option \<Rightarrow> plan_store" where
  "store_new cutover =
     \<lparr>ps_plans = Map.empty, ps_events = Map.empty, ps_origins = Map.empty, ps_snapshots = Map.empty,
      ps_outbox = [], ps_cutover = cutover, ps_counts = (\<lambda>_. 0), ps_transitions = []\<rparr>"

subsection \<open>v2.py: the cutover\<close>

text \<open>\<^verbatim>\<open>overlaps_legacy\<close>: an original opportunity that is still active is not created again.\<close>

definition same_opportunity :: "stored_plan \<Rightarrow> stored_plan \<Rightarrow> bool" where
  "same_opportunity row p \<longleftrightarrow>
     pn_source row = pn_source p
     \<and> list_all (\<lambda>k. pn_attrs row k = pn_attrs p k) [''symbol'', ''direction'', ''family'', ''horizon_profile'']
     \<and> jget (JObj (pn_evidence row)) ''trigger_bar_end'' = jget (JObj (pn_evidence p)) ''trigger_bar_end''"

definition overlaps_legacy :: "ms option \<Rightarrow> stored_plan list \<Rightarrow> stored_plan \<Rightarrow> bool" where
  "overlaps_legacy cutover rows p \<longleftrightarrow>
     list_ex (\<lambda>row. legacy_plan cutover row \<and> same_opportunity row p) rows"

section \<open>Correctness\<close>

subsection \<open>Dictionaries\<close>

lemma map_of_restore_key:
  "map_of (restore_key saved x e) k = (if k = x then map_of saved x else map_of e k)"
  by (auto simp: restore_key_def update_conv' delete_conv' split: option.splits)

lemma map_of_restore_evidence:
  "map_of (restore_evidence names saved e) k = (if k \<in> set names then map_of saved k else map_of e k)"
  unfolding restore_evidence_def
  by (induction names arbitrary: e) (auto simp: map_of_restore_key)

lemma map_of_setdefault: "map_of (dict_setdefault k v d) x = (if map_of d x = None \<and> x = k then Some v else map_of d x)"
  by (auto simp: dict_setdefault_def map_add_def split: option.splits)

lemma fold_observed:
  "map_of (fold (\<lambda>k e. case map_of saved k of None \<Rightarrow> e | Some v \<Rightarrow> dict_setdefault k v e) ks e) x =
     (if x \<in> set ks \<and> map_of e x = None then map_of saved x else map_of e x)"
proof (induction ks arbitrary: e)
  case (Cons k ks)
  show ?case
    unfolding fold.simps comp_def Cons.IH
    by (auto simp: map_of_setdefault split: option.split)
qed simp

lemma map_of_keep_observed:
  "map_of (keep_observed saved e) x =
     (if x \<in> set OBSERVED \<and> map_of e x = None then map_of saved x else map_of e x)"
  unfolding keep_observed_def by (rule fold_observed)

lemma observed_not_frozen: "x \<in> set EVIDENCE \<Longrightarrow> x \<notin> set OBSERVED"
proof -
  have "list_all (\<lambda>x. x \<notin> set OBSERVED) EVIDENCE" by code_simp
  then show "x \<in> set EVIDENCE \<Longrightarrow> x \<notin> set OBSERVED" by (simp add: list_all_iff)
qed

lemma policies_frozen: "''production_policies'' \<in> set EVIDENCE"
  by (simp add: EVIDENCE_def)

subsection \<open>Well-formed stores\<close>

lemma preserve_ids [simp]:
  "pn_state (preserve_legacy c o' p) = pn_state p" "pn_coverage (preserve_legacy c o' p) = pn_coverage p"
  "pn_state (preserve_published rows o' p) = pn_state p" "pn_coverage (preserve_published rows o' p) = pn_coverage p"
  "pn_id o' = pn_id p \<Longrightarrow> pn_id (preserve_legacy c o' p) = pn_id p"
  "pn_id o' = pn_id p \<Longrightarrow> pn_id (preserve_published rows o' p) = pn_id p"
  by (simp_all add: preserve_legacy_def preserve_published_def restore_plan_def Let_def)

definition store_inv :: "plan_store \<Rightarrow> bool" where
  "store_inv st \<longleftrightarrow>
     (\<forall>sid p. ps_plans st sid = Some p \<longrightarrow> pn_id p = sid)
     \<and> (\<forall>sid p. ps_plans st sid = Some p \<longrightarrow> pn_state p \<in> TERMINAL \<longrightarrow>
          (\<exists>ev. ps_events st sid = Some ev \<and> pe_state ev = pn_state p))
     \<and> (\<forall>sid ev. ps_events st sid = Some ev \<longrightarrow>
          (\<exists>p. ps_plans st sid = Some p \<and> pn_state p = pe_state ev \<and> pe_state ev \<in> TERMINAL))"

lemma store_inv_new: "store_inv (store_new c)"
  by (simp add: store_inv_def store_new_def)

lemma capture_frame [simp]:
  "ps_plans (capture g p st) = ps_plans st" "ps_events (capture g p st) = ps_events st"
  "ps_outbox (capture g p st) = ps_outbox st" "ps_transitions (capture g p st) = ps_transitions st"
  "ps_cutover (capture g p st) = ps_cutover st" "ps_origins (capture g p st) = ps_origins st"
  by (simp_all add: capture_def)

lemma commit_frame:
  "ps_plans (commit_plan now reason old p st) = (ps_plans st)(pn_id p \<mapsto> p)"
  "ps_outbox (commit_plan now reason old p st) = ps_outbox st"
  "ps_snapshots (commit_plan now reason old p st) = ps_snapshots st"
  "ps_events (commit_plan now reason old p st) =
     (if pn_state p \<in> TERMINAL \<and> ps_events st (pn_id p) = None
      then (ps_events st)(pn_id p \<mapsto> terminal_row now reason (ps_outbox st) p) else ps_events st)"
  "sid \<noteq> pn_id p \<Longrightarrow> filter (\<lambda>t. fst t = sid) (ps_transitions (commit_plan now reason old p st))
     = filter (\<lambda>t. fst t = sid) (ps_transitions st)"
  by (auto simp: commit_plan_def Let_def)

text \<open>One write of a plan, by what was stored before it.\<close>

definition written :: "plan_store \<Rightarrow> stored_plan \<Rightarrow> stored_plan \<Rightarrow> stored_plan" where
  "written st o' p =
     (let p1 = preserve_published (ps_outbox st) o' (preserve_legacy (ps_cutover st) o' p)
      in p1\<lparr>pn_evidence := keep_observed (pn_evidence o') (pn_evidence p1),
            pn_coverage := merge_coverage (pn_coverage o') (pn_coverage p1)\<rparr>)"

lemma written_ids [simp]:
  "pn_state (written st o' p) = pn_state p" "pn_id o' = pn_id p \<Longrightarrow> pn_id (written st o' p) = pn_id p"
  by (simp_all add: written_def Let_def)

lemma store_signal_cases:
  assumes "store_signal now reason p st = Inr (q, st')"
  obtains (new) st2 where "ps_plans st (pn_id p) = None" "st' = commit_plan now reason None p st2"
      "ps_plans st2 = ps_plans st" "ps_events st2 = ps_events st" "ps_outbox st2 = ps_outbox st"
      "ps_transitions st2 = ps_transitions st" "\<forall>x s. ps_snapshots st x = Some s \<longrightarrow> ps_snapshots st2 x = Some s"
  | (closed) o' where "ps_plans st (pn_id p) = Some o'" "pn_state o' \<in> TERMINAL"
      "ps_plans st' = ps_plans st" "ps_events st' = ps_events st" "ps_outbox st' = ps_outbox st"
      "ps_transitions st' = ps_transitions st" "\<forall>x s. ps_snapshots st x = Some s \<longrightarrow> ps_snapshots st' x = Some s"
  | (live) o' st2 where "ps_plans st (pn_id p) = Some o'" "pn_state o' \<notin> TERMINAL"
      "st' = commit_plan now reason (Some o') (written st o' p) st2"
      "ps_plans st2 = ps_plans st" "ps_events st2 = ps_events st" "ps_outbox st2 = ps_outbox st"
      "ps_transitions st2 = ps_transitions st" "\<forall>x s. ps_snapshots st x = Some s \<longrightarrow> ps_snapshots st2 x = Some s"
proof -
  have keep: "ps_snapshots s x = Some y \<Longrightarrow> ps_snapshots (capture g r s) x = Some y" for g r s x y
    by (auto simp: capture_def)
  show thesis
  proof (cases "ps_plans st (pn_id p)")
    case None
    then show thesis using assms new keep
      by (auto simp: store_signal_def Let_def split: if_splits)
  next
    case (Some o')
    show thesis
    proof (cases "pn_state o' \<in> TERMINAL")
      case True
      then show thesis using assms Some closed [OF Some True] keep
        by (auto simp: store_signal_def Let_def split: if_splits)
    next
      case False
      then show thesis using assms Some live [OF Some False] keep
        by (auto simp: store_signal_def Let_def written_def split: if_splits)
    qed
  qed
qed

lemma commit_inv:
  assumes inv: "store_inv st" and st2: "ps_plans st2 = ps_plans st" "ps_events st2 = ps_events st"
    and open': "\<And>o'. ps_plans st (pn_id p) = Some o' \<Longrightarrow> pn_state o' \<notin> TERMINAL"
  shows "store_inv (commit_plan now reason old p st2)"
proof -
  have none: "ps_events st (pn_id p) = None"
    using inv open' unfolding store_inv_def by (metis option.exhaust)
  show ?thesis
    using inv none unfolding store_inv_def commit_frame st2
    by (auto simp: terminal_row_def)
qed

lemma monitor_cases:
  "(\<exists>o'. ps_plans st (pn_id p) = Some o' \<and> pn_state o' = pn_state p
      \<and> snd (store_monitor p st) = st\<lparr>ps_plans := (ps_plans st)
          (pn_id (preserve_published (ps_outbox st) o' (preserve_legacy (ps_cutover st) o' p))
             \<mapsto> preserve_published (ps_outbox st) o' (preserve_legacy (ps_cutover st) o' p))\<rparr>)
   \<or> snd (store_monitor p st) = st"
  by (auto simp: store_monitor_def Let_def split: option.splits)

lemma store_step_inv:
  assumes inv: "store_inv st"
  shows "store_inv (store_step e st)"
proof (cases e)
  case (Save now reason p)
  show ?thesis
  proof (cases "store_signal now reason p st")
    case (Inl x)
    then show ?thesis using inv Save by simp
  next
    case (Inr r)
    obtain q st' where r: "r = (q, st')" by (cases r)
    from Inr [unfolded r] have "store_inv st'"
    proof (cases rule: store_signal_cases)
      case (new st2)
      then show ?thesis using commit_inv [OF inv new(3,4), of p] by simp
    next
      case (closed o')
      then show ?thesis using inv by (simp add: store_inv_def)
    next
      case (live o' st2)
      have "pn_id o' = pn_id p" using inv live(1) by (simp add: store_inv_def)
      then have "pn_id (written st o' p) = pn_id p" by simp
      then show ?thesis
        using commit_inv [OF inv live(4,5), of "written st o' p"] live(1-3) by simp
    qed
    then show ?thesis using Save Inr r by simp
  qed
next
  case (Monitored p)
  from monitor_cases [of st p] show ?thesis
  proof
    assume "\<exists>o'. ps_plans st (pn_id p) = Some o' \<and> pn_state o' = pn_state p
      \<and> snd (store_monitor p st) = st\<lparr>ps_plans := (ps_plans st)
          (pn_id (preserve_published (ps_outbox st) o' (preserve_legacy (ps_cutover st) o' p))
             \<mapsto> preserve_published (ps_outbox st) o' (preserve_legacy (ps_cutover st) o' p))\<rparr>"
    then obtain o' where o': "ps_plans st (pn_id p) = Some o'" "pn_state o' = pn_state p"
      and st': "snd (store_monitor p st) = st\<lparr>ps_plans := (ps_plans st)
          (pn_id (preserve_published (ps_outbox st) o' (preserve_legacy (ps_cutover st) o' p))
             \<mapsto> preserve_published (ps_outbox st) o' (preserve_legacy (ps_cutover st) o' p))\<rparr>" by (elim exE conjE)
    have ids: "pn_id o' = pn_id p" using inv o'(1) by (simp add: store_inv_def)
    show ?thesis using inv o' ids unfolding Monitored store_step.simps st'
      by (fastforce simp: store_inv_def simp del: TERMINAL_iff)
  qed (use inv Monitored in simp)
next
  case (Delivered r)
  then show ?thesis using inv by (simp add: store_inv_def)
qed

interpretation plan_machine: step_invariant store_step store_inv
  by unfold_locales (rule store_step_inv)

subsection \<open>A terminal stored_plan stays terminal\<close>

definition closed_as :: "string \<Rightarrow> sig_state \<Rightarrow> plan_event \<Rightarrow> (string \<times> ms \<times> sig_state \<times> string) list \<Rightarrow> plan_store \<Rightarrow> bool" where
  "closed_as sid s ev ts st \<longleftrightarrow>
     store_inv st \<and> s \<in> TERMINAL \<and> (\<exists>p. ps_plans st sid = Some p \<and> pn_state p = s)
     \<and> ps_events st sid = Some ev \<and> filter (\<lambda>t. fst t = sid) (ps_transitions st) = ts"

lemma closed_step:
  assumes c: "closed_as sid s ev ts st"
  shows "closed_as sid s ev ts (store_step e st)"
proof -
  have inv: "store_inv st" and inv': "store_inv (store_step e st)"
    using c store_step_inv by (auto simp: closed_as_def)
  have untouched: "closed_as sid s ev ts st'"
    if "store_inv st'" "ps_plans st' sid = ps_plans st sid" "ps_events st' sid = ps_events st sid"
      "filter (\<lambda>t. fst t = sid) (ps_transitions st') = filter (\<lambda>t. fst t = sid) (ps_transitions st)" for st'
    using c that by (simp add: closed_as_def)
  show ?thesis
  proof (cases e)
    case (Save now reason p)
    show ?thesis
    proof (cases "store_signal now reason p st")
      case (Inl x)
      then show ?thesis using c Save by simp
    next
      case (Inr r)
      obtain q st' where r: "r = (q, st')" by (cases r)
      have st': "store_step e st = st'" using Save Inr r by simp
      from Inr [unfolded r] show ?thesis
      proof (cases rule: store_signal_cases)
        case (new st2)
        then have "sid \<noteq> pn_id p" using c by (auto simp: closed_as_def)
        then show ?thesis using untouched [OF inv'] new unfolding st' by (simp add: commit_frame)
      next
        case (closed o')
        then show ?thesis using untouched [OF inv'] unfolding st' by simp
      next
        case (live o' st2)
        have ids: "pn_id (written st o' p) = pn_id p" using inv live(1) by (simp add: store_inv_def)
        have "sid \<noteq> pn_id p" using c live(1,2) by (auto simp: closed_as_def)
        then show ?thesis using untouched [OF inv'] live ids unfolding st' by (simp add: commit_frame)
      qed
    qed
  next
    case (Monitored p)
    from monitor_cases [of st p] show ?thesis
    proof
      assume "\<exists>o'. ps_plans st (pn_id p) = Some o' \<and> pn_state o' = pn_state p
      \<and> snd (store_monitor p st) = st\<lparr>ps_plans := (ps_plans st)
          (pn_id (preserve_published (ps_outbox st) o' (preserve_legacy (ps_cutover st) o' p))
             \<mapsto> preserve_published (ps_outbox st) o' (preserve_legacy (ps_cutover st) o' p))\<rparr>"
      then obtain o' where o': "ps_plans st (pn_id p) = Some o'" "pn_state o' = pn_state p"
        and st': "snd (store_monitor p st) = st\<lparr>ps_plans := (ps_plans st)
          (pn_id (preserve_published (ps_outbox st) o' (preserve_legacy (ps_cutover st) o' p))
             \<mapsto> preserve_published (ps_outbox st) o' (preserve_legacy (ps_cutover st) o' p))\<rparr>" by (elim exE conjE)
      have ids: "pn_id o' = pn_id p" using inv o'(1) by (simp add: store_inv_def)
      show ?thesis
        using c inv' o' ids unfolding Monitored store_step.simps st' by (auto simp: closed_as_def)
    qed (use c Monitored in simp)
  next
    case (Delivered r)
    then show ?thesis using untouched [OF inv'] by simp
  qed
qed

interpretation closed_machine: step_invariant store_step "closed_as sid s ev ts" for sid s ev ts
  by unfold_locales (rule closed_step)

text \<open>C13: c#terminal_plan_stays_terminal:
  A stored plan that has ended never comes back. Whatever plans the asynchronous writers still
  hold and whatever they write later, in any order, the stored state stays the terminal state
  it was, its terminal event is recorded once and keeps its price and reason, and no further
  transition of the plan is recorded.\<close>

theorem terminal_plan_stays_terminal:
  assumes st: "st = fold store_step before (store_new cutover)"
    and p: "ps_plans st sid = Some p" and ended: "pn_state p \<in> TERMINAL"
  shows "\<exists>ev q. ps_events st sid = Some ev \<and> pe_state ev = pn_state p
    \<and> ps_plans (fold store_step after st) sid = Some q \<and> pn_state q = pn_state p
    \<and> ps_events (fold store_step after st) sid = Some ev
    \<and> filter (\<lambda>t. fst t = sid) (ps_transitions (fold store_step after st))
        = filter (\<lambda>t. fst t = sid) (ps_transitions st)"
proof -
  have inv: "store_inv st" unfolding st by (rule plan_machine.run_inv [OF store_inv_new])
  then obtain ev where ev: "ps_events st sid = Some ev" "pe_state ev = pn_state p"
    using p ended unfolding store_inv_def by blast
  have "closed_as sid (pn_state p) ev (filter (\<lambda>t. fst t = sid) (ps_transitions st)) st"
    using inv p ended ev by (simp add: closed_as_def)
  from closed_machine.run_inv [OF this, of after] show ?thesis
    using ev by (auto simp: closed_as_def)
qed

subsection \<open>A published stored_plan is frozen\<close>

definition published :: "plan_store \<Rightarrow> stored_plan \<Rightarrow> bool" where
  "published st p \<longleftrightarrow> policy_of p = JStr PLAN_POLICY \<and> initial_sent (ps_outbox st) (pn_id p)"

text \<open>The later plan agrees with the earlier one on everything that is frozen.\<close>

definition agrees :: "stored_plan \<Rightarrow> stored_plan \<Rightarrow> bool" where
  "agrees p q \<longleftrightarrow>
     pn_id q = pn_id p \<and> pn_created q = pn_created p \<and> pn_source q = pn_source p
     \<and> (\<forall>k \<in> set FROZEN_FIELDS. pn_attrs p k \<noteq> None \<longrightarrow> pn_attrs q k = pn_attrs p k)
     \<and> (\<forall>k \<in> set EVIDENCE. map_of (pn_evidence q) k = map_of (pn_evidence p) k)"

lemma agrees_refl: "agrees p p"
  by (simp add: agrees_def)

lemma agrees_trans: "agrees p q \<Longrightarrow> agrees q r \<Longrightarrow> agrees p r"
  unfolding agrees_def by (elim conjE) (intro conjI ballI impI; simp)

lemma agrees_policy: "agrees p q \<Longrightarrow> policy_of q = policy_of p"
  using policies_frozen unfolding agrees_def policy_of_def by simp

lemma agrees_published: "published st p \<Longrightarrow> agrees p q \<Longrightarrow> published st q"
  by (auto simp: published_def agrees_policy) (simp add: agrees_def)

lemma preserve_agrees:
  assumes pub: "published st o'" and ids: "pn_id o' = pn_id p"
  shows "agrees o' (preserve_published (ps_outbox st) o' (preserve_legacy (ps_cutover st) o' p))"
proof -
  have "preserve_published (ps_outbox st) o' (preserve_legacy (ps_cutover st) o' p)
      = restore_plan EVIDENCE o' (preserve_legacy (ps_cutover st) o' p)"
    using pub ids by (simp add: preserve_published_def published_def)
  then show ?thesis
    by (auto simp: agrees_def restore_plan_def restore_attrs_def map_of_restore_evidence)
qed

lemma written_agrees:
  assumes "published st o'" and "pn_id o' = pn_id p"
  shows "agrees o' (written st o' p)"
  using preserve_agrees [OF assms] observed_not_frozen
  by (simp add: agrees_def written_def Let_def map_of_keep_observed)

definition frozen_since :: "stored_plan \<Rightarrow> plan_store \<Rightarrow> bool" where
  "frozen_since p st \<longleftrightarrow>
     store_inv st \<and> (\<exists>q. ps_plans st (pn_id p) = Some q \<and> agrees p q \<and> published st q)"

lemma published_mono: "published st p \<Longrightarrow> set (ps_outbox st) \<subseteq> set (ps_outbox st') \<Longrightarrow> published st' p"
  by (auto simp: published_def initial_sent_def list_ex_iff)

lemma frozen_step:
  assumes f: "frozen_since p st"
  shows "frozen_since p (store_step e st)"
proof -
  from f obtain q where inv: "store_inv st" and q: "ps_plans st (pn_id p) = Some q"
    and ag: "agrees p q" and pub: "published st q" unfolding frozen_since_def by (elim conjE exE)
  have inv': "store_inv (store_step e st)" using inv by (rule store_step_inv)
  have qid: "pn_id q = pn_id p" using ag by (simp add: agrees_def)
  have same: "frozen_since p st'" if "store_inv st'" "ps_plans st' (pn_id p) = Some q"
      "set (ps_outbox st) \<subseteq> set (ps_outbox st')" for st'
    unfolding frozen_since_def using that ag published_mono [OF pub that(3)] by blast
  have moved: "frozen_since p st'" if "store_inv st'" "ps_plans st' (pn_id p) = Some q'" "agrees q q'"
      "set (ps_outbox st) \<subseteq> set (ps_outbox st')" for st' q'
    unfolding frozen_since_def
    using that agrees_trans [OF ag that(3)] published_mono [OF agrees_published [OF pub that(3)] that(4)] by blast
  show ?thesis
  proof (cases e)
    case (Save now reason r)
    show ?thesis
    proof (cases "store_signal now reason r st")
      case (Inl x)
      then show ?thesis using f Save by simp
    next
      case (Inr res)
      obtain u st' where res: "res = (u, st')" by (cases res)
      have st': "store_step e st = st'" using Save Inr res by simp
      from Inr [unfolded res] show ?thesis
      proof (cases rule: store_signal_cases)
        case (new st2)
        then have "pn_id p \<noteq> pn_id r" using q by auto
        then show ?thesis using same [OF inv'] new q unfolding st' by (simp add: commit_frame)
      next
        case (closed o')
        then show ?thesis using same [OF inv'] q unfolding st' by simp
      next
        case (live o' st2)
        have oid: "pn_id o' = pn_id r" using inv live(1) by (simp add: store_inv_def)
        then have wid: "pn_id (written st o' r) = pn_id r" by simp
        show ?thesis
        proof (cases "pn_id r = pn_id p")
          case True
          then have "o' = q" using live(1) q by simp
          then have "agrees q (written st o' r)" using written_agrees [OF pub] oid by simp
          then show ?thesis using moved [OF inv', of "written st o' r"] live wid True unfolding st'
            by (simp add: commit_frame)
        next
          case False
          then show ?thesis using same [OF inv'] live wid q unfolding st' by (simp add: commit_frame)
        qed
      qed
    qed
  next
    case (Monitored r)
    from monitor_cases [of st r] show ?thesis
    proof
      assume "\<exists>o'. ps_plans st (pn_id r) = Some o' \<and> pn_state o' = pn_state r
      \<and> snd (store_monitor r st) = st\<lparr>ps_plans := (ps_plans st)
          (pn_id (preserve_published (ps_outbox st) o' (preserve_legacy (ps_cutover st) o' r))
             \<mapsto> preserve_published (ps_outbox st) o' (preserve_legacy (ps_cutover st) o' r))\<rparr>"
      then obtain o' where o': "ps_plans st (pn_id r) = Some o'"
        and st': "snd (store_monitor r st) = st\<lparr>ps_plans := (ps_plans st)
          (pn_id (preserve_published (ps_outbox st) o' (preserve_legacy (ps_cutover st) o' r))
             \<mapsto> preserve_published (ps_outbox st) o' (preserve_legacy (ps_cutover st) o' r))\<rparr>" by (elim exE conjE)
      have oid: "pn_id o' = pn_id r" using inv o' by (simp add: store_inv_def)
      show ?thesis
      proof (cases "pn_id r = pn_id p")
        case True
        then have "o' = q" using o' q by simp
        then show ?thesis
          using moved [OF inv', of "preserve_published (ps_outbox st) o' (preserve_legacy (ps_cutover st) o' r)"]
            preserve_agrees [OF pub, of r] oid True Monitored st' by simp
      next
        case False
        then show ?thesis using same [OF inv'] q oid Monitored st' by simp
      qed
    qed (use f Monitored in simp)
  next
    case (Delivered r)
    then show ?thesis using same [OF inv'] q by auto
  qed
qed

interpretation frozen_machine: step_invariant store_step "frozen_since p" for p
  by unfold_locales (rule frozen_step)

text \<open>C14: c#published_plan_is_frozen:
  What was published cannot change. Once the initial card of a v2.2 plan is recorded as sent
  with a message id, every later stored version of the plan, after any writes by any holders of
  old or altered copies, has the same source and creation time, the same value of each of the
  frozen attributes the published row had (levels, deadlines, risk, score, gates and the rest),
  and the same published evidence, key by key, absent keys included.\<close>

theorem published_plan_is_frozen:
  assumes st: "st = fold store_step before (store_new cutover)"
    and p: "ps_plans st sid = Some p" and pub: "published st p"
  shows "\<exists>q. ps_plans (fold store_step after st) sid = Some q
    \<and> pn_source q = pn_source p \<and> pn_created q = pn_created p
    \<and> (\<forall>k \<in> set FROZEN_FIELDS. pn_attrs p k \<noteq> None \<longrightarrow> pn_attrs q k = pn_attrs p k)
    \<and> (\<forall>k \<in> set EVIDENCE. map_of (pn_evidence q) k = map_of (pn_evidence p) k)"
proof -
  have inv: "store_inv st" unfolding st by (rule plan_machine.run_inv [OF store_inv_new])
  then have sid: "pn_id p = sid" using p by (simp add: store_inv_def)
  have "frozen_since p st" unfolding frozen_since_def using inv p sid pub agrees_refl by blast
  from frozen_machine.run_inv [OF this, of after] show ?thesis
    unfolding frozen_since_def agrees_def sid by blast
qed


definition a_plan :: "string \<Rightarrow> sig_state \<Rightarrow> stored_plan" where
  "a_plan reason s =
     \<lparr>pn_id = ''p1'', pn_created = 100, pn_source = Bybit, pn_state = s, pn_synthetic = False,
      pn_attrs = [''reason'' \<mapsto> JStr reason, ''horizon_profile'' \<mapsto> JStr ''INTRADAY''],
      pn_evidence = [(''production_policies'', JObj [(''trade_quality'', JStr PLAN_POLICY)])], pn_coverage = []\<rparr>"

definition a_delivery :: outbox_row where
  "a_delivery = \<lparr>ob_signal = ''p1'', ob_initial = True, ob_sent = True, ob_message = Some ''m''\<rparr>"

lemma terminal_plan_stays_terminal_witness:
  "let before = [Save 200 ''target'' (a_plan ''sweep'' RESOLVED)];
       after = [Save 300 ''evaluation'' (a_plan ''sweep'' CONFIRMED), Monitored (a_plan ''sweep'' CONFIRMED)];
       st = fold store_step before (store_new None)
   in \<exists>q. ps_plans (fold store_step after st) ''p1'' = Some q \<and> pn_state q = RESOLVED"
proof -
  let ?st = "fold store_step [Save 200 ''target'' (a_plan ''sweep'' RESOLVED)] (store_new None)"
  have p: "ps_plans ?st ''p1'' = Some (a_plan ''sweep'' RESOLVED)"
    by (simp add: store_signal_def store_new_def a_plan_def commit_frame Let_def)
  have ended: "pn_state (a_plan ''sweep'' RESOLVED) = RESOLVED" by (simp add: a_plan_def)
  from terminal_plan_stays_terminal [OF refl p, unfolded ended,
      of "[Save 300 ''evaluation'' (a_plan ''sweep'' CONFIRMED), Monitored (a_plan ''sweep'' CONFIRMED)]"]
  show ?thesis unfolding Let_def by (simp del: store_step.simps fold.simps) blast
qed

lemma published_plan_is_frozen_witness:
  "let before = [Save 200 ''evaluation'' (a_plan ''sweep'' CONFIRMED), Delivered a_delivery];
       after = [Save 300 ''evaluation'' (a_plan ''second look'' CONFIRMED)];
       st = fold store_step before (store_new None)
   in \<exists>q. ps_plans (fold store_step after st) ''p1'' = Some q \<and> pn_attrs q ''reason'' = Some (JStr ''sweep'')"
proof -
  let ?st = "fold store_step [Save 200 ''evaluation'' (a_plan ''sweep'' CONFIRMED), Delivered a_delivery] (store_new None)"
  have p: "ps_plans ?st ''p1'' = Some (a_plan ''sweep'' CONFIRMED)"
    by (simp add: store_signal_def store_new_def a_plan_def commit_frame Let_def)
  have pub: "published ?st (a_plan ''sweep'' CONFIRMED)"
    by (simp add: published_def policy_of_def initial_sent_def a_delivery_def a_plan_def)
  have "''reason'' \<in> set FROZEN_FIELDS" by (simp add: FROZEN_FIELDS_def)
  moreover have "pn_attrs (a_plan ''sweep'' CONFIRMED) ''reason'' = Some (JStr ''sweep'')" by (simp add: a_plan_def)
  ultimately show ?thesis
    using published_plan_is_frozen [OF refl p pub, of "[Save 300 ''evaluation'' (a_plan ''second look'' CONFIRMED)]"]
    unfolding Let_def by (metis option.distinct(1))
qed

subsection \<open>The coverage merge\<close>

text \<open>
  A stale write is meant to keep the whole stored monitor state. The test of the merge reads the
  clock it is overwriting, so every key that comes after \<^verbatim>\<open>last_monitor_ms\<close> keeps the stale
  value, and the row claims to be monitored further than its cursor.
\<close>

lemma stale_write_splits_monitor_state:
  "let saved = [(''last_monitor_ms'', JInt 20), (''monitor_cursor_event_ms'', JInt 19)];
       stale = [(''last_monitor_ms'', JInt 10), (''monitor_cursor_event_ms'', JInt 9)]
   in merge_coverage saved stale = [(''last_monitor_ms'', JInt 20), (''monitor_cursor_event_ms'', JInt 9)]"
  by code_simp

lemma merge_keeps_newer:
  assumes "monitor_ms saved \<le> monitor_ms c"
  shows "merge_coverage saved c = c"
proof -
  have "fold (\<lambda>(k, v) c. if monitor_key k \<and> monitor_ms saved > monitor_ms c then AList.update k v c else c) kvs c = c"
    for kvs using assms by (induction kvs) auto
  then show ?thesis by (simp add: merge_coverage_def)
qed
end
