(* ===== verification/Readiness.thy ===== *)
theory Readiness
  imports Prelude "HOL-Library.Product_Lexorder" "HOL-Library.List_Lexorder" "HOL-Library.Char_ord"
begin

text \<open>
  The prospective readiness counts, \<^verbatim>\<open>cache_readiness\<close> of
  \<^verbatim>\<open>src/bybit_flow/ml/completeness.py\<close>: decisions are read in pages of 500 by the
  primary key, each page starting behind the last row of the one before, and each candidate is
  counted once, at its earliest decision. The joins of the query are part of the rows.
\<close>

record decision_scan =
  dr_decision :: ms
  dr_id :: string
  dr_source :: string
  dr_identity :: string
  dr_eligible :: "bool option"
  dr_complete :: bool

record tally =
  ty_decisions :: nat
  ty_eligible :: nat
  ty_complete :: nat
  ty_ineligible :: nat
  ty_unmeasured :: nat

definition SOURCES :: "string list" where "SOURCES = [''binance'', ''bybit'', ''okx'']"

definition tally_zero :: tally where
  "tally_zero = \<lparr>ty_decisions = 0, ty_eligible = 0, ty_complete = 0, ty_ineligible = 0, ty_unmeasured = 0\<rparr>"

definition scan_key :: "decision_scan \<Rightarrow> ms \<times> string" where
  "scan_key r = (dr_decision r, dr_id r)"

definition tally_add :: "decision_scan \<Rightarrow> tally \<Rightarrow> tally" where
  "tally_add r t =
     t\<lparr>ty_decisions := ty_decisions t + 1,
       ty_eligible := ty_eligible t + of_bool (dr_eligible r = Some True),
       ty_complete := ty_complete t + of_bool (dr_eligible r = Some True \<and> dr_complete r),
       ty_ineligible := ty_ineligible t + of_bool (dr_eligible r = Some False),
       ty_unmeasured := ty_unmeasured t + of_bool (dr_eligible r = None)\<rparr>"

type_synonym tallies = "string list \<times> (string \<Rightarrow> tally)"

definition count_row :: "decision_scan \<Rightarrow> tallies \<Rightarrow> tallies" where
  "count_row r = (\<lambda>(seen, counts).
     if dr_identity r \<in> set seen then (seen, counts)
     else (dr_identity r # seen,
           if dr_source r \<in> set SOURCES
           then counts(dr_source r := tally_add r (counts (dr_source r))) else counts))"

definition behind :: "(ms \<times> string) option \<Rightarrow> decision_scan \<Rightarrow> bool" where
  "behind cursor r \<longleftrightarrow> (case cursor of None \<Rightarrow> True | Some c \<Rightarrow> c < scan_key r)"

definition scan_page :: "decision_scan list \<Rightarrow> (ms \<times> string) option \<Rightarrow> decision_scan list" where
  "scan_page table cursor = take 500 (sort_key scan_key (filter (behind cursor) table))"

lemma scan_page_last:
  assumes "scan_page table cursor = p" and "p \<noteq> []"
  shows "last p \<in> set table" and "behind cursor (last p)"
proof -
  have "last p \<in> set (sort_key scan_key (filter (behind cursor) table))"
    using assms unfolding scan_page_def by (metis in_set_takeD last_in_set)
  then show "last p \<in> set table" and "behind cursor (last p)" by auto
qed

lemma page_shrinks:
  assumes "scan_page table cursor \<noteq> []"
  shows "length (filter (behind (Some (scan_key (last (scan_page table cursor))))) table)
    < length (filter (behind cursor) table)"
proof -
  let ?l = "last (scan_page table cursor)"
  have l: "?l \<in> set (filter (behind cursor) table)" using scan_page_last [OF refl assms] by simp
  have "filter (behind (Some (scan_key ?l))) table
      = filter (behind (Some (scan_key ?l))) (filter (behind cursor) table)"
    using scan_page_last(2) [OF refl assms]
    by (auto simp: behind_def intro!: filter_cong split: option.splits)
  moreover have "length (filter (behind (Some (scan_key ?l))) (filter (behind cursor) table))
      < length (filter (behind cursor) table)"
    by (rule length_filter_less [OF l]) (simp add: behind_def)
  ultimately show ?thesis by simp
qed

text \<open>The loop returns: a page is behind the cursor, and its last row is the next cursor.\<close>

function scan_pages :: "decision_scan list \<Rightarrow> (ms \<times> string) option \<Rightarrow> tallies \<Rightarrow> tallies" where
  "scan_pages table cursor acc =
     (let rows = scan_page table cursor in
      if rows = [] then acc
      else if length rows < 500 then fold count_row rows acc
      else scan_pages table (Some (scan_key (last rows))) (fold count_row rows acc))"
  by pat_completeness auto

termination
  by (relation "measure (\<lambda>(table, cursor, acc). length (filter (behind cursor) table))")
    (use page_shrinks in auto)

declare scan_pages.simps [simp del]

definition cache_readiness :: "ms \<Rightarrow> decision_scan list \<Rightarrow> string \<Rightarrow> tally" where
  "cache_readiness asof table =
     snd (scan_pages (filter (\<lambda>r. dr_decision r \<le> asof) table) None ([], \<lambda>_. tally_zero))"

section \<open>Correctness\<close>

subsection \<open>Pages are one pass\<close>

lemma sort_strict:
  assumes "inj_on scan_key (set xs)" and "distinct xs"
  shows "sorted_wrt (\<lambda>a b. scan_key a < scan_key b) (sort_key scan_key xs)"
proof -
  have "distinct (map scan_key (sort_key scan_key xs))" using assms by (simp add: distinct_map)
  then have "sorted_wrt (<) (map scan_key (sort_key scan_key xs))"
    by (simp add: strict_sorted_iff)
  then show ?thesis by (simp add: sorted_wrt_map)
qed

lemma filter_behind_drop:
  assumes "sorted_wrt (\<lambda>a b. scan_key a < scan_key b) (ps @ qs)" and "ps \<noteq> []"
  shows "filter (\<lambda>r. scan_key (last ps) < scan_key r) (ps @ qs) = qs"
proof -
  have "\<forall>r \<in> set qs. scan_key (last ps) < scan_key r"
    using assms by (auto simp: sorted_wrt_append)
  moreover have "\<forall>r \<in> set ps. \<not> scan_key (last ps) < scan_key r"
    using assms
    by (induction ps rule: rev_induct) (auto simp: sorted_wrt_append less_imp_not_less)
  ultimately show ?thesis by (simp add: filter_empty_conv filter_id_conv)
qed

lemma next_page:
  assumes table: "inj_on scan_key (set table)" "distinct table"
    and p: "scan_page table cursor = p" "p \<noteq> []"
  shows "sort_key scan_key (filter (behind (Some (scan_key (last p)))) table)
    = drop 500 (sort_key scan_key (filter (behind cursor) table))"
proof -
  let ?xs = "sort_key scan_key (filter (behind cursor) table)"
  have "inj_on scan_key (set (filter (behind cursor) table))" using table(1) by (auto intro: inj_on_subset)
  from sort_strict [OF this] table(2) have strict: "sorted_wrt (\<lambda>a b. scan_key a < scan_key b) ?xs" by simp
  have split: "?xs = p @ drop 500 ?xs" unfolding p(1) [symmetric] scan_page_def by simp
  have "filter (behind (Some (scan_key (last p)))) table
      = filter (behind (Some (scan_key (last p)))) (filter (behind cursor) table)"
    using scan_page_last(2) [OF p] by (auto simp: behind_def intro!: filter_cong split: option.splits)
  then have "sort_key scan_key (filter (behind (Some (scan_key (last p)))) table)
      = filter (\<lambda>r. scan_key (last p) < scan_key r) ?xs"
    by (simp add: filter_sort [symmetric] behind_def)
  also have "\<dots> = drop 500 ?xs"
    using filter_behind_drop [of p "drop 500 ?xs"] strict split p(2) by metis
  finally show ?thesis .
qed

lemma pages_one_pass:
  assumes "inj_on scan_key (set table)" and "distinct table"
  shows "scan_pages table cursor acc = fold count_row (sort_key scan_key (filter (behind cursor) table)) acc"
  using assms
proof (induction table cursor acc rule: scan_pages.induct)
  case (1 table cursor acc)
  let ?xs = "sort_key scan_key (filter (behind cursor) table)"
  let ?p = "scan_page table cursor"
  consider "?p = []" | "?p \<noteq> []" "length ?p < 500" | "?p \<noteq> []" "\<not> length ?p < 500" by blast
  then show ?case
  proof cases
    case 1
    then have "length ?xs = 0" by (simp add: scan_page_def)
    then have "?xs = []" by blast
    then show ?thesis using 1 by (simp add: scan_pages.simps)
  next
    case 2
    then have "?p = ?xs" by (auto simp: scan_page_def)
    then show ?thesis using 2 by (simp add: scan_pages.simps)
  next
    case 3
    have "scan_pages table (Some (scan_key (last ?p))) (fold count_row ?p acc)
        = fold count_row (drop 500 ?xs) (fold count_row ?p acc)"
      using "1.IH" [OF refl 3] "1.prems" next_page [OF "1.prems" refl 3(1)] by simp
    also have "\<dots> = fold count_row (?p @ drop 500 ?xs) acc" by simp
    also have "?p @ drop 500 ?xs = ?xs" by (simp add: scan_page_def)
    finally show ?thesis using 3 by (simp add: scan_pages.simps)
  qed
qed

subsection \<open>Each candidate once\<close>

text \<open>The decisions that are the earliest of their candidate.\<close>

definition earliest :: "decision_scan list \<Rightarrow> decision_scan \<Rightarrow> bool" where
  "earliest table r \<longleftrightarrow> (\<forall>q \<in> set table. dr_identity q = dr_identity r \<longrightarrow> scan_key r \<le> scan_key q)"

fun firsts :: "string list \<Rightarrow> decision_scan list \<Rightarrow> decision_scan list" where
  "firsts seen [] = []"
| "firsts seen (r # rs) =
     (if dr_identity r \<in> set seen then firsts seen rs else r # firsts (dr_identity r # seen) rs)"

lemma count_row_simps [simp]:
  "dr_identity r \<in> set seen \<Longrightarrow> count_row r (seen, counts) = (seen, counts)"
  "dr_identity r \<notin> set seen \<Longrightarrow> count_row r (seen, counts) = (dr_identity r # seen,
     if dr_source r \<in> set SOURCES then counts(dr_source r := tally_add r (counts (dr_source r))) else counts)"
  by (simp_all add: count_row_def)

lemma fold_count_firsts:
  "snd (fold count_row rs (seen, counts)) s =
     (if s \<in> set SOURCES then fold tally_add (filter (\<lambda>r. dr_source r = s) (firsts seen rs)) (counts s) else counts s)"
proof (induction rs arbitrary: seen counts)
  case (Cons r rs)
  show ?case
    by (cases "dr_identity r \<in> set seen"; cases "dr_source r \<in> set SOURCES")
      (auto simp: Cons.IH)
qed simp

lemma tally_count:
  "fold tally_add rs t =
     \<lparr>ty_decisions = ty_decisions t + length rs,
      ty_eligible = ty_eligible t + length (filter (\<lambda>r. dr_eligible r = Some True) rs),
      ty_complete = ty_complete t + length (filter (\<lambda>r. dr_eligible r = Some True \<and> dr_complete r) rs),
      ty_ineligible = ty_ineligible t + length (filter (\<lambda>r. dr_eligible r = Some False) rs),
      ty_unmeasured = ty_unmeasured t + length (filter (\<lambda>r. dr_eligible r = None) rs)\<rparr>"
  by (induction rs arbitrary: t) (auto simp: tally_add_def)

lemma firsts_sub: "set (firsts seen rs) \<subseteq> {r \<in> set rs. dr_identity r \<notin> set seen}"
proof (induction rs arbitrary: seen)
  case (Cons r rs)
  show ?case using Cons.IH [of seen] Cons.IH [of "dr_identity r # seen"] by auto
qed simp

lemma firsts_distinct: "distinct rs \<Longrightarrow> distinct (firsts seen rs)"
proof (induction rs arbitrary: seen)
  case (Cons r rs)
  show ?case using Cons firsts_sub [of "dr_identity r # seen" rs] by auto
qed simp

lemma firsts_iff:
  assumes "sorted_wrt (\<lambda>a b. scan_key a < scan_key b) rs"
  shows "r \<in> set (firsts seen rs) \<longleftrightarrow>
    r \<in> set rs \<and> dr_identity r \<notin> set seen
    \<and> (\<forall>q \<in> set rs. dr_identity q = dr_identity r \<longrightarrow> scan_key r \<le> scan_key q)"
  using assms
proof (induction rs arbitrary: seen)
  case (Cons x rs)
  have later: "\<forall>q \<in> set rs. scan_key x < scan_key q" using Cons.prems by simp
  have "sorted_wrt (\<lambda>a b. scan_key a < scan_key b) rs" using Cons.prems by simp
  note ih = Cons.IH [OF this]
  show ?case
  proof (cases "dr_identity x \<in> set seen")
    case True
    then show ?thesis using later by (auto simp: ih)
  next
    case False
    then show ?thesis using later by (auto simp: ih not_le [symmetric] less_imp_le)
  qed
qed simp

lemma card_filter: "distinct xs \<Longrightarrow> length (filter P xs) = card {x \<in> set xs. P x}"
  by (metis distinct_card distinct_filter set_filter)

lemma length_three:
  "length rs = length (filter (\<lambda>r. dr_eligible r = Some True) rs)
     + length (filter (\<lambda>r. dr_eligible r = Some False) rs) + length (filter (\<lambda>r. dr_eligible r = None) rs)"
proof (induction rs)
  case (Cons r rs)
  then show ?case by (cases "dr_eligible r"; cases "the (dr_eligible r)") auto
qed simp

text \<open>The decisions that are to be counted for a venue.\<close>

definition past_decisions :: "ms \<Rightarrow> decision_scan list \<Rightarrow> decision_scan list" where
  "past_decisions asof table = filter (\<lambda>r. dr_decision r \<le> asof) table"

definition counted :: "ms \<Rightarrow> decision_scan list \<Rightarrow> string \<Rightarrow> decision_scan set" where
  "counted asof table s =
     {r \<in> set (past_decisions asof table). earliest (past_decisions asof table) r \<and> dr_source r = s}"

text \<open>C40: c#readiness_counts_each_candidate_once:
  Paging changes nothing, and no candidate is counted twice. Whatever the table, the loop over
  pages of 500 rows returns, and for each venue the stored counts are those of one pass over the
  whole table: the candidates whose earliest decision up to the cutoff is that venue's, split
  without remainder into eligible, ineligible and unmeasured ones by that decision, with the
  completed outcomes among the eligible.\<close>

theorem readiness_counts_each_candidate_once:
  assumes ids: "distinct (map dr_id table)" and s: "s \<in> set SOURCES"
  shows "cache_readiness asof table s =
      \<lparr>ty_decisions = card (counted asof table s), ty_eligible = card {r \<in> counted asof table s. dr_eligible r = Some True},
       ty_complete = card {r \<in> counted asof table s. dr_eligible r = Some True \<and> dr_complete r},
       ty_ineligible = card {r \<in> counted asof table s. dr_eligible r = Some False},
       ty_unmeasured = card {r \<in> counted asof table s. dr_eligible r = None}\<rparr>
    \<and> inj_on dr_identity (counted asof table s)
    \<and> card (counted asof table s) = card {r \<in> counted asof table s. dr_eligible r = Some True}
        + card {r \<in> counted asof table s. dr_eligible r = Some False}
        + card {r \<in> counted asof table s. dr_eligible r = None}"
proof -
  let ?past = "past_decisions asof table" let ?counted = "counted asof table s"
  have dist: "distinct ?past" and inj: "inj_on scan_key (set ?past)"
    using ids by (auto simp: past_decisions_def distinct_map scan_key_def inj_on_def)
  let ?xs = "sort_key scan_key ?past"
  let ?f = "filter (\<lambda>r. dr_source r = s) (firsts [] ?xs)"
  have strict: "sorted_wrt (\<lambda>a b. scan_key a < scan_key b) ?xs" by (rule sort_strict [OF inj dist])
  have set_f: "set ?f = ?counted"
    using firsts_iff [OF strict] by (auto simp: counted_def earliest_def)
  have dist_f: "distinct ?f" using firsts_distinct [of ?xs "[]"] dist by simp
  have pick: "length (filter P ?f) = card {r \<in> ?counted. P r}" for P
    using card_filter [OF dist_f, of P] unfolding set_f .
  have len: "length ?f = card ?counted" using distinct_card [OF dist_f] unfolding set_f by simp
  have "filter (behind None) ?past = ?past" by (simp add: behind_def)
  then have "cache_readiness asof table s = fold tally_add ?f tally_zero"
    using s unfolding cache_readiness_def past_decisions_def [symmetric] pages_one_pass [OF inj dist]
    by (simp add: fold_count_firsts)
  then have "cache_readiness asof table s =
      \<lparr>ty_decisions = card ?counted, ty_eligible = card {r \<in> ?counted. dr_eligible r = Some True},
       ty_complete = card {r \<in> ?counted. dr_eligible r = Some True \<and> dr_complete r},
       ty_ineligible = card {r \<in> ?counted. dr_eligible r = Some False},
       ty_unmeasured = card {r \<in> ?counted. dr_eligible r = None}\<rparr>"
    unfolding tally_count pick len by (simp add: tally_zero_def)
  moreover have "inj_on dr_identity ?counted"
  proof (rule inj_onI)
    fix a b assume ab: "a \<in> ?counted" "b \<in> ?counted" "dr_identity a = dr_identity b"
    then have "scan_key a = scan_key b" unfolding counted_def earliest_def by (simp add: antisym)
    then show "a = b" using ab inj by (auto simp: counted_def dest: inj_onD)
  qed
  moreover have "length ?f = length (filter (\<lambda>r. dr_eligible r = Some True) ?f)
      + length (filter (\<lambda>r. dr_eligible r = Some False) ?f) + length (filter (\<lambda>r. dr_eligible r = None) ?f)"
    by (rule length_three)
  ultimately show ?thesis unfolding pick len by simp
qed

definition a_decision :: "ms \<Rightarrow> string \<Rightarrow> string \<Rightarrow> bool option \<Rightarrow> decision_scan" where
  "a_decision t i candidate e =
     \<lparr>dr_decision = t, dr_id = i, dr_source = ''okx'', dr_identity = candidate, dr_eligible = e, dr_complete = True\<rparr>"

lemma readiness_counts_each_candidate_once_witness:
  "let table = [a_decision 20 ''b'' ''c1'' (Some False), a_decision 10 ''a'' ''c1'' (Some True),
      a_decision 30 ''c'' ''c2'' None, a_decision 90 ''d'' ''c3'' None]
   in ty_decisions (cache_readiness 50 table ''okx'') = card (counted 50 table ''okx'')"
  unfolding Let_def
  by (subst readiness_counts_each_candidate_once) (simp_all add: a_decision_def SOURCES_def)

end
