(* ===== verification/Forensics.thy ===== *)
theory Forensics imports Labels RecordedCoverage begin

text \<open>
  The bounded reader of committed segments, class \<^verbatim>\<open>EvidenceReader\<close> of
  \<^verbatim>\<open>src/bybit_flow/ml/completeness.py\<close>. What the disk holds for a manifest is
  an argument: nothing, a file (or archive member) with its size, its digest, the sidecar manifest
  beside it and its decoded rows, or something whose opening raises. A decoding that fails raises
  after the rows before the damage. Rows are modelled after parsing. Of an exception the reader
  uses its name and whether \<^verbatim>\<open>record_failure\<close> finds a known cause for it; the row that
  \<^verbatim>\<open>record_failure\<close> stores is the identifier of the segment here.
\<close>

record tape_row =
  aw_receipt :: ms
  aw_source :: string
  aw_symbol :: string
  aw_complete :: bool
  aw_symbols :: "string list"
  aw_removed :: "string list"
  aw_gap_start :: "ms option"
  aw_gap_end :: "ms option"
  aw_reason :: "string option"
  aw_origin :: "string option"
  aw_prints :: "tape_print list"

record segment_entry =
  en_id :: string
  en_sha :: string
  en_min :: ms
  en_max :: ms
  en_rows :: nat
  en_previous :: "(string \<times> string) option"

record fault =
  ft_name :: string
  ft_unknown :: bool

record raw_content =
  ct_size :: nat
  ct_digest :: string
  ct_sidecar :: segment_entry
  ct_rows :: "tape_row list"
  ct_damage :: "fault option"

datatype raw_file =
    NoRaw
  | Raw raw_content
  | Unopened fault

record exclusion =
  ex_sha :: string
  ex_start :: ms
  ex_end :: ms
  ex_reason :: string

record tombstone =
  tm_at :: "ms option"

record reading =
  rv_rows :: "tape_row list"
  rv_valid :: bool
  rv_present :: bool
  rv_reason :: "string option"
  rv_tombstone :: bool
  rv_software_fault :: bool
  rv_cause_recorded :: bool

record reader =
  rd_markets :: "(string \<times> string) list"
  rd_max_segments :: nat
  rd_max_rows :: nat
  rd_max_bytes :: nat
  rd_segments :: nat
  rd_rows :: nat
  rd_bytes :: nat
  rd_cache :: "(string \<times> reading) list"
  rd_exhausted :: bool
  rd_exclusions :: "string \<rightharpoonup> exclusion"
  rd_causes :: "string list"

definition reader_new :: "(string \<times> string) list \<Rightarrow> nat \<Rightarrow> nat \<Rightarrow> nat \<Rightarrow> (string \<rightharpoonup> exclusion) \<Rightarrow> reader" where
  "reader_new markets max_segments max_rows max_bytes exclusions =
     \<lparr>rd_markets = markets, rd_max_segments = max_segments, rd_max_rows = max_rows,
      rd_max_bytes = max_bytes, rd_segments = 0, rd_rows = 0, rd_bytes = 0, rd_cache = [],
      rd_exhausted = False, rd_exclusions = exclusions, rd_causes = []\<rparr>"

definition reader_failure :: "segment_entry \<Rightarrow> reader \<Rightarrow> reader" where
  "reader_failure m rd = rd\<lparr>rd_causes := rd_causes rd @ [en_id m]\<rparr>"

definition finish_reading :: "segment_entry \<Rightarrow> reading \<Rightarrow> reader \<Rightarrow> reading \<times> reader" where
  "finish_reading m v rd =
     (let silent = (rv_reason v \<noteq> None \<and> \<not> rv_tombstone v \<and> \<not> rv_cause_recorded v);
          v1 = (if silent then v\<lparr>rv_cause_recorded := True\<rparr> else v);
          rd1 = (if silent then reader_failure m rd else rd);
          cache = rd_cache rd1 @ [(en_id m, v1)]
      in (v1, rd1\<lparr>rd_cache := drop (length cache - 128) cache\<rparr>))"

subsection \<open>Decoding\<close>

text \<open>
  The rows that are kept: those of the audited markets, global ones, and recorder gaps of an
  audited symbol; of these the control rows, the prints and every incomplete envelope.
\<close>

definition row_wanted :: "(string \<times> string) list \<Rightarrow> string \<Rightarrow> tape_row \<Rightarrow> bool" where
  "row_wanted markets venue r \<longleftrightarrow>
     (venue, aw_symbol r) \<in> set markets \<or> aw_symbol r = ''ALL''
     \<or> (aw_source r = ''control/gap'' \<and> aw_symbol r \<in> snd ` set markets)"

definition row_carries :: "string \<Rightarrow> tape_row \<Rightarrow> bool" where
  "row_carries topic r \<longleftrightarrow> take 8 topic = ''control/'' \<or> print_topic topic \<or> \<not> aw_complete r"

record scan =
  sc_count :: nat
  sc_total :: nat
  sc_previous :: ms
  sc_low :: "ms option"
  sc_high :: "ms option"
  sc_kept :: "tape_row list"
  sc_reason :: "string option"
  sc_stopped :: bool

definition scan_new :: "nat \<Rightarrow> scan" where
  "scan_new n =
     \<lparr>sc_count = 0, sc_total = n, sc_previous = -1, sc_low = None, sc_high = None, sc_kept = [],
      sc_reason = None, sc_stopped = False\<rparr>"

definition scan_row :: "(string \<times> string) list \<Rightarrow> tape_row \<Rightarrow> scan \<Rightarrow> scan \<times> fault option" where
  "scan_row markets r sc =
     (let t = aw_receipt r;
          sc1 = sc\<lparr>sc_count := sc_count sc + 1, sc_total := sc_total sc + 1,
                   sc_reason := (if t < sc_previous sc then Some ''non-monotonic receipt time'' else sc_reason sc),
                   sc_previous := t,
                   sc_low := Some (case sc_low sc of None \<Rightarrow> t | Some l \<Rightarrow> min l t),
                   sc_high := Some (case sc_high sc of None \<Rightarrow> t | Some h \<Rightarrow> max h t)\<rparr>
      in case market_source (aw_source r) of
           Inl _ \<Rightarrow> (sc1, Some \<lparr>ft_name = ''ValueError'', ft_unknown = True\<rparr>)
         | Inr (venue, topic) \<Rightarrow>
             (if row_wanted markets venue r \<and> row_carries topic r
              then sc1\<lparr>sc_kept := sc_kept sc1 @ [r]\<rparr> else sc1, None))"

fun scan_rows ::
    "(string \<times> string) list \<Rightarrow> nat \<Rightarrow> fault option \<Rightarrow> tape_row list \<Rightarrow> scan \<Rightarrow> scan \<times> fault option" where
  "scan_rows markets max_rows damage [] sc = (sc, damage)"
| "scan_rows markets max_rows damage (r # rs) sc =
     (case scan_row markets r sc of
        (sc', Some f) \<Rightarrow> (sc', Some f)
      | (sc', None) \<Rightarrow>
          if max_rows \<le> sc_total sc'
          then (sc'\<lparr>sc_reason := Some ''forensic decoded-row budget reached'', sc_stopped := True\<rparr>, None)
          else scan_rows markets max_rows damage rs sc')"

definition bounds_reason :: "segment_entry \<Rightarrow> scan \<Rightarrow> string option" where
  "bounds_reason m sc =
     (if (sc_low sc, sc_high sc, sc_count sc) = (Some (en_min m), Some (en_max m), en_rows m) then None
      else if (sc_low sc, sc_high sc) \<noteq> (Some (en_min m), Some (en_max m))
      then Some ''raw bounds mismatch'' else Some ''raw row-count mismatch'')"

definition faulted :: "fault \<Rightarrow> reading \<Rightarrow> reading" where
  "faulted f v =
     v\<lparr>rv_reason := Some ((if ft_unknown f then ''software fault: '' else ''unreadable raw: '') @ ft_name f),
       rv_software_fault := ft_unknown f, rv_cause_recorded := True\<rparr>"

definition decode :: "segment_entry \<Rightarrow> raw_content \<Rightarrow> reading \<Rightarrow> reader \<Rightarrow> reading \<times> reader" where
  "decode m c v rd =
     (case scan_rows (rd_markets rd) (rd_max_rows rd) (ct_damage c) (ct_rows c) (scan_new (rd_rows rd)) of
        (sc, failed) \<Rightarrow>
          let rd1 = rd\<lparr>rd_rows := sc_total sc, rd_exhausted := (rd_exhausted rd \<or> sc_stopped sc)\<rparr>;
              v1 = v\<lparr>rv_rows := sc_kept sc, rv_reason := sc_reason sc\<rparr>
          in case failed of
               Some f \<Rightarrow> (faulted f v1, reader_failure m rd1)
             | None \<Rightarrow>
                 let reason = (if rd_exhausted rd1 \<or> bounds_reason m sc = None then sc_reason sc
                               else bounds_reason m sc)
                 in (v1\<lparr>rv_reason := reason, rv_valid := (reason = None)\<rparr>, rd1))"

subsection \<open>Reading a segment\<close>

definition known_exclusion :: "segment_entry \<Rightarrow> reader \<Rightarrow> exclusion option" where
  "known_exclusion m rd =
     (case rd_exclusions rd (en_id m) of
        None \<Rightarrow> None
      | Some x \<Rightarrow> if (ex_sha x, ex_start x, ex_end x) = (en_sha m, en_min m, en_max m) then Some x else None)"

definition budget_spent :: "reader \<Rightarrow> bool" where
  "budget_spent rd \<longleftrightarrow>
     rd_max_segments rd \<le> rd_segments rd \<or> rd_max_rows rd \<le> rd_rows rd \<or> rd_max_bytes rd \<le> rd_bytes rd"

definition open_raw :: "segment_entry \<Rightarrow> raw_content \<Rightarrow> reading \<Rightarrow> reader \<Rightarrow> reading \<times> reader" where
  "open_raw m c v rd =
     (if rd_max_bytes rd - rd_bytes rd < ct_size c
      then (v\<lparr>rv_reason := Some ''forensic compressed-byte budget reached''\<rparr>, rd\<lparr>rd_exhausted := True\<rparr>)
      else
        let rd1 = rd\<lparr>rd_segments := rd_segments rd + 1, rd_bytes := rd_bytes rd + ct_size c\<rparr> in
        if ct_digest c \<noteq> en_sha m
        then (v\<lparr>rv_reason := Some ''Raw hash mismatch'', rv_cause_recorded := True\<rparr>, reader_failure m rd1)
        else if ct_sidecar c \<noteq> m
        then (v\<lparr>rv_reason := Some ''Manifest mismatch'', rv_cause_recorded := True\<rparr>, reader_failure m rd1)
        else decode m c v rd1)"

definition read_uncached ::
    "(segment_entry \<Rightarrow> raw_file) \<Rightarrow> segment_entry \<Rightarrow> tombstone option \<Rightarrow> reader \<Rightarrow> reading \<times> reader" where
  "read_uncached disk m tomb rd =
     (let v = \<lparr>rv_rows = [], rv_valid = False, rv_present = (tomb = None \<and> disk m \<noteq> NoRaw), rv_reason = None,
               rv_tombstone = (tomb \<noteq> None), rv_software_fault = False, rv_cause_recorded = False\<rparr>
      in if tomb \<noteq> None
         then (v\<lparr>rv_reason := Some (case known_exclusion m rd of
                  None \<Rightarrow> ''raw safely released; original cause not reconstructable''
                | Some x \<Rightarrow> ex_reason x)\<rparr>, rd)
         else if disk m = NoRaw
         then (v\<lparr>rv_reason := Some ''committed raw missing without a retention tombstone''\<rparr>, rd)
         else if budget_spent rd
         then (v\<lparr>rv_reason := Some ''forensic decoding budget reached''\<rparr>, rd\<lparr>rd_exhausted := True\<rparr>)
         else
           case disk m of
             NoRaw \<Rightarrow> (v, rd)
           | Unopened f \<Rightarrow> (faulted f v, reader_failure m rd)
           | Raw c \<Rightarrow> open_raw m c v rd)"

definition forensic_read ::
    "(segment_entry \<Rightarrow> raw_file) \<Rightarrow> segment_entry \<Rightarrow> tombstone option \<Rightarrow> reader \<Rightarrow> reading \<times> reader" where
  "forensic_read disk m tomb rd =
     (case map_of (rd_cache rd) (en_id m) of
        Some v \<Rightarrow> (v, rd\<lparr>rd_cache := AList.delete (en_id m) (rd_cache rd) @ [(en_id m, v)]\<rparr>)
      | None \<Rightarrow> (case read_uncached disk m tomb rd of (v, rd1) \<Rightarrow> finish_reading m v rd1))"

text \<open>\<^verbatim>\<open>manifests\<close>: the segments that meet an interval, by start, at most twenty thousand.\<close>

definition manifests_between ::
    "(segment_entry \<times> tombstone option) list \<Rightarrow> ms \<Rightarrow> ms \<Rightarrow> (segment_entry \<times> tombstone option) list \<times> bool" where
  "manifests_between table start stop =
     (let rows = filter (\<lambda>(m, _). start \<le> en_max m \<and> en_min m \<le> stop) table
      in (take 20000 rows, 20000 < length rows))"

section \<open>Correctness\<close>

subsection \<open>A valid reading\<close>

text \<open>What a segment contributes when it is read as valid.\<close>

definition carried :: "(string \<times> string) list \<Rightarrow> tape_row \<Rightarrow> bool" where
  "carried markets r \<longleftrightarrow>
     (case market_source (aw_source r) of Inl _ \<Rightarrow> False
      | Inr (venue, topic) \<Rightarrow> row_wanted markets venue r \<and> row_carries topic r)"

definition committed_raw :: "(segment_entry \<Rightarrow> raw_file) \<Rightarrow> (string \<times> string) list \<Rightarrow> segment_entry \<Rightarrow> tape_row list \<Rightarrow> bool" where
  "committed_raw disk markets m rows \<longleftrightarrow>
     (\<exists>c. disk m = Raw c \<and> ct_digest c = en_sha m \<and> ct_sidecar c = m \<and> ct_damage c = None
        \<and> sorted (map aw_receipt (ct_rows c)) \<and> rows = filter (carried markets) (ct_rows c)
        \<and> (\<forall>r \<in> set (ct_rows c). \<exists>vt. market_source (aw_source r) = Inr vt))"

definition sound_reading :: "(segment_entry \<Rightarrow> raw_file) \<Rightarrow> reader \<Rightarrow> segment_entry \<Rightarrow> reading \<Rightarrow> bool" where
  "sound_reading disk rd m v \<longleftrightarrow>
     (rv_valid v \<longrightarrow> \<not> rv_tombstone v \<and> committed_raw disk (rd_markets rd) m (rv_rows v))
     \<and> (\<not> rv_valid v \<longrightarrow> rv_reason v \<noteq> None \<and> (rv_tombstone v \<or> en_id m \<in> set (rd_causes rd)))"

definition reader_inv :: "(segment_entry \<Rightarrow> raw_file) \<Rightarrow> segment_entry set \<Rightarrow> reader \<Rightarrow> bool" where
  "reader_inv disk known rd \<longleftrightarrow>
     rd_rows rd \<le> rd_max_rows rd \<and> rd_bytes rd \<le> rd_max_bytes rd \<and> rd_segments rd \<le> rd_max_segments rd
     \<and> length (rd_cache rd) \<le> 128 \<and> distinct (map fst (rd_cache rd))
     \<and> (\<forall>(i, v) \<in> set (rd_cache rd). \<exists>m \<in> known. en_id m = i \<and> sound_reading disk rd m v)"

lemma reader_inv_new: "reader_inv disk known (reader_new ms a b c x)"
  by (simp add: reader_inv_def reader_new_def)

lemma scan_row_result:
  assumes "scan_row markets r sc = (sc', None)"
  shows "\<exists>vt. market_source (aw_source r) = Inr vt"
    and "sc_kept sc' = sc_kept sc @ filter (carried markets) [r]"
    and "sc_reason sc' = None \<longleftrightarrow> sc_reason sc = None \<and> sc_previous sc \<le> aw_receipt r"
    and "sc_previous sc' = aw_receipt r" and "sc_total sc' = sc_total sc + 1" and "sc_stopped sc' = sc_stopped sc"
  using assms by (auto simp: scan_row_def Let_def carried_def split: sum.splits prod.splits if_splits)

lemma scan_row_total: "sc_total (fst (scan_row markets r sc)) = sc_total sc + 1"
  by (simp add: scan_row_def Let_def split: sum.split prod.split)

lemma scan_rows_total:
  assumes "sc_total sc < max_rows" and "scan_rows markets max_rows damage rs sc = (sc', f)"
  shows "sc_total sc' \<le> max_rows"
  using assms
proof (induction rs arbitrary: sc)
  case (Cons r rs)
  obtain sc1 g where one: "scan_row markets r sc = (sc1, g)" by (cases "scan_row markets r sc")
  then have t: "sc_total sc1 = sc_total sc + 1" using scan_row_total [of markets r sc] by simp
  show ?case using Cons.prems Cons.IH [of sc1] one t by (auto split: option.splits if_splits)
qed auto

lemma scan_rows_whole:
  assumes "scan_rows markets max_rows damage rs sc = (sc', None)" and "\<not> sc_stopped sc'"
  shows "damage = None \<and> sc_kept sc' = sc_kept sc @ filter (carried markets) rs
    \<and> (\<forall>r \<in> set rs. \<exists>vt. market_source (aw_source r) = Inr vt)
    \<and> (sc_reason sc' = None \<longrightarrow> sc_reason sc = None \<and> sorted (sc_previous sc # map aw_receipt rs))"
  using assms
proof (induction rs arbitrary: sc)
  case (Cons r rs)
  obtain sc1 f where one: "scan_row markets r sc = (sc1, f)" by (cases "scan_row markets r sc")
  have f: "f = None" and go: "\<not> max_rows \<le> sc_total sc1"
    and rest: "scan_rows markets max_rows damage rs sc1 = (sc', None)"
    using Cons.prems one by (auto split: option.splits if_splits)
  note step = scan_row_result [OF one [unfolded f]]
  note ih = Cons.IH [OF rest Cons.prems(2)]
  show ?case using ih step by (auto simp: order_trans)
qed simp

lemma scan_rows_stopped: "scan_rows markets max_rows damage rs sc = (sc', None) \<Longrightarrow> sc_stopped sc' \<Longrightarrow> \<not> sc_stopped sc \<Longrightarrow> sc_reason sc' \<noteq> None"
proof (induction rs arbitrary: sc)
  case (Cons r rs)
  obtain sc1 f where one: "scan_row markets r sc = (sc1, f)" by (cases "scan_row markets r sc")
  show ?case
  proof (cases f)
    case None
    then show ?thesis
      using Cons one scan_row_result(6) [OF one [unfolded None]]
      by (auto split: if_splits)
  next
    case (Some x)
    then show ?thesis using Cons.prems one by auto
  qed
qed simp

text \<open>What holds of a reading before \<^verbatim>\<open>finish\<close>, and of the reader beside it.\<close>

definition read_so_far :: "(segment_entry \<Rightarrow> raw_file) \<Rightarrow> reader \<Rightarrow> segment_entry \<Rightarrow> reading \<Rightarrow> bool" where
  "read_so_far disk rd m v \<longleftrightarrow>
     (rv_valid v \<longrightarrow> rv_reason v = None \<and> \<not> rv_tombstone v \<and> committed_raw disk (rd_markets rd) m (rv_rows v))
     \<and> (\<not> rv_valid v \<longrightarrow> rv_reason v \<noteq> None)
     \<and> (rv_cause_recorded v \<longrightarrow> en_id m \<in> set (rd_causes rd))"

definition in_budget :: "reader \<Rightarrow> bool" where
  "in_budget rd \<longleftrightarrow>
     rd_rows rd \<le> rd_max_rows rd \<and> rd_bytes rd \<le> rd_max_bytes rd \<and> rd_segments rd \<le> rd_max_segments rd"

text \<open>Only counters and causes move while a segment is read.\<close>

definition advances :: "reader \<Rightarrow> reader \<Rightarrow> bool" where
  "advances rd rd' \<longleftrightarrow>
     rd_markets rd' = rd_markets rd \<and> rd_cache rd' = rd_cache rd \<and> set (rd_causes rd) \<subseteq> set (rd_causes rd')"

lemma decode_result:
  assumes c: "disk m = Raw c" "ct_digest c = en_sha m" "ct_sidecar c = m"
    and v: "\<not> rv_tombstone v" "\<not> rv_cause_recorded v" "\<not> rv_valid v"
    and run: "decode m c v rd = (v', rd')" and room: "rd_rows rd < rd_max_rows rd" and b: "in_budget rd"
  shows "read_so_far disk rd' m v'" and "in_budget rd'" and "advances rd rd'"
proof -
  obtain sc f where scan: "scan_rows (rd_markets rd) (rd_max_rows rd) (ct_damage c) (ct_rows c) (scan_new (rd_rows rd)) = (sc, f)"
    by fastforce
  have total: "sc_total sc \<le> rd_max_rows rd"
    using scan_rows_total [OF _ scan] room by (simp add: scan_new_def)
  show "in_budget rd'"
    using run scan total b by (auto simp: decode_def Let_def reader_failure_def in_budget_def split: option.splits)
  show "advances rd rd'"
    using run scan by (auto simp: decode_def Let_def reader_failure_def advances_def split: option.splits)
  show "read_so_far disk rd' m v'"
  proof (cases f)
    case (Some x)
    then show ?thesis using run scan v
      by (auto simp: decode_def Let_def reader_failure_def read_so_far_def faulted_def)
  next
    case None
    have whole: "committed_raw disk (rd_markets rd) m (sc_kept sc)" if "sc_reason sc = None"
    proof -
      have "\<not> sc_stopped sc" using scan_rows_stopped [OF scan [unfolded None]] that by (auto simp: scan_new_def)
      from scan_rows_whole [OF scan [unfolded None] this] that c show ?thesis
        by (auto simp: committed_raw_def scan_new_def)
    qed
    show ?thesis using run scan v whole None
      by (cases "bounds_reason m sc"; cases "sc_reason sc")
        (auto simp: decode_def Let_def read_so_far_def split: if_splits)
  qed
qed

lemma read_uncached_result:
  assumes run: "read_uncached disk m tomb rd = (v, rd')" and b: "in_budget rd"
  shows "read_so_far disk rd' m v" and "in_budget rd'" and "advances rd rd'"
proof -
  have "read_so_far disk rd' m v \<and> in_budget rd' \<and> advances rd rd'"
  proof (cases "tomb = None \<and> disk m \<noteq> NoRaw \<and> \<not> budget_spent rd")
    case False
    then show ?thesis using run b
      by (auto simp: read_uncached_def Let_def read_so_far_def in_budget_def advances_def split: if_splits)
  next
    case True
    then have room: "rd_rows rd < rd_max_rows rd" "rd_segments rd < rd_max_segments rd"
      by (auto simp: budget_spent_def)
    show ?thesis
    proof (cases "disk m")
      case NoRaw
      then show ?thesis using True by simp
    next
      case (Unopened f)
      then show ?thesis using run b True
        by (auto simp: read_uncached_def Let_def read_so_far_def in_budget_def advances_def faulted_def reader_failure_def)
    next
      case (Raw c)
      let ?v = "\<lparr>rv_rows = [], rv_valid = False, rv_present = True, rv_reason = None, rv_tombstone = False,
                 rv_software_fault = False, rv_cause_recorded = False\<rparr>"
      let ?rd = "rd\<lparr>rd_segments := rd_segments rd + 1, rd_bytes := rd_bytes rd + ct_size c\<rparr>"
      have run': "open_raw m c ?v rd = (v, rd')"
        using run True Raw by (simp add: read_uncached_def Let_def)
      show ?thesis
      proof (cases "rd_max_bytes rd - rd_bytes rd < ct_size c \<or> ct_digest c \<noteq> en_sha m \<or> ct_sidecar c \<noteq> m")
        case True
        then show ?thesis using run' b room
          by (auto simp: open_raw_def Let_def read_so_far_def in_budget_def advances_def reader_failure_def split: if_splits)
      next
        case False
        then have d: "decode m c ?v ?rd = (v, rd')" and ok: "ct_digest c = en_sha m" "ct_sidecar c = m"
          using run' by (auto simp: open_raw_def Let_def)
        have b': "in_budget ?rd" using False b room by (auto simp: in_budget_def)
        have "advances ?rd rd' \<Longrightarrow> advances rd rd'" by (simp add: advances_def)
        moreover have "rd_rows ?rd < rd_max_rows ?rd" using room by simp
        ultimately show ?thesis
          using decode_result [of disk m c ?v ?rd v rd', OF Raw ok _ _ _ d _ b'] by simp
      qed
    qed
  qed
  then show "read_so_far disk rd' m v" and "in_budget rd'" and "advances rd rd'" by blast+
qed


subsection \<open>The reader keeps its invariant\<close>

lemma sound_reading_mono:
  "sound_reading disk rd m v \<Longrightarrow> rd_markets rd' = rd_markets rd \<Longrightarrow> set (rd_causes rd) \<subseteq> set (rd_causes rd')
    \<Longrightarrow> sound_reading disk rd' m v"
  by (auto simp: sound_reading_def)

lemma finish_reading_result:
  assumes v: "read_so_far disk rd m v" and run: "finish_reading m v rd = (v', rd')"
  shows "sound_reading disk rd' m v'" and "rv_rows v' = rv_rows v" and "rv_valid v' = rv_valid v"
    and "rd_markets rd' = rd_markets rd" and "set (rd_causes rd) \<subseteq> set (rd_causes rd')"
    and "in_budget rd' = in_budget rd"
    and "rd_cache rd' = drop (length (rd_cache rd) - 127) (rd_cache rd @ [(en_id m, v')])"
  using assms
  by (auto simp: finish_reading_def Let_def sound_reading_def read_so_far_def reader_failure_def in_budget_def
      split: if_splits)

lemma set_alist_delete_sub: "set (AList.delete k xs) \<subseteq> set xs"
  by (auto simp: AList.delete_eq)

lemma distinct_map_drop: "distinct (map f xs) \<Longrightarrow> distinct (map f (drop n xs))"
  by (simp add: drop_map [symmetric])

lemma length_delete_present: "map_of xs k = Some v \<Longrightarrow> length (AList.delete k xs) < length xs"
  unfolding AList.delete_eq by (rule length_filter_less [OF map_of_SomeD]) auto

lemma forensic_read_inv:
  assumes inv: "reader_inv disk known rd" and m: "m \<in> known" and ids: "inj_on en_id known"
    and run: "forensic_read disk m tomb rd = (v, rd')"
  shows "reader_inv disk known rd'" and "sound_reading disk rd' m v"
    and "rd_markets rd' = rd_markets rd" and "set (rd_causes rd) \<subseteq> set (rd_causes rd')"
proof -
  have cached: "\<exists>m' \<in> known. en_id m' = i \<and> sound_reading disk rd m' w" if "(i, w) \<in> set (rd_cache rd)" for i w
    using inv that by (auto simp: reader_inv_def)
  have len: "length (rd_cache rd) \<le> 128" and dist: "distinct (map fst (rd_cache rd))"
    and b: "in_budget rd" using inv by (auto simp: reader_inv_def in_budget_def)
  have "reader_inv disk known rd' \<and> sound_reading disk rd' m v \<and> rd_markets rd' = rd_markets rd
      \<and> set (rd_causes rd) \<subseteq> set (rd_causes rd')"
  proof (cases "map_of (rd_cache rd) (en_id m)")
    case (Some w)
    then have hit: "v = w" "rd' = rd\<lparr>rd_cache := AList.delete (en_id m) (rd_cache rd) @ [(en_id m, w)]\<rparr>"
      using run by (auto simp: forensic_read_def)
    from cached [OF map_of_SomeD [OF Some]] obtain m' where "m' \<in> known" "en_id m' = en_id m"
      and s: "sound_reading disk rd m' w" by blast
    then have "m' = m" using ids m by (meson inj_onD)
    then have sw: "sound_reading disk rd m w" using s by simp
    have same: "sound_reading disk rd' x y = sound_reading disk rd x y" for x y
      by (simp add: hit sound_reading_def)
    have "reader_inv disk known rd'"
      unfolding reader_inv_def same
      using b dist len length_delete_present [OF Some] cached sw m set_alist_delete_sub [of "en_id m" "rd_cache rd"]
      by (auto simp: hit in_budget_def AList.delete_eq intro: distinct_map_filter)
    then show ?thesis using sw same hit by simp
  next
    case None
    obtain u rd1 where un: "read_uncached disk m tomb rd = (u, rd1)" by fastforce
    then have fin: "finish_reading m u rd1 = (v, rd')" using run None by (simp add: forensic_read_def)
    note r = read_uncached_result [OF un b] and f = finish_reading_result [OF read_uncached_result(1) [OF un b] fin]
    have adv: "rd_markets rd1 = rd_markets rd" "rd_cache rd1 = rd_cache rd" "set (rd_causes rd) \<subseteq> set (rd_causes rd1)"
      using r(3) by (auto simp: advances_def)
    have new: "en_id m \<notin> fst ` set (rd_cache rd)" using None by (simp add: map_of_eq_None_iff)
    have mono: "sound_reading disk rd' x y" if "sound_reading disk rd x y" for x y
      using sound_reading_mono [OF that] f(4,5) adv by auto
    have cache: "rd_cache rd' = drop (length (rd_cache rd) - 127) (rd_cache rd @ [(en_id m, v)])"
      using f(7) adv by simp
    have "distinct (map fst (rd_cache rd'))"
      unfolding cache by (rule distinct_map_drop) (use dist new in simp)
    moreover have "length (rd_cache rd') \<le> 128" unfolding cache using len by simp
    moreover have "\<exists>m' \<in> known. en_id m' = i \<and> sound_reading disk rd' m' w" if "(i, w) \<in> set (rd_cache rd')" for i w
    proof -
      have "(i, w) \<in> set (rd_cache rd) \<or> (i, w) = (en_id m, v)"
        using that set_drop_subset [of "length (rd_cache rd) - 127" "rd_cache rd @ [(en_id m, v)]"]
        unfolding cache by auto
      then show ?thesis using cached mono f(1) m by blast
    qed
    ultimately have "reader_inv disk known rd'"
      using r(2) f(6) by (auto simp: reader_inv_def in_budget_def)
    then show ?thesis using f(1,4,5) adv by auto
  qed
  then show "reader_inv disk known rd'" and "sound_reading disk rd' m v"
    and "rd_markets rd' = rd_markets rd" and "set (rd_causes rd) \<subseteq> set (rd_causes rd')" by blast+
qed

lemma reader_failure_inv: "reader_inv disk known rd \<Longrightarrow> reader_inv disk known (reader_failure m rd)"
  by (fastforce simp: reader_inv_def reader_failure_def sound_reading_def)

fun read_all :: "(segment_entry \<Rightarrow> raw_file) \<Rightarrow> (segment_entry \<times> tombstone option) list \<Rightarrow> reader \<Rightarrow> reading list \<times> reader" where
  "read_all disk [] rd = ([], rd)"
| "read_all disk ((m, tomb) # ms) rd =
     (case forensic_read disk m tomb rd of
        (v, rd1) \<Rightarrow> (case read_all disk ms rd1 of (vs, rd2) \<Rightarrow> (v # vs, rd2)))"

lemma read_all_inv:
  assumes "reader_inv disk known rd" and "fst ` set ms \<subseteq> known" and "inj_on en_id known"
    and "read_all disk ms rd = (vs, rd')"
  shows "reader_inv disk known rd' \<and> list_all2 (\<lambda>(m, _) v. sound_reading disk rd' m v) ms vs
    \<and> rd_markets rd' = rd_markets rd \<and> set (rd_causes rd) \<subseteq> set (rd_causes rd')"
  using assms
proof (induction ms arbitrary: rd vs)
  case (Cons x ms)
  obtain m tomb where x: "x = (m, tomb)" by (cases x)
  obtain v rd1 where one: "forensic_read disk m tomb rd = (v, rd1)" by fastforce
  obtain ws where rest: "read_all disk ms rd1 = (ws, rd')" and vs: "vs = v # ws"
    using Cons.prems(4) x one by (auto split: prod.splits)
  have "m \<in> known" using Cons.prems(2) x by auto
  note s = forensic_read_inv [OF Cons.prems(1) this Cons.prems(3) one]
  have ih: "reader_inv disk known rd' \<and> list_all2 (\<lambda>(m, _) v. sound_reading disk rd' m v) ms ws
      \<and> rd_markets rd' = rd_markets rd1 \<and> set (rd_causes rd1) \<subseteq> set (rd_causes rd')"
    using Cons.IH [OF s(1) _ Cons.prems(3) rest] Cons.prems(2) by auto
  then have "sound_reading disk rd' m v" using sound_reading_mono [OF s(2)] by blast
  then show ?case using ih s vs x by auto
qed simp

lemma forensic_read_limits:
  assumes "forensic_read disk m tomb rd = (v, rd')"
  shows "rd_max_rows rd' = rd_max_rows rd" and "rd_max_bytes rd' = rd_max_bytes rd"
    and "rd_max_segments rd' = rd_max_segments rd"
proof -
  have d: "decode m' c u r = (w, r') \<Longrightarrow> rd_max_rows r' = rd_max_rows r \<and> rd_max_bytes r' = rd_max_bytes r
      \<and> rd_max_segments r' = rd_max_segments r" for m' c u r w r'
    by (auto simp: decode_def Let_def reader_failure_def split: prod.splits option.splits)
  have p: "open_raw m c u r = (w, r') \<Longrightarrow> rd_max_rows r' = rd_max_rows r \<and> rd_max_bytes r' = rd_max_bytes r
      \<and> rd_max_segments r' = rd_max_segments r" for c u r w r'
    by (auto simp: open_raw_def Let_def reader_failure_def dest: d split: if_splits)
  have u: "read_uncached disk m tomb r = (w, r') \<Longrightarrow> rd_max_rows r' = rd_max_rows r
      \<and> rd_max_bytes r' = rd_max_bytes r \<and> rd_max_segments r' = rd_max_segments r" for r w r'
    by (auto simp: read_uncached_def Let_def reader_failure_def dest: p split: if_splits raw_file.splits)
  show "rd_max_rows rd' = rd_max_rows rd" and "rd_max_bytes rd' = rd_max_bytes rd"
    and "rd_max_segments rd' = rd_max_segments rd"
    using assms by (auto simp: forensic_read_def finish_reading_def Let_def reader_failure_def dest: u
        split: option.splits prod.splits)
qed

lemma read_all_limits:
  "read_all disk ms rd = (vs, rd') \<Longrightarrow> rd_max_rows rd' = rd_max_rows rd \<and> rd_max_bytes rd' = rd_max_bytes rd
    \<and> rd_max_segments rd' = rd_max_segments rd"
proof (induction disk ms rd arbitrary: vs rule: read_all.induct)
  case (2 disk m tomb ms rd)
  obtain v rd1 where one: "forensic_read disk m tomb rd = (v, rd1)" by fastforce
  obtain ws where rest: "read_all disk ms rd1 = (ws, rd')"
    using 2(2) one by (auto split: prod.splits)
  show ?case using 2(1) [OF one [symmetric] rest] forensic_read_limits [OF one] by simp
qed simp

text \<open>C#forensic_reading_is_evidenced:
  The forensic reader trusts nothing it has not verified, and it stays in its budget. Over any
  sequence of reads of segments with their own identifiers, with its cache and whatever the disk
  holds, a segment is valid only if it is not pruned, its bytes have the committed digest, the
  manifest beside it is the committed one, it decodes to the end in the order of receipt, and its
  rows are exactly the recorded ones of the audited markets; every other segment has a reason and,
  unless it was pruned, a durable cause record. Rows, bytes and segments stay within the limits
  and the cache holds at most 128 readings.\<close>

theorem forensic_reading_is_evidenced:
  assumes ids: "inj_on en_id (fst ` set ms)"
    and run: "read_all disk ms (reader_new markets max_segments max_rows max_bytes excluded) = (vs, rd)"
  shows "rd_rows rd \<le> max_rows \<and> rd_bytes rd \<le> max_bytes \<and> rd_segments rd \<le> max_segments
    \<and> length (rd_cache rd) \<le> 128
    \<and> list_all2 (\<lambda>(m, _) v.
          (rv_valid v \<longrightarrow> \<not> rv_tombstone v \<and> committed_raw disk markets m (rv_rows v))
        \<and> (\<not> rv_valid v \<longrightarrow> rv_reason v \<noteq> None \<and> (rv_tombstone v \<or> en_id m \<in> set (rd_causes rd)))) ms vs"
proof -
  let ?new = "reader_new markets max_segments max_rows max_bytes excluded"
  have all: "reader_inv disk (fst ` set ms) rd \<and> list_all2 (\<lambda>(m, _) v. sound_reading disk rd m v) ms vs
      \<and> rd_markets rd = rd_markets ?new"
    using read_all_inv [OF reader_inv_new _ ids run] by simp
  have limits: "rd_max_rows rd = max_rows" "rd_max_bytes rd = max_bytes" "rd_max_segments rd = max_segments"
    using read_all_limits [OF run] by (simp_all add: reader_new_def)
  have mk: "rd_markets rd = markets" using all by (simp add: reader_new_def)
  have "list_all2 (\<lambda>(m, _) v.
          (rv_valid v \<longrightarrow> \<not> rv_tombstone v \<and> committed_raw disk markets m (rv_rows v))
        \<and> (\<not> rv_valid v \<longrightarrow> rv_reason v \<noteq> None \<and> (rv_tombstone v \<or> en_id m \<in> set (rd_causes rd)))) ms vs"
    using all by (auto simp: sound_reading_def mk elim!: list.rel_mono_strong)
  then show ?thesis using all limits by (auto simp: reader_inv_def)
qed

definition a_row :: "ms \<Rightarrow> tape_row" where
  "a_row t = \<lparr>aw_receipt = t, aw_source = ''control/gap'', aw_symbol = ''ALL'', aw_complete = False,
     aw_symbols = [], aw_removed = [], aw_gap_start = None, aw_gap_end = None, aw_reason = None,
     aw_origin = None, aw_prints = []\<rparr>"

definition a_segment :: "string \<Rightarrow> nat \<Rightarrow> segment_entry" where
  "a_segment i n = \<lparr>en_id = i, en_sha = ''d'', en_min = 5, en_max = 9, en_rows = n, en_previous = None\<rparr>"

definition a_disk :: "nat \<Rightarrow> segment_entry \<Rightarrow> raw_file" where
  "a_disk big m = Raw \<lparr>ct_size = (if en_id m = ''s1'' then big else 10), ct_digest = ''d'', ct_sidecar = m,
     ct_rows = [a_row 5, a_row 9], ct_damage = None\<rparr>"

lemma forensic_reading_is_evidenced_witness:
  "case read_all (a_disk 10) [(a_segment ''s1'' 2, None), (a_segment ''s2'' 2, Some \<lparr>tm_at = None\<rparr>)]
      (reader_new [] 5 100 100 Map.empty) of
     (vs, rd) \<Rightarrow> rd_rows rd \<le> 100 \<and> map rv_valid vs = [True, False]"
proof -
  let ?ms = "[(a_segment ''s1'' 2, None), (a_segment ''s2'' 2, Some \<lparr>tm_at = None\<rparr>)]"
  obtain vs rd where run: "read_all (a_disk 10) ?ms (reader_new [] 5 100 100 Map.empty) = (vs, rd)" by fastforce
  have "inj_on en_id (fst ` set ?ms)" by (simp add: a_segment_def)
  from forensic_reading_is_evidenced [OF this run] have "rd_rows rd \<le> 100" by simp
  moreover have "map rv_valid (fst (read_all (a_disk 10) ?ms (reader_new [] 5 100 100 Map.empty))) = [True, False]"
    by code_simp
  ultimately show ?thesis using run by simp
qed

text \<open>
  The check of the bounds and of the row count is meant to be skipped for a segment whose decoding
  the budget has cut. The flag it reads is never cleared, so after one segment too large for the
  budget every later segment skips the check.
\<close>

lemma spent_reader_skips_bounds:
  "map rv_valid (fst (read_all (a_disk 10) [(a_segment ''s1'' 2, None), (a_segment ''s2'' 7, None)]
      (reader_new [] 5 100 100 Map.empty))) = [True, False]
   \<and> map rv_valid (fst (read_all (a_disk 1000) [(a_segment ''s1'' 2, None), (a_segment ''s2'' 7, None)]
      (reader_new [] 5 100 100 Map.empty))) = [False, True]"
  by code_simp
end
