(* ===== verification/Completeness.thy ===== *)
theory Completeness imports Forensics Checkpoint begin

text \<open>
  The forensic audit of one frozen decision, \<^verbatim>\<open>audit_candidate\<close> of
  \<^verbatim>\<open>src/bybit_flow/ml/completeness.py\<close>: the recorded rows around the decision are
  replayed through the forensic reader, losses of coverage are collected, a paper position is fed
  with the executed prints, and the decision gets one root class. The explanation texts of the
  report row are omitted; its times and flags are the fields of the audit state. A position, the
  settings and the prints are those of the labeler, a checkpoint that of retention.
\<close>

datatype root_class =
    COMPLETE | STILL_OPEN | NO_ENTRY | TECHNICAL_DUPLICATE | PREDECISION_COVERAGE_MISSING
  | SUBSCRIPTION_NOT_READY | REAL_TRADE_FEED_GAP | RECORDER_DROP | RECORDER_CHAIN_GAP
  | CLOCK_OR_ORDERING_DAMAGE | RETENTION_LOSS | MATERIALIZER_CHECKPOINT_GAP | LABELER_FALSE_GAP
  | SOURCE_MISMATCH | HORIZON_NOT_MATURE | UNKNOWN_INCOMPLETE | AUDIT_SOFTWARE_FAULT

record frozen_label =
  fz_complete :: bool
  fz_exit_ms :: "ms option"
  fz_net_r :: "dec option"
  fz_source :: "source option"

record candidate =
  ca_id :: string
  ca_snapshot :: snapshot
  ca_source :: source
  ca_label :: "frozen_label option"
  ca_label_available :: "ms option"
  ca_prospective :: "eligibility option"

definition source_name :: "source \<Rightarrow> string" where
  "source_name s =
     (case s of Bybit \<Rightarrow> ''bybit'' | Binance \<Rightarrow> ''binance'' | Okx \<Rightarrow> ''okx'' | Tradingview \<Rightarrow> ''tradingview'')"

text \<open>What stays fixed during one audit.\<close>

record audit_frame =
  ax_signal :: signal
  ax_decision :: ms
  ax_start :: ms
  ax_stop :: ms
  ax_stale :: ms
  ax_retention :: ms
  ax_prospective :: bool
  ax_labelled :: bool
  ax_asof :: ms
  ax_consumed :: "ms option"

type_synonym interval_failure = "root_class \<times> ms \<times> ms \<times> string"

record audit =
  au_failures :: "interval_failure list"
  au_uncertain :: "string list"
  au_seen :: "string list"
  au_last_trade :: "ms option"
  au_subscription :: "ms option"
  au_healthy :: "ms option"
  au_checked :: bool
  au_ready :: bool
  au_raw_valid :: bool
  au_missing :: bool
  au_chain_valid :: bool
  au_raw_present :: bool
  au_software_fault :: bool
  au_position :: paper
  au_eligible :: "bool option"
  au_first_recorded :: "ms option"
  au_last_recorded :: "ms option"
  au_cover_start :: "ms option"
  au_cover_end :: "ms option"
  au_sub_start :: "ms option"
  au_sub_end :: "ms option"
  au_selected :: bool
  au_subscribed :: "bool option"
  au_first_valid :: "ms option"
  au_predecision :: "ms option"

text \<open>The nested functions \<^verbatim>\<open>gap\<close> and \<^verbatim>\<open>check_decision\<close>.\<close>

definition note_failure :: "audit_frame \<Rightarrow> root_class \<Rightarrow> ms \<Rightarrow> ms \<Rightarrow> string \<Rightarrow> audit \<Rightarrow> audit" where
  "note_failure ax kind a b reason au =
     (if ax_decision ax \<le> b \<and> a \<le> ax_stop ax
      then au\<lparr>au_failures := au_failures au @ [(kind, max (ax_decision ax) a, min (ax_stop ax) b, reason)]\<rparr>
      else au)"

definition drop_subscription :: "audit \<Rightarrow> audit" where
  "drop_subscription au = au\<lparr>au_subscription := None, au_healthy := None\<rparr>"

definition check_decision :: "audit_frame \<Rightarrow> audit \<Rightarrow> audit" where
  "check_decision ax au =
     (if au_checked au then au
      else
        let ready = (au_subscription au \<noteq> None
              \<and> (case au_last_trade au of None \<Rightarrow> False
                 | Some t \<Rightarrow> 0 \<le> ax_decision ax - t \<and> ax_decision ax - t \<le> ax_stale ax))
        in au\<lparr>au_checked := True, au_ready := ready, au_subscribed := Some (au_subscription au \<noteq> None),
              au_first_valid := au_last_trade au,
              au_predecision := Some (case au_healthy au of None \<Rightarrow> 0 | Some h \<Rightarrow> max 0 (ax_decision ax - h)),
              au_eligible := (if \<not> ax_prospective ax \<and> au_uncertain au = [] then Some ready else au_eligible au)\<rparr>)"

subsection \<open>One row\<close>

definition audit_trade :: "audit_frame \<Rightarrow> ms \<Rightarrow> tape_print \<Rightarrow> trade" where
  "audit_trade ax at_ms x =
     \<lparr>tr_symbol = sg_symbol (ax_signal ax), tr_event_ms = px_event_ms x, tr_receipt_ms = at_ms,
      tr_trade_id = px_id x, tr_side = px_side x, tr_price = px_price x, tr_size = px_size x,
      tr_exchange = sg_source (ax_signal ax)\<rparr>"

definition audit_stale :: "audit_frame \<Rightarrow> ms \<Rightarrow> audit \<Rightarrow> audit" where
  "audit_stale ax at_ms au =
     (case au_last_trade au of
        None \<Rightarrow> au
      | Some l \<Rightarrow>
          if ax_stale ax < at_ms - l
          then (note_failure ax REAL_TRADE_FEED_GAP l at_ms
                  ''no valid recorded print within the configured stale interval'' au)\<lparr>au_healthy := Some at_ms\<rparr>
          else au)"

definition audit_first :: "audit_frame \<Rightarrow> ms \<Rightarrow> audit \<Rightarrow> audit" where
  "audit_first ax at_ms au =
     (if au_last_trade au \<noteq> None then au
      else
        let au1 = au\<lparr>au_healthy := Some at_ms\<rparr> in
        if ax_retention ax \<noteq> 0 \<and> at_ms < ax_decision ax \<and> au_subscription au = None
        then au1\<lparr>au_subscription := Some at_ms\<rparr> else au1)"

definition audit_print :: "audit_frame \<Rightarrow> ms \<Rightarrow> tape_print \<Rightarrow> audit \<Rightarrow> py_error + audit" where
  "audit_print ax at_ms x au =
     (if px_block x \<or> px_id x \<in> set (au_seen au) then Inr au
      else
        let au1 = audit_first ax at_ms (audit_stale ax at_ms (au\<lparr>au_seen := px_id x # au_seen au\<rparr>));
            au2 = au1\<lparr>au_last_trade := Some at_ms,
                     au_first_recorded := (if au_first_recorded au1 = None then Some at_ms else au_first_recorded au1),
                     au_last_recorded := Some at_ms, au_cover_start := au_healthy au1, au_cover_end := Some at_ms\<rparr>
        in if at_ms < ax_decision ax then Inr au2
           else case trade_post_init (audit_trade ax at_ms x) of
                  Inl e \<Rightarrow> Inl e
                | Inr t \<Rightarrow> Inr (au2\<lparr>au_position := on_trade t (au_position au2)\<rparr>))"

fun audit_prints :: "audit_frame \<Rightarrow> ms \<Rightarrow> tape_print list \<Rightarrow> audit \<Rightarrow> py_error + audit" where
  "audit_prints ax at_ms [] au = Inr au"
| "audit_prints ax at_ms (x # xs) au =
     (case audit_print ax at_ms x au of Inl e \<Rightarrow> Inl e | Inr au' \<Rightarrow> audit_prints ax at_ms xs au')"

definition row_subscribes :: "audit_frame \<Rightarrow> string \<Rightarrow> tape_row \<Rightarrow> bool" where
  "row_subscribes ax topic r \<longleftrightarrow>
     topic = ''control/subscribed'' \<and> sg_symbol (ax_signal ax) \<in> set (aw_symbols r)"

definition audit_subscribed :: "audit_frame \<Rightarrow> string \<Rightarrow> tape_row \<Rightarrow> audit \<Rightarrow> audit" where
  "audit_subscribed ax topic r au =
     (if row_subscribes ax topic r
      then au\<lparr>au_subscription := Some (aw_receipt r), au_healthy := None, au_last_trade := None,
              au_sub_start := Some (aw_receipt r),
              au_selected := (au_selected au \<or> aw_receipt r \<le> ax_decision ax)\<rparr>
      else au)"

definition row_lost :: "audit_frame \<Rightarrow> string \<Rightarrow> tape_row \<Rightarrow> bool" where
  "row_lost ax topic r \<longleftrightarrow>
     (topic = ''control/rotation'' \<and> sg_symbol (ax_signal ax) \<in> set (aw_removed r))
     \<or> topic = ''control/source_change''
     \<or> (aw_symbol r \<in> {sg_symbol (ax_signal ax), ''ALL''} \<and> (topic = ''control/gap'' \<or> \<not> aw_complete r))"

definition lost_from :: "tape_row \<Rightarrow> ms" where
  "lost_from r = (case aw_gap_start r of None \<Rightarrow> aw_receipt r | Some t \<Rightarrow> t)"

definition lost_until :: "tape_row \<Rightarrow> ms" where
  "lost_until r = (case aw_gap_end r of None \<Rightarrow> aw_receipt r | Some t \<Rightarrow> t)"

definition lost_kind :: "audit_frame \<Rightarrow> tape_row \<Rightarrow> root_class" where
  "lost_kind ax r =
     (let venue = source_name (sg_source (ax_signal ax)); native = ''native/'' @ venue @ ''/'' in
      if aw_reason r = Some ''RECORDER_BACKPRESSURE''
         \<and> (aw_origin r = Some venue \<or> take (length native) (aw_source r) = native)
      then RECORDER_DROP else REAL_TRADE_FEED_GAP)"

definition audit_lost :: "audit_frame \<Rightarrow> string \<Rightarrow> tape_row \<Rightarrow> audit \<Rightarrow> audit" where
  "audit_lost ax topic r au =
     (if row_lost ax topic r
      then (drop_subscription (note_failure ax (lost_kind ax r) (lost_from r) (lost_until r)
              (case aw_reason r of None \<Rightarrow> ''subscription removed or incomplete envelope'' | Some t \<Rightarrow> t) au))
             \<lparr>au_sub_end := Some (aw_receipt r)\<rparr>
      else au)"

definition prints_here :: "audit_frame \<Rightarrow> string \<Rightarrow> tape_row \<Rightarrow> bool" where
  "prints_here ax topic r \<longleftrightarrow>
     aw_symbol r = sg_symbol (ax_signal ax) \<and> print_topic topic \<and> aw_complete r"

definition audit_row :: "audit_frame \<Rightarrow> tape_row \<Rightarrow> audit \<Rightarrow> py_error + audit" where
  "audit_row ax r au =
     (if aw_receipt r < ax_start ax \<or> ax_stop ax < aw_receipt r then Inr au
      else
        let au1 = (if ax_decision ax \<le> aw_receipt r then check_decision ax au else au) in
        case market_source (aw_source r) of
          Inl e \<Rightarrow> Inl e
        | Inr (venue, topic) \<Rightarrow>
            if aw_source r \<noteq> ''control/gap'' \<and> venue \<noteq> source_name (sg_source (ax_signal ax)) then Inr au1
            else
              let au2 = audit_lost ax topic r (audit_subscribed ax topic r au1) in
              if prints_here ax topic r then audit_prints ax (aw_receipt r) (aw_prints r) au2 else Inr au2)"

fun audit_rows :: "audit_frame \<Rightarrow> tape_row list \<Rightarrow> audit \<Rightarrow> py_error + audit" where
  "audit_rows ax [] au = Inr au"
| "audit_rows ax (r # rs) au = (case audit_row ax r au of Inl e \<Rightarrow> Inl e | Inr au' \<Rightarrow> audit_rows ax rs au')"

subsection \<open>The segments\<close>

definition segment_chained :: "segment_entry \<Rightarrow> segment_entry \<Rightarrow> bool" where
  "segment_chained p m \<longleftrightarrow> en_previous m = Some (en_id p, en_sha p)"

definition audit_chain ::
    "audit_frame \<Rightarrow> segment_entry option \<Rightarrow> segment_entry \<Rightarrow> audit \<times> reader \<Rightarrow> audit \<times> reader" where
  "audit_chain ax previous m = (\<lambda>(au, rd).
     case previous of
       None \<Rightarrow> (au, rd)
     | Some p \<Rightarrow>
         let au1 = (if en_min m < en_max p
                    then drop_subscription ((note_failure ax CLOCK_OR_ORDERING_DAMAGE (en_min m) (en_max m)
                           ''overlapping committed recording intervals'' au)\<lparr>au_raw_valid := False\<rparr>)
                    else au)
         in if segment_chained p m then (au1, rd)
            else (drop_subscription ((note_failure ax RECORDER_CHAIN_GAP (en_max p) (en_min m)
                    ''previous segment id/hash mismatch'' au1)\<lparr>au_raw_valid := False, au_chain_valid := False\<rparr>),
                  reader_failure m rd))"

text \<open>A committed segment that could not be verified.\<close>

definition retention_lost :: "audit_frame \<Rightarrow> segment_entry \<Rightarrow> tombstone \<Rightarrow> bool" where
  "retention_lost ax m tomb \<longleftrightarrow>
     \<not> ax_labelled ax \<and> (case tm_at tomb of None \<Rightarrow> False | Some t \<Rightarrow> t \<le> ax_asof ax)
     \<and> ax_decision ax \<le> en_max m
     \<and> (case ax_consumed ax of None \<Rightarrow> True | Some c \<Rightarrow> c < en_max m)"

definition audit_unread ::
    "audit_frame \<Rightarrow> segment_entry \<Rightarrow> tombstone option \<Rightarrow> reading \<Rightarrow> audit \<Rightarrow> audit" where
  "audit_unread ax m tomb v au =
     (let au1 = au\<lparr>au_raw_valid := False\<rparr>;
          reason = (case rv_reason v of None \<Rightarrow> ''raw not verified''
                    | Some t \<Rightarrow> if t = [] then ''raw not verified'' else t);
          uncertain = au1\<lparr>au_uncertain := au_uncertain au1 @ [reason],
                         au_missing := (au_missing au1 \<or> ax_decision ax \<le> en_max m)\<rparr>
      in if contains ''non-monotonic'' reason \<or> contains ''overlap'' reason
         then drop_subscription (note_failure ax CLOCK_OR_ORDERING_DAMAGE (en_min m) (en_max m) reason au1)
         else case tomb of
                None \<Rightarrow> uncertain
              | Some t \<Rightarrow>
                  if retention_lost ax m t
                  then note_failure ax RETENTION_LOSS (en_min m) (en_max m)
                         ''committed evidence pruned while unresolved and not represented by a valid durable checkpoint'' au1
                  else uncertain)"

definition audit_noted :: "reading \<Rightarrow> audit \<Rightarrow> audit" where
  "audit_noted v au =
     au\<lparr>au_software_fault := (au_software_fault au \<or> rv_software_fault v),
        au_raw_present := (au_raw_present au \<or> rv_present v)\<rparr>"

definition audit_settled :: "audit \<Rightarrow> bool" where
  "audit_settled au \<longleftrightarrow>
     pp_exit_ms (au_position au) \<noteq> None \<and> au_raw_valid au \<and> au_ready au \<and> au_failures au = []"

fun audit_segments ::
    "audit_frame \<Rightarrow> (segment_entry \<Rightarrow> raw_file) \<Rightarrow> segment_entry option
     \<Rightarrow> (segment_entry \<times> tombstone option) list \<Rightarrow> audit \<Rightarrow> reader \<Rightarrow> (py_error + audit) \<times> reader" where
  "audit_segments ax disk previous [] au rd = (Inr au, rd)"
| "audit_segments ax disk previous ((m, tomb) # ms) au rd =
     (case audit_chain ax previous m (au, rd) of (au1, rd1) \<Rightarrow>
        case forensic_read disk m tomb rd1 of (v, rd2) \<Rightarrow>
          let au2 = audit_noted v au1 in
          if \<not> rv_valid v then audit_segments ax disk (Some m) ms (audit_unread ax m tomb v au2) rd2
          else case audit_rows ax (rv_rows v) au2 of
                 Inl e \<Rightarrow> (Inl e, rd2)
               | Inr au3 \<Rightarrow> if audit_settled au3 then (Inr au3, rd2)
                            else audit_segments ax disk (Some m) ms au3 rd2)"

subsection \<open>The candidate\<close>

definition frame_of :: "label_settings \<Rightarrow> ms \<Rightarrow> ms option \<Rightarrow> ms \<Rightarrow> candidate \<Rightarrow> audit_frame" where
  "frame_of st retention consumed asof c =
     (let s = sn_signal (ca_snapshot c); decision = sn_decision (ca_snapshot c);
          horizon_end = decision + sg_expected_hold_max s * 60000;
          label_exit = Option.bind (ca_label c) fz_exit_ms
      in \<lparr>ax_signal = s\<lparr>sg_created_ms := decision\<rparr>, ax_decision = decision, ax_start = max 0 (decision - 900000),
          ax_stop = min (min asof (horizon_end + 60000))
                      (max (max decision (or_ms (ca_label_available c) asof)) (or_ms label_exit 0)),
          ax_stale = lb_stale_ms st, ax_retention = retention, ax_prospective = (ca_prospective c \<noteq> None),
          ax_labelled = (ca_label c \<noteq> None), ax_asof = asof, ax_consumed = consumed\<rparr>)"

definition audit_new :: "bool \<Rightarrow> bool option \<Rightarrow> paper \<Rightarrow> audit" where
  "audit_new whole eligible p =
     \<lparr>au_failures = [], au_uncertain = [], au_seen = [], au_last_trade = None, au_subscription = None,
      au_healthy = None, au_checked = False, au_ready = False, au_raw_valid = whole, au_missing = False,
      au_chain_valid = whole, au_raw_present = False, au_software_fault = False, au_position = p,
      au_eligible = eligible, au_first_recorded = None, au_last_recorded = None, au_cover_start = None,
      au_cover_end = None, au_sub_start = None, au_sub_end = None, au_selected = False, au_subscribed = None,
      au_first_valid = None, au_predecision = None\<rparr>"

definition class_name :: "root_class \<Rightarrow> string" where
  "class_name k =
     (case k of COMPLETE \<Rightarrow> ''COMPLETE'' | STILL_OPEN \<Rightarrow> ''STILL_OPEN'' | NO_ENTRY \<Rightarrow> ''NO_ENTRY''
      | TECHNICAL_DUPLICATE \<Rightarrow> ''TECHNICAL_DUPLICATE''
      | PREDECISION_COVERAGE_MISSING \<Rightarrow> ''PREDECISION_COVERAGE_MISSING''
      | SUBSCRIPTION_NOT_READY \<Rightarrow> ''SUBSCRIPTION_NOT_READY'' | REAL_TRADE_FEED_GAP \<Rightarrow> ''REAL_TRADE_FEED_GAP''
      | RECORDER_DROP \<Rightarrow> ''RECORDER_DROP'' | RECORDER_CHAIN_GAP \<Rightarrow> ''RECORDER_CHAIN_GAP''
      | CLOCK_OR_ORDERING_DAMAGE \<Rightarrow> ''CLOCK_OR_ORDERING_DAMAGE'' | RETENTION_LOSS \<Rightarrow> ''RETENTION_LOSS''
      | MATERIALIZER_CHECKPOINT_GAP \<Rightarrow> ''MATERIALIZER_CHECKPOINT_GAP''
      | LABELER_FALSE_GAP \<Rightarrow> ''LABELER_FALSE_GAP'' | SOURCE_MISMATCH \<Rightarrow> ''SOURCE_MISMATCH''
      | HORIZON_NOT_MATURE \<Rightarrow> ''HORIZON_NOT_MATURE'' | UNKNOWN_INCOMPLETE \<Rightarrow> ''UNKNOWN_INCOMPLETE''
      | AUDIT_SOFTWARE_FAULT \<Rightarrow> ''AUDIT_SOFTWARE_FAULT'')"

definition ROOT_CLASSES :: "root_class list" where
  "ROOT_CLASSES =
     [COMPLETE, STILL_OPEN, NO_ENTRY, TECHNICAL_DUPLICATE, PREDECISION_COVERAGE_MISSING, SUBSCRIPTION_NOT_READY,
      REAL_TRADE_FEED_GAP, RECORDER_DROP, RECORDER_CHAIN_GAP, CLOCK_OR_ORDERING_DAMAGE, RETENTION_LOSS,
      MATERIALIZER_CHECKPOINT_GAP, LABELER_FALSE_GAP, SOURCE_MISMATCH, HORIZON_NOT_MATURE, UNKNOWN_INCOMPLETE,
      AUDIT_SOFTWARE_FAULT]"

definition class_named :: "string \<Rightarrow> root_class option" where
  "class_named t = find (\<lambda>k. class_name k = t) ROOT_CLASSES"

definition failure_class :: "interval_failure list \<Rightarrow> root_class option" where
  "failure_class fs =
     find (\<lambda>k. k \<in> fst ` set fs)
       [RETENTION_LOSS, RECORDER_DROP, CLOCK_OR_ORDERING_DAMAGE, RECORDER_CHAIN_GAP, REAL_TRADE_FEED_GAP]"

definition stored_complete :: "candidate \<Rightarrow> bool" where
  "stored_complete c \<longleftrightarrow>
     (case ca_label c of None \<Rightarrow> False
      | Some l \<Rightarrow> fz_complete l \<and> or_ms (fz_exit_ms l) 0 \<noteq> 0 \<and> fz_net_r l \<noteq> None)"

text \<open>The observed end of a reconstruction that could replace an incomplete label.\<close>

definition reconstructed :: "audit_frame \<Rightarrow> audit \<Rightarrow> bool" where
  "reconstructed ax au \<longleftrightarrow>
     au_raw_valid au \<and> au_ready au \<and> au_failures au = [] \<and> paper_complete (au_position au)
     \<and> (case pp_exit_ms (au_position au) of None \<Rightarrow> False
        | Some t \<Rightarrow> t \<le> ax_decision ax + sg_expected_hold_max (ax_signal ax) * 60000)"

definition stale_end :: "audit_frame \<Rightarrow> audit \<Rightarrow> ms option" where
  "stale_end ax au =
     (case au_last_trade au of None \<Rightarrow> None
      | Some l \<Rightarrow> if ax_stale ax < ax_stop ax - l then Some l else None)"

text \<open>
  The cascade of root classes for a decision without a complete label. The last branch may add a
  failure of its own.
\<close>

record verdict_facts =
  vf_ineligible :: "string option"
  vf_mature :: bool
  vf_advanced :: bool
  vf_truncated :: bool
  vf_some_segments :: bool
  vf_label_open :: bool

definition classify_audit ::
    "audit_frame \<Rightarrow> verdict_facts \<Rightarrow> audit \<Rightarrow> root_class \<times> interval_failure list" where
  "classify_audit ax vf au =
     (let fs = au_failures au in
      if vf_ineligible vf \<noteq> None
      then (case class_named (the (vf_ineligible vf)) of None \<Rightarrow> PREDECISION_COVERAGE_MISSING | Some k \<Rightarrow> k, fs)
      else if \<not> ax_labelled ax \<and> vf_advanced vf \<and> ax_consumed ax = None
      then (MATERIALIZER_CHECKPOINT_GAP, fs)
      else if fs \<noteq> [] then (case failure_class fs of None \<Rightarrow> UNKNOWN_INCOMPLETE | Some k \<Rightarrow> k, fs)
      else if \<not> au_ready au \<and> au_uncertain au = [] \<and> vf_some_segments vf
      then (if au_subscribed au = Some False then SUBSCRIPTION_NOT_READY else PREDECISION_COVERAGE_MISSING, fs)
      else if reconstructed ax au \<and> ax_labelled ax \<and> vf_label_open vf then (LABELER_FALSE_GAP, fs)
      else if pp_exit_reason (au_position au) = Some ''missed_fill'' \<and> au_raw_valid au \<and> au_ready au
      then (NO_ENTRY, fs)
      else if \<not> ax_labelled ax \<and> \<not> vf_mature vf \<and> au_ready au \<and> au_raw_valid au then (STILL_OPEN, fs)
      else if \<not> ax_labelled ax \<and> \<not> vf_mature vf then (HORIZON_NOT_MATURE, fs)
      else if au_uncertain au \<noteq> [] \<or> vf_truncated vf \<or> au_missing au then (UNKNOWN_INCOMPLETE, fs)
      else case stale_end ax au of
             None \<Rightarrow> (UNKNOWN_INCOMPLETE, fs)
           | Some l \<Rightarrow> (REAL_TRADE_FEED_GAP, au_failures (note_failure ax REAL_TRADE_FEED_GAP l (ax_stop ax)
                ''Recorded trade interval ends before the required observation cutoff'' au)))"

record audit_report =
  ar_class :: root_class
  ar_mature :: bool
  ar_source :: source
  ar_symbol :: string
  ar_horizon :: profile
  ar_decision :: ms
  ar_eligible :: "bool option"
  ar_label_complete :: bool
  ar_reconstructed :: bool
  ar_exit_ms :: "ms option"
  ar_segments :: nat
  ar_gap_count :: nat
  ar_largest_gap :: ms
  ar_gap_total :: ms
  ar_first_gap :: "(ms \<times> ms) option"
  ar_state :: "audit option"

definition audit_mature :: "ms \<Rightarrow> candidate \<Rightarrow> bool" where
  "audit_mature asof c \<longleftrightarrow>
     (let horizon_end = sn_decision (ca_snapshot c) + sg_expected_hold_max (sn_signal (ca_snapshot c)) * 60000;
          label_exit = or_ms (Option.bind (ca_label c) fz_exit_ms) 0
      in horizon_end \<le> asof \<or> (label_exit \<noteq> 0 \<and> label_exit \<le> asof))"

definition sources_disagree :: "candidate \<Rightarrow> bool" where
  "sources_disagree c \<longleftrightarrow>
     (let s = sg_source (sn_signal (ca_snapshot c)) in
      ca_source c \<noteq> s
      \<or> (case Option.bind (ca_label c) fz_source of None \<Rightarrow> False | Some v \<Rightarrow> v \<noteq> s))"

definition report_new :: "ms \<Rightarrow> candidate \<Rightarrow> audit_report" where
  "report_new asof c =
     (let s = sn_signal (ca_snapshot c) in
      \<lparr>ar_class = UNKNOWN_INCOMPLETE, ar_mature = audit_mature asof c, ar_source = sg_source s,
       ar_symbol = sg_symbol s, ar_horizon = sg_horizon_profile s, ar_decision = sn_decision (ca_snapshot c),
       ar_eligible = map_option el_eligible (ca_prospective c),
       ar_label_complete = (case ca_label c of None \<Rightarrow> False | Some l \<Rightarrow> fz_complete l),
       ar_reconstructed = False, ar_exit_ms = None, ar_segments = 0, ar_gap_count = 0, ar_largest_gap = 0,
       ar_gap_total = 0, ar_first_gap = None, ar_state = None\<rparr>)"

definition with_gaps :: "interval_failure list \<Rightarrow> audit_report \<Rightarrow> audit_report" where
  "with_gaps fs r =
     (case fs of
        [] \<Rightarrow> r
      | (_, a, b, _) # _ \<Rightarrow>
          r\<lparr>ar_gap_count := length fs, ar_largest_gap := Max ((\<lambda>(_, a, b, _). b - a) ` set fs),
            ar_gap_total := sum_list (map (\<lambda>(_, a, b, _). max 0 (b - a)) fs), ar_first_gap := Some (a, b)\<rparr>)"

definition checkpoint_advanced :: "(checkpoint \<times> string option) option \<Rightarrow> ms \<Rightarrow> bool" where
  "checkpoint_advanced stored decision \<longleftrightarrow>
     (case stored of None \<Rightarrow> False
      | Some (c, _) \<Rightarrow>
          decision \<le> (case ck_cursor c of None \<Rightarrow> - 1 | Some t \<Rightarrow> t)
          \<and> decision < (case ck_boundary c of None \<Rightarrow> - 1 | Some t \<Rightarrow> t))"

definition audit_verdict ::
    "audit_frame \<Rightarrow> verdict_facts \<Rightarrow> candidate \<Rightarrow> audit \<Rightarrow> audit_report \<Rightarrow> audit_report" where
  "audit_verdict ax vf c au r =
     (let (k, fs, r1) =
            (if stored_complete c
             then (COMPLETE, au_failures au,
                   r\<lparr>ar_eligible := Some (case ca_prospective c of None \<Rightarrow> True | Some e \<Rightarrow> el_eligible e)\<rparr>)
             else case classify_audit ax vf au of
                    (k, fs) \<Rightarrow> (k, fs, r\<lparr>ar_eligible := au_eligible au, ar_reconstructed := reconstructed ax au,
                                       ar_exit_ms := pp_exit_ms (au_position au)\<rparr>))
      in (with_gaps fs r1)\<lparr>ar_class := (if au_software_fault au \<and> k \<noteq> COMPLETE then AUDIT_SOFTWARE_FAULT else k),
                          ar_state := Some au\<rparr>)"

definition audit_candidate ::
    "label_settings \<Rightarrow> (checkpoint \<Rightarrow> string) \<Rightarrow> (checkpoint \<times> string option) option \<Rightarrow> ms
     \<Rightarrow> (segment_entry \<Rightarrow> raw_file) \<Rightarrow> (segment_entry \<times> tombstone option) list \<Rightarrow> ms \<Rightarrow> candidate \<Rightarrow> reader
     \<Rightarrow> (py_error + audit_report) \<times> reader" where
  "audit_candidate st digest stored retention disk table asof c rd =
     (let snap = ca_snapshot c; decision = sn_decision snap;
          consumed = (if ca_label c \<noteq> None then None else consumed_cursor digest stored (ca_id c) snap asof);
          ax = frame_of st retention consumed asof c
      in if sources_disagree c then (Inr ((report_new asof c)\<lparr>ar_class := SOURCE_MISMATCH\<rparr>), rd)
         else
           case manifests_between table (ax_start ax) (ax_stop ax) of
             (ms, truncated) \<Rightarrow>
               (case open_position st \<lparr>dn_id = ca_id c, dn_decision_ms = decision, dn_identity = ca_id c,
                       dn_signal = sn_signal snap\<rparr> of
                  Inl e \<Rightarrow> (Inl e, rd)
                | Inr p \<Rightarrow>
                    (case audit_segments ax disk None ms
                            (audit_new (ms \<noteq> [] \<and> \<not> truncated) (map_option el_eligible (ca_prospective c)) p) rd of
                       (Inl e, rd') \<Rightarrow> (Inl e, rd')
                     | (Inr au, rd') \<Rightarrow>
                         let au1 = check_decision ax au;
                             vf = \<lparr>vf_ineligible = (case ca_prospective c of None \<Rightarrow> None
                                     | Some e \<Rightarrow> if el_eligible e then None else Some (el_reason e)),
                                   vf_mature = audit_mature asof c,
                                   vf_advanced = checkpoint_advanced stored decision, vf_truncated = truncated,
                                   vf_some_segments = (ms \<noteq> []),
                                   vf_label_open = (case ca_label c of None \<Rightarrow> False | Some l \<Rightarrow> \<not> fz_complete l)\<rparr>
                         in (case outcome (au_position au1) of
                               Inl e \<Rightarrow> if stored_complete c
                                        then (Inr (audit_verdict ax vf c au1 ((report_new asof c)\<lparr>ar_segments := length ms\<rparr>)), rd')
                                        else (Inl e, rd')
                             | Inr _ \<Rightarrow> (Inr (audit_verdict ax vf c au1 ((report_new asof c)\<lparr>ar_segments := length ms\<rparr>)), rd')))))"

section \<open>Correctness\<close>

subsection \<open>What the rows say\<close>

text \<open>The rows that the audit looks at, and the two kinds of event they hold for the market.\<close>

definition watched :: "audit_frame \<Rightarrow> tape_row \<Rightarrow> string option" where
  "watched ax r =
     (if aw_receipt r < ax_start ax \<or> ax_stop ax < aw_receipt r then None
      else case market_source (aw_source r) of
             Inl _ \<Rightarrow> None
           | Inr (venue, topic) \<Rightarrow>
               if aw_source r \<noteq> ''control/gap'' \<and> venue \<noteq> source_name (sg_source (ax_signal ax))
               then None else Some topic)"

datatype cover_event = Acknowledged | Printed ms tape_print

definition events_of :: "audit_frame \<Rightarrow> tape_row \<Rightarrow> cover_event list" where
  "events_of ax r =
     (case watched ax r of None \<Rightarrow> []
      | Some topic \<Rightarrow>
          (if row_subscribes ax topic r then [Acknowledged] else [])
          @ (if prints_here ax topic r
             then map (Printed (aw_receipt r)) (filter (\<lambda>x. \<not> px_block x) (aw_prints r)) else []))"

definition hides_market :: "audit_frame \<Rightarrow> tape_row \<Rightarrow> bool" where
  "hides_market ax r \<longleftrightarrow>
     (case watched ax r of None \<Rightarrow> False
      | Some topic \<Rightarrow> row_lost ax topic r \<and> ax_decision ax \<le> lost_until r \<and> lost_from r \<le> ax_stop ax)"

text \<open>A print counts once.\<close>

fun fresh_events :: "string list \<Rightarrow> cover_event list \<Rightarrow> cover_event list" where
  "fresh_events seen [] = []"
| "fresh_events seen (Acknowledged # es) = Acknowledged # fresh_events seen es"
| "fresh_events seen (Printed t x # es) =
     (if px_id x \<in> set seen then fresh_events seen es
      else Printed t x # fresh_events (px_id x # seen) es)"

fun seen_after :: "string list \<Rightarrow> cover_event list \<Rightarrow> string list" where
  "seen_after seen [] = seen"
| "seen_after seen (Acknowledged # es) = seen_after seen es"
| "seen_after seen (Printed t x # es) =
     (if px_id x \<in> set seen then seen_after seen es else seen_after (px_id x # seen) es)"

definition executed :: "audit_frame \<Rightarrow> cover_event list \<Rightarrow> trade list" where
  "executed ax es =
     concat (map (\<lambda>e. case e of Acknowledged \<Rightarrow> []
       | Printed t x \<Rightarrow> if ax_decision ax \<le> t then [audit_trade ax t x] else []) es)"

fun last_print :: "ms option \<Rightarrow> cover_event list \<Rightarrow> ms option" where
  "last_print l [] = l"
| "last_print l (Acknowledged # es) = last_print None es"
| "last_print l (Printed t x # es) = last_print (Some t) es"

text \<open>From the decision on, no two prints without an acknowledgement between them are further apart
  than the stale limit.\<close>

fun stale_free :: "audit_frame \<Rightarrow> ms option \<Rightarrow> cover_event list \<Rightarrow> bool" where
  "stale_free ax l [] \<longleftrightarrow> True"
| "stale_free ax l (Acknowledged # es) \<longleftrightarrow> stale_free ax None es"
| "stale_free ax l (Printed t x # es) \<longleftrightarrow>
     (case l of None \<Rightarrow> True | Some s \<Rightarrow> t < ax_decision ax \<or> t - s \<le> ax_stale ax)
     \<and> stale_free ax (Some t) es"

lemma fresh_events_append: "fresh_events seen (es @ fs) = fresh_events seen es @ fresh_events (seen_after seen es) fs"
  by (induction seen es rule: fresh_events.induct) auto

lemma seen_after_append: "seen_after seen (es @ fs) = seen_after (seen_after seen es) fs"
  by (induction seen es rule: seen_after.induct) auto

lemma executed_append: "executed ax (es @ fs) = executed ax es @ executed ax fs"
  by (simp add: executed_def)

lemma last_print_append: "last_print l (es @ fs) = last_print (last_print l es) fs"
  by (induction l es rule: last_print.induct) auto

lemma stale_free_append: "stale_free ax l (es @ fs) \<longleftrightarrow> stale_free ax l es \<and> stale_free ax (last_print l es) fs"
  by (induction ax l es rule: stale_free.induct) auto

subsection \<open>A replay without failures\<close>

text \<open>The audit state after events, from the one before, when no failure was noted.\<close>

definition follows :: "audit_frame \<Rightarrow> cover_event list \<Rightarrow> audit \<Rightarrow> audit \<Rightarrow> bool" where
  "follows ax es au au' \<longleftrightarrow>
     (let fs = fresh_events (au_seen au) es in
      au_seen au' = seen_after (au_seen au) es \<and> au_last_trade au' = last_print (au_last_trade au) fs
      \<and> au_position au' = fold on_trade (executed ax fs) (au_position au)
      \<and> stale_free ax (au_last_trade au) fs)"

lemma follows_Nil: "au_seen au' = au_seen au \<Longrightarrow> au_last_trade au' = au_last_trade au
    \<Longrightarrow> au_position au' = au_position au \<Longrightarrow> follows ax [] au au'"
  by (simp add: follows_def executed_def)

lemma follows_trans: "follows ax es a b \<Longrightarrow> follows ax fs b c \<Longrightarrow> follows ax (es @ fs) a c"
  by (simp add: follows_def Let_def fresh_events_append seen_after_append executed_append last_print_append
      stale_free_append)

definition grows :: "audit \<Rightarrow> audit \<Rightarrow> bool" where
  "grows au au' \<longleftrightarrow> (au_failures au' = [] \<longrightarrow> au_failures au = []) \<and> (au_raw_valid au' \<longrightarrow> au_raw_valid au)"

lemma note_failure_frame [simp]:
  "au_seen (note_failure ax k a b t au) = au_seen au"
  "au_last_trade (note_failure ax k a b t au) = au_last_trade au"
  "au_position (note_failure ax k a b t au) = au_position au"
  "au_raw_valid (note_failure ax k a b t au) = au_raw_valid au"
  "au_subscription (note_failure ax k a b t au) = au_subscription au"
  "au_checked (note_failure ax k a b t au) = au_checked au"
  "au_ready (note_failure ax k a b t au) = au_ready au"
  by (simp_all add: note_failure_def)

lemma note_failure_none: "au_failures (note_failure ax k a b t au) = [] \<longleftrightarrow>
    au_failures au = [] \<and> \<not> (ax_decision ax \<le> b \<and> a \<le> ax_stop ax)"
  by (simp add: note_failure_def)

definition last_inside :: "audit_frame \<Rightarrow> audit \<Rightarrow> bool" where
  "last_inside ax au \<longleftrightarrow> (case au_last_trade au of None \<Rightarrow> True | Some s \<Rightarrow> s \<le> ax_stop ax)"

text \<open>What every part of the replay shows, going back from a state without failures.\<close>

definition clean_part :: "audit_frame \<Rightarrow> cover_event list \<Rightarrow> audit \<Rightarrow> audit \<Rightarrow> bool" where
  "clean_part ax es au au' \<longleftrightarrow>
     (last_inside ax au \<longrightarrow> last_inside ax au'
        \<and> (au_failures au' = [] \<longrightarrow> au_failures au = [] \<and> follows ax es au au'))
     \<and> au_raw_valid au' = au_raw_valid au"

lemma clean_part_trans:
  "clean_part ax es a b \<Longrightarrow> clean_part ax fs b c \<Longrightarrow> clean_part ax (es @ fs) a c"
  unfolding clean_part_def using follows_trans by blast

lemma clean_part_frame:
  "au_seen au' = au_seen au \<Longrightarrow> au_last_trade au' = au_last_trade au \<Longrightarrow> au_position au' = au_position au
    \<Longrightarrow> au_raw_valid au' = au_raw_valid au \<Longrightarrow> (au_failures au' = [] \<Longrightarrow> au_failures au = [])
    \<Longrightarrow> clean_part ax [] au au'"
  by (simp add: clean_part_def follows_Nil last_inside_def)

lemma audit_print_clean:
  assumes "audit_print ax t x au = Inr au'" and "\<not> px_block x" and "t \<le> ax_stop ax"
  shows "clean_part ax [Printed t x] au au'"
  using assms
  by (auto simp: audit_print_def audit_first_def audit_stale_def clean_part_def follows_def Let_def executed_def
      last_inside_def trade_post_init_def note_failure_none split: if_splits sum.splits option.splits)

lemma audit_prints_clean:
  assumes "audit_prints ax t xs au = Inr au'" and "t \<le> ax_stop ax"
  shows "clean_part ax (map (Printed t) (filter (\<lambda>x. \<not> px_block x) xs)) au au'"
  using assms
proof (induction xs arbitrary: au)
  case Nil
  then show ?case by (simp add: clean_part_frame)
next
  case (Cons x xs)
  obtain au1 where one: "audit_print ax t x au = Inr au1" and rest: "audit_prints ax t xs au1 = Inr au'"
    using Cons.prems by (auto split: sum.splits)
  note ih = Cons.IH [OF rest Cons.prems(2)]
  show ?case
  proof (cases "px_block x")
    case True
    then have "au1 = au" using one by (simp add: audit_print_def)
    then show ?thesis using True ih by simp
  next
    case False
    then show ?thesis
      using clean_part_trans [OF audit_print_clean [OF one False Cons.prems(2)] ih] by simp
  qed
qed

lemma check_decision_clean: "clean_part ax [] au (check_decision ax au)"
  by (rule clean_part_frame) (auto simp: check_decision_def Let_def split: if_splits)

lemma audit_lost_clean:
  "clean_part ax [] au (audit_lost ax topic r au)"
  "au_failures (audit_lost ax topic r au) = [] \<Longrightarrow>
     \<not> (row_lost ax topic r \<and> ax_decision ax \<le> lost_until r \<and> lost_from r \<le> ax_stop ax)"
   by (auto simp: audit_lost_def drop_subscription_def note_failure_none intro: clean_part_frame split: if_splits)

lemma audit_subscribed_clean:
  "clean_part ax (if row_subscribes ax topic r then [Acknowledged] else []) au (audit_subscribed ax topic r au)"
  by (simp add: audit_subscribed_def clean_part_def follows_def executed_def last_inside_def)


lemma clean_part_failures: "clean_part ax es au au' \<Longrightarrow> last_inside ax au \<Longrightarrow> au_failures au' = [] \<Longrightarrow> au_failures au = []"
  by (simp add: clean_part_def)

lemma clean_part_inside: "clean_part ax es au au' \<Longrightarrow> last_inside ax au \<Longrightarrow> last_inside ax au'"
  by (simp add: clean_part_def)

lemma audit_row_clean:
  assumes run: "audit_row ax r au = Inr au'"
  shows "clean_part ax (events_of ax r) au au'"
    and "last_inside ax au \<Longrightarrow> au_failures au' = [] \<Longrightarrow> \<not> hides_market ax r"
proof -
  let ?au1 = "if ax_decision ax \<le> aw_receipt r then check_decision ax au else au"
  have one: "clean_part ax [] au ?au1" using check_decision_clean by (simp add: clean_part_frame)
  have "clean_part ax (events_of ax r) au au' \<and>
      (last_inside ax au \<longrightarrow> au_failures au' = [] \<longrightarrow> \<not> hides_market ax r)"
  proof (cases "watched ax r")
    case None
    then have "au' = au \<or> au' = ?au1"
      using run by (auto simp: audit_row_def watched_def Let_def split: if_splits sum.splits prod.splits)
    then show ?thesis using one None by (auto simp: events_of_def hides_market_def clean_part_frame)
  next
    case (Some topic)
    let ?s = "audit_subscribed ax topic r ?au1" and ?acks = "if row_subscribes ax topic r then [Acknowledged] else []"
    let ?l = "audit_lost ax topic r ?s"
    have inside: "aw_receipt r \<le> ax_stop ax" using Some by (auto simp: watched_def split: if_splits)
    have prints: "(if prints_here ax topic r then audit_prints ax (aw_receipt r) (aw_prints r) ?l else Inr ?l) = Inr au'"
      using run Some by (auto simp: audit_row_def watched_def Let_def split: if_splits sum.splits prod.splits)
    have two: "clean_part ax ?acks au ?s"
      using clean_part_trans [OF one audit_subscribed_clean [of ax topic r ?au1]] by simp
    then have three: "clean_part ax ?acks au ?l"
      using clean_part_trans [OF two audit_lost_clean(1) [of ax ?s topic r]] by simp
    let ?ps = "if prints_here ax topic r
       then map (Printed (aw_receipt r)) (filter (\<lambda>x. \<not> px_block x) (aw_prints r)) else []"
    have four: "clean_part ax ?ps ?l au'"
    proof (cases "prints_here ax topic r")
      case True
      then show ?thesis using audit_prints_clean [OF _ inside] prints by simp
    next
      case False
      then show ?thesis using prints by (simp add: clean_part_frame)
    qed
    have "events_of ax r = ?acks @ ?ps" using Some by (simp add: events_of_def)
    then have "clean_part ax (events_of ax r) au au'" using clean_part_trans [OF three four] by simp
    moreover have "\<not> hides_market ax r" if "last_inside ax au" "au_failures au' = []"
      using clean_part_failures [OF four clean_part_inside [OF three that(1)] that(2)]
        audit_lost_clean(2) [of ax topic r ?s] Some by (simp add: hides_market_def)
    ultimately show ?thesis by blast
  qed
  then show "clean_part ax (events_of ax r) au au'"
    and "last_inside ax au \<Longrightarrow> au_failures au' = [] \<Longrightarrow> \<not> hides_market ax r" by blast+
qed

lemma audit_rows_clean:
  assumes "audit_rows ax rs au = Inr au'"
  shows "clean_part ax (concat (map (events_of ax) rs)) au au'"
    and "last_inside ax au \<Longrightarrow> au_failures au' = [] \<Longrightarrow> \<forall>r \<in> set rs. \<not> hides_market ax r"
  using assms
proof (induction rs arbitrary: au)
  case (Cons r rs)
  {
    case 1
    then obtain au1 where one: "audit_row ax r au = Inr au1" and rest: "audit_rows ax rs au1 = Inr au'"
      by (auto split: sum.splits)
    show ?case using clean_part_trans [OF audit_row_clean(1) [OF one] Cons.IH(1) [OF rest]] by simp
  next
    case 2
    then obtain au1 where one: "audit_row ax r au = Inr au1" and rest: "audit_rows ax rs au1 = Inr au'"
      by (auto split: sum.splits)
    note c = audit_row_clean(1) [OF one]
    have in1: "last_inside ax au1" using clean_part_inside [OF c 2(1)] .
    moreover have "au_failures au1 = []" using clean_part_failures [OF Cons.IH(1) [OF rest] in1 2(2)] .
    ultimately show ?case using Cons.IH(2) [OF in1 2(2) rest] audit_row_clean(2) [OF one 2(1)] by simp
  }
qed (simp_all add: clean_part_frame)

subsection \<open>The decision check\<close>

text \<open>Readiness is decided once, by the last print of the rows before the decision.\<close>

definition fresh_print_before :: "audit_frame \<Rightarrow> ms option \<Rightarrow> bool" where
  "fresh_print_before ax l \<longleftrightarrow>
     (case l of None \<Rightarrow> False | Some t \<Rightarrow> 0 \<le> ax_decision ax - t \<and> ax_decision ax - t \<le> ax_stale ax)"

definition ready_part :: "audit_frame \<Rightarrow> tape_row list \<Rightarrow> audit \<Rightarrow> audit \<Rightarrow> bool" where
  "ready_part ax rs au au' \<longleftrightarrow>
     (au_checked au \<longrightarrow> au_checked au' \<and> au_ready au' = au_ready au)
     \<and> (\<not> au_checked au \<longrightarrow> au_checked au' \<longrightarrow> au_ready au' \<longrightarrow> last_inside ax au \<longrightarrow> au_failures au' = [] \<longrightarrow>
          (\<exists>early late. rs = early @ late \<and> fresh_print_before ax
             (last_print (au_last_trade au) (fresh_events (au_seen au) (concat (map (events_of ax) early))))))
     \<and> (\<not> au_checked au' \<longrightarrow> au_ready au' = au_ready au)"

lemma audit_print_checked:
  "audit_print ax t x au = Inr au' \<Longrightarrow> au_checked au' = au_checked au \<and> au_ready au' = au_ready au"
  by (auto simp: audit_print_def audit_first_def audit_stale_def Let_def split: if_splits sum.splits option.splits)

lemma audit_prints_checked:
  "audit_prints ax t xs au = Inr au' \<Longrightarrow> au_checked au' = au_checked au \<and> au_ready au' = au_ready au"
  by (induction xs arbitrary: au) (auto split: sum.splits dest: audit_print_checked)

lemma audit_row_checked:
  assumes run: "audit_row ax r au = Inr au'"
  shows "(au_checked au' = au_checked au \<and> au_ready au' = au_ready au)
    \<or> (au_checked au' = au_checked (check_decision ax au) \<and> au_ready au' = au_ready (check_decision ax au))"
proof -
  have frame: "au_checked (audit_lost ax topic r (audit_subscribed ax topic r a)) = au_checked a"
      "au_ready (audit_lost ax topic r (audit_subscribed ax topic r a)) = au_ready a" for topic a
    by (simp_all add: audit_lost_def audit_subscribed_def drop_subscription_def)
  show ?thesis
    using run
    by (auto simp: audit_row_def Let_def frame dest!: audit_prints_checked split: if_splits sum.splits prod.splits)
qed

lemma check_decision_ready:
  "\<not> au_checked au \<Longrightarrow> au_ready (check_decision ax au) \<Longrightarrow> fresh_print_before ax (au_last_trade au)"
  "au_checked au \<Longrightarrow> check_decision ax au = au"
  "au_checked (check_decision ax au)"
  by (auto simp: check_decision_def Let_def fresh_print_before_def split: if_splits)

lemma audit_row_ready:
  assumes "audit_row ax r au = Inr au'"
  shows "ready_part ax [r] au au'"
proof -
  have start: "last_print (au_last_trade au) (fresh_events (au_seen au) (concat (map (events_of ax) []))) = au_last_trade au"
    by simp
  show ?thesis
    using audit_row_checked [OF assms] check_decision_ready [where ax = ax and au = au] start
    unfolding ready_part_def by (metis append_Nil)
qed

lemma ready_part_trans:
  assumes a: "ready_part ax rs au au1" and b: "ready_part ax qs au1 au2"
    and c: "clean_part ax (concat (map (events_of ax) rs)) au au1"
    and d: "clean_part ax es au1 au2"
  shows "ready_part ax (rs @ qs) au au2"
proof -
  have "\<exists>early late. rs @ qs = early @ late \<and> fresh_print_before ax
          (last_print (au_last_trade au) (fresh_events (au_seen au) (concat (map (events_of ax) early))))"
    if h: "\<not> au_checked au" "au_checked au2" "au_ready au2" "last_inside ax au" "au_failures au2 = []"
  proof -
    have in1: "last_inside ax au1" using clean_part_inside [OF c h(4)] .
    have f1: "au_failures au1 = []" using clean_part_failures [OF d in1 h(5)] .
    show ?thesis
    proof (cases "au_checked au1")
      case True
      then have "au_ready au1" using b h by (simp add: ready_part_def)
      with True h f1 a obtain early late where "rs = early @ late" and "fresh_print_before ax
          (last_print (au_last_trade au) (fresh_events (au_seen au) (concat (map (events_of ax) early))))"
        unfolding ready_part_def by blast
      then show ?thesis by (metis append.assoc)
    next
      case False
      then obtain early late where e: "qs = early @ late" and p: "fresh_print_before ax
          (last_print (au_last_trade au1) (fresh_events (au_seen au1) (concat (map (events_of ax) early))))"
        using b h in1 unfolding ready_part_def by blast
      have "follows ax (concat (map (events_of ax) rs)) au au1" using c h(4) f1 by (simp add: clean_part_def)
      then have "last_print (au_last_trade au) (fresh_events (au_seen au) (concat (map (events_of ax) (rs @ early))))
          = last_print (au_last_trade au1) (fresh_events (au_seen au1) (concat (map (events_of ax) early)))"
        by (simp add: follows_def Let_def fresh_events_append last_print_append)
      then show ?thesis using p e by (metis append.assoc)
    qed
  qed
  then show ?thesis using a b unfolding ready_part_def by auto
qed

lemma audit_rows_ready:
  assumes "audit_rows ax rs au = Inr au'"
  shows "ready_part ax rs au au'"
  using assms
proof (induction rs arbitrary: au)
  case Nil
  then show ?case by (simp add: ready_part_def)
next
  case (Cons r rs)
  then obtain au1 where one: "audit_row ax r au = Inr au1" and rest: "audit_rows ax rs au1 = Inr au'"
    by (auto split: sum.splits)
  have "clean_part ax (concat (map (events_of ax) [r])) au au1" using audit_row_clean(1) [OF one] by simp
  from ready_part_trans [OF audit_row_ready [OF one] Cons.IH [OF rest] this audit_rows_clean(1) [OF rest]]
  show ?case by simp
qed

subsection \<open>The segments of a clean replay\<close>

definition raw_rows :: "(segment_entry \<Rightarrow> raw_file) \<Rightarrow> (string \<times> string) list \<Rightarrow> segment_entry \<Rightarrow> tape_row list" where
  "raw_rows disk markets m =
     (case disk m of Raw c \<Rightarrow> filter (carried markets) (ct_rows c) | _ \<Rightarrow> [])"

fun linked :: "segment_entry option \<Rightarrow> (segment_entry \<times> tombstone option) list \<Rightarrow> bool" where
  "linked previous [] \<longleftrightarrow> True"
| "linked previous ((m, _) # ms) \<longleftrightarrow>
     (case previous of None \<Rightarrow> True | Some p \<Rightarrow> segment_chained p m \<and> en_max p \<le> en_min m)
     \<and> linked (Some m) ms"

definition rows_of :: "(segment_entry \<Rightarrow> raw_file) \<Rightarrow> (string \<times> string) list
    \<Rightarrow> (segment_entry \<times> tombstone option) list \<Rightarrow> tape_row list" where
  "rows_of disk markets ms = concat (map (\<lambda>(m, _). raw_rows disk markets m) ms)"

definition all_committed :: "(segment_entry \<Rightarrow> raw_file) \<Rightarrow> (string \<times> string) list
    \<Rightarrow> (segment_entry \<times> tombstone option) list \<Rightarrow> bool" where
  "all_committed disk markets ms \<longleftrightarrow> list_all (\<lambda>(m, _). committed_raw disk markets m (raw_rows disk markets m)) ms"

lemma committed_rows: "committed_raw disk markets m rows \<Longrightarrow> rows = raw_rows disk markets m"
  by (auto simp: committed_raw_def raw_rows_def)

lemma audit_rows_raw: "audit_rows ax rs au = Inr au' \<Longrightarrow> au_raw_valid au' = au_raw_valid au"
  using audit_rows_clean(1) by (simp add: clean_part_def)

lemma drop_subscription_frame [simp]:
  "au_raw_valid (drop_subscription au) = au_raw_valid au" "au_failures (drop_subscription au) = au_failures au"
  by (simp_all add: drop_subscription_def)

lemma audit_unread_raw: "\<not> au_raw_valid (audit_unread ax m tomb v au)"
  by (auto simp: audit_unread_def Let_def split: option.split)

lemma audit_noted_frame [simp]:
  "au_raw_valid (audit_noted v au) = au_raw_valid au" "au_checked (audit_noted v au) = au_checked au"
  "au_ready (audit_noted v au) = au_ready au"
  by (simp_all add: audit_noted_def)

lemma audit_noted_clean: "clean_part ax [] au (audit_noted v au)"
  by (rule clean_part_frame) (simp_all add: audit_noted_def)

lemma audit_chain_raw:
  assumes "audit_chain ax previous m (au, rd) = (au1, rd1)"
  shows "au_raw_valid au1 \<Longrightarrow> au1 = au \<and> rd1 = rd
    \<and> (case previous of None \<Rightarrow> True | Some p \<Rightarrow> segment_chained p m \<and> en_max p \<le> en_min m)"
  using assms by (auto simp: audit_chain_def Let_def split: option.splits if_splits)

lemma audit_segments_raw:
  "audit_segments ax disk previous ms au rd = (Inr au', rd') \<Longrightarrow> au_raw_valid au' \<Longrightarrow> au_raw_valid au"
proof (induction ms arbitrary: previous au rd)
  case (Cons x ms)
  obtain m tomb where x: "x = (m, tomb)" by (cases x)
  obtain au1 rd1 where chain: "audit_chain ax previous m (au, rd) = (au1, rd1)" by fastforce
  obtain v rd2 where read: "forensic_read disk m tomb rd1 = (v, rd2)" by fastforce
  show ?case
  proof (cases "rv_valid v")
    case False
    then have "au_raw_valid (audit_unread ax m tomb v (audit_noted v au1))"
      using Cons x chain read by (simp add: Let_def)
    then show ?thesis using audit_unread_raw by blast
  next
    case True
    obtain au3 where rows: "audit_rows ax (rv_rows v) (audit_noted v au1) = Inr au3"
      using Cons.prems True x chain read by (auto simp: Let_def split: sum.splits)
    have "au_raw_valid au3"
      using Cons True x chain read rows by (auto simp: Let_def split: if_splits)
    then have "au_raw_valid au1" using audit_rows_raw [OF rows] by simp
    then show ?thesis using audit_chain_raw [OF chain] by simp
  qed
qed simp

text \<open>What a replay that ends valid and without failures has seen.\<close>

definition clean_replay ::
    "audit_frame \<Rightarrow> (segment_entry \<Rightarrow> raw_file) \<Rightarrow> (string \<times> string) list \<Rightarrow> segment_entry option
     \<Rightarrow> (segment_entry \<times> tombstone option) list \<Rightarrow> audit \<Rightarrow> audit \<Rightarrow> bool" where
  "clean_replay ax disk markets previous used au au' \<longleftrightarrow>
     (let rows = rows_of disk markets used in
      linked previous used \<and> all_committed disk markets used
      \<and> clean_part ax (concat (map (events_of ax) rows)) au au' \<and> ready_part ax rows au au'
      \<and> (\<forall>r \<in> set rows. \<not> hides_market ax r))"

lemma audit_segments_clean:
  assumes "reader_inv disk known rd" and "fst ` set ms \<subseteq> known" and "inj_on en_id known"
    and "audit_segments ax disk previous ms au rd = (Inr au', rd')"
    and "au_raw_valid au'" and "au_failures au' = []" and "last_inside ax au"
  shows "\<exists>used rest. ms = used @ rest \<and> (rest = [] \<or> audit_settled au')
    \<and> clean_replay ax disk (rd_markets rd) previous used au au'"
  using assms
proof (induction ms arbitrary: previous au rd)
  case Nil
  then show ?case
    by (auto simp: clean_replay_def rows_of_def all_committed_def ready_part_def clean_part_frame)
next
  case (Cons x ms)
  obtain m tomb where x: "x = (m, tomb)" by (cases x)
  obtain au1 rd1 where chain: "audit_chain ax previous m (au, rd) = (au1, rd1)" by fastforce
  obtain v rd2 where read: "forensic_read disk m tomb rd1 = (v, rd2)" by fastforce
  have valid: "rv_valid v"
  proof (rule ccontr)
    assume "\<not> rv_valid v"
    then have "audit_segments ax disk (Some m) ms (audit_unread ax m tomb v (audit_noted v au1)) rd2 = (Inr au', rd')"
      using Cons.prems(4) x chain read by (simp add: Let_def)
    from audit_segments_raw [OF this Cons.prems(5)] audit_unread_raw show False by blast
  qed
  obtain au3 where rows: "audit_rows ax (rv_rows v) (audit_noted v au1) = Inr au3"
    using Cons.prems(4) valid x chain read by (auto simp: Let_def split: sum.splits)
  have after: "(au3 = au' \<and> audit_settled au') \<or> audit_segments ax disk (Some m) ms au3 rd2 = (Inr au', rd')"
    using Cons.prems(4) valid x chain read rows by (auto simp: Let_def split: if_splits)
  have "au_raw_valid au3" using after audit_segments_raw Cons.prems(5) by blast
  then have "au_raw_valid au1" using audit_rows_raw [OF rows] by simp
  note same = audit_chain_raw [OF chain this]
  have m: "m \<in> known" using Cons.prems(2) x by auto
  note r = forensic_read_inv [OF Cons.prems(1) m Cons.prems(3), of tomb v rd2]
  have read': "forensic_read disk m tomb rd = (v, rd2)" using read same by simp
  have committed: "committed_raw disk (rd_markets rd) m (rv_rows v)" and markets: "rd_markets rd2 = rd_markets rd"
    using r(2,3) [OF read'] valid by (auto simp: sound_reading_def)
  have rv: "rv_rows v = raw_rows disk (rd_markets rd) m" by (rule committed_rows [OF committed])
  have one: "clean_part ax (concat (map (events_of ax) (rv_rows v))) au au3"
    using clean_part_trans [OF audit_noted_clean audit_rows_clean(1) [OF rows]] same by simp
  have ready: "ready_part ax (rv_rows v) au au3"
    using ready_part_trans [OF _ audit_rows_ready [OF rows] _ audit_rows_clean(1) [OF rows], of "[]" au]
      audit_noted_clean [of ax au1 v] same by (simp add: ready_part_def)
  have in3: "last_inside ax au3" using clean_part_inside [OF one Cons.prems(7)] .
  have head: "clean_replay ax disk (rd_markets rd) previous [x] au au3" if "au_failures au3 = []"
    using one ready same committed rv x that
      audit_rows_clean(2) [OF rows _ that] Cons.prems(7) clean_part_inside [OF audit_noted_clean]
    by (auto simp: clean_replay_def rows_of_def all_committed_def)
  show ?case
  proof (cases "au3 = au' \<and> audit_settled au'")
    case True
    then have "clean_replay ax disk (rd_markets rd) previous [x] au au'" using head Cons.prems(6) by simp
    then show ?thesis using True by (metis append_Cons append_Nil)
  next
    case False
    then have tail: "audit_segments ax disk (Some m) ms au3 rd2 = (Inr au', rd')" using after by blast
    have "fst ` set ms \<subseteq> known" using Cons.prems(2) by auto
    from Cons.IH [OF r(1) [OF read'] this Cons.prems(3) tail Cons.prems(5,6) in3]
    obtain used rest where ms: "ms = used @ rest" "rest = [] \<or> audit_settled au'"
      and c: "clean_replay ax disk (rd_markets rd) (Some m) used au3 au'" using markets by auto
    have f3: "au_failures au3 = []"
      using c clean_part_failures [OF _ in3 Cons.prems(6)] by (auto simp: clean_replay_def Let_def)
    have "clean_replay ax disk (rd_markets rd) previous (x # used) au au'"
      using head [OF f3] c x rv clean_part_trans ready_part_trans
      unfolding clean_replay_def Let_def rows_of_def all_committed_def by auto
    then show ?thesis using ms by (metis append_Cons)
  qed
qed

subsection \<open>A reconstruction rests on evidence\<close>

text \<open>
  Verified segments of an interval, without damage for the market, that decide the outcome of a
  paper position by their executed prints alone.
\<close>

definition decided_by ::
    "audit_frame \<Rightarrow> (segment_entry \<Rightarrow> raw_file) \<Rightarrow> (string \<times> string) list
     \<Rightarrow> (segment_entry \<times> tombstone option) list \<Rightarrow> paper \<Rightarrow> bool" where
  "decided_by ax disk markets used p \<longleftrightarrow>
     (let rows = rows_of disk markets used; es = fresh_events [] (concat (map (events_of ax) rows));
          q = fold on_trade (executed ax es) p
      in linked None used \<and> all_committed disk markets used
         \<and> (\<forall>r \<in> set rows. \<not> hides_market ax r) \<and> stale_free ax None es
         \<and> (\<exists>early late. rows = early @ late
              \<and> fresh_print_before ax (last_print None (fresh_events [] (concat (map (events_of ax) early)))))
         \<and> paper_complete q
         \<and> (\<exists>t. pp_exit_ms q = Some t \<and> t \<le> ax_decision ax + sg_expected_hold_max (ax_signal ax) * 60000))"

lemma check_decision_frame [simp]:
  "au_raw_valid (check_decision ax au) = au_raw_valid au" "au_failures (check_decision ax au) = au_failures au"
  "au_position (check_decision ax au) = au_position au"
  by (simp_all add: check_decision_def Let_def)

lemma reconstructed_decided:
  assumes inv: "reader_inv disk known rd" "fst ` set ms \<subseteq> known" "inj_on en_id known"
    and run: "audit_segments ax disk None ms (audit_new whole e p) rd = (Inr au, rd')"
    and rec: "reconstructed ax (check_decision ax au)"
  shows "\<exists>used rest. ms = used @ rest \<and> decided_by ax disk (rd_markets rd) used p"
proof -
  let ?au0 = "audit_new whole e p"
  have start: "au_seen ?au0 = []" "au_last_trade ?au0 = None" "au_position ?au0 = p" "\<not> au_checked ?au0"
    "last_inside ax ?au0" by (simp_all add: audit_new_def last_inside_def)
  have raw: "au_raw_valid au" and none: "au_failures au = []" and ready: "au_ready (check_decision ax au)"
    using rec by (auto simp: reconstructed_def)
  from audit_segments_clean [OF inv run raw none start(5)] obtain used rest where ms: "ms = used @ rest"
    and c: "clean_replay ax disk (rd_markets rd) None used ?au0 au" by blast
  let ?rows = "rows_of disk (rd_markets rd) used"
  let ?es = "fresh_events [] (concat (map (events_of ax) ?rows))"
  have f: "follows ax (concat (map (events_of ax) ?rows)) ?au0 au"
    and rp: "ready_part ax ?rows ?au0 au"
    using c start(5) none by (auto simp: clean_replay_def clean_part_def Let_def)
  have pos: "au_position au = fold on_trade (executed ax ?es) p" and stale: "stale_free ax None ?es"
    and lp: "au_last_trade au = last_print None ?es"
    using f start by (simp_all add: follows_def Let_def)
  have "\<exists>early late. ?rows = early @ late
      \<and> fresh_print_before ax (last_print None (fresh_events [] (concat (map (events_of ax) early))))"
  proof (cases "au_checked au")
    case True
    then have "au_ready au" using ready check_decision_ready(2) [OF True] by simp
    then show ?thesis using rp start True none unfolding ready_part_def by simp
  next
    case False
    then have "fresh_print_before ax (last_print None ?es)"
      using check_decision_ready(1) [OF False ready] lp by simp
    then show ?thesis by (metis append_Nil2)
  qed
  moreover have "\<exists>t. pp_exit_ms (au_position au) = Some t
      \<and> t \<le> ax_decision ax + sg_expected_hold_max (ax_signal ax) * 60000"
    using rec by (auto simp: reconstructed_def split: option.splits)
  ultimately have "decided_by ax disk (rd_markets rd) used p"
    using c stale rec pos unfolding decided_by_def clean_replay_def reconstructed_def Let_def by simp
  then show ?thesis using ms by blast
qed

lemma manifests_sub: "set (fst (manifests_between table a b)) \<subseteq> set table"
  by (auto simp: manifests_between_def Let_def dest: in_set_takeD)

lemma class_named_reason:
  "class_named (el_reason (eligibility cs k d s)) \<noteq> Some LABELER_FALSE_GAP"
  by (simp add: eligibility_def Let_def class_named_def ROOT_CLASSES_def class_name_def)

lemma failure_class_range: "failure_class fs \<noteq> Some LABELER_FALSE_GAP"
  by (simp add: failure_class_def)

lemma classified_false_gap:
  assumes "fst (classify_audit ax vf au) = LABELER_FALSE_GAP"
    and "\<And>t. vf_ineligible vf = Some t \<Longrightarrow> class_named t \<noteq> Some LABELER_FALSE_GAP"
  shows "reconstructed ax au \<and> ax_labelled ax \<and> vf_label_open vf"
  using assms failure_class_range [of "au_failures au"]
  by (auto simp: classify_audit_def Let_def split: if_splits option.splits)

text \<open>C39: c#false_gap_is_evidenced:
  An accusation of the labeler is never a guess. When the audit calls the gap of a stored
  incomplete label false, there are committed segments from the start of the audited interval on,
  each chained to the one before by id and hash without overlap, each verified whole on disk; none
  of their rows loses the market after the decision; the last print before the decision check was
  fresh, no print after the decision came later than the stale limit (acknowledged
  resubscriptions aside), and the plan's paper position, fed with exactly the distinct executed
  prints received from the decision on, is complete with an exit within its horizon.\<close>

theorem false_gap_is_evidenced:
  assumes inv: "reader_inv disk known rd" and table: "fst ` set table \<subseteq> known" and ids: "inj_on en_id known"
    and prospective: "\<And>e. ca_prospective c = Some e \<Longrightarrow> \<exists>cs k d s. e = eligibility cs k d s"
    and run: "audit_candidate st digest stored retention disk table asof c rd = (Inr r, rd')"
    and false_gap: "ar_class r = LABELER_FALSE_GAP"
  shows "\<exists>l used rest p. ca_label c = Some l \<and> \<not> fz_complete l
    \<and> fst (manifests_between table (ax_start (frame_of st retention None asof c))
             (ax_stop (frame_of st retention None asof c))) = used @ rest
    \<and> open_position st \<lparr>dn_id = ca_id c, dn_decision_ms = sn_decision (ca_snapshot c), dn_identity = ca_id c,
         dn_signal = sn_signal (ca_snapshot c)\<rparr> = Inr p
    \<and> decided_by (frame_of st retention None asof c) disk (rd_markets rd) used p"
proof -
  let ?con = "if ca_label c \<noteq> None then None else consumed_cursor digest stored (ca_id c) (ca_snapshot c) asof"
  let ?ax = "frame_of st retention ?con asof c"
  obtain ms truncated where ms: "manifests_between table (ax_start ?ax) (ax_stop ?ax) = (ms, truncated)" by fastforce
  have agree: "\<not> sources_disagree c" using run false_gap
    by (auto simp: audit_candidate_def Let_def)
  obtain p where p: "open_position st \<lparr>dn_id = ca_id c, dn_decision_ms = sn_decision (ca_snapshot c),
      dn_identity = ca_id c, dn_signal = sn_signal (ca_snapshot c)\<rparr> = Inr p"
    using run agree ms by (auto simp: audit_candidate_def Let_def split: sum.splits)
  let ?start = "audit_new (ms \<noteq> [] \<and> \<not> truncated) (map_option el_eligible (ca_prospective c)) p"
  obtain au rd2 where seg: "audit_segments ?ax disk None ms ?start rd = (Inr au, rd2)"
    using run agree ms p
    by (cases "fst (audit_segments ?ax disk None ms ?start rd)"; cases "audit_segments ?ax disk None ms ?start rd")
      (auto simp: audit_candidate_def Let_def split: sum.splits)
  obtain vf where r: "r = audit_verdict ?ax vf c (check_decision ?ax au) ((report_new asof c)\<lparr>ar_segments := length ms\<rparr>)"
    and vf1: "vf_ineligible vf = (case ca_prospective c of None \<Rightarrow> None
        | Some e \<Rightarrow> if el_eligible e then None else Some (el_reason e))"
    and vf2: "vf_label_open vf = (case ca_label c of None \<Rightarrow> False | Some l \<Rightarrow> \<not> fz_complete l)"
    using run agree ms p seg
    by (auto simp: audit_candidate_def Let_def split: sum.splits if_splits)
  have "fst (classify_audit ?ax vf (check_decision ?ax au)) = LABELER_FALSE_GAP"
    using false_gap unfolding r audit_verdict_def Let_def
    by (auto split: if_splits prod.splits)
  moreover have "class_named t \<noteq> Some LABELER_FALSE_GAP" if "vf_ineligible vf = Some t" for t
    using that prospective class_named_reason unfolding vf1 by (auto split: option.splits if_splits)
  ultimately have rec: "reconstructed ?ax (check_decision ?ax au)" and lab: "vf_label_open vf"
    using classified_false_gap by blast+
  then obtain l where l: "ca_label c = Some l" "\<not> fz_complete l" using vf2 by (auto split: option.splits)
  have "fst ` set ms \<subseteq> known" using manifests_sub [of table "ax_start ?ax" "ax_stop ?ax"] ms table by auto
  from reconstructed_decided [OF inv this ids seg rec]
  show ?thesis using l ms p by auto
qed

subsection \<open>Concrete audits\<close>

definition audit_settings :: label_settings where
  "audit_settings = \<lparr>lb_notional = 100, lb_fee_bps = 5, lb_slippage_bps = 2, lb_reserve_bps = 10, lb_stale_ms = 15000,
     lb_tape_max = 1000, lb_max_active = 10\<rparr>"

definition control_row :: "ms \<Rightarrow> tape_row" where
  "control_row t = \<lparr>aw_receipt = t, aw_source = ''control/subscribed'', aw_symbol = ''ALL'', aw_complete = True,
     aw_symbols = [''BTCUSDT''], aw_removed = [], aw_gap_start = None, aw_gap_end = None, aw_reason = None,
     aw_origin = None, aw_prints = []\<rparr>"

definition print_at :: "ms \<Rightarrow> string \<Rightarrow> dec \<Rightarrow> tape_row" where
  "print_at t i price = \<lparr>aw_receipt = t, aw_source = ''ws/publicTrade.BTCUSDT'', aw_symbol = ''BTCUSDT'',
     aw_complete = True, aw_symbols = [], aw_removed = [], aw_gap_start = None, aw_gap_end = None,
     aw_reason = None, aw_origin = None,
     aw_prints = [\<lparr>px_id = i, px_block = False, px_event_ms = t, px_side = Buy, px_price = price, px_size = 10000\<rparr>]\<rparr>"

definition demo_segment :: "string \<Rightarrow> string option \<Rightarrow> tape_row list \<Rightarrow> segment_entry" where
  "demo_segment i previous rows =
     \<lparr>en_id = i, en_sha = i, en_min = aw_receipt (hd rows), en_max = aw_receipt (last rows), en_rows = length rows,
      en_previous = map_option (\<lambda>p. (p, p)) previous\<rparr>"

definition demo_file :: "string \<Rightarrow> string option \<Rightarrow> tape_row list \<Rightarrow> raw_file" where
  "demo_file i previous rows =
     Raw \<lparr>ct_size = 10, ct_digest = i, ct_sidecar = demo_segment i previous rows, ct_rows = rows, ct_damage = None\<rparr>"

definition early_rows :: "tape_row list" where
  "early_rows = [control_row 50000, print_at 55000 ''a'' 99, print_at 61000 ''b'' 100]"

definition late_rows :: "tape_row list" where "late_rows = [print_at 62000 ''c'' 111]"

definition demo_table :: "tape_row list \<Rightarrow> (segment_entry \<times> tombstone option) list" where
  "demo_table rows = [(demo_segment ''s1'' None early_rows, None), (demo_segment ''s2'' (Some ''s1'') rows, None)]"

definition demo_disk :: "tape_row list \<Rightarrow> segment_entry \<Rightarrow> raw_file" where
  "demo_disk rows m = (if en_id m = ''s1'' then demo_file ''s1'' None early_rows else demo_file ''s2'' (Some ''s1'') rows)"

definition demo_candidate :: candidate where
  "demo_candidate = \<lparr>ca_id = ''n'', ca_snapshot = \<lparr>sn_decision = 60000, sn_signal = sample_signal\<rparr>, ca_source = Bybit,
     ca_label = Some \<lparr>fz_complete = False, fz_exit_ms = None, fz_net_r = None, fz_source = None\<rparr>,
     ca_label_available = None, ca_prospective = None\<rparr>"

definition demo_audit :: "tape_row list \<Rightarrow> (py_error + audit_report) \<times> reader" where
  "demo_audit rows = audit_candidate audit_settings (\<lambda>_. []) None 0 (demo_disk rows) (demo_table rows) 200000
     demo_candidate (reader_new [(''bybit'', ''BTCUSDT'')] 10 100 1000 Map.empty)"

definition demo_frame :: audit_frame where "demo_frame = frame_of audit_settings 0 None 200000 demo_candidate"

definition demo_reader :: reader where "demo_reader = reader_new [(''bybit'', ''BTCUSDT'')] 10 100 1000 Map.empty"

definition demo_position :: paper where
  "demo_position = (paper_new (sample_signal\<lparr>sg_created_ms := 60000\<rparr>) 1)
     \<lparr>pp_fee_bps := 5, pp_slippage_bps := 2, pp_horizon_ms := sg_expected_hold_max sample_signal * 60000\<rparr>"

lemma audit_demo_opens:
  "open_position audit_settings \<lparr>dn_id = ca_id demo_candidate, dn_decision_ms = sn_decision (ca_snapshot demo_candidate),
     dn_identity = ca_id demo_candidate, dn_signal = sn_signal (ca_snapshot demo_candidate)\<rparr> = Inr demo_position"
  by (simp add: open_position_def demo_candidate_def audit_settings_def demo_position_def paper_post_init_def
      paper_new_def sample_signal_def)

text \<open>An incomplete label whose replay is settled is called false.\<close>

lemma settled_false_gap:
  assumes c: "\<not> sources_disagree c" "ca_prospective c = None" "ca_label c = Some l" "\<not> fz_complete l"
    and p: "open_position st \<lparr>dn_id = ca_id c, dn_decision_ms = sn_decision (ca_snapshot c), dn_identity = ca_id c,
         dn_signal = sn_signal (ca_snapshot c)\<rparr> = Inr p"
    and ax: "ax = frame_of st retention None asof c"
    and ms: "manifests_between table (ax_start ax) (ax_stop ax) = (ms, False)" "ms \<noteq> []"
    and run: "audit_segments ax disk None ms (audit_new True None p) rd = (Inr au, rd')"
    and au: "reconstructed ax (check_decision ax au)" "\<not> au_software_fault (check_decision ax au)"
      "\<not> isl (outcome (au_position au))"
  shows "\<exists>r. audit_candidate st digest stored retention disk table asof c rd = (Inr r, rd') \<and> ar_class r = LABELER_FALSE_GAP"
proof -
  have ready: "au_ready (check_decision ax au)" and none: "au_failures (check_decision ax au) = []"
    using au(1) unfolding reconstructed_def by blast+
  have labelled: "ax_labelled ax" using c by (simp add: ax frame_of_def Let_def)
  have verdict: "fst (classify_audit ax vf (check_decision ax au)) = LABELER_FALSE_GAP"
    if "vf_ineligible vf = None" "vf_label_open vf" for vf
    using that ready none labelled au(1) by (simp add: classify_audit_def Let_def)
  have open_class: "ar_class (audit_verdict ax vf c (check_decision ax au) r) = LABELER_FALSE_GAP"
    if "vf_ineligible vf = None" "vf_label_open vf" for vf r
    using verdict [OF that] c au(2)
    by (cases "classify_audit ax vf (check_decision ax au)") (simp add: audit_verdict_def stored_complete_def Let_def)
  obtain o' where o': "outcome (au_position au) = Inr o'" using au(3) by (cases "outcome (au_position au)") auto
  show ?thesis
    using c p ms run o' open_class unfolding audit_candidate_def Let_def ax by simp
qed

lemma demo_audit_false_gap:
  assumes "manifests_between (demo_table rows) (ax_start demo_frame) (ax_stop demo_frame) = (demo_table rows, False)"
    and "case audit_segments demo_frame (demo_disk rows) None (demo_table rows) (audit_new True None demo_position) demo_reader of
           (Inl _, _) \<Rightarrow> False
         | (Inr au, _) \<Rightarrow> reconstructed demo_frame (check_decision demo_frame au)
             \<and> \<not> au_software_fault (check_decision demo_frame au) \<and> \<not> isl (outcome (au_position au))"
  shows "\<exists>r rd. demo_audit rows = (Inr r, rd) \<and> ar_class r = LABELER_FALSE_GAP"
proof -
  obtain au rd where run: "audit_segments demo_frame (demo_disk rows) None (demo_table rows)
      (audit_new True None demo_position) demo_reader = (Inr au, rd)"
    and au: "reconstructed demo_frame (check_decision demo_frame au)"
      "\<not> au_software_fault (check_decision demo_frame au)" "\<not> isl (outcome (au_position au))"
    using assms(2) by (auto split: prod.splits sum.splits)
  have "\<not> sources_disagree demo_candidate" "ca_prospective demo_candidate = None"
    "ca_label demo_candidate = Some \<lparr>fz_complete = False, fz_exit_ms = None, fz_net_r = None, fz_source = None\<rparr>"
    by (simp_all add: sources_disagree_def demo_candidate_def sample_signal_def)
  from settled_false_gap [OF this _ audit_demo_opens demo_frame_def assms(1) _ run au]
  show ?thesis by (simp add: demo_audit_def demo_reader_def demo_table_def) blast
qed

lemma demo_late:
  "manifests_between (demo_table late_rows) (ax_start demo_frame) (ax_stop demo_frame) = (demo_table late_rows, False)"
  by (simp add: manifests_between_def demo_table_def demo_frame_def frame_of_def demo_segment_def early_rows_def
      late_rows_def control_row_def print_at_def demo_candidate_def sample_signal_def audit_settings_def)

lemma demo_late_run:
  "case audit_segments demo_frame (demo_disk late_rows) None (demo_table late_rows) (audit_new True None demo_position) demo_reader of
     (Inl _, _) \<Rightarrow> False
   | (Inr au, _) \<Rightarrow> reconstructed demo_frame (check_decision demo_frame au)
       \<and> \<not> au_software_fault (check_decision demo_frame au) \<and> \<not> isl (outcome (au_position au))"
  by code_simp


lemma false_gap_is_evidenced_witness:
  "\<exists>used rest. demo_table late_rows = used @ rest
     \<and> decided_by demo_frame (demo_disk late_rows) [(''bybit'', ''BTCUSDT'')] used demo_position"
proof -
  let ?t = "demo_table late_rows"
  obtain r rd where run: "demo_audit late_rows = (Inr r, rd)" and k: "ar_class r = LABELER_FALSE_GAP"
    using demo_audit_false_gap [OF demo_late demo_late_run] by blast
  have ids: "inj_on en_id (fst ` set ?t)" by (simp add: demo_table_def demo_segment_def)
  have none: "ca_prospective demo_candidate = Some e \<Longrightarrow> \<exists>cs k d s. e = eligibility cs k d s" for e
    by (simp add: demo_candidate_def)
  have "\<exists>l used rest p. ca_label demo_candidate = Some l \<and> \<not> fz_complete l
    \<and> fst (manifests_between ?t (ax_start demo_frame) (ax_stop demo_frame)) = used @ rest
    \<and> Inr demo_position = Inr p
    \<and> decided_by demo_frame (demo_disk late_rows) (rd_markets demo_reader) used p"
    using false_gap_is_evidenced [OF reader_inv_new order_refl ids none run [unfolded demo_audit_def] k]
    unfolding audit_demo_opens demo_frame_def [symmetric] demo_reader_def [symmetric] by simp
  then show ?thesis unfolding demo_late by (auto simp: demo_reader_def reader_new_def)
qed

text \<open>
  An acknowledgement resets the clock of the stale test. A market that was silent for longer than
  the limit, but was acknowledged again in between without a gap row (the streams record none while
  the recorder is unhealthy), is incomplete for the labeler, which the audit then accuses.
\<close>

definition silent_rows :: "tape_row list" where
  "silent_rows = [control_row 61500, print_at 90000 ''c'' 111]"

definition silent_feed :: "feed_row list" where
  "silent_feed =
     (let prints = (\<lambda>t i p. \<lparr>fw_receipt = t, fw_venue = None, fw_symbol = ''BTCUSDT'', fw_complete = True,
            fw_feed = FeedPrints [\<lparr>px_id = i, px_block = False, px_event_ms = t, px_side = Buy, px_price = p, px_size = 10000\<rparr>]\<rparr>);
          acks = (\<lambda>t. \<lparr>fw_receipt = t, fw_venue = None, fw_symbol = ''ALL'', fw_complete = True,
            fw_feed = FeedSubscribed [''BTCUSDT'']\<rparr>)
      in [acks 50000, prints 55000 ''a'' 99, prints 61000 ''b'' 100, acks 61500, prints 90000 ''c'' 111])"

lemma demo_silent:
  "manifests_between (demo_table silent_rows) (ax_start demo_frame) (ax_stop demo_frame) = (demo_table silent_rows, False)"
  by (simp add: manifests_between_def demo_table_def demo_frame_def frame_of_def demo_segment_def early_rows_def
      silent_rows_def control_row_def print_at_def demo_candidate_def sample_signal_def audit_settings_def)

lemma demo_silent_run:
  "case audit_segments demo_frame (demo_disk silent_rows) None (demo_table silent_rows) (audit_new True None demo_position) demo_reader of
     (Inl _, _) \<Rightarrow> False
   | (Inr au, _) \<Rightarrow> reconstructed demo_frame (check_decision demo_frame au)
       \<and> \<not> au_software_fault (check_decision demo_frame au) \<and> \<not> isl (outcome (au_position au))"
  by code_simp

lemma demo_silent_label:
  "case label_pass audit_settings [\<lparr>dn_id = ''n'', dn_decision_ms = 60000, dn_identity = ''n'', dn_signal = sample_signal\<rparr>]
       0 0 False None silent_feed \<lparr>sr_labels = [], sr_checkpoint = None\<rparr> of
     Inl _ \<Rightarrow> False
   | Inr s \<Rightarrow> (case map_of (sr_labels s) ''n'' of None \<Rightarrow> False
             | Some l \<Rightarrow> \<not> ol_complete l \<and> ol_gaps l = [''trade-feed stale interval''])"
  by code_simp

lemma resubscription_hides_silence:
  "(\<exists>r rd. demo_audit silent_rows = (Inr r, rd) \<and> ar_class r = LABELER_FALSE_GAP)
   \<and> (case label_pass audit_settings [\<lparr>dn_id = ''n'', dn_decision_ms = 60000, dn_identity = ''n'', dn_signal = sample_signal\<rparr>]
         0 0 False None silent_feed \<lparr>sr_labels = [], sr_checkpoint = None\<rparr> of
       Inl _ \<Rightarrow> False
     | Inr s \<Rightarrow> (case map_of (sr_labels s) ''n'' of None \<Rightarrow> False
               | Some l \<Rightarrow> \<not> ol_complete l \<and> ol_gaps l = [''trade-feed stale interval'']))"
  using demo_audit_false_gap [OF demo_silent demo_silent_run] demo_silent_label by blast

subsection \<open>The audited interval\<close>

text \<open>
  Only fifteen minutes before the decision are read. Where nothing was pruned yet, a subscription
  older than that is invisible, and the decision counts as not subscribed whatever was printed.
\<close>

definition unsubscribed :: "audit_frame \<Rightarrow> audit \<Rightarrow> bool" where
  "unsubscribed ax au \<longleftrightarrow> au_subscription au = None \<and> \<not> au_ready au"

lemma audit_print_unsubscribed:
  "ax_retention ax = 0 \<Longrightarrow> unsubscribed ax au \<Longrightarrow> audit_print ax t x au = Inr au' \<Longrightarrow> unsubscribed ax au'"
  by (auto simp: unsubscribed_def audit_print_def audit_first_def audit_stale_def Let_def
      split: if_splits sum.splits option.splits)

lemma audit_prints_unsubscribed:
  "ax_retention ax = 0 \<Longrightarrow> unsubscribed ax au \<Longrightarrow> audit_prints ax t xs au = Inr au' \<Longrightarrow> unsubscribed ax au'"
  by (induction xs arbitrary: au) (auto split: sum.splits dest: audit_print_unsubscribed)

lemma check_decision_unsubscribed: "unsubscribed ax au \<Longrightarrow> unsubscribed ax (check_decision ax au)"
  by (simp add: unsubscribed_def check_decision_def Let_def)

lemma audit_row_unsubscribed:
  assumes ret: "ax_retention ax = 0" and u: "unsubscribed ax au" and run: "audit_row ax r au = Inr au'"
    and r: "\<And>topic. watched ax r = Some topic \<Longrightarrow> \<not> row_subscribes ax topic r"
  shows "unsubscribed ax au'"
proof -
  let ?au1 = "if ax_decision ax \<le> aw_receipt r then check_decision ax au else au"
  have u1: "unsubscribed ax ?au1" using u check_decision_unsubscribed by simp
  show ?thesis
  proof (cases "watched ax r")
    case None
    then have "au' = au \<or> au' = ?au1"
      using run by (auto simp: audit_row_def watched_def Let_def split: if_splits sum.splits prod.splits)
    then show ?thesis using u u1 by auto
  next
    case (Some topic)
    have "unsubscribed ax (audit_lost ax topic r ?au1)"
      using u1 by (simp add: unsubscribed_def audit_lost_def drop_subscription_def)
    moreover have "audit_subscribed ax topic r ?au1 = ?au1" using r [OF Some] by (simp add: audit_subscribed_def)
    ultimately show ?thesis
      using run Some audit_prints_unsubscribed [OF ret, of "audit_lost ax topic r ?au1"]
      by (auto simp: audit_row_def watched_def Let_def split: if_splits sum.splits prod.splits)
  qed
qed

lemma audit_rows_unsubscribed:
  assumes "ax_retention ax = 0" and "unsubscribed ax au" and "audit_rows ax rs au = Inr au'"
    and "\<And>r topic. r \<in> set rs \<Longrightarrow> watched ax r = Some topic \<Longrightarrow> \<not> row_subscribes ax topic r"
  shows "unsubscribed ax au'"
  using assms
proof (induction rs arbitrary: au)
  case (Cons r rs)
  then obtain au1 where one: "audit_row ax r au = Inr au1" and rest: "audit_rows ax rs au1 = Inr au'"
    by (auto split: sum.splits)
  have "unsubscribed ax au1" using audit_row_unsubscribed [OF Cons.prems(1,2) one] Cons.prems(4) by simp
  then show ?case using Cons.IH [OF Cons.prems(1) _ rest] Cons.prems(4) by simp
qed simp

lemma audit_segments_unsubscribed:
  assumes "ax_retention ax = 0" and "unsubscribed ax au"
    and "reader_inv disk known rd" and "fst ` set ms \<subseteq> known" and "inj_on en_id known"
    and "audit_segments ax disk previous ms au rd = (Inr au', rd')"
    and "\<And>r topic. r \<in> set (rows_of disk (rd_markets rd) ms) \<Longrightarrow> watched ax r = Some topic \<Longrightarrow> \<not> row_subscribes ax topic r"
  shows "unsubscribed ax au'"
  using assms
proof (induction ms arbitrary: previous au rd)
  case (Cons x ms)
  obtain m tomb where x: "x = (m, tomb)" by (cases x)
  obtain au1 rd1 where chain: "audit_chain ax previous m (au, rd) = (au1, rd1)" by fastforce
  obtain v rd2 where read: "forensic_read disk m tomb rd1 = (v, rd2)" by fastforce
  have u2: "unsubscribed ax (audit_noted v au1)"
    using chain Cons.prems(2)
    by (auto simp: audit_chain_def unsubscribed_def audit_noted_def drop_subscription_def Let_def
        split: option.splits if_splits)
  have rd1: "rd1 = rd \<or> rd1 = reader_failure m rd"
    using chain by (auto simp: audit_chain_def Let_def split: option.splits if_splits)
  then have inv1: "reader_inv disk known rd1" and mk1: "rd_markets rd1 = rd_markets rd"
    using Cons.prems(3) reader_failure_inv by (auto simp: reader_failure_def)
  have m: "m \<in> known" using Cons.prems(4) x by auto
  note s = forensic_read_inv [OF inv1 m Cons.prems(5) read]
  have rest: "fst ` set ms \<subseteq> known" using Cons.prems(4) by auto
  have quiet: "r \<in> set (rows_of disk (rd_markets rd2) ms) \<Longrightarrow> watched ax r = Some topic \<Longrightarrow> \<not> row_subscribes ax topic r"
    for r topic using Cons.prems(7) x s(3) mk1 by (simp add: rows_of_def)
  show ?case
  proof (cases "rv_valid v")
    case False
    have "unsubscribed ax (audit_unread ax m tomb v (audit_noted v au1))"
      using u2 by (auto simp: audit_unread_def unsubscribed_def drop_subscription_def Let_def note_failure_def
          split: option.splits)
    then show ?thesis
      using Cons.IH [OF Cons.prems(1) _ s(1) rest Cons.prems(5) _ quiet] Cons.prems(6) False x chain read
      by (simp add: Let_def)
  next
    case True
    obtain au3 where rows: "audit_rows ax (rv_rows v) (audit_noted v au1) = Inr au3"
      using Cons.prems(6) True x chain read by (auto simp: Let_def split: sum.splits)
    have "rv_rows v = raw_rows disk (rd_markets rd) m"
      using s(2,3) True mk1 committed_rows by (auto simp: sound_reading_def)
    then have u3: "unsubscribed ax au3"
      using audit_rows_unsubscribed [OF Cons.prems(1) u2 rows] Cons.prems(7) x by (auto simp: rows_of_def)
    show ?thesis
      using Cons.IH [OF Cons.prems(1) u3 s(1) rest Cons.prems(5) _ quiet] u3 Cons.prems(6) True x chain read rows
      by (auto simp: Let_def split: if_splits)
  qed
qed simp

lemma old_subscription_is_unseen:
  assumes "ax_retention ax = 0"
    and "reader_inv disk known rd" and "fst ` set ms \<subseteq> known" and "inj_on en_id known"
    and "audit_segments ax disk None ms (audit_new whole e p) rd = (Inr au, rd')"
    and "\<And>r topic. r \<in> set (rows_of disk (rd_markets rd) ms) \<Longrightarrow> watched ax r = Some topic \<Longrightarrow> \<not> row_subscribes ax topic r"
  shows "\<not> au_ready (check_decision ax au) \<and> \<not> reconstructed ax (check_decision ax au)"
proof -
  have "unsubscribed ax (audit_new whole e p)" by (simp add: unsubscribed_def audit_new_def)
  from check_decision_unsubscribed [OF audit_segments_unsubscribed [OF assms(1) this assms(2-5)]] assms(6)
  show ?thesis by (auto simp: unsubscribed_def reconstructed_def)
qed
end
