(* ===== verification/Confirmation.thy ===== *)
theory Confirmation
  imports Features Tape Horizons Recorder "HOL-Library.List_Lexorder" "HOL-Library.Char_ord"
begin

text \<open>
  One visit of a live plan by the confirmation engine, the body of the loop of
  \<^verbatim>\<open>ConfirmationEngine.evaluate\<close> in \<^verbatim>\<open>src/bybit_flow/scanner_confirmation.py\<close>:
  which plans are passed over, when one expires, waits, is decided, and when a card is sent. The
  book and the tape are those of the market data theories; a book can change while a worker runs,
  so each reading of it has its own copy. What the scoring, flow, quality and risk modules conclude
  is an assessment, an argument of the visit about which nothing is assumed, as are the answers of
  the macro pause, of the recorder and of the notifier. Events of the funnel are omitted. Only
  what a visit saves outlives it: the next one starts from the stored row.
\<close>

subsection \<open>Plans and what a visit sees\<close>

datatype quality_policy = NoQuality | V21 | V211 | V22

record live_plan =
  su_signal :: signal
  su_quality :: quality_policy
  su_gating :: bool
  su_gated :: bool
  su_scored :: bool
  su_deferred :: "ms option"
  su_window_ms :: "ms option"
  su_window_end :: "ms option"
  su_flow_mode :: string
  su_candidate20 :: bool
  su_staged :: bool
  su_decision :: json

record market_context =
  cx_asof :: ms
  cx_m15 :: "candle list"
  cx_funding :: "dec option"
  cx_ticker_ms :: ms

record engine_settings =
  es_book_stale :: ms
  es_trade_stale :: ms
  es_scan_seconds :: ms
  es_max_spread_bps :: dec

record visit =
  vt_now :: ms
  vt_exchange :: source
  vt_reconciling :: bool
  vt_legacy :: bool
  vt_macro_pause :: bool
  vt_recorder :: bool
  vt_connected :: bool
  vt_selected :: bool
  vt_context :: "market_context option"
  vt_cached :: "candle list option"
  vt_tape :: "tape option"
  vt_book :: "book option"
  vt_refreshed :: bool
  vt_flow_book :: book
  vt_priced_book :: book
  vt_same_epoch :: bool
  vt_send_ms :: ms
  vt_send_book :: book
  vt_send_recorder :: bool
  vt_answer :: string

text \<open>The conclusions of the modules the engine calls.\<close>

record entry_view =
  en_delivery_ready :: bool
  en_acceptable :: bool
  en_not_chased :: bool
  en_position :: string

record assessment =
  as_entry :: entry_view
  as_resumed_flow :: bool
  as_flow_confirmed :: bool
  as_spread_reasons :: "string list"
  as_major_event :: bool
  as_risk_reasons :: "string list"
  as_substituted :: bool
  as_low_trust :: bool
  as_sequence_valid :: bool
  as_intraday :: "(bool \<times> string list \<times> string) option"
  as_augmented :: "bool \<times> string"
  as_absorption :: bool
  as_blocked :: "string option"
  as_sweep_family :: bool
  as_participation :: bool
  as_inside_noise :: bool
  as_shock :: bool
  as_quality :: "string list \<Rightarrow> string list"
  as_v8_blocks :: "string list"
  as_decorate_failed :: bool
  as_gate_failed :: bool
  as_scored :: bool
  as_ml_gates :: "string list"
  as_decision :: json

datatype pass_effect =
    Save live_plan string
  | Sent string
  | Rejected "string list"

type_synonym pass = "pass_effect list"

definition has_tag :: "string \<Rightarrow> live_plan \<Rightarrow> bool" where
  "has_tag tag s \<longleftrightarrow> contains tag (sg_version (su_signal s))"

abbreviation new_quality :: "live_plan \<Rightarrow> bool" where
  "new_quality s \<equiv> su_quality s \<in> {V211, V22}"

abbreviation production :: "live_plan \<Rightarrow> bool" where
  "production s \<equiv> has_tag '':production-v2'' s"

abbreviation upd_signal :: "(signal \<Rightarrow> signal) \<Rightarrow> live_plan \<Rightarrow> live_plan" where
  "upd_signal f s \<equiv> s\<lparr>su_signal := f (su_signal s)\<rparr>"

definition with_state :: "sig_state \<Rightarrow> live_plan \<Rightarrow> live_plan" where
  "with_state st s = upd_signal (\<lambda>g. g\<lparr>sg_state := st\<rparr>) s"

subsection \<open>Readiness to enter\<close>

definition entry_ready :: "engine_settings \<Rightarrow> entry_view \<Rightarrow> live_plan \<Rightarrow> book \<Rightarrow> ms \<Rightarrow> bool" where
  "entry_ready es en s bk now \<longleftrightarrow>
     (let g = su_signal s in
      if su_flow_mode s = ''LOCAL_STAGED_REVERSAL'' \<and> \<not> en_delivery_ready en then False
      else if new_quality s then en_acceptable en
      else if min (sg_expires_ms g) (or_ms (sg_trigger_expires_ms g) (sg_expires_ms g)) \<le> now then False
      else if \<not> book_fresh bk now (es_book_stale es) then False
      else if su_quality s = V21 then en_not_chased en
      else en_position en \<in> {''IDEAL_ENTRY'', ''ACCEPTABLE_ENTRY''})"

text \<open>The tests that end the life of a plan before its entry.\<close>

definition entry_over :: "ms \<Rightarrow> live_plan \<Rightarrow> bool" where
  "entry_over now s \<longleftrightarrow>
     (let g = su_signal s in
      sg_expires_ms g \<le> now
      \<or> (production s \<and> (case sg_trigger_expires_ms g of None \<Rightarrow> False | Some t \<Rightarrow> t \<le> now))
      \<or> (\<not> production s \<and> (case su_window_ms s of None \<Rightarrow> False | Some w \<Rightarrow> w < 900000)
         \<and> (case su_window_end s of None \<Rightarrow> now | Some e \<Rightarrow> e) + 120000 < now))"

subsection \<open>The execution window\<close>

definition window_of :: "live_plan \<Rightarrow> ms" where
  "window_of s = (case su_window_ms s of None \<Rightarrow> 900000 | Some w \<Rightarrow> w)"

definition window_close :: "ms \<Rightarrow> ms \<Rightarrow> live_plan \<Rightarrow> ms" where
  "window_close now candle_end s =
     (if production s \<and> \<not> su_scored s \<and> window_of s < 900000 then now div 60000 * 60000
      else if window_of s < 900000 then (case su_window_end s of None \<Rightarrow> candle_end | Some e \<Rightarrow> e)
      else candle_end)"

datatype coverage_check =
    RecorderUp | FeedUp | BookCurrent | WindowRetained | TradeCurrent | CandleCurrent | WindowCurrent | ContextCurrent

definition check_passed ::
    "engine_settings \<Rightarrow> visit \<Rightarrow> live_plan \<Rightarrow> market_context \<Rightarrow> tape \<Rightarrow> book \<Rightarrow> ms \<Rightarrow> ms \<Rightarrow> ms \<Rightarrow> coverage_check \<Rightarrow> bool" where
  "check_passed es v s c tp bk candle_end stop width k =
     (let now = vt_now v in
      case k of
        RecorderUp \<Rightarrow> vt_recorder v
      | FeedUp \<Rightarrow> vt_connected v
      | BookCurrent \<Rightarrow> book_fresh bk now (es_book_stale es)
      | WindowRetained \<Rightarrow> 0 < tp_coverage_start tp \<and> tp_coverage_start tp \<le> stop - window_of s
      | TradeCurrent \<Rightarrow> tape_fresh (es_trade_stale es) now tp
      | CandleCurrent \<Rightarrow> 0 \<le> now - candle_end \<and> now - candle_end \<le> width + 60000
      | WindowCurrent \<Rightarrow> 0 \<le> now - stop \<and> now - stop \<le> (if window_of s < 900000 then 120000 else 960000)
      | ContextCurrent \<Rightarrow> 0 \<le> now - cx_asof c \<and> now - cx_asof c \<le> es_scan_seconds es * 1000 + 60000)"

definition ALL_CHECKS :: "coverage_check list" where
  "ALL_CHECKS =
     [RecorderUp, FeedUp, BookCurrent, WindowRetained, TradeCurrent, CandleCurrent, WindowCurrent, ContextCurrent]"

text \<open>\<^verbatim>\<open>coverage.record\<close>: whether the tape can still fill the window before the entry closes.\<close>

definition coverage_readiness :: "tape option \<Rightarrow> live_plan \<Rightarrow> ms \<Rightarrow> ms \<Rightarrow> string" where
  "coverage_readiness tape s start stop =
     (let g = su_signal s; expiry = or_ms (sg_trigger_expires_ms g) (sg_expires_ms g) in
      case tape of
        None \<Rightarrow> ''EXECUTION_COVERAGE_NEVER_BECAME_COMPLETE''
      | Some tp \<Rightarrow>
          if (tp_coverage_start tp + stop - start + 59999) div 60000 * 60000 < expiry
          then ''WAITING_FOR_FLOW_WARMUP'' else ''EXECUTION_COVERAGE_NEVER_BECAME_COMPLETE'')"

subsection \<open>Sending\<close>

definition alerted :: "string \<Rightarrow> string \<Rightarrow> live_plan \<Rightarrow> pass" where
  "alerted answer reason s =
     Sent answer # (if answer = ''sent'' then [Save (with_state ALERTED s) reason] else [])"

definition send_card :: "engine_settings \<Rightarrow> visit \<Rightarrow> assessment \<Rightarrow> live_plan \<Rightarrow> pass" where
  "send_card es v a s =
     (if entry_ready es (as_entry a) s (vt_send_book v) (vt_send_ms v)
      then alerted (vt_answer v) ''research card delivered; no trade executed'' s else [])"

text \<open>A plan from before the cutover may only finish a deferred delivery.\<close>

definition legacy_visit :: "engine_settings \<Rightarrow> visit \<Rightarrow> assessment \<Rightarrow> live_plan \<Rightarrow> pass" where
  "legacy_visit es v a s =
     (let g = su_signal s in
      if sg_state g = CONFIRMED \<and> sg_gates g = [] then
        (case (if sg_source g = vt_exchange v then vt_book v else None) of
           None \<Rightarrow> []
         | Some bk \<Rightarrow>
             if book_fresh bk (vt_now v) (es_book_stale es) \<and> vt_recorder v
                \<and> entry_ready es (as_entry a) s bk (vt_now v) \<and> \<not> vt_macro_pause v
             then alerted (vt_answer v) ''Original confirmed decision delivered after cutover'' s else [])
      else [])"

definition confirmed_visit :: "engine_settings \<Rightarrow> visit \<Rightarrow> assessment \<Rightarrow> ms \<Rightarrow> live_plan \<Rightarrow> pass" where
  "confirmed_visit es v a stop s =
     (if sg_horizon_profile (su_signal s) = EXTENDED_SWING then []
      else if or_ms (su_deferred s) 0 \<noteq> 0 \<and> (stop \<le> or_ms (su_deferred s) 0 \<or> \<not> as_resumed_flow a) then []
      else send_card es v a s)"

subsection \<open>The first decision\<close>

text \<open>Deadlines that generation left open are fixed once.\<close>

definition fix_deadlines :: "ms \<Rightarrow> ms \<Rightarrow> live_plan \<Rightarrow> live_plan" where
  "fix_deadlines now stop s =
     (let g = su_signal s;
          g1 = (if sg_trigger_expires_ms g = None
                then g\<lparr>sg_trigger_expires_ms := Some (stop + (if window_of s < 900000 then 120000 else 900000))\<rparr> else g);
          g2 = (if sg_holding_deadline_ms g1 = None
                then g1\<lparr>sg_holding_deadline_ms := Some (now + sg_expected_hold_max g1 * 60000)\<rparr> else g1);
          g3 = (if sg_primary_tracking_deadline g2 = None \<and> sg_horizon_profile g2 \<noteq> LEGACY
                then g2\<lparr>sg_primary_tracking_deadline := sg_holding_deadline_ms g2\<rparr> else g2)
      in s\<lparr>su_signal := g3\<rparr>)"

definition outside_zone :: "dec option \<Rightarrow> signal \<Rightarrow> bool" where
  "outside_zone mid g \<longleftrightarrow>
     (case mid of None \<Rightarrow> True | Some m \<Rightarrow> \<not> (fst (sg_zone g) \<le> m \<and> m \<le> snd (sg_zone g)))"

definition funding_gates :: "ms \<Rightarrow> market_context \<Rightarrow> signal \<Rightarrow> string list" where
  "funding_gates now c g =
     (if cx_funding c = None \<or> \<not> (0 \<le> now - cx_ticker_ms c \<and> now - cx_ticker_ms c \<le> 1200000)
      then [''derivatives ticker unavailable or stale''] else [])
     @ (case cx_funding c of None \<Rightarrow> []
        | Some r \<Rightarrow> if (if sg_direction g = LONG then r else - r) > 1 / 1000
                    then [''extreme same-direction funding crowding''] else [])"

text \<open>The gates up to the profile of the plan; a plan without its trigger bar raises.\<close>

definition market_gates ::
    "engine_settings \<Rightarrow> visit \<Rightarrow> assessment \<Rightarrow> market_context \<Rightarrow> dec option \<Rightarrow> dec \<Rightarrow> ms \<Rightarrow> live_plan
     \<Rightarrow> py_error + string list" where
  "market_gates es v a c mid spread stop s =
     (let g = su_signal s; now = vt_now v; modern = new_quality s in
      case ev_trigger_bar_end (sg_evidence g) of
        None \<Rightarrow> Inl KeyError
      | Some trigger \<Rightarrow> Inr (
          as_spread_reasons a
          @ (if \<not> as_flow_confirmed a \<and> \<not> production s then [''executed order flow did not confirm family trigger''] else [])
          @ (if now - stop > 900000 \<and> \<not> modern then [''execution trigger expired''] else [])
          @ (if stop < trigger then [''execution confirmation predates setup''] else [])
          @ (if outside_zone mid g \<and> \<not> modern then [''current price outside planned entry zone''] else [])
          @ (if spread > es_max_spread_bps es then [''current spread exceeds gate''] else [])
          @ funding_gates now c g
          @ (if as_major_event a then [''known major asset event''] else [])
          @ as_risk_reasons a
          @ (if has_tag '':flow-quality-v1'' s \<and> as_low_trust a \<and> \<not> as_substituted a
                \<and> \<not> (su_staged s \<and> as_sequence_valid a)
             then [''LOW_INFORMATION_EXECUTED_FLOW''] else [])))"

text \<open>Whether the flow confirms the family, with the mode and the gates of that judgement.\<close>

definition flow_judgement :: "assessment \<Rightarrow> live_plan \<Rightarrow> bool \<times> string \<times> string list" where
  "flow_judgement a s =
     (let mode0 = (if has_tag '':cross-venue-flow-substitution-v1'' s \<and> as_substituted a
                   then ''CROSS_VENUE_SUBSTITUTION'' else ''NONE'')
      in if sg_horizon_profile (su_signal s) = LEGACY then (as_flow_confirmed a, mode0, [])
         else if production s then
           (case as_intraday a of
              Some (passed, codes, mode) \<Rightarrow> (passed, mode, codes)
            | None \<Rightarrow>
                let ok0 = (as_flow_confirmed a \<or> as_substituted a);
                    (ok, mode1) = (if su_staged s
                      then (fst (as_augmented a),
                            if snd (as_augmented a) = ''LOCAL_STAGED_REVERSAL'' then ''LOCAL_STAGED_REVERSAL'' else mode0)
                      else (ok0, mode0));
                    mode2 = (if ok \<and> mode1 = ''NONE''
                             then (if as_absorption a then ''LOCAL_GENUINE_ABSORPTION'' else ''LOCAL_TRUSTED_FLOW'')
                             else mode1)
                in (ok, mode2,
                    (if ok then [] else [''executed order flow did not confirm family trigger''])
                    @ (case as_blocked a of None \<Rightarrow> [] | Some r \<Rightarrow> [r])))
         else if has_tag '':autonomy-v1'' s then
           (as_flow_confirmed a, mode0,
            (case as_blocked a of None \<Rightarrow> [] | Some r \<Rightarrow> [r])
            @ (if as_sweep_family a \<and> (\<not> as_flow_confirmed a \<or> \<not> as_participation a)
               then [''UNCONFIRMED_LIQUIDITY_SWEEP''] else []))
         else (as_flow_confirmed a, mode0, []))"

definition execution_gates :: "assessment \<Rightarrow> live_plan \<Rightarrow> string list" where
  "execution_gates a s =
     (if sg_horizon_profile (su_signal s) = LEGACY then []
      else (if as_inside_noise a then [''stop is inside half the observed execution-bar noise''] else [])
        @ (if as_shock a then [''volatility shock; execution assumptions require requalification''] else []))"

text \<open>
  \<^verbatim>\<open>apply_trade_quality\<close>: the reasons of the quality policy join the gates. The current policy scores the
  plan and takes the score back when a gate is left, so that the next visit may decide again.
\<close>

definition apply_quality :: "assessment \<Rightarrow> live_plan \<Rightarrow> live_plan" where
  "apply_quality a s =
     (let g = su_signal s; reasons = as_quality a (sg_gates g);
          gates = (if su_quality s \<noteq> V22 \<and> reasons = [] then sg_gates g else sort (remdups (sg_gates g @ reasons)))
      in (upd_signal (\<lambda>g. g\<lparr>sg_gates := gates\<rparr>) s)
           \<lparr>su_scored := (if su_quality s = V22 then gates = [] else su_scored s)\<rparr>)"

text \<open>\<^verbatim>\<open>apply_new_candidate\<close>: the production gate speaks once in the life of a plan.\<close>

definition apply_new_candidate :: "string list \<Rightarrow> live_plan \<Rightarrow> live_plan" where
  "apply_new_candidate blocks s =
     (let g = su_signal s in
      if \<not> su_gating s \<or> sg_state g \<noteq> PENDING_CONFIRMATION \<or> sg_gates g \<noteq> [] \<or> su_gated s then s
      else (upd_signal (\<lambda>g. g\<lparr>sg_gates := sg_gates g @ blocks\<rparr>) s)\<lparr>su_gated := True\<rparr>)"

text \<open>
  The end of a decision: the scores, the production gate, the quality policy and the optional
  model, then the state. A failing evidence step blocks a plan of the current schema only.
\<close>

definition scored_gated :: "assessment \<Rightarrow> live_plan \<Rightarrow> live_plan" where
  "scored_gated a s =
     (let clear = (sg_gates (su_signal s) = []);
          s1 = (if \<not> su_candidate20 s \<or> clear then s\<lparr>su_scored := as_scored a\<rparr> else s);
          failed = (clear \<and> as_decorate_failed a \<or> su_gating s \<and> as_gate_failed a);
          s2 = (if su_gating s \<and> \<not> failed then apply_new_candidate (as_v8_blocks a) s1 else s1)
      in if failed \<and> su_candidate20 s
         then upd_signal (\<lambda>g. g\<lparr>sg_gates := sg_gates g @ [''V2_EVIDENCE_UNAVAILABLE'']\<rparr>) s2 else s2)"

definition final_plan :: "assessment \<Rightarrow> live_plan \<Rightarrow> live_plan" where
  "final_plan a s =
     (let s1 = scored_gated a s;
          s2 = (if su_quality s1 = NoQuality then s1 else apply_quality a s1);
          s3 = (if production s2 then s2 else upd_signal (\<lambda>g. g\<lparr>sg_gates := sg_gates g @ as_ml_gates a\<rparr>) s2);
          s4 = s3\<lparr>su_decision := as_decision a\<rparr>
      in if sg_gates (su_signal s4) = [] then with_state CONFIRMED s4 else s4)"

definition conclude :: "engine_settings \<Rightarrow> visit \<Rightarrow> assessment \<Rightarrow> live_plan \<Rightarrow> pass" where
  "conclude es v a s =
     (let s' = final_plan a s in
      [Rejected (sg_gates (su_signal s')), Save s' ''evaluation'']
      @ (if sg_state (su_signal s') = CONFIRMED \<and> sg_horizon_profile (su_signal s') \<noteq> EXTENDED_SWING
            \<and> book_fresh (vt_send_book v) (vt_send_ms v) (es_book_stale es) \<and> vt_send_recorder v
         then send_card es v a s' else []))"

definition decide ::
    "engine_settings \<Rightarrow> visit \<Rightarrow> assessment \<Rightarrow> market_context \<Rightarrow> tape \<Rightarrow> dec option \<Rightarrow> ms \<Rightarrow> live_plan
     \<Rightarrow> pass \<times> py_error option" where
  "decide es v a c tp mid stop s =
     (let s1 = fix_deadlines (vt_now v) stop s;
          gap = [Save s1 (coverage_readiness (Some tp) s1 (stop - window_of s) stop)]
      in case features (vt_now v) (vt_flow_book v) of
           None \<Rightarrow> (gap, None)
         | Some bf \<Rightarrow>
             if \<not> bk_valid (vt_priced_book v) \<or> bk_bids (vt_priced_book v) = [] \<or> bk_asks (vt_priced_book v) = []
                \<or> \<not> vt_same_epoch v
             then (gap, None)
             else
               case market_gates es v a c mid (bf_spread_bps bf) stop s1 of
                 Inl e \<Rightarrow> ([], Some e)
               | Inr early \<Rightarrow>
                   (case flow_judgement a s1 of (ok, mode, flow) \<Rightarrow>
                      let gates = early @ flow @ execution_gates a s1;
                          s2 = (upd_signal (\<lambda>g. g\<lparr>sg_gates := gates\<rparr>) s1)\<lparr>su_flow_mode := mode\<rparr>
                      in if production s \<and> gates \<noteq> []
                         then (let s3 = (if new_quality s2 then apply_quality a s2 else s2)
                               in ([Rejected (sg_gates (su_signal s3)),
                                    Save s3 ''Awaiting valid evidence within the original entry window''], None))
                         else (conclude es v a s2, None)))"

subsection \<open>The visit\<close>

definition observed_visit ::
    "engine_settings \<Rightarrow> visit \<Rightarrow> assessment \<Rightarrow> market_context \<Rightarrow> tape \<Rightarrow> book \<Rightarrow> dec option \<Rightarrow> candle list \<Rightarrow> live_plan
     \<Rightarrow> pass \<times> py_error option" where
  "observed_visit es v a c tp bk mid bars s =
     (let g = su_signal s in
      if bars = [] then ([], Some IndexError)
      else
        case map_of DURATIONS (sg_execution_timeframe g) of
          None \<Rightarrow> ([], Some KeyError)
        | Some width \<Rightarrow>
            let candle_end = cd_end (last bars); stop = window_close (vt_now v) candle_end s;
                healthy = list_all (check_passed es v s c tp bk candle_end stop width) ALL_CHECKS;
                s1 = with_state PENDING_CONFIRMATION s;
                unready = coverage_readiness (Some tp) s (stop - window_of s) stop
            in if su_staged s \<and> healthy \<and> (sg_state g \<noteq> CONFIRMED \<or> su_flow_mode s = ''LOCAL_STAGED_REVERSAL'')
                  \<and> \<not> vt_refreshed v
               then ([Save s unready], None)
               else if sg_state g = CONFIRMED \<and> sg_gates g = [] \<and> healthy
               then (confirmed_visit es v a stop s, None)
               else if su_scored s then ([], None)
               else if \<not> healthy then ([Save s1 ''evaluation'', Save s1 unready], None)
               else (case decide es v a c tp mid stop s1 of (p, e) \<Rightarrow> (Save s1 ''evaluation'' # p, e)))"

definition missing_part :: "visit \<Rightarrow> string" where
  "missing_part v =
     (if \<not> vt_selected v then ''COVERAGE_SYMBOL_NOT_SELECTED''
      else if vt_tape v = None then ''COVERAGE_TAPE_NOT_CONNECTED''
      else if vt_book v = None then ''COVERAGE_BOOK_NOT_CONNECTED'' else ''COVERAGE_CONTEXT_STALE'')"

definition mid_price :: "book option \<Rightarrow> py_error + dec option" where
  "mid_price book =
     (case book of None \<Rightarrow> Inr None
      | Some bk \<Rightarrow>
          if \<not> bk_valid bk then Inr None
          else if bk_bids bk = [] \<or> bk_asks bk = [] then Inl (ValueError ''max() arg is an empty sequence'')
          else Inr (Some ((best_bid bk + best_ask bk) / 2)))"

definition visit_plan :: "engine_settings \<Rightarrow> visit \<Rightarrow> assessment \<Rightarrow> live_plan \<Rightarrow> pass \<times> py_error option" where
  "visit_plan es v a s =
     (let g = su_signal s in
      if sg_source g = Tradingview \<or> sg_state g \<in> TERMINAL \<or> vt_reconciling v \<or> sg_state g = ALERTED
      then ([], None)
      else if vt_legacy v then (legacy_visit es v a s, None)
      else
        case mid_price (vt_book v) of
          Inl e \<Rightarrow> ([], Some e)
        | Inr mid \<Rightarrow>
            if entry_over (vt_now v) s then ([Save (with_state EXPIRED s) ''entry window expired''], None)
            else if sg_source g \<noteq> vt_exchange v then ([], None)
            else if vt_macro_pause v
            then ([Save (s\<lparr>su_deferred := Some (vt_now v)\<rparr>) ''High-impact USD entry pause; lifecycle continues''], None)
            else
              case (vt_context v, vt_tape v, vt_book v) of
                (Some c, Some tp, Some bk) \<Rightarrow>
                  (if sg_horizon_profile g \<in> {LEGACY, CORE_INTRADAY}
                   then observed_visit es v a c tp bk mid (cx_m15 c) s
                   else case vt_cached v of None \<Rightarrow> ([], None)
                        | Some bars \<Rightarrow> observed_visit es v a c tp bk mid bars s)
              | _ \<Rightarrow> ([Save s (missing_part v)], None))"

text \<open>What the store holds after a visit, and the cards the visit sent.\<close>

fun stored_after :: "live_plan \<Rightarrow> pass \<Rightarrow> live_plan" where
  "stored_after s [] = s"
| "stored_after s (Save s' _ # es) = stored_after s' es"
| "stored_after s (_ # es) = stored_after s es"

definition sent_cards :: "pass \<Rightarrow> nat" where
  "sent_cards p = count_list p (Sent ''sent'')"

text \<open>Successive visits of one plan.\<close>

fun visits :: "engine_settings \<Rightarrow> (visit \<times> assessment) list \<Rightarrow> live_plan \<Rightarrow> live_plan \<times> pass" where
  "visits es [] s = (s, [])"
| "visits es ((v, a) # vs) s =
     (case visit_plan es v a s of (p, _) \<Rightarrow>
        case visits es vs (stored_after s p) of (s', q) \<Rightarrow> (s', p @ q))"

subsection \<open>Sending a card\<close>

text \<open>The plan each send attempt of a visit is made for, as the store holds it at that moment.\<close>

fun plans_sent :: "live_plan \<Rightarrow> pass \<Rightarrow> live_plan list" where
  "plans_sent s [] = []"
| "plans_sent s (Save s' _ # es) = plans_sent s' es"
| "plans_sent s (Sent _ # es) = s # plans_sent s es"
| "plans_sent s (Rejected _ # es) = plans_sent s es"

lemma sort_Nil_iff [simp]: "sort xs = [] \<longleftrightarrow> (xs :: 'a :: linorder list) = []"
  by (metis set_empty set_sort)

lemma with_state_simps [simp]:
  "sg_state (su_signal (with_state st s)) = st" "sg_gates (su_signal (with_state st s)) = sg_gates (su_signal s)"
  "sg_expires_ms (su_signal (with_state st s)) = sg_expires_ms (su_signal s)"
  "sg_trigger_expires_ms (su_signal (with_state st s)) = sg_trigger_expires_ms (su_signal s)"
  "sg_holding_deadline_ms (su_signal (with_state st s)) = sg_holding_deadline_ms (su_signal s)"
  "sg_primary_tracking_deadline (su_signal (with_state st s)) = sg_primary_tracking_deadline (su_signal s)"
  "sg_version (su_signal (with_state st s)) = sg_version (su_signal s)"
  "sg_source (su_signal (with_state st s)) = sg_source (su_signal s)"
  "sg_horizon_profile (su_signal (with_state st s)) = sg_horizon_profile (su_signal s)"
  "sg_zone (su_signal (with_state st s)) = sg_zone (su_signal s)"
  "sg_direction (su_signal (with_state st s)) = sg_direction (su_signal s)"
  "sg_evidence (su_signal (with_state st s)) = sg_evidence (su_signal s)"
  "su_quality (with_state st s) = su_quality s" "su_scored (with_state st s) = su_scored s"
  "su_gating (with_state st s) = su_gating s" "su_gated (with_state st s) = su_gated s"
  "su_flow_mode (with_state st s) = su_flow_mode s" "su_staged (with_state st s) = su_staged s"
  "su_decision (with_state st s) = su_decision s" "su_window_ms (with_state st s) = su_window_ms s"
  by (simp_all add: with_state_def)

lemma fix_deadlines_simps [simp]:
  "sg_state (su_signal (fix_deadlines now stop s)) = sg_state (su_signal s)"
  "sg_gates (su_signal (fix_deadlines now stop s)) = sg_gates (su_signal s)"
  "sg_version (su_signal (fix_deadlines now stop s)) = sg_version (su_signal s)"
  "sg_horizon_profile (su_signal (fix_deadlines now stop s)) = sg_horizon_profile (su_signal s)"
  "sg_zone (su_signal (fix_deadlines now stop s)) = sg_zone (su_signal s)"
  "sg_direction (su_signal (fix_deadlines now stop s)) = sg_direction (su_signal s)"
  "sg_evidence (su_signal (fix_deadlines now stop s)) = sg_evidence (su_signal s)"
  "sg_expires_ms (su_signal (fix_deadlines now stop s)) = sg_expires_ms (su_signal s)"
  "su_quality (fix_deadlines now stop s) = su_quality s" "su_scored (fix_deadlines now stop s) = su_scored s"
  "su_gating (fix_deadlines now stop s) = su_gating s" "su_gated (fix_deadlines now stop s) = su_gated s"
  "su_staged (fix_deadlines now stop s) = su_staged s"
  by (simp_all add: fix_deadlines_def Let_def)

lemma has_tag_cong [simp]:
  "has_tag t (with_state st s) = has_tag t s" "has_tag t (fix_deadlines now stop s) = has_tag t s"
  by (simp_all add: has_tag_def)

lemma final_plan_state:
  "sg_state (su_signal s) = PENDING_CONFIRMATION \<Longrightarrow>
     sg_state (su_signal (final_plan a s)) = CONFIRMED \<longleftrightarrow> sg_gates (su_signal (final_plan a s)) = []"
  by (auto simp: final_plan_def scored_gated_def apply_quality_def apply_new_candidate_def Let_def)

text \<open>Gates only grow once the market gates stand.\<close>

lemma apply_quality_clear:
  "sg_gates (su_signal (apply_quality a s)) = []
     \<longleftrightarrow> sg_gates (su_signal s) = [] \<and> as_quality a [] = []"
  by (auto simp: apply_quality_def Let_def)

lemma scored_gated_clear:
  assumes "sg_gates (su_signal (scored_gated a s)) = []"
  shows "sg_gates (su_signal s) = []"
    and "su_gating s \<Longrightarrow> \<not> su_gated s \<Longrightarrow> sg_state (su_signal s) = PENDING_CONFIRMATION
         \<Longrightarrow> \<not> as_decorate_failed a \<Longrightarrow> \<not> as_gate_failed a \<Longrightarrow> as_v8_blocks a = []"
  using assms by (auto simp: scored_gated_def apply_new_candidate_def Let_def split: if_splits)

lemma scored_gated_quality [simp]:
  "su_quality (scored_gated a s) = su_quality s"
  by (simp add: scored_gated_def apply_new_candidate_def Let_def)

lemma final_plan_clear:
  assumes "sg_gates (su_signal (final_plan a s)) = []"
  shows "sg_gates (su_signal (scored_gated a s)) = []"
    and "su_quality s \<noteq> NoQuality \<Longrightarrow> as_quality a [] = []"
  using assms by (auto simp: final_plan_def Let_def apply_quality_clear split: if_splits)

lemma plans_sent_send_card:
  "p \<in> set (plans_sent s (send_card es v a s)) \<Longrightarrow>
     p = s \<and> entry_ready es (as_entry a) s (vt_send_book v) (vt_send_ms v)"
  by (auto simp: send_card_def alerted_def split: if_splits)

lemma plans_sent_conclude:
  assumes "p \<in> set (plans_sent x (conclude es v a s))" "sg_state (su_signal s) = PENDING_CONFIRMATION"
  shows "sg_state (su_signal p) = CONFIRMED \<and> sg_gates (su_signal p) = []
         \<and> sg_horizon_profile (su_signal p) \<noteq> EXTENDED_SWING
         \<and> entry_ready es (as_entry a) p (vt_send_book v) (vt_send_ms v)
         \<and> book_fresh (vt_send_book v) (vt_send_ms v) (es_book_stale es)"
  using assms final_plan_state[OF assms(2), of a]
  by (auto simp: conclude_def Let_def dest!: plans_sent_send_card split: if_splits)

text \<open>What a decision rests on; it does not depend on the deadlines the decision fixes.\<close>

lemma market_gates_fixed [simp]:
  "market_gates es v a c mid spread stop (fix_deadlines now st s) = market_gates es v a c mid spread stop s"
  by (simp only: market_gates_def outside_zone_def funding_gates_def Let_def fix_deadlines_simps has_tag_cong)

lemma flow_judgement_fixed [simp]: "flow_judgement a (fix_deadlines now st s) = flow_judgement a s"
  by (simp only: flow_judgement_def Let_def fix_deadlines_simps has_tag_cong)

lemma execution_gates_fixed [simp]: "execution_gates a (fix_deadlines now st s) = execution_gates a s"
  by (simp add: execution_gates_def)

lemma has_tag_signal [simp]:
  "has_tag t (upd_signal (\<lambda>g. g\<lparr>sg_gates := gs\<rparr>) s) = has_tag t s"
  "has_tag t (s\<lparr>su_flow_mode := m\<rparr>) = has_tag t s"
  by (simp_all add: has_tag_def)

lemma apply_quality_frame [simp]:
  "sg_state (su_signal (apply_quality a s)) = sg_state (su_signal s)"
  by (simp add: apply_quality_def Let_def)

lemma decide_outcome:
  assumes "sg_state (su_signal s) = PENDING_CONFIRMATION"
  obtains (waits) q r where "fst (decide es v a c tp mid stop s) = [Save q r]"
      "sg_state (su_signal q) = PENDING_CONFIRMATION"
  | (raises) "fst (decide es v a c tp mid stop s) = []"
  | (rejects) gs q r where "fst (decide es v a c tp mid stop s) = [Rejected gs, Save q r]"
      "sg_state (su_signal q) = PENDING_CONFIRMATION"
  | (concludes) bf early s2 where "fst (decide es v a c tp mid stop s) = conclude es v a s2"
      "features (vt_now v) (vt_flow_book v) = Some bf" "vt_same_epoch v"
      "market_gates es v a c mid (bf_spread_bps bf) stop s = Inr early"
      "s2 = (upd_signal (\<lambda>g. g\<lparr>sg_gates := early @ snd (snd (flow_judgement a s)) @ execution_gates a s\<rparr>)
               (fix_deadlines (vt_now v) stop s))\<lparr>su_flow_mode := fst (snd (flow_judgement a s))\<rparr>"
proof (cases "features (vt_now v) (vt_flow_book v)")
  case None
  with assms show ?thesis 
    by (intro waits[of "fix_deadlines (vt_now v) stop s"
          "coverage_readiness (Some tp) (fix_deadlines (vt_now v) stop s) (stop - window_of s) stop"]) (simp_all add: decide_def Let_def)
next
  case (Some bf)
  show ?thesis
  proof (cases "\<not> bk_valid (vt_priced_book v) \<or> bk_bids (vt_priced_book v) = [] \<or> bk_asks (vt_priced_book v) = []
                \<or> \<not> vt_same_epoch v")
    case True
    with Some assms show ?thesis 
    by (intro waits[of "fix_deadlines (vt_now v) stop s"
          "coverage_readiness (Some tp) (fix_deadlines (vt_now v) stop s) (stop - window_of s) stop"]) (simp_all add: decide_def Let_def)
  next
    case False
    show ?thesis
    proof (cases "market_gates es v a c mid (bf_spread_bps bf) stop s")
      case (Inl e)
      with Some False show ?thesis by (intro raises) (simp add: decide_def Let_def)
    next
      case (Inr early)
      obtain ok mode flow where fl: "flow_judgement a s = (ok, mode, flow)" by (cases "flow_judgement a s")
      let ?g = "early @ flow @ execution_gates a s"
      let ?s2 = "(upd_signal (\<lambda>g. g\<lparr>sg_gates := ?g\<rparr>) (fix_deadlines (vt_now v) stop s))\<lparr>su_flow_mode := mode\<rparr>"
      show ?thesis
      proof (cases "production s \<and> ?g \<noteq> []")
        case True
        with Some False Inr fl assms show ?thesis
          by (intro rejects[of _ "if new_quality s then apply_quality a ?s2 else ?s2"
                "''Awaiting valid evidence within the original entry window''"])
            (auto simp: decide_def Let_def)
      next
        case prod: False
        with Some False Inr fl have "fst (decide es v a c tp mid stop s) = conclude es v a ?s2"
          by (auto simp: decide_def Let_def)
        with Some False Inr fl show ?thesis by (intro concludes[of ?s2 bf early]) simp_all
      qed
    qed
  qed
qed

lemma healthy_all: "list_all P ALL_CHECKS \<longleftrightarrow> (\<forall>k. P k)"
proof -
  have "list_all P ALL_CHECKS \<Longrightarrow> P k" for k
    by (cases k) (simp_all add: ALL_CHECKS_def)
  then show ?thesis by (auto simp: list_all_iff)
qed

lemma observed_outcome:
  obtains (quiet) "fst (observed_visit es v a c tp bk mid bars s) = []"
  | (gap) r where "fst (observed_visit es v a c tp bk mid bars s) = [Save s r]"
  | (unready) r where "fst (observed_visit es v a c tp bk mid bars s)
        = [Save (with_state PENDING_CONFIRMATION s) ''evaluation'', Save (with_state PENDING_CONFIRMATION s) r]" "\<not> su_scored s"
  | (delivers) width where "fst (observed_visit es v a c tp bk mid bars s)
        = confirmed_visit es v a (window_close (vt_now v) (cd_end (last bars)) s) s"
      "sg_state (su_signal s) = CONFIRMED" "sg_gates (su_signal s) = []"
      "list_all (check_passed es v s c tp bk (cd_end (last bars)) (window_close (vt_now v) (cd_end (last bars)) s) width) ALL_CHECKS"
  | (decides) width where "bars \<noteq> []" "map_of DURATIONS (sg_execution_timeframe (su_signal s)) = Some width"
      "list_all (check_passed es v s c tp bk (cd_end (last bars)) (window_close (vt_now v) (cd_end (last bars)) s) width) ALL_CHECKS"
      "\<not> su_scored s"
      "fst (observed_visit es v a c tp bk mid bars s)
        = Save (with_state PENDING_CONFIRMATION s) ''evaluation''
          # fst (decide es v a c tp mid (window_close (vt_now v) (cd_end (last bars)) s) (with_state PENDING_CONFIRMATION s))"
proof (cases "bars = [] \<or> map_of DURATIONS (sg_execution_timeframe (su_signal s)) = None")
  case True
  then show ?thesis by (intro quiet) (auto simp: observed_visit_def Let_def)
next
  case False
  then obtain width where w: "bars \<noteq> []" "map_of DURATIONS (sg_execution_timeframe (su_signal s)) = Some width" by auto
  let ?stop = "window_close (vt_now v) (cd_end (last bars)) s"
  let ?ok = "list_all (check_passed es v s c tp bk (cd_end (last bars)) ?stop width) ALL_CHECKS"
  let ?un = "coverage_readiness (Some tp) s (?stop - window_of s) ?stop"
  consider (g) "su_staged s \<and> ?ok \<and> (sg_state (su_signal s) \<noteq> CONFIRMED \<or> su_flow_mode s = ''LOCAL_STAGED_REVERSAL'')
                \<and> \<not> vt_refreshed v"
    | (d) "\<not> (su_staged s \<and> ?ok \<and> (sg_state (su_signal s) \<noteq> CONFIRMED \<or> su_flow_mode s = ''LOCAL_STAGED_REVERSAL'')
                \<and> \<not> vt_refreshed v)" "sg_state (su_signal s) = CONFIRMED \<and> sg_gates (su_signal s) = [] \<and> ?ok"
    | (r) "\<not> (su_staged s \<and> ?ok \<and> (sg_state (su_signal s) \<noteq> CONFIRMED \<or> su_flow_mode s = ''LOCAL_STAGED_REVERSAL'')
                \<and> \<not> vt_refreshed v)" "\<not> (sg_state (su_signal s) = CONFIRMED \<and> sg_gates (su_signal s) = [] \<and> ?ok)" by blast
  then show ?thesis
  proof cases
    case g
    with w show ?thesis by (intro gap[of ?un]) (simp add: observed_visit_def Let_def)
  next
    case d
    with w show ?thesis by (intro delivers[of width]) (auto simp: observed_visit_def Let_def)
  next
    case r
    consider "su_scored s" | "\<not> su_scored s" "\<not> ?ok" | "\<not> su_scored s" "?ok" by blast
    then show ?thesis
    proof cases
      case 1
      with r w show ?thesis by (intro quiet) (auto simp: observed_visit_def Let_def)
    next
      case 2
      with r w show ?thesis by (intro unready[of ?un]) (auto simp: observed_visit_def Let_def)
    next
      case 3
      with r w show ?thesis
        by (intro decides[of width]) (auto simp: observed_visit_def Let_def split_def)
    qed
  qed
qed

text \<open>A visit before observation saves, retires or passes over the plan; after it, it observes.\<close>

lemma visit_outcome:
  obtains (ignored) "fst (visit_plan es v a s) = []"
  | (legacy) "fst (visit_plan es v a s) = legacy_visit es v a s" "vt_legacy v"
      "sg_source (su_signal s) \<noteq> Tradingview" "\<not> vt_reconciling v"
  | (expires) r where "fst (visit_plan es v a s) = [Save (with_state EXPIRED s) r]" "entry_over (vt_now v) s"
  | (pauses) r where "fst (visit_plan es v a s) = [Save (s\<lparr>su_deferred := Some (vt_now v)\<rparr>) r]"
  | (lacks) r where "fst (visit_plan es v a s) = [Save s r]"
  | (observes) c tp bk mid bars where
      "fst (visit_plan es v a s) = fst (observed_visit es v a c tp bk mid bars s)"
      "vt_context v = Some c" "vt_tape v = Some tp" "vt_book v = Some bk" "mid_price (Some bk) = Inr mid"
      "\<not> entry_over (vt_now v) s" "\<not> vt_macro_pause v" "sg_source (su_signal s) = vt_exchange v"
      "sg_source (su_signal s) \<noteq> Tradingview" "\<not> vt_reconciling v" "\<not> vt_legacy v"
proof -
  let ?p = "fst (visit_plan es v a s)"
  consider (a) "sg_source (su_signal s) = Tradingview \<or> sg_state (su_signal s) \<in> TERMINAL \<or> vt_reconciling v
                \<or> sg_state (su_signal s) = ALERTED"
    | (b) "\<not> (sg_source (su_signal s) = Tradingview \<or> sg_state (su_signal s) \<in> TERMINAL \<or> vt_reconciling v
                \<or> sg_state (su_signal s) = ALERTED)" "vt_legacy v"
    | (c) "\<not> (sg_source (su_signal s) = Tradingview \<or> sg_state (su_signal s) \<in> TERMINAL \<or> vt_reconciling v
                \<or> sg_state (su_signal s) = ALERTED)" "\<not> vt_legacy v" by blast
  then show ?thesis
  proof cases
    case a
    then show ?thesis by (intro ignored) (simp add: visit_plan_def)
  next
    case b
    then show ?thesis by (intro legacy) (simp_all add: visit_plan_def)
  next
    case c
    show ?thesis
    proof (cases "mid_price (vt_book v)")
      case (Inl e)
      with c show ?thesis by (intro ignored) (simp add: visit_plan_def)
    next
      case (Inr mid)
      note unf = visit_plan_def Let_def
      consider "entry_over (vt_now v) s"
        | "\<not> entry_over (vt_now v) s" "sg_source (su_signal s) \<noteq> vt_exchange v"
        | "\<not> entry_over (vt_now v) s" "sg_source (su_signal s) = vt_exchange v" "vt_macro_pause v"
        | "\<not> entry_over (vt_now v) s" "sg_source (su_signal s) = vt_exchange v" "\<not> vt_macro_pause v" by blast
      then show ?thesis
      proof cases
        case 1
        with c Inr show ?thesis by (intro expires[of "''entry window expired''"]) (simp_all add: unf)
      next
        case 2
        with c Inr show ?thesis by (intro ignored) (simp add: unf)
      next
        case 3
        with c Inr show ?thesis
          by (intro pauses[of "''High-impact USD entry pause; lifecycle continues''"]) (simp add: unf)
      next
        case 4
        show ?thesis
        proof (cases "vt_context v = None \<or> vt_tape v = None \<or> vt_book v = None")
          case True
          with c Inr 4 show ?thesis by (intro lacks[of "missing_part v"]) (auto simp: unf split: option.splits)
        next
          case False
          then obtain c' tp bk where m: "vt_context v = Some c'" "vt_tape v = Some tp" "vt_book v = Some bk" by auto
          show ?thesis
          proof (cases "sg_horizon_profile (su_signal s) \<in> {LEGACY, CORE_INTRADAY}")
            case True
            with c Inr 4 m show ?thesis by (intro observes[of c' tp bk mid "cx_m15 c'"]) (auto simp: unf)
          next
            case f: False
            show ?thesis
            proof (cases "vt_cached v")
              case None
              with c Inr 4 m f show ?thesis by (intro ignored) (simp add: unf)
            next
              case (Some bars)
              with c Inr 4 m f show ?thesis by (intro observes[of c' tp bk mid bars]) (simp_all add: unf)
            qed
          qed
        qed
      qed
    qed
  qed
qed

text \<open>What empty gates mean.\<close>

lemma if_single [simp]: "(if b then [x] else []) = [] \<longleftrightarrow> \<not> b"
  by simp

lemma market_gates_clear:
  assumes "market_gates es v a c mid spread stop s = Inr []"
  obtains trigger rate where
    "ev_trigger_bar_end (sg_evidence (su_signal s)) = Some trigger" "trigger \<le> stop"
    "cx_funding c = Some rate" "(if sg_direction (su_signal s) = LONG then rate else - rate) \<le> 1 / 1000"
    "0 \<le> vt_now v - cx_ticker_ms c" "vt_now v - cx_ticker_ms c \<le> 1200000"
    "spread \<le> es_max_spread_bps es" "as_spread_reasons a = []" "as_risk_reasons a = []" "\<not> as_major_event a"
    "production s \<or> as_flow_confirmed a"
    "new_quality s \<or> (\<exists>m. mid = Some m \<and> fst (sg_zone (su_signal s)) \<le> m \<and> m \<le> snd (sg_zone (su_signal s)))"
proof -
  from assms obtain trigger where t: "ev_trigger_bar_end (sg_evidence (su_signal s)) = Some trigger"
    by (cases "ev_trigger_bar_end (sg_evidence (su_signal s))") (simp_all add: market_gates_def)
  with assms have f: "funding_gates (vt_now v) c (su_signal s) = []"
    and m: "trigger \<le> stop" "spread \<le> es_max_spread_bps es" "as_spread_reasons a = []" "as_risk_reasons a = []"
      "\<not> as_major_event a" "production s \<or> as_flow_confirmed a" "new_quality s \<or> \<not> outside_zone mid (su_signal s)"
    by (simp_all add: market_gates_def Let_def not_less del: if_split) blast+
  from f obtain rate where r: "cx_funding c = Some rate"
      "(if sg_direction (su_signal s) = LONG then rate else - rate) \<le> 1 / 1000"
      "0 \<le> vt_now v - cx_ticker_ms c" "vt_now v - cx_ticker_ms c \<le> 1200000"
    by (cases "cx_funding c") (auto simp: funding_gates_def not_less)
  have z: "\<not> outside_zone mid (su_signal s) \<Longrightarrow>
      \<exists>m. mid = Some m \<and> fst (sg_zone (su_signal s)) \<le> m \<and> m \<le> snd (sg_zone (su_signal s))"
    by (auto simp: outside_zone_def split: option.splits)
  show ?thesis by (rule that[OF t m(1) r m(2-6)]) (use m(7) z in blast)
qed

lemma flow_judgement_clear:
  assumes "snd (snd (flow_judgement a s)) = []" "production s" "sg_horizon_profile (su_signal s) \<noteq> LEGACY"
    "as_intraday a = None"
  shows "fst (flow_judgement a s)" "as_blocked a = None"
  using assms by (auto simp: flow_judgement_def Let_def split: if_splits option.splits)

lemma plans_sent_legacy:
  assumes "p \<in> set (plans_sent x (legacy_visit es v a s))"
  shows "p = x \<and> sg_state (su_signal s) = CONFIRMED \<and> sg_gates (su_signal s) = []
         \<and> sg_source (su_signal s) = vt_exchange v \<and> vt_recorder v \<and> \<not> vt_macro_pause v
         \<and> (\<exists>bk. vt_book v = Some bk \<and> book_fresh bk (vt_now v) (es_book_stale es)
               \<and> entry_ready es (as_entry a) s bk (vt_now v))"
  using assms by (auto simp: legacy_visit_def alerted_def Let_def split: if_splits option.splits)

lemma plans_sent_confirmed:
  "p \<in> set (plans_sent s (confirmed_visit es v a stop s)) \<Longrightarrow>
     p = s \<and> sg_horizon_profile (su_signal s) \<noteq> EXTENDED_SWING
     \<and> entry_ready es (as_entry a) s (vt_send_book v) (vt_send_ms v)"
  by (auto simp: confirmed_visit_def Let_def dest: plans_sent_send_card split: if_splits)

lemma plans_sent_decide:
  assumes "p \<in> set (plans_sent x (fst (decide es v a c tp mid stop s)))"
    and "sg_state (su_signal s) = PENDING_CONFIRMATION"
  shows "sg_state (su_signal p) = CONFIRMED \<and> sg_gates (su_signal p) = []
         \<and> sg_horizon_profile (su_signal p) \<noteq> EXTENDED_SWING
         \<and> entry_ready es (as_entry a) p (vt_send_book v) (vt_send_ms v)"
  using assms(2)
proof (cases rule: decide_outcome[of s es v a c tp mid stop])
  case (concludes bf early s2)
  with assms show ?thesis by (auto dest: plans_sent_conclude)
qed (use assms in simp_all)


lemma send_card_saves: "Save q r \<in> set (send_card es v a s) \<Longrightarrow> q = with_state ALERTED s"
  by (auto simp: send_card_def alerted_def split: if_splits)

lemma conclude_saves:
  "Save q r \<in> set (conclude es v a s) \<Longrightarrow> q = final_plan a s \<or> q = with_state ALERTED (final_plan a s)"
  by (auto simp: conclude_def Let_def dest: send_card_saves split: if_splits)

lemma decide_confirms:
  assumes pend: "sg_state (su_signal s) = PENDING_CONFIRMATION"
    and save: "Save q r \<in> set (fst (decide es v a c tp mid stop s))" and conf: "sg_state (su_signal q) = CONFIRMED"
  obtains bf where "features (vt_now v) (vt_flow_book v) = Some bf" "vt_same_epoch v"
    "market_gates es v a c mid (bf_spread_bps bf) stop s = Inr []" "snd (snd (flow_judgement a s)) = []"
    "execution_gates a s = []" "su_quality s \<noteq> NoQuality \<longrightarrow> as_quality a [] = []"
    "su_gating s \<and> \<not> su_gated s \<and> \<not> as_decorate_failed a \<and> \<not> as_gate_failed a \<longrightarrow> as_v8_blocks a = []"
  using pend
proof (cases rule: decide_outcome[of s es v a c tp mid stop])
  case (concludes bf early s2)
  from save conf concludes have q: "q = final_plan a s2" by (auto dest!: conclude_saves)
  from pend concludes have p2: "sg_state (su_signal s2) = PENDING_CONFIRMATION" by simp
  with conf q final_plan_state[OF p2, of a] have "sg_gates (su_signal (final_plan a s2)) = []" by simp
  note f = final_plan_clear[OF this]
  note g = scored_gated_clear[OF f(1)]
  from g(1) concludes(5) have "early = []" "snd (snd (flow_judgement a s)) = []" "execution_gates a s = []" by auto
  moreover from f(2) concludes(5) have "su_quality s \<noteq> NoQuality \<longrightarrow> as_quality a [] = []" by auto
  moreover from g(2) p2 concludes(5)
  have "su_gating s \<and> \<not> su_gated s \<and> \<not> as_decorate_failed a \<and> \<not> as_gate_failed a \<longrightarrow> as_v8_blocks a = []" by auto
  ultimately show ?thesis using that concludes by blast
qed (use save conf pend in auto)

lemma confirmed_visit_saves:
  "Save q r \<in> set (confirmed_visit es v a stop s) \<Longrightarrow> q = with_state ALERTED s"
  by (auto simp: confirmed_visit_def Let_def dest: send_card_saves split: if_splits)

lemma legacy_visit_saves:
  "Save q r \<in> set (legacy_visit es v a s) \<Longrightarrow> q = with_state ALERTED s"
proof -
  have "legacy_visit es v a s = []
        \<or> legacy_visit es v a s = alerted (vt_answer v) ''Original confirmed decision delivered after cutover'' s"
    by (simp add: legacy_visit_def Let_def split: option.split)
  then show "Save q r \<in> set (legacy_visit es v a s) \<Longrightarrow> q = with_state ALERTED s"
    by (elim disjE) (simp_all add: alerted_def split: if_split_asm)
qed

lemma judgements_pending [simp]:
  "market_gates es v a c mid spread stop (with_state st s) = market_gates es v a c mid spread stop s"
  "flow_judgement a (with_state st s) = flow_judgement a s"
  "execution_gates a (with_state st s) = execution_gates a s"
  subgoal by (simp only: market_gates_def outside_zone_def funding_gates_def Let_def with_state_simps has_tag_cong)
  subgoal by (simp only: flow_judgement_def Let_def with_state_simps has_tag_cong)
  subgoal by (simp only: execution_gates_def with_state_simps)
  done

text \<open>C8: c#confirmation_is_evidenced:
  A plan becomes confirmed in a visit only on complete coverage and on every judgement of the decision: a
  spread within the limit, a fresh ticker without crowded funding, a trigger that the window does not
  predate, a price in the zone (or a quality policy that judges the entry), no gate of the flow, the
  execution, the risk or the quality, and no block of a production gate that speaks.\<close>

theorem confirmation_is_evidenced:
  assumes "Save q r \<in> set (fst (visit_plan es v a s))" "sg_state (su_signal q) = CONFIRMED"
    and "sg_state (su_signal s) \<noteq> CONFIRMED"
  shows "\<exists>c tp bk mid bars width bf stop trigger rate.
    vt_context v = Some c \<and> vt_tape v = Some tp \<and> vt_book v = Some bk \<and> mid_price (Some bk) = Inr mid
    \<and> stop = window_close (vt_now v) (cd_end (last bars)) s
    \<and> (\<forall>k. check_passed es v s c tp bk (cd_end (last bars)) stop width k)
    \<and> features (vt_now v) (vt_flow_book v) = Some bf \<and> bf_spread_bps bf \<le> es_max_spread_bps es
    \<and> cx_funding c = Some rate \<and> (if sg_direction (su_signal s) = LONG then rate else - rate) \<le> 1 / 1000
    \<and> 0 \<le> vt_now v - cx_ticker_ms c \<and> vt_now v - cx_ticker_ms c \<le> 1200000
    \<and> ev_trigger_bar_end (sg_evidence (su_signal s)) = Some trigger \<and> trigger \<le> stop
    \<and> (new_quality s \<or> (\<exists>m. mid = Some m \<and> fst (sg_zone (su_signal s)) \<le> m \<and> m \<le> snd (sg_zone (su_signal s))))
    \<and> as_spread_reasons a = [] \<and> as_risk_reasons a = [] \<and> \<not> as_major_event a
    \<and> (production s \<or> as_flow_confirmed a)
    \<and> snd (snd (flow_judgement a s)) = [] \<and> execution_gates a s = []
    \<and> (su_quality s \<noteq> NoQuality \<longrightarrow> as_quality a [] = [])
    \<and> (su_gating s \<and> \<not> su_gated s \<and> \<not> as_decorate_failed a \<and> \<not> as_gate_failed a \<longrightarrow> as_v8_blocks a = [])"
proof (cases rule: visit_outcome[of es v a s])
  case legacy
  with assms show ?thesis by (auto dest!: legacy_visit_saves)
next
  case (observes c tp bk mid bars)
  let ?stop = "window_close (vt_now v) (cd_end (last bars)) s"
  show ?thesis
  proof (cases rule: observed_outcome[of es v a c tp bk mid bars s])
    case (delivers width)
    with assms observes show ?thesis by (auto dest!: confirmed_visit_saves)
  next
    case (decides width)
    let ?s = "with_state PENDING_CONFIRMATION s"
    have "sg_state (su_signal ?s) = PENDING_CONFIRMATION" by simp
    moreover from assms observes decides
    have "Save q r \<in> set (fst (decide es v a c tp mid ?stop ?s))" by auto
    ultimately obtain bf where d: "features (vt_now v) (vt_flow_book v) = Some bf"
      "market_gates es v a c mid (bf_spread_bps bf) ?stop s = Inr []" "snd (snd (flow_judgement a s)) = []"
      "execution_gates a s = []" "su_quality s \<noteq> NoQuality \<longrightarrow> as_quality a [] = []"
      "su_gating s \<and> \<not> su_gated s \<and> \<not> as_decorate_failed a \<and> \<not> as_gate_failed a \<longrightarrow> as_v8_blocks a = []"
      using assms(2) by (rule decide_confirms) simp
    from d(2) obtain trigger rate where m:
      "ev_trigger_bar_end (sg_evidence (su_signal s)) = Some trigger" "trigger \<le> ?stop"
      "cx_funding c = Some rate" "(if sg_direction (su_signal s) = LONG then rate else - rate) \<le> 1 / 1000"
      "0 \<le> vt_now v - cx_ticker_ms c" "vt_now v - cx_ticker_ms c \<le> 1200000"
      "bf_spread_bps bf \<le> es_max_spread_bps es" "as_spread_reasons a = []" "as_risk_reasons a = []"
      "\<not> as_major_event a" "production s \<or> as_flow_confirmed a"
      "new_quality s \<or> (\<exists>m. mid = Some m \<and> fst (sg_zone (su_signal s)) \<le> m \<and> m \<le> snd (sg_zone (su_signal s)))"
      by (rule market_gates_clear)
    from decides(3) have "\<forall>k. check_passed es v s c tp bk (cd_end (last bars)) ?stop width k"
      by (simp only: healthy_all) blast
    with observes(2-5) d m show ?thesis by blast
  qed (use assms observes in auto)
qed (use assms in auto)

subsection \<open>Successive visits\<close>

lemma stored_after_append [simp]: "stored_after s (p @ q) = stored_after (stored_after s p) q"
  by (induction s p rule: stored_after.induct) simp_all

lemma sent_cards_simps [simp]:
  "sent_cards [] = 0" "sent_cards (Save q r # p) = sent_cards p" "sent_cards (Rejected gs # p) = sent_cards p"
  "sent_cards (p @ p') = sent_cards p + sent_cards p'"
  by (simp_all add: sent_cards_def)

abbreviation state_of :: "live_plan \<Rightarrow> sig_state" where
  "state_of s \<equiv> sg_state (su_signal s)"

text \<open>One pass sends at most one card, and then stores the plan as alerted.\<close>

definition one_card :: "live_plan \<Rightarrow> pass \<Rightarrow> bool" where
  "one_card s p \<longleftrightarrow> sent_cards p = 0 \<or> sent_cards p = 1 \<and> state_of (stored_after s p) = ALERTED"

lemma one_card_alerted: "one_card x (alerted ans r s)"
  by (simp add: one_card_def alerted_def sent_cards_def)

lemma one_card_send: "one_card x (send_card es v a s)"
  using one_card_alerted[of x] by (simp add: send_card_def) (simp add: one_card_def)

lemma one_card_quiet [simp]:
  "one_card x []" "one_card x [Save q r]" "one_card x [Save q r, Save q' r']" "one_card x [Rejected gs, Save q r]"
  by (simp_all add: one_card_def)

lemma one_card_after:
  "one_card q p \<Longrightarrow> one_card x (Save q r # p)" "one_card q p \<Longrightarrow> one_card x (Rejected gs # Save q r # p)"
  by (simp_all add: one_card_def)

lemma one_card_conclude: "one_card x (conclude es v a s)"
  by (simp add: conclude_def Let_def one_card_after one_card_send)

lemma one_card_visit: "one_card s (fst (visit_plan es v a s))"
proof (cases rule: visit_outcome[of es v a s])
  case legacy
  then show ?thesis using one_card_alerted
    by (cases "vt_book v") (simp_all add: legacy_visit_def Let_def)
next
  case (observes c tp bk mid bars)
  let ?stop = "window_close (vt_now v) (cd_end (last bars)) s"
  show ?thesis
  proof (cases rule: observed_outcome[of es v a c tp bk mid bars s])
    case delivers
    with observes show ?thesis by (simp add: confirmed_visit_def Let_def one_card_send)
  next
    case decides
    let ?s = "with_state PENDING_CONFIRMATION s"
    have pend: "state_of ?s = PENDING_CONFIRMATION" by simp
    then have "one_card ?s (fst (decide es v a c tp mid ?stop ?s))"
      by (cases rule: decide_outcome[of ?s es v a c tp mid ?stop]) (simp_all only: one_card_quiet one_card_conclude)
    with observes decides show ?thesis by (simp add: one_card_after)
  qed (use observes in simp_all)
qed simp_all

lemma visit_ended: "state_of s \<in> insert ALERTED TERMINAL \<Longrightarrow> fst (visit_plan es v a s) = []"
  by (auto simp: visit_plan_def Let_def)

lemma visits_ended: "state_of s \<in> insert ALERTED TERMINAL \<Longrightarrow> visits es vs s = (s, [])"
  by (induction vs) (auto simp: visit_ended split_def)

text \<open>C6: c#one_card_per_setup:
  Over any sequence of visits, whatever the feeds, the modules and the notifier answer, at most one
  card of a plan is sent; when one is, the plan ends up stored as alerted, and a plan that was alerted or terminal
  before gets none.\<close>

theorem one_card_per_setup:
  "sent_cards (snd (visits es vs s))
     \<le> (if state_of (fst (visits es vs s)) = ALERTED \<and> state_of s \<notin> insert ALERTED TERMINAL then 1 else 0)"
proof (induction vs arbitrary: s)
  case (Cons va vs)
  obtain v a where va: "va = (v, a)" by fastforce
  let ?p = "fst (visit_plan es v a s)" and ?s = "stored_after s (fst (visit_plan es v a s))"
  have eq: "visits es (va # vs) s = (fst (visits es vs ?s), ?p @ snd (visits es vs ?s))"
    by (simp add: va split_def)
  show ?case
  proof (cases "state_of s \<in> insert ALERTED TERMINAL")
    case True
    then show ?thesis by (simp add: visits_ended)
  next
    case fresh: False
    from one_card_visit[of s es v a] consider "sent_cards ?p = 0" | "sent_cards ?p = 1" "state_of ?s = ALERTED"
      by (auto simp: one_card_def)
    then show ?thesis
    proof cases
      case 1
      with Cons[of ?s] fresh eq show ?thesis by (auto split: if_splits)
    next
      case 2
      then have "visits es vs ?s = (?s, [])" by (intro visits_ended) simp
      with 2 fresh eq show ?thesis by simp
    qed
  qed
qed simp

subsection \<open>What a visit keeps\<close>

text \<open>The geometry of the plan and every deadline that is set.\<close>

definition same_plan :: "signal \<Rightarrow> signal \<Rightarrow> bool" where
  "same_plan g h \<longleftrightarrow>
     sg_id h = sg_id g \<and> sg_source h = sg_source g \<and> sg_direction h = sg_direction g \<and> sg_entry h = sg_entry g
     \<and> sg_zone h = sg_zone g \<and> sg_stop h = sg_stop g \<and> sg_tp1 h = sg_tp1 g \<and> sg_tp2 h = sg_tp2 g
     \<and> sg_expires_ms h = sg_expires_ms g
     \<and> (sg_trigger_expires_ms g = None \<or> sg_trigger_expires_ms h = sg_trigger_expires_ms g)
     \<and> (sg_holding_deadline_ms g = None \<or> sg_holding_deadline_ms h = sg_holding_deadline_ms g)
     \<and> (sg_primary_tracking_deadline g = None \<or> sg_primary_tracking_deadline h = sg_primary_tracking_deadline g)"

definition same_decision :: "live_plan \<Rightarrow> live_plan \<Rightarrow> bool" where
  "same_decision s q \<longleftrightarrow> su_scored q = su_scored s \<and> su_decision q = su_decision s \<and> su_flow_mode q = su_flow_mode s
     \<and> su_gated q = su_gated s \<and> sg_gates (su_signal q) = sg_gates (su_signal s)"

named_theorems keeps \<open>steps that keep the plan\<close>

lemma same_plan_update [simp]:
  "same_plan g (h\<lparr>sg_gates := x\<rparr>) = same_plan g h" "same_plan g (h\<lparr>sg_state := st\<rparr>) = same_plan g h"
  by (simp_all add: same_plan_def)

lemma same_plan_refl [simp]: "same_plan g g"
  by (simp add: same_plan_def)

lemma same_plan_trans: "same_plan g h \<Longrightarrow> same_plan h k \<Longrightarrow> same_plan g k"
  unfolding same_plan_def by metis

lemma same_plan_with_state [simp]: "same_plan g (su_signal (with_state st q)) = same_plan g (su_signal q)"
  by (simp add: with_state_def)

lemma same_plan_of_with_state [simp]: "same_plan (su_signal (with_state st q)) h = same_plan (su_signal q) h"
  by (simp add: with_state_def same_plan_def)

lemma same_plan_quality [simp]: "same_plan g (su_signal (apply_quality a q)) = same_plan g (su_signal q)"
  by (simp add: apply_quality_def Let_def)

lemma same_plan_candidate [simp]: "same_plan g (su_signal (apply_new_candidate b q)) = same_plan g (su_signal q)"
  by (simp add: apply_new_candidate_def Let_def)

lemma same_plan_scored [simp]: "same_plan g (su_signal (scored_gated a q)) = same_plan g (su_signal q)"
  by (simp add: scored_gated_def Let_def)

lemma same_plan_final [simp]: "same_plan g (su_signal (final_plan a q)) = same_plan g (su_signal q)"
  by (simp add: final_plan_def Let_def)

lemma same_plan_fix: "same_plan (su_signal q) (su_signal (fix_deadlines now stop q))"
  by (simp add: same_plan_def fix_deadlines_def Let_def)

lemma same_decision_simps [simp]:
  "same_decision s s" "same_decision s (with_state st s)" "same_decision s (s\<lparr>su_deferred := d\<rparr>)"
  by (simp_all add: same_decision_def)

text \<open>Every plan a decision saves keeps the plan it was asked about.\<close>

lemma decide_saves:
  assumes save: "Save q r \<in> set (fst (decide es v a c tp mid stop s))"
  shows "same_plan (su_signal s) (su_signal q)"
proof -
  let ?f = "fix_deadlines (vt_now v) stop s"
  have kept: "same_plan (su_signal s) (su_signal ?f)" by (rule same_plan_fix)
  have conc: "same_plan (su_signal s) (su_signal q)"
    if "Save q r \<in> set (conclude es v a s2)" "su_signal s2 = (su_signal ?f)\<lparr>sg_gates := gs\<rparr>" for s2 gs
    using conclude_saves[OF that(1)] that(2) kept by auto
  show ?thesis
  proof (cases "features (vt_now v) (vt_flow_book v)")
    case None
    with save kept show ?thesis by (simp add: decide_def Let_def)
  next
    case (Some bf)
    obtain ok mode flow where fl: "flow_judgement a s = (ok, mode, flow)" by (cases "flow_judgement a s")
    show ?thesis
    proof (cases "market_gates es v a c mid (bf_spread_bps bf) stop s")
      case (Inl e)
      with save kept Some show ?thesis by (auto simp: decide_def Let_def split: if_split_asm)
    next
      case (Inr early)
      with save kept Some fl show ?thesis
        by (auto simp: decide_def Let_def intro: conc split: if_split_asm)
    qed
  qed
qed

lemma visit_saves:
  assumes save: "Save q r \<in> set (fst (visit_plan es v a s))"
  shows "same_plan (su_signal s) (su_signal q)" "su_scored s \<Longrightarrow> same_decision s q"
proof -
  have "same_plan (su_signal s) (su_signal q) \<and> (su_scored s \<longrightarrow> same_decision s q)"
  proof (cases rule: visit_outcome[of es v a s])
    case legacy
    with save show ?thesis by (auto dest!: legacy_visit_saves)
  next
    case (observes c tp bk mid bars)
    show ?thesis
    proof (cases rule: observed_outcome[of es v a c tp bk mid bars s])
      case delivers
      with save observes show ?thesis by (auto dest!: confirmed_visit_saves)
    next
      case decides
      with save observes show ?thesis by (auto dest!: decide_saves)
    qed (use save observes in auto)
  qed (use save in auto)
  then show "same_plan (su_signal s) (su_signal q)" "su_scored s \<Longrightarrow> same_decision s q" by blast+
qed

lemma stored_after_cases: "stored_after s p = s \<or> (\<exists>r. Save (stored_after s p) r \<in> set p)"
  by (induction s p rule: stored_after.induct) auto

lemma stored_after_visit:
  "same_plan (su_signal s) (su_signal (stored_after s (fst (visit_plan es v a s))))"
  "su_scored s \<Longrightarrow> same_decision s (stored_after s (fst (visit_plan es v a s)))"
  using stored_after_cases[of s "fst (visit_plan es v a s)"] by (metis visit_saves(1) same_plan_refl,
      metis visit_saves(2) same_decision_simps(1))

lemma same_decision_trans: "same_decision s q \<Longrightarrow> same_decision q r \<Longrightarrow> same_decision s r"
  by (simp add: same_decision_def)

lemma visits_keep_plan: "same_plan (su_signal s) (su_signal (fst (visits es vs s)))"
proof (induction vs arbitrary: s)
  case (Cons va vs)
  obtain v a where "va = (v, a)" by fastforce
  with Cons stored_after_visit(1)[of s es v a] show ?case by (auto simp: split_def intro: same_plan_trans)
qed simp

text \<open>C9: c#scored_decision_is_final:
  However often a plan is visited, its prices, its direction, its expiry and every deadline that is set stay
  as they are; once it is scored, its decision, its gates and the mode its flow was confirmed by stay too.\<close>

theorem scored_decision_is_final:
  "same_plan (su_signal s) (su_signal (fst (visits es vs s)))
   \<and> (su_scored s \<longrightarrow> same_decision s (fst (visits es vs s)))"
proof -
  have "same_decision s (fst (visits es vs s))" if "su_scored s"
    using that
  proof (induction vs arbitrary: s)
    case (Cons va vs)
    obtain v a where va: "va = (v, a)" by fastforce
    let ?s = "stored_after s (fst (visit_plan es v a s))"
    from Cons.prems have "same_decision s ?s" by (rule stored_after_visit(2))
    moreover from this Cons.prems have "su_scored ?s" by (simp add: same_decision_def)
    ultimately show ?case using Cons.IH[of ?s] va by (auto simp: split_def intro: same_decision_trans)
  qed simp
  with visits_keep_plan show ?thesis by blast
qed

subsection \<open>The production gate\<close>

lemma gated_ignores_blocks:
  "su_gated s \<Longrightarrow> apply_new_candidate b s = s"
  by (simp add: apply_new_candidate_def)

text \<open>
  A gate that blocks a plan of the current policy is forgotten. The plan is stored with the gate frozen but
  without its score, so the next visit decides again and the gate has no say in it.
\<close>

lemma blocked_plan_is_unlatched:
  assumes "su_gating s" "\<not> su_gated s" "sg_gates (su_signal s) = []" "state_of s = PENDING_CONFIRMATION"
    "su_quality s = V22" "\<not> as_decorate_failed a" "\<not> as_gate_failed a" "as_v8_blocks a \<noteq> []"
  shows "su_gated (final_plan a s) \<and> \<not> su_scored (final_plan a s) \<and> state_of (final_plan a s) = PENDING_CONFIRMATION"
  using assms by (auto simp: final_plan_def scored_gated_def apply_new_candidate_def apply_quality_def Let_def)

lemma gated_decision_ignores_blocks:
  assumes "su_gated s"
  shows "final_plan (a\<lparr>as_v8_blocks := b\<rparr>) s = final_plan a s"
proof -
  let ?a = "a\<lparr>as_v8_blocks := b\<rparr>"
  have v: "as_scored ?a = as_scored a" "as_decorate_failed ?a = as_decorate_failed a"
    "as_gate_failed ?a = as_gate_failed a" "as_quality ?a = as_quality a" "as_ml_gates ?a = as_ml_gates a"
    "as_decision ?a = as_decision a" by simp_all
  have g: "apply_new_candidate x (if c then s\<lparr>su_scored := d\<rparr> else s) = (if c then s\<lparr>su_scored := d\<rparr> else s)" for x c d
    using assms by (simp add: gated_ignores_blocks)
  have "scored_gated ?a s = scored_gated a s" unfolding scored_gated_def v Let_def g ..
  then show ?thesis by (simp only: final_plan_def apply_quality_def v)
qed

subsection \<open>A concrete plan\<close>

definition engine_sample :: engine_settings where
  "engine_sample = \<lparr>es_book_stale = 5000, es_trade_stale = 30000, es_scan_seconds = 60, es_max_spread_bps = 5\<rparr>"

definition sample_plan :: live_plan where
  "sample_plan =
     \<lparr>su_signal = sample_signal\<lparr>sg_state := WATCHLIST, sg_version := ''rules:production-v2'', sg_expires_ms := 3600000,
        sg_trigger_expires_ms := Some 2700000, sg_holding_deadline_ms := Some 9000000, sg_primary_tracking_deadline := Some 9000000,
        sg_evidence := empty_evidence\<lparr>ev_trigger_bar_end := Some 1700000\<rparr>\<rparr>,
      su_quality = V22, su_gating = True, su_gated = False, su_scored = False, su_deferred = None,
      su_window_ms = None, su_window_end = None, su_flow_mode = ''NONE'', su_candidate20 = True, su_staged = False,
      su_decision = JNull\<rparr>"

definition sample_depth :: book where
  "sample_depth =
     \<lparr>bk_bids = [(9999 / 100, 3)], bk_asks = [(10001 / 100, 2)], bk_valid = True, bk_update = 1, bk_seq = 1,
      bk_event_ms = 1859000, bk_receipt_ms = 1859000, bk_changes = [], bk_pressure = [],
      bk_ofi_epoch = 1, bk_ofi_buckets = [], bk_event_ofi_epoch = 1, bk_event_ofi_start_ms = 0,
      bk_event_ofi_last_ms = 0\<rparr>"

definition sample_window :: tape where
  "sample_window =
     \<lparr>tp_maxlen = 10, tp_trades = [], tp_ids = [], tp_coverage_start = 500000,
      tp_last_event = 1858000, tp_last_receipt = 1858000, tp_market = None\<rparr>"

definition sample_m15 :: candle where
  "sample_m15 = \<lparr>cd_start = 900000, cd_interval = 900000, cd_open = 100, cd_high = 101, cd_low = 99, cd_close = 100\<rparr>"

definition sample_context :: market_context where
  "sample_context = \<lparr>cx_asof = 1850000, cx_m15 = [sample_m15], cx_funding = Some 0, cx_ticker_ms = 1850000\<rparr>"

definition sample_visit :: visit where
  "sample_visit =
     \<lparr>vt_now = 1860000, vt_exchange = Bybit, vt_reconciling = False, vt_legacy = False, vt_macro_pause = False,
      vt_recorder = True, vt_connected = True, vt_selected = True, vt_context = Some sample_context, vt_cached = None,
      vt_tape = Some sample_window, vt_book = Some sample_depth, vt_refreshed = True, vt_flow_book = sample_depth,
      vt_priced_book = sample_depth, vt_same_epoch = True, vt_send_ms = 1861000, vt_send_book = sample_depth,
      vt_send_recorder = True, vt_answer = ''sent''\<rparr>"

text \<open>Every module agrees, but the production gate, when it speaks, blocks for the reasons given.\<close>

definition sample_assessment :: "string list \<Rightarrow> assessment" where
  "sample_assessment blocks =
     \<lparr>as_entry = \<lparr>en_delivery_ready = True, en_acceptable = True, en_not_chased = True, en_position = ''IDEAL_ENTRY''\<rparr>,
      as_resumed_flow = True, as_flow_confirmed = True, as_spread_reasons = [], as_major_event = False,
      as_risk_reasons = [], as_substituted = False, as_low_trust = False, as_sequence_valid = True, as_intraday = None,
      as_augmented = (True, ''NONE''), as_absorption = False, as_blocked = None, as_sweep_family = True,
      as_participation = True, as_inside_noise = False, as_shock = False, as_quality = (\<lambda>_. []),
      as_v8_blocks = blocks, as_decorate_failed = False, as_gate_failed = False, as_scored = True,
      as_ml_gates = [], as_decision = JStr ''scored''\<rparr>"

lemmas sample_defs =
  engine_sample_def sample_depth_def sample_window_def sample_m15_def sample_context_def
  sample_visit_def sample_assessment_def

lemma sample_features:
  obtains bf where "features 1860000 sample_depth = Some bf" "bf_spread_bps bf = 2"
  by (simp add: features_def sample_depth_def best_bid_def best_ask_def Let_def)

lemma sample_mid: "mid_price (Some sample_depth) = Inr (Some 100)"
  by (simp add: mid_price_def sample_depth_def best_bid_def best_ask_def)

definition sample_variant :: "sig_state \<Rightarrow> string list \<Rightarrow> bool \<Rightarrow> string \<Rightarrow> json \<Rightarrow> bool \<Rightarrow> live_plan" where
  "sample_variant st gs gated mode d sc =
     sample_plan\<lparr>su_signal := (su_signal sample_plan)\<lparr>sg_state := st, sg_gates := gs\<rparr>, su_gated := gated,
       su_flow_mode := mode, su_decision := d, su_scored := sc\<rparr>"

lemma sample_production: "production (sample_variant st gs g m d sc)"
  by (simp add: has_tag_def sample_variant_def sample_plan_def)

lemma sample_visit_observes:
  assumes "st \<notin> insert ALERTED TERMINAL"
  shows "visit_plan engine_sample sample_visit a (sample_variant st gs g m d sc)
    = observed_visit engine_sample sample_visit a sample_context sample_window sample_depth (Some 100) [sample_m15]
        (sample_variant st gs g m d sc)"
proof -
  have over: "\<not> entry_over 1860000 (sample_variant st gs g m d sc)"
    using sample_production by (simp add: entry_over_def Let_def) (simp add: sample_variant_def sample_plan_def)
  have "vt_now sample_visit = 1860000" "vt_book sample_visit = Some sample_depth" "vt_tape sample_visit = Some sample_window"
    "vt_context sample_visit = Some sample_context" "vt_exchange sample_visit = Bybit" "\<not> vt_macro_pause sample_visit"
    "\<not> vt_legacy sample_visit" "\<not> vt_reconciling sample_visit" "cx_m15 sample_context = [sample_m15]"
    by (simp_all add: sample_visit_def sample_context_def)
  moreover have "sg_source (su_signal (sample_variant st gs g m d sc)) = Bybit"
    "sg_state (su_signal (sample_variant st gs g m d sc)) = st"
    "sg_horizon_profile (su_signal (sample_variant st gs g m d sc)) = CORE_INTRADAY"
    by (simp_all add: sample_variant_def sample_plan_def sample_signal_def)
  ultimately show ?thesis using assms over by (simp add: visit_plan_def sample_mid Let_def)
qed

lemma sample_checks:
  "check_passed engine_sample sample_visit (sample_variant st gs g m d sc) sample_context sample_window sample_depth
     1800000 1800000 900000 k"
  by (cases k) (simp_all add: check_passed_def sample_defs sample_variant_def sample_plan_def window_of_def
      book_fresh_def tape_fresh_def)

lemma sample_stop: "window_close 1860000 1800000 (sample_variant st gs g m d sc) = 1800000"
  by (simp add: window_close_def window_of_def sample_variant_def sample_plan_def)

lemma sample_decides:
  assumes "\<not> (st = CONFIRMED \<and> gs = [])"
  shows "fst (observed_visit engine_sample sample_visit a sample_context sample_window sample_depth (Some 100)
        [sample_m15] (sample_variant st gs g m d False))
    = Save (sample_variant PENDING_CONFIRMATION gs g m d False) ''evaluation''
      # fst (decide engine_sample sample_visit a sample_context sample_window (Some 100) 1800000
          (sample_variant PENDING_CONFIRMATION gs g m d False))"
proof -
  have bar: "cd_end sample_m15 = 1800000" "vt_now sample_visit = 1860000"
    by (simp_all add: cd_end_def sample_m15_def sample_visit_def)
  have sig: "sg_state (su_signal (sample_variant st gs g m d False)) = st" "sg_gates (su_signal (sample_variant st gs g m d False)) = gs"
    "\<not> su_staged (sample_variant st gs g m d False)" "\<not> su_scored (sample_variant st gs g m d False)"
    "map_of DURATIONS (sg_execution_timeframe (su_signal (sample_variant st gs g m d False))) = Some 900000"
    by (simp_all add: sample_variant_def sample_plan_def sample_signal_def DURATIONS_def)
  have pend: "with_state PENDING_CONFIRMATION (sample_variant st gs g m d False) = sample_variant PENDING_CONFIRMATION gs g m d False"
    by (simp add: with_state_def sample_variant_def)
  show ?thesis using assms by (auto simp: observed_visit_def Let_def bar sample_stop sig healthy_all sample_checks pend split_def)
qed

lemma sample_variant_simps [simp]:
  "sg_direction (su_signal (sample_variant st gs g m d sc)) = LONG" "sg_zone (su_signal (sample_variant st gs g m d sc)) = (99, 101)"
  "ev_trigger_bar_end (sg_evidence (su_signal (sample_variant st gs g m d sc))) = Some 1700000"
  "sg_state (su_signal (sample_variant st gs g m d sc)) = st" "sg_gates (su_signal (sample_variant st gs g m d sc)) = gs"
  "sg_horizon_profile (su_signal (sample_variant st gs g m d sc)) = CORE_INTRADAY"
  "su_quality (sample_variant st gs g m d sc) = V22" "su_gating (sample_variant st gs g m d sc)"
  "su_gated (sample_variant st gs g m d sc) = g" "su_flow_mode (sample_variant st gs g m d sc) = m" "su_scored (sample_variant st gs g m d sc) = sc" "su_candidate20 (sample_variant st gs g m d sc)"
  by (simp_all add: sample_variant_def sample_plan_def sample_signal_def)

lemma sample_gates:
  "market_gates engine_sample sample_visit (sample_assessment b) sample_context (Some 100) 2 1800000
     (sample_variant st gs g m d sc) = Inr []"
proof -
  have "\<not> has_tag '':flow-quality-v1'' (sample_variant st gs g m d sc)"
    by (simp add: has_tag_def sample_variant_def sample_plan_def)
  then show ?thesis
    by (simp add: market_gates_def funding_gates_def outside_zone_def sample_production Let_def)
      (simp add: sample_defs)
qed

lemma sample_flow:
  "flow_judgement (sample_assessment b) (sample_variant st gs g m d sc) = (True, ''LOCAL_TRUSTED_FLOW'', [])"
  "execution_gates (sample_assessment b) (sample_variant st gs g m d sc) = []"
proof -
  have "sg_horizon_profile (su_signal (sample_variant st gs g m d sc)) = CORE_INTRADAY"
      "\<not> su_staged (sample_variant st gs g m d sc)"
    "\<not> has_tag '':cross-venue-flow-substitution-v1'' (sample_variant st gs g m d sc)"
    by (simp_all add: has_tag_def sample_variant_def sample_plan_def sample_signal_def)
  then show "flow_judgement (sample_assessment b) (sample_variant st gs g m d sc) = (True, ''LOCAL_TRUSTED_FLOW'', [])"
    and "execution_gates (sample_assessment b) (sample_variant st gs g m d sc) = []"
    by (simp_all add: flow_judgement_def execution_gates_def sample_production Let_def) (simp_all add: sample_assessment_def)
qed

lemma sample_fixed: "fix_deadlines 1860000 1800000 (sample_variant st gs g m d sc) = sample_variant st gs g m d sc"
  by (simp add: fix_deadlines_def Let_def) (simp add: sample_variant_def sample_plan_def sample_signal_def)

lemma sample_variant_updates [simp]:
  "(sample_variant st gs g m d sc)\<lparr>su_scored := x\<rparr> = sample_variant st gs g m d x"
  "(sample_variant st gs g m d sc)\<lparr>su_gated := x\<rparr> = sample_variant st gs x m d sc"
  "(sample_variant st gs g m d sc)\<lparr>su_flow_mode := n\<rparr> = sample_variant st gs g n d sc"
  "(sample_variant st gs g m d sc)\<lparr>su_decision := j\<rparr> = sample_variant st gs g m j sc"
  "upd_signal (\<lambda>g. g\<lparr>sg_gates := hs\<rparr>) (sample_variant st gs g m d sc) = sample_variant st hs g m d sc"
  "with_state st' (sample_variant st gs g m d sc) = sample_variant st' gs g m d sc"
  by (simp_all add: sample_variant_def with_state_def)

lemma sample_decide:
  "fst (decide engine_sample sample_visit (sample_assessment b) sample_context sample_window (Some 100) 1800000
     (sample_variant PENDING_CONFIRMATION gs g m d sc))
   = conclude engine_sample sample_visit (sample_assessment b)
       (sample_variant PENDING_CONFIRMATION [] g ''LOCAL_TRUSTED_FLOW'' d sc)"
proof -
  obtain bf where bf: "features 1860000 sample_depth = Some bf" "bf_spread_bps bf = 2" by (rule sample_features)
  have "vt_now sample_visit = 1860000" "vt_flow_book sample_visit = sample_depth" "vt_priced_book sample_visit = sample_depth"
    "vt_same_epoch sample_visit" "bk_valid sample_depth" "bk_bids sample_depth \<noteq> []" "bk_asks sample_depth \<noteq> []"
    by (simp_all add: sample_visit_def sample_depth_def)
  with bf show ?thesis by (simp add: decide_def Let_def sample_fixed sample_gates sample_flow)
qed

lemma sample_modules:
  "as_scored (sample_assessment b)" "\<not> as_decorate_failed (sample_assessment b)" "\<not> as_gate_failed (sample_assessment b)"
  "as_v8_blocks (sample_assessment b) = b" "as_quality (sample_assessment b) gs = []"
  "as_decision (sample_assessment b) = JStr ''scored''"
  by (simp_all add: sample_assessment_def)

lemma sample_final:
  "final_plan (sample_assessment b) (sample_variant PENDING_CONFIRMATION [] g m d sc)
   = (if g \<or> b = [] then sample_variant CONFIRMED [] True m (JStr ''scored'') True
      else sample_variant PENDING_CONFIRMATION (sort (remdups b)) True m (JStr ''scored'') False)"
  by (simp add: final_plan_def scored_gated_def apply_new_candidate_def apply_quality_def Let_def sample_production
      sample_modules)

lemma sample_conclude:
  "conclude engine_sample sample_visit (sample_assessment b)
       (sample_variant PENDING_CONFIRMATION [] g ''LOCAL_TRUSTED_FLOW'' d sc)
   = (if g \<or> b = []
      then let s = sample_variant CONFIRMED [] True ''LOCAL_TRUSTED_FLOW'' (JStr ''scored'') True in
        [Rejected [], Save s ''evaluation'', Sent ''sent'',
         Save (with_state ALERTED s) ''research card delivered; no trade executed'']
      else [Rejected (sort (remdups b)),
            Save (sample_variant PENDING_CONFIRMATION (sort (remdups b)) True ''LOCAL_TRUSTED_FLOW'' (JStr ''scored'') False)
              ''evaluation''])"
proof -
  have "book_fresh (vt_send_book sample_visit) (vt_send_ms sample_visit) (es_book_stale engine_sample)"
    "vt_send_recorder sample_visit" "vt_answer sample_visit = ''sent''" "en_acceptable (as_entry (sample_assessment b))"
    by (simp_all add: sample_defs book_fresh_def)
  then show ?thesis
    by (simp add: conclude_def sample_final send_card_def alerted_def entry_ready_def Let_def)
qed

lemma sample_pass:
  assumes "st \<notin> insert ALERTED TERMINAL" "\<not> (st = CONFIRMED \<and> gs = [])"
  shows "fst (visit_plan engine_sample sample_visit (sample_assessment b) (sample_variant st gs g m d False))
    = Save (sample_variant PENDING_CONFIRMATION gs g m d False) ''evaluation''
      # conclude engine_sample sample_visit (sample_assessment b)
          (sample_variant PENDING_CONFIRMATION [] g ''LOCAL_TRUSTED_FLOW'' d False)"
  by (simp only: sample_visit_observes[OF assms(1)] sample_decides[OF assms(2)] sample_decide)

abbreviation sample_start :: live_plan where
  "sample_start \<equiv> sample_variant WATCHLIST [] False ''NONE'' JNull False"

lemma sample_run:
  "visits engine_sample [(sample_visit, sample_assessment [])] sample_start
   = (sample_variant ALERTED [] True ''LOCAL_TRUSTED_FLOW'' (JStr ''scored'') True,
      fst (visit_plan engine_sample sample_visit (sample_assessment []) sample_start))"
  by (simp add: split_def sample_pass sample_conclude Let_def)


subsection \<open>Concrete evaluations\<close>


lemma confirmation_is_evidenced_witness:
  "\<exists>q r. Save q r \<in> set (fst (visit_plan engine_sample sample_visit (sample_assessment []) sample_start))
     \<and> state_of q = CONFIRMED \<and> as_quality (sample_assessment []) [] = []"
proof -
  let ?q = "sample_variant CONFIRMED [] True ''LOCAL_TRUSTED_FLOW'' (JStr ''scored'') True"
  have save: "Save ?q ''evaluation'' \<in> set (fst (visit_plan engine_sample sample_visit (sample_assessment []) sample_start))"
    by (simp add: sample_pass sample_conclude Let_def)
  have st: "state_of ?q = CONFIRMED" "state_of sample_start \<noteq> CONFIRMED" "su_quality sample_start \<noteq> NoQuality" by simp_all
  from confirmation_is_evidenced[OF save st(1,2)] st(3) have "as_quality (sample_assessment []) [] = []" by blast
  with save st(1) show ?thesis by blast
qed

lemma scored_decision_is_final_witness:
  "let s = sample_variant PENDING_CONFIRMATION [''ADVERSE''] True ''NONE'' (JStr ''scored'') True in
   same_decision s (fst (visits engine_sample [(sample_visit, sample_assessment [])] s))
   \<and> same_plan (su_signal s) (su_signal (fst (visits engine_sample [(sample_visit, sample_assessment [])] s)))"
  using scored_decision_is_final[of "sample_variant PENDING_CONFIRMATION [''ADVERSE''] True ''NONE'' (JStr ''scored'') True"
      engine_sample "[(sample_visit, sample_assessment [])]"] by simp
end
