(* ===== verification/Spec2Isabelle.thy ===== *)
theory Spec2Isabelle
  imports SequencedBook Impact Features Footprint Monitor Reconciliation Paper Horizons Conflicts Notifier Identity
    Leases Recorder RecordedCoverage Risk AdaptivePlan Cleanup Checkpoint InitialCard LabelBatches Observations Packing OutboxRest Candles StopViability Replay PlanStore Readiness Completeness Confirmation
begin

text \<open>
  A verification library for bybitflow, an alerts-only research program for crypto perpetuals. It
  collects public market data, freezes trade plans (\<^verbatim>\<open>Signal\<close>), follows each plan
  along the executed path of its own venue, and posts cards to Discord. No orders are sent; what
  has to be right is the market state it derives, the life of a plan, and what it tells its
  readers.

  PARTS AND THEORIES (file names under \<^verbatim>\<open>src/src/bybit_flow/\<close>).

  Vocabulary. Prelude: Python operators with corner cases, bounded deques, and the machine
  interfaces (locales step_invariant, guarded_invariant, absorbing_machine, monotone_machine) that
  carry a one-step law to every run. Values: \<^verbatim>\<open>setup_common.py\<close> and JSON evidence.
  Model: \<^verbatim>\<open>models.py\<close>, the plan, its evidence and coverage dictionaries as records.

  Market data. Tape, OrderBook, Ofi, Impact, Features, Footprint: \<^verbatim>\<open>orderflow.py\<close> and
  \<^verbatim>\<open>ofi.py\<close>. SequencedBook: the exchange sequence guards of
  \<^verbatim>\<open>native_streams.py\<close>. Recorder: the recording queue and its writer,
  \<^verbatim>\<open>storage.py\<close> and \<^verbatim>\<open>recorder_worker.py\<close>. RecordedCoverage:
  \<^verbatim>\<open>ml/coverage.py\<close>. Shown: a tape window after its coverage start is complete, a book
  is the exchange's price map and is never served crossed or unbridged, the depth walk is bounded
  by the walked levels and the half spread, readings use no later data, the footprint conserves
  volume, the recorder loses nothing while acknowledgements arrive (and does when one is lost),
  eligibility rests on an uninterrupted chain of prints.

  Features and gates. Candles: \<^verbatim>\<open>features.py\<close>, from the validation of a candle
  window to swings, gaps, order blocks and the regime. Spread: the spread history of
  \<^verbatim>\<open>liquidity.py\<close>. Dynamic: reads of untyped evidence, with the exceptions they raise.
  StopViability: \<^verbatim>\<open>stop_viability.py\<close>. Shown: a confirmed swing is never repainted, a trigger
  level was known before its candle, the readings are in their bounds, a spread gate rests on
  enough quotes of a fresh history, a stop called tight or healthy is one, and an assessment on
  evidence of the expected shape does not raise.

  Confirmation: the visit of one plan by \<^verbatim>\<open>scanner_confirmation.py\<close>, with the warm-up reading of
  \<^verbatim>\<open>coverage.py\<close>, the production gate of \<^verbatim>\<open>v8_gating.py\<close> and the gate handling of
  \<^verbatim>\<open>quality_v22.py\<close>; what the scoring, flow, quality and risk modules conclude is an argument
  about which nothing is assumed. Shown: a plan is confirmed only on complete coverage and with every
  gate empty, at most one card is sent for it however often it is visited, no deadline that is set moves
  and a scored decision is final; a block of the production gate, though, is heard only once.

  Life of a plan. Lifecycle: \<^verbatim>\<open>expiry_mark\<close> and \<^verbatim>\<open>advance_trades\<close>. Polling:
  successive polls on a bounded tape equal one poll of the whole history. Monitor:
  \<^verbatim>\<open>tick\<close>. Reconciliation: the rebuilding of a missed path from one-minute candles. Paper:
  hypothetical fills of \<^verbatim>\<open>backtest.py\<close>. Horizons: \<^verbatim>\<open>horizons.py\<close>. PlanStore: the two
  writers of a stored plan in \<^verbatim>\<open>storage.py\<close> with the guards of \<^verbatim>\<open>v2.py\<close> and
  \<^verbatim>\<open>setup_freeze.py\<close>. Shown: a live
  exit is the first crossing of the executed path, gaps freeze a plan, candles agree with the
  trades they summarise, the frozen plan never changes, the books of a paper position balance,
  an ended plan is never revived and a published plan never rewritten by a late writer.

  Decisions. Risk: \<^verbatim>\<open>risk.py\<close>, the gate and the size of a trade. Partitions,
  PartitionPlan, AdaptivePlan: the causal partitions of \<^verbatim>\<open>ml/validation.py\<close>, from the
  search for the earliest boundary to the two policies and walk-forward folds. Shown: an accepted
  trade meets every gate and a size never risks more than its budget, the optimised boundary sweep
  is the plain search, the greedy plan finds a plan whenever one exists, no outcome of one
  partition is known after the decisions of a later one begin.

  Evidence on disk. Retention: what \<^verbatim>\<open>retention.py\<close> protects and how
  \<^verbatim>\<open>recording_maintenance.py\<close> classifies a segment. Cleanup: \<^verbatim>\<open>_execute\<close>,
  its steps under a renewed claim and exclusive leases, as a log of atomic disk actions whose
  prefixes are the crashes. Packing: the lossless archives of
  \<^verbatim>\<open>packing.py\<close>, with crashes as prefixes again. Checkpoint: the sealed replay cursor of \<^verbatim>\<open>ml/checkpoint.py\<close>.
  Observations: the late research of \<^verbatim>\<open>observations.py\<close> on ended plans.
  Segments, Replay: the ordered stream of recorded segments and the replay of
  \<^verbatim>\<open>replay.py\<close> over tapes, books, candles and paper positions; the candidate rules of
  \<^verbatim>\<open>strategy.py\<close> are a parameter.
  Forensics, Readiness, Completeness: the audit of rejected labels in \<^verbatim>\<open>ml/completeness.py\<close>, its
  bounded and digest-checked reader, its paged counts and the classification of one candidate.
  Labels, LabelBatches: the counterfactual outcomes of \<^verbatim>\<open>ml/labels.py\<close>, the loop over
  recorded rows and its incremental passes.
  Shown: a deletable segment is needed by no live plan, snapshot or lease; whatever prefix of a
  cleanup reaches the disk, a missing file is tombstoned and a mapped segment readable; wherever a packing run stops, every
  segment reads as before; an altered
  checkpoint releases nothing; the completed labels do not depend on how the rows were divided into
  passes; a late label is what the candles of the market say, however the polls cut them, and no
  late target is concluded over a gap; a stream of segments is complete, ordered and marks what is
  missing, and a replay keeps its components sound and concludes nothing over a gap; the paged counts see
  each candidate once, and a gap is called false only when the recorded segments decide the position.

  What is told. Identity: fingerprints and claims of \<^verbatim>\<open>identity.py\<close>. Conflicts:
  \<^verbatim>\<open>notification_conflicts.py\<close>. Outbox: \<^verbatim>\<open>Notifier.deliver\<close> as one call and as an
  interleaving machine of attempts that may crash at any point. Notifier: the decisions in front of
  it. InitialCard: \<^verbatim>\<open>deliver_initial\<close>, which composes guards, claim, delivery and settlement,
  again as one call and as interleaving cards. Macro: the news pause of \<^verbatim>\<open>macro.py\<close>. Leases:
  \<^verbatim>\<open>leases.py\<close>. Shown: at most one POST per key and per economic plan whatever crashes, deliveries that come to rest within nine steps each, one
  grant per fingerprint, a pause exactly during the scheduled windows, an opposing plan is nested inside the visible one, a result card has unambiguous
  evidence.

  HOW THE CODE IS MODELLED. A class is a record, a method a function on it; a method that mutates
  and then raises returns the mutated state with the error (\<^verbatim>\<open>py_error + value\<close>). SQLite
  rows are lists or maps of records and one transaction is one step. Dictionaries of evidence and
  coverage are records with optional fields where the code reads named keys, and JSON where it
  inspects nested evidence. Times are integers (milliseconds). Prices, sizes, floats and Decimals
  are rationals, so rounding, overflow and NaN arithmetic are abstracted away except where the code
  tests for them; texts that only explain are omitted. Clocks, hashes, time zones, HTTP answers,
  candle pages, store failures and crash points are arguments, events or parameters. Messages are
  modelled after parsing: a malformed decimal is outside the model.

  BOUNDS. All functions are total: loops are structural or carry a measure (the value area walk,
  the scan for its centre); no fuel is used. The delivery machine and the recorder are runs of
  arbitrary length, with any number of attempts or events.

  NOT MODELLED. Network adapters, websocket routing, FastAPI routes, the command line and SQLite
  itself (input and output); scanner coordination outside the visit of a plan (discovery, task scheduling);
  card layout; the reading of files, orphaned files and directory scans; machine-learning
  training and the parameter search (third-party numerics). The remaining feature extraction over float
  series and the scored policy gates of the quality modules are large families of policy constants and
  are not modelled.
\<close>

section \<open>Properties across components\<close>



end
